(* ===== verification/Prelude.thy ===== *)
theory Prelude
  imports Main "HOL-Library.Word"
begin

text \<open>
  Shared vocabulary of the development: the machine types of the C code, the faults a C
  function can run into (a failed \<open>assert\<close>, a read of uninitialised or freed memory, an
  index out of range), the sequencing of fallible operations, and the generic lemmas on
  lists, results and words that the component theories use.
\<close>

unbundle bit_operations_syntax

section \<open>Machine types\<close>

type_synonym u8 = "8 word"
type_synonym u16 = "16 word"
type_synonym u32 = "32 word"
type_synonym u64 = "64 word"

text \<open>A pointer value; \<open>0\<close> is \<^verbatim>\<open>NULL\<close>.\<close>

type_synonym ptr = "64 word"

section \<open>Faults and results\<close>

datatype fault =
    Assert_failed    \<comment> \<open>an \<open>assert\<close> of the source fails\<close>
  | Uninit_read      \<comment> \<open>a cell is read that was never written\<close>
  | Bad_pointer      \<comment> \<open>a null, dangling or unknown object is dereferenced\<close>
  | Out_of_range     \<comment> \<open>an array index is outside its array\<close>
  | Out_of_fuel      \<comment> \<open>a loop did not end within the bound given for it\<close>
  | Int_overflow     \<comment> \<open>a size does not fit the \<open>int\<close> that the source keeps it in\<close>
  | Null_parameter   \<comment> \<open>a service passed \<open>NULL\<close> for a text that the engine dereferences\<close>
  | Missing_word     \<comment> \<open>a text has fewer words than \<open>sscanf\<close> is asked for, and the array it left unset is read\<close>
  | Handle_clash     \<comment> \<open>a handle is issued again while the queue of its last owner exists\<close>
  | Exited           \<comment> \<open>the process ends by \<open>exit(1)\<close>\<close>

type_synonym 'a res = "fault + 'a"

definition andThen :: "'a res \<Rightarrow> ('a \<Rightarrow> 'b res) \<Rightarrow> 'b res" where
  "andThen m f = (case m of Inl e \<Rightarrow> Inl e | Inr x \<Rightarrow> f x)"

lemma andThen_simps [simp]:
  "andThen (Inl e) f = Inl e"
  "andThen (Inr x) f = f x"
  by (simp_all add: andThen_def)

lemma andThen_Inr_iff: "andThen m f = Inr y \<longleftrightarrow> (\<exists>x. m = Inr x \<and> f x = Inr y)"
  by (cases m) auto

definition assert_that :: "bool \<Rightarrow> unit res" where
  "assert_that b = (if b then Inr () else Inl Assert_failed)"

lemma assert_that_simps [simp]:
  "assert_that True = Inr ()"
  "assert_that False = Inl Assert_failed"
  by (simp_all add: assert_that_def)

lemma assert_that_Inr_iff [simp]: "assert_that b = Inr u \<longleftrightarrow> b"
  by (simp add: assert_that_def)

text \<open>Dereferencing an object of a store: freed and unknown addresses fault.\<close>

definition deref :: "('k \<rightharpoonup> 'v) \<Rightarrow> 'k \<Rightarrow> 'v res" where
  "deref m k = (case m k of None \<Rightarrow> Inl Bad_pointer | Some v \<Rightarrow> Inr v)"

lemma deref_Some [simp]: "m k = Some v \<Longrightarrow> deref m k = Inr v"
  by (simp add: deref_def)

lemma deref_Inr_iff: "deref m k = Inr v \<longleftrightarrow> m k = Some v"
  by (simp add: deref_def split: option.splits)

text \<open>Array cells that \<open>malloc\<close> leaves uninitialised are \<open>None\<close>.\<close>

definition read_cell :: "'a option list \<Rightarrow> nat \<Rightarrow> 'a res" where
  "read_cell xs i =
     (if i < length xs then (case xs ! i of None \<Rightarrow> Inl Uninit_read | Some v \<Rightarrow> Inr v)
      else Inl Out_of_range)"

definition write_cell :: "'a option list \<Rightarrow> nat \<Rightarrow> 'a \<Rightarrow> 'a option list res" where
  "write_cell xs i v = (if i < length xs then Inr (xs[i := Some v]) else Inl Out_of_range)"

lemma read_cell_Some [simp]: "i < length xs \<Longrightarrow> xs ! i = Some v \<Longrightarrow> read_cell xs i = Inr v"
  by (simp add: read_cell_def)

lemma write_cell_ok [simp]: "i < length xs \<Longrightarrow> write_cell xs i v = Inr (xs[i := Some v])"
  by (simp add: write_cell_def)

text \<open>Sequencing of steps that emit effects.\<close>

definition thenOut :: "('s \<times> 'e list) res \<Rightarrow> ('s \<Rightarrow> ('t \<times> 'e list) res) \<Rightarrow> ('t \<times> 'e list) res" where
  "thenOut m f = andThen m (\<lambda>(s, out). andThen (f s) (\<lambda>(t, out'). Inr (t, out @ out')))"

lemma thenOut_simps [simp]:
  "thenOut (Inl e) f = Inl e"
  "thenOut (Inr (s, out)) f = andThen (f s) (\<lambda>(t, out'). Inr (t, out @ out'))"
  by (simp_all add: thenOut_def)

section \<open>Outcomes\<close>

text \<open>
  \<open>ends_in E m G\<close>: the call \<open>m\<close> ends with a result in \<open>G\<close>, or with one of the faults in \<open>E\<close>.
\<close>

definition ends_in :: "fault set \<Rightarrow> 'a res \<Rightarrow> ('a \<Rightarrow> bool) \<Rightarrow> bool" where
  "ends_in E m G = (case m of Inl e \<Rightarrow> e \<in> E | Inr r \<Rightarrow> G r)"

lemma ends_in_simps [simp]: "ends_in E (Inl e) G = (e \<in> E)" "ends_in E (Inr r) G = G r"
  by (simp_all add: ends_in_def)

lemma ends_in_andThen: "ends_in E m F \<Longrightarrow> (\<And>r. F r \<Longrightarrow> ends_in E (f r) G) \<Longrightarrow> ends_in E (andThen m f) G"
  by (cases m) auto

lemma ends_in_weaken: "ends_in E m F \<Longrightarrow> (\<And>r. F r \<Longrightarrow> G r) \<Longrightarrow> ends_in E m G"
  by (cases m) auto

lemma ends_in_deref: "m k = Some v \<Longrightarrow> ends_in E (f v) G \<Longrightarrow> ends_in E (andThen (deref m k) f) G"
  by simp

lemma ends_in_assert: "Assert_failed \<in> E \<Longrightarrow> (b \<Longrightarrow> ends_in E (f ()) G) \<Longrightarrow> ends_in E (andThen (assert_that b) f) G"
  by (cases b) auto

section \<open>Indices of a ring\<close>

lemma ring_index_inj:
  fixes h :: nat
  assumes "i < c" and "j < c" and "(h + i) mod c = (h + j) mod c"
  shows "i = j"
proof -
  have "(int h + int i) mod int c = (int h + int j) mod int c"
    using assms(3) by (metis of_nat_add of_nat_mod)
  then have "int c dvd (int i - int j)"
    by (metis add_diff_cancel_left mod_eq_dvd_iff)
  moreover have "\<bar>int i - int j\<bar> < int c" using assms by linarith
  ultimately show ?thesis using dvd_imp_le_int [of "int i - int j" "int c"] by fastforce
qed

lemma map_upt_cong: "(\<And>i. i < n \<Longrightarrow> f i = g i) \<Longrightarrow> map f [0..<n] = map g [0..<n]"
  by simp

section \<open>Options\<close>

lemma option_eqI: "(\<And>c. x = Some c \<longleftrightarrow> y = Some c) \<Longrightarrow> x = y"
  by (cases x; cases y) auto

section \<open>Words: masks\<close>

lemma unat_and_mask: "unat ((h::'a::len word) AND mask k) = unat h mod 2 ^ k"
proof -
  have "unat (h AND mask k) = take_bit k (unat h)"
    unfolding take_bit_eq_mask [symmetric] by (rule unsigned_take_bit_eq)
  then show ?thesis by (simp add: take_bit_eq_mod)
qed

lemma unat_and_mask_mod:
  "k \<le> l \<Longrightarrow> unat ((h::'a::len word) AND mask l) mod 2 ^ k = unat h mod 2 ^ k"
  by (simp only: unat_and_mask mod_mod_cancel le_imp_power_dvd)

lemma unat_plus_mod_pow:
  "k \<le> LENGTH('a) \<Longrightarrow> unat (a + b :: 'a::len word) mod 2 ^ k = (unat a + unat b) mod 2 ^ k"
  by (simp only: unat_word_ariths mod_mod_cancel le_imp_power_dvd)

text \<open>Two disjoint bit fields: each can be read back.\<close>

lemma or_field_low: "(h::'a::len word) AND m = h \<Longrightarrow> b AND m = 0 \<Longrightarrow> (h OR b) AND m = h"
  by (simp add: bit.conj_disj_distrib2)

lemma or_field_high:
  assumes "(h::'a::len word) AND m = h" and "b AND m = 0"
  shows "(h OR b) AND NOT m = b"
proof (rule bit_word_eqI)
  fix n assume n: "n < LENGTH('a)"
  from assms have "bit (h AND m) n = bit h n" "\<not> bit (b AND m) n" by simp_all
  then show "bit ((h OR b) AND NOT m) n = bit b n" using n by (auto simp: bit_simps)
qed

text \<open>Setting the low bits compares the high ones, and shifts are divisions.\<close>

lemma or_mask_eq_iff:
  "((a::'a::len word) OR mask k) = (b OR mask k) \<longleftrightarrow> drop_bit k a = drop_bit k b"
proof
  assume h: "(a OR mask k) = (b OR mask k)"
  have "drop_bit k (a OR mask k) = drop_bit k a" for a :: "'a word"
    by (rule bit_word_eqI) (auto simp: bit_simps)
  with h show "drop_bit k a = drop_bit k b" by metis
next
  assume h: "drop_bit k a = drop_bit k b"
  show "(a OR mask k) = (b OR mask k)"
  proof (rule bit_word_eqI)
    fix n assume "n < LENGTH('a)"
    moreover have "bit (drop_bit k a) (n - k) = bit (drop_bit k b) (n - k)" using h by simp
    ultimately show "bit (a OR mask k) n = bit (b OR mask k) n"
      by (cases "n < k") (auto simp: bit_simps)
  qed
qed

lemma unat_drop_bit: "unat (drop_bit k (a::'a::len word)) = unat a div 2 ^ k"
  by (simp only: unsigned_drop_bit_eq) (simp add: drop_bit_eq_div take_bit_nat_eq_self)

lemma or_mask_div_iff:
  "((a::'a::len word) OR mask k) = (b OR mask k) \<longleftrightarrow> unat a div 2 ^ k = unat b div 2 ^ k"
  by (simp only: or_mask_eq_iff word_unat_eq_iff [of "drop_bit k a"] unat_drop_bit)

lemma push_bit_minus_mask: "push_bit k (1::'a::len word) - 1 = mask k"
  by (simp add: mask_eq_exp_minus_1 push_bit_eq_mult)

text \<open>Positive C \<^verbatim>\<open>int\<close> values.\<close>

lemma sint_pos_uint: fixes d :: "32 word" assumes "0 \<le> sint d" shows "uint d = sint d"
proof -
  have "sint d < 2 ^ 31" using sint_lt [of d] by simp
  with assms show ?thesis unfolding uint_sint by (simp add: take_bit_eq_mod)
qed
lemma sint_pos_unat: fixes d :: "32 word" assumes "0 < sint d" shows "unat d < 2 ^ 31" and "d \<noteq> 0"
proof -
  have "uint d < 2 ^ 31" using sint_lt [of d] sint_pos_uint [of d] assms by simp
  then have "nat (uint d) < nat (2 ^ 31)" by (subst nat_less_eq_zless) simp_all
  then show "unat d < 2 ^ 31" by simp
  show "d \<noteq> 0" using assms by auto
qed

text \<open>The value of an \<^verbatim>\<open>int\<close> expression: two's complement at 32 bits.\<close>

definition wrap32 :: "int \<Rightarrow> int" where
  "wrap32 x = sint (word_of_int x :: 32 word)"

lemma wrap32_id [simp]: "- (2 ^ 31) \<le> x \<Longrightarrow> x < 2 ^ 31 \<Longrightarrow> wrap32 x = x"
  by (simp add: wrap32_def int_word_sint)

section \<open>Words from bytes\<close>

lemma unat_or_disjoint:
  assumes "unat (x::'a::len word) mod 2 ^ k = 0" "unat y < 2 ^ k"
  shows "unat (x OR y) = unat x + unat y"
proof -
  have x: "take_bit k (unat x) = 0" using assms(1) by (simp add: take_bit_eq_mod)
  have y: "take_bit k (unat y) = unat y" using assms(2) by (simp add: take_bit_nat_eq_self)
  have "unat x AND unat y = 0"
  proof (rule bit_eqI)
    fix n
    have "\<not> bit (take_bit k (unat x)) n" "bit (unat y) n = bit (take_bit k (unat y)) n" by (simp_all add: x y)
    then show "bit (unat x AND unat y) n = bit 0 n" by (auto simp: bit_take_bit_iff bit_and_iff)
  qed
  then show ?thesis by (simp add: unsigned_or_eq disjunctive_add_eq_or)
qed
lemma unat_byte_lt: "unat (b::u8) < 256" using unsigned_less [of b] by simp

lemma unat_ucast_byte: "unat (ucast (b::u8) :: 32 word) = unat b"
  using unat_byte_lt [of b] by (simp add: unsigned_ucast_eq take_bit_eq_mod)

lemma unat_push_byte:
  assumes "k \<le> 24"
  shows "unat (push_bit k (ucast (b::u8)) :: 32 word) = unat b * 2 ^ k"
proof -
  have "(2::nat) ^ k \<le> 2 ^ 24" using assms by (intro power_increasing) simp_all
  then have "unat b * 2 ^ k < 256 * (2::nat) ^ 24"
    using unat_byte_lt [of b] by (intro mult_less_le_imp_less) simp_all
  then show ?thesis
    by (simp add: unsigned_push_bit_eq unat_ucast_byte push_bit_nat_def take_bit_eq_mod)
qed
lemma unat_or2:
  "unat (push_bit 8 (ucast (a::u8)) OR ucast (b::u8) :: 32 word) = unat a * 2 ^ 8 + unat b"
  using unat_byte_lt [of b]
  by (subst unat_or_disjoint [where k = 8]) (simp_all add: unat_push_byte unat_ucast_byte)

lemma unat_or4:
  "unat (push_bit 24 (ucast (a::u8)) OR push_bit 16 (ucast (b::u8)) OR push_bit 8 (ucast (c::u8)) OR ucast (d::u8) :: 32 word)
     = unat a * 2 ^ 24 + unat b * 2 ^ 16 + unat c * 2 ^ 8 + unat d"
proof -
  note lt = unat_byte_lt [of a] unat_byte_lt [of b] unat_byte_lt [of c] unat_byte_lt [of d]
  note p = unat_push_byte unat_ucast_byte
  have 1: "unat (push_bit 8 (ucast c) OR ucast d :: 32 word) = unat c * 2 ^ 8 + unat d" by (rule unat_or2)
  have 2: "unat (push_bit 16 (ucast b) OR push_bit 8 (ucast c) OR ucast d :: 32 word) =
      unat b * 2 ^ 16 + (unat c * 2 ^ 8 + unat d)"
    using lt by (subst unat_or_disjoint [where k = 16]) (simp_all add: p 1)
  show ?thesis
    using lt by (subst unat_or_disjoint [where k = 24]) (simp_all add: p 2)
qed

lemma sint_small: "unat (w::32 word) < 2 ^ 31 \<Longrightarrow> sint w = int (unat w)"
proof -
  assume "unat w < 2 ^ 31"
  then have u: "uint w < 2 ^ 31" by (simp add: nat_less_iff flip: nat_uint_eq)
  have "w = word_of_int (uint w)" by simp
  then have "sint w = wrap32 (uint w)" unfolding wrap32_def by simp
  moreover have "- (2 ^ 31) \<le> uint w" by (rule order_trans [of _ 0]) simp_all
  ultimately show ?thesis using u wrap32_id [of "uint w"] by simp
qed

lemma sint_large: "2 ^ 31 \<le> unat (w::32 word) \<Longrightarrow> sint w < 0"
proof -
  assume "2 ^ 31 \<le> unat w"
  then have u: "2 ^ 31 \<le> uint w" by (simp add: le_nat_iff flip: nat_uint_eq)
  have l: "uint w < 2 ^ 32" using uint_lt2p [of w] by simp
  have "sint (word_of_int (uint w) :: 32 word) = (uint w + 2 ^ 31) mod 2 ^ 32 - 2 ^ 31"
    by (subst int_word_sint) simp
  also have "(uint w + 2 ^ 31) mod 2 ^ 32 = uint w - 2 ^ 31"
  proof -
    have "uint w + 2 ^ 31 = (uint w - 2 ^ 31) + 2 ^ 32" by simp
    then have "(uint w + 2 ^ 31) mod 2 ^ 32 = (uint w - 2 ^ 31) mod 2 ^ 32" by (metis mod_add_self2)
    then show ?thesis using u l by simp
  qed
  finally show ?thesis using l by simp
qed

section \<open>Reachable states and invariants\<close>

text \<open>The states a step relation can reach from the start state.\<close>

inductive reachable :: "'s \<Rightarrow> ('s \<Rightarrow> 's \<Rightarrow> bool) \<Rightarrow> 's \<Rightarrow> bool"
  for init :: 's and step :: "'s \<Rightarrow> 's \<Rightarrow> bool" where
  start: "reachable init step init"
| step: "reachable init step s \<Longrightarrow> step s t \<Longrightarrow> reachable init step t"

text \<open>The contract of an inductive invariant, and what it gives: it holds in every reachable state.\<close>

locale safety =
  fixes init :: 's and step :: "'s \<Rightarrow> 's \<Rightarrow> bool" and inv :: "'s \<Rightarrow> bool"
  assumes init_inv: "inv init"
    and step_inv: "step s t \<Longrightarrow> inv s \<Longrightarrow> inv t"
begin

lemma reachable_inv: "reachable init step s \<Longrightarrow> inv s"
  by (induction rule: reachable.induct) (auto intro: init_inv step_inv)

end

section \<open>First-in first-out queues\<close>

text \<open>
  The contract of a queue: \<open>rep q as\<close> says that \<open>q\<close> is well formed and holds the list
  \<open>as\<close>; \<open>push\<close> appends to it, and \<open>pop\<close> takes its head or reports that there is none.
  \<open>ok q as a\<close> says that \<open>a\<close> may be pushed, and \<open>indep a b\<close> that pushing \<open>a\<close> leaves
  \<open>b\<close> pushable.
\<close>

locale fifo =
  fixes push :: "'q \<Rightarrow> 'a \<Rightarrow> 'q res"
    and pop :: "'q \<Rightarrow> ('q \<times> 'a option) res"
    and rep :: "'q \<Rightarrow> 'a list \<Rightarrow> bool"
    and ok :: "'q \<Rightarrow> 'a list \<Rightarrow> 'a \<Rightarrow> bool"
    and indep :: "'a \<Rightarrow> 'a \<Rightarrow> bool"
  assumes push_spec: "rep q as \<Longrightarrow> ok q as a \<Longrightarrow>
      \<exists>q'. push q a = Inr q' \<and> rep q' (as @ [a]) \<and>
        (\<forall>b. ok q as b \<longrightarrow> indep a b \<longrightarrow> ok q' (as @ [a]) b)"
    and pop_Nil: "rep q [] \<Longrightarrow> \<exists>q'. pop q = Inr (q', None) \<and> rep q' []"
    and pop_Cons: "rep q (a # as) \<Longrightarrow> \<exists>q'. pop q = Inr (q', Some a) \<and> rep q' as"
begin

primrec push_all :: "'q \<Rightarrow> 'a list \<Rightarrow> 'q res" where
  "push_all q [] = Inr q"
| "push_all q (a # as) = andThen (push q a) (\<lambda>q'. push_all q' as)"

primrec pop_n :: "nat \<Rightarrow> 'q \<Rightarrow> ('q \<times> 'a option list) res" where
  "pop_n 0 q = Inr (q, [])"
| "pop_n (Suc n) q = andThen (pop q) (\<lambda>(q', r).
     andThen (pop_n n q') (\<lambda>(q'', rs). Inr (q'', r # rs)))"

lemma push_all_spec:
  "rep q bs \<Longrightarrow> \<forall>a\<in>set as. ok q bs a \<Longrightarrow> sorted_wrt indep as \<Longrightarrow>
    \<exists>q'. push_all q as = Inr q' \<and> rep q' (bs @ as)"
proof (induction as arbitrary: q bs)
  case Nil
  then show ?case by simp
next
  case (Cons a as)
  then obtain q' where q': "push q a = Inr q'" "rep q' (bs @ [a])"
      "\<forall>b. ok q bs b \<longrightarrow> indep a b \<longrightarrow> ok q' (bs @ [a]) b"
    using push_spec [of q bs a] by auto
  with Cons.prems have "\<forall>b\<in>set as. ok q' (bs @ [a]) b" by auto
  with Cons.IH [OF q'(2)] Cons.prems q' show ?case by fastforce
qed

lemma pop_n_spec:
  "rep q as \<Longrightarrow> \<exists>q'. pop_n (length as) q = Inr (q', map Some as) \<and> rep q' []"
proof (induction as arbitrary: q)
  case Nil
  then show ?case by simp
next
  case (Cons a as)
  then obtain q' where q': "pop q = Inr (q', Some a)" "rep q' as"
    using pop_Cons by blast
  with Cons.IH [OF q'(2)] show ?case by auto
qed

text \<open>What is pushed comes out, in the same order, after what was there before.\<close>

lemma push_all_pop_n:
  assumes "rep q bs" and "\<forall>a\<in>set as. ok q bs a" and "sorted_wrt indep as"
  shows "\<exists>q' q''. push_all q as = Inr q' \<and>
    pop_n (length bs + length as) q' = Inr (q'', map Some (bs @ as)) \<and> rep q'' []"
proof -
  from push_all_spec [OF assms] obtain q' where "push_all q as = Inr q'" "rep q' (bs @ as)"
    by blast
  with pop_n_spec [of q' "bs @ as"] show ?thesis by auto
qed

end

end
