(* ===== verification/Locks.thy ===== *)
theory Locks
  imports Prelude
begin

text \<open>
  Model of \<^verbatim>\<open>skynet-src/spinlock.h\<close> and \<^verbatim>\<open>skynet-src/rwlock.h\<close> (the variants built on the
  \<^verbatim>\<open>__sync\<close> builtins). Any number of threads run the lock code, one memory access at a time,
  in any order: every access (a plain read of a flag, a test-and-set, an atomic addition)
  is one step, and the thread's place in the code is its program counter. The theorems
  justify that the other theories treat a locked region as one atomic step.
\<close>

section \<open>The spin lock\<close>

text \<open>\<^verbatim>\<open>__sync_lock_test_and_set\<close>: the old value, and the new content.\<close>

definition test_and_set :: "int \<Rightarrow> int \<Rightarrow> int \<times> int" where
  "test_and_set cell v = (cell, v)"

record spinlock =
  lock :: int

definition spinlock_init :: spinlock where
  "spinlock_init = \<lparr>lock = 0\<rparr>"

text \<open>One turn of the loop in \<open>spinlock_lock\<close>: the loop goes on while the old value is not 0.\<close>

definition spinlock_lock_turn :: "spinlock \<Rightarrow> spinlock \<times> bool" where
  "spinlock_lock_turn l =
     (let (old, new) = test_and_set (lock l) 1 in (l\<lparr>lock := new\<rparr>, old \<noteq> 0))"

definition spinlock_trylock :: "spinlock \<Rightarrow> spinlock \<times> bool" where
  "spinlock_trylock l =
     (let (old, new) = test_and_set (lock l) 1 in (l\<lparr>lock := new\<rparr>, old = 0))"

definition spinlock_unlock :: "spinlock \<Rightarrow> spinlock" where
  "spinlock_unlock l = l\<lparr>lock := 0\<rparr>"

datatype spin_pc = Out | Spinning | Inside

record spin_sys =
  spin :: spinlock
  spc :: "nat \<Rightarrow> spin_pc"

definition spin_start :: spin_sys where
  "spin_start = \<lparr>spin = spinlock_init, spc = (\<lambda>_. Out)\<rparr>"

inductive spin_step :: "spin_sys \<Rightarrow> spin_sys \<Rightarrow> bool" where
  call: "spc s t = Out \<Longrightarrow> spin_step s (s\<lparr>spc := (spc s)(t := Spinning)\<rparr>)"
| turn: "spc s t = Spinning \<Longrightarrow> spinlock_lock_turn (spin s) = (l, again) \<Longrightarrow>
    spin_step s (s\<lparr>spin := l, spc := (spc s)(t := (if again then Spinning else Inside))\<rparr>)"
| trylock: "spc s t = Out \<Longrightarrow> spinlock_trylock (spin s) = (l, got) \<Longrightarrow>
    spin_step s (s\<lparr>spin := l, spc := (spc s)(t := (if got then Inside else Out))\<rparr>)"
| unlock: "spc s t = Inside \<Longrightarrow>
    spin_step s (s\<lparr>spin := spinlock_unlock (spin s), spc := (spc s)(t := Out)\<rparr>)"

definition spin_inv :: "spin_sys \<Rightarrow> bool" where
  "spin_inv s \<longleftrightarrow> lock (spin s) \<in> {0, 1} \<and> (lock (spin s) = 0 \<longrightarrow> (\<forall>t. spc s t \<noteq> Inside)) \<and>
     (\<forall>t u. spc s t = Inside \<longrightarrow> spc s u = Inside \<longrightarrow> t = u)"

interpretation spinlock: safety spin_start spin_step spin_inv
proof
  fix s t
  assume "spin_step s t" and "spin_inv s"
  then show "spin_inv t"
    by (induction rule: spin_step.induct)
      (auto simp: spin_inv_def spinlock_lock_turn_def spinlock_trylock_def spinlock_unlock_def
        test_and_set_def Let_def split: if_splits)
qed (simp add: spin_inv_def spin_start_def spinlock_init_def)

section \<open>The reader-writer lock\<close>

record rwlock =
  "write" :: int
  read :: int

definition rwlock_init :: rwlock where
  "rwlock_init = \<lparr>write = 0, read = 0\<rparr>"

text \<open>
  Where a thread is: in \<open>rwlock_rlock\<close> waiting for the writer (\<open>RWait\<close>), about to announce
  itself (\<open>RAdd\<close>), about to look for a writer again (\<open>RCheck\<close>), about to withdraw (\<open>RSub\<close>);
  in \<open>rwlock_wlock\<close> at the test-and-set (\<open>WSet\<close>) or waiting for the readers (\<open>WWait\<close>).
\<close>

datatype rw_pc = Idle | RWait | RAdd | RCheck | RSub | Reading | WSet | WWait | Writing

fun rwlock_rlock_turn :: "rwlock \<Rightarrow> rw_pc \<Rightarrow> rwlock \<times> rw_pc" where
  "rwlock_rlock_turn l RWait = (l, if write l \<noteq> 0 then RWait else RAdd)"
| "rwlock_rlock_turn l RAdd = (l\<lparr>read := read l + 1\<rparr>, RCheck)"
| "rwlock_rlock_turn l RCheck = (l, if write l \<noteq> 0 then RSub else Reading)"
| "rwlock_rlock_turn l RSub = (l\<lparr>read := read l - 1\<rparr>, RWait)"
| "rwlock_rlock_turn l pc = (l, pc)"

fun rwlock_wlock_turn :: "rwlock \<Rightarrow> rw_pc \<Rightarrow> rwlock \<times> rw_pc" where
  "rwlock_wlock_turn l WSet =
     (let (old, new) = test_and_set (write l) 1
      in (l\<lparr>write := new\<rparr>, if old \<noteq> 0 then WSet else WWait))"
| "rwlock_wlock_turn l WWait = (l, if read l \<noteq> 0 then WWait else Writing)"
| "rwlock_wlock_turn l pc = (l, pc)"

definition rwlock_wunlock :: "rwlock \<Rightarrow> rwlock" where
  "rwlock_wunlock l = l\<lparr>write := 0\<rparr>"

definition rwlock_runlock :: "rwlock \<Rightarrow> rwlock" where
  "rwlock_runlock l = l\<lparr>read := read l - 1\<rparr>"

record rw_sys =
  rw :: rwlock
  rpc :: "nat \<Rightarrow> rw_pc"

definition rw_start :: rw_sys where
  "rw_start = \<lparr>rw = rwlock_init, rpc = (\<lambda>_. Idle)\<rparr>"

inductive rw_step :: "rw_sys \<Rightarrow> rw_sys \<Rightarrow> bool" where
  call_r: "rpc s t = Idle \<Longrightarrow> rw_step s (s\<lparr>rpc := (rpc s)(t := RWait)\<rparr>)"
| call_w: "rpc s t = Idle \<Longrightarrow> rw_step s (s\<lparr>rpc := (rpc s)(t := WSet)\<rparr>)"
| turn_r: "rpc s t \<in> {RWait, RAdd, RCheck, RSub} \<Longrightarrow> rwlock_rlock_turn (rw s) (rpc s t) = (l, pc) \<Longrightarrow>
    rw_step s (s\<lparr>rw := l, rpc := (rpc s)(t := pc)\<rparr>)"
| turn_w: "rpc s t \<in> {WSet, WWait} \<Longrightarrow> rwlock_wlock_turn (rw s) (rpc s t) = (l, pc) \<Longrightarrow>
    rw_step s (s\<lparr>rw := l, rpc := (rpc s)(t := pc)\<rparr>)"
| runlock: "rpc s t = Reading \<Longrightarrow>
    rw_step s (s\<lparr>rw := rwlock_runlock (rw s), rpc := (rpc s)(t := Idle)\<rparr>)"
| wunlock: "rpc s t = Writing \<Longrightarrow>
    rw_step s (s\<lparr>rw := rwlock_wunlock (rw s), rpc := (rpc s)(t := Idle)\<rparr>)"

text \<open>The threads counted in \<open>read\<close>, and the thread that owns \<open>write\<close>.\<close>

definition readers :: "rw_sys \<Rightarrow> nat set" where
  "readers s = {t. rpc s t \<in> {RCheck, RSub, Reading}}"

definition writers :: "rw_sys \<Rightarrow> nat set" where
  "writers s = {t. rpc s t \<in> {WWait, Writing}}"

definition rw_inv :: "rw_sys \<Rightarrow> bool" where
  "rw_inv s \<longleftrightarrow> finite (readers s) \<and> read (rw s) = int (card (readers s)) \<and>
     write (rw s) \<in> {0, 1} \<and> (write (rw s) = 0 \<longleftrightarrow> writers s = {}) \<and>
     (\<forall>t u. t \<in> writers s \<longrightarrow> u \<in> writers s \<longrightarrow> t = u) \<and>
     (\<forall>t u. rpc s t = Writing \<longrightarrow> rpc s u \<noteq> Reading)"

lemma readers_upd: "readers (s\<lparr>rw := l, rpc := (rpc s)(t := pc)\<rparr>) =
    (if pc \<in> {RCheck, RSub, Reading} then insert t (readers s) else readers s - {t})"
  by (auto simp: readers_def)

lemma writers_upd: "writers (s\<lparr>rw := l, rpc := (rpc s)(t := pc)\<rparr>) =
    (if pc \<in> {WWait, Writing} then insert t (writers s) else writers s - {t})"
  by (auto simp: writers_def)

text \<open>A thread that moves without changing its reader status keeps the counter right, and so on.\<close>

lemma rw_inv_move:
  assumes inv: "rw_inv s"
    and r: "read l = read (rw s) + (if pc \<in> {RCheck, RSub, Reading} then 1 else 0)
        - (if rpc s t \<in> {RCheck, RSub, Reading} then 1 else 0)"
    and w: "write l \<in> {0, 1}" "write l = 0 \<longleftrightarrow> writers s - {t} = {} \<and> pc \<notin> {WWait, Writing}"
    and own: "pc \<in> {WWait, Writing} \<Longrightarrow> writers s - {t} = {}"
    and enter: "pc = Writing \<Longrightarrow> readers s = {}" "pc = Reading \<Longrightarrow> writers s = {}"
  shows "rw_inv (s\<lparr>rw := l, rpc := (rpc s)(t := pc)\<rparr>)"
proof -
  let ?s = "s\<lparr>rw := l, rpc := (rpc s)(t := pc)\<rparr>"
  from inv have fin: "finite (readers s)" and cnt: "read (rw s) = int (card (readers s))"
    by (simp_all add: rw_inv_def)
  have mem: "t \<in> readers s \<longleftrightarrow> rpc s t \<in> {RCheck, RSub, Reading}" by (simp add: readers_def)
  have "read l = int (card (readers ?s))"
  proof (cases "t \<in> readers s")
    case True
    then have "0 < card (readers s)" using fin by (auto simp: card_gt_0_iff)
    with True r cnt fin mem show ?thesis
      unfolding readers_upd by (auto simp: card_insert_if insert_absorb)
  next
    case False
    with r cnt fin mem show ?thesis
      unfolding readers_upd by (auto simp: card_insert_if)
  qed
  moreover have "\<forall>u v. u \<in> writers ?s \<longrightarrow> v \<in> writers ?s \<longrightarrow> u = v"
    using inv own unfolding writers_upd rw_inv_def by auto
  moreover have "write l = 0 \<longleftrightarrow> writers ?s = {}"
    using w unfolding writers_upd by auto
  moreover have "rpc ?s u = Writing \<longrightarrow> rpc ?s v \<noteq> Reading" for u v
  proof -
    have "rpc s x = Writing \<Longrightarrow> rpc s y \<noteq> Reading" for x y using inv unfolding rw_inv_def by blast
    then show ?thesis using enter by (auto simp: readers_def writers_def)
  qed
  moreover have "finite (readers ?s)" using fin unfolding readers_upd by auto
  ultimately show ?thesis using w(1) by (simp add: rw_inv_def)
qed

lemma writers_owner:
  "rw_inv s \<Longrightarrow> t \<in> writers s \<Longrightarrow> writers s - {t} = {} \<and> write (rw s) = 1"
  unfolding rw_inv_def by auto

lemma rw_inv_parts:
  assumes "rw_inv s"
  shows "write (rw s) \<in> {0, 1}" "write (rw s) = 0 \<longleftrightarrow> writers s = {}" "read (rw s) = 0 \<Longrightarrow> readers s = {}"
  using assms by (auto simp: rw_inv_def card_eq_0_iff)

text \<open>A thread that is no writer and does not become one.\<close>

lemma rw_inv_reader:
  assumes inv: "rw_inv s" and t: "t \<notin> writers s" and pc: "pc \<notin> {WWait, Writing}" and w: "write l = write (rw s)"
    and r: "read l = read (rw s) + (if pc \<in> {RCheck, RSub, Reading} then 1 else 0)
        - (if rpc s t \<in> {RCheck, RSub, Reading} then 1 else 0)"
    and enter: "pc = Reading \<Longrightarrow> write (rw s) = 0"
  shows "rw_inv (s\<lparr>rw := l, rpc := (rpc s)(t := pc)\<rparr>)"
proof -
  have "writers s - {t} = writers s" using t by simp
  then show ?thesis using rw_inv_parts(1,2) [OF inv] pc w enter by (intro rw_inv_move [OF inv r]) auto
qed

lemma rw_inv_step: "rw_step s s' \<Longrightarrow> rw_inv s \<Longrightarrow> rw_inv s'"
proof (induction rule: rw_step.induct)
  case (call_r s t)
  then show ?case using rw_inv_reader [of s t RWait "rw s"] by (simp add: writers_def)
next
  case (call_w s t)
  then show ?case using rw_inv_reader [of s t WSet "rw s"] by (simp add: writers_def)
next
  case (turn_r s t l pc)
  then have "t \<notin> writers s" by (auto simp: writers_def)
  with turn_r show ?case by (intro rw_inv_reader) (auto split: if_splits)
next
  case (turn_w s t l pc)
  show ?case
  proof (cases "rpc s t = WSet")
    case True
    then have t: "writers s - {t} = writers s" by (auto simp: writers_def)
    have "writers s = {}" if "write (rw s) = 0" using rw_inv_parts(2) [OF turn_w.prems] that by simp
    moreover have "writers s \<noteq> {}" if "write (rw s) \<noteq> 0" using rw_inv_parts(2) [OF turn_w.prems] that by simp
    ultimately show ?thesis using True turn_w.hyps(2) rw_inv_parts(1) [OF turn_w.prems]
      by (intro rw_inv_move [OF turn_w.prems]) (auto simp: t test_and_set_def Let_def split: if_splits)
  next
    case False
    with turn_w have "t \<in> writers s" and l: "l = rw s" and pc: "pc = (if read (rw s) \<noteq> 0 then WWait else Writing)"
      and t: "rpc s t = WWait"
      by (auto simp: writers_def)
    have own: "writers s - {t} = {}" "write (rw s) = 1"
      using writers_owner [OF turn_w.prems \<open>t \<in> writers s\<close>] by simp_all
    with l pc t rw_inv_parts(3) [OF turn_w.prems] show ?thesis
      by (intro rw_inv_move [OF turn_w.prems]) (simp_all split: if_splits)
  qed
next
  case (runlock s t)
  then have "t \<notin> writers s" by (simp add: writers_def)
  with runlock show ?case by (intro rw_inv_reader) (simp_all add: rwlock_runlock_def)
next
  case (wunlock s t)
  then have "t \<in> writers s" by (simp add: writers_def)
  with writers_owner [OF wunlock.prems this] wunlock show ?case
    by (intro rw_inv_move) (auto simp: rwlock_wunlock_def)
qed

interpretation rwlock: safety rw_start rw_step rw_inv
proof
  fix s t
  assume "rw_step s t" and "rw_inv s"
  then show "rw_inv t" by (rule rw_inv_step)
qed (simp add: rw_inv_def rw_start_def rwlock_init_def readers_def writers_def)

section \<open>Properties\<close>

text \<open>C4: the spin lock is a mutual exclusion lock: whatever the interleaving of \<open>spinlock_lock\<close>,
  \<open>spinlock_trylock\<close> and \<open>spinlock_unlock\<close> by any number of threads, two threads are never
  inside the locked region, and while a thread is inside every further attempt fails.\<close>

theorem spinlock_mutual_exclusion:
  assumes "reachable spin_start spin_step s" and "spc s t = Inside"
  shows "(spc s u = Inside \<longrightarrow> u = t) \<and> snd (spinlock_lock_turn (spin s)) \<and>
    \<not> snd (spinlock_trylock (spin s))"
  using spinlock.reachable_inv [OF assms(1)] assms(2)
  by (auto simp: spin_inv_def spinlock_lock_turn_def spinlock_trylock_def test_and_set_def)

theorem spinlock_mutual_exclusion_witness:
  "\<not> snd (spinlock_trylock (spin (spin_start\<lparr>spin := \<lparr>lock = 1\<rparr>, spc := (spc spin_start)(3 := Inside)\<rparr>)))"
proof -
  let ?s = "spin_start\<lparr>spin := \<lparr>lock = 1\<rparr>, spc := (spc spin_start)(3 := (if True then Inside else Out))\<rparr>"
  have "spin_step spin_start ?s"
    by (rule spin_step.trylock)
      (simp_all add: spin_start_def spinlock_init_def spinlock_trylock_def test_and_set_def)
  with reachable.start have "reachable spin_start spin_step ?s" by (rule reachable.step)
  from spinlock_mutual_exclusion [OF this, of 3 0] show ?thesis by simp
qed

text \<open>C5: the reader-writer lock, run by any number of threads with every memory access
  interleaved, never lets a writer in together with a reader or another writer. In every reachable state its read
  counter is exactly the number of threads that have announced themselves and not withdrawn, and its write flag is
  set exactly while a thread waits for the readers to leave or writes.\<close>

theorem rwlock_exclusion:
  assumes "reachable rw_start rw_step s"
  shows "read (rw s) = int (card {v. rpc s v \<in> {RCheck, RSub, Reading}}) \<and> finite {v. rpc s v \<in> {RCheck, RSub, Reading}} \<and>
    write (rw s) = (if \<exists>v. rpc s v \<in> {WWait, Writing} then 1 else 0) \<and>
    (rpc s t = Writing \<longrightarrow> rpc s u \<noteq> Reading \<and> (rpc s u = Writing \<longrightarrow> u = t))"
  using rwlock.reachable_inv [OF assms]
  by (auto simp: rw_inv_def writers_def readers_def)

theorem rwlock_exclusion_witness:
  "rpc (rw_start\<lparr>rw := \<lparr>write = 1, read = 0\<rparr>, rpc := (rpc rw_start)(2 := Writing)\<rparr>) 5 \<noteq> Reading"
proof -
  let ?s1 = "rw_start\<lparr>rpc := (rpc rw_start)(2 := WSet)\<rparr>"
  let ?s2 = "?s1\<lparr>rw := \<lparr>write = 1, read = 0\<rparr>, rpc := (rpc ?s1)(2 := WWait)\<rparr>"
  let ?s3 = "?s2\<lparr>rw := \<lparr>write = 1, read = 0\<rparr>, rpc := (rpc ?s2)(2 := Writing)\<rparr>"
  have "reachable rw_start rw_step ?s1"
    by (rule reachable.step [OF reachable.start], rule rw_step.call_w) (simp add: rw_start_def)
  moreover have "rw_step ?s1 ?s2"
    by (rule rw_step.turn_w) (simp_all add: rw_start_def rwlock_init_def test_and_set_def)
  moreover have "rw_step ?s2 ?s3"
    by (rule rw_step.turn_w) (simp_all add: rw_start_def)
  ultimately have "reachable rw_start rw_step ?s3"
    by (blast intro: reachable.step)
  from rwlock_exclusion [OF this, of 2 5] show ?thesis by simp
qed

end
