(* ===== verification/MessageQueue.thy ===== *)
theory MessageQueue
  imports Prelude
begin

text \<open>
  Model of \<^verbatim>\<open>skynet-src/skynet_mq.c\<close>: the per-service message queue, a ring buffer that
  doubles when it is full, and the global queue of services that have work, an intrusive
  singly linked list threaded through the \<open>next\<close> fields of the message queues.

  A message queue is a record; the queues live in a store that maps addresses to records,
  because the global list is made of their \<open>next\<close> fields. Code between \<^verbatim>\<open>SPIN_LOCK\<close> and
  \<^verbatim>\<open>SPIN_UNLOCK\<close> is one atomic step (theory Locks proves that the lock excludes other
  threads). Indices and capacities are natural numbers: the C code keeps them in an
  \<open>int\<close>, which overflows only for a queue of \<open>2^30\<close> messages.
\<close>

section \<open>Messages\<close>

record skynet_message =
  source :: u32
  session :: "32 word"
  data :: ptr
  sz :: u64

definition MESSAGE_TYPE_MASK :: u64 where
  "MESSAGE_TYPE_MASK = drop_bit 8 (-1)"

definition MESSAGE_TYPE_SHIFT :: nat where
  "MESSAGE_TYPE_SHIFT = (8 - 1) * 8"

section \<open>Message queues\<close>

definition DEFAULT_QUEUE_SIZE :: nat where "DEFAULT_QUEUE_SIZE = 64"
definition MQ_IN_GLOBAL :: nat where "MQ_IN_GLOBAL = 1"
definition MQ_OVERLOAD :: nat where "MQ_OVERLOAD = 1024"

text \<open>The address of a message queue.\<close>

type_synonym mqid = nat

text \<open>
  \<open>cap\<close>, \<open>head\<close>, \<open>tail\<close> and the counters are \<^verbatim>\<open>int\<close> in the source and natural numbers here; these agree as long
  as fewer than \<open>2 ^ 30\<close> messages wait in a queue (lemma \<open>push_all_cap\<close>).
\<close>

record message_queue =
  handle :: u32
  cap :: nat
  head :: nat
  tail :: nat
  release :: nat
  in_global :: nat
  overload :: nat
  overload_threshold :: nat
  queue :: "skynet_message option list"
  "next" :: "mqid option"

definition skynet_mq_create :: "u32 \<Rightarrow> message_queue" where
  "skynet_mq_create h =
     \<lparr>handle = h, cap = DEFAULT_QUEUE_SIZE, head = 0, tail = 0, release = 0,
      in_global = MQ_IN_GLOBAL, overload = 0, overload_threshold = MQ_OVERLOAD,
      queue = replicate DEFAULT_QUEUE_SIZE None, next = None\<rparr>"

definition skynet_mq_handle :: "message_queue \<Rightarrow> u32" where
  "skynet_mq_handle q = handle q"

definition skynet_mq_length :: "message_queue \<Rightarrow> nat" where
  "skynet_mq_length q =
     (if head q \<le> tail q then tail q - head q else tail q + cap q - head q)"

text \<open>Returns the overload mark and clears it.\<close>

definition skynet_mq_overload :: "message_queue \<Rightarrow> message_queue \<times> nat" where
  "skynet_mq_overload q =
     (if overload q \<noteq> 0 then (q\<lparr>overload := 0\<rparr>, overload q) else (q, 0))"

text \<open>
  The loop \<open>while (length > threshold) { overload = length; threshold *= 2; }\<close>. A threshold
  of \<open>0\<close> would make it run forever; it starts at 1024 and is only ever doubled or reset.
\<close>

function raise_threshold :: "nat \<Rightarrow> nat \<Rightarrow> nat \<Rightarrow> nat \<times> nat" where
  "raise_threshold len ov th =
     (if th < len \<and> th \<noteq> 0 then raise_threshold len len (th * 2) else (ov, th))"
  by pat_completeness auto
termination
  by (relation "measure (\<lambda>(len, ov, th). len - th)") auto

declare raise_threshold.simps [simp del]

text \<open>
  \<open>skynet_mq_pop\<close>: \<open>Some m\<close> is the return value 0 with the message, \<open>None\<close> the return value
  1 (empty), which also takes the queue out of the global state.
\<close>

definition skynet_mq_pop :: "message_queue \<Rightarrow> (message_queue \<times> skynet_message option) res" where
  "skynet_mq_pop q =
     (if head q \<noteq> tail q then
        andThen (read_cell (queue q) (head q)) (\<lambda>m.
          let hd' = head q + 1;
              hd'' = (if cap q \<le> hd' then 0 else hd');
              len = (if tail q < hd'' then tail q + cap q - hd'' else tail q - hd'');
              (ov, th) = raise_threshold len (overload q) (overload_threshold q)
          in Inr (q\<lparr>head := hd'', overload := ov, overload_threshold := th\<rparr>, Some m))
      else Inr (q\<lparr>overload_threshold := MQ_OVERLOAD, in_global := 0\<rparr>, None))"

text \<open>Copying cells copies what is in them, initialised or not.\<close>

definition expand_queue :: "message_queue \<Rightarrow> message_queue" where
  "expand_queue q =
     q\<lparr>queue := map (\<lambda>i. queue q ! ((head q + i) mod cap q)) [0..<cap q] @ replicate (cap q) None,
       head := 0, tail := cap q, cap := cap q * 2\<rparr>"

text \<open>The part of \<open>skynet_mq_push\<close> that works on the ring.\<close>

definition mq_enqueue :: "message_queue \<Rightarrow> skynet_message \<Rightarrow> message_queue res" where
  "mq_enqueue q m =
     andThen (write_cell (queue q) (tail q) m) (\<lambda>cells.
       let tl' = (if cap q \<le> tail q + 1 then 0 else tail q + 1);
           q' = q\<lparr>queue := cells, tail := tl'\<rparr>
       in Inr (if head q' = tail q' then expand_queue q' else q'))"

section \<open>The global queue\<close>

record mq_world =
  mqs :: "mqid \<rightharpoonup> message_queue"
  gq_head :: "mqid option"
  gq_tail :: "mqid option"

text \<open>\<open>skynet_mq_init\<close>: the global queue is cleared.\<close>

definition skynet_mq_init :: "(mqid \<rightharpoonup> message_queue) \<Rightarrow> mq_world" where
  "skynet_mq_init ms = \<lparr>mqs = ms, gq_head = None, gq_tail = None\<rparr>"

definition set_mq :: "mqid \<Rightarrow> message_queue \<Rightarrow> mq_world \<Rightarrow> mq_world" where
  "set_mq a q w = w\<lparr>mqs := (mqs w)(a \<mapsto> q)\<rparr>"

definition skynet_globalmq_push :: "mq_world \<Rightarrow> mqid \<Rightarrow> mq_world res" where
  "skynet_globalmq_push w a =
     andThen (deref (mqs w) a) (\<lambda>q.
     andThen (assert_that (next q = None)) (\<lambda>_.
       case gq_tail w of
         Some t \<Rightarrow> andThen (deref (mqs w) t) (\<lambda>tq.
           Inr ((set_mq t (tq\<lparr>next := Some a\<rparr>) w)\<lparr>gq_tail := Some a\<rparr>))
       | None \<Rightarrow> Inr (w\<lparr>gq_head := Some a, gq_tail := Some a\<rparr>)))"

definition skynet_globalmq_pop :: "mq_world \<Rightarrow> (mq_world \<times> mqid option) res" where
  "skynet_globalmq_pop w =
     (case gq_head w of
        None \<Rightarrow> Inr (w, None)
      | Some a \<Rightarrow>
          andThen (deref (mqs w) a) (\<lambda>q.
          andThen (if next q = None
                   then andThen (assert_that (gq_tail w = Some a)) (\<lambda>_. Inr (w\<lparr>gq_head := None, gq_tail := None\<rparr>))
                   else Inr (w\<lparr>gq_head := next q\<rparr>)) (\<lambda>w'.
            Inr (set_mq a (q\<lparr>next := None\<rparr>) w', Some a))))"

definition skynet_mq_push :: "mq_world \<Rightarrow> mqid \<Rightarrow> skynet_message \<Rightarrow> mq_world res" where
  "skynet_mq_push w a m =
     andThen (deref (mqs w) a) (\<lambda>q.
     andThen (mq_enqueue q m) (\<lambda>q'.
       if in_global q' = 0
       then skynet_globalmq_push (set_mq a (q'\<lparr>in_global := MQ_IN_GLOBAL\<rparr>) w) a
       else Inr (set_mq a q' w)))"

text \<open>\<open>skynet_mq_pop\<close> on a queue of the store.\<close>

definition world_pop :: "mq_world \<Rightarrow> mqid \<Rightarrow> (mq_world \<times> skynet_message option) res" where
  "world_pop w a =
     andThen (deref (mqs w) a) (\<lambda>q.
     andThen (skynet_mq_pop q) (\<lambda>(q', r). Inr (set_mq a q' w, r)))"

definition skynet_mq_mark_release :: "mq_world \<Rightarrow> mqid \<Rightarrow> mq_world res" where
  "skynet_mq_mark_release w a =
     andThen (deref (mqs w) a) (\<lambda>q.
     andThen (assert_that (release q = 0)) (\<lambda>_.
       let w' = set_mq a (q\<lparr>release := 1\<rparr>) w
       in if in_global q \<noteq> MQ_IN_GLOBAL then skynet_globalmq_push w' a else Inr w'))"

text \<open>\<open>_release\<close> frees the queue: its address is unknown afterwards.\<close>

definition mq_free :: "mq_world \<Rightarrow> mqid \<Rightarrow> mq_world res" where
  "mq_free w a =
     andThen (deref (mqs w) a) (\<lambda>q.
     andThen (assert_that (next q = None)) (\<lambda>_. Inr (w\<lparr>mqs := (mqs w)(a := None)\<rparr>)))"

text \<open>
  \<open>_drop_queue\<close>: pop until empty, giving every message to \<open>drop_func\<close>. The loop is written
  as a partial function; \<open>None\<close> would mean that it does not return.
\<close>

partial_function (option) drop_loop ::
  "(skynet_message \<Rightarrow> 'u \<Rightarrow> 'u) \<Rightarrow> message_queue \<Rightarrow> 'u \<Rightarrow> (message_queue \<times> 'u) res option" where
  "drop_loop drop_func q ud =
     (case skynet_mq_pop q of
        Inl e \<Rightarrow> Some (Inl e)
      | Inr r \<Rightarrow> (case snd r of
            None \<Rightarrow> Some (Inr (fst r, ud))
          | Some m \<Rightarrow> drop_loop drop_func (fst r) (drop_func m ud)))"

definition drop_queue ::
  "(skynet_message \<Rightarrow> 'u \<Rightarrow> 'u) \<Rightarrow> mq_world \<Rightarrow> mqid \<Rightarrow> 'u \<Rightarrow> (mq_world \<times> 'u) res option" where
  "drop_queue drop_func w a ud =
     (case deref (mqs w) a of
        Inl e \<Rightarrow> Some (Inl e)
      | Inr q \<Rightarrow> map_option (\<lambda>r. andThen r (\<lambda>(q', ud').
          andThen (mq_free (set_mq a q' w) a) (\<lambda>w'. Inr (w', ud')))) (drop_loop drop_func q ud))"

definition skynet_mq_release ::
  "(skynet_message \<Rightarrow> 'u \<Rightarrow> 'u) \<Rightarrow> mq_world \<Rightarrow> mqid \<Rightarrow> 'u \<Rightarrow> (mq_world \<times> 'u) res option" where
  "skynet_mq_release drop_func w a ud =
     (case deref (mqs w) a of
        Inl e \<Rightarrow> Some (Inl e)
      | Inr q \<Rightarrow>
          (if release q \<noteq> 0 then drop_queue drop_func w a ud
           else Some (andThen (skynet_globalmq_push w a) (\<lambda>w'. Inr (w', ud)))))"

section \<open>The ring as a list\<close>

definition mq_cell :: "message_queue \<Rightarrow> nat \<Rightarrow> skynet_message option" where
  "mq_cell q i = queue q ! ((head q + i) mod cap q)"

definition mq_contents :: "message_queue \<Rightarrow> skynet_message list" where
  "mq_contents q = map (\<lambda>i. the (mq_cell q i)) [0..<skynet_mq_length q]"

definition mq_inv :: "message_queue \<Rightarrow> bool" where
  "mq_inv q \<longleftrightarrow> length (queue q) = cap q \<and> head q < cap q \<and> tail q < cap q \<and>
     0 < overload_threshold q \<and> (\<forall>i < skynet_mq_length q. mq_cell q i \<noteq> None)"

lemma length_mq_contents [simp]: "length (mq_contents q) = skynet_mq_length q"
  by (simp add: mq_contents_def)

lemma mq_length_less: "mq_inv q \<Longrightarrow> skynet_mq_length q < cap q"
  by (auto simp: mq_inv_def skynet_mq_length_def)

lemma mq_tail_index: "mq_inv q \<Longrightarrow> (head q + skynet_mq_length q) mod cap q = tail q"
  by (auto simp: mq_inv_def skynet_mq_length_def)

lemma mq_contents_Nil_iff: "mq_inv q \<Longrightarrow> mq_contents q = [] \<longleftrightarrow> head q = tail q"
  by (auto simp: mq_contents_def skynet_mq_length_def mq_inv_def)

lemma mq_inv_create: "mq_inv (skynet_mq_create h)"
  and mq_contents_create: "mq_contents (skynet_mq_create h) = []"
  by (simp_all add: mq_inv_def mq_contents_def skynet_mq_create_def skynet_mq_length_def
      DEFAULT_QUEUE_SIZE_def MQ_OVERLOAD_def)

lemma mq_contents_eqI:
  assumes "skynet_mq_length q = n" and "\<And>i. i < n \<Longrightarrow> mq_cell q i = Some (ms ! i)" and "length ms = n"
  shows "mq_contents q = ms"
  using assms by (auto intro: nth_equalityI simp: mq_contents_def)

lemma mq_cell_contents:
  "mq_inv q \<Longrightarrow> i < skynet_mq_length q \<Longrightarrow> mq_cell q i = Some (mq_contents q ! i)"
  by (auto simp: mq_inv_def mq_contents_def)

lemma raise_threshold_pos:
  "0 < th \<Longrightarrow> 0 < snd (raise_threshold len ov th)"
proof (induction len ov th rule: raise_threshold.induct)
  case (1 len ov th)
  then show ?case by (simp add: raise_threshold.simps [of len ov th])
qed

text \<open>The mark is raised exactly when the threshold is passed, and it is then the length.\<close>

lemma raise_threshold_spec:
  "0 < th \<Longrightarrow> raise_threshold len ov th = (ov', th') \<Longrightarrow>
     len \<le> th' \<and> ov' = (if th < len then len else ov) \<and> (\<exists>k. th' = th * 2 ^ k)"
proof (induction len ov th rule: raise_threshold.induct)
  case (1 len ov th)
  show ?case
  proof (cases "th < len")
    case True
    with "1.prems" have "raise_threshold len len (th * 2) = (ov', th')"
      by (simp add: raise_threshold.simps [of len ov th])
    with "1.IH" True "1.prems"(1) have ih: "len \<le> th'" "ov' = len" "\<exists>k. th' = th * 2 * 2 ^ k"
      by auto
    then obtain k where "th' = th * 2 ^ Suc k" by (auto simp: mult.assoc)
    then have "\<exists>k. th' = th * 2 ^ k" by blast
    with ih(1,2) True show ?thesis by simp
  next
    case False
    with "1.prems" show ?thesis
      by (auto simp: raise_threshold.simps [of len ov th] intro: exI [of _ 0])
  qed
qed

text \<open>The ring without the wrap-around: writing behind the last message extends the list.\<close>

lemma mq_enqueue_spec:
  assumes inv: "mq_inv q"
  obtains q' where "mq_enqueue q m = Inr q'" "mq_inv q'" "mq_contents q' = mq_contents q @ [m]"
    "handle q' = handle q" "in_global q' = in_global q" "release q' = release q" "next q' = next q"
proof -
  define n where "n = skynet_mq_length q"
  define t where "t = (if cap q \<le> tail q + 1 then 0 else tail q + 1)"
  define q1 where "q1 = q\<lparr>queue := (queue q)[tail q := Some m], tail := t\<rparr>"
  define q' where "q' = (if head q1 = tail q1 then expand_queue q1 else q1)"
  from inv have bounds: "length (queue q) = cap q" "head q < cap q" "tail q < cap q"
    by (auto simp: mq_inv_def)
  have n: "n < cap q" "(head q + n) mod cap q = tail q"
    using mq_length_less [OF inv] mq_tail_index [OF inv] by (simp_all add: n_def)
  have enq: "mq_enqueue q m = Inr q'"
    using bounds by (simp add: mq_enqueue_def q'_def q1_def t_def Let_def)
  have old: "mq_cell q1 i = Some (mq_contents q ! i)" if "i < n" for i
  proof -
    have "(head q + i) mod cap q \<noteq> tail q"
      using ring_index_inj [of i "cap q" n "head q"] that n by auto
    then show ?thesis
      using mq_cell_contents [OF inv, of i] that by (simp add: mq_cell_def q1_def n_def)
  qed
  have new: "mq_cell q1 n = Some m"
    using bounds n by (simp add: mq_cell_def q1_def)
  have cells: "mq_cell q1 i = Some ((mq_contents q @ [m]) ! i)" if "i < Suc n" for i
    using that old new by (cases "i = n") (auto simp: nth_append n_def)
  have t_less: "t < cap q" using bounds by (auto simp: t_def)
  have tcase: "head q1 = tail q1 \<longleftrightarrow> Suc n = cap q"
    using bounds n_def t_def by (auto simp: q1_def skynet_mq_length_def)
  have cells': "mq_cell q' i = Some ((mq_contents q @ [m]) ! i)" if "i < Suc n" for i
  proof (cases "head q1 = tail q1")
    case True
    then have "mq_cell q' i = mq_cell q1 i"
      using that tcase bounds by (simp add: q'_def q1_def mq_cell_def expand_queue_def nth_append)
    with cells that show ?thesis by simp
  next
    case False
    with cells that show ?thesis by (simp add: q'_def)
  qed
  have len': "skynet_mq_length q' = Suc n"
    using bounds tcase t_def n_def
    by (auto simp: q'_def q1_def expand_queue_def skynet_mq_length_def)
  have "mq_contents q' = mq_contents q @ [m]"
    by (rule mq_contents_eqI [OF len' cells']) (simp_all add: n_def)
  moreover have "mq_inv q'"
    using bounds t_less inv cells' len'
    by (auto simp: mq_inv_def q'_def q1_def expand_queue_def)
  ultimately show ?thesis
    using enq that by (auto simp: q'_def q1_def expand_queue_def)
qed

lemma mq_pop_Nil:
  assumes "mq_inv q" and "mq_contents q = []"
  shows "skynet_mq_pop q = Inr (q\<lparr>overload_threshold := MQ_OVERLOAD, in_global := 0\<rparr>, None)"
  using assms by (simp add: mq_contents_Nil_iff skynet_mq_pop_def)

lemma mq_pop_Cons:
  assumes inv: "mq_inv q" and "mq_contents q = m # ms"
  obtains q' where "skynet_mq_pop q = Inr (q', Some m)" "mq_inv q'" "mq_contents q' = ms"
    "handle q' = handle q" "in_global q' = in_global q" "release q' = release q" "next q' = next q"
proof -
  define h where "h = (if cap q \<le> head q + 1 then 0 else head q + 1)"
  define len where "len = (if tail q < h then tail q + cap q - h else tail q - h)"
  obtain ov th where rt: "raise_threshold len (overload q) (overload_threshold q) = (ov, th)"
    by fastforce
  define q' where "q' = q\<lparr>head := h, overload := ov, overload_threshold := th\<rparr>"
  from inv have bounds: "length (queue q) = cap q" "head q < cap q" "tail q < cap q"
      "0 < overload_threshold q"
    by (auto simp: mq_inv_def)
  have len0: "skynet_mq_length q = Suc (length ms)"
    using arg_cong [OF assms(2), of length] by simp
  then have ne: "head q \<noteq> tail q" by (auto simp: skynet_mq_length_def)
  have "mq_cell q 0 = Some m"
    using mq_cell_contents [OF inv, of 0] len0 assms(2) by simp
  then have "read_cell (queue q) (head q) = Inr m"
    using bounds by (simp add: mq_cell_def)
  with ne rt have pop: "skynet_mq_pop q = Inr (q', Some m)"
    by (auto simp: skynet_mq_pop_def Let_def q'_def h_def len_def split: if_splits)
  have len': "skynet_mq_length q' = length ms"
    using len0 bounds by (auto simp: skynet_mq_length_def q'_def h_def split: if_splits)
  have cells: "mq_cell q' i = Some (ms ! i)" if "i < length ms" for i
  proof -
    have "(h + i) mod cap q = (head q + Suc i) mod cap q"
    proof (cases "cap q \<le> head q + 1")
      case True
      with bounds have "head q + Suc i = i + cap q" by simp
      then have "(head q + Suc i) mod cap q = i mod cap q" by (metis mod_add_self2)
      with True show ?thesis by (simp add: h_def)
    qed (simp add: h_def)
    then show ?thesis
      using mq_cell_contents [OF inv, of "Suc i"] that len0 assms(2)
      by (simp add: mq_cell_def q'_def)
  qed
  have "mq_contents q' = ms"
    by (rule mq_contents_eqI [OF len' cells]) simp_all
  moreover have "mq_inv q'"
    using bounds cells len' raise_threshold_pos [of "overload_threshold q" len "overload q"] rt
    by (auto simp: mq_inv_def q'_def h_def)
  ultimately show ?thesis
    using pop that by (simp add: q'_def)
qed

definition mq_rep :: "message_queue \<Rightarrow> skynet_message list \<Rightarrow> bool" where
  "mq_rep q ms \<longleftrightarrow> mq_inv q \<and> mq_contents q = ms"

interpretation ring: fifo mq_enqueue skynet_mq_pop mq_rep "\<lambda>_ _ _. True" "\<lambda>_ _. True"
proof
  fix q ms m
  assume "mq_rep q ms"
  then have "mq_inv q" "mq_contents q = ms" by (simp_all add: mq_rep_def)
  then show "\<exists>q'. mq_enqueue q m = Inr q' \<and> mq_rep q' (ms @ [m]) \<and>
      (\<forall>b. True \<longrightarrow> True \<longrightarrow> True)"
    using mq_enqueue_spec [of q m] by (auto simp: mq_rep_def)
next
  fix q
  assume "mq_rep q []"
  then show "\<exists>q'. skynet_mq_pop q = Inr (q', None) \<and> mq_rep q' []"
    using mq_contents_Nil_iff [of q]
    by (auto simp: mq_rep_def mq_pop_Nil mq_inv_def mq_contents_def skynet_mq_length_def
        mq_cell_def MQ_OVERLOAD_def)
next
  fix q m ms
  assume "mq_rep q (m # ms)"
  then show "\<exists>q'. skynet_mq_pop q = Inr (q', Some m) \<and> mq_rep q' ms"
    using mq_pop_Cons [of q m ms] by (auto simp: mq_rep_def)
qed

section \<open>The global list\<close>

text \<open>\<open>linked ms as\<close>: the \<open>next\<close> fields run through the addresses \<open>as\<close> and end there.\<close>

fun linked :: "(mqid \<rightharpoonup> message_queue) \<Rightarrow> mqid list \<Rightarrow> bool" where
  "linked ms [] = True"
| "linked ms [a] = (\<exists>q. ms a = Some q \<and> next q = None)"
| "linked ms (a # b # as) = ((\<exists>q. ms a = Some q \<and> next q = Some b) \<and> linked ms (b # as))"

definition gq_rep :: "mq_world \<Rightarrow> mqid list \<Rightarrow> bool" where
  "gq_rep w as \<longleftrightarrow> distinct as \<and> linked (mqs w) as \<and>
     gq_head w = (if as = [] then None else Some (hd as)) \<and>
     gq_tail w = (if as = [] then None else Some (last as))"

definition gq_ok :: "mq_world \<Rightarrow> mqid list \<Rightarrow> mqid \<Rightarrow> bool" where
  "gq_ok w as a \<longleftrightarrow> a \<notin> set as \<and> (\<exists>q. mqs w a = Some q \<and> next q = None)"

lemma linked_cong:
  "\<forall>a\<in>set as. map_option next (ms a) = map_option next (ms' a) \<Longrightarrow> linked ms as = linked ms' as"
  by (induction ms as rule: linked.induct) (auto dest: sym)

lemma linked_mem: "linked ms as \<Longrightarrow> a \<in> set as \<Longrightarrow> \<exists>q. ms a = Some q"
  by (induction ms as rule: linked.induct) auto

lemma linked_last: "linked ms as \<Longrightarrow> as \<noteq> [] \<Longrightarrow> \<exists>q. ms (last as) = Some q \<and> next q = None"
  by (induction ms as rule: linked.induct) auto

lemma linked_snoc:
  "linked ms (as @ [t]) \<Longrightarrow> distinct (as @ [t]) \<Longrightarrow> a \<notin> set (as @ [t]) \<Longrightarrow>
    ms t = Some tq \<Longrightarrow> ms a = Some q \<Longrightarrow> next q = None \<Longrightarrow>
    linked (ms(t \<mapsto> tq\<lparr>next := Some a\<rparr>)) (as @ [t, a])"
proof (induction as)
  case Nil
  then show ?case by auto
next
  case (Cons b as)
  then show ?case by (cases as) auto
qed

text \<open>The push writes the \<open>next\<close> field of the old tail and nothing else.\<close>

definition strip :: "message_queue \<Rightarrow> message_queue" where
  "strip q = q\<lparr>next := None\<rparr>"

lemma strip_simps [simp]: "strip (q\<lparr>next := n\<rparr>) = strip q" "strip (strip q) = strip q"
  by (simp_all add: strip_def)

lemma globalmq_push_spec:
  assumes rep: "gq_rep w as" and ok: "gq_ok w as a"
  obtains w' where "skynet_globalmq_push w a = Inr w'" "gq_rep w' (as @ [a])"
    "\<And>b. map_option strip (mqs w' b) = map_option strip (mqs w b)"
    "\<And>b. b \<notin> set as \<Longrightarrow> mqs w' b = mqs w b"
proof -
  from ok obtain q where q: "mqs w a = Some q" "next q = None" and a: "a \<notin> set as"
    by (auto simp: gq_ok_def)
  show thesis
  proof (cases as rule: rev_cases)
    case Nil
    with rep q show ?thesis
      by (intro that [of "w\<lparr>gq_head := Some a, gq_tail := Some a\<rparr>"])
        (auto simp: gq_rep_def skynet_globalmq_push_def)
  next
    case (snoc bs t)
    with rep obtain tq where tq: "mqs w t = Some tq" and gt: "gq_tail w = Some t"
      by (auto simp: gq_rep_def dest: linked_last)
    let ?w = "(set_mq t (tq\<lparr>next := Some a\<rparr>) w)\<lparr>gq_tail := Some a\<rparr>"
    have "skynet_globalmq_push w a = Inr ?w"
      using q tq gt by (simp add: skynet_globalmq_push_def)
    moreover have "linked (mqs ?w) (bs @ [t, a])"
      using linked_snoc [of "mqs w" bs t a tq q] rep snoc a tq q
      by (simp add: gq_rep_def set_mq_def)
    then have "gq_rep ?w (as @ [a])"
      using rep snoc a by (auto simp: gq_rep_def set_mq_def hd_append)
    ultimately show ?thesis
      using snoc tq by (intro that [of ?w]) (auto simp: set_mq_def)
  qed
qed

lemma globalmq_pop_Cons:
  assumes rep: "gq_rep w (a # as)"
  obtains w' q where "skynet_globalmq_pop w = Inr (w', Some a)" "gq_rep w' as"
    "mqs w a = Some q" "mqs w' = (mqs w)(a \<mapsto> strip q)"
proof -
  from rep obtain q where q: "mqs w a = Some q" and n: "next q = (case as of [] \<Rightarrow> None | b # _ \<Rightarrow> Some b)"
    by (cases as) (auto simp: gq_rep_def)
  from rep have lk: "linked (mqs w) as" and a: "a \<notin> set as"
    by (cases as; auto simp: gq_rep_def)+
  have lk': "linked ((mqs w)(a \<mapsto> strip q)) as"
    using lk a linked_cong [of as "(mqs w)(a \<mapsto> strip q)" "mqs w"] by auto
  show thesis
  proof (cases as)
    case Nil
    with rep q n lk' show ?thesis
      by (intro that [of "set_mq a (q\<lparr>next := None\<rparr>) (w\<lparr>gq_head := None, gq_tail := None\<rparr>)" q])
        (auto simp: gq_rep_def skynet_globalmq_pop_def set_mq_def strip_def)
  next
    case (Cons b bs)
    with rep q n lk' show ?thesis
      by (intro that [of "set_mq a (q\<lparr>next := None\<rparr>) (w\<lparr>gq_head := Some b\<rparr>)" q])
        (auto simp: gq_rep_def skynet_globalmq_pop_def set_mq_def strip_def)
  qed
qed

interpretation global: fifo skynet_globalmq_push skynet_globalmq_pop gq_rep gq_ok "(\<noteq>)"
proof
  fix w as a
  assume "gq_rep w as" and ok: "gq_ok w as a"
  then obtain w' where w': "skynet_globalmq_push w a = Inr w'" "gq_rep w' (as @ [a])"
      "\<And>b. b \<notin> set as \<Longrightarrow> mqs w' b = mqs w b"
    by (rule globalmq_push_spec) blast
  then show "\<exists>w'. skynet_globalmq_push w a = Inr w' \<and> gq_rep w' (as @ [a]) \<and>
      (\<forall>b. gq_ok w as b \<longrightarrow> a \<noteq> b \<longrightarrow> gq_ok w' (as @ [a]) b)"
    by (auto simp: gq_ok_def)
next
  fix w
  assume "gq_rep w []"
  then show "\<exists>w'. skynet_globalmq_pop w = Inr (w', None) \<and> gq_rep w' []"
    by (auto simp: gq_rep_def skynet_globalmq_pop_def)
next
  fix w a as
  assume "gq_rep w (a # as)"
  then show "\<exists>w'. skynet_globalmq_pop w = Inr (w', Some a) \<and> gq_rep w' as"
    by (rule globalmq_pop_Cons) blast
qed

lemma drop_loop_total:
  "mq_inv q \<Longrightarrow> mq_contents q = ms \<Longrightarrow>
    \<exists>q'. drop_loop f q ud = Some (Inr (q', fold f ms ud)) \<and> mq_inv q' \<and> mq_contents q' = [] \<and>
      next q' = next q \<and> release q' = release q"
proof (induction ms arbitrary: q ud)
  case Nil
  with ring.pop_Nil [of q] mq_pop_Nil [of q] show ?case
    by (auto simp: drop_loop.simps [of f q ud] mq_rep_def)
next
  case (Cons m ms)
  from Cons.prems obtain q' where q': "skynet_mq_pop q = Inr (q', Some m)" "mq_inv q'" "mq_contents q' = ms"
      "handle q' = handle q" "in_global q' = in_global q" "release q' = release q" "next q' = next q"
    by (rule mq_pop_Cons)
  with Cons.IH [OF q'(2,3), of "f m ud"] show ?case
    by (simp add: drop_loop.simps [of f q ud])
qed

section \<open>Queues under concurrent workers\<close>

text \<open>
  The protocol of \<^verbatim>\<open>skynet_server.c\<close> around the queues. \<open>held\<close> is the set of queues that a
  worker thread has taken from the global list, or that a service under construction owns.
  A sender holds a reference to the receiving context, so a message is only pushed to a
  queue whose context is alive (\<open>release = 0\<close>); a worker polls a queue while it holds such
  a reference too. A dead context's queue is marked once, and the worker that takes it
  next calls \<open>skynet_mq_release\<close>.
\<close>

record mq_sys =
  world :: mq_world
  held :: "mqid set"

definition alive :: "mq_world \<Rightarrow> mqid \<Rightarrow> bool" where
  "alive w a \<longleftrightarrow> (case mqs w a of None \<Rightarrow> False | Some q \<Rightarrow> release q = 0)"

inductive mq_step :: "mq_sys \<Rightarrow> mq_sys \<Rightarrow> bool" where
  create: "mqs (world s) a = None \<Longrightarrow>
     mq_step s (s\<lparr>world := set_mq a (skynet_mq_create h) (world s), held := insert a (held s)\<rparr>)"
| send: "alive (world s) a \<Longrightarrow> skynet_mq_push (world s) a m = Inr w \<Longrightarrow> mq_step s (s\<lparr>world := w\<rparr>)"
| take: "skynet_globalmq_pop (world s) = Inr (w, Some a) \<Longrightarrow>
     mq_step s (s\<lparr>world := w, held := insert a (held s)\<rparr>)"
| poll: "a \<in> held s \<Longrightarrow> alive (world s) a \<Longrightarrow> world_pop (world s) a = Inr (w, Some m) \<Longrightarrow>
     mq_step s (s\<lparr>world := w\<rparr>)"
| idle: "a \<in> held s \<Longrightarrow> alive (world s) a \<Longrightarrow> world_pop (world s) a = Inr (w, None) \<Longrightarrow>
     mq_step s (s\<lparr>world := w, held := held s - {a}\<rparr>)"
| give_back: "a \<in> held s \<Longrightarrow> skynet_globalmq_push (world s) a = Inr w \<Longrightarrow>
     mq_step s (s\<lparr>world := w, held := held s - {a}\<rparr>)"
| mark_release: "alive (world s) a \<Longrightarrow> skynet_mq_mark_release (world s) a = Inr w \<Longrightarrow>
     mq_step s (s\<lparr>world := w\<rparr>)"
| release: "a \<in> held s \<Longrightarrow> skynet_mq_release f (world s) a () = Some (Inr (w, ())) \<Longrightarrow>
     mq_step s (s\<lparr>world := w, held := held s - {a}\<rparr>)"

definition init_sys :: mq_sys where
  "init_sys = \<lparr>world = skynet_mq_init Map.empty, held = {}\<rparr>"

abbreviation mq_reachable :: "mq_sys \<Rightarrow> bool" where
  "mq_reachable \<equiv> reachable init_sys mq_step"

text \<open>
  The invariant. A queue in the global list or in a worker's hands is marked \<open>in_global\<close>;
  any other queue of a living context is unmarked and empty; the queue of a dead context is
  always in the list or in a worker's hands.
\<close>

definition node_ok :: "mqid set \<Rightarrow> mqid \<Rightarrow> message_queue \<Rightarrow> bool" where
  "node_ok busy a q \<longleftrightarrow> mq_inv q \<and>
     (release q = 0 \<longrightarrow> (if a \<in> busy then in_global q = MQ_IN_GLOBAL
                         else in_global q = 0 \<and> mq_contents q = [])) \<and>
     (release q \<noteq> 0 \<longrightarrow> a \<in> busy)"

definition sys_rep :: "mq_world \<Rightarrow> mqid set \<Rightarrow> mqid list \<Rightarrow> bool" where
  "sys_rep w H as \<longleftrightarrow> gq_rep w as \<and> set as \<inter> H = {} \<and> H \<subseteq> dom (mqs w) \<and>
     (\<forall>a q. mqs w a = Some q \<longrightarrow> node_ok (set as \<union> H) a q \<and> (a \<notin> set as \<longrightarrow> next q = None))"

definition sys_inv :: "mq_sys \<Rightarrow> bool" where
  "sys_inv s \<longleftrightarrow> (\<exists>as. sys_rep (world s) (held s) as)"

lemma mq_inv_strip [simp]: "mq_inv (strip q) = mq_inv q" "mq_contents (strip q) = mq_contents q"
  by (simp_all add: mq_inv_def mq_contents_def mq_cell_def skynet_mq_length_def strip_def)

lemma node_ok_strip [simp]: "node_ok B a (strip q) = node_ok B a q"
proof -
  have "release (strip q) = release q" "in_global (strip q) = in_global q"
    by (simp_all add: strip_def)
  then show ?thesis by (simp add: node_ok_def)
qed

lemma sys_rep_node: "sys_rep w H as \<Longrightarrow> mqs w a = Some q \<Longrightarrow> node_ok (set as \<union> H) a q"
  by (simp add: sys_rep_def)

lemma sys_rep_next: "sys_rep w H as \<Longrightarrow> mqs w a = Some q \<Longrightarrow> a \<notin> set as \<Longrightarrow> next q = None"
  by (simp add: sys_rep_def)

lemma node_ok_inv: "node_ok B a q \<Longrightarrow> mq_inv q"
  by (simp add: node_ok_def)

lemma node_ok_other: "b \<noteq> a \<Longrightarrow> node_ok (insert a B) b q = node_ok B b q"
  "b \<noteq> a \<Longrightarrow> node_ok (B - {a}) b q = node_ok B b q"
  by (simp_all add: node_ok_def)

lemma sys_rep_gq_ok: "sys_rep w H as \<Longrightarrow> mqs w a = Some q \<Longrightarrow> a \<notin> set as \<Longrightarrow> gq_ok w as a"
  by (auto simp: sys_rep_def gq_ok_def)

text \<open>Replacing a queue by one with the same link and the same status.\<close>

lemma gq_rep_set_mq:
  "gq_rep w as \<Longrightarrow> mqs w a = Some q \<Longrightarrow> next q' = next q \<Longrightarrow> gq_rep (set_mq a q' w) as"
  using linked_cong [of as "(mqs w)(a \<mapsto> q')" "mqs w"] by (auto simp: gq_rep_def set_mq_def)

lemma sys_rep_set_mq:
  assumes "sys_rep w H as" and "mqs w a = Some q" and "next q' = next q"
    and "node_ok (set as \<union> H) a q'"
  shows "sys_rep (set_mq a q' w) H as"
  using assms gq_rep_set_mq [of w as a q q'] by (auto simp: sys_rep_def set_mq_def)

text \<open>
  A queue that is handed to the global list: out of a worker's hands, or newly marked. The
  other queues keep their status.
\<close>

lemma sys_rep_push:
  assumes rep: "gq_rep w as" and a: "a \<notin> set as" and disj: "set as \<inter> H = {}" and H: "H \<subseteq> dom (mqs w)"
    and node: "\<And>b q. mqs w b = Some q \<Longrightarrow> node_ok (insert a (set as \<union> H)) b q \<and> (b \<notin> set as \<longrightarrow> next q = None)"
    and q: "mqs w a = Some q"
  shows "\<exists>w'. skynet_globalmq_push w a = Inr w' \<and> sys_rep w' (H - {a}) (as @ [a])"
proof -
  from q a node have "gq_ok w as a" by (auto simp: gq_ok_def)
  with rep obtain w' where w': "skynet_globalmq_push w a = Inr w'" "gq_rep w' (as @ [a])"
      "\<And>b. map_option strip (mqs w' b) = map_option strip (mqs w b)"
      "\<And>b. b \<notin> set as \<Longrightarrow> mqs w' b = mqs w b"
    by (rule globalmq_push_spec) blast
  have "dom (mqs w') = dom (mqs w)"
    using w'(3) by (auto simp: dom_def) (metis map_option_is_None option.exhaust)+
  moreover have "node_ok (set (as @ [a]) \<union> (H - {a})) b q' \<and> (b \<notin> set (as @ [a]) \<longrightarrow> next q' = None)"
    if "mqs w' b = Some q'" for b q'
  proof -
    from w'(3) [of b] that obtain q0 where q0: "mqs w b = Some q0" "strip q' = strip q0"
      by (cases "mqs w b") auto
    have eq: "set (as @ [a]) \<union> (H - {a}) = insert a (set as \<union> H)" by auto
    have "node_ok (insert a (set as \<union> H)) b q'"
      using node [OF q0(1)] q0(2) node_ok_strip by metis
    moreover have "b \<notin> set as \<Longrightarrow> next q' = None"
      using w'(4) [of b] that node [of b q'] by auto
    ultimately show ?thesis by (simp only: eq) auto
  qed
  ultimately have "sys_rep w' (H - {a}) (as @ [a])"
    using w'(2) disj H by (auto simp: sys_rep_def)
  with w'(1) show ?thesis by blast
qed

lemma alive_iff: "alive w a \<longleftrightarrow> (\<exists>q. mqs w a = Some q \<and> release q = 0)"
  by (auto simp: alive_def split: option.splits)

text \<open>Each operation of the protocol succeeds and keeps the representation.\<close>

lemma mq_push_step:
  assumes rep: "sys_rep w H as" and "alive w a"
  shows "\<exists>w' as'. skynet_mq_push w a m = Inr w' \<and> sys_rep w' H as'"
proof -
  from assms obtain q where q: "mqs w a = Some q" "release q = 0" by (auto simp: alive_iff)
  from sys_rep_node [OF rep q(1)] have ok: "node_ok (set as \<union> H) a q" .
  then have inv: "mq_inv q" by (rule node_ok_inv)
  obtain q' where q': "mq_enqueue q m = Inr q'" "mq_inv q'" "mq_contents q' = mq_contents q @ [m]"
      "handle q' = handle q" "in_global q' = in_global q" "release q' = release q" "next q' = next q"
    by (rule mq_enqueue_spec [OF inv])
  show ?thesis
  proof (cases "in_global q' = 0")
    case False
    with ok q q' have "node_ok (set as \<union> H) a q'"
      by (auto simp: node_ok_def split: if_splits)
    with sys_rep_set_mq [OF rep q(1) q'(7)] False q q' show ?thesis
      by (auto simp: skynet_mq_push_def)
  next
    case True
    let ?q = "q'\<lparr>in_global := MQ_IN_GLOBAL\<rparr>"
    let ?w = "set_mq a ?q w"
    from True ok q q' have idle: "a \<notin> set as" "a \<notin> H"
      by (auto simp: node_ok_def MQ_IN_GLOBAL_def split: if_splits)
    have new: "node_ok (insert a (set as \<union> H)) a ?q"
      using q q' by (simp add: node_ok_def mq_inv_def mq_cell_def skynet_mq_length_def)
    have "\<exists>w'. skynet_globalmq_push ?w a = Inr w' \<and> sys_rep w' (H - {a}) (as @ [a])"
    proof (rule sys_rep_push)
      show "gq_rep ?w as"
        using gq_rep_set_mq [of w as a q ?q] rep q q' by (simp add: sys_rep_def)
      show "mqs ?w a = Some ?q" by (simp add: set_mq_def)
      show "node_ok (insert a (set as \<union> H)) b qb \<and> (b \<notin> set as \<longrightarrow> next qb = None)"
        if "mqs ?w b = Some qb" for b qb
      proof (cases "b = a")
        case True
        with that new sys_rep_next [OF rep q(1)] q' show ?thesis by (auto simp: set_mq_def)
      next
        case False
        with that have "mqs w b = Some qb" by (simp add: set_mq_def)
        with False sys_rep_node [OF rep this] sys_rep_next [OF rep this] show ?thesis
          by (simp add: node_ok_other)
      qed
    qed (use rep idle q in \<open>auto simp: sys_rep_def set_mq_def\<close>)
    with True idle q q' show ?thesis by (auto simp: skynet_mq_push_def)
  qed
qed

lemma globalmq_pop_step:
  assumes rep: "sys_rep w H as"
  shows "(as = [] \<and> skynet_globalmq_pop w = Inr (w, None)) \<or>
    (\<exists>a w' as'. as = a # as' \<and> skynet_globalmq_pop w = Inr (w', Some a) \<and> sys_rep w' (insert a H) as')"
proof (cases as)
  case Nil
  with rep show ?thesis by (auto simp: sys_rep_def gq_rep_def skynet_globalmq_pop_def)
next
  case (Cons a as')
  with rep obtain w' q where w': "skynet_globalmq_pop w = Inr (w', Some a)" "gq_rep w' as'"
      "mqs w a = Some q" "mqs w' = (mqs w)(a \<mapsto> strip q)"
    using globalmq_pop_Cons [of w a as'] by (auto simp: sys_rep_def)
  have "a \<notin> set as'" using rep Cons by (simp add: sys_rep_def gq_rep_def)
  moreover have "set as \<union> H = set as' \<union> insert a H" using Cons by auto
  moreover have "next (strip q) = None" by (simp add: strip_def)
  ultimately have "sys_rep w' (insert a H) as'"
    using rep w' Cons by (auto simp: sys_rep_def)
  with w' Cons show ?thesis by blast
qed

lemma world_pop_step:
  assumes rep: "sys_rep w H as" and a: "a \<in> H" "alive w a"
  shows "\<exists>w' r. world_pop w a = Inr (w', r) \<and> sys_rep w' (if r = None then H - {a} else H) as"
proof -
  from a obtain q where q: "mqs w a = Some q" "release q = 0" by (auto simp: alive_iff)
  from sys_rep_node [OF rep q(1)] have ok: "node_ok (set as \<union> H) a q" .
  with q a(1) have inv: "mq_inv q" and g: "in_global q = MQ_IN_GLOBAL"
    by (simp_all add: node_ok_def)
  show ?thesis
  proof (cases "mq_contents q")
    case Nil
    let ?q = "q\<lparr>overload_threshold := MQ_OVERLOAD, in_global := 0\<rparr>"
    have pop: "skynet_mq_pop q = Inr (?q, None)" using mq_pop_Nil [OF inv Nil] .
    have inv': "mq_inv ?q" "mq_contents ?q = []"
      using ring.pop_Nil [of q] inv Nil pop by (auto simp: mq_rep_def)
    have "a \<notin> set as" using rep a(1) by (auto simp: sys_rep_def)
    then have "node_ok (set as \<union> (H - {a})) a ?q" using inv' q by (simp add: node_ok_def)
    moreover have "node_ok (set as \<union> (H - {a})) b qb"
      if "b \<noteq> a" "node_ok (set as \<union> H) b qb" for b qb
      using that by (auto simp: node_ok_def)
    ultimately have "sys_rep (set_mq a ?q w) (H - {a}) as"
      using rep q gq_rep_set_mq [of w as a q ?q] by (auto simp: sys_rep_def set_mq_def)
    with pop q show ?thesis by (auto simp: world_pop_def)
  next
    case (Cons m ms)
    then obtain q' where q': "skynet_mq_pop q = Inr (q', Some m)" "mq_inv q'" "mq_contents q' = ms"
        "handle q' = handle q" "in_global q' = in_global q" "release q' = release q" "next q' = next q"
      by (rule mq_pop_Cons [OF inv])
    then have "node_ok (set as \<union> H) a q'" using q g a(1) by (simp add: node_ok_def)
    with sys_rep_set_mq [OF rep q(1) q'(7)] q q' show ?thesis by (auto simp: world_pop_def)
  qed
qed

lemma give_back_step:
  assumes rep: "sys_rep w H as" and a: "a \<in> H"
  shows "\<exists>w'. skynet_globalmq_push w a = Inr w' \<and> sys_rep w' (H - {a}) (as @ [a])"
proof -
  from rep a obtain q where "mqs w a = Some q" by (auto simp: sys_rep_def)
  moreover have "insert a (set as \<union> H) = set as \<union> H" using a by auto
  ultimately show ?thesis
    using rep a by (intro sys_rep_push) (auto simp: sys_rep_def)
qed

lemma mark_release_step:
  assumes rep: "sys_rep w H as" and "alive w a"
  shows "\<exists>w' as'. skynet_mq_mark_release w a = Inr w' \<and> sys_rep w' H as'"
proof -
  from assms obtain q where q: "mqs w a = Some q" "release q = 0" by (auto simp: alive_iff)
  with rep have ok: "node_ok (set as \<union> H) a q" by (simp add: sys_rep_def)
  let ?q = "q\<lparr>release := 1\<rparr>"
  let ?w = "set_mq a ?q w"
  have inv: "mq_inv ?q" using ok by (simp add: node_ok_def mq_inv_def mq_cell_def skynet_mq_length_def)
  show ?thesis
  proof (cases "a \<in> set as \<union> H")
    case True
    then have "node_ok (set as \<union> H) a ?q" using inv by (simp add: node_ok_def)
    then have "sys_rep ?w H as" using sys_rep_set_mq [OF rep q(1), of ?q] by simp
    moreover have "in_global q = MQ_IN_GLOBAL" using ok q True by (simp add: node_ok_def)
    with q have "skynet_mq_mark_release w a = Inr ?w" by (simp add: skynet_mq_mark_release_def)
    ultimately show ?thesis by blast
  next
    case False
    have "\<exists>w'. skynet_globalmq_push ?w a = Inr w' \<and> sys_rep w' (H - {a}) (as @ [a])"
    proof (rule sys_rep_push)
      show "gq_rep ?w as"
        using gq_rep_set_mq [of w as a q ?q] rep q by (simp add: sys_rep_def)
      show "mqs ?w a = Some ?q" by (simp add: set_mq_def)
      show "node_ok (insert a (set as \<union> H)) b qb \<and> (b \<notin> set as \<longrightarrow> next qb = None)"
        if "mqs ?w b = Some qb" for b qb
      proof (cases "b = a")
        case True
        with that sys_rep_next [OF rep q(1)] inv show ?thesis by (auto simp: set_mq_def node_ok_def)
      next
        case False
        with that have "mqs w b = Some qb" by (simp add: set_mq_def)
        with False sys_rep_node [OF rep this] sys_rep_next [OF rep this] show ?thesis
          by (simp add: node_ok_other)
      qed
    qed (use rep False q in \<open>auto simp: sys_rep_def set_mq_def\<close>)
    then obtain w' where w': "skynet_globalmq_push ?w a = Inr w'" "sys_rep w' H (as @ [a])"
      using False by auto
    have "in_global q \<noteq> MQ_IN_GLOBAL" using ok q False by (simp add: node_ok_def MQ_IN_GLOBAL_def)
    with q w' have "skynet_mq_mark_release w a = Inr w'" by (simp add: skynet_mq_mark_release_def)
    with w'(2) show ?thesis by blast
  qed
qed

lemma sys_rep_free:
  assumes rep: "sys_rep w H as" and a: "a \<notin> set as"
  shows "sys_rep (w\<lparr>mqs := (mqs w)(a := None)\<rparr>) (H - {a}) as"
proof -
  have "linked ((mqs w)(a := None)) as"
    using rep a linked_cong [of as "(mqs w)(a := None)" "mqs w"] by (auto simp: sys_rep_def gq_rep_def)
  moreover have "node_ok (set as \<union> (H - {a})) b q" if "b \<noteq> a" "mqs w b = Some q" for b q
  proof -
    have "set as \<union> (H - {a}) = (set as \<union> H) - {a}" using a by auto
    with that sys_rep_node [OF rep that(2)] show ?thesis by (simp add: node_ok_other)
  qed
  ultimately show ?thesis
    using rep by (auto simp: sys_rep_def gq_rep_def)
qed

lemma mq_release_step:
  assumes rep: "sys_rep w H as" and a: "a \<in> H"
  shows "\<exists>w' ud' as'. skynet_mq_release f w a ud = Some (Inr (w', ud')) \<and> sys_rep w' (H - {a}) as'"
proof -
  from rep a have "a \<in> dom (mqs w)" and na: "a \<notin> set as" by (auto simp: sys_rep_def)
  then obtain q where q: "mqs w a = Some q" by blast
  show ?thesis
  proof (cases "release q = 0")
    case True
    with give_back_step [OF rep a] q show ?thesis by (auto simp: skynet_mq_release_def)
  next
    case False
    have "mq_inv q" using sys_rep_node [OF rep q] by (rule node_ok_inv)
    from drop_loop_total [OF this refl, of f ud] obtain q' where
      dl: "drop_loop f q ud = Some (Inr (q', fold f (mq_contents q) ud))" and n: "next q' = next q"
      by auto
    have "next q = None" using sys_rep_next [OF rep q na] .
    with dl n q False have "skynet_mq_release f w a ud =
        Some (Inr ((w\<lparr>mqs := (mqs w)(a := None)\<rparr>), fold f (mq_contents q) ud))"
      by (simp add: skynet_mq_release_def drop_queue_def mq_free_def set_mq_def)
    with sys_rep_free [OF rep na] show ?thesis by blast
  qed
qed

lemma create_step:
  assumes rep: "sys_rep w H as" and a: "mqs w a = None"
  shows "sys_rep (set_mq a (skynet_mq_create h) w) (insert a H) as"
proof -
  let ?q = "skynet_mq_create h"
  have na: "a \<notin> set as" using rep a linked_mem by (fastforce simp: sys_rep_def gq_rep_def)
  have "linked ((mqs w)(a \<mapsto> ?q)) as"
    using rep na linked_cong [of as "(mqs w)(a \<mapsto> ?q)" "mqs w"] by (auto simp: sys_rep_def gq_rep_def)
  moreover have "node_ok (set as \<union> insert a H) a ?q"
    by (simp add: node_ok_def mq_inv_create) (simp add: skynet_mq_create_def)
  moreover have "next ?q = None" by (simp add: skynet_mq_create_def)
  ultimately show ?thesis
    using rep na by (auto simp: sys_rep_def gq_rep_def set_mq_def node_ok_other)
qed

lemma sys_rep_step:
  "mq_step s t \<Longrightarrow> sys_rep (world s) (held s) as \<Longrightarrow> \<exists>as'. sys_rep (world t) (held t) as'"
proof (induction rule: mq_step.induct)
  case (create s a h)
  then show ?case using create_step [of "world s" "held s" as a h] by auto
next
  case (send s a m w)
  then show ?case using mq_push_step [of "world s" "held s" as a m] by auto
next
  case (take s w a)
  then show ?case using globalmq_pop_step [of "world s" "held s" as] by auto
next
  case (poll a s w m)
  then show ?case using world_pop_step [of "world s" "held s" as a] by auto
next
  case (idle a s w)
  then show ?case using world_pop_step [of "world s" "held s" as a] by auto
next
  case (give_back a s w)
  then show ?case using give_back_step [of "world s" "held s" as a] by auto
next
  case (mark_release s a w)
  then show ?case using mark_release_step [of "world s" "held s" as a] by auto
next
  case (release a s f w)
  then show ?case using mq_release_step [of "world s" "held s" as a f "()"] by auto
qed

interpretation mq: safety init_sys mq_step sys_inv
proof
  show "sys_inv init_sys"
    by (auto simp: sys_inv_def sys_rep_def init_sys_def skynet_mq_init_def gq_rep_def intro: exI [of _ "[]"])
next
  fix s t
  assume "mq_step s t" and "sys_inv s"
  then show "sys_inv t" using sys_rep_step by (auto simp: sys_inv_def)
qed

section \<open>Properties\<close>

text \<open>
  \<open>cap\<close>, \<open>head\<close> and \<open>tail\<close> are \<^verbatim>\<open>int\<close> in the source. The buffer is doubled only when it is full, so its size is
  at most twice the number of messages.
\<close>

lemma mq_enqueue_cap:
  assumes "mq_inv q" and "mq_enqueue q m = Inr q'"
  shows "cap q' \<le> max (cap q) (2 * length (mq_contents q'))"
  using assms by (auto simp: mq_enqueue_def expand_queue_def skynet_mq_length_def mq_inv_def Let_def)

lemma push_all_cap:
  "mq_inv q \<Longrightarrow> ring.push_all q ms = Inr q' \<Longrightarrow> cap q' \<le> max (cap q) (2 * (length (mq_contents q) + length ms)) \<and> mq_inv q'"
proof (induction ms arbitrary: q)
  case (Cons m ms)
  obtain q1 where q1: "mq_enqueue q m = Inr q1" "mq_inv q1" "mq_contents q1 = mq_contents q @ [m]"
    by (rule mq_enqueue_spec [OF Cons.prems(1)])
  have "length (mq_contents q1) = Suc (length (mq_contents q))" using q1(3) by (simp del: length_mq_contents)
  moreover have "cap q' \<le> max (cap q1) (2 * (length (mq_contents q1) + length ms)) \<and> mq_inv q'"
    using Cons.IH [OF q1(2)] Cons.prems(2) q1(1) by simp
  ultimately show ?case using mq_enqueue_cap [OF Cons.prems(1) q1(1)] by (auto simp: le_max_iff_disj simp del: length_mq_contents)
qed simp

text \<open>C1: the growing ring buffer of \<open>skynet_mq_push\<close> and \<open>skynet_mq_pop\<close> is a FIFO queue as long as fewer than
  \<open>2 ^ 30\<close> messages wait in it (doubling a larger buffer would overflow the \<^verbatim>\<open>int\<close> that holds its size):
  from any well-formed queue with content \<open>bs\<close>, pushing \<open>ms\<close> (with as many doublings of the
  buffer as it takes) and then popping \<open>length bs + length ms\<close> times succeeds, returns
  exactly \<open>bs @ ms\<close> in order, and leaves the queue well formed and empty. No cell outside the
  buffer and no uninitialised cell is ever read, and the size of the buffer and the two indices in it fit an \<^verbatim>\<open>int\<close>.\<close>

theorem mq_fifo:
  assumes "mq_inv q" and "cap q \<le> 2 ^ 30" and "length (mq_contents q) + length ms < 2 ^ 30"
  shows "\<exists>q' q''. ring.push_all q ms = Inr q' \<and>
    ring.pop_n (length (mq_contents q) + length ms) q' = Inr (q'', map Some (mq_contents q @ ms)) \<and>
    mq_inv q'' \<and> mq_contents q'' = [] \<and> cap q' < 2 ^ 31 \<and> head q' < cap q' \<and> tail q' < cap q'"
proof -
  obtain q' q'' where p: "ring.push_all q ms = Inr q'"
      "ring.pop_n (length (mq_contents q) + length ms) q' = Inr (q'', map Some (mq_contents q @ ms))" "mq_inv q''" "mq_contents q'' = []"
    using ring.push_all_pop_n [of q "mq_contents q" ms] assms(1) by (auto simp: mq_rep_def sorted_wrt_iff_nth_less)
  have "cap q' \<le> max (cap q) (2 * (length (mq_contents q) + length ms))" "mq_inv q'"
    using push_all_cap [OF assms(1) p(1)] by simp_all
  then have "cap q' < 2 ^ 31" "head q' < cap q'" "tail q' < cap q'" using assms(2,3) by (auto simp: mq_inv_def)
  with p show ?thesis by blast
qed

theorem mq_fifo_witness:
  "\<exists>q' q''. ring.push_all (skynet_mq_create 1) [\<lparr>source = 7, session = 3, data = 0, sz = 0\<rparr>] = Inr q' \<and>
    ring.pop_n (length (mq_contents (skynet_mq_create 1)) + length [\<lparr>source = 7, session = 3, data = 0, sz = 0\<rparr>]) q' =
      Inr (q'', map Some (mq_contents (skynet_mq_create 1) @ [\<lparr>source = 7, session = 3, data = 0, sz = 0\<rparr>])) \<and>
    mq_inv q'' \<and> mq_contents q'' = [] \<and> cap q' < 2 ^ 31 \<and> head q' < cap q' \<and> tail q' < cap q'"
  by (rule mq_fifo [OF mq_inv_create]) (simp_all add: skynet_mq_create_def DEFAULT_QUEUE_SIZE_def skynet_mq_length_def)

text \<open>C2: in every state the workers, senders and deleters can reach, no message is stranded and
  no queue is scheduled twice: a queue of a living context that holds a message, and every
  queue of a dead context, is either linked in the global list or in the hands of exactly one
  worker; the list is acyclic (its addresses are distinct), and no queue is both listed and
  held.\<close>

theorem mq_no_lost_wakeup:
  assumes "mq_reachable s" and "mqs (world s) a = Some q" and "mq_contents q \<noteq> [] \<or> release q \<noteq> 0"
  shows "\<exists>as. gq_rep (world s) as \<and> distinct as \<and> set as \<inter> held s = {} \<and> a \<in> set as \<union> held s"
proof -
  from mq.reachable_inv [OF assms(1)] obtain as where rep: "sys_rep (world s) (held s) as"
    by (auto simp: sys_inv_def)
  have "a \<in> set as \<union> held s"
    using sys_rep_node [OF rep assms(2)] assms(3) by (auto simp: node_ok_def split: if_splits)
  with rep show ?thesis by (auto simp: sys_rep_def gq_rep_def)
qed

text \<open>C3: no operation of the protocol can trip an assertion or follow a dangling pointer: in
  every reachable state a send to a living context, a take from the global list, a poll or a
  give-back by the holder, the marking of a dead context's queue and its release by the holder
  all return normally (the release also terminates, dropping every pending message).\<close>

theorem mq_protocol_never_faults:
  assumes "mq_reachable s"
  shows "(alive (world s) a \<longrightarrow> (\<exists>w. skynet_mq_push (world s) a m = Inr w)) \<and>
    (\<exists>r. skynet_globalmq_pop (world s) = Inr r) \<and>
    (a \<in> held s \<longrightarrow> alive (world s) a \<longrightarrow> (\<exists>r. world_pop (world s) a = Inr r)) \<and>
    (a \<in> held s \<longrightarrow> (\<exists>w. skynet_globalmq_push (world s) a = Inr w)) \<and>
    (alive (world s) a \<longrightarrow> (\<exists>w. skynet_mq_mark_release (world s) a = Inr w)) \<and>
    (a \<in> held s \<longrightarrow> (\<exists>r. skynet_mq_release f (world s) a ud = Some (Inr r)))"
proof -
  from mq.reachable_inv [OF assms(1)] obtain as where rep: "sys_rep (world s) (held s) as"
    by (auto simp: sys_inv_def)
  have "a \<in> held s \<longrightarrow> (\<exists>r. skynet_mq_release f (world s) a ud = Some (Inr r))"
    using mq_release_step [OF rep, of a f ud] by fast
  moreover have "\<exists>r. skynet_globalmq_pop (world s) = Inr r" using globalmq_pop_step [OF rep] by blast
  moreover have "alive (world s) a \<longrightarrow> (\<exists>w. skynet_mq_push (world s) a m = Inr w)"
    using mq_push_step [OF rep] by blast
  moreover have "a \<in> held s \<longrightarrow> alive (world s) a \<longrightarrow> (\<exists>r. world_pop (world s) a = Inr r)"
    using world_pop_step [OF rep] by blast
  moreover have "a \<in> held s \<longrightarrow> (\<exists>w. skynet_globalmq_push (world s) a = Inr w)"
    using give_back_step [OF rep] by blast
  moreover have "alive (world s) a \<longrightarrow> (\<exists>w. skynet_mq_mark_release (world s) a = Inr w)"
    using mark_release_step [OF rep] by blast
  ultimately show ?thesis by blast
qed

text \<open>A concrete run: a service is created and receives a message while its creator holds the queue.\<close>

definition demo_msg :: skynet_message where
  "demo_msg = \<lparr>source = 7, session = 3, data = 0, sz = 0\<rparr>"

definition demo_q :: message_queue where
  "demo_q = (skynet_mq_create 1)\<lparr>queue := (replicate 64 None)[0 := Some demo_msg], tail := 1\<rparr>"

definition demo_sys :: mq_sys where
  "demo_sys = \<lparr>world = set_mq 0 demo_q (skynet_mq_init Map.empty), held = {0}\<rparr>"

lemma demo_reachable: "mq_reachable demo_sys"
proof -
  let ?s = "init_sys\<lparr>world := set_mq 0 (skynet_mq_create 1) (world init_sys), held := insert 0 (held init_sys)\<rparr>"
  have "mq_reachable ?s"
    by (rule reachable.step [OF reachable.start])
      (rule mq_step.create, simp add: init_sys_def skynet_mq_init_def)
  moreover have "mq_step ?s (?s\<lparr>world := set_mq 0 demo_q (world ?s)\<rparr>)"
    by (rule mq_step.send [where a = 0 and m = demo_msg])
      (simp_all add: alive_def set_mq_def skynet_mq_push_def mq_enqueue_def demo_q_def
        skynet_mq_create_def DEFAULT_QUEUE_SIZE_def MQ_IN_GLOBAL_def)
  moreover have "?s\<lparr>world := set_mq 0 demo_q (world ?s)\<rparr> = demo_sys"
    by (simp add: demo_sys_def init_sys_def set_mq_def skynet_mq_init_def)
  ultimately show ?thesis by (metis reachable.step)
qed

lemma demo_contents: "mqs (world demo_sys) 0 = Some demo_q" "mq_contents demo_q = [demo_msg]"
  by (simp_all add: demo_sys_def set_mq_def mq_contents_def skynet_mq_length_def demo_q_def
      skynet_mq_create_def mq_cell_def DEFAULT_QUEUE_SIZE_def)

theorem mq_no_lost_wakeup_witness:
  "\<exists>as. gq_rep (world demo_sys) as \<and> distinct as \<and> set as \<inter> held demo_sys = {} \<and>
     0 \<in> set as \<union> held demo_sys"
  by (rule mq_no_lost_wakeup [OF demo_reachable demo_contents(1)]) (simp add: demo_contents(2))

theorem mq_protocol_never_faults_witness:
  "\<exists>r. skynet_mq_release (\<lambda>_ n. Suc n) (world demo_sys) 0 0 = Some (Inr r)"
  using mq_protocol_never_faults [OF demo_reachable, of 0 demo_msg "\<lambda>_ n. Suc n" 0]
  by (simp add: demo_sys_def)

section \<open>What the operations change\<close>

text \<open>What a client sees of a queue: its handle, whether it is marked for release, and its messages.\<close>

definition view :: "message_queue \<Rightarrow> u32 \<times> nat \<times> skynet_message list" where
  "view q = (handle q, release q, mq_contents q)"

definition views :: "mq_world \<Rightarrow> mqid \<rightharpoonup> u32 \<times> nat \<times> skynet_message list" where
  "views w a = map_option view (mqs w a)"

lemma view_updates [simp]:
  "view (q\<lparr>next := n\<rparr>) = view q" "view (q\<lparr>in_global := g\<rparr>) = view q"
  "view (q\<lparr>overload := x\<rparr>) = view q" "view (q\<lparr>overload_threshold := x\<rparr>) = view q"
  "view (q\<lparr>release := r\<rparr>) = (handle q, r, mq_contents q)"
  by (simp_all add: view_def mq_contents_def mq_cell_def skynet_mq_length_def)

lemma views_set_mq [simp]: "views (set_mq a q w) = (views w)(a \<mapsto> view q)"
  by (auto simp: views_def set_mq_def)

lemma views_gq [simp]: "views (w\<lparr>gq_head := x\<rparr>) = views w" "views (w\<lparr>gq_tail := y\<rparr>) = views w"
  by (auto simp: views_def)

lemma views_same: "mqs w a = Some q \<Longrightarrow> view q' = view q \<Longrightarrow> (views w)(a \<mapsto> view q') = views w"
  by (auto simp: views_def)

lemma views_iff: "views w a = Some v \<longleftrightarrow> (\<exists>q. mqs w a = Some q \<and> v = view q)"
  by (auto simp: views_def)

lemma globalmq_push_views: "skynet_globalmq_push w a = Inr w' \<Longrightarrow> views w' = views w"
  by (auto simp: skynet_globalmq_push_def andThen_Inr_iff deref_Inr_iff views_same split: option.splits)

lemma globalmq_pop_views: "skynet_globalmq_pop w = Inr (w', r) \<Longrightarrow> views w' = views w"
  by (auto simp: skynet_globalmq_pop_def andThen_Inr_iff deref_Inr_iff views_same split: option.splits if_splits)

lemma mq_push_views:
  assumes "skynet_mq_push w a m = Inr w'" and "mqs w a = Some q" and "mq_inv q"
  shows "views w' = (views w)(a \<mapsto> (handle q, release q, mq_contents q @ [m]))"
proof -
  obtain q' where q': "mq_enqueue q m = Inr q'" "mq_contents q' = mq_contents q @ [m]"
      "handle q' = handle q" "release q' = release q"
    using mq_enqueue_spec [OF assms(3)] by metis
  then have v: "view q' = (handle q, release q, mq_contents q @ [m])" by (simp add: view_def)
  show ?thesis
    using assms(1,2) q'(1) v globalmq_push_views
    by (fastforce simp: skynet_mq_push_def split: if_splits)
qed

lemma world_pop_views:
  assumes "world_pop w a = Inr (w', r)" and "mqs w a = Some q" and "mq_inv q"
  shows "(mq_contents q = [] \<and> r = None \<and> views w' = views w) \<or>
    (\<exists>m ms. mq_contents q = m # ms \<and> r = Some m \<and> views w' = (views w)(a \<mapsto> (handle q, release q, ms)))"
proof (cases "mq_contents q")
  case Nil
  then have "head q = tail q" using mq_contents_Nil_iff [OF assms(3)] by simp
  then show ?thesis using assms(1,2) Nil by (auto simp: world_pop_def skynet_mq_pop_def views_same)
next
  case (Cons m ms)
  obtain q' where "skynet_mq_pop q = Inr (q', Some m)" "mq_contents q' = ms"
      "handle q' = handle q" "release q' = release q"
    using mq_pop_Cons [OF assms(3) Cons] by metis
  then show ?thesis using assms(1,2) Cons by (auto simp: world_pop_def view_def)
qed

lemma mark_release_views:
  assumes "skynet_mq_mark_release w a = Inr w'" and "mqs w a = Some q"
  shows "views w' = (views w)(a \<mapsto> (handle q, 1, mq_contents q))"
  using assms globalmq_push_views [of "set_mq a (q\<lparr>release := 1\<rparr>) w" a w']
  by (auto simp: skynet_mq_mark_release_def andThen_Inr_iff Let_def split: if_splits)

lemma mq_free_views: "mq_free w a = Inr w' \<Longrightarrow> views w' = (views w)(a := None)"
  by (auto simp: mq_free_def andThen_Inr_iff views_def)

lemma view_create: "view (skynet_mq_create h) = (h, 0, [])"
  by (simp add: view_def mq_contents_create) (simp add: skynet_mq_create_def)

lemma overload_step:
  assumes "sys_rep w H as" and "mqs w a = Some q"
  shows "sys_rep (set_mq a (fst (skynet_mq_overload q)) w) H as \<and> views (set_mq a (fst (skynet_mq_overload q)) w) = views w"
proof -
  have o: "fst (skynet_mq_overload q) = q \<or> fst (skynet_mq_overload q) = q\<lparr>overload := 0\<rparr>"
    by (auto simp: skynet_mq_overload_def)
  moreover have "node_ok (set as \<union> H) a (q\<lparr>overload := 0\<rparr>)"
  proof -
    have "mq_inv (q\<lparr>overload := 0\<rparr>) = mq_inv q" "mq_contents (q\<lparr>overload := 0\<rparr>) = mq_contents q"
      by (simp_all add: mq_inv_def mq_contents_def mq_cell_def skynet_mq_length_def)
    then show ?thesis using sys_rep_node [OF assms] by (simp add: node_ok_def)
  qed
  ultimately have "sys_rep (set_mq a (fst (skynet_mq_overload q)) w) H as"
    using sys_rep_set_mq [OF assms, of "fst (skynet_mq_overload q)"] sys_rep_node [OF assms] by auto
  moreover have "view (fst (skynet_mq_overload q)) = view q" using o by auto
  ultimately show ?thesis using assms(2) by (simp add: views_same)
qed


end
