(* ===== verification/Handle.thy ===== *)
theory Handle
  imports Prelude "HOL-Library.Char_ord" "HOL-Library.List_Lexorder"
begin

text \<open>
  Model of \<^verbatim>\<open>skynet-src/skynet_handle.c\<close>: the table of services, a hash table of contexts that
  is indexed by the low bits of the handle and doubles when it is full, and the table of
  service names, an array sorted by name and searched by bisection.

  A context is an address; the handle a context carries is the field \<open>handle\<close> of its struct,
  which the caller of \<open>skynet_handle_register\<close> fills in afterwards, so the operations take
  the content of those fields, \<open>ctx \<Rightarrow> u32\<close>, as an argument. The critical sections of the
  reader-writer lock are atomic steps.
\<close>

section \<open>State\<close>

type_synonym ctx = nat

definition HANDLE_MASK :: u32 where "HANDLE_MASK = 0xffffff"
definition HANDLE_REMOTE_SHIFT :: nat where "HANDLE_REMOTE_SHIFT = 24"
definition DEFAULT_SLOT_SIZE :: nat where "DEFAULT_SLOT_SIZE = 4"
definition MAX_SLOT_SIZE :: nat where "MAX_SLOT_SIZE = 0x40000000"

record handle_name =
  hname :: string
  hhandle :: u32

record handle_storage =
  harbor :: u32
  handle_index :: u32
  slot_size :: nat
  slot :: "ctx option list"
  name_cap :: nat
  name_count :: nat
  name :: "handle_name option list"

definition skynet_handle_init :: "u32 \<Rightarrow> handle_storage" where
  "skynet_handle_init hb =
     \<lparr>harbor = push_bit HANDLE_REMOTE_SHIFT (hb AND 0xff), handle_index = 1,
      slot_size = DEFAULT_SLOT_SIZE, slot = replicate DEFAULT_SLOT_SIZE None,
      name_cap = 2, name_count = 0, name = replicate 2 None\<rparr>"

section \<open>Contexts\<close>

text \<open>The slot of a handle in a table of \<open>n\<close> slots.\<close>

definition hash_of :: "nat \<Rightarrow> u32 \<Rightarrow> nat" where
  "hash_of n h = unat (h AND (of_nat n - 1))"

text \<open>The inner loop of \<open>skynet_handle_register\<close>: \<open>Some\<close> the first free handle from \<open>handle_index\<close> on.\<close>

function find_free :: "handle_storage \<Rightarrow> nat \<Rightarrow> u32 option" where
  "find_free s i =
     (if i < slot_size s then
        let h = (of_nat i + handle_index s) AND HANDLE_MASK
        in if slot s ! hash_of (slot_size s) h = None then Some h else find_free s (Suc i)
      else None)"
  by pat_completeness auto
termination
  by (relation "measure (\<lambda>(s, i). slot_size s - i)") auto

declare find_free.simps [simp del]

text \<open>The loop that moves the contexts into the doubled table; \<open>i\<close> counts the slots moved.\<close>

fun rehash :: "(ctx \<Rightarrow> u32) \<Rightarrow> nat \<Rightarrow> ctx option list \<Rightarrow> ctx option list \<Rightarrow> ctx option list res" where
  "rehash hf n [] new = Inr new"
| "rehash hf n (None # cs) new = Inl Bad_pointer"
| "rehash hf n (Some c # cs) new =
     andThen (assert_that (new ! hash_of n (hf c) = None))
       (\<lambda>_. rehash hf n cs (new[hash_of n (hf c) := Some c]))"

partial_function (option) skynet_handle_register ::
  "(ctx \<Rightarrow> u32) \<Rightarrow> handle_storage \<Rightarrow> ctx \<Rightarrow> (handle_storage \<times> u32) res option" where
  "skynet_handle_register hf s c =
     (case find_free s 0 of
        Some h \<Rightarrow> Some (Inr (s\<lparr>slot := (slot s)[hash_of (slot_size s) h := Some c], handle_index := h + 1\<rparr>,
                             h OR harbor s))
      | None \<Rightarrow>
          if int (slot_size s) * 2 - 1 \<le> uint HANDLE_MASK then
            (case rehash hf (slot_size s * 2) (slot s) (replicate (slot_size s * 2) None) of
               Inl e \<Rightarrow> Some (Inl e)
             | Inr new \<Rightarrow> skynet_handle_register hf (s\<lparr>slot := new, slot_size := slot_size s * 2\<rparr>) c)
          else Some (Inl Assert_failed))"

text \<open>\<open>skynet_handle_grab\<close>; the reference count that a hit takes is in theory Server.\<close>

definition skynet_handle_grab :: "(ctx \<Rightarrow> u32) \<Rightarrow> handle_storage \<Rightarrow> u32 \<Rightarrow> ctx option" where
  "skynet_handle_grab hf s h =
     (case slot s ! hash_of (slot_size s) h of
        Some c \<Rightarrow> if hf c = h then Some c else None
      | None \<Rightarrow> None)"

section \<open>Names\<close>

text \<open>
  The compaction loop of \<open>skynet_handle_retire\<close>: \<open>i\<close> reads, \<open>j\<close> writes, entries of the retired
  handle are skipped.
\<close>

function drop_names :: "u32 \<Rightarrow> nat \<Rightarrow> nat \<Rightarrow> nat \<Rightarrow> handle_name option list \<Rightarrow>
    (nat \<times> handle_name option list) res" where
  "drop_names h n i j cells =
     (if i < n then
        andThen (read_cell cells i) (\<lambda>e.
          if hhandle e = h then drop_names h n (Suc i) j cells
          else if i \<noteq> j then drop_names h n (Suc i) (Suc j) (cells[j := Some e])
          else drop_names h n (Suc i) (Suc j) cells)
      else Inr (j, cells))"
  by pat_completeness auto
termination
  by (relation "measure (\<lambda>(h, n, i, j, cells). n - i)") auto

declare drop_names.simps [simp del]

text \<open>The locked part of \<open>skynet_handle_retire\<close>; the context is released by the caller.\<close>

definition handle_retire_locked ::
  "(ctx \<Rightarrow> u32) \<Rightarrow> handle_storage \<Rightarrow> u32 \<Rightarrow> (handle_storage \<times> ctx option) res" where
  "handle_retire_locked hf s h =
     (case slot s ! hash_of (slot_size s) h of
        Some c \<Rightarrow>
          if hf c = h then
            andThen (drop_names h (name_count s) 0 0 (name s)) (\<lambda>(j, cells).
              Inr (s\<lparr>slot := (slot s)[hash_of (slot_size s) h := None], name_count := j, name := cells\<rparr>,
                   Some c))
          else Inr (s, None)
      | None \<Rightarrow> Inr (s, None))"

text \<open>
  The bisection that \<open>skynet_handle_findname\<close> and \<open>_insert_name\<close> share: \<open>Inl e\<close> is the entry
  found, \<open>Inr b\<close> the final value of \<open>begin\<close>. \<open>strcmp\<close> compares bytes as unsigned numbers, which
  is the order of \<open>string\<close> here.
\<close>

function name_search :: "handle_name option list \<Rightarrow> string \<Rightarrow> int \<Rightarrow> int \<Rightarrow> (handle_name + nat) res" where
  "name_search cells key b e =
     (if b \<le> e then
        let mid = (b + e) div 2 in
        andThen (read_cell cells (nat mid)) (\<lambda>n.
          if hname n = key then Inr (Inl n)
          else if hname n < key then name_search cells key (mid + 1) e
          else name_search cells key b (mid - 1))
      else Inr (Inr (nat b)))"
  by pat_completeness auto
termination
  by (relation "measure (\<lambda>(cells, key, b, e). nat (e + 1 - b))") auto

declare name_search.simps [simp del]

definition skynet_handle_findname :: "handle_storage \<Rightarrow> string \<Rightarrow> u32 res" where
  "skynet_handle_findname s key =
     andThen (name_search (name s) key 0 (int (name_count s) - 1)) (\<lambda>r.
       Inr (case r of Inl n \<Rightarrow> hhandle n | Inr b \<Rightarrow> 0))"

text \<open>The loop \<open>for (i = count; i > before; i--) name[i] = name[i-1]\<close>.\<close>

fun shift_names :: "nat \<Rightarrow> nat \<Rightarrow> 'a list \<Rightarrow> 'a list" where
  "shift_names 0 before cells = cells"
| "shift_names (Suc i) before cells =
     (if before < Suc i then shift_names i before (cells[Suc i := cells ! i]) else cells)"

text \<open>The two copy loops into the doubled array, which leave a gap at \<open>before\<close>.\<close>

definition copy_names :: "nat \<Rightarrow> nat \<Rightarrow> nat \<Rightarrow> 'a option list \<Rightarrow> 'a option list" where
  "copy_names newcap before count cells =
     map (\<lambda>i. if i < before then cells ! i
              else if before < i \<and> i \<le> count then cells ! (i - 1) else None) [0..<newcap]"

definition insert_name_before :: "handle_storage \<Rightarrow> string \<Rightarrow> u32 \<Rightarrow> nat \<Rightarrow> handle_storage res" where
  "insert_name_before s nm h before =
     andThen
       (if name_cap s \<le> name_count s then
          andThen (assert_that (name_cap s * 2 \<le> MAX_SLOT_SIZE)) (\<lambda>_.
            Inr (s\<lparr>name_cap := name_cap s * 2,
                   name := copy_names (name_cap s * 2) before (name_count s) (name s)\<rparr>))
        else Inr (s\<lparr>name := shift_names (name_count s) before (name s)\<rparr>))
       (\<lambda>s'. andThen (write_cell (name s') before \<lparr>hname = nm, hhandle = h\<rparr>) (\<lambda>cells.
          Inr (s'\<lparr>name := cells, name_count := name_count s' + 1\<rparr>)))"

text \<open>\<open>_insert_name\<close>: \<open>None\<close> is the \<open>NULL\<close> returned for a name that is taken.\<close>

definition insert_name :: "handle_storage \<Rightarrow> string \<Rightarrow> u32 \<Rightarrow> (handle_storage \<times> string option) res" where
  "insert_name s nm h =
     andThen (name_search (name s) nm 0 (int (name_count s) - 1)) (\<lambda>r.
       case r of
         Inl _ \<Rightarrow> Inr (s, None)
       | Inr b \<Rightarrow> andThen (insert_name_before s nm h b) (\<lambda>s'. Inr (s', Some nm)))"

definition skynet_handle_namehandle ::
  "handle_storage \<Rightarrow> u32 \<Rightarrow> string \<Rightarrow> (handle_storage \<times> string option) res" where
  "skynet_handle_namehandle s h nm = insert_name s nm h"

section \<open>Retiring every service\<close>

text \<open>
  One pass of \<open>skynet_handle_retireall\<close> over the slots: every context with a handle other than
  0 is retired; the result counts them and lists the contexts to release.
\<close>

fun retire_pass :: "(ctx \<Rightarrow> u32) \<Rightarrow> nat list \<Rightarrow> handle_storage \<Rightarrow> (handle_storage \<times> ctx list) res" where
  "retire_pass hf [] s = Inr (s, [])"
| "retire_pass hf (i # is) s =
     (case slot s ! i of
        None \<Rightarrow> retire_pass hf is s
      | Some c \<Rightarrow>
          if hf c \<noteq> 0 then
            andThen (handle_retire_locked hf s (hf c)) (\<lambda>(s', r).
            andThen (retire_pass hf is s') (\<lambda>(s'', cs). Inr (s'', case r of None \<Rightarrow> cs | Some c \<Rightarrow> c # cs)))
          else retire_pass hf is s)"

partial_function (option) skynet_handle_retireall ::
  "(ctx \<Rightarrow> u32) \<Rightarrow> handle_storage \<Rightarrow> ctx list \<Rightarrow> (handle_storage \<times> ctx list) res option" where
  "skynet_handle_retireall hf s released =
     (case retire_pass hf [0..<slot_size s] s of
        Inl e \<Rightarrow> Some (Inl e)
      | Inr r \<Rightarrow> if snd r = [] then Some (Inr (fst r, released))
                 else skynet_handle_retireall hf (fst r) (released @ snd r))"

section \<open>The table of contexts\<close>

definition slots_inv :: "(ctx \<Rightarrow> u32) \<Rightarrow> handle_storage \<Rightarrow> bool" where
  "slots_inv hf s \<longleftrightarrow> (\<exists>k \<le> 24. slot_size s = 2 ^ k) \<and> length (slot s) = slot_size s \<and>
     harbor s AND HANDLE_MASK = 0 \<and>
     (\<forall>i < slot_size s. \<forall>c. slot s ! i = Some c \<longrightarrow>
        hash_of (slot_size s) (hf c) = i \<and> hf c AND NOT HANDLE_MASK = harbor s)"

definition live :: "handle_storage \<Rightarrow> ctx set" where
  "live s = {c. Some c \<in> set (slot s)}"

lemma HANDLE_MASK_mask: "HANDLE_MASK = mask 24"
  by (simp add: HANDLE_MASK_def mask_eq_exp_minus_1)

lemma hash_of_pow: "k \<le> 24 \<Longrightarrow> hash_of (2 ^ k) h = unat h mod 2 ^ k"
  using unat_and_mask [of h k] by (simp add: hash_of_def mask_eq_exp_minus_1)

lemma hash_of_less: "slots_inv hf s \<Longrightarrow> hash_of (slot_size s) h < slot_size s"
  by (auto simp: slots_inv_def hash_of_pow)

lemma hash_of_masked: "k \<le> 24 \<Longrightarrow> hash_of (2 ^ k) (h AND HANDLE_MASK) = hash_of (2 ^ k) h"
  by (simp add: hash_of_pow HANDLE_MASK_mask unat_and_mask_mod)

lemma hash_of_or_harbor:
  assumes "k \<le> 24" and "h AND HANDLE_MASK = h" and "b AND HANDLE_MASK = 0"
  shows "hash_of (2 ^ k) (h OR b) = hash_of (2 ^ k) h"
  using hash_of_masked [OF assms(1), of "h OR b"] or_field_low [OF assms(2,3)] by simp

lemma live_slot:
  assumes "slots_inv hf s" and "c \<in> live s"
  shows "slot s ! hash_of (slot_size s) (hf c) = Some c"
proof -
  from assms(2) obtain i where "i < length (slot s)" "slot s ! i = Some c"
    by (auto simp: live_def in_set_conv_nth)
  with assms(1) show ?thesis by (auto simp: slots_inv_def)
qed

lemma slot_live:
  assumes "slots_inv hf s" and "slot s ! hash_of (slot_size s) h = Some c"
  shows "c \<in> live s"
proof -
  have "hash_of (slot_size s) h < length (slot s)"
    using hash_of_less [OF assms(1), of h] assms(1) by (simp add: slots_inv_def)
  with assms(2) show ?thesis by (auto simp: live_def in_set_conv_nth)
qed

lemma grab_iff:
  assumes "slots_inv hf s"
  shows "skynet_handle_grab hf s h = Some c \<longleftrightarrow> c \<in> live s \<and> hf c = h"
proof (cases "slot s ! hash_of (slot_size s) h")
  case None
  with live_slot [OF assms, of c] show ?thesis by (auto simp: skynet_handle_grab_def)
next
  case (Some d)
  have d: "d \<in> live s" by (rule slot_live [OF assms Some])
  have g: "skynet_handle_grab hf s h = (if hf d = h then Some d else None)"
    by (simp add: skynet_handle_grab_def Some)
  show ?thesis
  proof
    assume "skynet_handle_grab hf s h = Some c"
    then have "c = d \<and> hf d = h" unfolding g by (simp split: if_splits)
    with d show "c \<in> live s \<and> hf c = h" by blast
  next
    assume c: "c \<in> live s \<and> hf c = h"
    then have "Some c = Some d" using live_slot [OF assms, of c] Some by metis
    with c g show "skynet_handle_grab hf s h = Some c" by simp
  qed
qed

lemma live_inj: "slots_inv hf s \<Longrightarrow> c \<in> live s \<Longrightarrow> d \<in> live s \<Longrightarrow> hf c = hf d \<Longrightarrow> c = d"
  using grab_iff [of hf s "hf c" c] grab_iff [of hf s "hf c" d] by auto

text \<open>The scan finds a free slot exactly when there is one.\<close>

lemma find_free_Some:
  "find_free s i = Some h \<Longrightarrow>
    h AND HANDLE_MASK = h \<and> slot s ! hash_of (slot_size s) h = None"
proof (induction s i rule: find_free.induct)
  case (1 s i)
  then show ?case
    by (auto simp: find_free.simps [of s i] Let_def and.assoc split: if_splits)
qed

lemma find_free_None:
  "find_free s i = None \<Longrightarrow> i \<le> j \<Longrightarrow> j < slot_size s \<Longrightarrow>
    slot s ! hash_of (slot_size s) ((of_nat j + handle_index s) AND HANDLE_MASK) \<noteq> None"
proof (induction s i rule: find_free.induct)
  case (1 s i)
  then show ?case
    by (cases "i = j") (auto simp: find_free.simps [of s i] find_free.simps [of s j] Let_def split: if_splits)
qed

lemma find_free_None_full:
  assumes inv: "slots_inv hf s" and none: "find_free s 0 = None" and i: "i < slot_size s"
  shows "slot s ! i \<noteq> None"
proof -
  from inv obtain k where k: "k \<le> 24" "slot_size s = 2 ^ k" by (auto simp: slots_inv_def)
  define m where "m = unat (handle_index s) mod 2 ^ k"
  define j where "j = (i + (2 ^ k - m)) mod 2 ^ k"
  have j: "j < 2 ^ k" by (simp add: j_def)
  then have "j < 2 ^ 32" using power_increasing [of k 32 "2::nat"] k(1) by simp
  then have uj: "unat (of_nat j :: u32) = j" by (simp add: unat_of_nat)
  have "unat (of_nat j + handle_index s) mod 2 ^ k = (j + unat (handle_index s)) mod 2 ^ k"
    using unat_plus_mod_pow [of k "of_nat j :: u32" "handle_index s"] k(1) by (simp add: uj)
  also have "\<dots> = (j + m) mod 2 ^ k" by (simp add: m_def mod_simps)
  also have "\<dots> = (i + (2 ^ k - m) + m) mod 2 ^ k" by (simp add: j_def mod_simps)
  also have "\<dots> = i"
  proof -
    have "m < 2 ^ k" by (simp add: m_def)
    then have "i + (2 ^ k - m) + m = i + 2 ^ k" by simp
    with i k(2) show ?thesis by simp
  qed
  finally have "hash_of (slot_size s) ((of_nat j + handle_index s) AND HANDLE_MASK) = i"
    using hash_of_masked [OF k(1), of "of_nat j + handle_index s"] k by (simp add: hash_of_pow)
  with find_free_None [OF none, of j] j k(2) show ?thesis by simp
qed

text \<open>Moving a full table into one of twice the size.\<close>

lemma rehash_spec:
  assumes "\<forall>x\<in>set cs. x \<noteq> None" and "length new = n" and "\<forall>c. Some c \<in> set cs \<longrightarrow> hash_of n (hf c) < n"
    and "distinct (map (\<lambda>x. hash_of n (hf (the x))) cs)"
    and "\<forall>c. Some c \<in> set cs \<longrightarrow> new ! hash_of n (hf c) = None"
  shows "\<exists>new'. rehash hf n cs new = Inr new' \<and> length new' = n \<and>
    (\<forall>j < n. \<forall>c. new' ! j = Some c \<longleftrightarrow> new ! j = Some c \<or> (Some c \<in> set cs \<and> hash_of n (hf c) = j))"
  using assms
proof (induction cs arbitrary: new)
  case Nil
  then show ?case by auto
next
  case (Cons x cs)
  then obtain c where x: "x = Some c" by auto
  let ?h = "hash_of n (hf c)"
  from Cons.prems(4) x have ne: "hash_of n (hf d) \<noteq> ?h" if "Some d \<in> set cs" for d
    using that by force
  have "\<exists>new'. rehash hf n cs (new[?h := Some c]) = Inr new' \<and> length new' = n \<and>
    (\<forall>j < n. \<forall>d. new' ! j = Some d \<longleftrightarrow> new[?h := Some c] ! j = Some d \<or> (Some d \<in> set cs \<and> hash_of n (hf d) = j))"
  proof (rule Cons.IH)
    show "\<forall>d. Some d \<in> set cs \<longrightarrow> new[?h := Some c] ! hash_of n (hf d) = None"
    proof (intro allI impI)
      fix d assume "Some d \<in> set cs"
      with ne [OF this] Cons.prems(5) show "new[?h := Some c] ! hash_of n (hf d) = None"
        by (metis list.set_intros(2) nth_list_update_neq)
    qed
  qed (use Cons.prems in auto)
  then obtain new' where new': "rehash hf n cs (new[?h := Some c]) = Inr new'" "length new' = n"
    "\<forall>j < n. \<forall>d. new' ! j = Some d \<longleftrightarrow> new[?h := Some c] ! j = Some d \<or> (Some d \<in> set cs \<and> hash_of n (hf d) = j)"
    by blast
  have free: "new ! ?h = None" "?h < n" using Cons.prems x by auto
  have "new' ! j = Some d \<longleftrightarrow> new ! j = Some d \<or> (Some d \<in> set (x # cs) \<and> hash_of n (hf d) = j)"
    if "j < n" for j d
    using new'(3) that free x Cons.prems(2) ne by (cases "j = ?h") (auto simp: nth_list_update)
  with new' free x show ?case by auto
qed

lemma mod_double: "a mod (2 ^ Suc k) = b mod (2 ^ Suc k) \<Longrightarrow> a mod 2 ^ k = (b::nat) mod 2 ^ k"
  by (metis mod_mod_cancel le_imp_power_dvd le_SucI le_refl)

lemma grow_spec:
  assumes inv: "slots_inv hf s" and full: "\<forall>i < slot_size s. slot s ! i \<noteq> None"
    and room: "int (slot_size s) * 2 - 1 \<le> uint HANDLE_MASK"
  shows "\<exists>new. rehash hf (slot_size s * 2) (slot s) (replicate (slot_size s * 2) None) = Inr new \<and>
    slots_inv hf (s\<lparr>slot := new, slot_size := slot_size s * 2\<rparr>) \<and>
    live (s\<lparr>slot := new, slot_size := slot_size s * 2\<rparr>) = live s \<and>
    (\<exists>j < slot_size s * 2. new ! j = None)"
proof -
  from inv obtain k where k: "k \<le> 24" "slot_size s = 2 ^ k" by (auto simp: slots_inv_def)
  have len: "length (slot s) = 2 ^ k" using inv k by (simp add: slots_inv_def)
  have "int (slot_size s) \<le> 2 ^ 23" using room by (simp add: HANDLE_MASK_def)
  then have "(2::nat) ^ k \<le> 2 ^ 23" using k by (metis of_nat_le_iff of_nat_numeral of_nat_power)
  then have k23: "k \<le> 23" by (rule power_le_imp_le_exp [rotated]) simp
  define n where "n = (2::nat) ^ Suc k"
  have n: "n = slot_size s * 2" "0 < n" "2 ^ k < n" "2 ^ k dvd n" using k by (simp_all add: n_def)
  have hash: "hash_of n h = unat h mod n" for h using hash_of_pow [of "Suc k" h] k23 by (simp add: n_def)
  have idx: "hash_of n (hf c) mod 2 ^ k = i" "hf c AND NOT HANDLE_MASK = harbor s"
    if "i < 2 ^ k" "slot s ! i = Some c" for i c
  proof -
    have "hash_of (2 ^ k) (hf c) = i" and "hf c AND NOT HANDLE_MASK = harbor s"
      using inv that k by (auto simp: slots_inv_def)
    then show "hash_of n (hf c) mod 2 ^ k = i" "hf c AND NOT HANDLE_MASK = harbor s"
      using k(1) unfolding hash by (simp_all add: hash_of_pow mod_mod_cancel n(4))
  qed
  have dist: "distinct (map (\<lambda>x. hash_of n (hf (the x))) (slot s))"
  proof (unfold distinct_conv_nth length_map, intro allI impI)
    fix i j assume ij: "i < length (slot s)" "j < length (slot s)" "i \<noteq> j"
    with full k len have "slot s ! i \<noteq> None" "slot s ! j \<noteq> None" by simp_all
    then obtain c d where cd: "slot s ! i = Some c" "slot s ! j = Some d" by blast
    then have "hash_of n (hf c) mod 2 ^ k = i" "hash_of n (hf d) mod 2 ^ k = j"
      using idx(1) [of i c] idx(1) [of j d] ij len by simp_all
    with ij(3) have "hash_of n (hf c) \<noteq> hash_of n (hf d)" by metis
    with ij cd show "map (\<lambda>x. hash_of n (hf (the x))) (slot s) ! i \<noteq> map (\<lambda>x. hash_of n (hf (the x))) (slot s) ! j"
      by simp
  qed
  have "\<exists>new'. rehash hf n (slot s) (replicate n None) = Inr new' \<and> length new' = n \<and>
    (\<forall>j < n. \<forall>c. new' ! j = Some c \<longleftrightarrow> replicate n None ! j = Some c \<or> (Some c \<in> set (slot s) \<and> hash_of n (hf c) = j))"
    by (rule rehash_spec [OF _ _ _ dist])
      (use full len k n(2) in \<open>auto simp: hash in_set_conv_nth\<close>)
  then obtain new where new: "rehash hf n (slot s) (replicate n None) = Inr new" "length new = n"
    "\<And>j c. j < n \<Longrightarrow> new ! j = Some c \<longleftrightarrow> Some c \<in> set (slot s) \<and> hash_of n (hf c) = j"
    by auto
  have live: "live (s\<lparr>slot := new, slot_size := slot_size s * 2\<rparr>) = live s"
  proof -
    have "Some c \<in> set new \<longleftrightarrow> Some c \<in> set (slot s)" for c
    proof
      assume "Some c \<in> set new"
      then obtain j where "j < length new" "new ! j = Some c" by (auto simp: in_set_conv_nth)
      with new(2,3) show "Some c \<in> set (slot s)" by auto
    next
      assume c: "Some c \<in> set (slot s)"
      have "hash_of n (hf c) < n" using n(2) by (simp add: hash)
      with new(3) [OF this, of c] c new(2) show "Some c \<in> set new" by (metis nth_mem)
    qed
    then show ?thesis by (simp add: live_def)
  qed
  have "slots_inv hf (s\<lparr>slot := new, slot_size := slot_size s * 2\<rparr>)"
  proof -
    have "hf c AND NOT HANDLE_MASK = harbor s" if "Some c \<in> set (slot s)" for c
      using that idx(2) len by (auto simp: in_set_conv_nth)
    moreover have "\<exists>j\<le>24. n = 2 ^ j" using k23 by (intro exI [of _ "Suc k"]) (simp add: n_def)
    ultimately show ?thesis
      using inv new(2,3) by (simp add: slots_inv_def flip: n(1))
  qed
  moreover have "\<exists>j < n. new ! j = None"
  proof (rule ccontr)
    assume "\<not> (\<exists>j < n. new ! j = None)"
    then have all: "\<forall>j < n. \<exists>c. new ! j = Some c" by auto
    have "{..<n} \<subseteq> (\<lambda>x. hash_of n (hf (the x))) ` set (slot s)"
    proof
      fix j assume "j \<in> {..<n}"
      with all obtain c where "j < n" "new ! j = Some c" by auto
      with new(3) show "j \<in> (\<lambda>x. hash_of n (hf (the x))) ` set (slot s)" by force
    qed
    then have "card {..<n} \<le> card (set (slot s))"
      by (meson surj_card_le finite_set)
    also have "\<dots> \<le> 2 ^ k" using card_length [of "slot s"] len by simp
    finally show False using n by simp
  qed
  ultimately show ?thesis using new(1) live unfolding n(1) by blast
qed

text \<open>Putting a context into a free slot under its new handle.\<close>

lemma place_spec:
  assumes inv: "slots_inv hf s" and h: "h AND HANDLE_MASK = h" "slot s ! hash_of (slot_size s) h = None"
    and new: "c \<notin> live s"
    and s'_def: "s' = s\<lparr>slot := (slot s)[hash_of (slot_size s) h := Some c], handle_index := j\<rparr>"
  shows "slots_inv (hf(c := h OR harbor s)) s' \<and> live s' = insert c (live s) \<and>
    (\<forall>d \<in> live s. hf d \<noteq> h OR harbor s)"
proof -
  let ?i = "hash_of (slot_size s) h" and ?hf = "hf(c := h OR harbor s)"
  from inv obtain k where k: "k \<le> 24" "slot_size s = 2 ^ k" and hb: "harbor s AND HANDLE_MASK = 0"
    and len: "length (slot s) = slot_size s"
    by (auto simp: slots_inv_def)
  have i: "?i < slot_size s" using hash_of_less [OF inv] .
  have hh: "hash_of (slot_size s) (h OR harbor s) = ?i"
    using hash_of_or_harbor [OF k(1) h(1) hb] k by simp
  have hi: "(h OR harbor s) AND NOT HANDLE_MASK = harbor s"
    by (rule or_field_high [OF h(1) hb])
  have old: "d \<in> live s" if "j < slot_size s" "slot s ! j = Some d" for j d
    using that len by (auto simp: live_def in_set_conv_nth)
  have "slots_inv ?hf s'"
  proof -
    have "hash_of (slot_size s) (?hf d) = j \<and> ?hf d AND NOT HANDLE_MASK = harbor s"
      if j: "j < slot_size s" "(slot s)[?i := Some c] ! j = Some d" for j d
    proof (cases "j = ?i")
      case True
      with j i len hh hi show ?thesis by simp
    next
      case False
      with j have "slot s ! j = Some d" by simp
      moreover from this old [OF j(1)] new have "d \<noteq> c" by blast
      ultimately show ?thesis using inv j(1) by (simp add: slots_inv_def)
    qed
    then show ?thesis using k len hb by (auto simp: slots_inv_def s'_def)
  qed
  moreover have "live s' = insert c (live s)"
  proof -
    have "Some d \<in> set ((slot s)[?i := Some c]) \<longleftrightarrow> d = c \<or> Some d \<in> set (slot s)" for d
      using i len h(2) by (auto simp: in_set_conv_nth nth_list_update split: if_splits) force+
    then show ?thesis by (auto simp: live_def s'_def)
  qed
  moreover have "hf d \<noteq> h OR harbor s" if "d \<in> live s" for d
    using live_slot [OF inv that] hh h(2) by auto
  ultimately show ?thesis by blast
qed

definition can_register :: "handle_storage \<Rightarrow> bool" where
  "can_register s \<longleftrightarrow> (\<exists>i < slot_size s. slot s ! i = None) \<or> int (slot_size s) * 2 - 1 \<le> uint HANDLE_MASK"

lemma register_found:
  assumes inv: "slots_inv hf s" and free: "\<exists>i < slot_size s. slot s ! i = None" and new: "c \<notin> live s"
  shows "\<exists>s' h. skynet_handle_register hf s c = Some (Inr (s', h)) \<and> slots_inv (hf(c := h)) s' \<and>
    live s' = insert c (live s) \<and> (\<forall>d \<in> live s. hf d \<noteq> h) \<and> h AND NOT HANDLE_MASK = harbor s \<and>
    harbor s' = harbor s \<and> name s' = name s \<and> name_count s' = name_count s \<and> name_cap s' = name_cap s"
proof -
  obtain g where g: "find_free s 0 = Some g"
    using find_free_None_full [OF inv] free by (metis option.exhaust)
  let ?s = "s\<lparr>slot := (slot s)[hash_of (slot_size s) g := Some c], handle_index := g + 1\<rparr>"
  have gm: "g AND HANDLE_MASK = g" "slot s ! hash_of (slot_size s) g = None"
    using find_free_Some [OF g] by simp_all
  have "skynet_handle_register hf s c = Some (Inr (?s, g OR harbor s))"
    by (simp add: skynet_handle_register.simps [of hf s c] g)
  moreover note place_spec [OF inv gm new refl, of "g + 1"]
  moreover have "(g OR harbor s) AND NOT HANDLE_MASK = harbor s"
    using or_field_high [OF gm(1)] inv by (simp add: slots_inv_def)
  ultimately show ?thesis by auto
qed

lemma register_spec:
  assumes inv: "slots_inv hf s" and room: "can_register s" and new: "c \<notin> live s"
  shows "\<exists>s' h. skynet_handle_register hf s c = Some (Inr (s', h)) \<and> slots_inv (hf(c := h)) s' \<and>
    live s' = insert c (live s) \<and> (\<forall>d \<in> live s. hf d \<noteq> h) \<and> h AND NOT HANDLE_MASK = harbor s \<and>
    harbor s' = harbor s \<and> name s' = name s \<and> name_count s' = name_count s \<and> name_cap s' = name_cap s"
proof (cases "\<exists>i < slot_size s. slot s ! i = None")
  case True
  show ?thesis by (rule register_found [OF inv True new])
next
  case False
  with room have big: "int (slot_size s) * 2 - 1 \<le> uint HANDLE_MASK" by (simp add: can_register_def)
  from False have full: "\<forall>i < slot_size s. slot s ! i \<noteq> None" by auto
  from grow_spec [OF inv full big] obtain cells where
    cells: "rehash hf (slot_size s * 2) (slot s) (replicate (slot_size s * 2) None) = Inr cells"
      "slots_inv hf (s\<lparr>slot := cells, slot_size := slot_size s * 2\<rparr>)"
      "live (s\<lparr>slot := cells, slot_size := slot_size s * 2\<rparr>) = live s"
      "\<exists>j < slot_size s * 2. cells ! j = None"
    by blast
  have "find_free s 0 = None"
    using find_free_Some [of s 0] full hash_of_less [OF inv] by (metis option.exhaust)
  with big cells(1) have "skynet_handle_register hf s c =
      skynet_handle_register hf (s\<lparr>slot := cells, slot_size := slot_size s * 2\<rparr>) c"
    by (subst skynet_handle_register.simps) simp
  with register_found [OF cells(2), of c] cells(3,4) new show ?thesis by simp
qed

section \<open>The table of names\<close>

definition names :: "handle_storage \<Rightarrow> handle_name list" where
  "names s = map the (take (name_count s) (name s))"

definition names_inv :: "handle_storage \<Rightarrow> bool" where
  "names_inv s \<longleftrightarrow> name_count s \<le> name_cap s \<and> length (name s) = name_cap s \<and> 0 < name_cap s \<and>
     (\<forall>i < name_count s. name s ! i \<noteq> None) \<and> sorted_wrt (<) (map hname (names s))"

text \<open>The name table as a partial map.\<close>

definition name_map :: "handle_storage \<Rightarrow> string \<rightharpoonup> u32" where
  "name_map s = map_of (map (\<lambda>n. (hname n, hhandle n)) (names s))"

lemma length_names: "names_inv s \<Longrightarrow> length (names s) = name_count s"
  by (simp add: names_inv_def names_def)

lemma name_cell: "names_inv s \<Longrightarrow> i < name_count s \<Longrightarrow> name s ! i = Some (names s ! i)"
  by (auto simp: names_inv_def names_def)

lemma names_sorted: "names_inv s \<Longrightarrow> i < j \<Longrightarrow> j < name_count s \<Longrightarrow> hname (names s ! i) < hname (names s ! j)"
  using sorted_wrt_nth_less [of "(<)" "map hname (names s)" i j] length_names [of s]
  by (simp add: names_inv_def)

lemma name_map_Some_iff:
  assumes "names_inv s"
  shows "name_map s key = Some h \<longleftrightarrow> (\<exists>i < name_count s. hname (names s ! i) = key \<and> hhandle (names s ! i) = h)"
proof -
  have "distinct (map fst (map (\<lambda>n. (hname n, hhandle n)) (names s)))"
    using assms strict_sorted_iff [of "map hname (names s)"] by (simp add: names_inv_def comp_def)
  then show ?thesis
    using length_names [OF assms] by (fastforce simp: name_map_def in_set_conv_nth image_iff)
qed

text \<open>The position where a name belongs: everything before it is smaller, everything from it on larger.\<close>

definition gap_at :: "handle_storage \<Rightarrow> string \<Rightarrow> nat \<Rightarrow> bool" where
  "gap_at s key p \<longleftrightarrow> p \<le> name_count s \<and> (\<forall>i < p. hname (names s ! i) < key) \<and>
     (\<forall>i. p \<le> i \<longrightarrow> i < name_count s \<longrightarrow> key < hname (names s ! i))"

lemma name_search_spec:
  assumes inv: "names_inv s"
  shows "0 \<le> b \<Longrightarrow> b \<le> e + 1 \<Longrightarrow> e < int (name_count s) \<Longrightarrow>
    (\<forall>i. int i < b \<longrightarrow> hname (names s ! i) < key) \<Longrightarrow>
    (\<forall>i. e < int i \<longrightarrow> i < name_count s \<longrightarrow> key < hname (names s ! i)) \<Longrightarrow>
    (\<exists>i < name_count s. name_search (name s) key b e = Inr (Inl (names s ! i)) \<and> hname (names s ! i) = key) \<or>
    (\<exists>p. name_search (name s) key b e = Inr (Inr p) \<and> gap_at s key p)"
proof (induction "name s" key b e rule: name_search.induct)
  case (1 key b e)
  show ?case
  proof (cases "b \<le> e")
    case False
    then have "b = e + 1" using "1.prems" by simp
    have "name_search (name s) key b e = Inr (Inr (nat b))"
      using False by (simp add: name_search.simps [of "name s" key b e])
    moreover have "gap_at s key (nat b)"
      using "1.prems" \<open>b = e + 1\<close> by (auto simp: gap_at_def)
    ultimately show ?thesis by blast
  next
    case True
    define mid where "mid = (b + e) div 2"
    have mid: "b \<le> mid" "mid \<le> e" using True by (auto simp: mid_def)
    then have m: "nat mid < name_count s" using "1.prems" by linarith
    let ?n = "names s ! nat mid"
    have rd: "read_cell (name s) (nat mid) = Inr ?n"
      using name_cell [OF inv m] m inv by (simp add: names_inv_def)
    have unf: "name_search (name s) key b e =
        (if hname ?n = key then Inr (Inl ?n)
         else if hname ?n < key then name_search (name s) key (mid + 1) e
         else name_search (name s) key b (mid - 1))"
      using True rd by (simp add: name_search.simps [of "name s" key b e] Let_def flip: mid_def)
    consider (eq) "hname ?n = key" | (less) "hname ?n < key" | (greater) "key < hname ?n"
      by fastforce
    then show ?thesis
    proof cases
      case eq
      with unf m show ?thesis by auto
    next
      case less
      have "hname (names s ! i) < key" if "int i < mid + 1" for i
      proof (cases "i = nat mid")
        case False
        with that have "i < nat mid" by linarith
        from names_sorted [OF inv this m] less show ?thesis by (rule less_trans)
      qed (use less in simp)
      moreover have "hname ?n \<noteq> key" using less by auto
      ultimately show ?thesis
        using "1.hyps"(1) [OF True mid_def, of ?n] less mid "1.prems" unf by simp
    next
      case greater
      have "key < hname (names s ! i)" if "mid - 1 < int i" "i < name_count s" for i
      proof (cases "i = nat mid")
        case False
        with that have "nat mid < i" by linarith
        from greater names_sorted [OF inv this that(2)] show ?thesis by (rule less_trans)
      qed (use greater in simp)
      moreover have "hname ?n \<noteq> key" "\<not> hname ?n < key" using greater by auto
      ultimately show ?thesis
        using "1.hyps"(2) [OF True mid_def, of ?n] mid "1.prems" unf by simp
    qed
  qed
qed

lemma name_search_all:
  assumes inv: "names_inv s"
  shows "(\<exists>i < name_count s. name_search (name s) key 0 (int (name_count s) - 1) = Inr (Inl (names s ! i)) \<and>
      hname (names s ! i) = key) \<or>
    (\<exists>p. name_search (name s) key 0 (int (name_count s) - 1) = Inr (Inr p) \<and> gap_at s key p)"
  by (rule name_search_spec [OF inv]) auto

lemma gap_at_absent: "names_inv s \<Longrightarrow> gap_at s key p \<Longrightarrow> name_map s key = None"
proof (rule ccontr)
  assume inv: "names_inv s" and gap: "gap_at s key p" and "name_map s key \<noteq> None"
  then obtain i where i: "i < name_count s" "hname (names s ! i) = key"
    using name_map_Some_iff [OF inv] by blast
  with gap have "hname (names s ! i) < key \<or> key < hname (names s ! i)"
    unfolding gap_at_def by (meson not_le)
  with i(2) show False by simp
qed

text \<open>Shifting the tail of the array by one, and copying with a gap, are both an insertion.\<close>

lemma shift_names_nth:
  "i < length cells \<Longrightarrow> n < length cells \<Longrightarrow>
    shift_names n before cells ! i = (if before < i \<and> i \<le> n then cells ! (i - 1) else cells ! i)"
  by (induction n before cells rule: shift_names.induct) (auto simp: nth_list_update le_Suc_eq)

lemma length_shift_names [simp]: "length (shift_names n before cells) = length cells"
  by (induction n before cells rule: shift_names.induct) auto

lemma sorted_insert:
  assumes "sorted_wrt (<) (map f xs)" and "p \<le> length xs"
    and "\<forall>i < p. f (xs ! i) < f x" and "\<forall>i. p \<le> i \<longrightarrow> i < length xs \<longrightarrow> f x < f (xs ! i)"
  shows "sorted_wrt (<) (map f (take p xs @ x # drop p xs) :: 'a::linorder list)"
proof -
  have "sorted_wrt (<) (map f (take p xs))" "sorted_wrt (<) (map f (drop p xs))"
    using assms(1) by (simp_all flip: take_map drop_map)
  moreover have "f a < f x" if "a \<in> set (take p xs)" for a
    using that assms(3) by (auto simp: in_set_conv_nth)
  moreover have "f x < f a" if "a \<in> set (drop p xs)" for a
    using that assms(2,4) by (auto simp: in_set_conv_nth)
  ultimately show ?thesis
    by (auto simp: sorted_wrt_append intro: less_trans)
qed

lemma insert_name_before_spec:
  assumes inv: "names_inv s" and gap: "gap_at s nm p"
    and room: "name_count s < name_cap s \<or> name_cap s * 2 \<le> MAX_SLOT_SIZE"
  shows "\<exists>s'. insert_name_before s nm h p = Inr s' \<and> names_inv s' \<and>
    names s' = take p (names s) @ \<lparr>hname = nm, hhandle = h\<rparr> # drop p (names s) \<and>
    slot s' = slot s \<and> slot_size s' = slot_size s \<and> harbor s' = harbor s \<and> handle_index s' = handle_index s"
proof -
  let ?new = "\<lparr>hname = nm, hhandle = h\<rparr>"
  define cap' where "cap' = (if name_cap s \<le> name_count s then name_cap s * 2 else name_cap s)"
  define cells where "cells = (if name_cap s \<le> name_count s
      then copy_names (name_cap s * 2) p (name_count s) (name s) else shift_names (name_count s) p (name s))"
  define s' where "s' = s\<lparr>name_cap := cap', name := cells[p := Some ?new], name_count := name_count s + 1\<rparr>"
  have p: "p \<le> name_count s" using gap by (simp add: gap_at_def)
  have len: "length cells = cap'" "length (name s) = name_cap s" "name_count s \<le> name_cap s" "0 < name_cap s"
    using inv by (simp_all add: cells_def cap'_def copy_names_def names_inv_def)
  have cap: "name_count s < cap'" using len by (auto simp: cap'_def)
  have eq: "insert_name_before s nm h p = Inr s'"
    using room p cap len unfolding insert_name_before_def s'_def cells_def cap'_def
    by (auto simp: write_cell_def copy_names_def)
  have cell: "cells[p := Some ?new] ! i = Some ((take p (names s) @ ?new # drop p (names s)) ! i)"
    if i: "i < Suc (name_count s)" for i
  proof -
    have ln: "length (names s) = name_count s" by (rule length_names [OF inv])
    have "cells ! i = (if i < p then name s ! i else name s ! (i - 1))" if "i \<noteq> p"
      using that i p cap len by (auto simp: cells_def cap'_def copy_names_def shift_names_nth)
    then show ?thesis
      using i p cap len ln name_cell [OF inv, of i] name_cell [OF inv, of "i - 1"]
      by (cases i p rule: linorder_cases) (auto simp: nth_append min_def nth_Cons' Suc_diff_le)
  qed
  have ns': "names s' = map the (take (Suc (name_count s)) (cells[p := Some ?new]))"
    by (simp add: names_def s'_def)
  have nms: "names s' = take p (names s) @ ?new # drop p (names s)"
  proof (rule nth_equalityI)
    show "length (names s') = length (take p (names s) @ ?new # drop p (names s))"
      using cap len p length_names [OF inv] by (simp add: ns')
    show "names s' ! i = (take p (names s) @ ?new # drop p (names s)) ! i" if "i < length (names s')" for i
      using cell [of i] that by (simp add: ns')
  qed
  have "sorted_wrt (<) (map hname (names s'))"
    unfolding nms using sorted_insert [of hname "names s" p ?new] inv gap length_names [OF inv]
    by (simp add: names_inv_def gap_at_def)
  then have "names_inv s'"
    using cap cell len by (auto simp: names_inv_def s'_def)
  with eq nms show ?thesis by (auto simp: s'_def)
qed

lemma name_map_insert:
  assumes inv: "names_inv s" and inv': "names_inv s'" and gap: "gap_at s nm p"
    and nms: "names s' = take p (names s) @ \<lparr>hname = nm, hhandle = h\<rparr> # drop p (names s)"
  shows "name_map s' = (name_map s)(nm \<mapsto> h)"
proof
  fix key
  have "map_of (map (\<lambda>n. (hname n, hhandle n)) (take p (names s))) nm = None"
    using gap length_names [OF inv]
    by (fastforce simp: map_of_eq_None_iff gap_at_def in_set_conv_nth)
  moreover have "map (\<lambda>n. (hname n, hhandle n)) (names s) =
      map (\<lambda>n. (hname n, hhandle n)) (take p (names s)) @ map (\<lambda>n. (hname n, hhandle n)) (drop p (names s))"
    by (simp flip: map_append)
  ultimately show "name_map s' key = ((name_map s)(nm \<mapsto> h)) key"
    by (auto simp: name_map_def nms map_add_def split: option.splits)
qed

lemma findname_spec:
  assumes "names_inv s"
  shows "skynet_handle_findname s key = Inr (case name_map s key of None \<Rightarrow> 0 | Some h \<Rightarrow> h)"
  using name_search_all [OF assms, of key]
proof (elim disjE exE conjE)
  fix i
  assume i: "i < name_count s" "hname (names s ! i) = key"
    and r: "name_search (name s) key 0 (int (name_count s) - 1) = Inr (Inl (names s ! i))"
  then have "name_map s key = Some (hhandle (names s ! i))"
    using name_map_Some_iff [OF assms] by blast
  with r show ?thesis by (simp add: skynet_handle_findname_def)
next
  fix p
  assume "name_search (name s) key 0 (int (name_count s) - 1) = Inr (Inr p)" and "gap_at s key p"
  with gap_at_absent [OF assms this(2)] show ?thesis by (simp add: skynet_handle_findname_def)
qed

lemma namehandle_taken:
  assumes "names_inv s" and "name_map s nm \<noteq> None"
  shows "skynet_handle_namehandle s h nm = Inr (s, None)"
  using name_search_all [OF assms(1), of nm] gap_at_absent [OF assms(1), of nm] assms(2)
  by (auto simp: skynet_handle_namehandle_def insert_name_def)

lemma namehandle_new:
  assumes inv: "names_inv s" and "name_map s nm = None"
    and room: "name_count s < name_cap s \<or> name_cap s * 2 \<le> MAX_SLOT_SIZE"
  shows "\<exists>s'. skynet_handle_namehandle s h nm = Inr (s', Some nm) \<and> names_inv s' \<and>
    name_map s' = (name_map s)(nm \<mapsto> h) \<and> slot s' = slot s \<and> slot_size s' = slot_size s \<and>
    harbor s' = harbor s \<and> handle_index s' = handle_index s"
proof -
  have "\<not> (\<exists>i < name_count s. hname (names s ! i) = nm)"
    using name_map_Some_iff [OF inv, of nm] assms(2) by fastforce
  with name_search_all [OF inv, of nm] obtain p where
    p: "name_search (name s) nm 0 (int (name_count s) - 1) = Inr (Inr p)" "gap_at s nm p" by blast
  from insert_name_before_spec [OF inv p(2) room, of h] obtain s' where
    s': "insert_name_before s nm h p = Inr s'" "names_inv s'"
      "names s' = take p (names s) @ \<lparr>hname = nm, hhandle = h\<rparr> # drop p (names s)"
      "slot s' = slot s" "slot_size s' = slot_size s" "harbor s' = harbor s" "handle_index s' = handle_index s"
    by blast
  with name_map_insert [OF inv s'(2) p(2) s'(3)] p(1) show ?thesis
    by (simp add: skynet_handle_namehandle_def insert_name_def)
qed

text \<open>The compaction keeps exactly the names of other handles, in order.\<close>

lemma drop_names_spec:
  "j \<le> i \<Longrightarrow> i \<le> n \<Longrightarrow> n \<le> length cells \<Longrightarrow> length xs = n \<Longrightarrow>
    \<forall>k. i \<le> k \<longrightarrow> k < n \<longrightarrow> cells ! k = Some (xs ! k) \<Longrightarrow> \<forall>k < j. cells ! k \<noteq> None \<Longrightarrow>
    \<exists>j' cells'. drop_names h n i j cells = Inr (j', cells') \<and> length cells' = length cells \<and> j' \<le> n \<and>
      (\<forall>k < j'. cells' ! k \<noteq> None) \<and>
      map the (take j' cells') = map the (take j cells) @ filter (\<lambda>e. hhandle e \<noteq> h) (drop i xs)"
proof (induction h n i j cells rule: drop_names.induct)
  case (1 h n i j cells)
  show ?case
  proof (cases "i < n")
    case False
    then have "drop_names h n i j cells = Inr (j, cells)" by (simp add: drop_names.simps [of h n i j cells])
    with False "1.prems" show ?thesis by simp
  next
    case True
    let ?e = "xs ! i"
    have rd: "read_cell cells i = Inr ?e" using True "1.prems" by simp
    have xs: "drop i xs = ?e # drop (Suc i) xs" using True "1.prems"(4) by (simp add: Cons_nth_drop_Suc)
    consider (skip) "hhandle ?e = h" | (move) "hhandle ?e \<noteq> h" "i \<noteq> j" | (keep) "hhandle ?e \<noteq> h" "i = j"
      by blast
    then show ?thesis
    proof cases
      case skip
      have unf: "drop_names h n i j cells = drop_names h n (Suc i) j cells"
        using skip True rd by (simp add: drop_names.simps [of h n i j cells])
      show ?thesis unfolding unf using "1.IH"(1) [OF True skip] "1.prems" True skip xs by simp
    next
      case move
      have unf: "drop_names h n i j cells = drop_names h n (Suc i) (Suc j) (cells[j := Some ?e])"
        using move True rd by (simp add: drop_names.simps [of h n i j cells])
      have tk: "map the (take (Suc j) (cells[j := Some ?e])) = map the (take j cells) @ [?e]"
        using "1.prems" True by (simp add: take_Suc_conv_app_nth)
      have "\<forall>k < Suc j. cells[j := Some ?e] ! k \<noteq> None"
        using "1.prems" True by (auto simp: nth_list_update less_Suc_eq)
      then show ?thesis
        unfolding unf using "1.IH"(2) [OF True move] "1.prems" True move xs tk by simp
    next
      case keep
      have unf: "drop_names h n i j cells = drop_names h n (Suc i) (Suc j) cells"
        using keep True rd by (subst drop_names.simps) simp
      have cj: "cells ! j = Some ?e" using "1.prems" True keep by simp
      have tk: "map the (take (Suc j) cells) = map the (take j cells) @ [?e]"
        using "1.prems" True keep cj by (simp add: take_Suc_conv_app_nth)
      have "\<forall>k < Suc j. cells ! k \<noteq> None" using "1.prems" cj by (auto simp: less_Suc_eq)
      then show ?thesis
        unfolding unf using "1.IH"(3) [OF True keep(1)] "1.prems" True keep xs tk by simp
    qed
  qed
qed

lemma retire_hit:
  assumes inv: "slots_inv hf s" and nms: "names_inv s" and c: "c \<in> live s"
  shows "\<exists>s'. handle_retire_locked hf s (hf c) = Inr (s', Some c) \<and>
    slot s' = (slot s)[hash_of (slot_size s) (hf c) := None] \<and> slot_size s' = slot_size s \<and>
    harbor s' = harbor s \<and> handle_index s' = handle_index s \<and>
    names_inv s' \<and> names s' = filter (\<lambda>e. hhandle e \<noteq> hf c) (names s)"
proof -
  have cells: "\<forall>k. 0 \<le> k \<longrightarrow> k < name_count s \<longrightarrow> name s ! k = Some (names s ! k)"
    using name_cell [OF nms] by blast
  have len: "name_count s \<le> length (name s)" using nms by (simp add: names_inv_def)
  obtain j cells' where r: "drop_names (hf c) (name_count s) 0 0 (name s) = Inr (j, cells')"
      "length cells' = length (name s)" "j \<le> name_count s" "\<forall>k < j. cells' ! k \<noteq> None"
      "map the (take j cells') = filter (\<lambda>e. hhandle e \<noteq> hf c) (names s)"
    using drop_names_spec [OF le_refl le0 len length_names [OF nms] cells, of "hf c"] by auto
  let ?s = "s\<lparr>slot := (slot s)[hash_of (slot_size s) (hf c) := None], name_count := j, name := cells'\<rparr>"
  have ns: "names ?s = filter (\<lambda>e. hhandle e \<noteq> hf c) (names s)" using r(5) by (simp add: names_def)
  have "sorted_wrt (<) (map hname (filter (\<lambda>e. hhandle e \<noteq> hf c) (names s)))"
    using nms by (simp add: names_inv_def sorted_wrt_map sorted_wrt_filter)
  then have "names_inv ?s" using nms r ns by (simp add: names_inv_def)
  moreover have "handle_retire_locked hf s (hf c) = Inr (?s, Some c)"
    using live_slot [OF inv c] r(1) by (simp add: handle_retire_locked_def)
  ultimately show ?thesis using ns by (intro exI [of _ ?s]) simp
qed

lemma retire_miss:
  assumes "slots_inv hf s" and "skynet_handle_grab hf s h = None"
  shows "handle_retire_locked hf s h = Inr (s, None)"
  using assms(2) by (auto simp: handle_retire_locked_def skynet_handle_grab_def split: option.splits if_splits)

lemma clear_slot:
  assumes inv: "slots_inv hf s" and i: "i < slot_size s"
    and s': "slot s' = (slot s)[i := None]" "slot_size s' = slot_size s" "harbor s' = harbor s"
  shows "slots_inv hf s' \<and> live s' = live s - {c. slot s ! i = Some c}"
proof
  show "slots_inv hf s'"
    using inv s' i by (auto simp: slots_inv_def nth_list_update)
  have "c \<in> live s' \<longleftrightarrow> c \<in> live s \<and> slot s ! i \<noteq> Some c" for c
  proof -
    have len: "length (slot s) = slot_size s" using inv by (simp add: slots_inv_def)
    have uniq: "j = i" if "j < slot_size s" "slot s ! j = Some c" "slot s ! i = Some c" for j
      using inv that i by (metis slots_inv_def)
    have "c \<in> live s' \<longleftrightarrow> (\<exists>j < slot_size s. j \<noteq> i \<and> slot s ! j = Some c)"
      using s' len i by (auto simp: live_def in_set_conv_nth nth_list_update split: if_splits)
    also have "\<dots> \<longleftrightarrow> c \<in> live s \<and> slot s ! i \<noteq> Some c"
      using uniq i len by (auto simp: live_def in_set_conv_nth)
    finally show ?thesis .
  qed
  then show "live s' = live s - {c. slot s ! i = Some c}" by blast
qed

section \<open>The contract of the registry\<close>

text \<open>
  What the rest of the server relies on: registering gives a context a handle nobody has, and
  lookups of other handles are not affected by registering or retiring.
\<close>

datatype ('c, 'h) reg_op = Reg 'c | Ret 'h

locale registry =
  fixes inv :: "('c \<Rightarrow> 'h) \<Rightarrow> 's \<Rightarrow> bool"
    and room :: "'s \<Rightarrow> bool"
    and grab :: "('c \<Rightarrow> 'h) \<Rightarrow> 's \<Rightarrow> 'h \<Rightarrow> 'c option"
    and register :: "('c \<Rightarrow> 'h) \<Rightarrow> 's \<Rightarrow> 'c \<Rightarrow> ('s \<times> 'h) res option"
    and retire :: "('c \<Rightarrow> 'h) \<Rightarrow> 's \<Rightarrow> 'h \<Rightarrow> ('s \<times> 'c option) res"
  assumes register_ok: "inv hf s \<Longrightarrow> room s \<Longrightarrow> (\<And>h. grab hf s h \<noteq> Some c) \<Longrightarrow>
      \<exists>s' h. register hf s c = Some (Inr (s', h)) \<and> inv (hf(c := h)) s' \<and> grab hf s h = None \<and>
        (\<forall>g. grab (hf(c := h)) s' g = (if g = h then Some c else grab hf s g))"
    and retire_ok: "inv hf s \<Longrightarrow>
      \<exists>s'. retire hf s h = Inr (s', grab hf s h) \<and> inv hf s' \<and>
        (\<forall>g. grab hf s' g = (if g = h then None else grab hf s g))"
begin

text \<open>A run of operations; a context is only registered while it is not registered.\<close>

inductive run :: "('c \<Rightarrow> 'h) \<Rightarrow> 's \<Rightarrow> ('c, 'h) reg_op list \<Rightarrow> ('c \<Rightarrow> 'h) \<Rightarrow> 's \<Rightarrow> bool" where
  run_Nil: "run hf s [] hf s"
| run_Reg: "room s \<Longrightarrow> (\<And>h. grab hf s h \<noteq> Some c) \<Longrightarrow> register hf s c = Some (Inr (s', h)) \<Longrightarrow>
    run (hf(c := h)) s' ops hf'' s'' \<Longrightarrow> run hf s (Reg c # ops) hf'' s''"
| run_Ret: "retire hf s h = Inr (s', r) \<Longrightarrow> run hf s' ops hf'' s'' \<Longrightarrow> run hf s (Ret h # ops) hf'' s''"

text \<open>A handle denotes the same context from its registration to its retirement.\<close>

lemma run_stable:
  "run hf s ops hf' s' \<Longrightarrow> inv hf s \<Longrightarrow> inv hf' s' \<and>
    (grab hf s h = Some c \<longrightarrow> Ret h \<notin> set ops \<longrightarrow> grab hf' s' h = Some c)"
proof (induction arbitrary: rule: run.induct)
  case (run_Nil hf s)
  then show ?case by simp
next
  case (run_Reg s hf c' s' h' ops hf'' s'')
  then have "inv (hf(c' := h')) s'" "grab hf s h' = None"
    "\<forall>g. grab (hf(c' := h')) s' g = (if g = h' then Some c' else grab hf s g)"
    using register_ok [of hf s c'] by auto
  with run_Reg.IH show ?case by (metis list.set_intros(2) option.distinct(1))
next
  case (run_Ret hf s h' s' r ops hf'' s'')
  then show ?case using retire_ok [of hf s h'] by (auto split: if_splits)
qed

end

definition handle_inv :: "(ctx \<Rightarrow> u32) \<Rightarrow> handle_storage \<Rightarrow> bool" where
  "handle_inv hf s \<longleftrightarrow> slots_inv hf s \<and> names_inv s"

lemma names_inv_cong:
  "name s' = name s \<Longrightarrow> name_count s' = name_count s \<Longrightarrow> name_cap s' = name_cap s \<Longrightarrow>
    names s' = names s \<and> names_inv s' = names_inv s"
  by (simp add: names_inv_def names_def)

lemma grab_None_iff: "slots_inv hf s \<Longrightarrow> skynet_handle_grab hf s h = None \<longleftrightarrow> (\<forall>c \<in> live s. hf c \<noteq> h)"
  using grab_iff [of hf s h] by (metis option.exhaust option.distinct(1))

interpretation handles: registry handle_inv can_register skynet_handle_grab skynet_handle_register handle_retire_locked
proof
  fix hf s c
  assume inv: "handle_inv hf s" and room: "can_register s" and new: "\<And>h. skynet_handle_grab hf s h \<noteq> Some c"
  from inv have si: "slots_inv hf s" and ni: "names_inv s" by (simp_all add: handle_inv_def)
  have "c \<notin> live s" using new [of "hf c"] grab_iff [OF si, of "hf c" c] by simp
  from register_spec [OF si room this] obtain s' h where
    r: "skynet_handle_register hf s c = Some (Inr (s', h))" "slots_inv (hf(c := h)) s'"
      "live s' = insert c (live s)" "\<forall>d \<in> live s. hf d \<noteq> h"
    and n: "name s' = name s" "name_count s' = name_count s" "name_cap s' = name_cap s"
    by blast
  have "skynet_handle_grab (hf(c := h)) s' g = (if g = h then Some c else skynet_handle_grab hf s g)" for g
  proof (cases "g = h")
    case True
    then show ?thesis using grab_iff [OF r(2), of h c] r(3) by simp
  next
    case False
    have "skynet_handle_grab (hf(c := h)) s' g = Some d \<longleftrightarrow> skynet_handle_grab hf s g = Some d" for d
      using grab_iff [OF r(2), of g d] grab_iff [OF si, of g d] r(3) False \<open>c \<notin> live s\<close> by auto
    with False show ?thesis by (metis option.exhaust)
  qed
  moreover have "names_inv s'" using names_inv_cong [OF n] ni by simp
  moreover have "skynet_handle_grab hf s h = None" using grab_None_iff [OF si] r(4) by blast
  ultimately show "\<exists>s' h. skynet_handle_register hf s c = Some (Inr (s', h)) \<and> handle_inv (hf(c := h)) s' \<and>
      skynet_handle_grab hf s h = None \<and>
      (\<forall>g. skynet_handle_grab (hf(c := h)) s' g = (if g = h then Some c else skynet_handle_grab hf s g))"
    using r(1,2) by (auto simp: handle_inv_def)
next
  fix hf s h
  assume "handle_inv hf s"
  then have si: "slots_inv hf s" and ni: "names_inv s" by (simp_all add: handle_inv_def)
  show "\<exists>s'. handle_retire_locked hf s h = Inr (s', skynet_handle_grab hf s h) \<and> handle_inv hf s' \<and>
      (\<forall>g. skynet_handle_grab hf s' g = (if g = h then None else skynet_handle_grab hf s g))"
  proof (cases "skynet_handle_grab hf s h")
    case None
    with retire_miss [OF si None] si ni show ?thesis by (auto simp: handle_inv_def)
  next
    case (Some c)
    then have c: "c \<in> live s" "hf c = h" using grab_iff [OF si] by simp_all
    let ?i = "hash_of (slot_size s) h"
    from retire_hit [OF si ni c(1)] c(2) obtain s' where
      r: "handle_retire_locked hf s h = Inr (s', Some c)" "slot s' = (slot s)[?i := None]"
        "slot_size s' = slot_size s" "harbor s' = harbor s" "names_inv s'" by auto
    have i: "slot s ! ?i = Some c" using live_slot [OF si c(1)] c(2) by simp
    from clear_slot [OF si hash_of_less [OF si] r(2-4)] i
    have si': "slots_inv hf s'" and lv: "live s' = live s - {c}" by auto
    have "skynet_handle_grab hf s' g = Some d \<longleftrightarrow> g \<noteq> h \<and> skynet_handle_grab hf s g = Some d" for g d
      using grab_iff [OF si', of g d] grab_iff [OF si, of g d] live_inj [OF si _ c(1), of d] lv c by auto
    then have "skynet_handle_grab hf s' g = (if g = h then None else skynet_handle_grab hf s g)" for g
      by (metis option.exhaust)
    with r si' Some show ?thesis by (auto simp: handle_inv_def)
  qed
qed

section \<open>Retiring everything\<close>

lemma retire_pass_spec:
  "slots_inv hf s \<Longrightarrow> names_inv s \<Longrightarrow> distinct is \<Longrightarrow> \<forall>i\<in>set is. i < slot_size s \<Longrightarrow>
    \<exists>s'. retire_pass hf is s = Inr (s', map (\<lambda>i. the (slot s ! i)) (filter (\<lambda>i. \<exists>c. slot s ! i = Some c \<and> hf c \<noteq> 0) is)) \<and>
      slots_inv hf s' \<and> names_inv s' \<and> slot_size s' = slot_size s \<and>
      (\<forall>j < slot_size s. slot s' ! j =
        (if j \<in> set is \<and> (\<exists>c. slot s ! j = Some c \<and> hf c \<noteq> 0) then None else slot s ! j))"
proof (induction "is" arbitrary: s)
  case Nil
  then show ?case by simp
next
  case (Cons i "is")
  show ?case
  proof (cases "\<exists>c. slot s ! i = Some c \<and> hf c \<noteq> 0")
    case False
    then have "retire_pass hf (i # is) s = retire_pass hf is s" by (auto split: option.splits)
    with Cons.IH [OF Cons.prems(1,2)] Cons.prems(3,4) False show ?thesis by auto
  next
    case True
    then obtain c where c: "slot s ! i = Some c" "hf c \<noteq> 0" by blast
    have len: "length (slot s) = slot_size s" using Cons.prems(1) by (simp add: slots_inv_def)
    have i: "i < slot_size s" using Cons.prems(4) by simp
    have live: "c \<in> live s" using c(1) i len by (auto simp: live_def in_set_conv_nth)
    have hi: "hash_of (slot_size s) (hf c) = i" using Cons.prems(1) c(1) i by (auto simp: slots_inv_def)
    from retire_hit [OF Cons.prems(1,2) live] hi obtain s1 where
      s1: "handle_retire_locked hf s (hf c) = Inr (s1, Some c)" "slot s1 = (slot s)[i := None]"
        "slot_size s1 = slot_size s" "harbor s1 = harbor s" "names_inv s1" by auto
    have si: "slots_inv hf s1" using clear_slot [OF Cons.prems(1) i s1(2-4)] by simp
    have other: "slot s1 ! j = slot s ! j" if "j \<in> set is" for j
      using s1(2) Cons.prems(3) that by (metis distinct.simps(2) nth_list_update_neq)
    from Cons.IH [OF si s1(5)] Cons.prems(3,4) s1(3) obtain s2 where
      s2: "retire_pass hf is s1 = Inr (s2, map (\<lambda>i. the (slot s1 ! i)) (filter (\<lambda>i. \<exists>c. slot s1 ! i = Some c \<and> hf c \<noteq> 0) is))"
        "slots_inv hf s2" "names_inv s2" "slot_size s2 = slot_size s1"
        "\<forall>j < slot_size s1. slot s2 ! j =
          (if j \<in> set is \<and> (\<exists>c. slot s1 ! j = Some c \<and> hf c \<noteq> 0) then None else slot s1 ! j)" by auto
    have "map (\<lambda>i. the (slot s1 ! i)) (filter (\<lambda>i. \<exists>c. slot s1 ! i = Some c \<and> hf c \<noteq> 0) is) =
        map (\<lambda>i. the (slot s ! i)) (filter (\<lambda>i. \<exists>c. slot s ! i = Some c \<and> hf c \<noteq> 0) is)"
      using other by (intro map_cong filter_cong) auto
    then have "retire_pass hf (i # is) s = Inr (s2, map (\<lambda>i. the (slot s ! i)) (filter (\<lambda>i. \<exists>c. slot s ! i = Some c \<and> hf c \<noteq> 0) (i # is)))"
      using c s1(1) s2(1) True by simp
    moreover have "slot s2 ! j = (if j \<in> set (i # is) \<and> (\<exists>c. slot s ! j = Some c \<and> hf c \<noteq> 0) then None else slot s ! j)"
      if "j < slot_size s" for j
      using s2(5) that s1(2,3) c len i by (cases "j = i") auto
    ultimately show ?thesis using s2(2-4) s1(3) by auto
  qed
qed

lemma retireall_spec:
  assumes inv: "handle_inv hf s"
  shows "\<exists>s' cs. skynet_handle_retireall hf s [] = Some (Inr (s', cs)) \<and> handle_inv hf s' \<and>
    live s' = {c \<in> live s. hf c = 0} \<and> set cs = {c \<in> live s. hf c \<noteq> 0}"
proof -
  let ?gone = "\<lambda>s i. \<exists>c. slot s ! i = Some c \<and> hf c \<noteq> 0"
  let ?cs = "\<lambda>s. map (\<lambda>i. the (slot s ! i)) (filter (?gone s) [0..<slot_size s])"
  have pass: "\<exists>s'. retire_pass hf [0..<slot_size s] s = Inr (s', ?cs s) \<and> handle_inv hf s' \<and>
      slot_size s' = slot_size s \<and> (\<forall>j < slot_size s. slot s' ! j = (if ?gone s j then None else slot s ! j))"
    if "handle_inv hf s" for s
    using retire_pass_spec [of hf s "[0..<slot_size s]"] that by (auto simp: handle_inv_def)
  from pass [OF inv] obtain s1 where s1: "retire_pass hf [0..<slot_size s] s = Inr (s1, ?cs s)"
      "handle_inv hf s1" "slot_size s1 = slot_size s"
      "\<forall>j < slot_size s. slot s1 ! j = (if ?gone s j then None else slot s ! j)" by blast
  have len: "length (slot s) = slot_size s" "length (slot s1) = slot_size s"
    using inv s1(2,3) by (simp_all add: handle_inv_def slots_inv_def)
  have lv: "c \<in> live s1 \<longleftrightarrow> c \<in> live s \<and> hf c = 0" for c
  proof -
    have "slot s1 ! j = Some c \<longleftrightarrow> slot s ! j = Some c \<and> hf c = 0" if "j < slot_size s" for j
      using s1(4) that by auto
    then show ?thesis using len by (auto simp: live_def in_set_conv_nth)
  qed
  have none: "filter (?gone s1) [0..<slot_size s1] = []"
    using s1(3,4) by (auto simp: filter_empty_conv split: if_splits)
  from pass [OF s1(2)] none obtain s2 where s2: "retire_pass hf [0..<slot_size s1] s1 = Inr (s2, [])"
      "handle_inv hf s2" "slot_size s2 = slot_size s1"
      "\<forall>j < slot_size s1. slot s2 ! j = (if ?gone s1 j then None else slot s1 ! j)" by auto
  have "slot s2 = slot s1"
    using s2 none len s1(3) by (intro nth_equalityI) (auto simp: handle_inv_def slots_inv_def filter_empty_conv)
  then have live2: "live s2 = live s1" by (simp add: live_def)
  have end2: "skynet_handle_retireall hf s1 r = Some (Inr (s2, r))" for r
    using s2(1) by (subst skynet_handle_retireall.simps) simp
  define cs where "cs = ?cs s"
  define t where "t = (if cs = [] then s1 else s2)"
  have "c \<in> set cs \<longleftrightarrow> c \<in> live s \<and> hf c \<noteq> 0" for c
  proof -
    have "c \<in> set cs \<longleftrightarrow> (\<exists>i < slot_size s. slot s ! i = Some c \<and> hf c \<noteq> 0)"
    proof
      assume "c \<in> set cs"
      then obtain i where "i < slot_size s" "?gone s i" "c = the (slot s ! i)" by (auto simp: cs_def)
      then show "\<exists>i < slot_size s. slot s ! i = Some c \<and> hf c \<noteq> 0" by auto
    next
      assume "\<exists>i < slot_size s. slot s ! i = Some c \<and> hf c \<noteq> 0"
      then obtain i where i: "i < slot_size s" "slot s ! i = Some c" "hf c \<noteq> 0" by blast
      then have "i \<in> set (filter (?gone s) [0..<slot_size s])" by simp
      then have "the (slot s ! i) \<in> set cs" unfolding cs_def set_map by (rule imageI)
      with i(2) show "c \<in> set cs" by simp
    qed
    then show ?thesis using len(1) by (auto simp: live_def in_set_conv_nth)
  qed
  then have "set cs = {c \<in> live s. hf c \<noteq> 0}" by blast
  moreover have "skynet_handle_retireall hf s [] = Some (Inr (t, cs))"
    using s1(1) end2 unfolding cs_def [symmetric] t_def
    by (subst skynet_handle_retireall.simps) simp
  moreover have "live t = {c \<in> live s. hf c = 0}" using live2 lv by (auto simp: t_def)
  moreover have "handle_inv hf t" using s1(2) s2(2) by (simp add: t_def)
  ultimately show ?thesis by blast
qed

section \<open>Properties\<close>

lemma handle_inv_init: "handle_inv hf (skynet_handle_init hb)"
proof -
  have "push_bit 24 (hb AND 0xff) AND mask 24 = (0::u32)"
    by (rule bit_word_eqI) (auto simp: bit_simps)
  then have "push_bit HANDLE_REMOTE_SHIFT (hb AND 0xff) AND HANDLE_MASK = 0"
    by (simp add: HANDLE_REMOTE_SHIFT_def HANDLE_MASK_mask)
  moreover have "(4::nat) = 2 ^ 2" by simp
  then have "\<exists>k\<le>24. (4::nat) = 2 ^ k" by (intro exI [of _ 2]) simp
  ultimately show ?thesis
    by (simp add: handle_inv_def slots_inv_def names_inv_def names_def skynet_handle_init_def DEFAULT_SLOT_SIZE_def)
qed

lemma init_no_handles: "skynet_handle_grab hf (skynet_handle_init hb) h = None"
proof -
  have "live (skynet_handle_init hb) = {}" by (simp add: live_def skynet_handle_init_def DEFAULT_SLOT_SIZE_def)
  then show ?thesis
    using grab_None_iff [of hf "skynet_handle_init hb" h] handle_inv_init [of hf hb] by (simp add: handle_inv_def)
qed

text \<open>C20: registering a service: with a free slot, or room to double the table, the call returns
  (the loop ends), the new handle carries the node's harbor id in its high byte, was not in use,
  and afterwards a lookup of it finds the new context while every other lookup is as before,
  also across the rehash of the whole table; all invariants of the table are kept.\<close>

theorem handle_register_correct:
  assumes "handle_inv hf s" and "can_register s" and "\<forall>h. skynet_handle_grab hf s h \<noteq> Some c"
  shows "\<exists>s' h. skynet_handle_register hf s c = Some (Inr (s', h)) \<and> handle_inv (hf(c := h)) s' \<and>
    skynet_handle_grab hf s h = None \<and> h AND NOT HANDLE_MASK = harbor s \<and>
    (\<forall>g. skynet_handle_grab (hf(c := h)) s' g = (if g = h then Some c else skynet_handle_grab hf s g))"
proof -
  have si: "slots_inv hf s" using assms(1) by (simp add: handle_inv_def)
  have "c \<notin> live s" using assms(3) grab_iff [OF si, of "hf c" c] by simp
  from register_spec [OF si assms(2) this] handles.register_ok [OF assms(1,2), of c] assms(3)
  show ?thesis by auto
qed

theorem handle_register_correct_witness:
  "\<exists>s' h. skynet_handle_register (\<lambda>_. 0) (skynet_handle_init 3) 7 = Some (Inr (s', h)) \<and>
    skynet_handle_grab ((\<lambda>_. 0)(7 := h)) s' h = Some 7"
proof -
  have "can_register (skynet_handle_init 3)"
    by (auto simp: can_register_def skynet_handle_init_def DEFAULT_SLOT_SIZE_def intro: exI [of _ 0])
  moreover have "\<forall>h. skynet_handle_grab (\<lambda>_. 0) (skynet_handle_init 3) h \<noteq> Some 7"
  proof
    fix h
    have "live (skynet_handle_init 3) = {}" by (simp add: live_def skynet_handle_init_def DEFAULT_SLOT_SIZE_def)
    then show "skynet_handle_grab (\<lambda>_. 0) (skynet_handle_init 3) h \<noteq> Some 7"
      using grab_iff [of "\<lambda>_. 0" "skynet_handle_init 3" h 7] handle_inv_init [of "\<lambda>_. 0" 3]
      by (simp add: handle_inv_def)
  qed
  ultimately show ?thesis using handle_register_correct [OF handle_inv_init, of 3 "\<lambda>_. 0" 7] by auto
qed

text \<open>C21: a handle is stable: through any sequence of registrations (with however many doublings of
  the table) and retirements of other handles, it keeps denoting the context it was given to,
  and the table stays well formed.\<close>

theorem handle_stable:
  assumes "handles.run hf s ops hf' s'" and "handle_inv hf s"
    and "skynet_handle_grab hf s h = Some c" and "Ret h \<notin> set ops"
  shows "skynet_handle_grab hf' s' h = Some c \<and> handle_inv hf' s'"
  using handles.run_stable [OF assms(1,2)] assms(3,4) by blast

theorem handle_stable_witness:
  "\<exists>hf s h s'. skynet_handle_grab hf s h = Some 7 \<and> handles.run hf s [Ret (h + 1)] hf s' \<and>
    skynet_handle_grab hf s' h = Some 7"
proof -
  have "can_register (skynet_handle_init 3)"
    by (auto simp: can_register_def skynet_handle_init_def DEFAULT_SLOT_SIZE_def intro: exI [of _ 0])
  then obtain s h where s: "handle_inv ((\<lambda>_. 0)(7 := h)) s"
      "skynet_handle_grab ((\<lambda>_. 0)(7 := h)) s h = Some 7"
    using handles.register_ok [OF handle_inv_init, of 3 "\<lambda>_. 0" 7] by (auto simp: init_no_handles)
  obtain s' r where "handle_retire_locked ((\<lambda>_. 0)(7 := h)) s (h + 1) = Inr (s', r)"
    using handles.retire_ok [OF s(1), of "h + 1"] by blast
  then have run: "handles.run ((\<lambda>_. 0)(7 := h)) s [Ret (h + 1)] ((\<lambda>_. 0)(7 := h)) s'"
    by (rule handles.run_Ret) (rule handles.run_Nil)
  with handle_stable [OF run s] s(2) show ?thesis by auto
qed

text \<open>C22: retiring: for a handle in use the call unlinks exactly that context, hands it to the
  caller for release, removes every name bound to that handle and keeps all other names in
  order; for a handle not in use it changes nothing.\<close>

theorem handle_retire_correct:
  assumes "handle_inv hf s"
  shows "\<exists>s'. handle_retire_locked hf s h = Inr (s', skynet_handle_grab hf s h) \<and> handle_inv hf s' \<and>
    (\<forall>g. skynet_handle_grab hf s' g = (if g = h then None else skynet_handle_grab hf s g)) \<and>
    names s' = (if skynet_handle_grab hf s h = None then names s else filter (\<lambda>e. hhandle e \<noteq> h) (names s))"
proof -
  have si: "slots_inv hf s" and ni: "names_inv s" using assms by (simp_all add: handle_inv_def)
  obtain s' where s': "handle_retire_locked hf s h = Inr (s', skynet_handle_grab hf s h)" "handle_inv hf s'"
      "\<forall>g. skynet_handle_grab hf s' g = (if g = h then None else skynet_handle_grab hf s g)"
    using handles.retire_ok [OF assms] by blast
  have "names s' = (if skynet_handle_grab hf s h = None then names s else filter (\<lambda>e. hhandle e \<noteq> h) (names s))"
  proof (cases "skynet_handle_grab hf s h")
    case None
    with retire_miss [OF si None] s'(1) show ?thesis by simp
  next
    case (Some c)
    then have "c \<in> live s" "hf c = h" using grab_iff [OF si] by simp_all
    with retire_hit [OF si ni this(1)] s'(1) Some show ?thesis by auto
  qed
  with s' show ?thesis by blast
qed

theorem handle_retire_correct_witness:
  "\<exists>s'. handle_retire_locked (\<lambda>_. 0) (skynet_handle_init 0) 5 = Inr (s', None)"
  using handle_retire_correct [OF handle_inv_init, of "\<lambda>_. 0" 0 5] init_no_handles [of "\<lambda>_. 0" 0 5] by auto

text \<open>C23: the name table is a partial map: bisection finds exactly the bound names (0 for the others),
  naming a handle fails (\<open>NULL\<close>) exactly when the name is taken and then changes nothing, and
  otherwise binds the name and leaves every other binding alone, growing the array if needed.\<close>

theorem handle_names_correct:
  assumes "names_inv s" and "name_count s < name_cap s \<or> name_cap s * 2 \<le> MAX_SLOT_SIZE"
  shows "skynet_handle_findname s key = Inr (case name_map s key of None \<Rightarrow> 0 | Some h \<Rightarrow> h) \<and>
    (case name_map s nm of
       Some _ \<Rightarrow> skynet_handle_namehandle s h nm = Inr (s, None)
     | None \<Rightarrow> \<exists>s'. skynet_handle_namehandle s h nm = Inr (s', Some nm) \<and> names_inv s' \<and>
                 name_map s' = (name_map s)(nm \<mapsto> h) \<and> slot s' = slot s)"
proof (cases "name_map s nm")
  case None
  with namehandle_new [OF assms(1) None assms(2), of h] findname_spec [OF assms(1)] show ?thesis by auto
next
  case (Some g)
  with namehandle_taken [OF assms(1), of nm h] findname_spec [OF assms(1)] show ?thesis by simp
qed

theorem handle_names_correct_witness:
  "\<exists>s'. skynet_handle_namehandle (skynet_handle_init 0) 9 ''gate'' = Inr (s', Some ''gate'') \<and>
    name_map s' = [''gate'' \<mapsto> 9]"
proof -
  have inv: "names_inv (skynet_handle_init 0)" using handle_inv_init [of "\<lambda>_. 0" 0] by (simp add: handle_inv_def)
  have empty: "name_map (skynet_handle_init 0) = Map.empty" and cap: "name_count (skynet_handle_init 0) < name_cap (skynet_handle_init 0)"
    by (simp_all add: name_map_def names_def skynet_handle_init_def)
  from handle_names_correct [OF inv disjI1 [OF cap], of "''x''" 9 "''gate''"] empty show ?thesis by auto
qed

text \<open>C24: \<open>skynet_handle_retireall\<close> ends (its outer loop makes at most two passes when no service is
  registered meanwhile), releases exactly the contexts whose handle is not 0, and leaves a
  context with handle 0 in the table.\<close>

theorem handle_retireall_terminates:
  assumes "handle_inv hf s"
  shows "\<exists>s' cs. skynet_handle_retireall hf s [] = Some (Inr (s', cs)) \<and> handle_inv hf s' \<and>
    live s' = {c \<in> live s. hf c = 0} \<and> set cs = {c \<in> live s. hf c \<noteq> 0}"
  by (rule retireall_spec [OF assms])

theorem handle_retireall_terminates_witness:
  "\<exists>s' cs. skynet_handle_retireall (\<lambda>_. 1) (skynet_handle_init 2) [] = Some (Inr (s', cs))"
  using handle_retireall_terminates [OF handle_inv_init, of "\<lambda>_. 1" 2] by blast

section \<open>Two defects\<close>

text \<open>
  \<open>skynet_handle_init\<close> starts the handles at 1 with the comment that 0 is reserved for the
  system, but the scan masks \<open>handle_index\<close> without skipping 0. \<open>churn n\<close> registers and
  retires one context \<open>n\<close> times.
\<close>

fun churn :: "nat \<Rightarrow> handle_storage \<Rightarrow> handle_storage res option" where
  "churn 0 s = Some (Inr s)"
| "churn (Suc n) s =
     (case skynet_handle_register (\<lambda>_. 0) s 0 of
        Some (Inr (s', h)) \<Rightarrow>
          (case handle_retire_locked (\<lambda>_. h) s' h of
             Inr (s'', _) \<Rightarrow> churn n s''
           | Inl e \<Rightarrow> Some (Inl e))
      | r \<Rightarrow> map_option (map_sum id fst) r)"

definition at_index :: "u32 \<Rightarrow> handle_storage" where
  "at_index i = (skynet_handle_init 0)\<lparr>handle_index := i\<rparr>"

lemma hash_of_4: "hash_of 4 h < 4"
  using hash_of_pow [of 2 h] by simp

lemma at_index_fields:
  "slot_size (at_index i) = 4" "slot (at_index i) = replicate 4 None" "harbor (at_index i) = 0"
  "handle_index (at_index i) = i" "name_count (at_index i) = 0"
  by (simp_all add: at_index_def skynet_handle_init_def DEFAULT_SLOT_SIZE_def)

lemma register_at_index:
  "skynet_handle_register hf (at_index i) c =
     Some (Inr ((at_index ((i AND HANDLE_MASK) + 1))\<lparr>slot := (replicate 4 None)[hash_of 4 (i AND HANDLE_MASK) := Some c]\<rparr>,
       i AND HANDLE_MASK))"
proof -
  have "find_free (at_index i) 0 = Some (i AND HANDLE_MASK)"
    using hash_of_4 [of "i AND HANDLE_MASK"]
    by (simp add: find_free.simps [of "at_index i" 0] at_index_fields Let_def)
  then show ?thesis
    by (simp add: skynet_handle_register.simps [of hf "at_index i" c] at_index_fields)
      (simp add: at_index_def skynet_handle_init_def DEFAULT_SLOT_SIZE_def)
qed

lemma churn_at_index:
  "i + n \<le> 2 ^ 24 \<Longrightarrow> churn n (at_index (of_nat i)) = Some (Inr (at_index (of_nat (i + n))))"
proof (induction n arbitrary: i)
  case 0
  then show ?case by simp
next
  case (Suc n)
  let ?h = "of_nat i :: u32"
  have "unat (?h AND mask 24) = unat ?h" using Suc.prems by (simp add: unat_and_mask unat_of_nat)
  then have h: "?h AND HANDLE_MASK = ?h" unfolding HANDLE_MASK_mask by (simp only: word_unat_eq_iff)
  let ?s = "(at_index (?h + 1))\<lparr>slot := (replicate 4 None)[hash_of 4 ?h := Some 0]\<rparr>"
  have reg: "skynet_handle_register (\<lambda>_. 0) (at_index ?h) 0 = Some (Inr (?s, ?h))"
    using register_at_index [of "\<lambda>_. 0" ?h 0] h by simp
  have cleared: "(replicate 4 None)[j := None] = replicate 4 (None :: ctx option)" for j
    by (cases "j < 4") (simp_all add: list_eq_iff_nth_eq nth_list_update)
  have "handle_retire_locked (\<lambda>_. ?h) ?s ?h = Inr (at_index (?h + 1), Some 0)"
    using hash_of_4 [of ?h]
    by (simp add: handle_retire_locked_def at_index_fields drop_names.simps)
      (simp add: at_index_def skynet_handle_init_def DEFAULT_SLOT_SIZE_def cleared)
  moreover have "?h + 1 = of_nat (Suc i)" by simp
  ultimately have "churn (Suc n) (at_index ?h) = churn n (at_index (of_nat (Suc i)))"
    by (simp add: reg del: of_nat_Suc)
  with Suc.IH [of "Suc i"] Suc.prems show ?case by simp
qed

text \<open>A defect: the handle 0, which is reserved for the system and which \<open>skynet_handle_retireall\<close>,
  \<open>skynet_handle_findname\<close> and the senders treat as no handle at all, is given to a service on
  node 0 after \<open>2^24 - 1\<close> registrations, even when every earlier service has been retired.\<close>

lemma handle_zero_reissued:
  "\<exists>s s'. churn (2 ^ 24 - 1) (skynet_handle_init 0) = Some (Inr s) \<and>
    skynet_handle_register hf s c = Some (Inr (s', 0)) \<and>
    skynet_handle_grab (hf(c := 0)) s' 0 = Some c"
proof -
  have "skynet_handle_init 0 = at_index (of_nat 1)" by (simp add: at_index_def skynet_handle_init_def)
  then have "churn (2 ^ 24 - 1) (skynet_handle_init 0) = Some (Inr (at_index (of_nat (2 ^ 24))))"
    using churn_at_index [of 1 "2 ^ 24 - 1"] by simp
  moreover have "(of_nat (2 ^ 24) :: u32) AND HANDLE_MASK = 0" by (simp add: HANDLE_MASK_def)
  moreover have "hash_of 4 0 = 0" by (simp add: hash_of_def)
  ultimately show ?thesis
    using register_at_index [of hf "of_nat (2 ^ 24)" c]
    by (auto simp: skynet_handle_grab_def at_index_fields)
qed

text \<open>(defect) \<open>skynet_context_new\<close> stores the new handle in the context only after
  \<open>skynet_handle_register\<close> has released the lock. If another thread registers a service in
  between and the table has to grow, the first context is rehashed under its old handle 0: here
  contexts 0 to 3 have the handles 1 to 4, context 0 has not stored its handle yet, and context 4
  is registered. When context 0 then stores its handle 1, lookups of that handle find nothing. If
  two contexts are in that window, the assertion in the rehash fails.\<close>

lemma handle_register_race:
  "\<exists>s s'. s = (skynet_handle_init 0)\<lparr>handle_index := 5, slot := [Some 3, Some 0, Some 1, Some 2]\<rparr> \<and>
    handle_inv (\<lambda>c. of_nat c + 1) s \<and>
    skynet_handle_register ((\<lambda>c. of_nat c + 1)(0 := 0)) s 4 = Some (Inr (s', 5)) \<and>
    skynet_handle_grab ((\<lambda>c. of_nat c + 1)(4 := 5)) s' 1 = None \<and>
    skynet_handle_register ((\<lambda>c. of_nat c + 1)(0 := 0, 1 := 0)) s 4 = Some (Inl Assert_failed)"
proof -
  let ?s = "(skynet_handle_init 0)\<lparr>handle_index := 5, slot := [Some 3, Some 0, Some 1, Some 2]\<rparr>"
  let ?hf = "\<lambda>c. of_nat c + 1 :: u32"
  note ev = skynet_handle_init_def DEFAULT_SLOT_SIZE_def hash_of_def HANDLE_MASK_def Let_def
  have ff: "find_free ?s 0 = None"
    by (simp add: find_free.simps ev)
  let ?t = "?s\<lparr>slot := [Some 0, None, Some 1, Some 2, Some 3, None, None, None], slot_size := 8\<rparr>"
  have r8: "replicate 8 None = [None, None, None, None, None, None, None, None :: ctx option]"
    by (simp add: numeral_eq_Suc)
  have rh: "rehash (?hf(0 := 0)) 8 [Some 3, Some 0, Some 1, Some 2] (replicate 8 None) = Inr (slot ?t)"
    by (simp add: ev r8)
  have rh2: "rehash (?hf(0 := 0, 1 := 0)) 8 [Some 3, Some 0, Some 1, Some 2] (replicate 8 None) = Inl Assert_failed"
    by (simp add: ev r8)
  have "find_free ?t 0 = Some 5"
    by (simp add: find_free.simps ev)
  then have "skynet_handle_register hf ?t 4 =
      Some (Inr (?t\<lparr>slot := [Some 0, None, Some 1, Some 2, Some 3, Some 4, None, None], handle_index := 6\<rparr>, 5))" for hf
    by (subst skynet_handle_register.simps) (simp add: ev)
  then have "skynet_handle_register (?hf(0 := 0)) ?s 4 =
      Some (Inr (?t\<lparr>slot := [Some 0, None, Some 1, Some 2, Some 3, Some 4, None, None], handle_index := 6\<rparr>, 5))"
    using ff rh by (subst skynet_handle_register.simps) (simp add: ev)
  moreover have "skynet_handle_register (?hf(0 := 0, 1 := 0)) ?s 4 = Some (Inl Assert_failed)"
    using ff rh2 by (subst skynet_handle_register.simps) (simp add: ev)
  moreover have "skynet_handle_grab (?hf(4 := 5))
      (?t\<lparr>slot := [Some 0, None, Some 1, Some 2, Some 3, Some 4, None, None], handle_index := 6\<rparr>) 1 = None"
    by (simp add: skynet_handle_grab_def hash_of_def)
  moreover have "handle_inv ?hf ?s"
  proof -
    have all4: "\<forall>i < 4. P i" if "P 0" "P 1" "P 2" "P 3" for P :: "nat \<Rightarrow> bool"
      using that by (auto simp: numeral_eq_Suc less_Suc_eq)
    have "\<forall>i < 4. \<forall>c. [Some 3, Some 0, Some 1, Some 2] ! i = Some c \<longrightarrow>
        hash_of 4 (?hf c) = i \<and> ?hf c AND NOT HANDLE_MASK = 0"
      by (rule all4) (simp_all add: hash_of_def HANDLE_MASK_def)
    moreover have "\<exists>k\<le>24. (4::nat) = 2 ^ k" by (intro exI [of _ 2]) simp
    ultimately show ?thesis
      by (simp add: handle_inv_def slots_inv_def names_inv_def names_def skynet_handle_init_def
          DEFAULT_SLOT_SIZE_def)
  qed
  ultimately show ?thesis by blast
qed

end
