(* ===== verification/Timer.thy ===== *)
theory Timer
  imports MessageQueue
begin

text \<open>
  Model of \<^verbatim>\<open>skynet-src/skynet_timer.c\<close>: a hierarchical timing wheel with a near level of 256
  slots (one per tick) and four levels of 64 slots. A slot is a singly linked list with a
  tail pointer; it is modelled by the list of its nodes in order, so that \<open>link\<close> appends and
  \<open>link_clear\<close> takes everything. The payload that \<open>timer_add\<close> copies behind the node is the
  field \<open>event\<close>. Times are 32 bit words and wrap around.

  The tick that a node fires at is proved exactly, through all cascades and across the
  wrap-around of the clock, by refinement of an abstract timer: a clock and, for each
  expiration time, the queue of the nodes that fire then.
\<close>

section \<open>State\<close>

definition TIME_NEAR_SHIFT :: nat where "TIME_NEAR_SHIFT = 8"
definition TIME_NEAR :: u32 where "TIME_NEAR = push_bit TIME_NEAR_SHIFT 1"
definition TIME_LEVEL_SHIFT :: nat where "TIME_LEVEL_SHIFT = 6"
definition TIME_LEVEL :: u32 where "TIME_LEVEL = push_bit TIME_LEVEL_SHIFT 1"
definition TIME_NEAR_MASK :: u32 where "TIME_NEAR_MASK = TIME_NEAR - 1"
definition TIME_LEVEL_MASK :: u32 where "TIME_LEVEL_MASK = TIME_LEVEL - 1"

record timer_event =
  ev_handle :: u32
  ev_session :: "32 word"

record timer_node =
  expire :: u32
  event :: timer_event

type_synonym link_list = "timer_node list"

record timer =
  near :: "link_list list"
  levels :: "link_list list list"
  now :: u32
  starttime :: u32
  current :: u64
  current_point :: u64

section \<open>Operations\<close>

text \<open>The new list and what was in it.\<close>

definition link_clear :: "link_list \<Rightarrow> link_list \<times> timer_node list" where
  "link_clear l = ([], l)"

definition link :: "link_list \<Rightarrow> timer_node \<Rightarrow> link_list" where
  "link l n = l @ [n]"

text \<open>The loop of \<open>add_node\<close> that looks for the level: it starts with \<open>mask = TIME_NEAR << 6\<close>.\<close>

function find_level :: "u32 \<Rightarrow> u32 \<Rightarrow> nat \<Rightarrow> u32 \<Rightarrow> nat" where
  "find_level time ct i msk =
     (if i < 3 then
        if (time OR (msk - 1)) = (ct OR (msk - 1)) then i
        else find_level time ct (Suc i) (push_bit TIME_LEVEL_SHIFT msk)
      else i)"
  by pat_completeness auto
termination
  by (relation "measure (\<lambda>(time, ct, i, msk). 3 - i)") auto

declare find_level.simps [simp del]

definition add_node :: "timer \<Rightarrow> timer_node \<Rightarrow> timer" where
  "add_node T n =
     (let time = expire n; ct = now T in
      if (time OR TIME_NEAR_MASK) = (ct OR TIME_NEAR_MASK) then
        let i = unat (time AND TIME_NEAR_MASK)
        in T\<lparr>near := (near T)[i := link (near T ! i) n]\<rparr>
      else
        let i = find_level time ct 0 (push_bit TIME_LEVEL_SHIFT TIME_NEAR);
            j = unat (drop_bit (TIME_NEAR_SHIFT + i * TIME_LEVEL_SHIFT) time AND TIME_LEVEL_MASK)
        in T\<lparr>levels := (levels T)[i := (levels T ! i)[j := link (levels T ! i ! j) n]]\<rparr>)"

definition timer_add :: "timer \<Rightarrow> timer_event \<Rightarrow> 32 word \<Rightarrow> timer" where
  "timer_add T ev time = add_node T \<lparr>expire = time + now T, event = ev\<rparr>"

text \<open>The list is emptied first, then its nodes are added again one by one.\<close>

definition move_list :: "timer \<Rightarrow> nat \<Rightarrow> nat \<Rightarrow> timer" where
  "move_list T level idx =
     (let (l, ns) = link_clear (levels T ! level ! idx)
      in foldl add_node (T\<lparr>levels := (levels T)[level := (levels T ! level)[idx := l]]\<rparr>) ns)"

text \<open>The loop of \<open>timer_shift\<close>; level 4 would be outside the array.\<close>

function shift_loop :: "timer \<Rightarrow> u32 \<Rightarrow> u32 \<Rightarrow> u32 \<Rightarrow> nat \<Rightarrow> timer res" where
  "shift_loop T ct msk time i =
     (if ct AND (msk - 1) = 0 then
        let idx = unat (time AND TIME_LEVEL_MASK) in
        if 4 \<le> i then Inl Out_of_range
        else if idx \<noteq> 0 then Inr (move_list T i idx)
        else shift_loop T ct (push_bit TIME_LEVEL_SHIFT msk) (drop_bit TIME_LEVEL_SHIFT time) (Suc i)
      else Inr T)"
  by pat_completeness auto
termination
  by (relation "measure (\<lambda>(T, ct, msk, time, i). 4 - i)") auto

declare shift_loop.simps [simp del]

definition timer_shift :: "timer \<Rightarrow> timer res" where
  "timer_shift T =
     (let ct = now T + 1; T' = T\<lparr>now := ct\<rparr> in
      if ct = 0 then Inr (move_list T' 3 0)
      else shift_loop T' ct TIME_NEAR (drop_bit TIME_NEAR_SHIFT ct) 0)"

definition PTYPE_RESPONSE :: u64 where "PTYPE_RESPONSE = 1"

text \<open>The message a timeout sends; \<open>dispatch_list\<close> pushes it to the context of each node in turn.\<close>

definition timeout_message :: "32 word \<Rightarrow> skynet_message" where
  "timeout_message sess =
     \<lparr>source = 0, session = sess, data = 0, sz = push_bit MESSAGE_TYPE_SHIFT PTYPE_RESPONSE\<rparr>"

definition dispatch_list :: "timer_node list \<Rightarrow> (u32 \<times> skynet_message) list" where
  "dispatch_list ns = map (\<lambda>n. (ev_handle (event n), timeout_message (ev_session (event n)))) ns"

text \<open>
  The loop of \<open>timer_execute\<close> takes the list of the current slot until it finds it empty. The
  lock is released while the messages are pushed, but nothing can be added to the current
  slot meanwhile: a timeout of another thread lies at least one tick ahead. So the second
  turn finds the list empty.
\<close>

definition timer_execute :: "timer \<Rightarrow> timer \<times> (u32 \<times> skynet_message) list" where
  "timer_execute T =
     (let idx = unat (now T AND TIME_NEAR_MASK) in
      if near T ! idx \<noteq> [] then
        let (l, ns) = link_clear (near T ! idx)
        in (T\<lparr>near := (near T)[idx := l]\<rparr>, dispatch_list ns)
      else (T, []))"

definition timer_update :: "timer \<Rightarrow> (timer \<times> (u32 \<times> skynet_message) list) res" where
  "timer_update T =
     (let (T1, out1) = timer_execute T in
      andThen (timer_shift T1) (\<lambda>T2.
        let (T3, out2) = timer_execute T2 in Inr (T3, out1 @ out2)))"

definition timer_create_timer :: timer where
  "timer_create_timer =
     \<lparr>near = replicate 256 [], levels = replicate 4 (replicate 64 []), now = 0, starttime = 0,
      current = 0, current_point = 0\<rparr>"

text \<open>
  \<open>skynet_timeout\<close>: a time that is not positive is answered at once; \<open>push\<close> says whether
  \<open>skynet_context_push\<close> finds the context. The results are the timer, the messages pushed and
  the return value.
\<close>

definition skynet_timeout ::
  "(u32 \<Rightarrow> bool) \<Rightarrow> timer \<Rightarrow> u32 \<Rightarrow> 32 word \<Rightarrow> 32 word \<Rightarrow> timer \<times> (u32 \<times> skynet_message) list \<times> 32 word" where
  "skynet_timeout push T h time sess =
     (if sint time \<le> 0 then
        if push h then (T, [(h, timeout_message sess)], sess) else (T, [], -1)
      else (timer_add T \<lparr>ev_handle = h, ev_session = sess\<rparr> time, [], sess))"

text \<open>The clocks: seconds and nanoseconds as the system reports them.\<close>

definition systime :: "u64 \<Rightarrow> u64 \<Rightarrow> u32 \<times> u32" where
  "systime tv_sec tv_nsec = (ucast tv_sec, ucast (tv_nsec div 10000000))"

definition gettime :: "u64 \<Rightarrow> u64 \<Rightarrow> u64" where
  "gettime tv_sec tv_nsec = tv_sec * 100 + tv_nsec div 10000000"

fun timer_updates :: "nat \<Rightarrow> timer \<Rightarrow> (timer \<times> (u32 \<times> skynet_message) list list) res" where
  "timer_updates 0 T = Inr (T, [])"
| "timer_updates (Suc n) T =
     andThen (timer_update T) (\<lambda>(T', out).
     andThen (timer_updates n T') (\<lambda>(T'', outs). Inr (T'', out # outs)))"

text \<open>\<open>skynet_updatetime\<close> with the clock reading \<open>cp\<close>.\<close>

definition skynet_updatetime :: "u64 \<Rightarrow> timer \<Rightarrow> (timer \<times> (u32 \<times> skynet_message) list list) res" where
  "skynet_updatetime cp T =
     (if cp < current_point T then Inr (T\<lparr>current_point := cp\<rparr>, [])
      else if cp \<noteq> current_point T then
        let diff = ucast (cp - current_point T) :: u32
        in timer_updates (unat diff) (T\<lparr>current_point := cp, current := current T + ucast diff\<rparr>)
      else Inr (T, []))"

definition skynet_starttime :: "timer \<Rightarrow> u32" where "skynet_starttime T = starttime T"
definition skynet_now :: "timer \<Rightarrow> u64" where "skynet_now T = current T"

definition skynet_timer_init :: "u64 \<Rightarrow> u64 \<Rightarrow> u64 \<Rightarrow> u64 \<Rightarrow> timer" where
  "skynet_timer_init rt_sec rt_nsec mono_sec mono_nsec =
     (let (sec, cs) = systime rt_sec rt_nsec
      in timer_create_timer\<lparr>starttime := sec, current := ucast cs, current_point := gettime mono_sec mono_nsec\<rparr>)"

definition skynet_thread_time :: "u64 \<Rightarrow> u64 \<Rightarrow> u64" where
  "skynet_thread_time tv_sec tv_nsec = tv_sec * 1000000 + tv_nsec div (1000000000 div 1000000)"


section \<open>Where a node is kept\<close>

text \<open>
  \<open>nloc t e\<close> is the list that \<open>add_node\<close> chooses for expiration time \<open>e\<close> at time \<open>t\<close>, and
  \<open>nmove c\<close> the list that \<open>timer_shift\<close> distributes again when the clock becomes \<open>c\<close>. The
  main fact is \<open>nloc_next_word\<close>: a tick changes the place of no node outside that list.
\<close>

datatype loc = Near nat | Lev nat nat

definition nloc :: "nat \<Rightarrow> nat \<Rightarrow> loc" where
  "nloc t e =
     (if e div 2 ^ 8 = t div 2 ^ 8 then Near (e mod 2 ^ 8)
      else if e div 2 ^ 14 = t div 2 ^ 14 then Lev 0 (e div 2 ^ 8 mod 64)
      else if e div 2 ^ 20 = t div 2 ^ 20 then Lev 1 (e div 2 ^ 14 mod 64)
      else if e div 2 ^ 26 = t div 2 ^ 26 then Lev 2 (e div 2 ^ 20 mod 64)
      else Lev 3 (e div 2 ^ 26 mod 64))"

definition nmove :: "nat \<Rightarrow> loc option" where
  "nmove c =
     (if c = 0 then Some (Lev 3 0)
      else if c mod 2 ^ 8 \<noteq> 0 then None
      else if c mod 2 ^ 14 \<noteq> 0 then Some (Lev 0 (c div 2 ^ 8 mod 64))
      else if c mod 2 ^ 20 \<noteq> 0 then Some (Lev 1 (c div 2 ^ 14 mod 64))
      else if c mod 2 ^ 26 \<noteq> 0 then Some (Lev 2 (c div 2 ^ 20 mod 64))
      else Some (Lev 3 (c div 2 ^ 26 mod 64)))"

lemma div_chain:
  fixes a b :: nat
  shows "a div 2 ^ 8 = b div 2 ^ 8 \<Longrightarrow> a div 2 ^ 14 = b div 2 ^ 14"
    and "a div 2 ^ 14 = b div 2 ^ 14 \<Longrightarrow> a div 2 ^ 20 = b div 2 ^ 20"
    and "a div 2 ^ 20 = b div 2 ^ 20 \<Longrightarrow> a div 2 ^ 26 = b div 2 ^ 26"
proof -
  have s: "x div 2 ^ 14 = x div 2 ^ 8 div 64" "x div 2 ^ 20 = x div 2 ^ 14 div 64" "x div 2 ^ 26 = x div 2 ^ 20 div 64" for x :: nat
    by (simp_all flip: div_mult2_eq)
  show "a div 2 ^ 8 = b div 2 ^ 8 \<Longrightarrow> a div 2 ^ 14 = b div 2 ^ 14" by (simp only: s)
  show "a div 2 ^ 14 = b div 2 ^ 14 \<Longrightarrow> a div 2 ^ 20 = b div 2 ^ 20" by (simp only: s)
  show "a div 2 ^ 20 = b div 2 ^ 20 \<Longrightarrow> a div 2 ^ 26 = b div 2 ^ 26" by (simp only: s)
qed

lemma mod_pow_0: "j \<le> k \<Longrightarrow> (c::nat) mod 2 ^ k = 0 \<Longrightarrow> c mod 2 ^ j = 0"
  by (metis dvd_trans le_imp_power_dvd mod_eq_0_iff_dvd)

lemma mod_chain:
  fixes c :: nat
  shows "c mod 2 ^ 14 = 0 \<Longrightarrow> c mod 2 ^ 8 = 0"
    and "c mod 2 ^ 20 = 0 \<Longrightarrow> c mod 2 ^ 14 = 0"
    and "c mod 2 ^ 26 = 0 \<Longrightarrow> c mod 2 ^ 20 = 0"
  by (erule mod_pow_0 [rotated], simp)+

lemma div_stay: "Suc t mod B \<noteq> 0 \<Longrightarrow> Suc t div B = t div B"
  by (metis div_Suc)

lemma div_step: "Suc t mod B = 0 \<Longrightarrow> Suc t \<le> e \<Longrightarrow> e div B \<noteq> t div B"
proof -
  assume "Suc t mod B = 0" "Suc t \<le> e"
  then have "Suc (t div B) \<le> e div B" using div_Suc [of t B] div_le_mono [of "Suc t" e B] by simp
  then show ?thesis by simp
qed

text \<open>The choice of the level as a function of the quotients alone.\<close>

definition pick :: "nat \<Rightarrow> nat \<Rightarrow> nat \<Rightarrow> nat \<Rightarrow> nat \<Rightarrow> nat \<Rightarrow> nat \<Rightarrow> nat \<Rightarrow> nat \<Rightarrow> loc" where
  "pick x e0 e1 e2 e3 t0 t1 t2 t3 =
     (if e0 = t0 then Near x else if e1 = t1 then Lev 0 (e0 mod 64)
      else if e2 = t2 then Lev 1 (e1 mod 64) else if e3 = t3 then Lev 2 (e2 mod 64)
      else Lev 3 (e3 mod 64))"

lemma nloc_pick:
  "nloc t e = pick (e mod 2 ^ 8) (e div 2 ^ 8) (e div 2 ^ 14) (e div 2 ^ 20) (e div 2 ^ 26)
     (t div 2 ^ 8) (t div 2 ^ 14) (t div 2 ^ 20) (t div 2 ^ 26)"
  by (simp only: nloc_def pick_def)

lemma pick_next:
  assumes "e0 = s0 \<Longrightarrow> e1 = s1" and "e1 = s1 \<Longrightarrow> e2 = s2" and "e2 = s2 \<Longrightarrow> e3 = s3" and "e0 \<noteq> t0"
  shows "Lev 0 (s0 mod 64) \<noteq> pick x e0 e1 e2 e3 t0 s1 s2 s3 \<Longrightarrow>
      pick x e0 e1 e2 e3 s0 s1 s2 s3 = pick x e0 e1 e2 e3 t0 s1 s2 s3"
    and "e1 \<noteq> t1 \<Longrightarrow> Lev 1 (s1 mod 64) \<noteq> pick x e0 e1 e2 e3 t0 t1 s2 s3 \<Longrightarrow>
      pick x e0 e1 e2 e3 s0 s1 s2 s3 = pick x e0 e1 e2 e3 t0 t1 s2 s3"
    and "e1 \<noteq> t1 \<Longrightarrow> e2 \<noteq> t2 \<Longrightarrow> Lev 2 (s2 mod 64) \<noteq> pick x e0 e1 e2 e3 t0 t1 t2 s3 \<Longrightarrow>
      pick x e0 e1 e2 e3 s0 s1 s2 s3 = pick x e0 e1 e2 e3 t0 t1 t2 s3"
    and "e1 \<noteq> t1 \<Longrightarrow> e2 \<noteq> t2 \<Longrightarrow> e3 \<noteq> t3 \<Longrightarrow> Lev 3 (s3 mod 64) \<noteq> pick x e0 e1 e2 e3 t0 t1 t2 t3 \<Longrightarrow>
      pick x e0 e1 e2 e3 s0 s1 s2 s3 = pick x e0 e1 e2 e3 t0 t1 t2 t3"
  using assms unfolding pick_def by (auto split: if_splits)

lemma nloc_next_up:
  assumes le: "Suc t \<le> e" and mv: "nmove (Suc t) \<noteq> Some (nloc t e)"
  shows "nloc (Suc t) e = nloc t e"
proof (cases "Suc t mod 2 ^ 8 = 0")
  case False
  then have "Suc t mod 2 ^ 14 \<noteq> 0" "Suc t mod 2 ^ 20 \<noteq> 0" "Suc t mod 2 ^ 26 \<noteq> 0" 
    by (meson mod_chain)+
  note s = div_stay [OF False] div_stay [OF this(1)] div_stay [OF this(2)] div_stay [OF this(3)]
  show ?thesis unfolding nloc_def s ..
next
  case m0: True
  note d = div_step [OF _ le]
  note nx = pick_next [where ?e0.0 = "e div 2 ^ 8" and ?e1.0 = "e div 2 ^ 14" and ?e2.0 = "e div 2 ^ 20"
    and ?e3.0 = "e div 2 ^ 26" and ?s0.0 = "Suc t div 2 ^ 8" and ?s1.0 = "Suc t div 2 ^ 14"
    and ?s2.0 = "Suc t div 2 ^ 20" and ?s3.0 = "Suc t div 2 ^ 26" and x = "e mod 2 ^ 8",
    OF div_chain(1) div_chain(2) div_chain(3) d [OF m0]]
  have S: "Suc t \<noteq> 0" by simp
  show ?thesis
  proof (cases "Suc t mod 2 ^ 14 = 0")
    case False
    then have n: "Suc t mod 2 ^ 20 \<noteq> 0" "Suc t mod 2 ^ 26 \<noteq> 0" by (meson mod_chain)+
    note s = div_stay [OF False] div_stay [OF n(1)] div_stay [OF n(2)]
    have "nmove (Suc t) = Some (Lev 0 (Suc t div 2 ^ 8 mod 64))"
      using m0 False S by (simp only: nmove_def if_False if_True simp_thms)
    with mv show ?thesis using nx(1) by (simp only: nloc_pick s option.inject simp_thms)
  next
    case m1: True
    show ?thesis
    proof (cases "Suc t mod 2 ^ 20 = 0")
      case False
      then have n: "Suc t mod 2 ^ 26 \<noteq> 0" by (meson mod_chain)+
      note s = div_stay [OF False] div_stay [OF n(1)]
      have "nmove (Suc t) = Some (Lev 1 (Suc t div 2 ^ 14 mod 64))"
        using m0 m1 False S by (simp only: nmove_def if_False if_True simp_thms)
      with mv show ?thesis using nx(2) [OF _ _ _ d [OF m1]] by (simp only: nloc_pick s option.inject simp_thms)
    next
      case m2: True
      show ?thesis
      proof (cases "Suc t mod 2 ^ 26 = 0")
        case False
        note s = div_stay [OF False]
        have "nmove (Suc t) = Some (Lev 2 (Suc t div 2 ^ 20 mod 64))"
          using m0 m1 m2 False S by (simp only: nmove_def if_False if_True simp_thms)
        with mv show ?thesis using nx(3) [OF _ _ _ d [OF m1] d [OF m2]] by (simp only: nloc_pick s option.inject simp_thms)
      next
        case m3: True
        have "nmove (Suc t) = Some (Lev 3 (Suc t div 2 ^ 26 mod 64))"
          using m0 m1 m2 m3 S by (simp only: nmove_def if_False if_True simp_thms)
        with mv show ?thesis using nx(4) [OF _ _ _ d [OF m1] d [OF m2] d [OF m3]] by (simp only: nloc_pick option.inject simp_thms)
      qed
    qed
  qed
qed

lemma nloc_next_wrapped:
  assumes "e + 2 ^ 31 < t" and "t < 2 ^ 32"
  shows "nloc t e = Lev 3 (e div 2 ^ 26)"
proof -
  have "e div 2 ^ 26 < 2 ^ 6" using assms by (intro less_mult_imp_div_less) simp
  moreover have "e div 2 ^ 26 < t div 2 ^ 26" using div_le_mono [of "e + 2 ^ 31" t "2 ^ 26"] assms by simp
  ultimately show ?thesis using div_chain [of e t] by (auto simp: nloc_def)
qed

lemma nloc_next_zero:
  assumes "nloc (2 ^ 32 - 1) e \<noteq> Lev 3 0" and "Suc e < 2 ^ 31"
  shows "nloc 0 e = nloc (2 ^ 32 - 1) e"
proof -
  have a: "nloc (2 ^ 32 - 1) e = Lev 3 (e div 2 ^ 26)"
    using assms(2) by (intro nloc_next_wrapped) simp_all
  with assms have "e div 2 ^ 26 \<noteq> 0" by simp
  moreover have "e div 2 ^ 26 < 2 ^ 6" using assms by (intro less_mult_imp_div_less) simp
  ultimately show ?thesis using div_chain [of e 0] a by (auto simp: nloc_def)
qed

lemma nloc_next_word:
  fixes t e :: "32 word"
  assumes d: "unat (e - t) < 2 ^ 31" and ne: "e \<noteq> t" and m: "nmove (unat (t + 1)) \<noteq> Some (nloc (unat t) (unat e))"
  shows "nloc (unat (t + 1)) (unat e) = nloc (unat t) (unat e)"
proof (cases "t + 1 = 0")
  case True
  then have t: "t = -1" by (simp add: eq_neg_iff_add_eq_0)
  then have "e - t = e + 1" by simp
  with d ne have "Suc (unat e) < 2 ^ 31" by (metis t unatSuc add.commute eq_neg_iff_add_eq_0)
  moreover have "unat t = 2 ^ 32 - 1" by (simp add: t unsigned_minus_1_eq_mask mask_eq_exp_minus_1)
  ultimately show ?thesis using m True nloc_next_zero [of "unat e"] by (simp add: nmove_def)
next
  case False
  then have s: "unat (t + 1) = Suc (unat t)" by (metis unatSuc add.commute)
  show ?thesis
  proof (cases "t < e")
    case True
    then have "Suc (unat t) \<le> unat e" by (simp add: word_less_nat_alt)
    with m show ?thesis unfolding s by (intro nloc_next_up)
  next
    case nl: False
    with ne have "unat e < unat t" by (simp add: word_less_nat_alt word_unat_eq_iff)
    then have "unat e + 2 ^ 31 < unat t" using d nl 
      by (simp add: unat_sub_if_size word_size)
    moreover have "Suc (unat t) < 2 ^ 32" unfolding s [symmetric] using unsigned_less [of "t + 1"] by simp
    ultimately show ?thesis unfolding s using nloc_next_wrapped [of "unat e" "unat t"] nloc_next_wrapped [of "unat e" "Suc (unat t)"] by simp
  qed
qed


section \<open>The wheel as a set of located lists\<close>

primrec content :: "timer \<Rightarrow> loc \<Rightarrow> timer_node list" where
  "content T (Near i) = near T ! i"
| "content T (Lev i j) = levels T ! i ! j"

primrec valid_loc :: "loc \<Rightarrow> bool" where
  "valid_loc (Near i) = (i < 256)"
| "valid_loc (Lev i j) = (i < 4 \<and> j < 64)"

definition shape :: "timer \<Rightarrow> bool" where
  "shape T \<longleftrightarrow> length (near T) = 256 \<and> length (levels T) = 4 \<and> (\<forall>i<4. length (levels T ! i) = 64)"

primrec put :: "timer \<Rightarrow> loc \<Rightarrow> timer_node list \<Rightarrow> timer" where
  "put T (Near i) l = T\<lparr>near := (near T)[i := l]\<rparr>"
| "put T (Lev i j) l = T\<lparr>levels := (levels T)[i := (levels T ! i)[j := l]]\<rparr>"

lemma shape_put [simp]: "shape T \<Longrightarrow> shape (put T l ns)"
proof (cases l)
  case (Lev i j)
  assume s: "shape T"
  have "length ((levels T)[i := (levels T ! i)[j := ns]] ! k) = 64" if "k < 4" for k
    using s that by (cases "k = i") (simp_all add: shape_def)
  with s show ?thesis by (simp add: Lev shape_def)
qed (simp add: shape_def)

lemma now_put [simp]: "now (put T l ns) = now T"
  by (cases l) auto

lemma content_put [simp]:
  "shape T \<Longrightarrow> valid_loc l \<Longrightarrow> content (put T l ns) l' = (if l' = l then ns else content T l')"
  by (cases l; cases l') (auto simp: shape_def nth_list_update)

lemma content_now_update [simp]: "content (T\<lparr>now := t\<rparr>) l = content T l"
  by (cases l) simp_all

lemma shape_now_update [simp]: "shape (T\<lparr>now := t\<rparr>) = shape T"
  by (simp add: shape_def)

abbreviation loc_at :: "u32 \<Rightarrow> u32 \<Rightarrow> loc" where
  "loc_at t e \<equiv> nloc (unat t) (unat e)"

lemma valid_nloc [simp]: "valid_loc (nloc t e)"
  by (simp add: nloc_def)

lemmas time_consts = TIME_NEAR_SHIFT_def TIME_NEAR_def TIME_LEVEL_SHIFT_def TIME_LEVEL_def
  TIME_NEAR_MASK_def TIME_LEVEL_MASK_def

lemma time_masks: "TIME_NEAR_MASK = mask 8" "TIME_LEVEL_MASK = mask 6"
  by (simp_all only: time_consts push_bit_minus_mask)

definition nlevel :: "nat \<Rightarrow> nat \<Rightarrow> nat" where
  "nlevel t e =
     (if e div 2 ^ 14 = t div 2 ^ 14 then 0 else if e div 2 ^ 20 = t div 2 ^ 20 then 1
      else if e div 2 ^ 26 = t div 2 ^ 26 then 2 else 3)"

lemma nloc_nlevel:
  "nloc t e =
     (if e div 2 ^ 8 = t div 2 ^ 8 then Near (e mod 2 ^ 8)
      else Lev (nlevel t e) (e div 2 ^ (8 + nlevel t e * 6) mod 64))"
  unfolding nloc_def nlevel_def
  by (cases "e div 2 ^ 14 = t div 2 ^ 14"; cases "e div 2 ^ 20 = t div 2 ^ 20"; cases "e div 2 ^ 26 = t div 2 ^ 26")
    (simp_all only: if_True if_False refl simp_thms, simp_all)

lemma find_level_eq:
  "find_level e t 0 (push_bit TIME_LEVEL_SHIFT TIME_NEAR) = nlevel (unat t) (unat e)"
proof -
  have p: "push_bit 6 (push_bit k (1::u32)) = push_bit (k + 6) 1" for k
    by (simp only: push_bit_push_bit add.commute [of k 6])
  have "find_level e t 3 m = 3" for m by (simp add: find_level.simps)
  then have "find_level e t 2 (push_bit 26 1) = (if unat e div 2 ^ 26 = unat t div 2 ^ 26 then 2 else 3)"
    by (subst find_level.simps) (simp only: TIME_LEVEL_SHIFT_def p push_bit_minus_mask or_mask_div_iff, simp)
  then have "find_level e t 1 (push_bit 20 1) = (if unat e div 2 ^ 20 = unat t div 2 ^ 20 then 1
      else if unat e div 2 ^ 26 = unat t div 2 ^ 26 then 2 else 3)"
    by (subst find_level.simps) (simp only: TIME_LEVEL_SHIFT_def p push_bit_minus_mask or_mask_div_iff, simp add: numeral_2_eq_2)
  then show ?thesis unfolding nlevel_def
    by (subst find_level.simps) (simp only: time_consts p push_bit_minus_mask or_mask_div_iff, simp)
qed

lemma add_node_put: "add_node T n = put T (loc_at (now T) (expire n)) (content T (loc_at (now T) (expire n)) @ [n])"
proof -
  have n: "unat (e AND TIME_NEAR_MASK) = unat e mod 2 ^ 8" for e :: u32
    by (simp only: time_masks unat_and_mask)
  have l: "unat (drop_bit k e AND TIME_LEVEL_MASK) = unat e div 2 ^ k mod 64" for e :: u32 and k
    unfolding time_masks unat_and_mask unat_drop_bit by simp
  have c: "((e OR TIME_NEAR_MASK) = (t OR TIME_NEAR_MASK)) = (unat e div 2 ^ 8 = unat t div 2 ^ 8)" for e t :: u32
    by (simp only: time_masks or_mask_div_iff)
  have s: "TIME_NEAR_SHIFT + i * TIME_LEVEL_SHIFT = 8 + i * 6" for i by (simp add: time_consts)
  show ?thesis
    unfolding add_node_def Let_def n l c s find_level_eq nloc_nlevel link_def
    by (simp only: put.simps content.simps split: if_split) simp
qed

lemma foldl_add_node:
  assumes "shape T"
  shows "shape (foldl add_node T ns)" and "now (foldl add_node T ns) = now T"
    and "content (foldl add_node T ns) l = content T l @ filter (\<lambda>n. loc_at (now T) (expire n) = l) ns"
  using assms by (induction ns arbitrary: T) (auto simp: add_node_put)

lemma move_list_put:
  "move_list T i j = foldl add_node (put T (Lev i j) []) (content T (Lev i j))"
  by (simp add: move_list_def link_clear_def)

lemma mod_pow_split:
  "(c::nat) mod 2 ^ k = 0 \<Longrightarrow> (c div 2 ^ k mod 64 = 0) = (c mod 2 ^ (k + 6) = 0)"
  using mod_mult2_eq [of c "2 ^ k" 64] by (simp add: power_add)

lemma shift_step:
  assumes "i < 4"
  shows "shift_loop T ct (push_bit k 1) (drop_bit k ct) i =
     (if unat ct mod 2 ^ k = 0 then
        if unat ct mod 2 ^ (k + 6) \<noteq> 0 then Inr (move_list T i (unat ct div 2 ^ k mod 64))
        else shift_loop T ct (push_bit (k + 6) 1) (drop_bit (k + 6) ct) (Suc i)
      else Inr T)"
proof -
  have m: "(ct AND mask k = 0) = (unat ct mod 2 ^ k = 0)"
    using unat_and_mask [of ct k] by (metis unat_eq_0)
  have l: "unat (drop_bit k ct AND TIME_LEVEL_MASK) = unat ct div 2 ^ k mod 64"
    unfolding time_masks unat_and_mask unat_drop_bit by simp
  have s: "push_bit TIME_LEVEL_SHIFT (push_bit k (1::u32)) = push_bit (k + 6) 1"
      "drop_bit TIME_LEVEL_SHIFT (drop_bit k ct) = drop_bit (k + 6) ct"
    by (simp_all only: TIME_LEVEL_SHIFT_def push_bit_push_bit drop_bit_drop_bit add.commute)
  have ni: "(4 \<le> i) = False" using assms by simp
  show ?thesis
    by (subst shift_loop.simps)
      (simp only: push_bit_minus_mask m l s Let_def ni if_False mod_pow_split cong: if_cong)
qed

lemma shift_loop_move:
  assumes "ct \<noteq> 0"
  shows "shift_loop T ct (push_bit 8 1) (drop_bit 8 ct) 0 =
     (case nmove (unat ct) of Some (Lev i j) \<Rightarrow> Inr (move_list T i j) | _ \<Rightarrow> Inr T)"
proof -
  have z: "unat ct \<noteq> 0" using assms by (simp add: unat_eq_0)
  have "unat ct < 2 ^ 32" using unsigned_less [of ct] by simp
  then have m: "unat ct mod 2 ^ 32 \<noteq> 0" using z by simp
  have e: "(8::nat) + 6 = 14" "(14::nat) + 6 = 20" "(20::nat) + 6 = 26" "(26::nat) + 6 = 32"
      "Suc 0 = 1" "Suc 1 = 2" "Suc 2 = 3" and lt: "(0::nat) < 4" "(1::nat) < 4" "(2::nat) < 4" "(3::nat) < 4"
    by simp_all
  note s = shift_step [OF lt(1), of T ct 8, unfolded e] shift_step [OF lt(2), of T ct 14, unfolded e]
    shift_step [OF lt(3), of T ct 20, unfolded e] shift_step [OF lt(4), of T ct 26, unfolded e]
  show ?thesis unfolding nmove_def s
    by (cases "unat ct mod 2 ^ 8 = 0"; cases "unat ct mod 2 ^ 14 = 0"; cases "unat ct mod 2 ^ 20 = 0";
        cases "unat ct mod 2 ^ 26 = 0") (simp_all only: z m if_True if_False simp_thms option.case loc.case)
qed

lemma timer_shift_move:
  "timer_shift T =
     (case nmove (unat (now T + 1)) of
        Some (Lev i j) \<Rightarrow> Inr (move_list (T\<lparr>now := now T + 1\<rparr>) i j)
      | _ \<Rightarrow> Inr (T\<lparr>now := now T + 1\<rparr>))"
  by (cases "now T + 1 = 0")
    (simp_all add: timer_shift_def Let_def TIME_NEAR_def TIME_NEAR_SHIFT_def shift_loop_move [simplified] nmove_def [of 0])

section \<open>The abstract timer\<close>

text \<open>
  The nodes that fire at time \<open>x\<close>, in the order in which they were added, and the invariant of
  the wheel: every node is in the list that \<open>add_node\<close> would choose for it now, and lies less
  than \<open>2 ^ 31\<close> ticks ahead.
\<close>

definition pending :: "timer \<Rightarrow> u32 \<Rightarrow> timer_node list" where
  "pending T x = filter (\<lambda>n. expire n = x) (content T (loc_at (now T) x))"

definition timer_inv :: "timer \<Rightarrow> bool" where
  "timer_inv T \<longleftrightarrow> shape T \<and> (\<forall>l. valid_loc l \<longrightarrow> (\<forall>n\<in>set (content T l).
     loc_at (now T) (expire n) = l \<and> unat (expire n - now T) < 2 ^ 31))"

lemma timer_invD:
  assumes "timer_inv T" and "valid_loc l" and "n \<in> set (content T l)"
  shows "loc_at (now T) (expire n) = l" and "unat (expire n - now T) < 2 ^ 31"
  using assms by (auto simp: timer_inv_def)

lemma timer_inv_shape: "timer_inv T \<Longrightarrow> shape T"
  by (simp add: timer_inv_def)

lemma unat_sub_1:
  assumes "unat (e - t :: u32) < 2 ^ 31" and "e \<noteq> t"
  shows "unat (e - (t + 1)) < 2 ^ 31"
proof -
  have "e - t \<noteq> 0" using assms(2) by simp
  then have "unat (e - t - 1) = unat (e - t) - 1" by (rule unat_minus_one)
  with assms(1) show ?thesis by (simp add: diff_diff_eq)
qed

lemma not_due_expire:
  assumes "timer_inv T" and "pending T (now T) = []" and "valid_loc l" and "n \<in> set (content T l)"
  shows "expire n \<noteq> now T"
proof
  assume e: "expire n = now T"
  with timer_invD(1) [OF assms(1,3,4)] have "loc_at (now T) (now T) = l" by simp
  with assms(2,4) e show False by (auto simp: pending_def filter_empty_conv)
qed


text \<open>Where the nodes are after \<open>timer_shift\<close>.\<close>

lemma nmove_cases:
  obtains "nmove c = None" | i j where "nmove c = Some (Lev i j)" "valid_loc (Lev i j)"
proof -
  have "nmove c = None \<or> (\<exists>i j. nmove c = Some (Lev i j) \<and> i < 4 \<and> j < 64)"
    by (simp add: nmove_def)
  then show ?thesis using that by auto
qed

lemma timer_shift_content:
  assumes "shape T"
  obtains T' where "timer_shift T = Inr T'" "shape T'" "now T' = now T + 1"
    "\<And>l. content T' l =
       (if nmove (unat (now T + 1)) = Some l then [] else content T l) @
       (case nmove (unat (now T + 1)) of None \<Rightarrow> []
        | Some m \<Rightarrow> filter (\<lambda>n. loc_at (now T + 1) (expire n) = l) (content T m))"
proof (cases rule: nmove_cases [of "unat (now T + 1)"])
  case 1
  then show ?thesis using that [of "T\<lparr>now := now T + 1\<rparr>"] assms by (simp add: timer_shift_move)
next
  case (2 i j)
  let ?T = "put (T\<lparr>now := now T + 1\<rparr>) (Lev i j) []"
  have s: "shape ?T" using assms by (simp del: put.simps)
  show ?thesis
  proof (rule that)
    show "timer_shift T = Inr (foldl add_node ?T (content T (Lev i j)))"
      by (simp add: timer_shift_move 2(1) move_list_put)
  qed (use assms 2 foldl_add_node [OF s] in \<open>auto simp del: put.simps content.simps\<close>)
qed

lemma filter_content:
  assumes "timer_inv T" and "valid_loc l"
  shows "filter (\<lambda>n. expire n = x) (content T l) = (if l = loc_at (now T) x then pending T x else [])"
  using timer_invD(1) [OF assms] by (auto simp: pending_def filter_empty_conv)

lemma pending_range:
  assumes "timer_inv T" and "pending T x \<noteq> []"
  shows "unat (x - now T) < 2 ^ 31"
proof -
  from assms(2) obtain n where "n \<in> set (content T (loc_at (now T) x))" "expire n = x"
    by (auto simp: pending_def filter_empty_conv)
  with timer_invD(2) [OF assms(1) valid_nloc] show ?thesis by blast
qed

lemma timer_shift_ok:
  assumes inv: "timer_inv T" and due: "pending T (now T) = []"
  obtains T' where "timer_shift T = Inr T'" "timer_inv T'" "now T' = now T + 1"
    "pending T' = pending T"
proof -
  let ?t = "now T" let ?m = "nmove (unat (?t + 1))"
  obtain T' where T': "timer_shift T = Inr T'" "shape T'" "now T' = ?t + 1"
    and c: "\<And>l. content T' l = (if ?m = Some l then [] else content T l) @
       (case ?m of None \<Rightarrow> [] | Some m \<Rightarrow> filter (\<lambda>n. loc_at (?t + 1) (expire n) = l) (content T m))"
    using timer_shift_content [OF timer_inv_shape [OF inv]] by blast
  have mv: "valid_loc m" if "?m = Some m" for m
    using that by (cases rule: nmove_cases [of "unat (?t + 1)"]) auto
  have old: "unat (expire n - (?t + 1)) < 2 ^ 31" "?m \<noteq> Some l \<Longrightarrow> loc_at (?t + 1) (expire n) = l"
    if "valid_loc l" "n \<in> set (content T l)" for l n
    using timer_invD [OF inv that] not_due_expire [OF inv due that] nloc_next_word [of "expire n" ?t]
      unat_sub_1 [of "expire n" ?t] by auto
  have "loc_at (?t + 1) (expire n) = l \<and> unat (expire n - (?t + 1)) < 2 ^ 31"
    if l: "valid_loc l" and n: "n \<in> set (content T' l)" for l n
  proof -
    from n consider "n \<in> set (content T l)" "?m \<noteq> Some l"
      | m where "?m = Some m" "n \<in> set (content T m)" "loc_at (?t + 1) (expire n) = l"
      unfolding c by (cases ?m) (auto split: if_splits)
    then show ?thesis using old l mv by cases blast+
  qed
  then have "timer_inv T'" unfolding timer_inv_def using T'(2,3) by simp
  moreover have "pending T' x = pending T x" for x
  proof (cases "?m = Some (loc_at ?t x)")
    case True
    have "filter (\<lambda>n. expire n = x) (filter (\<lambda>n. loc_at (?t + 1) (expire n) = loc_at (?t + 1) x) ns)
        = filter (\<lambda>n. expire n = x) ns" for ns :: "timer_node list"
      by (induction ns) auto
    with True show ?thesis
      by (simp add: pending_def [of T'] T'(3) c filter_content [OF inv])
  next
    case False
    have "filter (\<lambda>n. expire n = x) (filter P (content T m)) = []" if "?m = Some m" for m P
      using filter_content [OF inv mv [OF that], of x] that False by (auto simp: filter_empty_conv)
    then have p: "pending T' x = (if ?m = Some (loc_at (?t + 1) x) then [] else
        filter (\<lambda>n. expire n = x) (content T (loc_at (?t + 1) x)))"
      unfolding pending_def [of T'] T'(3) c by (simp split: option.split)
    show ?thesis
    proof (cases "pending T x = []")
      case True
      with p show ?thesis by (simp add: filter_content [OF inv])
    next
      case ne: False
      then have "x \<noteq> ?t" using due by auto
      with pending_range [OF inv ne] False have "loc_at (?t + 1) x = loc_at ?t x"
        by (intro nloc_next_word)
      with p False show ?thesis by (simp add: filter_content [OF inv])
    qed
  qed
  ultimately show ?thesis using that T' by blast
qed

lemma nloc_self: "loc_at t t = Near (unat t mod 256)"
  by (simp add: nloc_def)

lemma nloc_self_inj: "loc_at t e = loc_at t t \<Longrightarrow> e = t"
proof -
  assume "loc_at t e = loc_at t t"
  then have "unat e div 2 ^ 8 = unat t div 2 ^ 8" "unat e mod 2 ^ 8 = unat t mod 2 ^ 8"
    unfolding nloc_self by (simp_all add: nloc_def split: if_splits)
  then have "unat e = unat t" by (metis div_mult_mod_eq)
  then show ?thesis by (simp add: word_unat_eq_iff)
qed

lemma timer_execute_ok:
  assumes inv: "timer_inv T"
  obtains T' where "timer_execute T = (T', dispatch_list (pending T (now T)))" "timer_inv T'"
    "now T' = now T" "pending T' = (pending T)(now T := [])"
proof -
  let ?l = "loc_at (now T) (now T)" let ?T = "put T ?l []"
  have idx: "unat (now T AND TIME_NEAR_MASK) = unat (now T) mod 256"
    unfolding time_masks unat_and_mask by simp
  have all: "content T ?l = pending T (now T)"
    unfolding pending_def using timer_invD(1) [OF inv valid_nloc, of _ "unat (now T)" "unat (now T)"]
    by (intro filter_True [symmetric]) (auto intro: nloc_self_inj)
  have "timer_execute T = (?T, dispatch_list (pending T (now T)))"
  proof (cases "near T ! (unat (now T) mod 256) = []")
    case True
    then have "(near T)[unat (now T) mod 256 := []] = near T" by (metis list_update_id)
    then have "?T = T" by (cases T) (simp add: nloc_self)
    with True all show ?thesis by (simp add: timer_execute_def idx nloc_self dispatch_list_def)
  next
    case False
    with all show ?thesis by (simp add: timer_execute_def idx nloc_self link_clear_def)
  qed
  moreover have "timer_inv ?T"
    using inv unfolding timer_inv_def by (simp del: put.simps)
  moreover have "pending ?T x = ((pending T)(now T := [])) x" for x
    using timer_inv_shape [OF inv] nloc_self_inj [of "now T" x]
    by (auto simp del: put.simps simp: pending_def)
  ultimately show ?thesis using that by (metis now_put ext)
qed

text \<open>One tick of the wheel: what is due at the new time fires, in order, and nothing else changes.\<close>

lemma timer_update_ok:
  assumes inv: "timer_inv T" and due: "pending T (now T) = []"
  obtains T' where "timer_update T = Inr (T', dispatch_list (pending T (now T + 1)))" "timer_inv T'"
    "now T' = now T + 1" "pending T' = (pending T)(now T + 1 := [])"
proof -
  obtain T1 where 1: "timer_execute T = (T1, dispatch_list (pending T (now T)))" "timer_inv T1"
    "now T1 = now T" "pending T1 = (pending T)(now T := [])"
    by (rule timer_execute_ok [OF inv])
  have p: "pending T1 = pending T" unfolding 1(4) using due by (metis fun_upd_triv)
  have due1: "pending T1 (now T1) = []" using 1(3) p due by simp
  obtain T2 where 2: "timer_shift T1 = Inr T2" "timer_inv T2" "now T2 = now T1 + 1" "pending T2 = pending T1"
    by (rule timer_shift_ok [OF 1(2) due1])
  obtain T3 where 3: "timer_execute T2 = (T3, dispatch_list (pending T2 (now T2)))" "timer_inv T3"
    "now T3 = now T2" "pending T3 = (pending T2)(now T2 := [])"
    by (rule timer_execute_ok [OF 2(2)])
  show ?thesis
  proof (rule that)
    show "timer_update T = Inr (T3, dispatch_list (pending T (now T + 1)))"
      by (simp add: timer_update_def 1(1,3) due 2(1,3,4) 3(1) p dispatch_list_def)
    show "pending T3 = (pending T)(now T + 1 := [])" by (simp only: 3(4) 2(3,4) 1(3) p)
  qed (simp_all add: 3 2(3) 1(3))
qed

lemma timer_add_ok:
  assumes inv: "timer_inv T" and due: "pending T (now T) = []" and d: "0 < sint d"
  shows "timer_inv (timer_add T ev d)" and "now (timer_add T ev d) = now T"
    and "pending (timer_add T ev d) = (pending T)(now T + d := pending T (now T + d) @
          [\<lparr>expire = now T + d, event = ev\<rparr>])"
    and "pending (timer_add T ev d) (now T) = []"
proof -
  let ?n = "\<lparr>expire = now T + d, event = ev\<rparr>"
  let ?l = "loc_at (now T) (now T + d)"
  note sh = timer_inv_shape [OF inv]
  have e: "timer_add T ev d = put T ?l (content T ?l @ [?n])"
    by (simp add: timer_add_def add_node_put add.commute)
  have "unat d < 2 ^ 31" "d \<noteq> 0" using sint_pos_unat [OF d] by auto
  show "timer_inv (timer_add T ev d)"
    using sh \<open>unat d < 2 ^ 31\<close> timer_invD [OF inv] timer_invD(2) [OF inv valid_nloc]
    unfolding timer_inv_def e by (auto simp del: put.simps split: if_splits)
  show "now (timer_add T ev d) = now T" by (simp add: e del: put.simps)
  show p: "pending (timer_add T ev d) = (pending T)(now T + d := pending T (now T + d) @ [?n])"
    by (rule ext) (use sh in \<open>auto simp: e pending_def simp del: put.simps\<close>)
  show "pending (timer_add T ev d) (now T) = []" using due \<open>d \<noteq> 0\<close> by (simp add: p)
qed

section \<open>Runs and the refinement\<close>

text \<open>A run is any interleaving of calls of \<open>skynet_timeout\<close> and ticks.\<close>

datatype timer_op = Timeout u32 "32 word" "32 word" | Tick

fun timer_step :: "(u32 \<Rightarrow> bool) \<Rightarrow> timer \<Rightarrow> timer_op \<Rightarrow> (timer \<times> (u32 \<times> skynet_message) list) res" where
  "timer_step push T (Timeout h d s) = (let (T', out, _) = skynet_timeout push T h d s in Inr (T', out))"
| "timer_step push T Tick = timer_update T"

fun timer_run :: "(u32 \<Rightarrow> bool) \<Rightarrow> timer \<Rightarrow> timer_op list \<Rightarrow> (timer \<times> (u32 \<times> skynet_message) list list) res" where
  "timer_run push T [] = Inr (T, [])"
| "timer_run push T (p # ps) =
     andThen (timer_step push T p) (\<lambda>(T', out).
     andThen (timer_run push T' ps) (\<lambda>(T'', outs). Inr (T'', out # outs)))"

text \<open>The specification: a clock and a queue for each time.\<close>

record spec_timer =
  clock :: u32
  queues :: "u32 \<Rightarrow> timer_node list"

definition abs_timer :: "timer \<Rightarrow> spec_timer" where
  "abs_timer T = \<lparr>clock = now T, queues = pending T\<rparr>"

fun spec_step :: "(u32 \<Rightarrow> bool) \<Rightarrow> spec_timer \<Rightarrow> timer_op \<Rightarrow> spec_timer \<times> (u32 \<times> skynet_message) list" where
  "spec_step push S (Timeout h d s) =
     (if sint d \<le> 0 then (S, if push h then [(h, timeout_message s)] else [])
      else let x = clock S + d; n = \<lparr>expire = x, event = \<lparr>ev_handle = h, ev_session = s\<rparr>\<rparr>
           in (S\<lparr>queues := (queues S)(x := queues S x @ [n])\<rparr>, []))"
| "spec_step push S Tick =
     (let x = clock S + 1 in (S\<lparr>clock := x, queues := (queues S)(x := [])\<rparr>, dispatch_list (queues S x)))"

fun spec_run :: "(u32 \<Rightarrow> bool) \<Rightarrow> spec_timer \<Rightarrow> timer_op list \<Rightarrow> spec_timer \<times> (u32 \<times> skynet_message) list list" where
  "spec_run push S [] = (S, [])"
| "spec_run push S (p # ps) =
     (let (S', out) = spec_step push S p; (S'', outs) = spec_run push S' ps in (S'', out # outs))"

definition timer_ready :: "timer \<Rightarrow> bool" where
  "timer_ready T \<longleftrightarrow> timer_inv T \<and> pending T (now T) = []"

lemma timer_step_refines:
  assumes "timer_ready T"
  shows "\<exists>T' out. timer_step push T p = Inr (T', out) \<and> timer_ready T' \<and>
    spec_step push (abs_timer T) p = (abs_timer T', out)"
proof (cases p)
  case (Timeout h d s)
  show ?thesis
  proof (cases "sint d \<le> 0")
    case True
    with assms Timeout show ?thesis by (auto simp: skynet_timeout_def)
  next
    case False
    then show ?thesis
      using assms timer_add_ok [of T d "\<lparr>ev_handle = h, ev_session = s\<rparr>"]
      by (simp add: Timeout skynet_timeout_def timer_ready_def abs_timer_def Let_def)
  qed
next
  case Tick
  from assms obtain T' where "timer_update T = Inr (T', dispatch_list (pending T (now T + 1)))" "timer_inv T'"
    "now T' = now T + 1" "pending T' = (pending T)(now T + 1 := [])"
    unfolding timer_ready_def by (blast elim: timer_update_ok)
  then show ?thesis by (simp add: Tick timer_ready_def abs_timer_def Let_def)
qed

lemma timer_run_refines:
  "timer_ready T \<Longrightarrow> \<exists>T' outs. timer_run push T ps = Inr (T', outs) \<and> timer_ready T' \<and>
    spec_run push (abs_timer T) ps = (abs_timer T', outs)"
proof (induction ps arbitrary: T)
  case (Cons p ps)
  from timer_step_refines [OF Cons.prems] obtain T1 out where 1: "timer_step push T p = Inr (T1, out)"
    "timer_ready T1" "spec_step push (abs_timer T) p = (abs_timer T1, out)" by blast
  with Cons.IH [OF 1(2)] show ?case by auto
qed simp

lemma timer_ready_init: "timer_ready (skynet_timer_init a b c d)"
proof -
  let ?T = "skynet_timer_init a b c d"
  have "shape ?T" by (simp add: shape_def skynet_timer_init_def timer_create_timer_def split: prod.split)
  moreover have "content ?T l = []" if "valid_loc l" for l
    using that by (cases l) (simp_all add: skynet_timer_init_def timer_create_timer_def split: prod.split)
  ultimately show ?thesis by (simp add: timer_ready_def timer_inv_def pending_def)
qed

lemma abs_timer_init: "abs_timer (skynet_timer_init a b c d) = \<lparr>clock = 0, queues = \<lambda>x. []\<rparr>"
proof -
  let ?T = "skynet_timer_init a b c d"
  have "content ?T l = []" if "valid_loc l" for l
    using that by (cases l) (simp_all add: skynet_timer_init_def timer_create_timer_def split: prod.split)
  moreover have "now ?T = 0"
    by (simp add: skynet_timer_init_def timer_create_timer_def split: prod.split)
  ultimately show ?thesis by (simp add: abs_timer_def pending_def fun_eq_iff)
qed

text \<open>C25: Started by \<open>skynet_timer_init\<close>, the timing wheel never indexes outside its levels and
  produces, for every interleaving of timeouts and ticks, exactly the messages of the abstract
  timer, in the same order: the cascading levels and the wrap-around of the 32 bit clock are
  not observable.\<close>

theorem timer_refines_queues:
  "\<exists>T. timer_run push (skynet_timer_init rs rn ms mn) ps =
         Inr (T, snd (spec_run push \<lparr>clock = 0, queues = \<lambda>x. []\<rparr> ps)) \<and>
       abs_timer T = fst (spec_run push \<lparr>clock = 0, queues = \<lambda>x. []\<rparr> ps)"
  using timer_run_refines [OF timer_ready_init, of push rs rn ms mn ps]
  by (metis abs_timer_init fst_conv snd_conv)

section \<open>Exact deadlines\<close>

abbreviation is_event :: "u32 \<Rightarrow> 32 word \<Rightarrow> timer_node \<Rightarrow> bool" where
  "is_event h s n \<equiv> event n = \<lparr>ev_handle = h, ev_session = s\<rparr>"

fun is_timeout :: "u32 \<Rightarrow> 32 word \<Rightarrow> timer_op \<Rightarrow> bool" where
  "is_timeout h s (Timeout h' d s') = (h' = h \<and> s' = s)"
| "is_timeout h s Tick = False"

text \<open>The timeouts of \<open>(h, s)\<close> that wait, by time.\<close>

definition waiting :: "u32 \<Rightarrow> 32 word \<Rightarrow> spec_timer \<Rightarrow> u32 \<Rightarrow> timer_node list" where
  "waiting h s S x = filter (is_event h s) (queues S x)"

lemma timeout_message_inj [simp]: "timeout_message s = timeout_message s' \<longleftrightarrow> s = s'"
  by (simp add: timeout_message_def)

lemma filter_dispatch:
  "filter (\<lambda>m. m = (h, timeout_message s)) (dispatch_list ns) =
     dispatch_list (filter (is_event h s) ns)"
proof (induction ns)
  case (Cons n ns)
  moreover have "is_event h s n \<longleftrightarrow> ev_handle (event n) = h \<and> ev_session (event n) = s"
    by (cases "event n") auto
  ultimately show ?case by (auto simp: dispatch_list_def)
qed (simp add: dispatch_list_def)

lemma spec_step_other:
  assumes "\<not> is_timeout h s p" and "spec_step push S p = (S', out)"
  shows "filter (\<lambda>m. m = (h, timeout_message s)) out =
      (if p = Tick then dispatch_list (waiting h s S (clock S + 1)) else [])"
    and "clock S' = (if p = Tick then clock S + 1 else clock S)"
    and "waiting h s S' = (if p = Tick then (waiting h s S)(clock S + 1 := []) else waiting h s S)"
  using assms
  by (cases p; force simp: Let_def waiting_def filter_dispatch split: if_splits)+

abbreviation ticks :: "timer_op list \<Rightarrow> nat" where
  "ticks ps \<equiv> length (filter (\<lambda>p. p = Tick) ps)"

lemma spec_run_other:
  assumes "\<forall>p\<in>set ps. \<not> is_timeout h s p" and "spec_run push S ps = (S', outs)"
    and "\<forall>k. 0 < k \<and> k \<le> ticks ps \<longrightarrow> waiting h s S (clock S + of_nat k) = []"
  shows "(h, timeout_message s) \<notin> set (concat outs) \<and> clock S' = clock S + of_nat (ticks ps) \<and>
    waiting h s S' = waiting h s S"
  using assms
proof (induction ps arbitrary: S outs)
  case (Cons p ps)
  obtain S1 out where 1: "spec_step push S p = (S1, out)" by fastforce
  obtain S2 outs2 where 2: "spec_run push S1 ps = (S2, outs2)" by fastforce
  from Cons.prems(2) 1 2 have o: "outs = out # outs2" and S2: "S2 = S'" by auto
  have np: "\<not> is_timeout h s p" using Cons.prems(1) by simp
  note st = spec_step_other [OF np 1]
  have w: "p = Tick \<Longrightarrow> waiting h s S (clock S + 1) = []"
    using Cons.prems(3) [rule_format, of 1] by simp
  then have w1: "waiting h s S1 = waiting h s S" using st(3) by (auto simp: fun_upd_idem)
  have "waiting h s S1 (clock S1 + of_nat k) = []" if "0 < k \<and> k \<le> ticks ps" for k
    using Cons.prems(3) [rule_format, of "if p = Tick then Suc k else k"] that
    by (auto simp: w1 st(2) add.assoc split: if_splits)
  then have IH: "(h, timeout_message s) \<notin> set (concat outs2) \<and> clock S2 = clock S1 + of_nat (ticks ps) \<and>
      waiting h s S2 = waiting h s S1"
    using Cons.IH [OF _ 2 [unfolded S2]] Cons.prems(1) by (simp add: S2)
  have "filter (\<lambda>m. m = (h, timeout_message s)) out = []"
    using st(1) w by (simp add: dispatch_list_def)
  then have "(h, timeout_message s) \<notin> set out" unfolding filter_empty_conv by blast
  then show ?case using IH o S2 w1 st(2) by (simp add: add.assoc)
qed simp

lemma spec_run_append:
  "spec_run push S (ps @ qs) =
     (let (S1, o1) = spec_run push S ps; (S2, o2) = spec_run push S1 qs in (S2, o1 @ o2))"
  by (induction ps arbitrary: S) (auto simp: Let_def split: prod.splits)

lemma of_nat_neq_word: "0 < k \<Longrightarrow> k < unat (d::u32) \<Longrightarrow> of_nat k \<noteq> d"
proof
  assume "0 < k" "k < unat d" "of_nat k = d"
  moreover have "unat d < 2 ^ 32" using unsigned_less [of d] by simp
  ultimately have "k < 2 ^ LENGTH(32)" by simp
  then have "unat (of_nat k :: u32) = k" by (simp add: unat_of_nat)
  with \<open>of_nat k = d\<close> \<open>k < unat d\<close> show False by simp
qed

lemma spec_run_length: "spec_run push S ps = (S', outs) \<Longrightarrow> length outs = length ps"
  by (induction ps arbitrary: S outs) (auto simp: Let_def split: prod.splits)

lemma spec_deadline:
  assumes d: "0 < sint d" and fresh: "\<forall>p\<in>set ps \<union> set qs \<union> set us. \<not> is_timeout h s p"
    and k: "Suc (ticks qs) = unat d"
    and S0: "\<And>x. waiting h s S x = []"
    and run: "spec_run push S (ps @ Timeout h d s # qs @ Tick # us) = (S', outs)"
  shows "\<exists>early due late. outs = early @ due # late \<and> length early = length ps + 1 + length qs \<and>
    (h, timeout_message s) \<notin> set (concat early) \<and> filter (\<lambda>m. m = (h, timeout_message s)) due = [(h, timeout_message s)] \<and>
    (h, timeout_message s) \<notin> set (concat late)"
proof -
  let ?m = "(h, timeout_message s)"
  obtain S1 o1 where 1: "spec_run push S ps = (S1, o1)" by fastforce
  obtain S2 where 2: "spec_step push S1 (Timeout h d s) = (S2, [])" using d by (simp add: Let_def)
  obtain S3 o3 where 3: "spec_run push S2 qs = (S3, o3)" by fastforce
  obtain S4 o4 where 4: "spec_step push S3 Tick = (S4, o4)" by fastforce
  obtain S5 o5 where 5: "spec_run push S4 us = (S5, o5)" by fastforce
  have outs: "outs = (o1 @ [] # o3) @ o4 # o5"
    using run 1 2 3 4 5 by (simp add: spec_run_append del: spec_step.simps)
  have "?m \<notin> set (concat o1) \<and> clock S1 = clock S + of_nat (ticks ps) \<and> waiting h s S1 = waiting h s S"
    using fresh S0 by (intro spec_run_other [OF _ 1]) auto
  then have a: "?m \<notin> set (concat o1)" "\<And>x. waiting h s S1 x = []" using S0 by auto
  have w2: "clock S2 = clock S1" "waiting h s S2 x =
      (if x = clock S1 + d then [\<lparr>expire = clock S1 + d, event = \<lparr>ev_handle = h, ev_session = s\<rparr>\<rparr>] else [])" for x
    using 2 d a(2) [of x] by (auto simp: Let_def waiting_def)
  have "?m \<notin> set (concat o3) \<and> clock S3 = clock S2 + of_nat (ticks qs) \<and> waiting h s S3 = waiting h s S2"
    using fresh of_nat_neq_word [of _ d] k by (intro spec_run_other [OF _ 3]) (auto simp: w2)
  moreover have "of_nat (ticks qs) + 1 = d"
    using arg_cong [OF k, of "of_nat :: nat \<Rightarrow> u32"] by (simp add: add.commute)
  ultimately have b: "?m \<notin> set (concat o3)" "clock S3 + 1 = clock S1 + d" "waiting h s S3 = waiting h s S2"
    using w2(1) by (auto simp: add.assoc)
  have tick: "\<not> is_timeout h s Tick" by simp
  have due: "filter (\<lambda>m. m = ?m) o4 = [?m]"
    using spec_step_other(1) [OF tick 4] by (simp add: b(2,3) w2(2) dispatch_list_def)
  have "waiting h s S4 x = []" for x using spec_step_other(3) [OF tick 4] by (simp add: b(2,3) w2(2))
  then have "?m \<notin> set (concat o5)" using spec_run_other [OF _ 5, of h s] fresh by auto
  moreover have "length (o1 @ [] # o3) = length ps + 1 + length qs" using spec_run_length [OF 1] spec_run_length [OF 3] by simp
  moreover have "?m \<notin> set (concat (o1 @ [] # o3))" using a(1) b(1) by simp
  ultimately show ?thesis using due outs by blast
qed

text \<open>C26: A timeout of \<open>d\<close> ticks, \<open>0 < d\<close> as a C \<^verbatim>\<open>int\<close>, sends its response message exactly once, at
  exactly the \<open>d\<close>-th tick after the call, whatever other timeouts are set before, meanwhile
  and for the same time, and wherever the 32 bit clock wraps around: not before this tick, once in it, and never again however long
  the timer runs on, unless the same service asks for the same session again.\<close>

theorem timer_exact_deadline:
  assumes "0 < sint d" and "\<forall>p\<in>set ps \<union> set qs \<union> set us. \<not> is_timeout h s p" and "Suc (ticks qs) = unat d"
  shows "\<exists>T early due late. timer_run push (skynet_timer_init rs rn ms mn) (ps @ Timeout h d s # qs @ Tick # us) = Inr (T, early @ due # late) \<and>
    length early = length ps + 1 + length qs \<and> (h, timeout_message s) \<notin> set (concat early) \<and>
    filter (\<lambda>m. m = (h, timeout_message s)) due = [(h, timeout_message s)] \<and> (h, timeout_message s) \<notin> set (concat late)"
proof -
  obtain T outs where "timer_run push (skynet_timer_init rs rn ms mn) (ps @ Timeout h d s # qs @ Tick # us) = Inr (T, outs)"
    "spec_run push \<lparr>clock = 0, queues = \<lambda>x. []\<rparr> (ps @ Timeout h d s # qs @ Tick # us) = (abs_timer T, outs)"
    using timer_run_refines [OF timer_ready_init] abs_timer_init by metis
  moreover from spec_deadline [OF assms _ this(2)] have "\<exists>early due late. outs = early @ due # late \<and> length early = length ps + 1 + length qs \<and>
    (h, timeout_message s) \<notin> set (concat early) \<and> filter (\<lambda>m. m = (h, timeout_message s)) due = [(h, timeout_message s)] \<and>
    (h, timeout_message s) \<notin> set (concat late)"
    by (simp add: waiting_def)
  ultimately show ?thesis by blast
qed

theorem timer_exact_deadline_witness:
  "\<exists>T early due late. timer_run (\<lambda>h. True) (skynet_timer_init 0 0 0 0)
      ([Tick, Timeout 7 1 2] @ Timeout 7 2 1 # [Tick, Timeout 8 1 1] @ Tick # [Tick, Tick]) = Inr (T, early @ due # late) \<and>
    length early = length [Tick, Timeout 7 1 2] + 1 + length [Tick, Timeout 8 1 1] \<and> (7, timeout_message 1) \<notin> set (concat early) \<and>
    filter (\<lambda>m. m = (7, timeout_message 1)) due = [(7, timeout_message 1)] \<and> (7, timeout_message 1) \<notin> set (concat late)"
  using timer_exact_deadline [of 2 "[Tick, Timeout 7 1 2]" "[Tick, Timeout 8 1 1]" "[Tick, Tick]" 7 1 "\<lambda>h. True" 0 0 0 0]
  by simp

end
