(* ===== verification/Module.thy ===== *)
theory Module
  imports Prelude
begin

text \<open>
  Model of \<^verbatim>\<open>skynet-src/skynet_module.c\<close>: the table of loaded service modules. A module is looked up
  by name; on a miss it is searched along the module path, loaded by \<^verbatim>\<open>dlopen\<close>, and its four entry
  points are resolved by \<^verbatim>\<open>dlsym\<close>. Both functions belong to the operating system and are arguments
  here; the addresses they return are numbers, and \<open>None\<close> is \<^verbatim>\<open>NULL\<close>. A pointer into the table is an
  index. The spin lock makes the locked part of a query one step.
\<close>

definition MAX_MODULE_TYPE :: nat where "MAX_MODULE_TYPE = 32"

record skynet_module =
  mod_name :: string
  mod_module :: nat
  mod_create :: "nat option"
  mod_init :: "nat option"
  mod_release :: "nat option"
  mod_signal :: "nat option"

record modules =
  mod_count :: nat
  mod_path :: string
  mod_m :: "skynet_module option list"

definition skynet_module_init :: "string \<Rightarrow> modules" where
  "skynet_module_init path = \<lparr>mod_count = 0, mod_path = path, mod_m = replicate MAX_MODULE_TYPE None\<rparr>"

section \<open>Searching the path\<close>

text \<open>Copying characters into the buffer \<^verbatim>\<open>tmp\<close>, and reading the string in it.\<close>

definition put_chars :: "char list \<Rightarrow> nat \<Rightarrow> char list \<Rightarrow> char list res" where
  "put_chars tmp i cs =
     (if i + length cs \<le> length tmp then Inr (take i tmp @ cs @ drop (i + length cs) tmp) else Inl Out_of_range)"

definition read_chars :: "char list \<Rightarrow> string res" where
  "read_chars tmp =
     (if CHR 0x00 \<in> set tmp then Inr (takeWhile (\<lambda>c. c \<noteq> CHR 0x00) tmp) else Inl Out_of_range)"

text \<open>
  One turn of the loop of \<open>_try_open\<close> on a pattern of the path, the text up to the next semicolon:
  the name to open, with the question mark replaced by the module's name. A pattern without one
  ends the process.
\<close>

definition fill_pattern :: "nat \<Rightarrow> string \<Rightarrow> string \<Rightarrow> string res" where
  "fill_pattern bufsz nm item =
     (let tmp = replicate bufsz (CHR 0x00); pre = takeWhile (\<lambda>c. c \<noteq> CHR ''?'') item; i = length pre in
      andThen (put_chars tmp 0 pre) (\<lambda>tmp.
      andThen (put_chars tmp i nm) (\<lambda>tmp.
      if i < length item then
        andThen (put_chars tmp (i + length nm) (drop (i + 1) item)) read_chars
      else Inl Exited)))"

lemma path_shorter:
  fixes path :: string
  assumes "dropWhile (\<lambda>c. c = CHR '';'') path \<noteq> []" (is "?p \<noteq> []")
  shows "length (dropWhile (\<lambda>c. c \<noteq> CHR '';'') ?p) < length path"
proof -
  obtain c r where p: "?p = c # r" using assms by (cases ?p) auto
  then have "c \<noteq> CHR '';''" using hd_dropWhile [of "\<lambda>c. c = CHR '';''" path] by simp
  moreover have "length r < length path" using length_dropWhile_le [of "\<lambda>c. c = CHR '';''" path] p by simp
  ultimately show ?thesis using length_dropWhile_le [of "\<lambda>c. c \<noteq> CHR '';''" r] p by simp
qed

function try_open_loop :: "(string \<Rightarrow> nat option) \<Rightarrow> nat \<Rightarrow> string \<Rightarrow> string \<Rightarrow> nat option res" where
  "try_open_loop dlopen bufsz nm path =
     (let p = dropWhile (\<lambda>c. c = CHR '';'') path in
      if p = [] then Inr None
      else andThen (fill_pattern bufsz nm (takeWhile (\<lambda>c. c \<noteq> CHR '';'') p)) (\<lambda>file.
        case dlopen file of
          Some dl \<Rightarrow> Inr (Some dl)
        | None \<Rightarrow> try_open_loop dlopen bufsz nm (dropWhile (\<lambda>c. c \<noteq> CHR '';'') p)))"
  by pat_completeness auto
termination
  by (relation "measure (\<lambda>(d, b, n, path). length path)") (simp_all add: path_shorter)

declare try_open_loop.simps [simp del]

definition try_open :: "(string \<Rightarrow> nat option) \<Rightarrow> modules \<Rightarrow> string \<Rightarrow> nat option res" where
  "try_open dlopen m nm = try_open_loop dlopen (length (mod_path m) + length nm) nm (mod_path m)"

section \<open>Looking up and loading\<close>

function query_from :: "modules \<Rightarrow> string \<Rightarrow> nat \<Rightarrow> nat option res" where
  "query_from m nm i =
     (if i < mod_count m then
        andThen (read_cell (mod_m m) i) (\<lambda>e. if mod_name e = nm then Inr (Some i) else query_from m nm (i + 1))
      else Inr None)"
  by pat_completeness auto
termination
  by (relation "measure (\<lambda>(m, nm, i). mod_count m - i)") auto

declare query_from.simps [simp del]

definition query :: "modules \<Rightarrow> string \<Rightarrow> nat option res" where
  "query m nm = query_from m nm 0"

text \<open>\<open>_open_sym\<close>: the entry points of a module; a module without \<open>_init\<close> is refused.\<close>

definition open_sym :: "(nat \<Rightarrow> string \<Rightarrow> nat option) \<Rightarrow> skynet_module \<Rightarrow> skynet_module \<times> bool" where
  "open_sym dlsym md =
     (let md' = md\<lparr>mod_create := dlsym (mod_module md) (mod_name md @ ''_create''),
                   mod_init := dlsym (mod_module md) (mod_name md @ ''_init''),
                   mod_release := dlsym (mod_module md) (mod_name md @ ''_release''),
                   mod_signal := dlsym (mod_module md) (mod_name md @ ''_signal'')\<rparr>
      in (md', mod_init md' = None))"

text \<open>The locked part of \<open>skynet_module_query\<close>.\<close>

definition query_locked ::
  "(string \<Rightarrow> nat option) \<Rightarrow> (nat \<Rightarrow> string \<Rightarrow> nat option) \<Rightarrow> modules \<Rightarrow> string \<Rightarrow> (modules \<times> nat option) res" where
  "query_locked dlopen dlsym m nm =
     andThen (query m nm) (\<lambda>result.
     if result = None \<and> mod_count m < MAX_MODULE_TYPE then
       let index = mod_count m in
       andThen (try_open dlopen m nm) (\<lambda>dl.
       case dl of
         None \<Rightarrow> Inr (m, None)
       | Some l \<Rightarrow>
           let (md, failed) = open_sym dlsym \<lparr>mod_name = nm, mod_module = l, mod_create = None,
                                              mod_init = None, mod_release = None, mod_signal = None\<rparr> in
           andThen (write_cell (mod_m m) index md) (\<lambda>cells.
           let m' = m\<lparr>mod_m := cells\<rparr> in
           if \<not> failed then Inr (m'\<lparr>mod_count := mod_count m + 1\<rparr>, Some index) else Inr (m', None)))
     else Inr (m, result))"

definition skynet_module_query ::
  "(string \<Rightarrow> nat option) \<Rightarrow> (nat \<Rightarrow> string \<Rightarrow> nat option) \<Rightarrow> modules \<Rightarrow> string \<Rightarrow> (modules \<times> nat option) res" where
  "skynet_module_query dlopen dlsym m nm =
     andThen (query m nm) (\<lambda>result.
       case result of
         Some i \<Rightarrow> Inr (m, Some i)
       | None \<Rightarrow> query_locked dlopen dlsym m nm)"

definition skynet_module_insert :: "modules \<Rightarrow> skynet_module \<Rightarrow> modules res" where
  "skynet_module_insert m md =
     andThen (query m (mod_name md)) (\<lambda>r.
     andThen (assert_that (r = None \<and> mod_count m < MAX_MODULE_TYPE)) (\<lambda>_.
     andThen (write_cell (mod_m m) (mod_count m) md) (\<lambda>cells.
       Inr (m\<lparr>mod_m := cells, mod_count := mod_count m + 1\<rparr>))))"

section \<open>What a query finds\<close>

text \<open>The patterns of the path, and the file a pattern stands for.\<close>

function patterns :: "string \<Rightarrow> string list" where
  "patterns path =
     (let p = dropWhile (\<lambda>c. c = CHR '';'') path in
      if p = [] then []
      else takeWhile (\<lambda>c. c \<noteq> CHR '';'') p # patterns (dropWhile (\<lambda>c. c \<noteq> CHR '';'') p))"
  by pat_completeness auto
termination
  by (relation "measure length") (simp_all add: path_shorter)

declare patterns.simps [simp del]

definition file_of :: "string \<Rightarrow> string \<Rightarrow> string" where
  "file_of nm item = takeWhile (\<lambda>c. c \<noteq> CHR ''?'') item @ nm @ tl (dropWhile (\<lambda>c. c \<noteq> CHR ''?'') item)"

definition first_library :: "(string \<Rightarrow> nat option) \<Rightarrow> string \<Rightarrow> string \<Rightarrow> nat option" where
  "first_library dlopen path nm =
     (case filter (\<lambda>l. l \<noteq> None) (map (\<lambda>item. dlopen (file_of nm item)) (patterns path)) of
        [] \<Rightarrow> None | l # _ \<Rightarrow> l)"

definition text_ok :: "string \<Rightarrow> bool" where
  "text_ok s \<longleftrightarrow> CHR 0x00 \<notin> set s"

definition path_ok :: "string \<Rightarrow> bool" where
  "path_ok path \<longleftrightarrow> text_ok path \<and> list_all (\<lambda>item. CHR ''?'' \<in> set item) (patterns path)"

lemma put_chars_next:
  "put_chars (xs @ replicate (length cs + k) z) (length xs) cs = Inr (xs @ cs @ replicate k z)"
  by (simp add: put_chars_def replicate_add)

lemma fill_pattern_steps:
  assumes "length item + length nm \<le> bufsz"
  shows "fill_pattern bufsz nm item =
    (if CHR ''?'' \<in> set item
     then read_chars (file_of nm item @ replicate (bufsz - (length item - 1 + length nm)) (CHR 0x00))
     else Inl Exited)"
proof (cases "CHR ''?'' \<in> set item")
  case False
  let ?z = "CHR 0x00"
  from False have pre: "takeWhile (\<lambda>c. c \<noteq> CHR ''?'') item = item" by auto
  obtain k where k: "bufsz = length item + (length nm + k)" using assms le_Suc_ex by (metis add.assoc)
  have "put_chars (replicate bufsz ?z) 0 item = Inr (item @ replicate (length nm + k) ?z)"
    using put_chars_next [of "[]" item "length nm + k" ?z] k by simp
  with False show ?thesis using put_chars_next [of item nm k ?z] by (simp add: fill_pattern_def Let_def pre)
next
  case True
  let ?z = "CHR 0x00"
  obtain pre post where item: "item = pre @ CHR ''?'' # post" and np: "CHR ''?'' \<notin> set pre"
    using split_list_first [OF True] by blast
  have pre: "takeWhile (\<lambda>c. c \<noteq> CHR ''?'') item = pre" "dropWhile (\<lambda>c. c \<noteq> CHR ''?'') item = CHR ''?'' # post"
    using np by (auto simp: item takeWhile_tail dropWhile_append3)
  obtain k where k: "bufsz = length pre + (length nm + (length post + (k + 1)))"
    using assms le_Suc_ex [of "length item + length nm" bufsz] by (auto simp: item)
  have 1: "put_chars (replicate bufsz ?z) 0 pre = Inr (pre @ replicate (length nm + (length post + (k + 1))) ?z)"
    using put_chars_next [of "[]" pre "length nm + (length post + (k + 1))" ?z] k by simp
  note 2 = put_chars_next [of pre nm "length post + (k + 1)" ?z]
  note 3 = put_chars_next [of "pre @ nm" post "k + 1" ?z, simplified]
  have n: "bufsz - (length item - 1 + length nm) = k + 1" using k item by simp
  have len: "length pre < length item" "drop (Suc (length pre)) item = post" by (simp_all add: item)
  from True 1 2 3 show ?thesis by (simp add: fill_pattern_def Let_def file_of_def pre n [simplified] len)
qed

lemma file_of_text: "text_ok nm \<Longrightarrow> text_ok item \<Longrightarrow> text_ok (file_of nm item)"
proof -
  have "set (takeWhile P item) \<union> set (tl (dropWhile P item)) \<subseteq> set item" for P
    using set_takeWhileD set_dropWhileD [of _ P item] list.set_sel(2) [of "dropWhile P item"]
    by (metis Un_subset_iff list.sel(2) subsetI)
  then show "text_ok nm \<Longrightarrow> text_ok item \<Longrightarrow> text_ok (file_of nm item)"
    unfolding text_ok_def file_of_def by (metis Un_iff set_append subsetD)
qed

lemma fill_pattern_ok:
  assumes "length item + length nm \<le> bufsz" and "CHR ''?'' \<in> set item" and "text_ok nm" and "text_ok item"
  shows "fill_pattern bufsz nm item = Inr (file_of nm item)"
proof -
  have "0 < length item" using assms(2) by (cases item) auto
  then have pos: "\<not> bufsz \<le> length item - Suc 0 + length nm" using assms(1) by linarith
  have "takeWhile (\<lambda>c. c \<noteq> CHR 0x00) (file_of nm item) = file_of nm item"
    using file_of_text [OF assms(3,4)] by (auto simp: text_ok_def)
  then show ?thesis using assms(2) file_of_text [OF assms(3,4)]
    by (simp add: fill_pattern_steps [OF assms(1)] pos read_chars_def takeWhile_append text_ok_def)
qed

text \<open>The library found is the first one of the path that opens; no pattern overruns the buffer.\<close>

lemma first_library_rec:
  "first_library dlopen path nm =
     (let p = dropWhile (\<lambda>c. c = CHR '';'') path in
      if p = [] then None
      else case dlopen (file_of nm (takeWhile (\<lambda>c. c \<noteq> CHR '';'') p)) of
          Some l \<Rightarrow> Some l
        | None \<Rightarrow> first_library dlopen (dropWhile (\<lambda>c. c \<noteq> CHR '';'') p) nm)"
  unfolding first_library_def by (subst patterns.simps) (auto simp: Let_def split: option.splits)

lemma try_open_loop_spec:
  "length path + length nm \<le> bufsz \<Longrightarrow> text_ok nm \<Longrightarrow> path_ok path \<Longrightarrow>
    try_open_loop dlopen bufsz nm path = Inr (first_library dlopen path nm)"
proof (induction dlopen bufsz nm path rule: try_open_loop.induct)
  case (1 dlopen bufsz nm path)
  let ?p = "dropWhile (\<lambda>c. c = CHR '';'') path"
  let ?i = "takeWhile (\<lambda>c. c \<noteq> CHR '';'') ?p" and ?r = "dropWhile (\<lambda>c. c \<noteq> CHR '';'') ?p"
  show ?case
  proof (cases "?p = []")
    case True
    then show ?thesis by (subst try_open_loop.simps, subst first_library_rec) simp
  next
    case False
    have "patterns path = ?i # patterns ?r" using False by (subst patterns.simps) (simp add: Let_def del: dropWhile_eq_Nil_conv)
    with 1(4) have pk: "CHR ''?'' \<in> set ?i" "list_all (\<lambda>item. CHR ''?'' \<in> set item) (patterns ?r)" "text_ok path"
      by (simp_all add: path_ok_def)
    have sub: "set ?i \<subseteq> set path" "set ?r \<subseteq> set path" by (auto dest!: set_takeWhileD set_dropWhileD)
    then have tx: "text_ok ?i" "path_ok ?r" using pk by (auto simp: text_ok_def path_ok_def)
    have le: "length ?i \<le> length path"
      using length_takeWhile_le [of "\<lambda>c. c \<noteq> CHR '';''" ?p] length_dropWhile_le [of "\<lambda>c. c = CHR '';''" path] by linarith
    have f: "fill_pattern bufsz nm ?i = Inr (file_of nm ?i)"
      using le 1(2,3) pk(1) tx(1) by (intro fill_pattern_ok) simp_all
    have ih: "dlopen (file_of nm ?i) = None \<Longrightarrow> try_open_loop dlopen bufsz nm ?r = Inr (first_library dlopen ?r nm)"
      using 1(1) [OF refl False] 1(2,3) tx(2) path_shorter [OF False] f by simp
    show ?thesis using False f ih
      by (subst try_open_loop.simps, subst first_library_rec) (auto simp: Let_def split: option.split)
  qed
qed

text \<open>The table: loaded modules have distinct names and an init function.\<close>

definition module_at :: "modules \<Rightarrow> nat \<Rightarrow> skynet_module" where
  "module_at m i = the (mod_m m ! i)"

definition modules_inv :: "modules \<Rightarrow> bool" where
  "modules_inv m \<longleftrightarrow> mod_count m \<le> MAX_MODULE_TYPE \<and> length (mod_m m) = MAX_MODULE_TYPE \<and>
     (\<forall>i < mod_count m. mod_m m ! i \<noteq> None \<and> mod_init (module_at m i) \<noteq> None) \<and>
     inj_on (\<lambda>i. mod_name (module_at m i)) {..<mod_count m}"

definition loaded :: "modules \<Rightarrow> string \<Rightarrow> nat \<Rightarrow> bool" where
  "loaded m nm i \<longleftrightarrow> i < mod_count m \<and> mod_name (module_at m i) = nm"

lemma modules_inv_init: "modules_inv (skynet_module_init path)"
  by (simp add: modules_inv_def skynet_module_init_def)

lemma loaded_unique: "modules_inv m \<Longrightarrow> loaded m nm i \<Longrightarrow> loaded m nm j \<Longrightarrow> i = j"
  unfolding modules_inv_def loaded_def inj_on_def by (metis lessThan_iff)

lemma read_module: "modules_inv m \<Longrightarrow> i < mod_count m \<Longrightarrow> read_cell (mod_m m) i = Inr (module_at m i)"
  by (auto simp: modules_inv_def module_at_def read_cell_def)

lemma query_from_spec:
  "modules_inv m \<Longrightarrow> \<exists>r. query_from m nm i = Inr r \<and> (\<forall>j. r = Some j \<longrightarrow> loaded m nm j) \<and>
    (r = None \<longrightarrow> (\<forall>j \<ge> i. \<not> loaded m nm j))"
proof (induction m nm i rule: query_from.induct)
  case (1 m nm i)
  show ?case
  proof (cases "i < mod_count m")
    case False
    then show ?thesis by (subst query_from.simps) (auto simp: loaded_def)
  next
    case True
    note rd = read_module [OF 1(2) True]
    show ?thesis
    proof (cases "mod_name (module_at m i) = nm")
      case hit: True
      then show ?thesis using True rd by (subst query_from.simps) (simp add: loaded_def)
    next
      case miss: False
      from 1(1) [OF True miss 1(2)] obtain r where r: "query_from m nm (i + 1) = Inr r"
          "\<forall>j. r = Some j \<longrightarrow> loaded m nm j" "r = None \<longrightarrow> (\<forall>j \<ge> i + 1. \<not> loaded m nm j)" by blast
      have "\<not> loaded m nm i" using miss by (simp add: loaded_def)
      then have "r = None \<longrightarrow> (\<forall>j \<ge> i. \<not> loaded m nm j)" using r(3) by (metis Suc_eq_plus1 Suc_leI le_neq_implies_less)
      moreover have "query_from m nm i = Inr r" using True miss rd r(1) by (subst query_from.simps) simp
      ultimately show ?thesis using r(2) by blast
    qed
  qed
qed

lemma query_iff:
  assumes "modules_inv m"
  shows "query m nm = Inr (Some i) \<longleftrightarrow> loaded m nm i" and "query m nm = Inr None \<longleftrightarrow> (\<forall>i. \<not> loaded m nm i)"
  using query_from_spec [OF assms, of nm 0] loaded_unique [OF assms] by (auto simp: query_def)

lemma module_cases:
  assumes "modules_inv m"
  obtains (hit) i where "loaded m nm i" "query m nm = Inr (Some i)"
    | (miss) "\<forall>i. \<not> loaded m nm i" "query m nm = Inr None"
  using query_iff [OF assms, of nm] that by blast

text \<open>The entry that loading a library makes.\<close>

definition entry_of :: "(nat \<Rightarrow> string \<Rightarrow> nat option) \<Rightarrow> string \<Rightarrow> nat \<Rightarrow> skynet_module" where
  "entry_of dlsym nm l = \<lparr>mod_name = nm, mod_module = l, mod_create = dlsym l (nm @ ''_create''),
     mod_init = dlsym l (nm @ ''_init''), mod_release = dlsym l (nm @ ''_release''),
     mod_signal = dlsym l (nm @ ''_signal'')\<rparr>"

lemma modules_inv_add:
  assumes "modules_inv m" and "\<forall>i. \<not> loaded m (mod_name e) i" and "mod_count m < MAX_MODULE_TYPE" and "mod_init e \<noteq> None"
  shows "modules_inv (m\<lparr>mod_m := (mod_m m)[mod_count m := Some e], mod_count := mod_count m + 1\<rparr>)"
proof -
  let ?m = "m\<lparr>mod_m := (mod_m m)[mod_count m := Some e], mod_count := mod_count m + 1\<rparr>"
  have len: "length (mod_m m) = MAX_MODULE_TYPE" using assms(1) by (simp add: modules_inv_def)
  have new: "module_at ?m (mod_count m) = e" and old: "i \<noteq> mod_count m \<Longrightarrow> module_at ?m i = module_at m i" for i
    using len assms(3) by (simp_all add: module_at_def)
  have "mod_name (module_at m i) \<noteq> mod_name e" if "i < mod_count m" for i
    using assms(2) that by (simp add: loaded_def)
  then have "inj_on (\<lambda>i. mod_name (module_at ?m i)) {..<mod_count m + 1}"
    using assms(1) unfolding modules_inv_def inj_on_def
    by (metis (no_types, lifting) lessThan_iff less_Suc_eq new old Suc_eq_plus1)
  then show ?thesis
    using assms len by (auto simp: modules_inv_def less_Suc_eq nth_list_update new [simplified] old [simplified])
qed

lemma modules_inv_spare:
  assumes "modules_inv m" and "mod_count m < MAX_MODULE_TYPE"
  shows "modules_inv (m\<lparr>mod_m := (mod_m m)[mod_count m := x]\<rparr>)"
proof -
  have "module_at (m\<lparr>mod_m := (mod_m m)[mod_count m := x]\<rparr>) i = module_at m i" if "i < mod_count m" for i
    using that by (simp add: module_at_def)
  then show ?thesis using assms by (auto simp: modules_inv_def inj_on_def)
qed

text \<open>A query that finds its module loaded changes nothing and opens no library.\<close>

lemma query_hit: "modules_inv m \<Longrightarrow> loaded m nm i \<Longrightarrow> skynet_module_query dlopen dlsym m nm = Inr (m, Some i)"
  by (simp add: skynet_module_query_def query_iff(1) [THEN iffD2])

lemma query_miss:
  assumes inv: "modules_inv m" and miss: "\<forall>i. \<not> loaded m nm i" and "text_ok nm" and "path_ok (mod_path m)"
  shows "skynet_module_query dlopen dlsym m nm =
    (case first_library dlopen (mod_path m) nm of
       Some l \<Rightarrow>
         if mod_count m = MAX_MODULE_TYPE then Inr (m, None)
         else let m' = m\<lparr>mod_m := (mod_m m)[mod_count m := Some (entry_of dlsym nm l)]\<rparr> in
           if dlsym l (nm @ ''_init'') = None then Inr (m', None)
           else Inr (m'\<lparr>mod_count := mod_count m + 1\<rparr>, Some (mod_count m))
     | None \<Rightarrow> Inr (m, None))"
proof -
  have q: "query m nm = Inr None" using miss query_iff(2) [OF inv] by blast
  have lib: "try_open dlopen m nm = Inr (first_library dlopen (mod_path m) nm)"
    unfolding try_open_def by (rule try_open_loop_spec) (simp_all add: assms)
  have len: "length (mod_m m) = MAX_MODULE_TYPE" "mod_count m \<le> MAX_MODULE_TYPE" using inv by (simp_all add: modules_inv_def)
  show ?thesis
    using q lib len
    by (auto simp: skynet_module_query_def query_locked_def open_sym_def entry_of_def Let_def split: option.split)
qed

text \<open>C12: a query of the module table returns, within the 32 entries and the search buffer, for every path
  whose patterns have a question mark: the index of the loaded module of that name, or else the entry
  just made from the first library of the path that opens, provided that there is room and that it
  has an init function, and \<^verbatim>\<open>NULL\<close> otherwise. Entries in use never move, names stay distinct, every
  module that is handed out has an init function, and a second query finds it without the loader.\<close>

theorem module_query_correct:
  assumes "modules_inv m" and "text_ok nm" and "path_ok (mod_path m)"
  shows "\<exists>m' r. skynet_module_query dlopen dlsym m nm = Inr (m', r) \<and> modules_inv m' \<and>
    (\<forall>i < mod_count m. mod_m m' ! i = mod_m m ! i) \<and>
    (\<forall>i. loaded m nm i \<longrightarrow> m' = m \<and> r = Some i) \<and>
    ((\<forall>i. \<not> loaded m nm i) \<longrightarrow>
      r = (case first_library dlopen (mod_path m) nm of
             Some l \<Rightarrow> if mod_count m < MAX_MODULE_TYPE \<and> dlsym l (nm @ ''_init'') \<noteq> None then Some (mod_count m) else None
           | None \<Rightarrow> None)) \<and>
    (\<forall>i. r = Some i \<longrightarrow> loaded m' nm i \<and> mod_init (module_at m' i) \<noteq> None \<and>
      skynet_module_query dlopen' dlsym' m' nm = Inr (m', Some i))"
proof (cases rule: module_cases [OF assms(1), of nm])
  case (1 i)
  then show ?thesis
    using assms(1) query_hit [OF assms(1)] loaded_unique [OF assms(1)] read_module [OF assms(1)]
    by (auto simp: modules_inv_def loaded_def)
next
  case 2
  note q = query_miss [OF assms(1) 2(1) assms(2,3), of dlopen dlsym]
  have le: "mod_count m \<le> MAX_MODULE_TYPE" "length (mod_m m) = MAX_MODULE_TYPE" using assms(1) by (simp_all add: modules_inv_def)
  show ?thesis
  proof (cases "first_library dlopen (mod_path m) nm")
    case None
    then show ?thesis using q 2 assms(1) by auto
  next
    case (Some l)
    show ?thesis
    proof (cases "mod_count m < MAX_MODULE_TYPE \<and> dlsym l (nm @ ''_init'') \<noteq> None")
      case True
      let ?m = "m\<lparr>mod_m := (mod_m m)[mod_count m := Some (entry_of dlsym nm l)], mod_count := mod_count m + 1\<rparr>"
      have r: "skynet_module_query dlopen dlsym m nm = Inr (?m, Some (mod_count m))" using q Some True by simp
      have inv: "modules_inv ?m"
        using True 2 by (intro modules_inv_add assms(1)) (simp_all add: entry_of_def)
      have ld: "loaded ?m nm (mod_count m)" using True le by (simp add: loaded_def module_at_def entry_of_def)
      have nn: "mod_init (module_at ?m (mod_count m)) \<noteq> None" using inv by (auto simp: modules_inv_def)
      show ?thesis
        using r inv 2(1) True Some ld nn query_hit [OF inv ld] by (intro exI [of _ ?m] exI [of _ "Some (mod_count m)"]) simp
    next
      case False
      then show ?thesis using q 2 Some assms(1) le modules_inv_spare [OF assms(1)] by (auto simp: Let_def)
    qed
  qed
qed

theorem module_query_correct_witness:
  "\<exists>m' r. skynet_module_query (\<lambda>f. if f = ''./service/gate.so'' then Some 7 else None) (\<lambda>l f. Some 1)
      (skynet_module_init ''./cservice/?.so;./service/?.so'') ''gate'' = Inr (m', r) \<and> modules_inv m' \<and>
    skynet_module_query Map.empty (\<lambda>_ _. None) m' ''gate'' = Inr (m', Some 0)"
proof -
  let ?m = "skynet_module_init ''./cservice/?.so;./service/?.so''"
  have pk: "path_ok (mod_path ?m)"
    by (simp add: path_ok_def text_ok_def skynet_module_init_def, (subst patterns.simps, simp add: Let_def)+)
  have nl: "\<forall>i. \<not> loaded ?m ''gate'' i" by (simp add: loaded_def skynet_module_init_def)
  have fl: "first_library (\<lambda>f. if f = ''./service/gate.so'' then Some 7 else None) (mod_path ?m) ''gate'' = Some 7"
    by (simp add: first_library_def skynet_module_init_def, (subst patterns.simps, simp add: Let_def file_of_def)+)
  have "text_ok ''gate''" by (simp add: text_ok_def)
  from module_query_correct [OF modules_inv_init this pk, of "\<lambda>f. if f = ''./service/gate.so'' then Some 7 else None"
      "\<lambda>l f. Some 1" Map.empty "\<lambda>_ _. None"] nl fl
  show ?thesis by (auto simp: skynet_module_init_def MAX_MODULE_TYPE_def)
qed

section \<open>Queries for any text\<close>

text \<open>Whatever the path and the name are, a query ends within its buffers or ends the process.\<close>

lemma fill_pattern_any:
  assumes "length item + length nm \<le> bufsz" and "item \<noteq> []"
  shows "(\<exists>f. fill_pattern bufsz nm item = Inr f) \<or> fill_pattern bufsz nm item = Inl Exited"
proof -
  have "0 < length item" using assms(2) by simp
  then have "\<not> bufsz \<le> length item - Suc 0 + length nm" using assms(1) by linarith
  then show ?thesis by (simp add: fill_pattern_steps [OF assms(1)] read_chars_def)
qed

lemma try_open_loop_any:
  "length path + length nm \<le> bufsz \<Longrightarrow>
    (\<exists>r. try_open_loop dlopen bufsz nm path = Inr r) \<or> try_open_loop dlopen bufsz nm path = Inl Exited"
proof (induction dlopen bufsz nm path rule: try_open_loop.induct)
  case (1 dlopen bufsz nm path)
  let ?p = "dropWhile (\<lambda>c. c = CHR '';'') path"
  let ?i = "takeWhile (\<lambda>c. c \<noteq> CHR '';'') ?p" and ?r = "dropWhile (\<lambda>c. c \<noteq> CHR '';'') ?p"
  show ?case
  proof (cases "?p = []")
    case True
    then show ?thesis by (subst try_open_loop.simps) simp
  next
    case False
    have le: "length ?i \<le> length path"
      using length_takeWhile_le [of "\<lambda>c. c \<noteq> CHR '';''" ?p] length_dropWhile_le [of "\<lambda>c. c = CHR '';''" path] by linarith
    have ne: "?i \<noteq> []" using False hd_dropWhile [OF False] by (cases ?p) auto
    from fill_pattern_any [of ?i nm bufsz] le ne 1(2)
    consider f where "fill_pattern bufsz nm ?i = Inr f" | "fill_pattern bufsz nm ?i = Inl Exited" by fastforce
    then show ?thesis
    proof cases
      case (1 f)
      have "(\<exists>r. try_open_loop dlopen bufsz nm ?r = Inr r) \<or> try_open_loop dlopen bufsz nm ?r = Inl Exited" if "dlopen f = None"
        using 1(1) "1.IH" [OF refl False, of f] that "1.prems" path_shorter [OF False] by simp
      then show ?thesis using False 1 by (subst (1 2) try_open_loop.simps) (auto simp: Let_def split: option.split)
    next
      case 2
      then show ?thesis using False by (subst (1 2) try_open_loop.simps) (simp add: Let_def)
    qed
  qed
qed

lemma query_any:
  assumes inv: "modules_inv m"
  shows "skynet_module_query dlopen dlsym m nm = Inl Exited \<or>
    (\<exists>m' r. skynet_module_query dlopen dlsym m nm = Inr (m', r) \<and> modules_inv m' \<and> mod_count m \<le> mod_count m' \<and>
      (\<forall>i. r = Some i \<longrightarrow> i < mod_count m'))"
proof (cases rule: module_cases [OF inv, of nm])
  case (1 i)
  then show ?thesis using query_hit [OF inv 1(1)] inv by (auto simp: loaded_def)
next
  case 2
  have len: "length (mod_m m) = MAX_MODULE_TYPE" "mod_count m \<le> MAX_MODULE_TYPE" using inv by (simp_all add: modules_inv_def)
  from try_open_loop_any [of "mod_path m" nm "length (mod_path m) + length nm" dlopen]
  consider r where "try_open dlopen m nm = Inr r" | "try_open dlopen m nm = Inl Exited" unfolding try_open_def by auto
  then show ?thesis
  proof cases
    case r: (1 r)
    show ?thesis
    proof (cases "mod_count m < MAX_MODULE_TYPE \<and> r \<noteq> None \<and> dlsym (the r) (nm @ ''_init'') \<noteq> None")
      case True
      then obtain l where l: "r = Some l" by blast
      have "modules_inv (m\<lparr>mod_m := (mod_m m)[mod_count m := Some (entry_of dlsym nm l)], mod_count := mod_count m + 1\<rparr>)"
        using True l 2(1) by (intro modules_inv_add inv) (simp_all add: entry_of_def)
      then show ?thesis using True l r 2 len
        by (auto simp: skynet_module_query_def query_locked_def open_sym_def entry_of_def Let_def)
    next
      case False
      then show ?thesis using r 2 len inv modules_inv_spare [OF inv]
        by (auto simp: skynet_module_query_def query_locked_def open_sym_def Let_def split: option.split)
    qed
  next
    case exit: 2
    then show ?thesis using 2 inv by (auto simp: skynet_module_query_def query_locked_def Let_def)
  qed
qed

end
