(* ===== verification/CString.thy ===== *)
theory CString
  imports Prelude
begin

text \<open>
  The part of the C string library that the services use, on byte buffers: a string is a
  position in a buffer and ends at the first zero byte; running off the buffer is a fault.
  Conversions follow the C standard: leading white space and a sign are accepted, the longest
  run of digits is read, and a value outside the range of \<^verbatim>\<open>long\<close> is clamped.
\<close>

definition text_bytes :: "string \<Rightarrow> u8 list" where
  "text_bytes s = map of_char s"

definition cstr_at :: "u8 list \<Rightarrow> nat \<Rightarrow> u8 list res" where
  "cstr_at B p = (if 0 \<in> set (drop p B) then Inr (takeWhile (\<lambda>c. c \<noteq> 0) (drop p B)) else Inl Out_of_range)"

definition is_space :: "u8 \<Rightarrow> bool" where
  "is_space c \<longleftrightarrow> c = 32 \<or> (9 \<le> c \<and> c \<le> 13)"

definition digit_of :: "nat \<Rightarrow> u8 \<Rightarrow> nat option" where
  "digit_of base c =
     (let d = (if 48 \<le> c \<and> c \<le> 57 then unat c - 48
               else if 97 \<le> c \<and> c \<le> 122 then unat c - 87
               else if 65 \<le> c \<and> c \<le> 90 then unat c - 55 else 36)
      in if d < base then Some d else None)"

fun digits_value :: "nat \<Rightarrow> nat \<Rightarrow> u8 list \<Rightarrow> nat" where
  "digits_value base acc [] = acc"
| "digits_value base acc (c # cs) =
     (case digit_of base c of None \<Rightarrow> acc | Some d \<Rightarrow> digits_value base (acc * base + d) cs)"

definition split_sign :: "u8 list \<Rightarrow> bool \<times> u8 list" where
  "split_sign s = (case s of [] \<Rightarrow> (False, []) | c # cs \<Rightarrow>
     if c = 45 then (True, cs) else if c = 43 then (False, cs) else (False, s))"

text \<open>\<^verbatim>\<open>strtol(s, NULL, 10)\<close> and \<^verbatim>\<open>strtoul(s, NULL, 16)\<close> for a 64 bit \<^verbatim>\<open>long\<close>.\<close>

definition strtol10 :: "u8 list \<Rightarrow> int" where
  "strtol10 s =
     (let (neg, t) = split_sign (dropWhile is_space s); v = int (digits_value 10 0 t)
      in if neg then max (- v) (- (2 ^ 63)) else min v (2 ^ 63 - 1))"

definition strtoul16 :: "u8 list \<Rightarrow> u64" where
  "strtoul16 s =
     (let (neg, t) = split_sign (dropWhile is_space s);
          t' = (case t of a # b # r \<Rightarrow> if a = 48 \<and> (b = 120 \<or> b = 88) then r else t | _ \<Rightarrow> t);
          n = digits_value 16 0 t'; w = (if n < 2 ^ 64 then of_nat n else -1)
      in if neg \<and> n < 2 ^ 64 then - w else w)"

text \<open>The decimal digits that \<^verbatim>\<open>%d\<close> prints.\<close>

fun show_nat :: "nat \<Rightarrow> u8 list" where
  "show_nat n = (if n < 10 then [of_nat (48 + n)] else show_nat (n div 10) @ [of_nat (48 + n mod 10)])"

declare show_nat.simps [simp del]

definition show_int :: "int \<Rightarrow> u8 list" where
  "show_int i = (if i < 0 then 45 # show_nat (nat (- i)) else show_nat (nat i))"

text \<open>\<^verbatim>\<open>sscanf\<close>: \<^verbatim>\<open>%s\<close> and \<^verbatim>\<open>%d\<close> after skipping white space; \<open>None\<close> when the item does not match.\<close>

definition scan_word :: "u8 list \<Rightarrow> (u8 list \<times> u8 list) option" where
  "scan_word s =
     (let t = dropWhile is_space s in
      if t = [] then None else Some (takeWhile (\<lambda>c. \<not> is_space c) t, dropWhile (\<lambda>c. \<not> is_space c) t))"

definition scan_int :: "u8 list \<Rightarrow> (int \<times> u8 list) option" where
  "scan_int s =
     (let t = dropWhile is_space s; (neg, u) = split_sign t in
      case u of [] \<Rightarrow> None
      | c # cs \<Rightarrow> if digit_of 10 c = None then None
                  else Some (wrap32 (strtol10 t), dropWhile (\<lambda>c. digit_of 10 c \<noteq> None) u))"

section \<open>Printing and reading numbers\<close>

lemma digit_of_show: "d < 10 \<Longrightarrow> digit_of 10 (of_nat (48 + d)) = Some d"
proof -
  assume d: "d < 10"
  then have u: "unat (of_nat (48 + d) :: u8) = 48 + d" by (simp add: unat_of_nat del: of_nat_add)
  then have "48 \<le> (of_nat (48 + d) :: u8)" "(of_nat (48 + d) :: u8) \<le> 57"
    using d by (simp_all add: word_le_nat_alt del: of_nat_add)
  then show ?thesis using d u by (simp add: digit_of_def del: of_nat_add)
qed

lemma digits_value_append:
  "\<forall>c\<in>set xs. digit_of base c \<noteq> None \<Longrightarrow>
    digits_value base acc (xs @ ys) = digits_value base (digits_value base acc xs) ys"
  by (induction xs arbitrary: acc) (auto split: option.splits)

lemma show_nat_digits: "\<forall>c\<in>set (show_nat n). digit_of 10 c \<noteq> None"
  by (induction n rule: show_nat.induct) (subst show_nat.simps, auto simp del: of_nat_add simp: digit_of_show)

lemma digits_value_show: "digits_value 10 0 (show_nat n) = n"
proof (induction n rule: show_nat.induct)
  case (1 n)
  show ?case
  proof (cases "n < 10")
    case True
    then show ?thesis by (subst show_nat.simps) (simp add: digit_of_show del: of_nat_add)
  next
    case False
    then show ?thesis using 1 show_nat_digits
      by (subst show_nat.simps) (simp add: digits_value_append digit_of_show del: of_nat_add)
  qed
qed

end
