(* ===== verification/Engine.thy ===== *)
theory Engine
  imports Prelude
begin

text \<open>
  What the services and libraries share of the engine's interface: the message types of \<^verbatim>\<open>skynet.h\<close>
  and the socket events of \<^verbatim>\<open>skynet_socket.h\<close>.
\<close>

definition PTYPE_TEXT :: int where "PTYPE_TEXT = 0"
definition PTYPE_CLIENT :: int where "PTYPE_CLIENT = 3"
definition PTYPE_SOCKET :: int where "PTYPE_SOCKET = 6"
definition PTYPE_TAG_DONTCOPY :: int where "PTYPE_TAG_DONTCOPY = 65536"

definition SOCKET_TYPE_DATA :: int where "SOCKET_TYPE_DATA = 1"
definition SOCKET_TYPE_CONNECT :: int where "SOCKET_TYPE_CONNECT = 2"
definition SOCKET_TYPE_CLOSE :: int where "SOCKET_TYPE_CLOSE = 3"
definition SOCKET_TYPE_ACCEPT :: int where "SOCKET_TYPE_ACCEPT = 4"
definition SOCKET_TYPE_ERROR :: int where "SOCKET_TYPE_ERROR = 5"
definition SOCKET_TYPE_WARNING :: int where "SOCKET_TYPE_WARNING = 7"

text \<open>A socket message: \<open>sm_buffer\<close> is what the buffer pointer refers to, \<open>sm_tail\<close> the bytes behind the struct.\<close>

record skynet_socket_message =
  sm_type :: int
  sm_id :: int
  sm_ud :: int
  sm_buffer :: "u8 list"
  sm_tail :: "u8 list"

end
