(* ===== verification/Server.thy ===== *)
theory Server
  imports MessageQueue Handle Timer CString Engine Module
begin

text \<open>
  Model of \<^verbatim>\<open>skynet-src/skynet_server.c\<close>, first part: the contexts of the services with their reference
  counts, the sending of messages, and the small files that belong to it: \<^verbatim>\<open>skynet_harbor.c\<close> (routing to
  other nodes), \<^verbatim>\<open>skynet_error.c\<close> (the log service), \<^verbatim>\<open>skynet_env.c\<close> (the environment) and
  \<^verbatim>\<open>skynet_monitor.c\<close> (the watch over endless loops). Theory Command adds the commands of the services,
  their creation and the dispatch loop.

  The record \<open>server\<close> holds what the C code keeps in static variables and on the heap: the node, the
  handle table, the contexts, the message queues, the timer, the modules, the environment, and the
  blocks of memory that messages point to. Contexts and queues are numbered in the order of their
  allocation and the numbers are not reused, so that a dangling pointer is seen as such. A block that
  is freed is recorded in \<open>freed\<close>. What leaves the engine (the functions of a module, log files) is
  recorded in \<open>trace\<close>.
\<close>

section \<open>The programs of services\<close>

text \<open>
  A service is code of a module: an init function, and a callback for the messages. It acts on the
  engine by calls of the API, one after the other, and may make each call depend on the results of the
  calls before. Such a run is a tree: \<open>Return\<close> ends it with the function's result (nonzero or zero), the
  other nodes are calls with the continuation of their result. In \<open>Send\<close> and \<open>Sendname\<close> the list of bytes
  is what the data pointer points to at the time of the call.
\<close>

datatype prog =
    Return bool
  | Send u32 u32 int "32 word" ptr "u8 list" u64 "32 word \<Rightarrow> prog"
  | Sendname u32 string int "32 word" ptr "u8 list" u64 "32 word \<Rightarrow> prog"
  | Cmd string "string option" "string option \<Rightarrow> prog"
  | Queryname string "u32 \<Rightarrow> prog"
  | Callback "(int \<Rightarrow> 32 word \<Rightarrow> u32 \<Rightarrow> ptr \<Rightarrow> u64 \<Rightarrow> prog) option" prog
  | Error string prog

type_synonym skynet_cb = "int \<Rightarrow> 32 word \<Rightarrow> u32 \<Rightarrow> ptr \<Rightarrow> u64 \<Rightarrow> prog"

section \<open>State\<close>

record skynet_context =
  inst :: ptr
  ctx_mod :: nat
  cb :: "skynet_cb option"
  ctx_queue :: mqid
  logfile :: bool
  cpu_cost :: u64
  cpu_start :: u64
  result :: string
  ctx_handle :: u32
  session_id :: "32 word"
  ref :: int
  message_count :: "32 word"
  ctx_init :: bool
  endless :: bool
  ctx_profile :: bool

text \<open>The header of a message to another node: the name or the handle of the receiver, and the message.\<close>

definition GLOBALNAME_LENGTH :: nat where "GLOBALNAME_LENGTH = 16"

record remote_name =
  rn_name :: string
  rn_handle :: u32

record remote_message =
  destination :: remote_name
  rmessage :: ptr
  rm_sz :: u64

datatype event =
    Instance_release nat ptr
  | Instance_signal nat ptr int
  | Log_open string
  | Log_close u32
  | Log_output u32 u32 int "32 word" ptr u64

record server =
  total :: int
  node_init :: bool
  monitor_exit :: u32
  node_profile :: bool
  handle_key :: u32
  H :: handle_storage
  ctxs :: "ctx \<rightharpoonup> skynet_context"
  next_ctx :: ctx
  Q :: mq_world
  next_mq :: mqid
  TI :: timer
  M :: modules
  env :: "string \<rightharpoonup> string"
  HARBOR :: u32
  REMOTE :: "ctx option"
  logger :: u32
  blocks :: "ptr \<rightharpoonup> u8 list"
  rmsgs :: "ptr \<rightharpoonup> remote_message"
  brk :: nat
  freed :: "ptr list"
  clock_reads :: nat
  trace :: "event list"

definition set_ctx :: "ctx \<Rightarrow> skynet_context \<Rightarrow> server \<Rightarrow> server" where
  "set_ctx c x s = s\<lparr>ctxs := (ctxs s)(c \<mapsto> x)\<rparr>"

text \<open>
  \<open>skynet_malloc\<close> hands out addresses in sequence; \<open>skynet_free\<close> of \<^verbatim>\<open>NULL\<close> does nothing. A free takes the block away and is recorded in \<open>freed\<close>;
  a second free of a block is a second entry there, and not a fault.
\<close>

definition skynet_malloc :: "server \<Rightarrow> u8 list \<Rightarrow> server \<times> ptr" where
  "skynet_malloc s bs = (s\<lparr>blocks := (blocks s)(of_nat (brk s) \<mapsto> bs), brk := brk s + 1\<rparr>, of_nat (brk s))"

definition skynet_free :: "server \<Rightarrow> ptr \<Rightarrow> server" where
  "skynet_free s p = (if p = 0 then s else s\<lparr>blocks := (blocks s)(p := None), freed := freed s @ [p]\<rparr>)"

definition emit :: "event \<Rightarrow> server \<Rightarrow> server" where
  "emit e s = s\<lparr>trace := trace s @ [e]\<rparr>"

section \<open>Text\<close>

definition bytes_text :: "u8 list \<Rightarrow> string" where
  "bytes_text bs = map (\<lambda>b. char_of (unat b)) bs"

definition hex_digit :: "nat \<Rightarrow> u8" where
  "hex_digit d = of_nat (if d < 10 then 48 + d else 87 + d)"

fun show_hex :: "nat \<Rightarrow> u8 list" where
  "show_hex n = (if n < 16 then [hex_digit n] else show_hex (n div 16) @ [hex_digit (n mod 16)])"

declare show_hex.simps [simp del]

definition hex_text :: "u32 \<Rightarrow> string" where
  "hex_text h = bytes_text (show_hex (unat h))"

definition hex8_text :: "u32 \<Rightarrow> string" where
  "hex8_text h = (let t = hex_text h in replicate (8 - length t) (CHR ''0'') @ t)"

definition dec_text :: "int \<Rightarrow> string" where
  "dec_text i = bytes_text (show_int i)"

text \<open>\<open>id_to_hex\<close> writes a colon and eight digits.\<close>

definition id_to_hex :: "u32 \<Rightarrow> string" where
  "id_to_hex h = CHR '':'' # map (\<lambda>i. ''0123456789ABCDEF'' ! unat (drop_bit ((7 - i) * 4) h AND 0xf)) [0..<8]"

definition copy_name :: "string \<Rightarrow> string" where
  "copy_name addr = (let t = take GLOBALNAME_LENGTH addr in t @ replicate (GLOBALNAME_LENGTH - length t) (CHR 0x00))"

section \<open>References\<close>

text \<open>The handles in the contexts, and the dereference of the contexts in some slots of the table.\<close>

definition handle_field :: "server \<Rightarrow> ctx \<Rightarrow> u32" where
  "handle_field s c = (case ctxs s c of None \<Rightarrow> 0 | Some x \<Rightarrow> ctx_handle x)"

definition touch :: "server \<Rightarrow> ctx option list \<Rightarrow> unit res" where
  "touch s cells =
     (if list_all (\<lambda>r. case r of None \<Rightarrow> True | Some c \<Rightarrow> ctxs s c \<noteq> None) cells then Inr () else Inl Bad_pointer)"

definition skynet_context_grab :: "server \<Rightarrow> ctx \<Rightarrow> server res" where
  "skynet_context_grab s c = andThen (deref (ctxs s) c) (\<lambda>x. Inr (set_ctx c (x\<lparr>ref := ref x + 1\<rparr>) s))"

definition handle_grab :: "server \<Rightarrow> u32 \<Rightarrow> (server \<times> ctx option) res" where
  "handle_grab s h =
     andThen (touch s [slot (H s) ! hash_of (slot_size (H s)) h]) (\<lambda>_.
     case skynet_handle_grab (handle_field s) (H s) h of
       None \<Rightarrow> Inr (s, None)
     | Some c \<Rightarrow> andThen (skynet_context_grab s c) (\<lambda>s'. Inr (s', Some c)))"

definition skynet_context_reserve :: "server \<Rightarrow> ctx \<Rightarrow> server res" where
  "skynet_context_reserve s c = andThen (skynet_context_grab s c) (\<lambda>s'. Inr (s'\<lparr>total := total s' - 1\<rparr>))"

definition skynet_module_instance_release :: "server \<Rightarrow> skynet_context \<Rightarrow> server res" where
  "skynet_module_instance_release s x =
     andThen (read_cell (mod_m (M s)) (ctx_mod x)) (\<lambda>md.
       Inr (if mod_release md \<noteq> None then emit (Instance_release (ctx_mod x) (inst x)) s else s))"

definition delete_context :: "server \<Rightarrow> ctx \<Rightarrow> server res" where
  "delete_context s c =
     andThen (deref (ctxs s) c) (\<lambda>x.
     let s1 = (if logfile x then emit (Log_close (ctx_handle x)) s else s) in
     andThen (skynet_module_instance_release s1 x) (\<lambda>s2.
     andThen (skynet_mq_mark_release (Q s2) (ctx_queue x)) (\<lambda>w.
       Inr (s2\<lparr>Q := w, ctxs := (ctxs s2)(c := None), total := total s2 - 1\<rparr>))))"

text \<open>The result is the context, or \<^verbatim>\<open>NULL\<close> when the last reference is gone.\<close>

definition skynet_context_release :: "server \<Rightarrow> ctx \<Rightarrow> (server \<times> ctx option) res" where
  "skynet_context_release s c =
     andThen (deref (ctxs s) c) (\<lambda>x.
     let s' = set_ctx c (x\<lparr>ref := ref x - 1\<rparr>) s in
     if ref x - 1 = 0 then andThen (delete_context s' c) (\<lambda>s''. Inr (s'', None))
     else Inr (s', Some c))"

text \<open>\<open>skynet_handle_retire\<close> with the release of the context that the table referred to.\<close>

definition handle_retire :: "server \<Rightarrow> u32 \<Rightarrow> (server \<times> bool) res" where
  "handle_retire s h =
     andThen (touch s [slot (H s) ! hash_of (slot_size (H s)) h]) (\<lambda>_.
     andThen (handle_retire_locked (handle_field s) (H s) h) (\<lambda>(hs, r).
     let s' = s\<lparr>H := hs\<rparr> in
     case r of
       None \<Rightarrow> Inr (s', False)
     | Some c \<Rightarrow> andThen (skynet_context_release s' c) (\<lambda>(s'', _). Inr (s'', True))))"

text \<open>
  One pass of \<open>skynet_handle_retireall\<close> over the slots counts the handles it retired; passes are
  repeated until nothing is retired. Each pass that goes on has removed a context from the table, so
  one pass more than there are slots is enough.
\<close>

fun retire_slots :: "nat list \<Rightarrow> server \<Rightarrow> (server \<times> nat) res" where
  "retire_slots [] s = Inr (s, 0)"
| "retire_slots (i # is) s =
     andThen (touch s [slot (H s) ! i]) (\<lambda>_.
     let h = (case slot (H s) ! i of None \<Rightarrow> 0 | Some c \<Rightarrow> handle_field s c) in
     if h \<noteq> 0 then
       andThen (handle_retire s h) (\<lambda>(s', r).
       andThen (retire_slots is s') (\<lambda>(s'', n). Inr (s'', if r then n + 1 else n)))
     else retire_slots is s)"

fun retire_passes :: "nat \<Rightarrow> server \<Rightarrow> server res" where
  "retire_passes 0 s = Inl Out_of_fuel"
| "retire_passes (Suc k) s =
     andThen (retire_slots [0..<slot_size (H s)] s) (\<lambda>(s', n). if n = 0 then Inr s' else retire_passes k s')"

definition handle_retireall :: "server \<Rightarrow> server res" where
  "handle_retireall s = retire_passes (Suc (slot_size (H s))) s"

section \<open>Messages\<close>

text \<open>True when the message is in the queue of the receiver, False (\<open>-1\<close>) when there is no receiver.\<close>

definition skynet_context_push :: "server \<Rightarrow> u32 \<Rightarrow> skynet_message \<Rightarrow> (server \<times> bool) res" where
  "skynet_context_push s h m =
     andThen (handle_grab s h) (\<lambda>(s1, r).
     case r of
       None \<Rightarrow> Inr (s1, False)
     | Some c \<Rightarrow>
         andThen (deref (ctxs s1) c) (\<lambda>x.
         andThen (skynet_mq_push (Q s1) (ctx_queue x) m) (\<lambda>w.
         andThen (skynet_context_release (s1\<lparr>Q := w\<rparr>) c) (\<lambda>(s2, _). Inr (s2, True)))))"

definition skynet_context_send :: "server \<Rightarrow> ctx \<Rightarrow> ptr \<Rightarrow> u64 \<Rightarrow> u32 \<Rightarrow> int \<Rightarrow> 32 word \<Rightarrow> server res" where
  "skynet_context_send s c msg z src type sess =
     andThen (deref (ctxs s) c) (\<lambda>x.
     andThen (skynet_mq_push (Q s) (ctx_queue x)
        \<lparr>source = src, session = sess, data = msg, sz = z OR push_bit MESSAGE_TYPE_SHIFT (word_of_int type)\<rparr>) (\<lambda>w.
       Inr (s\<lparr>Q := w\<rparr>)))"

text \<open>
  \<open>skynet_error\<close> with the formatted text: it goes to the service named \<open>logger\<close>, whose handle is
  looked up once. The result of the push is ignored.
\<close>

definition skynet_error :: "server \<Rightarrow> ctx option \<Rightarrow> string \<Rightarrow> server res" where
  "skynet_error s context msg =
     andThen (if logger s = 0 then skynet_handle_findname (H s) ''logger'' else Inr (logger s)) (\<lambda>lg.
     let s = s\<lparr>logger := lg\<rparr> in
     if lg = 0 then Inr s
     else
       let (s, p) = skynet_malloc s (text_bytes msg @ [0]) in
       andThen (case context of None \<Rightarrow> Inr 0 | Some c \<Rightarrow> andThen (deref (ctxs s) c) (\<lambda>x. Inr (ctx_handle x))) (\<lambda>src.
       andThen (skynet_context_push s lg
         \<lparr>source = src, session = 0, data = p,
          sz = of_nat (length msg) OR push_bit MESSAGE_TYPE_SHIFT (word_of_int PTYPE_TEXT)\<rparr>) (\<lambda>(s', _). Inr s')))"

text \<open>A new session number is always positive.\<close>

definition skynet_context_newsession :: "server \<Rightarrow> ctx \<Rightarrow> (server \<times> 32 word) res" where
  "skynet_context_newsession s c =
     andThen (deref (ctxs s) c) (\<lambda>x.
     let sess = session_id x + 1 in
     if sint sess \<le> 0 then Inr (set_ctx c (x\<lparr>session_id := 1\<rparr>) s, 1)
     else Inr (set_ctx c (x\<lparr>session_id := sess\<rparr>) s, sess))"

subsection \<open>Other nodes\<close>

definition PTYPE_SYSTEM :: int where "PTYPE_SYSTEM = 4"
definition PTYPE_HARBOR :: int where "PTYPE_HARBOR = 5"
definition PTYPE_ERROR :: int where "PTYPE_ERROR = 7"
definition PTYPE_TAG_ALLOCSESSION :: int where "PTYPE_TAG_ALLOCSESSION = 0x20000"

definition skynet_harbor_init :: "server \<Rightarrow> u32 \<Rightarrow> server" where
  "skynet_harbor_init s hb = s\<lparr>HARBOR := push_bit HANDLE_REMOTE_SHIFT hb\<rparr>"

definition skynet_harbor_start :: "server \<Rightarrow> ctx \<Rightarrow> server res" where
  "skynet_harbor_start s c = andThen (skynet_context_reserve s c) (\<lambda>s'. Inr (s'\<lparr>REMOTE := Some c\<rparr>))"

definition skynet_harbor_exit :: "server \<Rightarrow> server res" where
  "skynet_harbor_exit s =
     (case REMOTE s of
        None \<Rightarrow> Inr (s\<lparr>REMOTE := None\<rparr>)
      | Some c \<Rightarrow> andThen (skynet_context_release (s\<lparr>REMOTE := None\<rparr>) c) (\<lambda>(s', _). Inr s'))"

definition skynet_harbor_message_isremote :: "server \<Rightarrow> u32 \<Rightarrow> bool res" where
  "skynet_harbor_message_isremote s h =
     andThen (assert_that (HARBOR s \<noteq> -1)) (\<lambda>_.
     let hb = h AND NOT HANDLE_MASK in Inr (hb \<noteq> HARBOR s \<and> hb \<noteq> 0))"

text \<open>The size of \<^verbatim>\<open>struct remote_message\<close>: 16 characters, a handle and padding, a pointer and a size.\<close>

definition SIZEOF_REMOTE_MESSAGE :: u64 where "SIZEOF_REMOTE_MESSAGE = 40"

definition skynet_harbor_send :: "server \<Rightarrow> ptr \<Rightarrow> u32 \<Rightarrow> 32 word \<Rightarrow> server res" where
  "skynet_harbor_send s rp src sess =
     andThen (deref (rmsgs s) rp) (\<lambda>rmsg.
     let type = uint (drop_bit MESSAGE_TYPE_SHIFT (rm_sz rmsg));
         s' = s\<lparr>rmsgs := (rmsgs s)(rp \<mapsto> rmsg\<lparr>rm_sz := rm_sz rmsg AND MESSAGE_TYPE_MASK\<rparr>)\<rparr> in
     case REMOTE s of
       None \<Rightarrow> Inl Assert_failed
     | Some c \<Rightarrow>
         andThen (assert_that (type \<noteq> PTYPE_SYSTEM \<and> type \<noteq> PTYPE_HARBOR)) (\<lambda>_.
           skynet_context_send s' c rp SIZEOF_REMOTE_MESSAGE src type sess))"

definition new_remote_message :: "server \<Rightarrow> remote_message \<Rightarrow> server \<times> ptr" where
  "new_remote_message s rmsg =
     (s\<lparr>rmsgs := (rmsgs s)(of_nat (brk s) \<mapsto> rmsg), brk := brk s + 1\<rparr>, of_nat (brk s))"

subsection \<open>Sending\<close>

text \<open>
  \<open>_filter_args\<close>: a session is allocated if the type asks for it, the data are copied unless the type
  says not to, and the type goes into the top byte of the size. \<open>bs\<close> are the bytes at \<open>dat\<close>.
\<close>

definition filter_args ::
  "server \<Rightarrow> ctx option \<Rightarrow> int \<Rightarrow> 32 word \<Rightarrow> ptr \<Rightarrow> u8 list \<Rightarrow> u64 \<Rightarrow> (server \<times> 32 word \<times> ptr \<times> u64) res" where
  "filter_args s context type sess dat bs z =
     (let needcopy = (type AND PTYPE_TAG_DONTCOPY = 0); allocsession = (type AND PTYPE_TAG_ALLOCSESSION \<noteq> 0);
          ty = type AND 0xff in
      andThen
        (if allocsession then
           andThen (assert_that (sess = 0)) (\<lambda>_.
             case context of None \<Rightarrow> Inl Bad_pointer | Some c \<Rightarrow> skynet_context_newsession s c)
         else Inr (s, sess)) (\<lambda>(s, sess).
      let (s, dat) = (if needcopy \<and> dat \<noteq> 0 then skynet_malloc s (take (unat z) bs @ [0]) else (s, dat))
      in Inr (s, sess, dat, z OR push_bit MESSAGE_TYPE_SHIFT (word_of_int ty))))"

definition skynet_send ::
  "server \<Rightarrow> ctx option \<Rightarrow> u32 \<Rightarrow> u32 \<Rightarrow> int \<Rightarrow> 32 word \<Rightarrow> ptr \<Rightarrow> u8 list \<Rightarrow> u64 \<Rightarrow> (server \<times> 32 word) res" where
  "skynet_send s context src dest type sess dat bs z =
     (if z AND MESSAGE_TYPE_MASK \<noteq> z then
        andThen (skynet_error s context (''The message to '' @ hex_text dest @ '' is too large'')) (\<lambda>s.
          Inr (if type AND PTYPE_TAG_DONTCOPY \<noteq> 0 then skynet_free s dat else s, -1))
      else
        andThen (filter_args s context type sess dat bs z) (\<lambda>(s, sess, dat, z).
        andThen (if src = 0 then
                   (case context of None \<Rightarrow> Inl Bad_pointer
                    | Some c \<Rightarrow> andThen (deref (ctxs s) c) (\<lambda>x. Inr (ctx_handle x)))
                 else Inr src) (\<lambda>src.
        if dest = 0 then Inr (s, sess)
        else
          andThen (skynet_harbor_message_isremote s dest) (\<lambda>remote.
          if remote then
            let (s, rp) = new_remote_message s
                  \<lparr>destination = \<lparr>rn_name = [], rn_handle = dest\<rparr>, rmessage = dat, rm_sz = z\<rparr> in
            andThen (skynet_harbor_send s rp src sess) (\<lambda>s. Inr (s, sess))
          else
            andThen (skynet_context_push s dest \<lparr>source = src, session = sess, data = dat, sz = z\<rparr>) (\<lambda>(s, ok).
              if ok then Inr (s, sess) else Inr (skynet_free s dat, -1))))))"

definition skynet_sendname ::
  "server \<Rightarrow> ctx \<Rightarrow> u32 \<Rightarrow> string \<Rightarrow> int \<Rightarrow> 32 word \<Rightarrow> ptr \<Rightarrow> u8 list \<Rightarrow> u64 \<Rightarrow> (server \<times> 32 word) res" where
  "skynet_sendname s context src addr type sess dat bs z =
     andThen (if src = 0 then andThen (deref (ctxs s) context) (\<lambda>x. Inr (ctx_handle x)) else Inr src) (\<lambda>src.
     if addr \<noteq> [] \<and> hd addr = CHR '':'' then
       skynet_send s (Some context) src (ucast (strtoul16 (text_bytes (tl addr)))) type sess dat bs z
     else if addr \<noteq> [] \<and> hd addr = CHR ''.'' then
       andThen (skynet_handle_findname (H s) (tl addr)) (\<lambda>des.
         if des = 0 then Inr (if type AND PTYPE_TAG_DONTCOPY \<noteq> 0 then skynet_free s dat else s, -1)
         else skynet_send s (Some context) src des type sess dat bs z)
     else
       andThen (filter_args s (Some context) type sess dat bs z) (\<lambda>(s, sess, dat, z).
       let (s, rp) = new_remote_message s
             \<lparr>destination = \<lparr>rn_name = copy_name addr, rn_handle = 0\<rparr>, rmessage = dat, rm_sz = z\<rparr> in
       andThen (skynet_harbor_send s rp src sess) (\<lambda>s. Inr (s, sess))))"

subsection \<open>Dropping a queue\<close>

text \<open>The messages of a dead service are freed and their senders are told.\<close>

definition drop_message :: "server \<Rightarrow> skynet_message \<Rightarrow> u32 \<Rightarrow> server res" where
  "drop_message s m h =
     (let s = skynet_free s (data m) in
      andThen (assert_that (h \<noteq> 0)) (\<lambda>_.
      andThen (skynet_send s None h (source m) PTYPE_ERROR 0 0 [] 0) (\<lambda>(s, _). Inr s)))"

text \<open>The loop of \<open>_drop_queue\<close>; the bound is the number of messages, which only shrinks.\<close>

fun drop_messages :: "nat \<Rightarrow> server \<Rightarrow> mqid \<Rightarrow> u32 \<Rightarrow> server res" where
  "drop_messages 0 s a h = Inl Out_of_fuel"
| "drop_messages (Suc k) s a h =
     andThen (world_pop (Q s) a) (\<lambda>(w, r).
     let s = s\<lparr>Q := w\<rparr> in
     case r of None \<Rightarrow> Inr s | Some m \<Rightarrow> andThen (drop_message s m h) (\<lambda>s. drop_messages k s a h))"

definition release_queue :: "server \<Rightarrow> mqid \<Rightarrow> u32 \<Rightarrow> server res" where
  "release_queue s a h =
     andThen (deref (mqs (Q s)) a) (\<lambda>q.
     if release q \<noteq> 0 then
       andThen (drop_messages (Suc (skynet_mq_length q)) s a h) (\<lambda>s.
       andThen (mq_free (Q s) a) (\<lambda>w. Inr (s\<lparr>Q := w\<rparr>)))
     else andThen (skynet_globalmq_push (Q s) a) (\<lambda>w. Inr (s\<lparr>Q := w\<rparr>)))"

section \<open>Environment and monitor\<close>

definition skynet_getenv :: "server \<Rightarrow> string \<Rightarrow> string option" where
  "skynet_getenv s key = env s key"

definition skynet_setenv :: "server \<Rightarrow> string \<Rightarrow> string \<Rightarrow> server res" where
  "skynet_setenv s key val = andThen (assert_that (env s key = None)) (\<lambda>_. Inr (s\<lparr>env := (env s)(key \<mapsto> val)\<rparr>))"

record skynet_monitor =
  version :: "32 word"
  check_version :: "32 word"
  mon_source :: u32
  mon_destination :: u32

definition skynet_monitor_new :: skynet_monitor where
  "skynet_monitor_new = \<lparr>version = 0, check_version = 0, mon_source = 0, mon_destination = 0\<rparr>"

definition skynet_monitor_trigger :: "skynet_monitor \<Rightarrow> u32 \<Rightarrow> u32 \<Rightarrow> skynet_monitor" where
  "skynet_monitor_trigger sm src dest = sm\<lparr>mon_source := src, mon_destination := dest, version := version sm + 1\<rparr>"

definition skynet_context_endless :: "server \<Rightarrow> u32 \<Rightarrow> server res" where
  "skynet_context_endless s h =
     andThen (handle_grab s h) (\<lambda>(s, r).
     case r of
       None \<Rightarrow> Inr s
     | Some c \<Rightarrow>
         andThen (deref (ctxs s) c) (\<lambda>x.
         andThen (skynet_context_release (set_ctx c (x\<lparr>endless := True\<rparr>) s) c) (\<lambda>(s, _). Inr s)))"

definition skynet_monitor_check :: "server \<Rightarrow> skynet_monitor \<Rightarrow> (server \<times> skynet_monitor) res" where
  "skynet_monitor_check s sm =
     (if version sm = check_version sm then
        if mon_destination sm \<noteq> 0 then
          andThen (skynet_context_endless s (mon_destination sm)) (\<lambda>s.
          andThen (skynet_error s None (''A message from [ :'' @ hex8_text (mon_source sm) @ '' ] to [ :'' @
              hex8_text (mon_destination sm) @ '' ] maybe in an endless loop (version = '' @
              dec_text (sint (version sm)) @ '')'')) (\<lambda>s. Inr (s, sm)))
        else Inr (s, sm)
      else Inr (s, sm\<lparr>check_version := version sm\<rparr>))"

end
