(* ===== verification/Command.thy ===== *)
theory Command
  imports Server
begin

text \<open>
  Model of \<^verbatim>\<open>skynet-src/skynet_server.c\<close>, second part: the text commands of services (\<open>skynet_command\<close>),
  the creation of a service, the run of its programs, and the dispatch of messages by a worker; with
  the log files of \<^verbatim>\<open>skynet_log.c\<close> that the commands open and close.

  The functions of the operating system and of the modules are the fields of a record \<open>platform\<close>:
  the dynamic loader, the create function of a module (0 is \<^verbatim>\<open>NULL\<close>), the program of its init function,
  the readings of the thread clock, whether a file can be opened, and the text of a number of
  microseconds printed as seconds. A parameter that is \<^verbatim>\<open>NULL\<close> where the command dereferences it is
  \<open>Null_parameter\<close>; a text with fewer words than \<^verbatim>\<open>sscanf\<close> is asked for, so that the command reads an array that was not set, is \<open>Missing_word\<close>.
\<close>

record platform =
  dlopen :: "string \<Rightarrow> nat option"
  dlsym :: "nat \<Rightarrow> string \<Rightarrow> nat option"
  create_fun :: "nat \<Rightarrow> nat \<Rightarrow> ptr"
  init_fun :: "nat \<Rightarrow> ptr \<Rightarrow> string option \<Rightarrow> prog"
  thread_time :: "nat \<Rightarrow> u64"
  fopen :: "string \<Rightarrow> bool"
  show_seconds :: "u64 \<Rightarrow> string"

declare skynet_handle_register.simps [code]

section \<open>Commands\<close>

definition need :: "'a option \<Rightarrow> ('a \<Rightarrow> 'b res) \<Rightarrow> 'b res" where
  "need param f = (case param of None \<Rightarrow> Inl Null_parameter | Some p \<Rightarrow> f p)"

definition need_word :: "'a option \<Rightarrow> ('a \<Rightarrow> 'b res) \<Rightarrow> 'b res" where
  "need_word w f = (case w of None \<Rightarrow> Inl Missing_word | Some p \<Rightarrow> f p)"

text \<open>A command writes its answer into the context and returns it.\<close>

definition set_result :: "server \<Rightarrow> ctx \<Rightarrow> string \<Rightarrow> (server \<times> string option) res" where
  "set_result s c t = andThen (deref (ctxs s) c) (\<lambda>x. Inr (set_ctx c (x\<lparr>result := t\<rparr>) s, Some t))"

definition strtoul_handle :: "string \<Rightarrow> u32" where
  "strtoul_handle t = ucast (strtoul16 (text_bytes t))"

definition skynet_queryname :: "server \<Rightarrow> ctx \<Rightarrow> string \<Rightarrow> (server \<times> u32) res" where
  "skynet_queryname s c nm =
     (if nm \<noteq> [] \<and> hd nm = CHR '':'' then Inr (s, strtoul_handle (tl nm))
      else if nm \<noteq> [] \<and> hd nm = CHR ''.'' then andThen (skynet_handle_findname (H s) (tl nm)) (\<lambda>h. Inr (s, h))
      else andThen (skynet_error s (Some c) (''Don't support query global name '' @ nm)) (\<lambda>s. Inr (s, 0)))"

definition handle_exit :: "server \<Rightarrow> ctx \<Rightarrow> u32 \<Rightarrow> server res" where
  "handle_exit s c h =
     andThen
       (if h = 0 then
          andThen (deref (ctxs s) c) (\<lambda>x.
          andThen (skynet_error s (Some c) ''KILL self'') (\<lambda>s. Inr (s, ctx_handle x)))
        else andThen (skynet_error s (Some c) (''KILL :'' @ hex_text h)) (\<lambda>s. Inr (s, h))) (\<lambda>(s, h).
     andThen
       (if monitor_exit s \<noteq> 0 then
          andThen (skynet_send s (Some c) h (monitor_exit s) PTYPE_CLIENT 0 0 [] 0) (\<lambda>(s, _). Inr s)
        else Inr s) (\<lambda>s.
     andThen (handle_retire s h) (\<lambda>(s, _). Inr s)))"

text \<open>\<open>skynet_timeout\<close>: a time that is not positive is answered at once by a message to the context.\<close>

fun push_all_to :: "(u32 \<times> skynet_message) list \<Rightarrow> server \<Rightarrow> server res" where
  "push_all_to [] s = Inr s"
| "push_all_to ((h, m) # ms) s = andThen (skynet_context_push s h m) (\<lambda>(s, _). push_all_to ms s)"

definition cmd_timeout :: "server \<Rightarrow> ctx \<Rightarrow> string option \<Rightarrow> (server \<times> string option) res" where
  "cmd_timeout s c param =
     need param (\<lambda>p.
     let ti = word_of_int (strtol10 (text_bytes p)) :: 32 word in
     andThen (skynet_context_newsession s c) (\<lambda>(s, sess).
     andThen (deref (ctxs s) c) (\<lambda>x.
     let (T', ms, r) = skynet_timeout (\<lambda>h. skynet_handle_grab (handle_field s) (H s) h \<noteq> None) (TI s) (ctx_handle x) ti sess in
     andThen (push_all_to ms (s\<lparr>TI := T'\<rparr>)) (\<lambda>s.
     set_result s c (dec_text (sint sess))))))"

definition cmd_reg :: "server \<Rightarrow> ctx \<Rightarrow> string option \<Rightarrow> (server \<times> string option) res" where
  "cmd_reg s c param =
     andThen (deref (ctxs s) c) (\<lambda>x.
     case param of
       None \<Rightarrow> set_result s c (CHR '':'' # hex_text (ctx_handle x))
     | Some p \<Rightarrow>
         if p = [] then set_result s c (CHR '':'' # hex_text (ctx_handle x))
         else if hd p = CHR ''.'' then
           andThen (skynet_handle_namehandle (H s) (ctx_handle x) (tl p)) (\<lambda>(hs, r). Inr (s\<lparr>H := hs\<rparr>, r))
         else andThen (skynet_error s (Some c) (''Can't register global name '' @ p @ '' in C'')) (\<lambda>s. Inr (s, None)))"

definition cmd_query :: "server \<Rightarrow> ctx \<Rightarrow> string option \<Rightarrow> (server \<times> string option) res" where
  "cmd_query s c param =
     need param (\<lambda>p.
     if p \<noteq> [] \<and> hd p = CHR ''.'' then
       andThen (skynet_handle_findname (H s) (tl p)) (\<lambda>h.
         if h \<noteq> 0 then set_result s c (CHR '':'' # hex_text h) else Inr (s, None))
     else Inr (s, None))"

text \<open>\<open>cmd_name\<close> does not look at the result of \<^verbatim>\<open>sscanf\<close>: when a word is missing it reads an array that was never set.\<close>

definition cmd_name :: "server \<Rightarrow> ctx \<Rightarrow> string option \<Rightarrow> (server \<times> string option) res" where
  "cmd_name s c param =
     need param (\<lambda>p.
     need_word (scan_word (text_bytes p)) (\<lambda>(w1, rest).
     need_word (scan_word rest) (\<lambda>(w2, _).
     let nm = bytes_text w1; hd2 = bytes_text w2 in
     if hd hd2 \<noteq> CHR '':'' then Inr (s, None)
     else
       let h = strtoul_handle (tl hd2) in
       if h = 0 then Inr (s, None)
       else if hd nm = CHR ''.'' then
         andThen (skynet_handle_namehandle (H s) h (tl nm)) (\<lambda>(hs, r). Inr (s\<lparr>H := hs\<rparr>, r))
       else andThen (skynet_error s (Some c) (''Can't set global name '' @ nm @ '' in C'')) (\<lambda>s. Inr (s, None)))))"

definition cmd_exit :: "server \<Rightarrow> ctx \<Rightarrow> string option \<Rightarrow> (server \<times> string option) res" where
  "cmd_exit s c param = andThen (handle_exit s c 0) (\<lambda>s. Inr (s, None))"

definition tohandle :: "server \<Rightarrow> ctx \<Rightarrow> string \<Rightarrow> (server \<times> u32) res" where
  "tohandle s c p =
     (if p \<noteq> [] \<and> hd p = CHR '':'' then Inr (s, strtoul_handle (tl p))
      else if p \<noteq> [] \<and> hd p = CHR ''.'' then andThen (skynet_handle_findname (H s) (tl p)) (\<lambda>h. Inr (s, h))
      else andThen (skynet_error s (Some c) (''Can't convert '' @ p @ '' to handle'')) (\<lambda>s. Inr (s, 0)))"

definition cmd_kill :: "server \<Rightarrow> ctx \<Rightarrow> string option \<Rightarrow> (server \<times> string option) res" where
  "cmd_kill s c param =
     need param (\<lambda>p.
     andThen (tohandle s c p) (\<lambda>(s, h).
     if h \<noteq> 0 then andThen (handle_exit s c h) (\<lambda>s. Inr (s, None)) else Inr (s, None)))"

type_synonym launcher = "server \<Rightarrow> string \<Rightarrow> string option \<Rightarrow> (server \<times> ctx option) res"

text \<open>\<^verbatim>\<open>strsep\<close>: the text before the first separator, and the rest behind it if there is one.\<close>

definition strsep :: "char set \<Rightarrow> string \<Rightarrow> string \<times> string option" where
  "strsep seps t =
     (case dropWhile (\<lambda>c. c \<notin> seps) t of
        [] \<Rightarrow> (t, None) | _ # r \<Rightarrow> (takeWhile (\<lambda>c. c \<notin> seps) t, Some r))"

definition cmd_launch :: "launcher \<Rightarrow> server \<Rightarrow> ctx \<Rightarrow> string option \<Rightarrow> (server \<times> string option) res" where
  "cmd_launch context_new s c param =
     need param (\<lambda>p.
     let (md, rest) = strsep {CHR '' '', CHR 0x09, CHR 0x0D, CHR 0x0A} p;
         args = map_option (\<lambda>r. fst (strsep {CHR 0x0D, CHR 0x0A} r)) rest in
     andThen (context_new s md args) (\<lambda>(s, i).
     case i of
       None \<Rightarrow> Inr (s, None)
     | Some d \<Rightarrow> andThen (deref (ctxs s) d) (\<lambda>x. set_result s c (id_to_hex (ctx_handle x)))))"

definition cmd_getenv :: "server \<Rightarrow> ctx \<Rightarrow> string option \<Rightarrow> (server \<times> string option) res" where
  "cmd_getenv s c param = need param (\<lambda>p. Inr (s, skynet_getenv s p))"

definition cmd_setenv :: "server \<Rightarrow> ctx \<Rightarrow> string option \<Rightarrow> (server \<times> string option) res" where
  "cmd_setenv s c param =
     need param (\<lambda>p.
     case dropWhile (\<lambda>ch. ch \<noteq> CHR '' '') p of
       [] \<Rightarrow> Inr (s, None)
     | _ # val \<Rightarrow> andThen (skynet_setenv s (takeWhile (\<lambda>ch. ch \<noteq> CHR '' '') p) val) (\<lambda>s. Inr (s, None)))"

definition cmd_starttime :: "server \<Rightarrow> ctx \<Rightarrow> string option \<Rightarrow> (server \<times> string option) res" where
  "cmd_starttime s c param = set_result s c (dec_text (uint (skynet_starttime (TI s))))"

definition cmd_abort :: "server \<Rightarrow> ctx \<Rightarrow> string option \<Rightarrow> (server \<times> string option) res" where
  "cmd_abort s c param = andThen (handle_retireall s) (\<lambda>s. Inr (s, None))"

definition cmd_monitor :: "server \<Rightarrow> ctx \<Rightarrow> string option \<Rightarrow> (server \<times> string option) res" where
  "cmd_monitor s c param =
     (if param = None \<or> param = Some [] then
        if monitor_exit s \<noteq> 0 then set_result s c (CHR '':'' # hex_text (monitor_exit s)) else Inr (s, None)
      else andThen (tohandle s c (the param)) (\<lambda>(s, h). Inr (s\<lparr>monitor_exit := h\<rparr>, None)))"

definition cmd_stat :: "platform \<Rightarrow> server \<Rightarrow> ctx \<Rightarrow> string option \<Rightarrow> (server \<times> string option) res" where
  "cmd_stat P s c param =
     need param (\<lambda>p.
     andThen (deref (ctxs s) c) (\<lambda>x.
     if p = ''mqlen'' then
       andThen (deref (mqs (Q s)) (ctx_queue x)) (\<lambda>q. set_result s c (dec_text (int (skynet_mq_length q))))
     else if p = ''endless'' then
       if endless x then set_result (set_ctx c (x\<lparr>endless := False\<rparr>) s) c ''1'' else set_result s c ''0''
     else if p = ''cpu'' then set_result s c (show_seconds P (cpu_cost x))
     else if p = ''time'' then
       if ctx_profile x then
         set_result (s\<lparr>clock_reads := clock_reads s + 1\<rparr>) c (show_seconds P (thread_time P (clock_reads s) - cpu_start x))
       else set_result s c ''0''
     else if p = ''message'' then set_result s c (dec_text (sint (message_count x)))
     else set_result s c []))"

definition skynet_log_open :: "platform \<Rightarrow> server \<Rightarrow> ctx \<Rightarrow> u32 \<Rightarrow> (server \<times> bool) res" where
  "skynet_log_open P s c h =
     (case skynet_getenv s ''logpath'' of
        None \<Rightarrow> Inr (s, False)
      | Some logpath \<Rightarrow>
          let file = logpath @ ''/'' @ hex8_text h @ ''.log'' in
          if fopen P file then
            andThen (skynet_error s (Some c) (''Open log file '' @ file)) (\<lambda>s. Inr (emit (Log_open file) s, True))
          else andThen (skynet_error s (Some c) (''Open log file '' @ file @ '' fail'')) (\<lambda>s. Inr (s, False)))"

definition skynet_log_close :: "server \<Rightarrow> ctx \<Rightarrow> u32 \<Rightarrow> server res" where
  "skynet_log_close s c h =
     andThen (skynet_error s (Some c) (''Close log file :'' @ hex8_text h)) (\<lambda>s. Inr (emit (Log_close h) s))"

text \<open>What the commands on another service share: its handle, a reference to it, the work, the release.\<close>

definition with_context ::
  "server \<Rightarrow> ctx \<Rightarrow> string \<Rightarrow> (server \<Rightarrow> u32 \<Rightarrow> ctx \<Rightarrow> server res) \<Rightarrow> (server \<times> string option) res" where
  "with_context s c p work =
     andThen (tohandle s c p) (\<lambda>(s, h).
     if h = 0 then Inr (s, None)
     else
       andThen (handle_grab s h) (\<lambda>(s, r).
       case r of
         None \<Rightarrow> Inr (s, None)
       | Some d \<Rightarrow>
           andThen (work s h d) (\<lambda>s.
           andThen (skynet_context_release s d) (\<lambda>(s, _). Inr (s, None)))))"

definition cmd_logon :: "platform \<Rightarrow> server \<Rightarrow> ctx \<Rightarrow> string option \<Rightarrow> (server \<times> string option) res" where
  "cmd_logon P s c param =
     need param (\<lambda>p. with_context s c p (\<lambda>s h d.
       andThen (deref (ctxs s) d) (\<lambda>x.
       if \<not> logfile x then
         andThen (skynet_log_open P s c h) (\<lambda>(s, f).
         if f then andThen (deref (ctxs s) d) (\<lambda>x. Inr (set_ctx d (x\<lparr>logfile := True\<rparr>) s)) else Inr s)
       else Inr s)))"

definition cmd_logoff :: "server \<Rightarrow> ctx \<Rightarrow> string option \<Rightarrow> (server \<times> string option) res" where
  "cmd_logoff s c param =
     need param (\<lambda>p. with_context s c p (\<lambda>s h d.
       andThen (deref (ctxs s) d) (\<lambda>x.
       if logfile x then skynet_log_close (set_ctx d (x\<lparr>logfile := False\<rparr>) s) c h else Inr s)))"

text \<open>\<^verbatim>\<open>strtol(s, NULL, 0)\<close>: the base is told by the prefix.\<close>

definition strtol0 :: "u8 list \<Rightarrow> int" where
  "strtol0 t =
     (let (neg, u) = split_sign (dropWhile is_space t);
          n = (case u of
                 a # b # r \<Rightarrow> if a = 48 \<and> (b = 120 \<or> b = 88) then digits_value 16 0 r
                              else if a = 48 then digits_value 8 0 (b # r) else digits_value 10 0 u
               | _ \<Rightarrow> digits_value 10 0 u)
      in if neg then max (- int n) (- (2 ^ 63)) else min (int n) (2 ^ 63 - 1))"

definition skynet_module_instance_signal :: "server \<Rightarrow> skynet_context \<Rightarrow> int \<Rightarrow> server res" where
  "skynet_module_instance_signal s x sig =
     andThen (read_cell (mod_m (M s)) (ctx_mod x)) (\<lambda>md.
       Inr (if mod_signal md \<noteq> None then emit (Instance_signal (ctx_mod x) (inst x) sig) s else s))"

definition cmd_signal :: "server \<Rightarrow> ctx \<Rightarrow> string option \<Rightarrow> (server \<times> string option) res" where
  "cmd_signal s c param =
     need param (\<lambda>p. with_context s c p (\<lambda>s h d.
       let rest = dropWhile (\<lambda>ch. ch \<noteq> CHR '' '') p;
           sig = (if rest = [] then 0 else wrap32 (strtol0 (text_bytes rest))) in
       andThen (deref (ctxs s) d) (\<lambda>x. skynet_module_instance_signal s x sig)))"

definition cmd_funcs ::
  "launcher \<Rightarrow> platform \<Rightarrow> (string \<times> (server \<Rightarrow> ctx \<Rightarrow> string option \<Rightarrow> (server \<times> string option) res)) list" where
  "cmd_funcs context_new P =
     [(''TIMEOUT'', cmd_timeout), (''REG'', cmd_reg), (''QUERY'', cmd_query), (''NAME'', cmd_name),
      (''EXIT'', cmd_exit), (''KILL'', cmd_kill), (''LAUNCH'', cmd_launch context_new),
      (''GETENV'', cmd_getenv), (''SETENV'', cmd_setenv), (''STARTTIME'', cmd_starttime),
      (''ABORT'', cmd_abort), (''MONITOR'', cmd_monitor), (''STAT'', cmd_stat P),
      (''LOGON'', cmd_logon P), (''LOGOFF'', cmd_logoff), (''SIGNAL'', cmd_signal)]"

definition skynet_command ::
  "launcher \<Rightarrow> platform \<Rightarrow> server \<Rightarrow> ctx \<Rightarrow> string \<Rightarrow> string option \<Rightarrow> (server \<times> string option) res" where
  "skynet_command context_new P s c cmd param =
     (case map_of (cmd_funcs context_new P) cmd of
        None \<Rightarrow> Inr (s, None)
      | Some func \<Rightarrow> func s c param)"

definition skynet_callback :: "server \<Rightarrow> ctx \<Rightarrow> skynet_cb option \<Rightarrow> server res" where
  "skynet_callback s c f = andThen (deref (ctxs s) c) (\<lambda>x. Inr (set_ctx c (x\<lparr>cb := f\<rparr>) s))"

section \<open>Running services\<close>

text \<open>A program of the service \<open>c\<close>, call by call.\<close>

primrec run_prog :: "launcher \<Rightarrow> platform \<Rightarrow> ctx \<Rightarrow> prog \<Rightarrow> server \<Rightarrow> (server \<times> bool) res" where
  "run_prog L P c (Return b) s = Inr (s, b)"
| "run_prog L P c (Send src dest ty sess dat bs z k) s =
     andThen (skynet_send s (Some c) src dest ty sess dat bs z) (\<lambda>r. run_prog L P c (k (snd r)) (fst r))"
| "run_prog L P c (Sendname src addr ty sess dat bs z k) s =
     andThen (skynet_sendname s c src addr ty sess dat bs z) (\<lambda>r. run_prog L P c (k (snd r)) (fst r))"
| "run_prog L P c (Cmd cmd param k) s =
     andThen (skynet_command L P s c cmd param) (\<lambda>r. run_prog L P c (k (snd r)) (fst r))"
| "run_prog L P c (Queryname nm k) s =
     andThen (skynet_queryname s c nm) (\<lambda>r. run_prog L P c (k (snd r)) (fst r))"
| "run_prog L P c (Callback f p) s = andThen (skynet_callback s c f) (\<lambda>s. run_prog L P c p s)"
| "run_prog L P c (Error msg p) s = andThen (skynet_error s (Some c) msg) (\<lambda>s. run_prog L P c p s)"

text \<open>
  \<open>skynet_handle_register\<close> for a new context. The table is also read by the rehash; a handle that is
  issued again while a queue of its last owner exists is outside the model (\<open>Handle_clash\<close>): the worker
  that takes that queue would find the wrong service.
\<close>

definition handle_clash :: "server \<Rightarrow> u32 \<Rightarrow> bool" where
  "handle_clash s h =
     list_ex (\<lambda>a. case mqs (Q s) a of None \<Rightarrow> False | Some q \<Rightarrow> MessageQueue.handle q = h) [0..<next_mq s]"

definition handle_register :: "server \<Rightarrow> ctx \<Rightarrow> (server \<times> u32) res" where
  "handle_register s c =
     andThen (if find_free (H s) 0 = None then touch s (slot (H s)) else Inr ()) (\<lambda>_.
     case skynet_handle_register (handle_field s) (H s) c of
       None \<Rightarrow> Inl Out_of_fuel
     | Some r \<Rightarrow> andThen r (\<lambda>(hs, h).
         if handle_clash s h then Inl Handle_clash else Inr (s\<lparr>H := hs\<rparr>, h)))"

definition skynet_module_instance_create :: "platform \<Rightarrow> server \<Rightarrow> nat \<Rightarrow> ptr res" where
  "skynet_module_instance_create P s i =
     andThen (read_cell (mod_m (M s)) i) (\<lambda>md.
       Inr (case mod_create md of None \<Rightarrow> -1 | Some f \<Rightarrow> create_fun P f (next_ctx s)))"

definition skynet_module_instance_init :: "platform \<Rightarrow> server \<Rightarrow> nat \<Rightarrow> ptr \<Rightarrow> string option \<Rightarrow> prog res" where
  "skynet_module_instance_init P s i p param =
     andThen (read_cell (mod_m (M s)) i) (\<lambda>md.
       case mod_init md of None \<Rightarrow> Inl Bad_pointer | Some f \<Rightarrow> Inr (init_fun P f p param))"

definition new_context :: "server \<Rightarrow> nat \<Rightarrow> ptr \<Rightarrow> skynet_context" where
  "new_context s i p =
     \<lparr>inst = p, ctx_mod = i, cb = None, ctx_queue = 0, logfile = False, cpu_cost = 0, cpu_start = 0,
      result = [], ctx_handle = 0, session_id = 0, ref = 2, message_count = 0, ctx_init = False,
      endless = False, ctx_profile = node_profile s\<rparr>"

text \<open>The first part of \<open>skynet_context_new\<close>: the context is in the table and has a queue.\<close>

definition context_setup :: "server \<Rightarrow> nat \<Rightarrow> ptr \<Rightarrow> (server \<times> ctx \<times> mqid) res" where
  "context_setup s i p =
     (let c = next_ctx s; x = new_context s i p; s1 = (set_ctx c x s)\<lparr>next_ctx := c + 1\<rparr> in
      andThen (handle_register s1 c) (\<lambda>(s2, h).
      let a = next_mq s2;
          s3 = (set_ctx c (x\<lparr>ctx_handle := h, ctx_queue := a\<rparr>) s2)
                 \<lparr>Q := set_mq a (skynet_mq_create h) (Q s2), next_mq := a + 1, total := total s2 + 1\<rparr>
      in Inr (s3, c, a)))"

text \<open>The second part, after the init function has returned.\<close>

definition context_ready :: "server \<Rightarrow> ctx \<Rightarrow> mqid \<Rightarrow> string \<Rightarrow> string option \<Rightarrow> (server \<times> ctx option) res" where
  "context_ready s c a nm param =
     andThen (skynet_context_release s c) (\<lambda>(s, ret).
     andThen (if ret \<noteq> None then andThen (deref (ctxs s) c) (\<lambda>x. Inr (set_ctx c (x\<lparr>ctx_init := True\<rparr>) s))
              else Inr s) (\<lambda>s.
     andThen (skynet_globalmq_push (Q s) a) (\<lambda>w.
     let s = s\<lparr>Q := w\<rparr> in
     andThen (if ret \<noteq> None then
                skynet_error s ret (''LAUNCH '' @ nm @ '' '' @ (case param of None \<Rightarrow> [] | Some p \<Rightarrow> p))
              else Inr s) (\<lambda>s. Inr (s, ret)))))"

definition context_failed :: "server \<Rightarrow> ctx \<Rightarrow> mqid \<Rightarrow> string \<Rightarrow> (server \<times> ctx option) res" where
  "context_failed s c a nm =
     andThen (skynet_error s (Some c) (''FAILED launch '' @ nm)) (\<lambda>s.
     andThen (deref (ctxs s) c) (\<lambda>x.
     let h = ctx_handle x in
     andThen (skynet_context_release s c) (\<lambda>(s, _).
     andThen (handle_retire s h) (\<lambda>(s, _).
     andThen (release_queue s a h) (\<lambda>s. Inr (s, None))))))"

text \<open>
  \<open>skynet_context_new\<close>. An init function may launch further services; \<open>depth\<close> bounds how deep such calls
  are nested, as the C stack does.
\<close>

primrec skynet_context_new :: "platform \<Rightarrow> nat \<Rightarrow> launcher" where
  "skynet_context_new P 0 s nm param = Inl Out_of_fuel"
| "skynet_context_new P (Suc depth) s nm param =
     andThen (skynet_module_query (dlopen P) (dlsym P) (M s) nm) (\<lambda>(m, r).
     let s = s\<lparr>M := m\<rparr> in
     case r of
       None \<Rightarrow> Inr (s, None)
     | Some i \<Rightarrow>
         andThen (skynet_module_instance_create P s i) (\<lambda>p.
         if p = 0 then Inr (s, None)
         else
           andThen (context_setup s i p) (\<lambda>(s, c, a).
           andThen (skynet_module_instance_init P s i p param) (\<lambda>prg.
           andThen (run_prog (skynet_context_new P depth) P c prg s) (\<lambda>(s, failed).
           if \<not> failed then context_ready s c a nm param else context_failed s c a nm)))))"

section \<open>Dispatching messages\<close>

text \<open>What \<open>dispatch_message\<close> does before the callback (the thread's handle, the log, the counters) and after it.\<close>

definition dispatch_enter :: "platform \<Rightarrow> server \<Rightarrow> ctx \<Rightarrow> skynet_context \<Rightarrow> skynet_message \<Rightarrow> server" where
  "dispatch_enter P s c x m =
     (let s = s\<lparr>handle_key := ctx_handle x\<rparr>;
          s = (if logfile x
               then emit (Log_output (ctx_handle x) (source m) (uint (drop_bit MESSAGE_TYPE_SHIFT (sz m))) (session m)
                      (data m) (sz m AND MESSAGE_TYPE_MASK)) s
               else s);
          x = x\<lparr>message_count := message_count x + 1\<rparr>
      in if ctx_profile x
         then (set_ctx c (x\<lparr>cpu_start := thread_time P (clock_reads s)\<rparr>) s)\<lparr>clock_reads := clock_reads s + 1\<rparr>
         else set_ctx c x s)"

definition dispatch_leave :: "platform \<Rightarrow> bool \<Rightarrow> server \<Rightarrow> ctx \<Rightarrow> server res" where
  "dispatch_leave P profile s c =
     (if profile then
        andThen (deref (ctxs s) c) (\<lambda>x.
          let cost_time = thread_time P (clock_reads s) - cpu_start x
          in Inr ((set_ctx c (x\<lparr>cpu_cost := cpu_cost x + cost_time\<rparr>) s)\<lparr>clock_reads := clock_reads s + 1\<rparr>))
      else Inr s)"

definition dispatch_message :: "launcher \<Rightarrow> platform \<Rightarrow> server \<Rightarrow> ctx \<Rightarrow> skynet_message \<Rightarrow> server res" where
  "dispatch_message L P s c m =
     andThen (deref (ctxs s) c) (\<lambda>x.
     andThen (assert_that (ctx_init x)) (\<lambda>_.
     let ty = uint (drop_bit MESSAGE_TYPE_SHIFT (sz m)); z = sz m AND MESSAGE_TYPE_MASK in
     case cb x of
       None \<Rightarrow> Inl Bad_pointer
     | Some f \<Rightarrow>
         andThen (run_prog L P c (f ty (session m) (source m) (data m) z) (dispatch_enter P s c x m)) (\<lambda>(s, reserve_msg).
         andThen (dispatch_leave P (ctx_profile x) s c) (\<lambda>s.
         Inr (if \<not> reserve_msg then skynet_free s (data m) else s)))))"

text \<open>
  One turn of the loop of \<open>skynet_context_message_dispatch\<close>, after the pop: the overload warning, the
  monitor, and the callback of the service, if it has one.
\<close>

definition handle_message ::
  "launcher \<Rightarrow> platform \<Rightarrow> server \<Rightarrow> skynet_monitor \<Rightarrow> mqid \<Rightarrow> u32 \<Rightarrow> ctx \<Rightarrow> skynet_message \<Rightarrow> (server \<times> skynet_monitor) res" where
  "handle_message L P s sm a h c m =
     andThen (deref (mqs (Q s)) a) (\<lambda>q.
     let (q', overload) = skynet_mq_overload q; s = s\<lparr>Q := set_mq a q' (Q s)\<rparr> in
     andThen (if overload \<noteq> 0 then
                skynet_error s (Some c) (''May overload, message queue length = '' @ dec_text (int overload))
              else Inr s) (\<lambda>s.
     let sm = skynet_monitor_trigger sm (source m) h in
     andThen (deref (ctxs s) c) (\<lambda>x.
     andThen (if cb x = None then Inr (skynet_free s (data m)) else dispatch_message L P s c m) (\<lambda>s.
     Inr (s, skynet_monitor_trigger sm 0 0)))))"

text \<open>
  The loop itself: \<open>n\<close> turns are left, \<open>first\<close> is the turn that sets their number by the weight. The
  last component of the result tells whether the queue ran empty.
\<close>

fun dispatch_turns ::
  "launcher \<Rightarrow> platform \<Rightarrow> nat \<Rightarrow> server \<Rightarrow> skynet_monitor \<Rightarrow> mqid \<Rightarrow> u32 \<Rightarrow> ctx \<Rightarrow> (server \<times> skynet_monitor \<times> bool) res" where
  "dispatch_turns L P 0 s sm a h c = Inr (s, sm, False)"
| "dispatch_turns L P (Suc n) s sm a h c =
     andThen (world_pop (Q s) a) (\<lambda>(w, r).
     let s = s\<lparr>Q := w\<rparr> in
     case r of
       None \<Rightarrow> Inr (s, sm, True)
     | Some m \<Rightarrow>
         andThen (handle_message L P s sm a h c m) (\<lambda>(s, sm). dispatch_turns L P n s sm a h c))"

definition dispatch_batch ::
  "launcher \<Rightarrow> platform \<Rightarrow> server \<Rightarrow> skynet_monitor \<Rightarrow> mqid \<Rightarrow> u32 \<Rightarrow> ctx \<Rightarrow> int \<Rightarrow> (server \<times> skynet_monitor \<times> bool) res" where
  "dispatch_batch L P s sm a h c weight =
     andThen (world_pop (Q s) a) (\<lambda>(w, r).
     let s = s\<lparr>Q := w\<rparr> in
     case r of
       None \<Rightarrow> Inr (s, sm, True)
     | Some m \<Rightarrow>
         andThen (deref (mqs (Q s)) a) (\<lambda>q.
         let n = (if 0 \<le> weight then skynet_mq_length q div 2 ^ nat weight else 1) in
         andThen (handle_message L P s sm a h c m) (\<lambda>(s, sm). dispatch_turns L P (n - 1) s sm a h c)))"

definition globalmq_take :: "server \<Rightarrow> (server \<times> mqid option) res" where
  "globalmq_take s = andThen (skynet_globalmq_pop (Q s)) (\<lambda>(w, r). Inr (s\<lparr>Q := w\<rparr>, r))"

definition dispatch_queue ::
  "launcher \<Rightarrow> platform \<Rightarrow> server \<Rightarrow> skynet_monitor \<Rightarrow> mqid \<Rightarrow> int \<Rightarrow> (server \<times> skynet_monitor \<times> mqid option) res" where
  "dispatch_queue L P s sm a weight =
     andThen (deref (mqs (Q s)) a) (\<lambda>q.
     let h = skynet_mq_handle q in
     andThen (handle_grab s h) (\<lambda>(s, r).
     case r of
       None \<Rightarrow>
         andThen (release_queue s a h) (\<lambda>s.
         andThen (globalmq_take s) (\<lambda>(s, nq). Inr (s, sm, nq)))
     | Some c \<Rightarrow>
         andThen (dispatch_batch L P s sm a h c weight) (\<lambda>(s, sm, empty).
         if empty then
           andThen (skynet_context_release s c) (\<lambda>(s, _).
           andThen (globalmq_take s) (\<lambda>(s, nq). Inr (s, sm, nq)))
         else
           andThen (deref (ctxs s) c) (\<lambda>x.
           andThen (assert_that (a = ctx_queue x)) (\<lambda>_.
           andThen (globalmq_take s) (\<lambda>(s, nq).
           andThen (case nq of None \<Rightarrow> Inr (s, a)
                    | Some b \<Rightarrow> andThen (skynet_globalmq_push (Q s) a) (\<lambda>w. Inr (s\<lparr>Q := w\<rparr>, b))) (\<lambda>(s, b).
           andThen (skynet_context_release s c) (\<lambda>(s, _). Inr (s, sm, Some b)))))))))"

definition skynet_context_message_dispatch ::
  "launcher \<Rightarrow> platform \<Rightarrow> server \<Rightarrow> skynet_monitor \<Rightarrow> mqid option \<Rightarrow> int \<Rightarrow> (server \<times> skynet_monitor \<times> mqid option) res" where
  "skynet_context_message_dispatch L P s sm q weight =
     andThen (case q of None \<Rightarrow> globalmq_take s | Some a \<Rightarrow> Inr (s, Some a)) (\<lambda>(s, q).
     case q of
       None \<Rightarrow> Inr (s, sm, None)
     | Some a \<Rightarrow> dispatch_queue L P s sm a weight)"

text \<open>\<open>skynet_context_dispatchall\<close> empties a queue; the bound \<open>k\<close> is on the messages handled.\<close>

fun skynet_context_dispatchall :: "launcher \<Rightarrow> platform \<Rightarrow> nat \<Rightarrow> server \<Rightarrow> ctx \<Rightarrow> mqid \<Rightarrow> server res" where
  "skynet_context_dispatchall L P 0 s c a = Inl Out_of_fuel"
| "skynet_context_dispatchall L P (Suc k) s c a =
     andThen (world_pop (Q s) a) (\<lambda>(w, r).
     let s = s\<lparr>Q := w\<rparr> in
     case r of
       None \<Rightarrow> Inr s
     | Some m \<Rightarrow> andThen (dispatch_message L P s c m) (\<lambda>s. skynet_context_dispatchall L P k s c a))"

section \<open>The node\<close>

definition skynet_context_total :: "server \<Rightarrow> int" where
  "skynet_context_total s = total s"

definition THREAD_MAIN :: u32 where "THREAD_MAIN = 1"

definition skynet_current_handle :: "server \<Rightarrow> u32" where
  "skynet_current_handle s = (if node_init s then handle_key s else - THREAD_MAIN)"

definition skynet_initthread :: "server \<Rightarrow> u32 \<Rightarrow> server" where
  "skynet_initthread s m = s\<lparr>handle_key := - m\<rparr>"

definition skynet_profile_enable :: "server \<Rightarrow> bool \<Rightarrow> server" where
  "skynet_profile_enable s enable = s\<lparr>node_profile := enable\<rparr>"

definition skynet_isremote :: "server \<Rightarrow> u32 \<Rightarrow> (bool \<times> u32) res" where
  "skynet_isremote s h =
     andThen (skynet_harbor_message_isremote s h) (\<lambda>r. Inr (r, drop_bit HANDLE_REMOTE_SHIFT h))"

text \<open>The state after the init functions of the engine: an empty table, no contexts, no queues.\<close>

definition skynet_globalinit :: "server \<Rightarrow> server" where
  "skynet_globalinit s = skynet_initthread (s\<lparr>total := 0, monitor_exit := 0, node_init := True\<rparr>) THREAD_MAIN"

definition server_start :: "u32 \<Rightarrow> string \<Rightarrow> timer \<Rightarrow> server" where
  "server_start hb path T =
     skynet_globalinit
     (skynet_harbor_init
       \<lparr>total = 0, node_init = False, monitor_exit = 0, node_profile = False, handle_key = 0, H = skynet_handle_init hb, ctxs = Map.empty,
        next_ctx = 0, Q = skynet_mq_init Map.empty, next_mq = 0, TI = T, M = skynet_module_init path,
        env = Map.empty, HARBOR = -1, REMOTE = None, logger = 0, blocks = Map.empty, rmsgs = Map.empty,
        brk = 1, freed = [], clock_reads = 0, trace = []\<rparr> hb)"

end
