(* ===== verification/ServerInv.thy ===== *)
theory ServerInv
  imports Command "HOL-Library.Multiset"
begin

text \<open>
  The invariant of the server: the reference count of a context is the number of its references, a
  context lives exactly as long as it is referred to, its queue is in order and not marked for release,
  and the node counts the contexts. Every call that sends messages, takes and releases references or
  retires handles keeps it, and none of them dereferences a dangling pointer.
\<close>

section \<open>Faults of services\<close>

text \<open>
  The faults a service can bring about by a wrong call (a failed assertion of the engine, a parameter that is
  \<^verbatim>\<open>NULL\<close>, a name command with a word missing, a module path without a question mark), by launches nested without end, or by using up
  the handles.
\<close>

definition soft :: "fault set" where
  "soft = {Assert_failed, Null_parameter, Missing_word, Exited, Out_of_fuel, Handle_clash}"

lemma soft_simps [simp]: "Assert_failed \<in> soft" "Null_parameter \<in> soft" "Missing_word \<in> soft" "Exited \<in> soft" "Out_of_fuel \<in> soft" "Handle_clash \<in> soft"
  by (simp_all add: soft_def)

section \<open>The invariant of the server\<close>

text \<open>
  \<open>R\<close> are the references to contexts that running code holds, \<open>B\<close> the queues in the hands of workers
  and of services under construction, \<open>V\<close> the number of reserved contexts. The references to a context
  are those in \<open>R\<close>, one of the handle table if it is registered, and one of the harbor if it is \<open>REMOTE\<close>.
\<close>

definition refs :: "ctx multiset \<Rightarrow> server \<Rightarrow> ctx \<Rightarrow> int" where
  "refs R s c = int (count R c) + (if c \<in> live (H s) then 1 else 0) + (if REMOTE s = Some c then 1 else 0)"

definition qshape :: "mq_world \<Rightarrow> mqid \<rightharpoonup> u32 \<times> nat" where
  "qshape w a = map_option (\<lambda>v. (fst v, fst (snd v))) (views w a)"

definition messages :: "server \<Rightarrow> mqid \<Rightarrow> skynet_message list" where
  "messages s a = (case views (Q s) a of None \<Rightarrow> [] | Some v \<Rightarrow> snd (snd v))"

definition context_ok :: "ctx multiset \<Rightarrow> server \<Rightarrow> ctx \<Rightarrow> skynet_context \<Rightarrow> bool" where
  "context_ok R s c x \<longleftrightarrow> ref x = refs R s c \<and> 0 < ref x \<and> c < next_ctx s \<and> ctx_mod x < mod_count (M s) \<and>
     ctx_queue x = c \<and> qshape (Q s) c = Some (ctx_handle x, 0)"

definition srv_inv :: "ctx multiset \<Rightarrow> mqid set \<Rightarrow> int \<Rightarrow> server \<Rightarrow> bool" where
  "srv_inv R B V s \<longleftrightarrow> handle_inv (handle_field s) (H s) \<and> modules_inv (M s) \<and> (\<exists>as. sys_rep (Q s) B as) \<and>
     next_mq s = next_ctx s \<and> total s = int (card (dom (ctxs s))) - V \<and>
     (\<forall>c. 0 < refs R s c \<longrightarrow> ctxs s c \<noteq> None) \<and>
     (\<forall>c x. ctxs s c = Some x \<longrightarrow> context_ok R s c x) \<and>
     (\<forall>a. qshape (Q s) a \<noteq> None \<longrightarrow> a < next_ctx s) \<and>
     (\<forall>a h r. qshape (Q s) a = Some (h, r) \<longrightarrow> (\<forall>c \<in> live (H s). handle_field s c = h \<longrightarrow> c = a))"

lemma handle_inv_cong: "(\<And>c. c \<in> live s \<Longrightarrow> hf c = hf' c) \<Longrightarrow> handle_inv hf s = handle_inv hf' s"
proof -
  assume "\<And>c. c \<in> live s \<Longrightarrow> hf c = hf' c"
  moreover have "c \<in> live s" if "i < length (slot s)" "slot s ! i = Some c" for i c
    using that by (auto simp: live_def in_set_conv_nth)
  ultimately show ?thesis unfolding handle_inv_def slots_inv_def by (metis (no_types, lifting))
qed

lemma inv_fields:
  assumes "srv_inv R B V s"
  shows "handle_inv (handle_field s) (H s)" "modules_inv (M s)" "next_mq s = next_ctx s"
    "slots_inv (handle_field s) (H s)" "names_inv (H s)"
    "ctxs s c = Some x \<Longrightarrow> context_ok R s c x" "0 < refs R s c \<Longrightarrow> \<exists>x. ctxs s c = Some x"
    "total s = int (card (dom (ctxs s))) - V"
    "qshape (Q s) a = Some (h, r) \<Longrightarrow> a < next_ctx s"
    "qshape (Q s) a = Some (h, r) \<Longrightarrow> c \<in> live (H s) \<Longrightarrow> handle_field s c = h \<Longrightarrow> c = a"
  using assms by (auto simp: srv_inv_def handle_inv_def)

lemma inv_held: "srv_inv R B V s \<Longrightarrow> c \<in># R \<Longrightarrow> \<exists>x. ctxs s c = Some x"
  by (rule inv_fields(7)) (auto simp: refs_def)

lemma inv_live: "srv_inv R B V s \<Longrightarrow> c \<in> live (H s) \<Longrightarrow> \<exists>x. ctxs s c = Some x"
  by (rule inv_fields(7)) (auto simp: refs_def)

text \<open>The rest of the state does not matter.\<close>

lemma srv_inv_cong:
  assumes "H s' = H s" "ctxs s' = ctxs s" "Q s' = Q s" "M s' = M s" "REMOTE s' = REMOTE s"
    "next_ctx s' = next_ctx s" "next_mq s' = next_mq s" "total s' = total s"
  shows "srv_inv R B V s' = srv_inv R B V s"
proof -
  have "handle_field s' = handle_field s" "refs R s' = refs R s" using assms by (auto simp: handle_field_def refs_def)
  then show ?thesis using assms by (simp add: srv_inv_def context_ok_def)
qed

lemma srv_inv_other [simp]:
  "srv_inv R B V (s\<lparr>blocks := v1\<rparr>) = srv_inv R B V s" "srv_inv R B V (s\<lparr>rmsgs := v2\<rparr>) = srv_inv R B V s"
  "srv_inv R B V (s\<lparr>brk := v3\<rparr>) = srv_inv R B V s" "srv_inv R B V (s\<lparr>freed := v4\<rparr>) = srv_inv R B V s"
  "srv_inv R B V (s\<lparr>trace := v5\<rparr>) = srv_inv R B V s" "srv_inv R B V (s\<lparr>clock_reads := v6\<rparr>) = srv_inv R B V s"
  "srv_inv R B V (s\<lparr>env := v7\<rparr>) = srv_inv R B V s" "srv_inv R B V (s\<lparr>TI := v8\<rparr>) = srv_inv R B V s"
  "srv_inv R B V (s\<lparr>logger := v9\<rparr>) = srv_inv R B V s" "srv_inv R B V (s\<lparr>handle_key := v10\<rparr>) = srv_inv R B V s"
  "srv_inv R B V (s\<lparr>monitor_exit := v11\<rparr>) = srv_inv R B V s" "srv_inv R B V (s\<lparr>node_profile := v12\<rparr>) = srv_inv R B V s"
  "srv_inv R B V (s\<lparr>HARBOR := v13\<rparr>) = srv_inv R B V s"
  by (rule srv_inv_cong; simp)+

lemma srv_inv_helpers [simp]:
  "srv_inv R B V (skynet_free s p) = srv_inv R B V s" "srv_inv R B V (emit e s) = srv_inv R B V s"
  "srv_inv R B V (fst (skynet_malloc s bs)) = srv_inv R B V s"
  "srv_inv R B V (fst (new_remote_message s rm)) = srv_inv R B V s"
  by (simp_all add: skynet_free_def emit_def skynet_malloc_def new_remote_message_def)

text \<open>A context may change in everything but its references, its handle, its queue and its module.\<close>

lemma handle_field_set [simp]: "handle_field (set_ctx c y s) = (handle_field s)(c := ctx_handle y)"
  by (auto simp: handle_field_def set_ctx_def)

lemma set_ctx_fields [simp]:
  "H (set_ctx c y s) = H s" "Q (set_ctx c y s) = Q s" "M (set_ctx c y s) = M s" "REMOTE (set_ctx c y s) = REMOTE s"
  "next_ctx (set_ctx c y s) = next_ctx s" "next_mq (set_ctx c y s) = next_mq s" "total (set_ctx c y s) = total s"
  "ctxs (set_ctx c y s) = (ctxs s)(c \<mapsto> y)" "HARBOR (set_ctx c y s) = HARBOR s" "monitor_exit (set_ctx c y s) = monitor_exit s"
  by (simp_all add: set_ctx_def)

lemma handle_field_Some: "ctxs s c = Some x \<Longrightarrow> handle_field s c = ctx_handle x"
  by (simp add: handle_field_def)

lemma refs_set [simp]: "refs R (set_ctx c y s) = refs R s"
  by (auto simp: refs_def)

text \<open>Changing the references to one context: its count has to follow.\<close>

lemma inv_set_ref:
  assumes inv: "srv_inv R B V s" and x: "ctxs s c = Some x"
    and y: "ctx_handle y = ctx_handle x" "ctx_queue y = ctx_queue x" "ctx_mod y = ctx_mod x"
    and R': "\<And>d. d \<noteq> c \<Longrightarrow> count R' d = count R d" and ref: "ref y = ref x + (int (count R' c) - int (count R c))" "0 < ref y"
  shows "srv_inv R' B V (set_ctx c y s)"
proof -
  have hf: "handle_field (set_ctx c y s) = handle_field s" using y x by (auto simp: handle_field_def)
  have okx: "context_ok R s c x" by (rule inv_fields(6) [OF inv x])
  have rc: "refs R' s d = (if d = c then ref y else refs R s d)" for d
    using okx ref R' [of d] by (auto simp: refs_def context_ok_def)
  have "context_ok R' (set_ctx c y s) d z" if "ctxs (set_ctx c y s) d = Some z" for d z
  proof (cases "d = c")
    case True
    with that have "z = y" by simp
    with True okx rc [of c] y ref show ?thesis by (simp add: context_ok_def)
  next
    case False
    with that have "context_ok R s d z" using inv_fields(6) [OF inv] by simp
    with False rc [of d] show ?thesis by (simp add: context_ok_def)
  qed
  moreover have "ctxs (set_ctx c y s) d \<noteq> None" if "0 < refs R' (set_ctx c y s) d" for d
    using that rc [of d] inv_fields(7) [OF inv, of d] by (cases "d = c") auto
  moreover have "dom (ctxs (set_ctx c y s)) = dom (ctxs s)" using x by auto
  ultimately show ?thesis using inv hf by (auto simp: srv_inv_def)
qed

lemma inv_set_ctx:
  assumes "srv_inv R B V s" "ctxs s c = Some x" "ctx_handle y = ctx_handle x" "ctx_queue y = ctx_queue x"
    "ctx_mod y = ctx_mod x" "ref y = ref x"
  shows "srv_inv R B V (set_ctx c y s)"
  using assms inv_fields(6) [OF assms(1,2)] by (intro inv_set_ref [OF assms(1,2)]) (auto simp: context_ok_def)

text \<open>Changing the queues.\<close>

lemma inv_set_Q:
  assumes "srv_inv R B V s" and "sys_rep w B' as" and "qshape w = qshape (Q s)"
  shows "srv_inv R B' V (s\<lparr>Q := w\<rparr>)"
proof -
  have "handle_field (s\<lparr>Q := w\<rparr>) = handle_field s" "refs R (s\<lparr>Q := w\<rparr>) = refs R s"
    by (auto simp: handle_field_def refs_def)
  moreover from this have "context_ok R (s\<lparr>Q := w\<rparr>) c x = context_ok R s c x" for c x
    by (simp add: context_ok_def assms(3))
  ultimately show ?thesis using assms(1,2) unfolding srv_inv_def by (simp add: assms(3) exI [of _ as])
qed

lemma inv_rep: "srv_inv R B V s \<Longrightarrow> \<exists>as. sys_rep (Q s) B as"
  by (simp add: srv_inv_def)

lemma qshape_iff: "qshape w a = Some (h, r) \<longleftrightarrow> (\<exists>q. mqs w a = Some q \<and> MessageQueue.handle q = h \<and> release q = r)"
  by (auto simp: qshape_def views_def view_def)

lemma qshape_alive: "qshape w a = Some (h, 0) \<Longrightarrow> alive w a"
  by (auto simp: qshape_iff alive_iff)

lemma inv_queue:
  assumes "srv_inv R B V s" and "ctxs s c = Some x"
  shows "qshape (Q s) c = Some (ctx_handle x, 0)" "alive (Q s) c" "ctx_queue x = c"
  using inv_fields(6) [OF assms] qshape_alive by (auto simp: context_ok_def)

lemma messages_view: "mqs (Q s) a = Some q \<Longrightarrow> messages s a = mq_contents q"
  by (simp add: messages_def views_def view_def)

lemma qshape_upd: "qshape w a = Some (h, r) \<Longrightarrow> views w' = (views w)(a \<mapsto> (h, r, ms)) \<Longrightarrow> qshape w' = qshape w"
  by (auto simp: qshape_def)

lemma mq_push_ok:
  assumes inv: "srv_inv R B V s" and sh: "qshape (Q s) a = Some (h, 0)"
  obtains w where "skynet_mq_push (Q s) a m = Inr w" "srv_inv R B V (s\<lparr>Q := w\<rparr>)"
    "views w = (views (Q s))(a \<mapsto> (h, 0, messages s a @ [m]))"
proof -
  obtain as where rep: "sys_rep (Q s) B as" using inv_rep [OF inv] by blast
  obtain q where q: "mqs (Q s) a = Some q" "MessageQueue.handle q = h" "release q = 0" using sh by (auto simp: qshape_iff)
  obtain w as' where w: "skynet_mq_push (Q s) a m = Inr w" "sys_rep w B as'"
    using mq_push_step [OF rep qshape_alive [OF sh]] by blast
  have v: "views w = (views (Q s))(a \<mapsto> (h, 0, messages s a @ [m]))"
    using mq_push_views [OF w(1) q(1) node_ok_inv [OF sys_rep_node [OF rep q(1)]]] q messages_view [of s a q] by simp
  show thesis using that [OF w(1) inv_set_Q [OF inv w(2) qshape_upd [OF sh v]] v] .
qed

lemma world_pop_ok:
  assumes inv: "srv_inv R B V s" and sh: "qshape (Q s) a = Some (h, 0)" and a: "a \<in> B"
  obtains (empty) w where "world_pop (Q s) a = Inr (w, None)" "srv_inv R (B - {a}) V (s\<lparr>Q := w\<rparr>)"
      "messages s a = []" "views w = views (Q s)"
    | (msg) w m ms where "world_pop (Q s) a = Inr (w, Some m)" "srv_inv R B V (s\<lparr>Q := w\<rparr>)"
      "messages s a = m # ms" "views w = (views (Q s))(a \<mapsto> (h, 0, ms))"
proof -
  obtain as where rep: "sys_rep (Q s) B as" using inv_rep [OF inv] by blast
  obtain q where q: "mqs (Q s) a = Some q" "MessageQueue.handle q = h" "release q = 0" using sh by (auto simp: qshape_iff)
  obtain w r where w: "world_pop (Q s) a = Inr (w, r)" "sys_rep w (if r = None then B - {a} else B) as"
    using world_pop_step [OF rep a qshape_alive [OF sh]] by blast
  note v = world_pop_views [OF w(1) q(1) node_ok_inv [OF sys_rep_node [OF rep q(1)]]]
  show thesis
  proof (cases r)
    case None
    then have "views w = views (Q s)" "messages s a = []" using v messages_view [OF q(1)] by auto
    then show ?thesis using empty [of w] w None inv_set_Q [OF inv w(2)] by (simp add: qshape_def [abs_def])
  next
    case (Some m)
    then obtain ms where "messages s a = m # ms" "views w = (views (Q s))(a \<mapsto> (h, 0, ms))"
      using v messages_view [OF q(1)] q by auto
    then show ?thesis using msg [of w m ms] w Some inv_set_Q [OF inv w(2) qshape_upd [OF sh, of w ms]] by simp
  qed
qed

lemma globalmq_take_ok:
  assumes "srv_inv R B V s"
  obtains (none) "globalmq_take s = Inr (s, None)"
    | (some) w a where "globalmq_take s = Inr (s\<lparr>Q := w\<rparr>, Some a)" "srv_inv R (insert a B) V (s\<lparr>Q := w\<rparr>)"
      "a \<notin> B" "views w = views (Q s)"
proof -
  obtain as where rep: "sys_rep (Q s) B as" using inv_rep [OF assms] by blast
  from globalmq_pop_step [OF rep] show thesis
  proof (elim disjE exE conjE)
    assume "skynet_globalmq_pop (Q s) = Inr (Q s, None)"
    then show ?thesis by (intro none) (simp add: globalmq_take_def)
  next
    fix a w as'
    assume p: "as = a # as'" "skynet_globalmq_pop (Q s) = Inr (w, Some a)" "sys_rep w (insert a B) as'"
    then have v: "views w = views (Q s)" using globalmq_pop_views by blast
    have "a \<notin> B" using rep p(1) by (auto simp: sys_rep_def)
    with p v show ?thesis using inv_set_Q [OF assms p(3)] by (intro some [of w a]) (simp_all add: globalmq_take_def qshape_def [abs_def])
  qed
qed

lemma give_back_ok:
  assumes "srv_inv R B V s" and "a \<in> B"
  obtains w where "skynet_globalmq_push (Q s) a = Inr w" "srv_inv R (B - {a}) V (s\<lparr>Q := w\<rparr>)" "views w = views (Q s)"
proof -
  obtain as where rep: "sys_rep (Q s) B as" using inv_rep [OF assms(1)] by blast
  obtain w where w: "skynet_globalmq_push (Q s) a = Inr w" "sys_rep w (B - {a}) (as @ [a])"
    using give_back_step [OF rep assms(2)] by blast
  with globalmq_push_views [OF w(1)] that [OF w(1)] inv_set_Q [OF assms(1) w(2)] show thesis
    by (simp add: qshape_def [abs_def])
qed

section \<open>References\<close>

lemma touch_live: "srv_inv R B V s \<Longrightarrow> set cells \<subseteq> set (slot (H s)) \<Longrightarrow> touch s cells = Inr ()"
proof -
  assume inv: "srv_inv R B V s" and sub: "set cells \<subseteq> set (slot (H s))"
  have "ctxs s c \<noteq> None" if "Some c \<in> set cells" for c
    using that sub inv_live [OF inv, of c] by (auto simp: live_def)
  then show ?thesis by (auto simp: touch_def list_all_iff split: option.splits)
qed

lemma slot_mem: "srv_inv R B V s \<Longrightarrow> i < slot_size (H s) \<Longrightarrow> slot (H s) ! i \<in> set (slot (H s))"
  using inv_fields(4) [of R B V s] by (simp add: slots_inv_def)

lemma touch_slot: "srv_inv R B V s \<Longrightarrow> touch s [slot (H s) ! hash_of (slot_size (H s)) h] = Inr ()"
  using slot_mem [of R B V s "hash_of (slot_size (H s)) h"] hash_of_less [OF inv_fields(4)] by (intro touch_live) auto

lemma inv_grab:
  assumes "srv_inv R B V s" and "ctxs s c = Some x"
  shows "srv_inv (add_mset c R) B V (set_ctx c (x\<lparr>ref := ref x + 1\<rparr>) s)"
  using inv_fields(6) [OF assms] by (intro inv_set_ref [OF assms]) (auto simp: context_ok_def)

lemma handle_grab_ok:
  assumes inv: "srv_inv R B V s"
  obtains (none) "skynet_handle_grab (handle_field s) (H s) h = None" "handle_grab s h = Inr (s, None)"
    | (some) c x where "skynet_handle_grab (handle_field s) (H s) h = Some c" "c \<in> live (H s)"
        "ctxs s c = Some x" "ctx_handle x = h"
        "handle_grab s h = Inr (set_ctx c (x\<lparr>ref := ref x + 1\<rparr>) s, Some c)"
        "srv_inv (add_mset c R) B V (set_ctx c (x\<lparr>ref := ref x + 1\<rparr>) s)"
proof (cases "skynet_handle_grab (handle_field s) (H s) h")
  case None
  then show ?thesis using none touch_slot [OF inv, of h] by (simp add: handle_grab_def)
next
  case (Some c)
  then have c: "c \<in> live (H s)" "handle_field s c = h" using grab_iff [OF inv_fields(4) [OF inv]] by simp_all
  obtain x where x: "ctxs s c = Some x" using inv_live [OF inv c(1)] by blast
  then have "ctx_handle x = h" using c(2) by (simp add: handle_field_def)
  then show ?thesis using some [of c x] Some c(1) x touch_slot [OF inv, of h] inv_grab [OF inv x]
    by (simp add: handle_grab_def skynet_context_grab_def)
qed

text \<open>A push takes a reference and gives it back: only the queue of the receiver changes.\<close>

lemma set_ctx_same: "ctxs s c = Some x \<Longrightarrow> set_ctx c x s = s"
  by (simp add: set_ctx_def map_upd_triv)

lemma context_push_ok:
  assumes inv: "srv_inv R B V s"
  obtains (none) "skynet_handle_grab (handle_field s) (H s) h = None" "skynet_context_push s h m = Inr (s, False)"
    | (some) c x w where "skynet_handle_grab (handle_field s) (H s) h = Some c" "ctxs s c = Some x" "ctx_handle x = h"
        "skynet_context_push s h m = Inr (s\<lparr>Q := w\<rparr>, True)" "srv_inv R B V (s\<lparr>Q := w\<rparr>)"
        "views w = (views (Q s))(c \<mapsto> (h, 0, messages s c @ [m]))"
proof (cases rule: handle_grab_ok [OF inv, of h])
  case 1
  then show ?thesis by (intro none) (simp_all add: skynet_context_push_def)
next
  case (2 c x)
  note q = inv_queue [OF inv 2(3)]
  obtain w where w: "skynet_mq_push (Q s) c m = Inr w" "srv_inv R B V (s\<lparr>Q := w\<rparr>)"
      "views w = (views (Q s))(c \<mapsto> (ctx_handle x, 0, messages s c @ [m]))"
    by (rule mq_push_ok [OF inv q(1)])
  have "0 < ref x" using inv_fields(6) [OF inv 2(3)] by (simp add: context_ok_def)
  moreover have "set_ctx c (x\<lparr>ref := ref x\<rparr>) (set_ctx c (x\<lparr>ref := ref x + 1\<rparr>) s\<lparr>Q := w\<rparr>) = s\<lparr>Q := w\<rparr>"
    using 2(3) by (simp add: set_ctx_def map_upd_triv)
  ultimately have "skynet_context_push s h m = Inr (s\<lparr>Q := w\<rparr>, True)"
    using 2 w(1) q(3) by (simp add: skynet_context_push_def skynet_context_release_def Let_def)
  then show ?thesis using some [of c x w] 2 w by simp
qed

text \<open>The queues of dead contexts are not touched by calls that only send and release.\<close>

definition dead_same :: "server \<Rightarrow> server \<Rightarrow> bool" where
  "dead_same s s' \<longleftrightarrow> (\<forall>a h r ms. views (Q s) a = Some (h, r, ms) \<longrightarrow> r \<noteq> 0 \<longrightarrow> views (Q s') a = Some (h, r, ms))"

lemma dead_same_refl [simp]: "dead_same s s"
  by (simp add: dead_same_def)

lemma dead_same_trans: "dead_same s t \<Longrightarrow> dead_same t u \<Longrightarrow> dead_same s u"
  by (simp add: dead_same_def)

lemma dead_same_Q: "Q s' = Q s \<Longrightarrow> dead_same s s'"
  by (simp add: dead_same_def)

lemma dead_same_upd: "qshape (Q s) c = Some (h, 0) \<Longrightarrow> views (Q s') = (views (Q s))(c \<mapsto> v) \<Longrightarrow> dead_same s s'"
  by (auto simp: dead_same_def qshape_def)

lemma finite_ctxs: "srv_inv R B V s \<Longrightarrow> finite (dom (ctxs s))"
proof (rule finite_subset)
  show "srv_inv R B V s \<Longrightarrow> dom (ctxs s) \<subseteq> {..<next_ctx s}"
    using inv_fields(6) by (fastforce simp: context_ok_def)
qed simp

lemma count_ref:
  assumes "context_ok R s c x" and "c \<in># R"
  shows "ref x = 1 \<longleftrightarrow> count R c = 1 \<and> c \<notin> live (H s) \<and> REMOTE s \<noteq> Some c" and "0 < count R c"
proof -
  show pos: "0 < count R c" using assms(2) by simp
  have "ref x = refs R s c" using assms(1) by (simp add: context_ok_def)
  then show "ref x = 1 \<longleftrightarrow> count R c = 1 \<and> c \<notin> live (H s) \<and> REMOTE s \<noteq> Some c"
    using pos unfolding refs_def by (auto split: if_splits)
qed

lemma inv_delete:
  assumes inv: "srv_inv R B V s" and x: "ctxs s c = Some x" and c: "c \<in># R" and one: "ref x = 1"
    and w: "sys_rep w B as" "views w = (views (Q s))(c \<mapsto> (ctx_handle x, 1, messages s c))"
  shows "srv_inv (R - {#c#}) B V (s\<lparr>Q := w, ctxs := (ctxs s)(c := None), total := total s - 1\<rparr>)" (is "srv_inv _ _ _ ?t")
proof -
  have okx: "context_ok R s c x" by (rule inv_fields(6) [OF inv x])
  have R0: "count R c = 1" "c \<notin> live (H s)" "REMOTE s \<noteq> Some c"
    using count_ref [OF okx c] one by auto
  have rf: "refs (R - {#c#}) ?t d = (if d = c then 0 else refs R s d)" for d
    using R0 by (simp add: refs_def)
  have sh: "qshape w a = (if a = c then Some (ctx_handle x, 1) else qshape (Q s) a)" for a
    using w(2) by (simp add: qshape_def)
  have hf: "handle_field ?t d = handle_field s d" if "d \<in> live (H s)" for d
    using that R0(2) by (auto simp: handle_field_def)
  have "c \<in> dom (ctxs s)" using x by blast
  then have "card (dom (ctxs s) - {c}) = card (dom (ctxs s)) - 1" "0 < card (dom (ctxs s))"
    using finite_ctxs [OF inv] by (auto simp: card_gt_0_iff)
  then have tot: "total ?t = int (card (dom (ctxs ?t))) - V" using inv_fields(8) [OF inv] by (simp)
  have "handle_inv (handle_field ?t) (H ?t)" using handle_inv_cong [of "H s" "handle_field ?t" "handle_field s"] hf inv_fields(1) [OF inv] by simp
  moreover have "context_ok (R - {#c#}) ?t d y" if "ctxs ?t d = Some y" for d y
    using that inv_fields(6) [OF inv, of d y] rf [of d] sh [of d] by (auto simp: context_ok_def split: if_splits)
  moreover have "ctxs ?t d \<noteq> None" if "0 < refs (R - {#c#}) ?t d" for d
    using that rf [of d] inv_fields(7) [OF inv, of d] by (auto split: if_splits)
  moreover have "a < next_ctx ?t" if "qshape (Q ?t) a \<noteq> None" for a
    using that sh [of a] inv_fields(9) [OF inv, of a] okx by (auto simp: context_ok_def split: if_splits)
  moreover have "d = a" if "qshape (Q ?t) a = Some (h, r)" "d \<in> live (H ?t)" "handle_field ?t d = h" for a h r d
  proof -
    have "\<exists>r. qshape (Q s) a = Some (h, r)" using that(1) sh [of a] okx by (auto simp: context_ok_def split: if_splits)
    then show ?thesis using inv_fields(10) [OF inv, of a h _ d] that(2,3) hf by auto
  qed
  ultimately show ?thesis using w(1) inv tot unfolding srv_inv_def by (simp add: exI [of _ as])
qed

lemma context_release_ok:
  assumes inv: "srv_inv R B V s" and c: "c \<in># R"
  shows "\<exists>s' r. skynet_context_release s c = Inr (s', r) \<and> srv_inv (R - {#c#}) B V s' \<and> dead_same s s' \<and>
    r = (if c \<in> live (H s) \<or> 1 < count R c \<or> REMOTE s = Some c then Some c else None) \<and>
    H s' = H s \<and> (r = None \<or> ctxs s' c \<noteq> None)"
proof -
  obtain x where x: "ctxs s c = Some x" using inv_held [OF inv c] by blast
  note okx = inv_fields(6) [OF inv x] and q = inv_queue [OF inv x]
  have more: "ref x = 1 \<longleftrightarrow> \<not> (c \<in> live (H s) \<or> 1 < count R c \<or> REMOTE s = Some c)"
    using count_ref(1) [OF okx c] count_ref(2) [OF okx c, THEN Suc_leI] by (auto simp: le_less)
  show ?thesis
  proof (cases "ref x = 1")
    case False
    have "srv_inv (R - {#c#}) B V (set_ctx c (x\<lparr>ref := ref x - 1\<rparr>) s)"
      using okx c False by (intro inv_set_ref [OF inv x]) (auto simp: context_ok_def)
    moreover have "dead_same s (set_ctx c (x\<lparr>ref := ref x - 1\<rparr>) s)" by (rule dead_same_Q) simp
    moreover have "skynet_context_release s c = Inr (set_ctx c (x\<lparr>ref := ref x - 1\<rparr>) s, Some c)"
      using x False by (simp add: skynet_context_release_def Let_def)
    ultimately show ?thesis using more False by simp
  next
    case True
    obtain as where rep: "sys_rep (Q s) B as" using inv_rep [OF inv] by blast
    obtain w as' where w: "skynet_mq_mark_release (Q s) c = Inr w" "sys_rep w B as'"
      using mark_release_step [OF rep q(2)] by blast
    obtain q0 where q0: "mqs (Q s) c = Some q0" "MessageQueue.handle q0 = ctx_handle x" using q(1) by (auto simp: qshape_iff)
    have v: "views w = (views (Q s))(c \<mapsto> (ctx_handle x, 1, messages s c))"
      using mark_release_views [OF w(1) q0(1)] q0 messages_view [OF q0(1)] by simp
    have rd: "read_cell (mod_m (M s)) (ctx_mod x) = Inr (module_at (M s) (ctx_mod x))"
      using okx by (intro read_module inv_fields(2) [OF inv]) (simp add: context_ok_def)
    let ?t = "s\<lparr>Q := w, ctxs := (ctxs s)(c := None), total := total s - 1\<rparr>"
    let ?tr = "trace s @ (if logfile x then [Log_close (ctx_handle x)] else []) @
      (if mod_release (module_at (M s) (ctx_mod x)) \<noteq> None then [Instance_release (ctx_mod x) (inst x)] else [])"
    have rel: "skynet_context_release s c = Inr (?t\<lparr>trace := ?tr\<rparr>, None)"
      using x True w(1) rd q(3)
      by (cases s) (simp add: skynet_context_release_def delete_context_def skynet_module_instance_release_def Let_def emit_def set_ctx_def)
    have "srv_inv (R - {#c#}) B V (?t\<lparr>trace := ?tr\<rparr>)"
      unfolding srv_inv_other by (rule inv_delete [OF inv x c True w(2) v])
    moreover have "dead_same s (?t\<lparr>trace := ?tr\<rparr>)" by (rule dead_same_upd [OF q(1)]) (simp add: v)
    ultimately show ?thesis using rel True more by auto
  qed
qed

lemma context_release_add:
  assumes "srv_inv (add_mset c R) B V s"
  obtains s' r where "skynet_context_release s c = Inr (s', r)" "srv_inv R B V s'" "dead_same s s'" "H s' = H s"
    "r = None \<or> ctxs s' c \<noteq> None" "r = (if c \<in> live (H s) \<or> c \<in># R \<or> REMOTE s = Some c then Some c else None)"
proof -
  have "1 < count (add_mset c R) c \<longleftrightarrow> c \<in># R" by (simp add: count_eq_zero_iff [symmetric])
  with context_release_ok [OF assms, of c] that show thesis by (elim meta_impE exE conjE) simp_all
qed

text \<open>Changes of the handle table that leave the set of contexts alone (names), and the retirement of one.\<close>

lemma handle_field_H [simp]: "handle_field (s\<lparr>H := hs\<rparr>) = handle_field s"
  by (auto simp: handle_field_def)

lemma inv_set_H:
  assumes inv: "srv_inv R B V s" and hs: "handle_inv (handle_field s) hs" and lv: "live hs \<subseteq> live (H s)"
    and R': "\<And>c. count R' c = count R c + (if c \<in> live (H s) - live hs then 1 else 0)"
  shows "srv_inv R' B V (s\<lparr>H := hs\<rparr>)"
proof -
  have rf: "refs R' (s\<lparr>H := hs\<rparr>) = refs R s"
    using lv R' by (auto simp: refs_def fun_eq_iff)
  then have "context_ok R' (s\<lparr>H := hs\<rparr>) c x = context_ok R s c x" for c x by (simp add: context_ok_def)
  then show ?thesis using inv hs lv rf unfolding srv_inv_def by (simp add: subset_iff)
qed

lemma retire_locked_ok:
  assumes si: "slots_inv hf s" and ni: "names_inv s" and c: "c \<in> live s"
  obtains s' where "handle_retire_locked hf s (hf c) = Inr (s', Some c)" "handle_inv hf s'"
    "live s' = live s - {c}" "slot_size s' = slot_size s"
proof -
  let ?i = "hash_of (slot_size s) (hf c)"
  obtain s' where r: "handle_retire_locked hf s (hf c) = Inr (s', Some c)" "slot s' = (slot s)[?i := None]"
      "slot_size s' = slot_size s" "harbor s' = harbor s" "names_inv s'"
    using retire_hit [OF si ni c] by auto
  have "slot s ! ?i = Some c" by (rule live_slot [OF si c])
  with clear_slot [OF si hash_of_less [OF si] r(2-4)] r that show thesis by (auto simp: handle_inv_def)
qed

lemma handle_retire_ok:
  assumes inv: "srv_inv R B V s"
  shows "\<exists>s' r. handle_retire s h = Inr (s', r) \<and> srv_inv R B V s' \<and> dead_same s s' \<and>
    slot_size (H s') = slot_size (H s) \<and> live (H s') = {c \<in> live (H s). handle_field s c \<noteq> h} \<and>
    r = (\<exists>c \<in> live (H s). handle_field s c = h)"
proof (cases "skynet_handle_grab (handle_field s) (H s) h")
  case None
  note si = inv_fields(4) [OF inv]
  have "\<forall>c \<in> live (H s). handle_field s c \<noteq> h" using None grab_None_iff [OF si] by simp
  moreover have "handle_retire s h = Inr (s, False)"
    using touch_slot [OF inv, of h] retire_miss [OF si None] by (simp add: handle_retire_def Let_def)
  ultimately show ?thesis using inv by (intro exI [of _ s] exI [of _ False]) (simp, blast)
next
  case (Some c)
  note si = inv_fields(4) [OF inv]
  from Some have c: "c \<in> live (H s)" "handle_field s c = h" using grab_iff [OF si] by simp_all
  obtain hs where hs: "handle_retire_locked (handle_field s) (H s) (handle_field s c) = Inr (hs, Some c)"
      "handle_inv (handle_field s) hs" "live hs = live (H s) - {c}" "slot_size hs = slot_size (H s)"
    by (rule retire_locked_ok [OF si inv_fields(5) [OF inv] c(1)])
  have inv': "srv_inv (add_mset c R) B V (s\<lparr>H := hs\<rparr>)"
    by (rule inv_set_H [OF inv hs(2)]) (simp_all add: hs(3), use c(1) in blast)
  obtain s' r where s': "skynet_context_release (s\<lparr>H := hs\<rparr>) c = Inr (s', r)" "srv_inv R B V s'"
      "dead_same (s\<lparr>H := hs\<rparr>) s'" "H s' = hs"
    by (rule context_release_add [OF inv']) simp
  have "handle_field s d = h \<longleftrightarrow> d = c" if "d \<in> live (H s)" for d
    using that live_inj [OF si _ c(1), of d] c(2) by metis
  then have "{d \<in> live (H s). handle_field s d \<noteq> h} = live (H s) - {c}" using c(1) by blast
  moreover have "handle_retire s h = Inr (s', True)"
    using touch_slot [OF inv, of h] hs(1) c(2) s'(1) by (simp add: handle_retire_def Let_def)
  moreover have "dead_same s s'" using s'(3) by (simp add: dead_same_def)
  moreover have "\<exists>c \<in> live (H s). handle_field s c = h" using c by blast
  ultimately show ?thesis using s'(2,4) hs(3,4) by (intro exI [of _ s'] exI [of _ True]) simp
qed

lemma retire_slots_ok:
  "srv_inv R B V s \<Longrightarrow> \<forall>i \<in> set is. i < slot_size (H s) \<Longrightarrow>
    \<exists>s' n. retire_slots is s = Inr (s', n) \<and> srv_inv R B V s' \<and> slot_size (H s') = slot_size (H s) \<and>
      live (H s') \<subseteq> live (H s) \<and> (n = 0 \<or> live (H s') \<subset> live (H s))"
proof (induction "is" arbitrary: s)
  case Nil
  then show ?case by simp
next
  case (Cons i "is")
  let ?h = "case slot (H s) ! i of None \<Rightarrow> 0 | Some c \<Rightarrow> handle_field s c"
  have t: "touch s [slot (H s) ! i] = Inr ()"
    using Cons.prems slot_mem [OF Cons.prems(1), of i] by (intro touch_live [OF Cons.prems(1)]) auto
  show ?case
  proof (cases "?h = 0")
    case True
    then show ?thesis using Cons.IH [OF Cons.prems(1)] Cons.prems(2) t by (simp add: Let_def)
  next
    case False
    obtain s1 r where s1: "handle_retire s ?h = Inr (s1, r)" "srv_inv R B V s1" "slot_size (H s1) = slot_size (H s)"
        "live (H s1) = {c \<in> live (H s). handle_field s c \<noteq> ?h}" "r = (\<exists>c \<in> live (H s). handle_field s c = ?h)"
      using handle_retire_ok [OF Cons.prems(1), of ?h] by auto
    obtain s' n where s': "retire_slots is s1 = Inr (s', n)" "srv_inv R B V s'" "slot_size (H s') = slot_size (H s1)"
        "live (H s') \<subseteq> live (H s1)" "n = 0 \<or> live (H s') \<subset> live (H s1)"
      using Cons.IH [OF s1(2)] s1(3) Cons.prems(2) by auto
    have "retire_slots (i # is) s = Inr (s', if r then n + 1 else n)"
      using t False s1(1) s'(1) by (simp add: Let_def)
    moreover have "r \<Longrightarrow> live (H s1) \<subset> live (H s)" using s1(4,5) by auto
    moreover have "live (H s1) \<subseteq> live (H s)" using s1(4) by auto
    ultimately show ?thesis using s' s1(3) by (cases r) (auto simp del: retire_slots.simps)
  qed
qed

lemma retire_passes_ok:
  "srv_inv R B V s \<Longrightarrow> card (live (H s)) < k \<Longrightarrow> \<exists>s'. retire_passes k s = Inr s' \<and> srv_inv R B V s'"
proof (induction k arbitrary: s)
  case 0
  then show ?case by simp
next
  case (Suc k)
  obtain s' n where s': "retire_slots [0..<slot_size (H s)] s = Inr (s', n)" "srv_inv R B V s'"
      "n = 0 \<or> live (H s') \<subset> live (H s)"
    using retire_slots_ok [OF Suc.prems(1), of "[0..<slot_size (H s)]"] by auto
  show ?case
  proof (cases "n = 0")
    case True
    with s' show ?thesis by simp
  next
    case False
    have "finite (live (H s))" unfolding live_def by (rule finite_subset [of _ "the ` set (slot (H s))"]) force+
    then have "card (live (H s')) < card (live (H s))" using s'(3) False by (auto intro: psubset_card_mono)
    then show ?thesis using Suc.IH [OF s'(2)] Suc.prems(2) s'(1) False by simp
  qed
qed

lemma live_card: "slots_inv hf s \<Longrightarrow> card (live s) \<le> slot_size s"
proof -
  assume si: "slots_inv hf s"
  have "live s \<subseteq> the ` set (slot s)" by (force simp: live_def)
  then have "card (live s) \<le> card (the ` set (slot s))" by (intro card_mono) simp_all
  also have "\<dots> \<le> length (slot s)" using card_image_le [of "set (slot s)" the] card_length [of "slot s"] by simp
  finally show ?thesis using si by (simp add: slots_inv_def)
qed

lemma handle_retireall_ok: "srv_inv R B V s \<Longrightarrow> \<exists>s'. handle_retireall s = Inr s' \<and> srv_inv R B V s'"
  unfolding handle_retireall_def
  by (rule retire_passes_ok) (use live_card [OF inv_fields(4)] in \<open>auto simp: less_Suc_eq_le\<close>)

section \<open>Sending\<close>

text \<open>The contract of a call: the invariant is kept and the queues of dead contexts are left alone.\<close>

definition keeps :: "ctx multiset \<Rightarrow> mqid set \<Rightarrow> int \<Rightarrow> server \<Rightarrow> server \<Rightarrow> bool" where
  "keeps R B V s s' \<longleftrightarrow> srv_inv R B V s' \<and> dead_same s s'"

lemma keeps_inv: "keeps R B V s s' \<Longrightarrow> srv_inv R B V s'"
  by (simp add: keeps_def)

lemma keeps_trans: "keeps R B V s t \<Longrightarrow> keeps R B V t u \<Longrightarrow> keeps R B V s u"
  by (auto simp: keeps_def intro: dead_same_trans)

lemma keeps_refl: "srv_inv R B V s \<Longrightarrow> keeps R B V s s"
  by (simp add: keeps_def)

lemma keeps_Q: "srv_inv R B V s' \<Longrightarrow> Q s' = Q s \<Longrightarrow> keeps R B V s s'"
  by (simp add: keeps_def dead_same_Q)

lemma free_Q [simp]: "Q (skynet_free s p) = Q s" "H (skynet_free s p) = H s"
  by (simp_all add: skynet_free_def)

lemma push_keeps:
  assumes inv: "srv_inv R B V s"
  shows "\<exists>s' r. skynet_context_push s h m = Inr (s', r) \<and> keeps R B V s s' \<and>
    H s' = H s \<and> ctxs s' = ctxs s \<and> REMOTE s' = REMOTE s \<and> monitor_exit s' = monitor_exit s"
proof (cases rule: context_push_ok [OF inv, of h m])
  case 1
  then show ?thesis using inv by (intro exI [of _ s] exI [of _ False]) (simp add: keeps_refl)
next
  case (2 c x w)
  have "dead_same s (s\<lparr>Q := w\<rparr>)"
    by (rule dead_same_upd [OF inv_queue(1) [OF inv 2(2)]]) (simp add: 2(6))
  with 2 show ?thesis by (intro exI [of _ "s\<lparr>Q := w\<rparr>"] exI [of _ True]) (simp add: keeps_def)
qed

lemma error_keeps:
  assumes inv: "srv_inv R B V s" and c: "\<And>c. cx = Some c \<Longrightarrow> \<exists>x. ctxs s c = Some x"
  shows "\<exists>s'. skynet_error s cx msg = Inr s' \<and> keeps R B V s s' \<and> H s' = H s \<and> ctxs s' = ctxs s \<and>
    REMOTE s' = REMOTE s \<and> monitor_exit s' = monitor_exit s"
proof -
  let ?lg = "if logger s = 0 then case name_map (H s) ''logger'' of None \<Rightarrow> 0 | Some h \<Rightarrow> h else logger s"
  have lg: "(if logger s = 0 then skynet_handle_findname (H s) ''logger'' else Inr (logger s)) = Inr ?lg"
    using findname_spec [OF inv_fields(5) [OF inv]] by simp
  show ?thesis
  proof (cases "?lg = 0")
    case True
    then show ?thesis using inv by (simp add: skynet_error_def lg Let_def keeps_Q split del: if_split)
  next
    case False
    let ?s = "s\<lparr>logger := ?lg\<rparr>"
    let ?t = "fst (skynet_malloc ?s (text_bytes msg @ [0]))"
    have t: "H ?t = H s" "ctxs ?t = ctxs s" "REMOTE ?t = REMOTE s" "monitor_exit ?t = monitor_exit s" "Q ?t = Q s" "srv_inv R B V ?t"
      using inv by (simp_all add: skynet_malloc_def)
    obtain src where src: "(case cx of None \<Rightarrow> Inr 0 | Some c \<Rightarrow> andThen (deref (ctxs ?t) c) (\<lambda>x. Inr (ctx_handle x))) = Inr src"
      using c t(2) by (cases cx) auto
    obtain s' r where "skynet_context_push ?t ?lg
         \<lparr>source = src, session = 0, data = snd (skynet_malloc ?s (text_bytes msg @ [0])),
          sz = of_nat (length msg) OR push_bit MESSAGE_TYPE_SHIFT (word_of_int PTYPE_TEXT)\<rparr> = Inr (s', r)"
        "keeps R B V ?t s'" "H s' = H s" "ctxs s' = ctxs s" "REMOTE s' = REMOTE s" "monitor_exit s' = monitor_exit s"
      using push_keeps [OF t(6)] t by metis
    moreover have "keeps R B V s s'" using \<open>keeps R B V ?t s'\<close> t(5) by (simp add: keeps_def dead_same_def)
    ultimately show ?thesis
      using False src by (simp add: skynet_error_def lg Let_def case_prod_beta split del: if_split)
  qed
qed

lemma newsession_keeps:
  assumes inv: "srv_inv R B V s" and c: "c \<in># R"
  shows "\<exists>s' r. skynet_context_newsession s c = Inr (s', r) \<and> srv_inv R B V s' \<and> Q s' = Q s \<and> H s' = H s \<and> REMOTE s' = REMOTE s \<and> 0 < sint r"
proof -
  obtain x where x: "ctxs s c = Some x" using inv_held [OF inv c] by blast
  have "srv_inv R B V (set_ctx c (x\<lparr>session_id := v\<rparr>) s)" for v by (rule inv_set_ctx [OF inv x]) simp_all
  then show ?thesis using x by (simp add: skynet_context_newsession_def Let_def not_le)
qed

lemma filter_args_keeps:
  assumes inv: "srv_inv R B V s" and c: "\<And>c. cx = Some c \<Longrightarrow> c \<in># R"
    and none: "cx = None \<Longrightarrow> type AND PTYPE_TAG_ALLOCSESSION = 0"
  shows "ends_in soft (filter_args s cx type sess dat bs z) (\<lambda>(s', r). srv_inv R B V s' \<and> Q s' = Q s \<and> H s' = H s)"
proof -
  have "ends_in soft (if type AND PTYPE_TAG_ALLOCSESSION \<noteq> 0 then
           andThen (assert_that (sess = 0)) (\<lambda>_.
             case cx of None \<Rightarrow> Inl Bad_pointer | Some c \<Rightarrow> skynet_context_newsession s c)
         else Inr (s, sess)) (\<lambda>(s', r). srv_inv R B V s' \<and> Q s' = Q s \<and> H s' = H s)"
  proof (cases "type AND PTYPE_TAG_ALLOCSESSION = 0")
    case False
    then obtain c0 where "cx = Some c0" using none by (cases cx) auto
    then show ?thesis using False newsession_keeps [OF inv c, of c0] by (auto intro!: ends_in_assert)
  qed (simp add: inv)
  then show ?thesis
    unfolding filter_args_def Let_def
    by (rule ends_in_andThen) (auto simp: skynet_malloc_def)
qed

lemma harbor_send_keeps:
  assumes inv: "srv_inv R B V s" and rp: "rmsgs s rp = Some rm"
  shows "ends_in soft (skynet_harbor_send s rp src sess) (keeps R B V s)"
proof (cases "REMOTE s")
  case None
  then show ?thesis using rp by (simp add: skynet_harbor_send_def Let_def)
next
  case (Some c)
  then obtain x where x: "ctxs s c = Some x" using inv_fields(7) [OF inv, of c] by (auto simp: refs_def)
  let ?s = "s\<lparr>rmsgs := (rmsgs s)(rp \<mapsto> rm\<lparr>rm_sz := rm_sz rm AND MESSAGE_TYPE_MASK\<rparr>)\<rparr>"
  have inv': "srv_inv R B V ?s" using inv by simp
  have "ends_in soft (skynet_context_send ?s c rp SIZEOF_REMOTE_MESSAGE src ty sess) (keeps R B V s)" for ty
  proof -
    have sh: "qshape (Q ?s) c = Some (ctx_handle x, 0)" and cq: "ctx_queue x = c" using inv_queue [OF inv x] by simp_all
    obtain w where w: "skynet_mq_push (Q ?s) c \<lparr>source = src, session = sess, data = rp,
          sz = SIZEOF_REMOTE_MESSAGE OR push_bit MESSAGE_TYPE_SHIFT (word_of_int ty)\<rparr> = Inr w"
        "srv_inv R B V (?s\<lparr>Q := w\<rparr>)" "views w = (views (Q ?s))(c \<mapsto> (ctx_handle x, 0, messages ?s c @
          [\<lparr>source = src, session = sess, data = rp, sz = SIZEOF_REMOTE_MESSAGE OR push_bit MESSAGE_TYPE_SHIFT (word_of_int ty)\<rparr>]))"
      by (rule mq_push_ok [OF inv' sh])
    have "dead_same s (?s\<lparr>Q := w\<rparr>)" using sh by (intro dead_same_upd [of s c "ctx_handle x"]) (simp_all add: w(3))
    then show ?thesis using w(1,2) x cq by (simp add: skynet_context_send_def keeps_def)
  qed
  then show ?thesis using Some rp by (auto simp: skynet_harbor_send_def Let_def intro!: ends_in_assert)
qed

lemma isremote_soft: "ends_in soft (skynet_harbor_message_isremote s h) (\<lambda>_. True)"
  by (simp add: skynet_harbor_message_isremote_def assert_that_def Let_def)

lemma remote_keeps:
  assumes "srv_inv R B V s"
  shows "ends_in soft (skynet_harbor_send (fst (new_remote_message s rm)) (snd (new_remote_message s rm)) src sess) (keeps R B V s)"
proof -
  let ?s = "fst (new_remote_message s rm)"
  have "ends_in soft (skynet_harbor_send ?s (snd (new_remote_message s rm)) src sess) (keeps R B V ?s)"
    using assms by (intro harbor_send_keeps) (simp_all add: new_remote_message_def)
  then show ?thesis by (rule ends_in_weaken) (simp add: keeps_def dead_same_def new_remote_message_def)
qed

lemma remote_send_keeps:
  assumes "srv_inv R B V t" and "Q t = Q s"
  shows "ends_in soft (let (s, rp) = new_remote_message t rm in andThen (skynet_harbor_send s rp src sess) (\<lambda>s. Inr (s, sess)))
    (\<lambda>(s', r). keeps R B V s s')"
  unfolding case_prod_beta Let_def
  by (rule ends_in_andThen [OF remote_keeps [OF assms(1)]]) (simp add: keeps_def dead_same_def assms(2))

lemma send_keeps:
  assumes inv: "srv_inv R B V s" and c: "\<And>c. cx = Some c \<Longrightarrow> c \<in># R"
    and none: "cx = None \<Longrightarrow> type AND PTYPE_TAG_ALLOCSESSION = 0 \<and> src \<noteq> 0"
  shows "ends_in soft (skynet_send s cx src dest type sess dat bs z) (\<lambda>(s', r). keeps R B V s s')"
proof (cases "z AND MESSAGE_TYPE_MASK = z")
  case False
  have "\<exists>x. ctxs s c = Some x" if "cx = Some c" for c using inv_held [OF inv c [OF that]] .
  from error_keeps [OF inv this] obtain s' where
    "skynet_error s cx (''The message to '' @ hex_text dest @ '' is too large'') = Inr s'" "keeps R B V s s'" by blast
  with False show ?thesis by (simp add: skynet_send_def keeps_def dead_same_def)
next
  case True
  have source_ok: "ends_in soft (if src = 0 then (case cx of None \<Rightarrow> Inl Bad_pointer
      | Some c \<Rightarrow> andThen (deref (ctxs t) c) (\<lambda>x. Inr (ctx_handle x))) else Inr src) (\<lambda>_. True)" if "srv_inv R B V t" for t
    using none c inv_held [OF that] by (cases cx) force+
  have rest: "ends_in soft
      (if dest = 0 then Inr (t, sess')
       else andThen (skynet_harbor_message_isremote t dest) (\<lambda>remote.
          if remote then
            let (s, rp) = new_remote_message t
                  \<lparr>destination = \<lparr>rn_name = [], rn_handle = dest\<rparr>, rmessage = dat', rm_sz = z'\<rparr> in
            andThen (skynet_harbor_send s rp src' sess') (\<lambda>s. Inr (s, sess'))
          else
            andThen (skynet_context_push t dest \<lparr>source = src', session = sess', data = dat', sz = z'\<rparr>) (\<lambda>(s, ok).
              if ok then Inr (s, sess') else Inr (skynet_free s dat', -1)))) (\<lambda>(s', r). keeps R B V s s')"
    if t: "srv_inv R B V t" "Q t = Q s" for t sess' dat' z' src'
  proof -
    have weak: "keeps R B V t u \<Longrightarrow> keeps R B V s u" for u using t(2) by (simp add: keeps_def dead_same_def)
    obtain u ok where "skynet_context_push t dest \<lparr>source = src', session = sess', data = dat', sz = z'\<rparr> = Inr (u, ok)"
        "keeps R B V s u" using push_keeps [OF t(1)] weak by blast
    moreover from this have "keeps R B V s (skynet_free u dat')" by (simp add: keeps_def dead_same_def)
    moreover have "keeps R B V s t" using t by (simp add: keeps_Q)
    ultimately show ?thesis
      using remote_send_keeps [OF t] by (auto intro!: ends_in_andThen [OF isremote_soft])
  qed
  show ?thesis
    unfolding skynet_send_def using True
    by (auto intro!: ends_in_andThen [OF filter_args_keeps [OF inv c]] ends_in_andThen [OF source_ok] rest simp: none)
qed

lemma sendname_keeps:
  assumes inv: "srv_inv R B V s" and c: "c \<in># R"
  shows "ends_in soft (skynet_sendname s c src addr type sess dat bs z) (\<lambda>(s', r). keeps R B V s s')"
proof -
  obtain x where x: "ctxs s c = Some x" using inv_held [OF inv c] by blast
  have snd: "ends_in soft (skynet_send s (Some c) src' dest type sess dat bs z) (\<lambda>(s', r). keeps R B V s s')" for src' dest
    by (rule send_keeps [OF inv]) (simp_all add: c)
  obtain des where des: "skynet_handle_findname (H s) (tl addr) = Inr des" using findname_spec [OF inv_fields(5) [OF inv]] by blast
  have remote: "ends_in soft (andThen (filter_args s (Some c) type sess dat bs z) (\<lambda>(s, sess, dat, z).
       let (s, rp) = new_remote_message s
             \<lparr>destination = rn, rmessage = dat, rm_sz = z\<rparr> in
       andThen (skynet_harbor_send s rp src' sess) (\<lambda>s. Inr (s, sess)))) (\<lambda>(s', r). keeps R B V s s')" for src' rn
  proof (rule ends_in_andThen [OF filter_args_keeps [OF inv]])
    fix r :: "server \<times> 32 word \<times> ptr \<times> u64"
    assume "case r of (s', r) \<Rightarrow> srv_inv R B V s' \<and> Q s' = Q s \<and> H s' = H s"
    then show "ends_in soft (case r of (s, sess, dat, z) \<Rightarrow> let (s, rp) = new_remote_message s
             \<lparr>destination = rn, rmessage = dat, rm_sz = z\<rparr> in
         andThen (skynet_harbor_send s rp src' sess) (\<lambda>s. Inr (s, sess))) (\<lambda>(s', r). keeps R B V s s')"
      using remote_send_keeps by (cases r) auto
  qed (simp_all add: c)
  show ?thesis
    unfolding skynet_sendname_def using x snd des remote inv
    by (simp add: keeps_Q)
qed

section \<open>Dropping a queue\<close>

lemma drop_message_keeps:
  assumes inv: "srv_inv R B V s"
  shows "ends_in soft (drop_message s m h) (keeps R B V s)"
proof -
  have tag: "PTYPE_ERROR AND PTYPE_TAG_ALLOCSESSION = 0" by (simp add: PTYPE_ERROR_def PTYPE_TAG_ALLOCSESSION_def)
  have "ends_in soft (skynet_send (skynet_free s (data m)) None h (source m) PTYPE_ERROR 0 0 [] 0)
      (\<lambda>(s', r). keeps R B V s s')" if "h \<noteq> 0"
    by (rule ends_in_weaken [OF send_keeps [of R B V]]) (use inv that tag in \<open>auto simp: keeps_def dead_same_def\<close>)
  then show ?thesis unfolding drop_message_def Let_def
    by (intro ends_in_assert) (auto intro: ends_in_andThen)
qed

lemma inv_busy: "srv_inv R B V s \<Longrightarrow> a \<in> B \<Longrightarrow> \<exists>q. mqs (Q s) a = Some q"
  using inv_rep [of R B V s] by (auto simp: sys_rep_def)

lemma views_queue: "mqs w a = Some q \<Longrightarrow> views w a = Some (MessageQueue.handle q, release q, mq_contents q)"
  by (simp add: views_def view_def)

text \<open>Popping from the queue of a dead context.\<close>

lemma dead_pop:
  assumes rep: "sys_rep w B as" and q: "mqs w a = Some q" "release q \<noteq> 0"
  obtains w' r where "world_pop w a = Inr (w', r)" "sys_rep w' B as"
proof -
  note node = sys_rep_node [OF rep q(1)]
  have inv: "mq_inv q" by (rule node_ok_inv [OF node])
  have busy: "a \<in> set as \<union> B" using node q(2) by (simp add: node_ok_def)
  have dead: "mq_inv q' \<Longrightarrow> release q' \<noteq> 0 \<Longrightarrow> node_ok (set as \<union> B) a q'" for q' using busy by (simp add: node_ok_def)
  show thesis
  proof (cases "mq_contents q")
    case Nil
    let ?q = "q\<lparr>overload_threshold := MQ_OVERLOAD, in_global := 0\<rparr>"
    have "mq_inv ?q" using inv by (simp add: mq_inv_def mq_cell_def skynet_mq_length_def MQ_OVERLOAD_def)
    then have "sys_rep (set_mq a ?q w) B as" using dead [of ?q] q by (intro sys_rep_set_mq [OF rep q(1)]) simp_all
    moreover have "world_pop w a = Inr (set_mq a ?q w, None)"
      using q Nil mq_contents_Nil_iff [OF inv] by (simp add: world_pop_def skynet_mq_pop_def)
    ultimately show ?thesis using that by blast
  next
    case (Cons m ms)
    obtain q' where q': "skynet_mq_pop q = Inr (q', Some m)" "mq_inv q'" "release q' = release q" "next q' = next q"
      using mq_pop_Cons [OF inv Cons] by metis
    then have "sys_rep (set_mq a q' w) B as" using dead [of q'] q by (intro sys_rep_set_mq [OF rep q(1)]) simp_all
    moreover have "world_pop w a = Inr (set_mq a q' w, Some m)" using q q' by (simp add: world_pop_def)
    ultimately show ?thesis using that by blast
  qed
qed

lemma drop_messages_ok:
  "srv_inv R B V s \<Longrightarrow> views (Q s) a = Some (h0, r, ms) \<Longrightarrow> r \<noteq> 0 \<Longrightarrow> length ms < k \<Longrightarrow>
    ends_in soft (drop_messages k s a h) (\<lambda>s'. srv_inv R B V s' \<and> views (Q s') a = Some (h0, r, []))"
proof (induction k arbitrary: s ms)
  case 0
  then show ?case by simp
next
  case (Suc k)
  note inv = Suc.prems(1)
  obtain as where rep: "sys_rep (Q s) B as" using inv_rep [OF inv] by blast
  obtain q where q: "mqs (Q s) a = Some q" "MessageQueue.handle q = h0" "release q = r" "mq_contents q = ms"
    using Suc.prems(2) by (auto simp: views_iff view_def)
  obtain w o' where w: "world_pop (Q s) a = Inr (w, o')" "sys_rep w B as"
    using dead_pop [OF rep q(1)] q(3) Suc.prems(3) by blast
  from world_pop_views [OF w(1) q(1) node_ok_inv [OF sys_rep_node [OF rep q(1)]]] show ?case
  proof (elim disjE exE conjE)
    assume v: "mq_contents q = []" "o' = None" "views w = views (Q s)"
    then have "srv_inv R B V (s\<lparr>Q := w\<rparr>)" using inv_set_Q [OF inv w(2)] by (simp add: qshape_def [abs_def])
    then show ?thesis using w(1) v q(4) Suc.prems(2) by simp
  next
    fix m ms'
    assume v: "mq_contents q = m # ms'" "o' = Some m" "views w = (views (Q s))(a \<mapsto> (MessageQueue.handle q, release q, ms'))"
    have "qshape w = qshape (Q s)"
      by (rule qshape_upd [of _ a h0 r]) (use Suc.prems(2) v(3) q(2,3) in \<open>auto simp: qshape_def\<close>)
    then have inv': "srv_inv R B V (s\<lparr>Q := w\<rparr>)" by (rule inv_set_Q [OF inv w(2)])
    have "views w a = Some (h0, r, ms')" using v(3) q(2,3) by simp
    then have "ends_in soft (andThen (drop_message (s\<lparr>Q := w\<rparr>) m h) (\<lambda>s. drop_messages k s a h))
        (\<lambda>s'. srv_inv R B V s' \<and> views (Q s') a = Some (h0, r, []))"
      using Suc.prems(3,4) v(1) q(4)
      by (intro ends_in_andThen [OF drop_message_keeps [OF inv']] Suc.IH [of _ ms']) (auto simp: keeps_def dead_same_def)
    then show ?thesis using w(1) v(2) by simp
  qed
qed

lemma inv_free:
  assumes inv: "srv_inv R B V s" and a: "a \<in> B" and v: "views (Q s) a = Some (h0, r, ms)" "r \<noteq> 0"
  obtains w where "mq_free (Q s) a = Inr w" "srv_inv R (B - {a}) V (s\<lparr>Q := w\<rparr>)"
proof -
  obtain as where rep: "sys_rep (Q s) B as" using inv_rep [OF inv] by blast
  have na: "a \<notin> set as" using rep a by (auto simp: sys_rep_def)
  obtain q where q: "mqs (Q s) a = Some q" using v(1) by (auto simp: views_iff)
  define w where "w = (Q s)\<lparr>mqs := (mqs (Q s))(a := None)\<rparr>"
  have f: "mq_free (Q s) a = Inr w" using q sys_rep_next [OF rep q na] by (simp add: mq_free_def w_def)
  have sh: "qshape w b = (if b = a then None else qshape (Q s) b)" for b
    using mq_free_views [OF f] by (simp add: qshape_def)
  have hf: "handle_field (s\<lparr>Q := w\<rparr>) = handle_field s" "refs R (s\<lparr>Q := w\<rparr>) = refs R s"
    by (auto simp: handle_field_def refs_def)
  have sa: "qshape (Q s) a = Some (h0, r)" using v(1) by (simp add: qshape_def)
  have "context_ok R (s\<lparr>Q := w\<rparr>) c x" if "ctxs s c = Some x" for c x
  proof -
    have "c \<noteq> a" using inv_fields(6) [OF inv that] v(2) sa by (auto simp: context_ok_def)
    then show ?thesis using inv_fields(6) [OF inv that] by (simp add: context_ok_def hf sh)
  qed
  moreover have "b < next_ctx s" if "qshape w b \<noteq> None" for b
    using that sh [of b] inv_fields(9) [OF inv, of b] by (auto split: if_splits)
  moreover have "d = b" if "qshape w b = Some (h, k)" "d \<in> live (H s)" "handle_field s d = h" for b h k d
    using that sh [of b] inv_fields(10) [OF inv, of b h k d] by (auto split: if_splits)
  ultimately have "srv_inv R (B - {a}) V (s\<lparr>Q := w\<rparr>)"
    using inv sys_rep_free [OF rep na, folded w_def] hf unfolding srv_inv_def by (simp add: exI [of _ as])
  with f that show thesis by blast
qed

lemma release_queue_ok:
  assumes inv: "srv_inv R B V s" and a: "a \<in> B"
  shows "ends_in soft (release_queue s a h) (srv_inv R (B - {a}) V)"
proof -
  obtain q where q: "mqs (Q s) a = Some q" using inv_busy [OF inv a] by blast
  show ?thesis
  proof (cases "release q = 0")
    case True
    obtain w where "skynet_globalmq_push (Q s) a = Inr w" "srv_inv R (B - {a}) V (s\<lparr>Q := w\<rparr>)"
      by (rule give_back_ok [OF inv a])
    with True q show ?thesis by (simp add: release_queue_def)
  next
    case False
    have v: "views (Q s) a = Some (MessageQueue.handle q, release q, mq_contents q)" by (rule views_queue [OF q])
    have d: "ends_in soft (drop_messages (Suc (skynet_mq_length q)) s a h)
        (\<lambda>s'. srv_inv R B V s' \<and> views (Q s') a = Some (MessageQueue.handle q, release q, []))"
      by (rule drop_messages_ok [OF inv v]) (use False in simp_all)
    have f: "ends_in soft (andThen (mq_free (Q t) a) (\<lambda>w. Inr (t\<lparr>Q := w\<rparr>))) (srv_inv R (B - {a}) V)"
      if t: "srv_inv R B V t \<and> views (Q t) a = Some (MessageQueue.handle q, release q, [])" for t
    proof -
      obtain w where "mq_free (Q t) a = Inr w" "srv_inv R (B - {a}) V (t\<lparr>Q := w\<rparr>)"
        by (rule inv_free [OF conjunct1 [OF t] a conjunct2 [OF t] False])
      then show ?thesis by simp
    qed
    have "release_queue s a h = andThen (drop_messages (Suc (skynet_mq_length q)) s a h) (\<lambda>s.
       andThen (mq_free (Q s) a) (\<lambda>w. Inr (s\<lparr>Q := w\<rparr>)))"
      using q False by (simp add: release_queue_def del: drop_messages.simps)
    then show ?thesis by (simp only: ends_in_andThen [OF d f])
  qed
qed

end
