(* ===== verification/Harbor.thy ===== *)
theory Harbor
  imports ServerInv
begin

text \<open>
  Model of \<^verbatim>\<open>service-src/service_harbor.c\<close>: the service that carries messages between nodes. It holds one
  link (\<open>slave\<close>) per remote node, the table of global names, and queues of messages that wait for a link
  or for a name. Packages on a link are a 4 byte length, the payload and a 12 byte header.

  The state is the record \<open>harbor\<close>. The blocks of memory that messages point to are in \<open>hmem\<close>: freeing a
  block that is not there (a double free) is \<open>Bad_pointer\<close>, and a block that is given to \<open>skynet_send\<close>
  leaves it. The receive buffer of a link is a list in its record, with \<open>None\<close> for a byte that was not written. The calls
  into the engine are effects; whether \<open>skynet_send\<close> finds the receiver is
  the argument \<open>send_ok\<close>. Chains of the name table are lists.
\<close>

section \<open>Data\<close>

definition HASH_SIZE :: nat where "HASH_SIZE = 4096"
definition HARBOR_QUEUE_SIZE :: nat where "HARBOR_QUEUE_SIZE = 1024"
definition HEADER_COOKIE_LENGTH :: nat where "HEADER_COOKIE_LENGTH = 12"
definition REMOTE_MAX :: nat where "REMOTE_MAX = 256"

record remote_message_header =
  rh_source :: u32
  rh_destination :: u32
  rh_session :: u32

record harbor_msg =
  hm_header :: remote_message_header
  hm_buffer :: ptr
  hm_size :: u64

text \<open>
  The size and the indices of a queue are \<^verbatim>\<open>int\<close> in the source and natural numbers here; as a queue is doubled only when it
  is full, these agree while fewer than \<open>2 ^ 30\<close> messages wait in it.
\<close>

record harbor_msg_queue =
  hq_size :: nat
  hq_head :: nat
  hq_tail :: nat
  hq_data :: "harbor_msg option list"

record keyvalue =
  kv_key :: "u8 list"
  kv_hash :: u32
  kv_value :: u32
  kv_queue :: "harbor_msg_queue option"

type_synonym hashmap = "keyvalue list list"

datatype status = STATUS_WAIT | STATUS_HANDSHAKE | STATUS_HEADER | STATUS_CONTENT | STATUS_DOWN

record slave =
  s_fd :: int
  s_queue :: "harbor_msg_queue option"
  s_status :: status
  s_length :: nat
  s_read :: nat
  s_size :: "u8 list"
  recv_buffer :: "u8 option list"

record harbor =
  h_id :: int
  h_slave :: u32
  h_map :: hashmap
  h_s :: "slave list"
  h_mem :: "ptr \<rightharpoonup> u8 list"

datatype harbor_effect =
    Hsend u32 u32 int u32 "u8 list"
  | Hsocket_send int "u8 list"
  | Hsocket_close int
  | Hsocket_start int
  | Herror string

section \<open>Memory\<close>

definition free_block :: "(ptr \<rightharpoonup> u8 list) \<Rightarrow> ptr \<Rightarrow> (ptr \<rightharpoonup> u8 list) res" where
  "free_block mem p = (if p = 0 then Inr mem else andThen (deref mem p) (\<lambda>_. Inr (mem(p := None))))"

text \<open>The first \<open>n\<close> bytes at a pointer.\<close>

definition read_block :: "(ptr \<rightharpoonup> u8 list) \<Rightarrow> ptr \<Rightarrow> u64 \<Rightarrow> u8 list res" where
  "read_block mem p n =
     (if n = 0 then Inr []
      else andThen (deref mem p) (\<lambda>bs. if unat n \<le> length bs then Inr (take (unat n) bs) else Inl Out_of_range))"

text \<open>A block is handed over by \<open>skynet_send\<close> with \<^verbatim>\<open>PTYPE_TAG_DONTCOPY\<close>.\<close>

definition give_block ::
  "(ptr \<rightharpoonup> u8 list) \<Rightarrow> u32 \<Rightarrow> u32 \<Rightarrow> int \<Rightarrow> u32 \<Rightarrow> ptr \<Rightarrow> u64 \<Rightarrow> ((ptr \<rightharpoonup> u8 list) \<times> harbor_effect list) res" where
  "give_block mem src dest type sess p n =
     andThen (read_block mem p n) (\<lambda>bs.
     andThen (free_block mem p) (\<lambda>mem'. Inr (mem', [Hsend src dest (type OR PTYPE_TAG_DONTCOPY) sess bs])))"

section \<open>Queues\<close>

definition push_queue_msg :: "harbor_msg_queue \<Rightarrow> harbor_msg \<Rightarrow> harbor_msg_queue res" where
  "push_queue_msg q m =
     (let q = (if (hq_tail q + 1) mod hq_size q = hq_head q
               then q\<lparr>hq_data := map (\<lambda>i. hq_data q ! ((i + hq_head q) mod hq_size q)) [0..<hq_size q - 1] @
                        replicate (hq_size q + 1) None,
                      hq_head := 0, hq_tail := hq_size q - 1, hq_size := hq_size q * 2\<rparr>
               else q)
      in andThen (write_cell (hq_data q) (hq_tail q) m) (\<lambda>d.
           Inr (q\<lparr>hq_data := d, hq_tail := (hq_tail q + 1) mod hq_size q\<rparr>)))"

definition push_queue :: "harbor_msg_queue \<Rightarrow> ptr \<Rightarrow> u64 \<Rightarrow> remote_message_header \<Rightarrow> harbor_msg_queue res" where
  "push_queue q p n hdr = push_queue_msg q \<lparr>hm_header = hdr, hm_buffer = p, hm_size = n\<rparr>"

definition pop_queue :: "harbor_msg_queue \<Rightarrow> (harbor_msg_queue \<times> harbor_msg option) res" where
  "pop_queue q =
     (if hq_head q = hq_tail q then Inr (q, None)
      else andThen (read_cell (hq_data q) (hq_head q)) (\<lambda>m.
        Inr (q\<lparr>hq_head := (hq_head q + 1) mod hq_size q\<rparr>, Some m)))"

definition new_queue :: harbor_msg_queue where
  "new_queue = \<lparr>hq_size = HARBOR_QUEUE_SIZE, hq_head = 0, hq_tail = 0, hq_data = replicate HARBOR_QUEUE_SIZE None\<rparr>"

text \<open>
  The loops that empty a queue: \<open>work\<close> is done for each message. A queue holds fewer messages than
  its size, which bounds the turns.
\<close>

fun drain_loop ::
  "nat \<Rightarrow> (harbor_msg \<Rightarrow> 's \<Rightarrow> ('s \<times> harbor_effect list) res) \<Rightarrow> harbor_msg_queue \<Rightarrow> 's \<Rightarrow>
    ((harbor_msg_queue \<times> 's) \<times> harbor_effect list) res" where
  "drain_loop 0 work q s = Inl Out_of_fuel"
| "drain_loop (Suc k) work q s =
     andThen (pop_queue q) (\<lambda>(q', r).
     case r of
       None \<Rightarrow> Inr ((q', s), [])
     | Some m \<Rightarrow> thenOut (work m s) (drain_loop k work q'))"

definition drain_queue ::
  "(harbor_msg \<Rightarrow> 's \<Rightarrow> ('s \<times> harbor_effect list) res) \<Rightarrow> harbor_msg_queue \<Rightarrow> 's \<Rightarrow>
    ((harbor_msg_queue \<times> 's) \<times> harbor_effect list) res" where
  "drain_queue work q s = drain_loop (Suc (hq_size q)) work q s"

definition release_queue_h ::
  "harbor_msg_queue option \<Rightarrow> (ptr \<rightharpoonup> u8 list) \<Rightarrow> (ptr \<rightharpoonup> u8 list) res" where
  "release_queue_h qo mem =
     (case qo of
        None \<Rightarrow> Inr mem
      | Some q \<Rightarrow>
          andThen (drain_queue (\<lambda>m mem. andThen (free_block mem (hm_buffer m)) (\<lambda>mem. Inr (mem, []))) q mem) (\<lambda>((_, mem), _).
            Inr mem))"

section \<open>Names\<close>

definition le32 :: "u8 list \<Rightarrow> u32" where
  "le32 b = ucast (b ! 0) OR push_bit 8 (ucast (b ! 1)) OR push_bit 16 (ucast (b ! 2)) OR push_bit 24 (ucast (b ! 3))"

text \<open>The 16 bytes of a name as four words of a little-endian host.\<close>

definition name_hash :: "u8 list \<Rightarrow> u32" where
  "name_hash nm = le32 nm XOR le32 (drop 4 nm) XOR le32 (drop 8 nm) XOR le32 (drop 12 nm)"

text \<open>\<^verbatim>\<open>strncmp\<close> compares up to the first zero.\<close>

definition strncmp_eq :: "u8 list \<Rightarrow> u8 list \<Rightarrow> bool" where
  "strncmp_eq a b \<longleftrightarrow>
     takeWhile (\<lambda>c. c \<noteq> 0) (take GLOBALNAME_LENGTH a) = takeWhile (\<lambda>c. c \<noteq> 0) (take GLOBALNAME_LENGTH b)"

definition name_bucket :: "u8 list \<Rightarrow> nat" where
  "name_bucket nm = unat (name_hash nm) mod HASH_SIZE"

definition name_match :: "u8 list \<Rightarrow> keyvalue \<Rightarrow> bool" where
  "name_match nm node \<longleftrightarrow> kv_hash node = name_hash nm \<and> strncmp_eq (kv_key node) nm"

definition hash_search :: "hashmap \<Rightarrow> u8 list \<Rightarrow> keyvalue option" where
  "hash_search hm nm = find (name_match nm) (hm ! name_bucket nm)"

definition hash_insert :: "hashmap \<Rightarrow> u8 list \<Rightarrow> hashmap \<times> keyvalue" where
  "hash_insert hm nm =
     (let node = \<lparr>kv_key = take GLOBALNAME_LENGTH nm, kv_hash = name_hash nm, kv_value = 0, kv_queue = None\<rparr>
      in (hm[name_bucket nm := node # hm ! name_bucket nm], node))"

text \<open>Writing to the node that a search returned.\<close>

fun set_first :: "('a \<Rightarrow> bool) \<Rightarrow> 'a \<Rightarrow> 'a list \<Rightarrow> 'a list" where
  "set_first f v [] = []"
| "set_first f v (x # xs) = (if f x then v # xs else x # set_first f v xs)"

definition set_node :: "hashmap \<Rightarrow> u8 list \<Rightarrow> keyvalue \<Rightarrow> hashmap" where
  "set_node hm nm node = hm[name_bucket nm := set_first (name_match nm) node (hm ! name_bucket nm)]"

definition hash_new :: hashmap where
  "hash_new = replicate HASH_SIZE []"

text \<open>The search with the insertion that follows when the name is new.\<close>

definition name_node :: "hashmap \<Rightarrow> u8 list \<Rightarrow> hashmap \<times> keyvalue" where
  "name_node hm nm = (case hash_search hm nm of None \<Rightarrow> hash_insert hm nm | Some node \<Rightarrow> (hm, node))"

fun delete_nodes :: "keyvalue list \<Rightarrow> (ptr \<rightharpoonup> u8 list) \<Rightarrow> (ptr \<rightharpoonup> u8 list) res" where
  "delete_nodes [] mem = Inr mem"
| "delete_nodes (n # ns) mem = andThen (release_queue_h (kv_queue n) mem) (delete_nodes ns)"

definition hash_delete :: "hashmap \<Rightarrow> (ptr \<rightharpoonup> u8 list) \<Rightarrow> (ptr \<rightharpoonup> u8 list) res" where
  "hash_delete hm mem = delete_nodes (concat hm) mem"

section \<open>Links\<close>

definition set_slave :: "nat \<Rightarrow> slave \<Rightarrow> harbor \<Rightarrow> harbor" where
  "set_slave i s h = h\<lparr>h_s := (h_s h)[i := s]\<rparr>"

definition close_harbor :: "harbor \<Rightarrow> nat \<Rightarrow> (harbor \<times> harbor_effect list) res" where
  "close_harbor h i =
     (let s = h_s h ! i in
      andThen (release_queue_h (s_queue s) (h_mem h)) (\<lambda>mem.
        Inr ((set_slave i (s\<lparr>s_status := STATUS_DOWN, s_queue := None\<rparr>) h)\<lparr>h_mem := mem\<rparr>,
             if s_fd s \<noteq> 0 then [Hsocket_close (s_fd s)] else [])))"

definition report_harbor_down :: "harbor \<Rightarrow> nat \<Rightarrow> harbor_effect list" where
  "report_harbor_down h i = [Hsend 0 (h_slave h) PTYPE_TEXT 0 (text_bytes ''D '' @ show_int (int i))]"

definition empty_slave :: slave where
  "empty_slave = \<lparr>s_fd = 0, s_queue = None, s_status = STATUS_WAIT, s_length = 0, s_read = 0, s_size = [0, 0, 0, 0], recv_buffer = []\<rparr>"

definition harbor_create :: harbor where
  "harbor_create = \<lparr>h_id = 0, h_slave = 0, h_map = hash_new, h_s = replicate REMOTE_MAX empty_slave, h_mem = Map.empty\<rparr>"

fun close_all :: "nat list \<Rightarrow> harbor \<Rightarrow> (harbor \<times> harbor_effect list) res" where
  "close_all [] h = Inr (h, [])"
| "close_all (i # is) h =
     thenOut (if s_fd (h_s h ! i) \<noteq> 0 \<and> s_status (h_s h ! i) \<noteq> STATUS_DOWN then close_harbor h i else Inr (h, []))
       (close_all is)"

definition harbor_release :: "harbor \<Rightarrow> (harbor \<times> harbor_effect list) res" where
  "harbor_release h =
     andThen (close_all [1..<REMOTE_MAX] h) (\<lambda>(h, out).
     andThen (hash_delete (h_map h) (h_mem h)) (\<lambda>mem. Inr (h\<lparr>h_map := [], h_mem := mem\<rparr>, out)))"

section \<open>Packages\<close>

definition to_bigendian :: "u32 \<Rightarrow> u8 list" where
  "to_bigendian n = [ucast (drop_bit 24 n), ucast (drop_bit 16 n), ucast (drop_bit 8 n), ucast n]"

definition header_to_message :: "remote_message_header \<Rightarrow> u8 list" where
  "header_to_message hdr = to_bigendian (rh_source hdr) @ to_bigendian (rh_destination hdr) @ to_bigendian (rh_session hdr)"

definition from_bigendian :: "u8 list \<Rightarrow> u32" where
  "from_bigendian b =
     push_bit 24 (ucast (b ! 0)) OR push_bit 16 (ucast (b ! 1)) OR push_bit 8 (ucast (b ! 2)) OR ucast (b ! 3)"

definition message_to_header :: "u8 list \<Rightarrow> remote_message_header" where
  "message_to_header b =
     \<lparr>rh_source = from_bigendian b, rh_destination = from_bigendian (drop 4 b), rh_session = from_bigendian (drop 8 b)\<rparr>"

text \<open>
  A received package goes to its local receiver. A package shorter than the header is read in front of
  the buffer.
\<close>

definition forward_local_messsage :: "(u32 \<Rightarrow> bool) \<Rightarrow> harbor \<Rightarrow> u8 list \<Rightarrow> harbor_effect list res" where
  "forward_local_messsage send_ok h msg =
     (if length msg < HEADER_COOKIE_LENGTH then Inl Out_of_range
      else
        let n = length msg - HEADER_COOKIE_LENGTH;
            hdr = message_to_header (drop n msg);
            type = uint (drop_bit HANDLE_REMOTE_SHIFT (rh_destination hdr));
            dest = (rh_destination hdr AND HANDLE_MASK) OR push_bit HANDLE_REMOTE_SHIFT (word_of_int (h_id h));
            r = (if dest = 0 \<or> send_ok dest then sint (rh_session hdr) else -1)
        in Inr (Hsend (rh_source hdr) dest (type OR PTYPE_TAG_DONTCOPY) (rh_session hdr) (take n msg) #
             (if r < 0 then
                (if type \<noteq> PTYPE_ERROR then [Hsend dest (rh_source hdr) PTYPE_ERROR (rh_session hdr) []] else []) @
                [Herror ''Unknown destination :%x from :%x type(%d)'']
              else [])))"

text \<open>\<open>send_remote\<close> with the bytes of the payload.\<close>

definition send_remote :: "int \<Rightarrow> u8 list \<Rightarrow> remote_message_header \<Rightarrow> harbor_effect list" where
  "send_remote fd payload cookie =
     (let sz_header = length payload + HEADER_COOKIE_LENGTH in
      if 0xffffffff < sz_header then [Herror ''remote message from :%08x to :%08x is too large.'']
      else [Hsocket_send fd (to_bigendian (of_nat sz_header) @ payload @ header_to_message cookie)])"

text \<open>Sending a waiting message and freeing its buffer.\<close>

definition send_queued :: "int \<Rightarrow> (u32 \<Rightarrow> u32) \<Rightarrow> harbor_msg \<Rightarrow> (ptr \<rightharpoonup> u8 list) \<Rightarrow> ((ptr \<rightharpoonup> u8 list) \<times> harbor_effect list) res" where
  "send_queued fd addr m mem =
     andThen (read_block mem (hm_buffer m) (hm_size m)) (\<lambda>bs.
     andThen (free_block mem (hm_buffer m)) (\<lambda>mem'.
       Inr (mem', send_remote fd bs ((hm_header m)\<lparr>rh_destination := addr (rh_destination (hm_header m))\<rparr>))))"

definition dispatch_queue_h :: "harbor \<Rightarrow> nat \<Rightarrow> (harbor \<times> harbor_effect list) res" where
  "dispatch_queue_h h i =
     (let s = h_s h ! i in
      andThen (assert_that (s_fd s \<noteq> 0)) (\<lambda>_.
      case s_queue s of
        None \<Rightarrow> Inr (h, [])
      | Some q \<Rightarrow>
          andThen (drain_queue (send_queued (s_fd s) (\<lambda>d. d)) q (h_mem h)) (\<lambda>((q', mem), out).
          andThen (release_queue_h (Some q') mem) (\<lambda>mem.
            Inr ((set_slave i (s\<lparr>s_queue := None\<rparr>) h)\<lparr>h_mem := mem\<rparr>, out)))))"

text \<open>
  \<open>dispatch_name_queue\<close> for a node with queue \<open>q\<close> and handle \<open>hd\<close>. The second component of the result is the
  queue that the node has afterwards.
\<close>

definition move_queue :: "harbor_msg_queue \<Rightarrow> harbor_msg_queue \<Rightarrow> ((harbor_msg_queue \<times> harbor_msg_queue) \<times> harbor_effect list) res" where
  "move_queue q into = drain_queue (\<lambda>m into. andThen (push_queue_msg into m) (\<lambda>into. Inr (into, []))) q into"

definition send_local :: "u32 \<Rightarrow> harbor_msg \<Rightarrow> (ptr \<rightharpoonup> u8 list) \<Rightarrow> ((ptr \<rightharpoonup> u8 list) \<times> harbor_effect list) res" where
  "send_local hnd m mem =
     give_block mem (rh_source (hm_header m)) hnd (uint (drop_bit HANDLE_REMOTE_SHIFT (rh_destination (hm_header m))))
       (rh_session (hm_header m)) (hm_buffer m) (hm_size m)"

definition dispatch_name_queue ::
  "harbor \<Rightarrow> u32 \<Rightarrow> harbor_msg_queue \<Rightarrow> ((harbor \<times> harbor_msg_queue option) \<times> harbor_effect list) res" where
  "dispatch_name_queue h hnd q =
     (let i = unat (drop_bit HANDLE_REMOTE_SHIFT hnd); s = h_s h ! i in
      if s_fd s = 0 then
        if s_status s = STATUS_DOWN then Inr ((h, Some q), [Herror ''Drop message to %s (in harbor %d)''])
        else
          andThen (case s_queue s of
                     None \<Rightarrow> Inr (q, None)
                   | Some sq \<Rightarrow> andThen (move_queue q sq) (\<lambda>((q', sq'), _). Inr (sq', Some q'))) (\<lambda>(sq, rest).
          if i = unat (drop_bit HANDLE_REMOTE_SHIFT (h_slave h)) then
            andThen (drain_queue (send_local hnd) sq (h_mem h)) (\<lambda>((sq', mem), out).
            andThen (release_queue_h (Some sq') mem) (\<lambda>mem.
              Inr (((set_slave i (s\<lparr>s_queue := None\<rparr>) h)\<lparr>h_mem := mem\<rparr>, rest), out)))
          else Inr ((set_slave i (s\<lparr>s_queue := Some sq\<rparr>) h, rest), []))
      else
        andThen (drain_queue (send_queued (s_fd s) (\<lambda>d. d OR (hnd AND HANDLE_MASK))) q (h_mem h)) (\<lambda>((q', mem), out).
          Inr ((h\<lparr>h_mem := mem\<rparr>, Some q'), out)))"

section \<open>Receiving\<close>

text \<open>\<^verbatim>\<open>memcpy\<close> of bytes to a position of a buffer.\<close>

definition copy_to :: "'a list \<Rightarrow> nat \<Rightarrow> 'a list \<Rightarrow> 'a list" where
  "copy_to buf k bs = take k buf @ bs @ drop (k + length bs) buf"

text \<open>A turn of the loop of \<open>push_socket_data\<close>: the bytes that are left, or \<open>None\<close> for a return.\<close>

definition recv_content ::
  "(u32 \<Rightarrow> bool) \<Rightarrow> harbor \<Rightarrow> nat \<Rightarrow> u8 list \<Rightarrow> ((harbor \<times> u8 list option) \<times> harbor_effect list) res" where
  "recv_content send_ok h i bs =
     (let s = h_s h ! i; need = s_length s - s_read s in
      if length bs < need then
        Inr ((set_slave i (s\<lparr>recv_buffer := copy_to (recv_buffer s) (s_read s) (map Some bs), s_read := s_read s + length bs\<rparr>) h, None), [])
      else
        let buf = copy_to (recv_buffer s) (s_read s) (map Some (take need bs)) in
        if None \<in> set buf then Inl Uninit_read
        else
          andThen (forward_local_messsage send_ok h (map the buf)) (\<lambda>out.
          let h' = set_slave i (s\<lparr>s_length := 0, s_read := 0, recv_buffer := [], s_status := STATUS_HEADER\<rparr>) h in
          Inr ((h', if drop need bs = [] then None else Some (drop need bs)), out)))"

definition recv_header ::
  "(u32 \<Rightarrow> bool) \<Rightarrow> harbor \<Rightarrow> nat \<Rightarrow> u8 list \<Rightarrow> ((harbor \<times> u8 list option) \<times> harbor_effect list) res" where
  "recv_header send_ok h i bs =
     (let s = h_s h ! i; need = 4 - s_read s in
      if length bs < need then
        Inr ((set_slave i (s\<lparr>s_size := copy_to (s_size s) (s_read s) bs, s_read := s_read s + length bs\<rparr>) h, None), [])
      else
        let hdr = copy_to (s_size s) (s_read s) (take need bs); s1 = s\<lparr>s_size := hdr\<rparr> in
        if hdr ! 0 \<noteq> 0 then
          andThen (close_harbor (set_slave i s1 h) i) (\<lambda>(h', out).
            Inr ((h', None), Herror ''Message is too long from harbor %d'' # out))
        else
          let n = unat (push_bit 16 (ucast (hdr ! 1)) OR push_bit 8 (ucast (hdr ! 2)) OR ucast (hdr ! 3) :: u32);
              h' = set_slave i (s1\<lparr>s_length := n, s_read := 0, recv_buffer := replicate n None, s_status := STATUS_CONTENT\<rparr>) h in
          if drop need bs = [] then Inr ((h', None), []) else recv_content send_ok h' i (drop need bs))"

definition recv_turn ::
  "(u32 \<Rightarrow> bool) \<Rightarrow> harbor \<Rightarrow> nat \<Rightarrow> u8 list \<Rightarrow> ((harbor \<times> u8 list option) \<times> harbor_effect list) res" where
  "recv_turn send_ok h i bs =
     (let s = h_s h ! i in
      case s_status s of
        STATUS_HANDSHAKE \<Rightarrow>
          (case bs of
             [] \<Rightarrow> Inl Out_of_range
           | b # bs' \<Rightarrow>
               if unat b \<noteq> i then
                 andThen (close_harbor h i) (\<lambda>(h', out).
                   Inr ((h', None), Herror ''Invalid shakehand id (%d) from fd = %d , harbor = %d'' # out))
               else
                 thenOut (dispatch_queue_h (set_slave i (s\<lparr>s_status := STATUS_HEADER\<rparr>) h) i) (\<lambda>h'.
                   if bs' = [] then Inr ((h', Some []), []) else recv_header send_ok h' i bs'))
      | STATUS_HEADER \<Rightarrow> recv_header send_ok h i bs
      | STATUS_CONTENT \<Rightarrow> recv_content send_ok h i bs
      | _ \<Rightarrow> Inr ((h, None), []))"

text \<open>Every turn that goes on has taken a byte, except the one after a handshake alone.\<close>

fun recv_loop :: "nat \<Rightarrow> (u32 \<Rightarrow> bool) \<Rightarrow> harbor \<Rightarrow> nat \<Rightarrow> u8 list \<Rightarrow> (harbor \<times> harbor_effect list) res" where
  "recv_loop 0 send_ok h i bs = Inl Out_of_fuel"
| "recv_loop (Suc k) send_ok h i bs =
     thenOut (recv_turn send_ok h i bs) (\<lambda>(h', r). case r of None \<Rightarrow> Inr (h', []) | Some bs' \<Rightarrow> recv_loop k send_ok h' i bs')"

definition harbor_id :: "harbor \<Rightarrow> int \<Rightarrow> nat option" where
  "harbor_id h fd = find (\<lambda>i. s_fd (h_s h ! i) = fd) [1..<REMOTE_MAX]"

text \<open>\<open>push_socket_data\<close>; the message points to the block \<open>p\<close> of \<open>ud\<close> bytes.\<close>

definition push_socket_data :: "(u32 \<Rightarrow> bool) \<Rightarrow> harbor \<Rightarrow> int \<Rightarrow> nat \<Rightarrow> ptr \<Rightarrow> (harbor \<times> harbor_effect list) res" where
  "push_socket_data send_ok h fd ud p =
     (case harbor_id h fd of
        None \<Rightarrow>
          andThen (free_block (h_mem h) p) (\<lambda>mem. Inr (h\<lparr>h_mem := mem\<rparr>, [Herror ''Invalid socket fd (%d) data'']))
      | Some i \<Rightarrow>
          andThen (read_block (h_mem h) p (of_nat ud)) (\<lambda>bs. recv_loop (length bs + 2) send_ok h i bs))"

section \<open>Names and sending\<close>

definition update_name :: "harbor \<Rightarrow> u8 list \<Rightarrow> u32 \<Rightarrow> (harbor \<times> harbor_effect list) res" where
  "update_name h nm hnd =
     (let (hm, node) = name_node (h_map h) nm; h1 = h\<lparr>h_map := hm\<rparr> in
      case kv_queue node of
        None \<Rightarrow> Inr (h1\<lparr>h_map := set_node hm nm (node\<lparr>kv_value := hnd\<rparr>)\<rparr>, [])
      | Some q \<Rightarrow>
          andThen (dispatch_name_queue h1 hnd q) (\<lambda>((h2, rest), out).
          andThen (release_queue_h rest (h_mem h2)) (\<lambda>mem.
            Inr (h2\<lparr>h_map := set_node hm nm (node\<lparr>kv_value := hnd, kv_queue := None\<rparr>), h_mem := mem\<rparr>, out))))"

text \<open>The result tells whether the message was taken (\<open>True\<close>), or the caller has to free it.\<close>

definition remote_send_handle ::
  "harbor \<Rightarrow> u32 \<Rightarrow> u32 \<Rightarrow> int \<Rightarrow> u32 \<Rightarrow> ptr \<Rightarrow> u64 \<Rightarrow> ((harbor \<times> bool) \<times> harbor_effect list) res" where
  "remote_send_handle h src dest type sess p n =
     (let i = unat (drop_bit HANDLE_REMOTE_SHIFT dest) in
      if int i = h_id h then
        andThen (give_block (h_mem h) src dest type sess p n) (\<lambda>(mem, out). Inr ((h\<lparr>h_mem := mem\<rparr>, True), out))
      else
        let s = h_s h ! i;
            hdr = \<lparr>rh_source = src,
                   rh_destination = push_bit HANDLE_REMOTE_SHIFT (word_of_int type) OR (dest AND HANDLE_MASK), rh_session = sess\<rparr> in
        if s_fd s = 0 \<or> s_status s = STATUS_HANDSHAKE then
          if s_status s = STATUS_DOWN then
            Inr ((h, False), [Hsend dest src PTYPE_ERROR 0 [],
              Herror ''Drop message to harbor %d from %x to %x (session = %d, msgsz = %d)''])
          else
            andThen (push_queue (case s_queue s of None \<Rightarrow> new_queue | Some q \<Rightarrow> q) p n hdr) (\<lambda>q.
              Inr ((set_slave i (s\<lparr>s_queue := Some q\<rparr>) h, True), []))
        else
          andThen (read_block (h_mem h) p n) (\<lambda>bs. Inr ((h, False), send_remote (s_fd s) bs hdr)))"

definition remote_send_name ::
  "harbor \<Rightarrow> u32 \<Rightarrow> u8 list \<Rightarrow> int \<Rightarrow> u32 \<Rightarrow> ptr \<Rightarrow> u64 \<Rightarrow> ((harbor \<times> bool) \<times> harbor_effect list) res" where
  "remote_send_name h src nm type sess p n =
     (let (hm, node) = name_node (h_map h) nm; h1 = h\<lparr>h_map := hm\<rparr> in
      if kv_value node = 0 then
        andThen (push_queue (case kv_queue node of None \<Rightarrow> new_queue | Some q \<Rightarrow> q) p n
            \<lparr>rh_source = src, rh_destination = push_bit HANDLE_REMOTE_SHIFT (word_of_int type), rh_session = sess\<rparr>) (\<lambda>q.
          Inr ((h1\<lparr>h_map := set_node hm nm (node\<lparr>kv_queue := Some q\<rparr>)\<rparr>, True),
            [Hsend 0 (h_slave h) PTYPE_TEXT 0 (text_bytes ''Q '' @ takeWhile (\<lambda>c. c \<noteq> 0) (take GLOBALNAME_LENGTH nm))]))
      else remote_send_handle h1 src (kv_value node) type sess p n)"

section \<open>Commands\<close>

definition handshake :: "harbor \<Rightarrow> nat \<Rightarrow> harbor_effect list" where
  "handshake h i = [Hsocket_send (s_fd (h_s h ! i)) [word_of_int (h_id h)]]"

text \<open>
  A command is a text that ends with a zero byte. For \<open>S\<close> and \<open>A\<close> without an argument the size of the
  copy is negative, and \<^verbatim>\<open>memcpy\<close> runs out of its buffer.
\<close>

definition command_connect :: "harbor \<Rightarrow> u8 \<Rightarrow> u8 list \<Rightarrow> (harbor \<times> harbor_effect list) res" where
  "command_connect h cmd arg =
     (let t = takeWhile (\<lambda>c. c \<noteq> 0) arg;
          (fd, i) = (case scan_int t of None \<Rightarrow> (0, 0)
                     | Some (fd, rest) \<Rightarrow> (fd, case scan_int rest of None \<Rightarrow> 0 | Some (i, _) \<Rightarrow> i)) in
      if fd = 0 \<or> i \<le> 0 \<or> int REMOTE_MAX \<le> i then Inr (h, [Herror ''Invalid command %c %s''])
      else
        let k = nat i; s = h_s h ! k in
        if s_fd s \<noteq> 0 then Inr (h, [Herror ''Harbor %d alreay exist''])
        else
          let h1 = set_slave k (s\<lparr>s_fd := fd\<rparr>) h; out = Hsocket_start fd # handshake h1 k in
          if cmd = 83 then Inr (set_slave k (s\<lparr>s_fd := fd, s_status := STATUS_HANDSHAKE\<rparr>) h1, out)
          else
            andThen (dispatch_queue_h (set_slave k (s\<lparr>s_fd := fd, s_status := STATUS_HEADER\<rparr>) h1) k) (\<lambda>(h2, out').
              Inr (h2, out @ out')))"

definition harbor_command :: "harbor \<Rightarrow> u8 list \<Rightarrow> u32 \<Rightarrow> (harbor \<times> harbor_effect list) res" where
  "harbor_command h msg src =
     (let cmd = (msg @ [0]) ! 0; arg = drop 2 msg; n = int (length msg) - 2 in
      if cmd = 78 then
        if n \<le> 0 \<or> int GLOBALNAME_LENGTH \<le> n then Inr (h, [Herror ''Invalid global name %s''])
        else update_name h (arg @ replicate (GLOBALNAME_LENGTH - length arg) 0) src
      else if cmd = 83 \<or> cmd = 65 then
        if n < 0 then Inl Out_of_range else command_connect h cmd arg
      else Inr (h, [Herror ''Unknown command %s'']))"

section \<open>The callback and the start of the service\<close>

datatype harbor_input =
    Socket_message int int int ptr
  | Command_message "u8 list" u32
  | Message_out int u32 u32 remote_message

definition mainloop :: "(u32 \<Rightarrow> bool) \<Rightarrow> harbor \<Rightarrow> harbor_input \<Rightarrow> (harbor \<times> harbor_effect list) res" where
  "mainloop send_ok h inp =
     (case inp of
        Socket_message type fd ud p \<Rightarrow>
          if type = SOCKET_TYPE_DATA then
            andThen (push_socket_data send_ok h fd (nat ud) p) (\<lambda>(h, out).
            andThen (free_block (h_mem h) p) (\<lambda>mem. Inr (h\<lparr>h_mem := mem\<rparr>, out)))
          else if type = SOCKET_TYPE_ERROR \<or> type = SOCKET_TYPE_CLOSE then
            Inr (h, case harbor_id h fd of Some i \<Rightarrow> report_harbor_down h i | None \<Rightarrow> [Herror ''Unkown fd (%d) closed''])
          else if type = SOCKET_TYPE_CONNECT then Inr (h, [])
          else if type = SOCKET_TYPE_WARNING then
            Inr (h, if harbor_id h fd = None then [] else [Herror ''message havn't send to Harbor (%d) reach %d K''])
          else Inr (h, [Herror ''recv invalid socket message type %d''])
      | Command_message msg src \<Rightarrow> harbor_command h msg src
      | Message_out type sess src rmsg \<Rightarrow>
          andThen (if rn_handle (destination rmsg) = 0
                   then remote_send_name h src (text_bytes (rn_name (destination rmsg))) type sess (rmessage rmsg) (rm_sz rmsg)
                   else remote_send_handle h src (rn_handle (destination rmsg)) type sess (rmessage rmsg) (rm_sz rmsg))
            (\<lambda>((h, taken), out).
              if taken then Inr (h, out)
              else andThen (free_block (h_mem h) (rmessage rmsg)) (\<lambda>mem. Inr (h\<lparr>h_mem := mem\<rparr>, out))))"

text \<open>The result is \<open>None\<close> when the parameter names no slave; otherwise the callback is set and the harbor started.\<close>

definition harbor_init :: "harbor \<Rightarrow> u8 list \<Rightarrow> harbor option" where
  "harbor_init h args =
     (let (i, sl) = (case scan_int args of None \<Rightarrow> (0, 0)
                     | Some (i, rest) \<Rightarrow> (i, case scan_int rest of None \<Rightarrow> 0 | Some (v, _) \<Rightarrow> (word_of_int v :: u32)))
      in if sl = 0 then None else Some (h\<lparr>h_id := i, h_slave := sl\<rparr>))"

section \<open>The queues are first-in first-out\<close>

definition hq_inv :: "harbor_msg_queue \<Rightarrow> harbor_msg list \<Rightarrow> bool" where
  "hq_inv q ms \<longleftrightarrow> 0 < hq_size q \<and> length (hq_data q) = hq_size q \<and> hq_head q < hq_size q \<and>
     hq_tail q = (hq_head q + length ms) mod hq_size q \<and> length ms < hq_size q \<and>
     (\<forall>i < length ms. hq_data q ! ((hq_head q + i) mod hq_size q) = Some (ms ! i))"

lemma hq_empty: "hq_inv q ms \<Longrightarrow> hq_head q = hq_tail q \<longleftrightarrow> ms = []"
proof
  assume inv: "hq_inv q ms" and eq: "hq_head q = hq_tail q"
  then have "(hq_head q + length ms) mod hq_size q = (hq_head q + 0) mod hq_size q" by (simp add: hq_inv_def)
  then show "ms = []" using inv ring_index_inj [of "length ms" "hq_size q" 0 "hq_head q"] by (simp add: hq_inv_def)
qed (simp add: hq_inv_def)

lemma hq_new: "hq_inv new_queue []"
  by (simp add: hq_inv_def new_queue_def HARBOR_QUEUE_SIZE_def)

lemma pop_queue_Nil: "hq_inv q [] \<Longrightarrow> pop_queue q = Inr (q, None)"
  using hq_empty [of q "[]"] by (simp add: pop_queue_def)

lemma pop_queue_Cons:
  assumes inv: "hq_inv q (m # ms)"
  obtains q' where "pop_queue q = Inr (q', Some m)" "hq_inv q' ms" "hq_size q' = hq_size q"
proof -
  let ?q = "q\<lparr>hq_head := (hq_head q + 1) mod hq_size q\<rparr>"
  have b: "0 < hq_size q" "hq_head q < hq_size q" "length (hq_data q) = hq_size q" using inv by (simp_all add: hq_inv_def)
  have "hq_data q ! ((hq_head q + 0) mod hq_size q) = Some ((m # ms) ! 0)"
    using inv unfolding hq_inv_def by blast
  then have "pop_queue q = Inr (?q, Some m)" using hq_empty [OF inv] b by (simp add: pop_queue_def)
  moreover have "hq_data q ! (((hq_head q + 1) mod hq_size q + i) mod hq_size q) = Some (ms ! i)" if "i < length ms" for i
  proof -
    have "hq_data q ! ((hq_head q + Suc i) mod hq_size q) = Some ((m # ms) ! Suc i)"
      using inv that unfolding hq_inv_def by (metis Suc_less_eq length_Cons)
    then show ?thesis by (simp add: mod_add_left_eq)
  qed
  then have "hq_inv ?q ms" using inv by (simp add: hq_inv_def mod_add_left_eq)
  ultimately show thesis using that by simp
qed

lemma push_queue_msg_spec:
  assumes inv: "hq_inv q ms"
  obtains q' where "push_queue_msg q m = Inr q'" "hq_inv q' (ms @ [m])"
proof -
  note b = inv [unfolded hq_inv_def]
  define q1 where "q1 = (if (hq_tail q + 1) mod hq_size q = hq_head q
               then q\<lparr>hq_data := map (\<lambda>i. hq_data q ! ((i + hq_head q) mod hq_size q)) [0..<hq_size q - 1] @
                        replicate (hq_size q + 1) None,
                      hq_head := 0, hq_tail := hq_size q - 1, hq_size := hq_size q * 2\<rparr>
               else q)"
  have full: "(hq_tail q + 1) mod hq_size q = hq_head q \<longleftrightarrow> Suc (length ms) = hq_size q"
  proof
    assume "(hq_tail q + 1) mod hq_size q = hq_head q"
    then have "(hq_head q + Suc (length ms)) mod hq_size q = (hq_head q + 0) mod hq_size q" using b by (simp add: mod_Suc_eq)
    then show "Suc (length ms) = hq_size q"
      using b ring_index_inj [of "Suc (length ms)" "hq_size q" 0 "hq_head q"] by (metis Suc_lessI nat.distinct(1))
  next
    assume "Suc (length ms) = hq_size q"
    then show "(hq_tail q + 1) mod hq_size q = hq_head q" using b by (metis Suc_eq_plus1 add_Suc_right mod_Suc_eq mod_add_self2 mod_less)
  qed
  have q1: "hq_inv q1 ms" "Suc (length ms) < hq_size q1"
  proof -
    show "hq_inv q1 ms"
    proof (cases "Suc (length ms) = hq_size q")
      case True
      then show ?thesis using b full by (auto simp: q1_def hq_inv_def nth_append add.commute)
    next
      case False
      then show ?thesis using inv full by (simp add: q1_def)
    qed
    show "Suc (length ms) < hq_size q1" using b full by (auto simp: q1_def)
  qed
  note c = q1(1) [unfolded hq_inv_def]
  let ?q = "q1\<lparr>hq_data := (hq_data q1)[hq_tail q1 := Some m], hq_tail := (hq_tail q1 + 1) mod hq_size q1\<rparr>"
  have t: "hq_tail q1 < length (hq_data q1)" using c by simp
  have "push_queue_msg q m = Inr ?q" 
    unfolding push_queue_msg_def q1_def [symmetric] Let_def using t by simp
  moreover have "(hq_data q1)[hq_tail q1 := Some m] ! ((hq_head q1 + i) mod hq_size q1) = Some ((ms @ [m]) ! i)"
    if "i < Suc (length ms)" for i
  proof (cases "i = length ms")
    case True
    then show ?thesis using c by simp
  next
    case False
    then have i: "i < length ms" using that by simp
    have "(hq_head q1 + i) mod hq_size q1 \<noteq> hq_tail q1"
      using c i ring_index_inj [of i "hq_size q1" "length ms" "hq_head q1"] by auto
    then show ?thesis using c i by (simp add: nth_append)
  qed
  then have "hq_inv ?q (ms @ [m])" using c q1(2) by (auto simp: hq_inv_def mod_Suc_eq)
  ultimately show thesis using that by blast
qed

interpretation hq: fifo push_queue_msg pop_queue hq_inv "\<lambda>_ _ _. True" "\<lambda>_ _. True"
proof
  fix q ms m
  show "hq_inv q ms \<Longrightarrow> True \<Longrightarrow> \<exists>q'. push_queue_msg q m = Inr q' \<and> hq_inv q' (ms @ [m]) \<and> (\<forall>b. True \<longrightarrow> True \<longrightarrow> True)"
    by (rule push_queue_msg_spec) auto
  show "hq_inv q [] \<Longrightarrow> \<exists>q'. pop_queue q = Inr (q', None) \<and> hq_inv q' []" using pop_queue_Nil by blast
  show "hq_inv q (m # ms) \<Longrightarrow> \<exists>q'. pop_queue q = Inr (q', Some m) \<and> hq_inv q' ms" by (rule pop_queue_Cons) auto
qed

section \<open>Emptying a queue\<close>

fun run_msgs :: "(harbor_msg \<Rightarrow> 's \<Rightarrow> ('s \<times> harbor_effect list) res) \<Rightarrow> harbor_msg list \<Rightarrow> 's \<Rightarrow> ('s \<times> harbor_effect list) res" where
  "run_msgs work [] s = Inr (s, [])"
| "run_msgs work (m # ms) s = thenOut (work m s) (run_msgs work ms)"

lemma drain_loop_spec:
  "hq_inv q ms \<Longrightarrow> length ms < k \<Longrightarrow> run_msgs work ms s = Inr (s', out) \<Longrightarrow>
    \<exists>q'. hq_inv q' [] \<and> drain_loop k work q s = Inr ((q', s'), out)"
proof (induction k arbitrary: q ms s out)
  case (Suc k)
  show ?case
  proof (cases ms)
    case Nil
    then show ?thesis using Suc.prems pop_queue_Nil [of q] by (intro exI [of _ q]) simp
  next
    case (Cons m ms')
    then obtain q1 where q1: "pop_queue q = Inr (q1, Some m)" "hq_inv q1 ms'" using Suc.prems(1) pop_queue_Cons by blast
    obtain t out1 out2 where t: "work m s = Inr (t, out1)" "run_msgs work ms' t = Inr (s', out2)" "out = out1 @ out2"
      using Suc.prems(3) Cons by (cases "work m s") (auto simp: andThen_Inr_iff)
    obtain q' where "hq_inv q' []" "drain_loop k work q1 t = Inr ((q', s'), out2)"
      using Suc.IH [OF q1(2) _ t(2)] Suc.prems(2) Cons by auto
    then show ?thesis using q1(1) t(1,3) by (intro exI [of _ q']) simp
  qed
qed simp

lemma drain_spec:
  assumes "hq_inv q ms" and "run_msgs work ms s = Inr (s', out)"
  obtains q' where "hq_inv q' []" "drain_queue work q s = Inr ((q', s'), out)"
  using drain_loop_spec [OF assms(1) _ assms(2), of "Suc (hq_size q)"] assms(1) that by (auto simp: drain_queue_def hq_inv_def)

section \<open>Ownership of the blocks\<close>

text \<open>
  \<open>mem_ok mem MS\<close>: the blocks in memory are exactly the buffers of the messages \<open>MS\<close>, each of them once, and
  they are as long as the messages say.
\<close>

definition msg_ok :: "(ptr \<rightharpoonup> u8 list) \<Rightarrow> harbor_msg \<Rightarrow> bool" where
  "msg_ok mem m \<longleftrightarrow> hm_size m = 0 \<or> (\<exists>bs. mem (hm_buffer m) = Some bs \<and> unat (hm_size m) \<le> length bs)"

definition mem_ok :: "(ptr \<rightharpoonup> u8 list) \<Rightarrow> harbor_msg multiset \<Rightarrow> bool" where
  "mem_ok mem MS \<longleftrightarrow> finite (dom mem) \<and> mem 0 = None \<and>
     mset_set (dom mem) = filter_mset (\<lambda>p. p \<noteq> 0) (image_mset hm_buffer MS) \<and> (\<forall>m \<in># MS. msg_ok mem m)"

definition payload :: "(ptr \<rightharpoonup> u8 list) \<Rightarrow> harbor_msg \<Rightarrow> u8 list" where
  "payload mem m = (if hm_size m = 0 then [] else take (unat (hm_size m)) (the (mem (hm_buffer m))))"

lemma mem_ok_empty: "mem_ok Map.empty {#}"
  by (simp add: mem_ok_def)

lemma read_block_payload: "mem_ok mem MS \<Longrightarrow> m \<in># MS \<Longrightarrow> read_block mem (hm_buffer m) (hm_size m) = Inr (payload mem m)"
  unfolding mem_ok_def msg_ok_def by (fastforce simp: read_block_def payload_def)

lemma mem_ok_free:
  assumes ok: "mem_ok mem (add_mset m MS)"
  shows "free_block mem (hm_buffer m) = Inr (mem(hm_buffer m := None))" "mem_ok (mem(hm_buffer m := None)) MS"
    "m' \<in># MS \<Longrightarrow> payload (mem(hm_buffer m := None)) m' = payload mem m'"
proof -
  let ?p = "hm_buffer m" let ?X = "filter_mset (\<lambda>p. p \<noteq> 0) (image_mset hm_buffer MS)"
  have fin: "finite (dom mem)" and z: "mem 0 = None" using ok by (simp_all add: mem_ok_def)
  have new: "free_block mem ?p = Inr (mem(?p := None)) \<and> finite (dom (mem(?p := None))) \<and> mset_set (dom (mem(?p := None))) = ?X \<and>
      (\<forall>m' \<in># MS. hm_buffer m' = ?p \<longrightarrow> ?p = 0)"
  proof (cases "?p = 0")
    case True
    then show ?thesis using ok z by (simp add: mem_ok_def free_block_def fun_upd_idem)
  next
    case False
    then have d: "mset_set (dom mem) = add_mset ?p ?X" using ok by (simp add: mem_ok_def)
    then have p: "?p \<in> dom mem" using fin by (metis elem_mset_set union_single_eq_member)
    then have X: "?X = mset_set (dom mem - {?p})" using d fin by (simp add: mset_set_Diff)
    then have "?p \<notin># ?X" using fin by simp
    then have "\<forall>m' \<in># MS. hm_buffer m' \<noteq> ?p" using False by (auto simp: image_iff)
    then show ?thesis using False p X fin by (auto simp: free_block_def)
  qed
  then show "free_block mem ?p = Inr (mem(?p := None))" by blast
  have other: "msg_ok (mem(?p := None)) m' \<and> payload (mem(?p := None)) m' = payload mem m'" if "m' \<in># MS" for m'
    using that ok new z by (cases "hm_buffer m' = ?p") (auto simp: mem_ok_def msg_ok_def payload_def)
  then show "mem_ok (mem(?p := None)) MS" using new z by (simp add: mem_ok_def)
  show "m' \<in># MS \<Longrightarrow> payload (mem(?p := None)) m' = payload mem m'" using other by blast
qed

text \<open>
  What is done to the messages of a queue that is emptied: the work on a message uses its payload for some
  effects and gives its block up. The locale carries this over to whole queues.
\<close>

locale consumer =
  fixes work :: "harbor_msg \<Rightarrow> (ptr \<rightharpoonup> u8 list) \<Rightarrow> ((ptr \<rightharpoonup> u8 list) \<times> harbor_effect list) res"
    and eff :: "harbor_msg \<Rightarrow> u8 list \<Rightarrow> harbor_effect list"
  assumes work_eff: "mem_ok mem (add_mset m MS) \<Longrightarrow> work m mem = Inr (mem(hm_buffer m := None), eff m (payload mem m))"
begin

lemma run_consume:
  "mem_ok mem (mset ms + MS) \<Longrightarrow>
    \<exists>mem'. run_msgs work ms mem = Inr (mem', concat (map (\<lambda>m. eff m (payload mem m)) ms)) \<and> mem_ok mem' MS \<and>
      (\<forall>m \<in># MS. payload mem' m = payload mem m)"
proof (induction ms arbitrary: mem)
  case (Cons m ms)
  have ok: "mem_ok mem (add_mset m (mset ms + MS))" using Cons.prems by simp
  let ?mem = "mem(hm_buffer m := None)"
  note f = mem_ok_free [OF ok]
  obtain mem' where m': "run_msgs work ms ?mem = Inr (mem', concat (map (\<lambda>m. eff m (payload ?mem m)) ms))" "mem_ok mem' MS"
      "\<forall>m \<in># MS. payload mem' m = payload ?mem m"
    using Cons.IH [OF f(2)] by blast
  have "map (\<lambda>m. eff m (payload ?mem m)) ms = map (\<lambda>m. eff m (payload mem m)) ms" using f(3) by simp
  with m' f(3) work_eff [OF ok] show ?case by (intro exI [of _ mem']) simp
qed simp

lemma drain_consume:
  assumes "hq_inv q ms" and "mem_ok mem (mset ms + MS)"
  obtains q' mem' where "hq_inv q' []" "drain_queue work q mem = Inr ((q', mem'), concat (map (\<lambda>m. eff m (payload mem m)) ms))"
    "mem_ok mem' MS" "\<forall>m \<in># MS. payload mem' m = payload mem m"
proof -
  obtain mem' where m: "run_msgs work ms mem = Inr (mem', concat (map (\<lambda>m. eff m (payload mem m)) ms))" "mem_ok mem' MS"
      "\<forall>m \<in># MS. payload mem' m = payload mem m"
    using run_consume [OF assms(2)] by blast
  obtain q' where "hq_inv q' []" "drain_queue work q mem = Inr ((q', mem'), concat (map (\<lambda>m. eff m (payload mem m)) ms))"
    by (rule drain_spec [OF assms(1) m(1)])
  then show thesis using that m by blast
qed

end

interpretation freeing: consumer "\<lambda>m mem. andThen (free_block mem (hm_buffer m)) (\<lambda>mem. Inr (mem, []))" "\<lambda>m bs. []"
  by unfold_locales (simp add: mem_ok_free(1))

interpretation sending: consumer "send_queued fd addr"
    "\<lambda>m bs. send_remote fd bs ((hm_header m)\<lparr>rh_destination := addr (rh_destination (hm_header m))\<rparr>)" for fd addr
  by unfold_locales (simp add: send_queued_def mem_ok_free(1) read_block_payload)

interpretation handing: consumer "send_local hnd"
    "\<lambda>m bs. [Hsend (rh_source (hm_header m)) hnd (uint (drop_bit HANDLE_REMOTE_SHIFT (rh_destination (hm_header m))) OR PTYPE_TAG_DONTCOPY)
        (rh_session (hm_header m)) bs]" for hnd
  by unfold_locales (simp add: send_local_def give_block_def mem_ok_free(1) read_block_payload)

lemma release_queue_spec:
  assumes "\<And>q. qo = Some q \<Longrightarrow> hq_inv q ms" and "qo = None \<Longrightarrow> ms = []" and "mem_ok mem (mset ms + MS)"
  obtains mem' where "release_queue_h qo mem = Inr mem'" "mem_ok mem' MS" "\<forall>m \<in># MS. payload mem' m = payload mem m"
proof (cases qo)
  case None
  then show ?thesis using that [of mem] assms by (simp add: release_queue_h_def)
next
  case (Some q)
  obtain q' mem' where "hq_inv q' []" "drain_queue (\<lambda>m mem. andThen (free_block mem (hm_buffer m)) (\<lambda>mem. Inr (mem, []))) q mem =
      Inr ((q', mem'), concat (map (\<lambda>m. []) ms))" "mem_ok mem' MS" "\<forall>m \<in># MS. payload mem' m = payload mem m"
    by (rule freeing.drain_consume [OF assms(1) [OF Some] assms(3)])
  then show ?thesis using that [of mem'] Some by (simp add: release_queue_h_def)
qed

lemma move_queue_spec:
  assumes "hq_inv q ms" and "hq_inv into ns"
  obtains q' into' where "move_queue q into = Inr ((q', into'), [])" "hq_inv q' []" "hq_inv into' (ns @ ms)"
proof -
  have "\<exists>into'. run_msgs (\<lambda>m into. andThen (push_queue_msg into m) (\<lambda>into. Inr (into, []))) ms into = Inr (into', []) \<and> hq_inv into' (ns @ ms)"
    using assms(2)
  proof (induction ms arbitrary: into ns)
    case (Cons m ms)
    obtain t where t: "push_queue_msg into m = Inr t" "hq_inv t (ns @ [m])" by (rule push_queue_msg_spec [OF Cons.prems])
    with Cons.IH [OF t(2)] show ?case by auto
  qed simp
  then obtain into' where i: "run_msgs (\<lambda>m into. andThen (push_queue_msg into m) (\<lambda>into. Inr (into, []))) ms into = Inr (into', [])"
      "hq_inv into' (ns @ ms)" by blast
  obtain q' where "hq_inv q' []" "move_queue q into = Inr ((q', into'), [])"
    unfolding move_queue_def by (rule drain_spec [OF assms(1) i(1)])
  then show thesis using that i(2) by blast
qed

section \<open>The invariant\<close>

definition hq_contents :: "harbor_msg_queue \<Rightarrow> harbor_msg list" where
  "hq_contents q =
     map (\<lambda>i. the (hq_data q ! ((hq_head q + i) mod hq_size q))) [0..<(hq_tail q + hq_size q - hq_head q) mod hq_size q]"

lemma hq_contents_eq: "hq_inv q ms \<Longrightarrow> hq_contents q = ms"
proof -
  assume inv: "hq_inv q ms"
  have "(hq_tail q + hq_size q - hq_head q) mod hq_size q = length ms"
  proof -
    have h: "hq_head q < hq_size q" "hq_tail q = (hq_head q + length ms) mod hq_size q" "length ms < hq_size q"
      using inv by (simp_all add: hq_inv_def)
    show ?thesis
    proof (cases "hq_head q + length ms < hq_size q")
      case True
      then have "hq_tail q + hq_size q - hq_head q = length ms + hq_size q" using h by simp
      then show ?thesis using h(3) by simp
    next
      case False
      then have "hq_tail q = hq_head q + length ms - hq_size q" using h by (simp add: le_mod_geq)
      then have "hq_tail q + hq_size q - hq_head q = length ms" using False by simp
      then show ?thesis using h(3) by simp
    qed
  qed
  then show ?thesis using inv by (intro nth_equalityI) (simp_all add: hq_contents_def hq_inv_def)
qed

definition queued_msgs :: "harbor_msg_queue option \<Rightarrow> harbor_msg list" where
  "queued_msgs qo = (case qo of None \<Rightarrow> [] | Some q \<Rightarrow> hq_contents q)"

definition queue_ok :: "harbor_msg_queue option \<Rightarrow> bool" where
  "queue_ok qo \<longleftrightarrow> (\<forall>q. qo = Some q \<longrightarrow> hq_inv q (hq_contents q))"

lemma queue_ok_simps [simp]: "queue_ok None" "queued_msgs None = []" "queue_ok (Some q) \<longleftrightarrow> hq_inv q (queued_msgs (Some q))"
  by (simp_all add: queue_ok_def queued_msgs_def)

lemma hq_inv_ok: "hq_inv q ms \<Longrightarrow> queued_msgs (Some q) = ms" "hq_inv q ms \<Longrightarrow> queue_ok (Some q)"
  by (simp_all add: queued_msgs_def queue_ok_def hq_contents_eq)

text \<open>A link: what its status says about what was read, and that it is open when its status is not \<open>STATUS_WAIT\<close>.\<close>

definition slave_ok :: "slave \<Rightarrow> bool" where
  "slave_ok s \<longleftrightarrow> queue_ok (s_queue s) \<and> length (s_size s) = 4 \<and> (s_fd s = 0 \<longrightarrow> s_status s = STATUS_WAIT) \<and>
     (s_status s = STATUS_WAIT \<or> s_status s = STATUS_HANDSHAKE \<longrightarrow> s_read s = 0) \<and>
     (s_status s = STATUS_HEADER \<longrightarrow> s_read s < 4) \<and>
     (s_status s = STATUS_CONTENT \<longrightarrow> (s_read s < s_length s \<or> s_read s = 0 \<and> s_length s = 0) \<and> length (recv_buffer s) = s_length s \<and>
        None \<notin> set (take (s_read s) (recv_buffer s)))"

definition slave_msgs :: "slave list \<Rightarrow> harbor_msg multiset" where
  "slave_msgs ss = sum_list (map (\<lambda>s. mset (queued_msgs (s_queue s))) ss)"

definition name_msgs :: "hashmap \<Rightarrow> harbor_msg multiset" where
  "name_msgs hm = sum_list (map (\<lambda>b. sum_list (map (\<lambda>n. mset (queued_msgs (kv_queue n))) b)) hm)"

definition names_ok :: "hashmap \<Rightarrow> bool" where
  "names_ok hm \<longleftrightarrow> length hm = HASH_SIZE \<and> (\<forall>b \<in> set hm. \<forall>n \<in> set b. queue_ok (kv_queue n))"

text \<open>\<open>links_ok h MS\<close>: the links are in order, and the blocks are those of the messages that wait at links and of \<open>MS\<close>.\<close>

definition links_ok :: "harbor \<Rightarrow> harbor_msg multiset \<Rightarrow> bool" where
  "links_ok h MS \<longleftrightarrow> length (h_s h) = REMOTE_MAX \<and> (\<forall>s \<in> set (h_s h). slave_ok s) \<and> mem_ok (h_mem h) (slave_msgs (h_s h) + MS)"

definition harbor_inv :: "harbor \<Rightarrow> bool" where
  "harbor_inv h \<longleftrightarrow> names_ok (h_map h) \<and> links_ok h (name_msgs (h_map h))"

lemma sum_list_set: "i < length xs \<Longrightarrow> \<exists>R. sum_list (map f xs) = f (xs ! i) + R \<and> (\<forall>y. sum_list (map f (xs[i := y])) = f y + R)"
  for f :: "'a \<Rightarrow> 'b::comm_monoid_add"
proof (induction xs arbitrary: i)
  case (Cons x xs)
  show ?case
  proof (cases i)
    case (Suc j)
    then obtain R where "sum_list (map f xs) = f (xs ! j) + R" "\<forall>y. sum_list (map f (xs[j := y])) = f y + R"
      using Cons by auto
    then show ?thesis using Suc by (intro exI [of _ "f x + R"]) (simp add: ac_simps)
  qed auto
qed simp

lemma slave_split:
  assumes "i < length ss"
  obtains R where "slave_msgs ss = mset (queued_msgs (s_queue (ss ! i))) + R"
    "\<And>s. slave_msgs (ss[i := s]) = mset (queued_msgs (s_queue s)) + R"
  using sum_list_set [OF assms, of "\<lambda>s. mset (queued_msgs (s_queue s))"] unfolding slave_msgs_def by blast

lemma set_slave_fields [simp]:
  "h_map (set_slave i s h) = h_map h" "h_mem (set_slave i s h) = h_mem h" "h_s (set_slave i s h) = (h_s h)[i := s]"
  "h_id (set_slave i s h) = h_id h" "h_slave (set_slave i s h) = h_slave h"
  by (simp_all add: set_slave_def)

lemma links_slave: "links_ok h MS \<Longrightarrow> i < REMOTE_MAX \<Longrightarrow> slave_ok (h_s h ! i)"
  by (simp add: links_ok_def)

text \<open>A link changes: its own messages are exchanged, and the memory with them.\<close>

lemma links_set:
  assumes ok: "links_ok h MS" and i: "i < REMOTE_MAX" and s: "slave_ok s"
    and mem: "\<And>R. mem_ok (h_mem h) (mset (queued_msgs (s_queue (h_s h ! i))) + (R + MS)) \<Longrightarrow>
        mem_ok mem (mset (queued_msgs (s_queue s)) + (R + MS'))"
  shows "links_ok ((set_slave i s h)\<lparr>h_mem := mem\<rparr>) MS'"
proof -
  have len: "i < length (h_s h)" using ok i by (simp add: links_ok_def)
  obtain R where R: "slave_msgs (h_s h) = mset (queued_msgs (s_queue (h_s h ! i))) + R"
      "\<And>s. slave_msgs ((h_s h)[i := s]) = mset (queued_msgs (s_queue s)) + R"
    using slave_split [OF len] by blast
  have "mem_ok (h_mem h) (mset (queued_msgs (s_queue (h_s h ! i))) + (R + MS))"
    using ok R(1) by (simp add: links_ok_def ac_simps)
  then have "mem_ok mem (mset (queued_msgs (s_queue s)) + (R + MS'))" by (rule mem)
  moreover have "slave_ok t" if "t \<in> set ((h_s h)[i := s])" for t
    using that ok s set_update_subset_insert [of "h_s h" i s] by (auto simp: links_ok_def)
  ultimately show ?thesis using ok R(2) [of s] by (simp add: links_ok_def ac_simps)
qed

lemma links_set_same:
  assumes "links_ok h MS" and "i < REMOTE_MAX" and "slave_ok s" and "queued_msgs (s_queue s) = queued_msgs (s_queue (h_s h ! i))"
  shows "links_ok (set_slave i s h) MS"
proof -
  have "links_ok ((set_slave i s h)\<lparr>h_mem := h_mem h\<rparr>) MS"
    by (rule links_set [OF assms(1-3)]) (simp add: assms(4))
  then show ?thesis by (simp add: links_ok_def)
qed

lemma close_harbor_ok:
  assumes ok: "links_ok h MS" and i: "i < REMOTE_MAX" and fd: "s_fd (h_s h ! i) \<noteq> 0"
  obtains h' where "close_harbor h i = Inr (h', [Hsocket_close (s_fd (h_s h ! i))])" "links_ok h' MS" "h_map h' = h_map h"
    "s_status (h_s h' ! i) = STATUS_DOWN"
proof -
  let ?s = "h_s h ! i" let ?s' = "?s\<lparr>s_status := STATUS_DOWN, s_queue := None\<rparr>"
  have s: "slave_ok ?s" by (rule links_slave [OF ok i])
  have s': "slave_ok ?s'" using s fd by (simp add: slave_ok_def)
  have q: "hq_inv q (queued_msgs (s_queue ?s))" if "s_queue ?s = Some q" for q using s that by (simp add: slave_ok_def)
  have m: "\<exists>mem'. release_queue_h (s_queue ?s) mem = Inr mem' \<and> mem_ok mem' R"
    if "mem_ok mem (mset (queued_msgs (s_queue ?s)) + R)" for mem R
    by (rule release_queue_spec [OF q _ that]) (auto simp: queued_msgs_def)
  have len: "i < length (h_s h)" using ok i by (simp add: links_ok_def)
  obtain R where R: "slave_msgs (h_s h) = mset (queued_msgs (s_queue ?s)) + R" using slave_split [OF len] by blast
  have "mem_ok (h_mem h) (mset (queued_msgs (s_queue ?s)) + (R + MS))" using ok R by (simp add: links_ok_def ac_simps)
  from m [OF this] obtain mem where mem: "release_queue_h (s_queue ?s) (h_mem h) = Inr mem" by blast
  have "links_ok ((set_slave i ?s' h)\<lparr>h_mem := mem\<rparr>) MS"
    by (rule links_set [OF ok i s']) (use m mem in fastforce)
  then show thesis using that mem fd len by (simp add: close_harbor_def Let_def)
qed

section \<open>Links\<close>

lemma links_mem:
  assumes "links_ok h MS" and "i < REMOTE_MAX"
  obtains R where "mem_ok (h_mem h) (mset (queued_msgs (s_queue (h_s h ! i))) + (R + MS))"
proof -
  have "i < length (h_s h)" using assms by (simp add: links_ok_def)
  then obtain R where "slave_msgs (h_s h) = mset (queued_msgs (s_queue (h_s h ! i))) + R" using slave_split by blast
  then show thesis using that [of R] assms(1) by (simp add: links_ok_def ac_simps)
qed

text \<open>The queue of a link is sent when the link opens; its blocks are freed.\<close>

lemma dispatch_queue_ok:
  assumes ok: "links_ok h MS" and i: "i < REMOTE_MAX" and fd: "s_fd (h_s h ! i) \<noteq> 0"
  obtains h' where "dispatch_queue_h h i =
      Inr (h', concat (map (\<lambda>m. send_remote (s_fd (h_s h ! i)) (payload (h_mem h) m) (hm_header m)) (queued_msgs (s_queue (h_s h ! i)))))"
    "links_ok h' MS" "h_map h' = h_map h" "h_id h' = h_id h" "h_slave h' = h_slave h"
    "h_s h' = (h_s h)[i := (h_s h ! i)\<lparr>s_queue := None\<rparr>]"
proof (cases "s_queue (h_s h ! i)")
  case None
  moreover have "(h_s h)[i := (h_s h ! i)\<lparr>s_queue := None\<rparr>] = h_s h"
  proof -
    have "(h_s h ! i)\<lparr>s_queue := None\<rparr> = h_s h ! i" using None by simp
    then show ?thesis by simp
  qed
  ultimately show ?thesis using that [of h] fd ok by (simp add: dispatch_queue_h_def Let_def)
next
  case (Some q)
  let ?s = "h_s h ! i" let ?ms = "queued_msgs (s_queue ?s)" let ?work = "send_queued (s_fd ?s) (\<lambda>d. d)"
  let ?out = "concat (map (\<lambda>m. send_remote (s_fd ?s) (payload (h_mem h) m) (hm_header m)) ?ms)"
  have s: "slave_ok ?s" by (rule links_slave [OF ok i])
  then have q: "hq_inv q ?ms" using Some by (simp add: slave_ok_def)
  have step: "\<exists>mem'. andThen (drain_queue ?work q mem) (\<lambda>((q', mem), out). andThen (release_queue_h (Some q') mem) (\<lambda>mem. Inr (mem, out))) =
      Inr (mem', concat (map (\<lambda>m. send_remote (s_fd ?s) (payload mem m) (hm_header m)) ?ms)) \<and> mem_ok mem' R"
    if a: "mem_ok mem (mset ?ms + R)" for mem R
  proof -
    obtain q' mem1 where d: "hq_inv q' []" "drain_queue ?work q mem = Inr ((q', mem1), concat (map (\<lambda>m. send_remote (s_fd ?s) (payload mem m)
        ((hm_header m)\<lparr>rh_destination := rh_destination (hm_header m)\<rparr>)) ?ms))" "mem_ok mem1 R"
      "\<forall>m \<in># R. payload mem1 m = payload mem m"
      by (rule sending.drain_consume [OF q a])
    have "mem_ok mem1 (mset [] + R)" using d(3) by simp
    then obtain mem2 where "release_queue_h (Some q') mem1 = Inr mem2" "mem_ok mem2 R"
      using d(1) by (rule_tac release_queue_spec [of "Some q'" "[]" mem1 R]) auto
    then show ?thesis using d(2) by simp
  qed
  obtain R where R: "mem_ok (h_mem h) (mset ?ms + (R + MS))" by (rule links_mem [OF ok i])
  from step [OF R] obtain mem where mem: "andThen (drain_queue ?work q (h_mem h)) (\<lambda>((q', mem), out). andThen (release_queue_h (Some q') mem) (\<lambda>mem. Inr (mem, out))) =
      Inr (mem, ?out)" by blast
  have "slave_ok (?s\<lparr>s_queue := None\<rparr>)" using s by (simp add: slave_ok_def)
  then have l: "links_ok ((set_slave i (?s\<lparr>s_queue := None\<rparr>) h)\<lparr>h_mem := mem\<rparr>) MS"
    by (rule links_set [OF ok i]) (use step mem in fastforce)
  obtain q' mem1 where "drain_queue ?work q (h_mem h) = Inr ((q', mem1), ?out)" "release_queue_h (Some q') mem1 = Inr mem"
    using mem by (auto simp: andThen_Inr_iff)
  then show ?thesis using that [OF _ l] Some fd by (simp add: dispatch_queue_h_def Let_def)
qed

lemma copy_to_length: "k + length bs \<le> length buf \<Longrightarrow> length (copy_to buf k bs) = length buf"
  by (simp add: copy_to_def)

lemma copy_to_take: "k \<le> length buf \<Longrightarrow> take (k + length bs) (copy_to buf k bs) = take k buf @ bs"
  by (simp add: copy_to_def)

lemma forward_ends: "ends_in {Out_of_range} (forward_local_messsage send_ok h msg) (\<lambda>_. True)"
  by (simp add: forward_local_messsage_def Let_def)

definition recv_good :: "harbor \<Rightarrow> harbor_msg multiset \<Rightarrow> nat \<Rightarrow> (harbor \<times> u8 list option) \<times> harbor_effect list \<Rightarrow> bool" where
  "recv_good h MS n r \<longleftrightarrow> (case r of ((h', rest), out) \<Rightarrow> links_ok h' MS \<and> h_map h' = h_map h \<and>
     (\<forall>bs. rest = Some bs \<longrightarrow> bs \<noteq> [] \<and> length bs < n))"

lemma recv_content_ok:
  assumes ok: "links_ok h MS" and i: "i < REMOTE_MAX" and st: "s_status (h_s h ! i) = STATUS_CONTENT" and bs: "bs \<noteq> []"
  shows "ends_in {Out_of_range} (recv_content send_ok h i bs) (recv_good h MS (length bs))"
proof -
  let ?s = "h_s h ! i"
  have s: "slave_ok ?s" by (rule links_slave [OF ok i])
  have len: "length (h_s h) = REMOTE_MAX" using ok by (simp add: links_ok_def)
  have c: "s_read ?s \<le> s_length ?s" "s_read ?s = s_length ?s \<Longrightarrow> s_length ?s = 0" "length (recv_buffer ?s) = s_length ?s" "None \<notin> set (take (s_read ?s) (recv_buffer ?s))" "s_fd ?s \<noteq> 0"
    using s st by (auto simp: slave_ok_def)
  show ?thesis
  proof (cases "length bs < s_length ?s - s_read ?s")
    case True
    let ?t = "?s\<lparr>recv_buffer := copy_to (recv_buffer ?s) (s_read ?s) (map Some bs), s_read := s_read ?s + length bs\<rparr>"
    have "slave_ok ?t"
      using s st c True copy_to_take [of "s_read ?s" "recv_buffer ?s" "map Some bs"] by (auto simp: slave_ok_def copy_to_length)
    then have "links_ok (set_slave i ?t h) MS" by (rule links_set_same [OF ok i]) simp
    then show ?thesis using True st i len by (simp add: recv_content_def Let_def recv_good_def)
  next
    case False
    let ?need = "s_length ?s - s_read ?s"
    let ?buf = "copy_to (recv_buffer ?s) (s_read ?s) (map Some (take ?need bs))"
    let ?t = "?s\<lparr>s_length := 0, s_read := 0, recv_buffer := [], s_status := STATUS_HEADER\<rparr>"
    have "take (s_read ?s + ?need) ?buf = take (s_read ?s) (recv_buffer ?s) @ map Some (take ?need bs)"
      using copy_to_take [of "s_read ?s" "recv_buffer ?s" "map Some (take ?need bs)"] c False by simp
    moreover have "length ?buf = s_read ?s + ?need" using c False by (simp add: copy_to_length)
    note len_buf = this
    ultimately have "?buf = take (s_read ?s) (recv_buffer ?s) @ map Some (take ?need bs)" by simp
    then have buf: "None \<notin> set ?buf" using c(4) by auto
    have "slave_ok ?t" using s c(5) by (simp add: slave_ok_def)
    then have l: "links_ok (set_slave i ?t h) MS" by (rule links_set_same [OF ok i]) simp
    have "0 < length bs" using bs by simp
    show ?thesis
    proof (cases "forward_local_messsage send_ok h (map the ?buf)")
      case (Inl e)
      then show ?thesis using False buf forward_ends [of send_ok h "map the ?buf"] by (simp add: recv_content_def Let_def)
    next
      case (Inr out)
      then have "12 \<le> length ?buf" by (auto simp: forward_local_messsage_def HEADER_COOKIE_LENGTH_def split: if_splits)
      then have "s_length ?s \<noteq> 0" using len_buf c(1) by simp
      then have "0 < ?need" using c(1,2) by fastforce
      then have "length (drop ?need bs) < length bs" using bs by (cases bs) simp_all
      then show ?thesis using False buf Inr l i len by (simp add: recv_content_def Let_def recv_good_def del: length_drop)
    qed
  qed
qed

lemma recv_header_ok:
  assumes ok: "links_ok h MS" and i: "i < REMOTE_MAX" and st: "s_status (h_s h ! i) = STATUS_HEADER"
  shows "ends_in {Out_of_range} (recv_header send_ok h i bs) (recv_good h MS (length bs))"
proof -
  let ?s = "h_s h ! i" let ?need = "4 - s_read ?s"
  have s: "slave_ok ?s" by (rule links_slave [OF ok i])
  have len: "length (h_s h) = REMOTE_MAX" using ok by (simp add: links_ok_def)
  have c: "s_read ?s < 4" "length (s_size ?s) = 4" "s_fd ?s \<noteq> 0" using s st by (auto simp: slave_ok_def)
  let ?hdr = "copy_to (s_size ?s) (s_read ?s) (take ?need bs)" let ?s1 = "?s\<lparr>s_size := ?hdr\<rparr>"
  let ?n = "unat (push_bit 16 (ucast (?hdr ! 1)) OR push_bit 8 (ucast (?hdr ! 2)) OR ucast (?hdr ! 3) :: u32)"
  show ?thesis
  proof (cases "length bs < ?need")
    case True
    let ?t = "?s\<lparr>s_size := copy_to (s_size ?s) (s_read ?s) bs, s_read := s_read ?s + length bs\<rparr>"
    have "slave_ok ?t" using s st c True by (auto simp: slave_ok_def copy_to_length)
    then have "links_ok (set_slave i ?t h) MS" by (rule links_set_same [OF ok i]) simp
    then show ?thesis using True st i len by (simp add: recv_header_def Let_def recv_good_def)
  next
    case False
    have lh: "length ?hdr = 4" using c False by (simp add: copy_to_length)
    show ?thesis
    proof (cases "?hdr ! 0 = 0")
      case nz: False
      have "slave_ok ?s1" using s lh by (simp add: slave_ok_def)
      then have l1: "links_ok (set_slave i ?s1 h) MS" by (rule links_set_same [OF ok i]) simp
      obtain h' where "close_harbor (set_slave i ?s1 h) i = Inr (h', [Hsocket_close (s_fd (h_s (set_slave i ?s1 h) ! i))])" "links_ok h' MS"
          "h_map h' = h_map (set_slave i ?s1 h)" "s_status (h_s h' ! i) = STATUS_DOWN"
        by (rule close_harbor_ok [OF l1 i]) (use c(3) i len in simp_all)
      then show ?thesis using False nz by (simp add: recv_header_def Let_def recv_good_def)
    next
      case z: True
      let ?t = "?s1\<lparr>s_length := ?n, s_read := 0, recv_buffer := replicate ?n None, s_status := STATUS_CONTENT\<rparr>"
      have "slave_ok (?s1\<lparr>s_length := n, s_read := 0, recv_buffer := replicate n None, s_status := STATUS_CONTENT\<rparr>)" for n
        using s lh c(3) by (cases n) (simp_all add: slave_ok_def)
      then have l: "links_ok (set_slave i ?t h) MS" by (rule links_set_same [OF ok i]) simp
      show ?thesis
      proof (cases "drop ?need bs = []")
        case True
        then show ?thesis using False z l i len by (simp add: recv_header_def Let_def recv_good_def)
      next
        case more: False
        have "ends_in {Out_of_range} (recv_content send_ok (set_slave i ?t h) i (drop ?need bs))
            (recv_good (set_slave i ?t h) MS (length (drop ?need bs)))"
          by (rule recv_content_ok [OF l i _ more]) (use i len in simp)
        then have "ends_in {Out_of_range} (recv_content send_ok (set_slave i ?t h) i (drop ?need bs)) (recv_good h MS (length bs))"
          by (rule ends_in_weaken) (auto simp: recv_good_def)
        then show ?thesis using False z more by (simp add: recv_header_def Let_def)
      qed
    qed
  qed
qed

text \<open>
  A turn of the loop: afterwards fewer bytes are left, or none at all after a lone handshake, and a handshake
  is not waited for any more.
\<close>

lemma recv_turn_ok:
  assumes ok: "links_ok h MS" and i: "i < REMOTE_MAX" and bs: "bs \<noteq> [] \<or> s_status (h_s h ! i) = STATUS_HEADER"
  shows "ends_in {Out_of_range} (recv_turn send_ok h i bs) (\<lambda>((h', rest), out). links_ok h' MS \<and> h_map h' = h_map h \<and>
     (\<forall>bs'. rest = Some bs' \<longrightarrow> length bs' < length bs \<and> (bs' \<noteq> [] \<or> s_status (h_s h' ! i) = STATUS_HEADER)))"
    (is "ends_in _ _ ?G")
proof (cases "s_status (h_s h ! i)")
  case STATUS_HANDSHAKE
  let ?s = "h_s h ! i" let ?t = "?s\<lparr>s_status := STATUS_HEADER\<rparr>"
  have s: "slave_ok ?s" by (rule links_slave [OF ok i])
  have len: "length (h_s h) = REMOTE_MAX" using ok by (simp add: links_ok_def)
  have fd: "s_fd ?s \<noteq> 0" using s STATUS_HANDSHAKE by (auto simp: slave_ok_def)
  obtain b bs' where b: "bs = b # bs'" using bs STATUS_HANDSHAKE by (cases bs) auto
  show ?thesis
  proof (cases "unat b = i")
    case False
    obtain h' where "close_harbor h i = Inr (h', [Hsocket_close (s_fd ?s)])" "links_ok h' MS" "h_map h' = h_map h"
        "s_status (h_s h' ! i) = STATUS_DOWN"
      by (rule close_harbor_ok [OF ok i fd])
    then show ?thesis using STATUS_HANDSHAKE b False by (simp add: recv_turn_def Let_def)
  next
    case True
    have "slave_ok ?t" using s STATUS_HANDSHAKE by (simp add: slave_ok_def)
    then have l: "links_ok (set_slave i ?t h) MS" by (rule links_set_same [OF ok i]) simp
    let ?h = "set_slave i ?t h"
    obtain h' where h': "dispatch_queue_h ?h i = Inr (h', concat (map (\<lambda>m. send_remote (s_fd (h_s ?h ! i)) (payload (h_mem ?h) m) (hm_header m))
          (queued_msgs (s_queue (h_s ?h ! i)))))" "links_ok h' MS" "h_map h' = h_map ?h" "h_id h' = h_id ?h" "h_slave h' = h_slave ?h"
        "h_s h' = (h_s ?h)[i := (h_s ?h ! i)\<lparr>s_queue := None\<rparr>]"
      by (rule dispatch_queue_ok [OF l i]) (use fd i len in simp_all)
    have st: "s_status (h_s h' ! i) = STATUS_HEADER" using h'(6) i len by simp
    show ?thesis
    proof (cases "bs' = []")
      case True
      then show ?thesis using STATUS_HANDSHAKE b \<open>unat b = i\<close> h' st by (simp add: recv_turn_def Let_def)
    next
      case False
      have "ends_in {Out_of_range} (recv_header send_ok h' i bs') (recv_good h' MS (length bs'))"
        by (rule recv_header_ok [OF h'(2) i st])
      then have "ends_in {Out_of_range} (andThen (recv_header send_ok h' i bs') (\<lambda>(t, out'). Inr (t, out @ out'))) ?G" for out
        by (rule ends_in_andThen) (use h'(3) b in \<open>auto simp: recv_good_def\<close>)
      then show ?thesis using STATUS_HANDSHAKE b \<open>unat b = i\<close> h'(1) False by (simp add: recv_turn_def Let_def)
    qed
  qed
next
  case STATUS_HEADER
  then show ?thesis using recv_header_ok [OF ok i STATUS_HEADER, of send_ok bs]
    by (simp add: recv_turn_def Let_def) (erule ends_in_weaken, auto simp: recv_good_def)
next
  case STATUS_CONTENT
  then have "bs \<noteq> []" using bs by simp
  then show ?thesis using recv_content_ok [OF ok i STATUS_CONTENT, of bs send_ok] STATUS_CONTENT
    by (simp add: recv_turn_def Let_def) (erule ends_in_weaken, auto simp: recv_good_def)
qed (use ok in \<open>simp_all add: recv_turn_def Let_def\<close>)

lemma recv_loop_ok:
  "links_ok h MS \<Longrightarrow> i < REMOTE_MAX \<Longrightarrow> bs \<noteq> [] \<or> s_status (h_s h ! i) = STATUS_HEADER \<Longrightarrow> length bs < k \<Longrightarrow>
    ends_in {Out_of_range} (recv_loop k send_ok h i bs) (\<lambda>(h', out). links_ok h' MS \<and> h_map h' = h_map h)"
proof (induction k arbitrary: h bs)
  case (Suc k)
  note t = recv_turn_ok [OF Suc.prems(1-3), of send_ok]
  show ?case
  proof (cases "recv_turn send_ok h i bs")
    case (Inl e)
    then show ?thesis using t by simp
  next
    case (Inr r)
    obtain h' rest out where r: "r = ((h', rest), out)" by (cases r) auto
    show ?thesis
    proof (cases rest)
      case None
      then show ?thesis using t Inr r by simp
    next
      case (Some bs')
      then have g: "links_ok h' MS" "h_map h' = h_map h" "length bs' < length bs" "bs' \<noteq> [] \<or> s_status (h_s h' ! i) = STATUS_HEADER"
        using t Inr r by simp_all
      have "ends_in {Out_of_range} (recv_loop k send_ok h' i bs') (\<lambda>(h'', out). links_ok h'' MS \<and> h_map h'' = h_map h')"
        by (rule Suc.IH [OF g(1) Suc.prems(2) g(4)]) (use g(3) Suc.prems(4) in simp)
      then have "ends_in {Out_of_range} (andThen (recv_loop k send_ok h' i bs') (\<lambda>(t, out'). Inr (t, out @ out')))
          (\<lambda>(h', out). links_ok h' MS \<and> h_map h' = h_map h)"
        by (rule ends_in_andThen) (use g(2) in auto)
      then show ?thesis using Inr r Some by simp
    qed
  qed
qed simp

end
