(* ===== verification/HarborSafe.thy ===== *)
theory HarborSafe
  imports Harbor
begin

text \<open>
  Every operation of the harbor service keeps the invariant of the last theory. \<open>harbor_step\<close> is the step of the service on a
  message of the engine, from the states of \<open>harbor_init\<close>; what the engine delivers is \<open>harbor_legal\<close>. The
  interpretation of \<open>safety\<close> gives the invariant in every reachable state, on which the properties rest.
\<close>

section \<open>Names\<close>

lemma harbor_of_handle: "unat (drop_bit HANDLE_REMOTE_SHIFT (h :: u32)) < REMOTE_MAX"
proof -
  have "unat h < 2 ^ LENGTH(32)" by (rule unsigned_less)
  then show ?thesis by (simp add: HANDLE_REMOTE_SHIFT_def REMOTE_MAX_def unat_drop_bit less_mult_imp_div_less)
qed

lemma links_mem_set: "links_ok h MS \<Longrightarrow> mem_ok mem (slave_msgs (h_s h) + MS') \<Longrightarrow> links_ok (h\<lparr>h_mem := mem\<rparr>) MS'"
  by (simp add: links_ok_def)

lemma slave_queue_ok: "slave_ok s \<Longrightarrow> queue_ok qo \<Longrightarrow> slave_ok (s\<lparr>s_queue := qo\<rparr>)"
  by (simp add: slave_ok_def)

text \<open>The waiting messages of a name whose node is connected are sent to it at once, in order.\<close>

lemma dispatch_name_sent:
  assumes ok: "links_ok h (mset ms + MS)" and q: "hq_inv q ms" and fd: "s_fd (h_s h ! unat (drop_bit HANDLE_REMOTE_SHIFT hnd)) \<noteq> 0"
  obtains mem q' where "dispatch_name_queue h hnd q = Inr ((h\<lparr>h_mem := mem\<rparr>, Some q'),
      concat (map (\<lambda>m. send_remote (s_fd (h_s h ! unat (drop_bit HANDLE_REMOTE_SHIFT hnd))) (payload (h_mem h) m)
        ((hm_header m)\<lparr>rh_destination := rh_destination (hm_header m) OR (hnd AND HANDLE_MASK)\<rparr>)) ms))"
    "hq_inv q' []" "links_ok (h\<lparr>h_mem := mem\<rparr>) MS"
proof -
  let ?fd = "s_fd (h_s h ! unat (drop_bit HANDLE_REMOTE_SHIFT hnd))"
  have m: "mem_ok (h_mem h) (mset ms + (slave_msgs (h_s h) + MS))" using ok by (simp add: links_ok_def ac_simps)
  obtain q' mem where d: "hq_inv q' []" "drain_queue (send_queued ?fd (\<lambda>d. d OR (hnd AND HANDLE_MASK))) q (h_mem h) =
      Inr ((q', mem), concat (map (\<lambda>m. send_remote ?fd (payload (h_mem h) m)
        ((hm_header m)\<lparr>rh_destination := rh_destination (hm_header m) OR (hnd AND HANDLE_MASK)\<rparr>)) ms))"
      "mem_ok mem (slave_msgs (h_s h) + MS)" "\<forall>m \<in># slave_msgs (h_s h) + MS. payload mem m = payload (h_mem h) m"
    by (rule sending.drain_consume [OF q m])
  have "links_ok (h\<lparr>h_mem := mem\<rparr>) MS" using ok d(3) by (simp add: links_ok_def)
  with d(1,2) fd show thesis by (intro that) (simp_all add: dispatch_name_queue_def Let_def)
qed

lemma dispatch_name_waits:
  assumes ok: "links_ok h (mset ms + MS)" and q: "hq_inv q ms" and fd: "s_fd (h_s h ! unat (drop_bit HANDLE_REMOTE_SHIFT hnd)) = 0"
  obtains h' rest out where "dispatch_name_queue h hnd q = Inr ((h', rest), out)" "queue_ok rest" "queued_msgs rest = []" "links_ok h' MS"
    "h_map h' = h_map h"
proof -
  let ?i = "unat (drop_bit HANDLE_REMOTE_SHIFT hnd)" let ?s = "h_s h ! ?i"
  have i: "?i < REMOTE_MAX" by (rule harbor_of_handle)
  have s: "slave_ok ?s" by (rule links_slave [OF ok i])
  have st: "s_status ?s = STATUS_WAIT" using s fd by (simp add: slave_ok_def)
  obtain sq rest where r: "(case s_queue ?s of None \<Rightarrow> Inr (q, None)
        | Some sq \<Rightarrow> andThen (move_queue q sq) (\<lambda>((q', sq'), _). Inr (sq', Some q'))) = Inr (sq, rest)"
      "hq_inv sq (queued_msgs (s_queue ?s) @ ms)" "queue_ok rest" "queued_msgs rest = []"
  proof (cases "s_queue ?s")
    case None
    then show ?thesis using that [of q None] q by simp
  next
    case (Some sq0)
    then have "hq_inv sq0 (queued_msgs (s_queue ?s))" using s by (simp add: slave_ok_def)
    then obtain q' sq' where m: "move_queue q sq0 = Inr ((q', sq'), [])" "hq_inv q' []" "hq_inv sq' (queued_msgs (s_queue ?s) @ ms)"
      using move_queue_spec [OF q] by blast
    show ?thesis by (rule that [of sq' "Some q'"]) (use m Some hq_inv_ok [OF m(2)] in simp_all)
  qed
  show thesis
  proof (cases "?i = unat (drop_bit HANDLE_REMOTE_SHIFT (h_slave h))")
    case False
    have sq: "queued_msgs (Some sq) = queued_msgs (s_queue ?s) @ ms" "queue_ok (Some sq)" using hq_inv_ok [OF r(2)] by simp_all
    have "links_ok ((set_slave ?i (?s\<lparr>s_queue := Some sq\<rparr>) h)\<lparr>h_mem := h_mem h\<rparr>) MS"
      by (rule links_set [OF ok i slave_queue_ok [OF s sq(2)]]) (simp add: sq(1) ac_simps)
    then have "links_ok (set_slave ?i (?s\<lparr>s_queue := Some sq\<rparr>) h) MS" by (simp add: links_ok_def)
    with False r st fd show ?thesis
      by (intro that [of "set_slave ?i (?s\<lparr>s_queue := Some sq\<rparr>) h" rest "[]"]) (simp_all add: dispatch_name_queue_def Let_def)
  next
    case True
    let ?eff = "\<lambda>m bs. [Hsend (rh_source (hm_header m)) hnd (uint (drop_bit HANDLE_REMOTE_SHIFT (rh_destination (hm_header m))) OR PTYPE_TAG_DONTCOPY)
        (rh_session (hm_header m)) bs]"
    have step: "\<exists>mem' q'. drain_queue (send_local hnd) sq mem = Inr ((q', mem'), concat (map (\<lambda>m. ?eff m (payload mem m)) (queued_msgs (s_queue ?s) @ ms))) \<and>
        release_queue_h (Some q') mem' = Inr mem' \<and> mem_ok mem' R"
      if a: "mem_ok mem (mset (queued_msgs (s_queue ?s) @ ms) + R)" for mem R
    proof -
      obtain q' mem1 where d: "hq_inv q' []" "drain_queue (send_local hnd) sq mem =
          Inr ((q', mem1), concat (map (\<lambda>m. ?eff m (payload mem m)) (queued_msgs (s_queue ?s) @ ms)))" "mem_ok mem1 R"
          "\<forall>m \<in># R. payload mem1 m = payload mem m"
        by (rule handing.drain_consume [OF r(2) a])
      have "release_queue_h (Some q') mem1 = Inr mem1"
        using pop_queue_Nil [OF d(1)] by (simp add: release_queue_h_def drain_queue_def)
      with d show ?thesis by blast
    qed
    obtain R where R: "mem_ok (h_mem h) (mset (queued_msgs (s_queue ?s)) + (R + (mset ms + MS)))" by (rule links_mem [OF ok i])
    have "mem_ok (h_mem h) (mset (queued_msgs (s_queue ?s) @ ms) + (R + MS))" using R by (simp add: ac_simps)
    from step [OF this] obtain mem q' where m: "drain_queue (send_local hnd) sq (h_mem h) =
        Inr ((q', mem), concat (map (\<lambda>m. ?eff m (payload (h_mem h) m)) (queued_msgs (s_queue ?s) @ ms)))" "release_queue_h (Some q') mem = Inr mem"
      by blast
    have "links_ok ((set_slave ?i (?s\<lparr>s_queue := None\<rparr>) h)\<lparr>h_mem := mem\<rparr>) MS"
    proof (rule links_set [OF ok i slave_queue_ok [OF s]])
      fix R' assume "mem_ok (h_mem h) (mset (queued_msgs (s_queue ?s)) + (R' + (mset ms + MS)))"
      then have "mem_ok (h_mem h) (mset (queued_msgs (s_queue ?s) @ ms) + (R' + MS))" by (simp add: ac_simps)
      from step [OF this] m show "mem_ok mem (mset (queued_msgs (s_queue (?s\<lparr>s_queue := None\<rparr>))) + (R' + MS))" by auto
    qed simp
    with True r st fd m show ?thesis
      by (intro that [of "(set_slave ?i (?s\<lparr>s_queue := None\<rparr>) h)\<lparr>h_mem := mem\<rparr>" rest]) (simp_all add: dispatch_name_queue_def Let_def)
  qed
qed

lemma set_first_split:
  "find f xs = Some x \<Longrightarrow> \<exists>R. sum_list (map g xs) = g x + R \<and> (\<forall>v. sum_list (map g (set_first f v xs)) = g v + R)"
  for g :: "'a \<Rightarrow> 'b::comm_monoid_add"
proof (induction xs)
  case (Cons y xs)
  show ?case
  proof (cases "f y")
    case False
    then obtain R where "sum_list (map g xs) = g x + R" "\<forall>v. sum_list (map g (set_first f v xs)) = g v + R" using Cons by auto
    then show ?thesis using False by (intro exI [of _ "g y + R"]) (simp add: ac_simps)
  qed (use Cons.prems in auto)
qed simp

lemma set_first_subset: "set (set_first f v xs) \<subseteq> insert v (set xs)"
  by (induction xs) auto

lemma name_bucket_less: "name_bucket nm < HASH_SIZE"
  by (simp add: name_bucket_def HASH_SIZE_def)

lemma name_bucket_mem: "names_ok hm \<Longrightarrow> hm ! name_bucket nm \<in> set hm"
  using name_bucket_less [of nm] by (simp add: names_ok_def)

lemma search_in: "names_ok hm \<Longrightarrow> hash_search hm nm = Some node \<Longrightarrow> queue_ok (kv_queue node) \<and> name_match nm node"
  using name_bucket_mem [of hm nm] by (auto simp: hash_search_def find_Some_iff names_ok_def)

lemma node_split:
  assumes ok: "names_ok hm" and node: "hash_search hm nm = Some node"
  obtains R where "name_msgs hm = mset (queued_msgs (kv_queue node)) + R" "\<forall>n. name_msgs (set_node hm nm n) = mset (queued_msgs (kv_queue n)) + R"
proof -
  let ?g = "\<lambda>n. mset (queued_msgs (kv_queue n))" let ?b = "hm ! name_bucket nm"
  obtain R where R: "sum_list (map ?g ?b) = ?g node + R" "\<forall>v. sum_list (map ?g (set_first (name_match nm) v ?b)) = ?g v + R"
    using set_first_split [of "name_match nm" ?b node ?g] node by (auto simp: hash_search_def)
  have "name_bucket nm < length hm" using ok name_bucket_less [of nm] by (simp add: names_ok_def)
  then obtain R' where "name_msgs hm = sum_list (map ?g ?b) + R'" "\<And>y. name_msgs (hm[name_bucket nm := y]) = sum_list (map ?g y) + R'"
    using sum_list_set [of "name_bucket nm" hm "\<lambda>b. sum_list (map ?g b)"] unfolding name_msgs_def by blast
  then show thesis using R by (intro that [of "R + R'"]) (simp_all add: set_node_def ac_simps)
qed

lemma names_ok_bucket:
  assumes ok: "names_ok hm" and b: "\<forall>n \<in> set b. n \<in> set (hm ! name_bucket nm) \<or> queue_ok (kv_queue n)"
  shows "names_ok (hm[name_bucket nm := b])"
proof -
  have q: "queue_ok (kv_queue n)" if "x \<in> set hm" "n \<in> set x" for x n using ok that by (simp add: names_ok_def)
  have "queue_ok (kv_queue n)" if "x \<in> insert b (set hm)" "n \<in> set x" for x n
    using that b q q [OF name_bucket_mem [OF ok, of nm]] by (cases "x = b") blast+
  then have "\<forall>x \<in> set (hm[name_bucket nm := b]). \<forall>n \<in> set x. queue_ok (kv_queue n)"
    using set_update_subset_insert [of hm "name_bucket nm" b] by blast
  then show ?thesis using ok by (simp add: names_ok_def)
qed

lemma names_ok_set:
  assumes "names_ok hm" and "queue_ok (kv_queue n)"
  shows "names_ok (set_node hm nm n)"
  unfolding set_node_def
proof (rule names_ok_bucket [OF assms(1)], rule ballI)
  fix m assume "m \<in> set (set_first (name_match nm) n (hm ! name_bucket nm))"
  then have "m = n \<or> m \<in> set (hm ! name_bucket nm)" using set_first_subset by fastforce
  then show "m \<in> set (hm ! name_bucket nm) \<or> queue_ok (kv_queue m)" using assms(2) by auto
qed

lemma name_node_spec:
  assumes ok: "names_ok hm"
  obtains hm' node where "name_node hm nm = (hm', node)" "hash_search hm' nm = Some node" "names_ok hm'" "name_msgs hm' = name_msgs hm"
    "hash_search hm nm = None \<and> kv_value node = 0 \<and> kv_queue node = None \<or> hash_search hm nm = Some node \<and> hm' = hm"
proof (cases "hash_search hm nm")
  case (Some n)
  show ?thesis by (rule that [of hm n]) (simp_all add: Some ok name_node_def)
next
  case None
  let ?b = "name_bucket nm"
  let ?n = "\<lparr>kv_key = take GLOBALNAME_LENGTH nm, kv_hash = name_hash nm, kv_value = 0, kv_queue = None\<rparr>"
  let ?hm = "hm[?b := ?n # hm ! ?b]"
  have b: "?b < length hm" using ok name_bucket_less [of nm] by (simp add: names_ok_def)
  obtain R where "name_msgs hm = sum_list (map (\<lambda>n. mset (queued_msgs (kv_queue n))) (hm ! ?b)) + R"
      "\<And>y. name_msgs (hm[?b := y]) = sum_list (map (\<lambda>n. mset (queued_msgs (kv_queue n))) y) + R"
    using sum_list_set [OF b, of "\<lambda>b. sum_list (map (\<lambda>n. mset (queued_msgs (kv_queue n))) b)"] unfolding name_msgs_def by blast
  then have "name_msgs ?hm = name_msgs hm" by simp
  moreover have "hash_search ?hm nm = Some ?n" using b by (simp add: hash_search_def name_match_def strncmp_eq_def)
  moreover have "names_ok ?hm"
    by (rule names_ok_bucket [OF ok]) simp
  ultimately show ?thesis by (intro that [of ?hm ?n]) (simp_all add: None name_node_def hash_insert_def Let_def)
qed

definition harbor_with :: "harbor \<Rightarrow> harbor_msg multiset \<Rightarrow> bool" where
  "harbor_with h X \<longleftrightarrow> names_ok (h_map h) \<and> links_ok h (name_msgs (h_map h) + X)"

lemma harbor_with_empty: "harbor_with h {#} = harbor_inv h"
  by (simp add: harbor_with_def harbor_inv_def)

lemma links_map [simp]: "links_ok (h\<lparr>h_map := hm\<rparr>) MS = links_ok h MS"
  by (simp add: links_ok_def)

lemma update_name_ok:
  assumes inv: "harbor_inv h"
  obtains h' out where "update_name h nm hnd = Inr (h', out)" "harbor_inv h'"
proof -
  have nok: "names_ok (h_map h)" and l: "links_ok h (name_msgs (h_map h))" using inv by (simp_all add: harbor_inv_def)
  obtain hm node where n: "name_node (h_map h) nm = (hm, node)" "hash_search hm nm = Some node" "names_ok hm" "name_msgs hm = name_msgs (h_map h)"
      "hash_search (h_map h) nm = None \<and> kv_value node = 0 \<and> kv_queue node = None \<or> hash_search (h_map h) nm = Some node \<and> hm = h_map h"
    by (rule name_node_spec [OF nok])
  obtain R where R: "name_msgs hm = mset (queued_msgs (kv_queue node)) + R" "\<forall>n. name_msgs (set_node hm nm n) = mset (queued_msgs (kv_queue n)) + R"
    by (rule node_split [OF n(3,2)])
  let ?h = "h\<lparr>h_map := hm\<rparr>"
  show thesis
  proof (cases "kv_queue node")
    case None
    let ?n = "node\<lparr>kv_value := hnd\<rparr>"
    have "harbor_inv (?h\<lparr>h_map := set_node hm nm ?n\<rparr>)"
      using names_ok_set [OF n(3), of ?n nm] l n(4) R(1) R(2) None by (simp add: harbor_inv_def)
    then show ?thesis using that n(1) None by (simp add: update_name_def)
  next
    case (Some q)
    let ?n = "node\<lparr>kv_value := hnd, kv_queue := None\<rparr>"
    have q: "hq_inv q (queued_msgs (kv_queue node))" using search_in [OF n(3,2)] Some by simp
    have lh: "links_ok ?h (mset (queued_msgs (kv_queue node)) + R)" using l n(4) R(1) by simp
    obtain h2 rest out where d: "dispatch_name_queue ?h hnd q = Inr ((h2, rest), out)" "queue_ok rest" "queued_msgs rest = []" "links_ok h2 R"
    proof (cases "s_fd (h_s ?h ! unat (drop_bit HANDLE_REMOTE_SHIFT hnd)) = 0")
      case fd: True
      show ?thesis by (rule dispatch_name_waits [OF lh q fd]) (rule that)
    next
      case fd: False
      show ?thesis by (rule dispatch_name_sent [OF lh q fd]) (rule that, assumption, simp_all add: hq_inv_ok)
    qed
    have "mem_ok (h_mem h2) (mset [] + (slave_msgs (h_s h2) + R))" using d(4) by (simp add: links_ok_def)
    then obtain mem where mem: "release_queue_h rest (h_mem h2) = Inr mem" "mem_ok mem (slave_msgs (h_s h2) + R)"
      using d(2,3) by (rule_tac release_queue_spec [of rest "[]" "h_mem h2" "slave_msgs (h_s h2) + R"]) auto
    have "links_ok (h2\<lparr>h_map := set_node hm nm ?n, h_mem := mem\<rparr>) R" using d(4) mem(2) by (simp add: links_ok_def)
    then have "harbor_inv (h2\<lparr>h_map := set_node hm nm ?n, h_mem := mem\<rparr>)"
      using names_ok_set [OF n(3), of ?n nm] R(2) by (simp add: harbor_inv_def)
    then show ?thesis using that n(1) Some d(1) mem(1) by (simp add: update_name_def)
  qed
qed


section \<open>Sending\<close>

lemma push_waiting:
  assumes "queue_ok qo"
  obtains q where "push_queue (case qo of None \<Rightarrow> new_queue | Some q \<Rightarrow> q) p n hdr = Inr q"
    "queued_msgs (Some q) = queued_msgs qo @ [\<lparr>hm_header = hdr, hm_buffer = p, hm_size = n\<rparr>]" "queue_ok (Some q)"
proof -
  have "hq_inv (case qo of None \<Rightarrow> new_queue | Some q \<Rightarrow> q) (queued_msgs qo)" using assms hq_new by (cases qo) simp_all
  then obtain q where "push_queue_msg (case qo of None \<Rightarrow> new_queue | Some q \<Rightarrow> q) \<lparr>hm_header = hdr, hm_buffer = p, hm_size = n\<rparr> = Inr q"
      "hq_inv q (queued_msgs qo @ [\<lparr>hm_header = hdr, hm_buffer = p, hm_size = n\<rparr>])"
    by (rule push_queue_msg_spec)
  then show thesis by (intro that [of q]) (simp_all add: push_queue_def hq_inv_ok)
qed

lemma mem_ok_header:
  "hm_buffer m = hm_buffer m' \<Longrightarrow> hm_size m = hm_size m' \<Longrightarrow> mem_ok mem (add_mset m MS) \<Longrightarrow> mem_ok mem (add_mset m' MS)"
  by (simp add: mem_ok_def msg_ok_def)

text \<open>
  A message in hand is one more owner of a block. Afterwards it is taken, or still there for the caller to free.
\<close>

lemma remote_send_handle_ok:
  assumes ok: "links_ok h (add_mset m MS)" and m: "hm_buffer m = p" "hm_size m = n"
  obtains h' taken out where "remote_send_handle h src dest type sess p n = Inr ((h', taken), out)"
    "links_ok h' (if taken then MS else add_mset m MS)" "h_map h' = h_map h"
proof -
  let ?i = "unat (drop_bit HANDLE_REMOTE_SHIFT dest)" let ?s = "h_s h ! ?i"
  let ?hdr = "\<lparr>rh_source = src, rh_destination = push_bit HANDLE_REMOTE_SHIFT (word_of_int type) OR (dest AND HANDLE_MASK), rh_session = sess\<rparr>"
  have i: "?i < REMOTE_MAX" by (rule harbor_of_handle)
  have mem: "mem_ok (h_mem h) (add_mset m (slave_msgs (h_s h) + MS))" using ok by (simp add: links_ok_def)
  have rd: "read_block (h_mem h) p n = Inr (payload (h_mem h) m)" using read_block_payload [OF mem, of m] m by simp
  show thesis
  proof (cases "int ?i = h_id h")
    case True
    have "links_ok (h\<lparr>h_mem := (h_mem h)(p := None)\<rparr>) MS"
      using mem_ok_free(2) [OF mem] ok m by (simp add: links_ok_def)
    with True rd mem_ok_free(1) [OF mem] m show ?thesis
      by (intro that [of "h\<lparr>h_mem := (h_mem h)(p := None)\<rparr>" True]) (simp_all add: remote_send_handle_def give_block_def)
  next
    case other: False
    show ?thesis
    proof (cases "(s_fd ?s = 0 \<or> s_status ?s = STATUS_HANDSHAKE) \<and> s_status ?s \<noteq> STATUS_DOWN")
      case True
      have s: "slave_ok ?s" by (rule links_slave [OF ok i])
      then have "queue_ok (s_queue ?s)" by (simp add: slave_ok_def)
      then obtain q where q: "push_queue (case s_queue ?s of None \<Rightarrow> new_queue | Some q \<Rightarrow> q) p n ?hdr = Inr q"
          "queued_msgs (Some q) = queued_msgs (s_queue ?s) @ [\<lparr>hm_header = ?hdr, hm_buffer = p, hm_size = n\<rparr>]" "queue_ok (Some q)"
        by (rule push_waiting)
      have "links_ok ((set_slave ?i (?s\<lparr>s_queue := Some q\<rparr>) h)\<lparr>h_mem := h_mem h\<rparr>) MS"
        by (rule links_set [OF ok i slave_queue_ok [OF s q(3)]]) (auto simp: q(2) m intro: mem_ok_header [of m])
      then have "links_ok (set_slave ?i (?s\<lparr>s_queue := Some q\<rparr>) h) MS" by (simp add: links_ok_def)
      with True other q(1) show ?thesis
        by (intro that [of "set_slave ?i (?s\<lparr>s_queue := Some q\<rparr>) h" True "[]"]) (simp_all add: remote_send_handle_def Let_def)
    next
      case False
      with other rd ok show ?thesis
        by (intro that [of h False "if s_fd ?s = 0 \<or> s_status ?s = STATUS_HANDSHAKE
              then [Hsend dest src PTYPE_ERROR 0 [], Herror ''Drop message to harbor %d from %x to %x (session = %d, msgsz = %d)'']
              else send_remote (s_fd ?s) (payload (h_mem h) m) ?hdr"]) (auto simp: remote_send_handle_def Let_def)
    qed
  qed
qed

lemma remote_send_name_ok:
  assumes ok: "harbor_with h {#m#}" and m: "hm_buffer m = p" "hm_size m = n"
  obtains h' taken out where "remote_send_name h src nm type sess p n = Inr ((h', taken), out)"
    "harbor_with h' (if taken then {#} else {#m#})"
proof -
  have nok: "names_ok (h_map h)" and l: "links_ok h (add_mset m (name_msgs (h_map h)))" using ok by (simp_all add: harbor_with_def)
  obtain hm node where n: "name_node (h_map h) nm = (hm, node)" "hash_search hm nm = Some node" "names_ok hm" "name_msgs hm = name_msgs (h_map h)"
      "hash_search (h_map h) nm = None \<and> kv_value node = 0 \<and> kv_queue node = None \<or> hash_search (h_map h) nm = Some node \<and> hm = h_map h"
    by (rule name_node_spec [OF nok])
  let ?h = "h\<lparr>h_map := hm\<rparr>"
  show thesis
  proof (cases "kv_value node = 0")
    case False
    have "links_ok ?h (add_mset m (name_msgs hm))" using l n(4) by simp
    then obtain h' taken out where "remote_send_handle ?h src (kv_value node) type sess p n = Inr ((h', taken), out)"
        "links_ok h' (if taken then name_msgs hm else add_mset m (name_msgs hm))" "h_map h' = h_map ?h"
      using m by (rule remote_send_handle_ok)
    with n(1,3) False show ?thesis
      by (intro that [of h' taken out]) (auto simp: remote_send_name_def harbor_with_def)
  next
    case True
    obtain R where R: "name_msgs hm = mset (queued_msgs (kv_queue node)) + R" "\<forall>n. name_msgs (set_node hm nm n) = mset (queued_msgs (kv_queue n)) + R"
      by (rule node_split [OF n(3,2)])
    let ?hdr = "\<lparr>rh_source = src, rh_destination = push_bit HANDLE_REMOTE_SHIFT (word_of_int type), rh_session = sess\<rparr>"
    have "queue_ok (kv_queue node)" using search_in [OF n(3,2)] by blast
    then obtain q where q: "push_queue (case kv_queue node of None \<Rightarrow> new_queue | Some q \<Rightarrow> q) p n ?hdr = Inr q"
        "queued_msgs (Some q) = queued_msgs (kv_queue node) @ [\<lparr>hm_header = ?hdr, hm_buffer = p, hm_size = n\<rparr>]" "queue_ok (Some q)"
      by (rule push_waiting)
    let ?n = "node\<lparr>kv_queue := Some q\<rparr>"
    have "mem_ok (h_mem h) (add_mset m (slave_msgs (h_s h) + name_msgs hm))" using l n(4) by (simp add: links_ok_def)
    then have "mem_ok (h_mem h) (add_mset \<lparr>hm_header = ?hdr, hm_buffer = p, hm_size = n\<rparr> (slave_msgs (h_s h) + name_msgs hm))"
      by (rule mem_ok_header [rotated 2]) (simp_all add: m)
    then have "links_ok h (name_msgs (set_node hm nm ?n))" using l R q(2) by (simp add: links_ok_def)
    then have "harbor_with (?h\<lparr>h_map := set_node hm nm ?n\<rparr>) {#}" using names_ok_set [OF n(3), of ?n nm] q(3) by (simp add: harbor_with_def)
    with True n(1) q(1) show ?thesis by (intro that [of _ True]) (simp_all add: remote_send_name_def Let_def)
  qed
qed


section \<open>The callback\<close>

lemma command_connect_ok:
  assumes inv: "harbor_inv h"
  obtains h' out where "command_connect h cmd arg = Inr (h', out)" "harbor_inv h'"
proof -
  let ?MS = "name_msgs (h_map h)"
  have nok: "names_ok (h_map h)" and l: "links_ok h ?MS" using inv by (simp_all add: harbor_inv_def)
  define fi where "fi = (case scan_int (takeWhile (\<lambda>c. c \<noteq> 0) arg) of None \<Rightarrow> (0, 0)
      | Some (fd, rest) \<Rightarrow> (fd, case scan_int rest of None \<Rightarrow> 0 | Some (i, _) \<Rightarrow> i))"
  obtain fd i where fi: "fi = (fd, i)" by (cases fi)
  note def = command_connect_def [of h cmd arg, unfolded Let_def, folded fi_def, unfolded fi prod.case]
  let ?k = "nat i" let ?s = "h_s h ! ?k"
  show thesis
  proof (cases "fd = 0 \<or> i \<le> 0 \<or> int REMOTE_MAX \<le> i \<or> s_fd ?s \<noteq> 0")
    case True
    then show ?thesis using inv that [of h] by (cases "fd = 0 \<or> i \<le> 0 \<or> int REMOTE_MAX \<le> i") (simp_all add: def)
  next
    case False
    then have k: "?k < REMOTE_MAX" by linarith
    have len: "length (h_s h) = REMOTE_MAX" using l by (simp add: links_ok_def)
    have s: "slave_ok ?s" by (rule links_slave [OF l k])
    have st: "slave_ok (?s\<lparr>s_fd := fd, s_status := st\<rparr>)" if "st = STATUS_HANDSHAKE \<or> st = STATUS_HEADER" for st
      using s False that by (auto simp: slave_ok_def)
    have h1: "links_ok (set_slave ?k (?s\<lparr>s_fd := fd, s_status := st\<rparr>) h) ?MS" if "st = STATUS_HANDSHAKE \<or> st = STATUS_HEADER" for st
      by (rule links_set_same [OF l k st [OF that]]) simp
    have twice: "set_slave ?k t (set_slave ?k u h) = set_slave ?k t h" for t u by (simp add: set_slave_def)
    show ?thesis
    proof (cases "cmd = 83")
      case True
      with False h1 [of STATUS_HANDSHAKE] nok show ?thesis
        by (intro that [of "set_slave ?k (?s\<lparr>s_fd := fd, s_status := STATUS_HANDSHAKE\<rparr>) h"]) (unfold def, simp_all add: twice harbor_inv_def)
    next
      case ans: False
      let ?h = "set_slave ?k (?s\<lparr>s_fd := fd, s_status := STATUS_HEADER\<rparr>) h"
      have l1: "links_ok ?h ?MS" by (rule h1) simp
      have "s_fd (h_s ?h ! ?k) \<noteq> 0" using False k len by simp
      then obtain h' where h': "dispatch_queue_h ?h ?k = Inr (h', concat (map (\<lambda>m. send_remote (s_fd (h_s ?h ! ?k)) (payload (h_mem ?h) m) (hm_header m))
            (queued_msgs (s_queue (h_s ?h ! ?k)))))" "links_ok h' ?MS" "h_map h' = h_map ?h" "h_id h' = h_id ?h" "h_slave h' = h_slave ?h"
          "h_s h' = (h_s ?h)[?k := (h_s ?h ! ?k)\<lparr>s_queue := None\<rparr>]"
        by (rule dispatch_queue_ok [OF l1 k])
      then have "harbor_inv h'" using nok by (simp add: harbor_inv_def)
      with False ans h'(1) show ?thesis by (intro that [of h']) (unfold def, simp_all add: twice)
    qed
  qed
qed

lemma harbor_command_ok:
  assumes "harbor_inv h"
  shows "ends_in {Out_of_range} (harbor_command h msg src) (\<lambda>(h', out). harbor_inv h')"
proof -
  have c: "ends_in {Out_of_range} (command_connect h cmd arg) (\<lambda>(h', out). harbor_inv h')" for cmd arg
    by (rule command_connect_ok [OF assms, of cmd arg]) simp
  have u: "ends_in {Out_of_range} (update_name h nm src) (\<lambda>(h', out). harbor_inv h')" for nm
    by (rule update_name_ok [OF assms, of nm src]) simp
  show ?thesis using c u assms by (simp add: harbor_command_def Let_def)
qed

text \<open>The block that comes with a message is owned by nobody else.\<close>

definition arrive :: "harbor \<Rightarrow> ptr \<Rightarrow> u8 list \<Rightarrow> harbor" where
  "arrive h p bs = (if p = 0 then h else h\<lparr>h_mem := (h_mem h)(p \<mapsto> bs)\<rparr>)"

definition fresh_block :: "harbor \<Rightarrow> ptr \<Rightarrow> u8 list \<Rightarrow> bool" where
  "fresh_block h p bs \<longleftrightarrow> (p = 0 \<and> bs = []) \<or> (p \<noteq> 0 \<and> h_mem h p = None)"

lemma mem_ok_arrive:
  assumes ok: "mem_ok mem MS" and p: "p \<noteq> 0" "mem p = None" and m: "hm_buffer m = p" "unat (hm_size m) \<le> length bs"
  shows "mem_ok (mem(p \<mapsto> bs)) (add_mset m MS)"
proof -
  have dom: "p \<notin> dom mem" "finite (dom mem)" using p ok by (auto simp: mem_ok_def)
  have "msg_ok (mem(p \<mapsto> bs)) x" if "x \<in># MS" for x
    using that ok p by (cases "hm_buffer x = p") (auto simp: mem_ok_def msg_ok_def)
  then show ?thesis using ok p m dom by (simp add: mem_ok_def msg_ok_def)
qed

lemma arrive_with:
  assumes inv: "harbor_inv h" and f: "fresh_block h p bs" and m: "hm_buffer m = p" "unat (hm_size m) \<le> length bs"
  shows "harbor_with (arrive h p bs) {#m#}"
proof (cases "p = 0")
  case True
  then have "hm_size m = 0" using f m by (simp add: fresh_block_def unat_eq_0)
  then show ?thesis using True inv m by (simp add: harbor_with_def harbor_inv_def arrive_def links_ok_def mem_ok_def msg_ok_def)
next
  case False
  then show ?thesis using f inv mem_ok_arrive [of "h_mem h" "slave_msgs (h_s h) + name_msgs (h_map h)" p m bs] m
    by (simp add: harbor_with_def harbor_inv_def arrive_def links_ok_def fresh_block_def)
qed

lemma harbor_with_free:
  assumes "harbor_with h {#m#}"
  shows "free_block (h_mem h) (hm_buffer m) = Inr ((h_mem h)(hm_buffer m := None)) \<and> harbor_inv (h\<lparr>h_mem := (h_mem h)(hm_buffer m := None)\<rparr>)"
proof -
  have "mem_ok (h_mem h) (add_mset m (slave_msgs (h_s h) + name_msgs (h_map h)))" using assms by (simp add: harbor_with_def links_ok_def)
  from mem_ok_free(1,2) [OF this] show ?thesis using assms by (simp add: harbor_with_def harbor_inv_def links_ok_def)
qed

text \<open>
  The messages for which the service is shown to be safe. Data of a socket belongs to a known link and is not empty;
  a block that comes along is not in use. Data for a socket without a link is left out: the code frees its buffer twice (lemma \<open>harbor_double_free\<close> below).
\<close>

definition harbor_legal :: "harbor \<Rightarrow> harbor_input \<Rightarrow> ptr \<Rightarrow> u8 list \<Rightarrow> bool" where
  "harbor_legal h inp p bs \<longleftrightarrow>
     (case inp of
        Socket_message type fd ud b \<Rightarrow>
          if type = SOCKET_TYPE_DATA then harbor_id h fd \<noteq> None \<and> b = p \<and> p \<noteq> 0 \<and> h_mem h p = None \<and> ud = int (length bs) \<and> bs \<noteq> [] \<and> ud < 2 ^ 31
          else p = 0
      | Command_message msg src \<Rightarrow> p = 0
      | Message_out type sess src rmsg \<Rightarrow> rmessage rmsg = p \<and> fresh_block h p bs \<and> unat (rm_sz rmsg) = length bs)"

lemma harbor_id_less: "harbor_id h fd = Some i \<Longrightarrow> i < REMOTE_MAX \<and> s_fd (h_s h ! i) = fd"
  by (auto simp: harbor_id_def find_Some_iff)

lemma harbor_data_ok:
  assumes inv: "harbor_inv h" and p: "p \<noteq> 0" "h_mem h p = None" and i: "harbor_id h fd = Some i" and bs: "bs \<noteq> []" "length bs < 2 ^ 31"
  shows "ends_in {Out_of_range} (mainloop send_ok (arrive h p bs) (Socket_message SOCKET_TYPE_DATA fd (int (length bs)) p)) (\<lambda>(h', out). harbor_inv h')"
proof -
  let ?m = "\<lparr>hm_header = \<lparr>rh_source = 0, rh_destination = 0, rh_session = 0\<rparr>, hm_buffer = p, hm_size = of_nat (length bs)\<rparr>"
  let ?h = "arrive h p bs"
  have n: "unat (of_nat (length bs) :: u64) = length bs" using bs(2) by (simp add: unsigned_of_nat take_bit_nat_eq_self)
  have w: "harbor_with ?h {#?m#}" using p n by (intro arrive_with [OF inv]) (simp_all add: fresh_block_def)
  have i': "harbor_id ?h fd = Some i" using i p by (simp add: arrive_def harbor_id_def)
  have rd: "read_block (h_mem ?h) p (of_nat (length bs)) = Inr bs"
    using p n bs by (auto simp: read_block_def arrive_def)
  have l: "links_ok ?h (add_mset ?m (name_msgs (h_map ?h)))" using w by (simp add: harbor_with_def)
  have "ends_in {Out_of_range} (recv_loop (length bs + 2) send_ok ?h i bs)
      (\<lambda>(h', out). links_ok h' (add_mset ?m (name_msgs (h_map ?h))) \<and> h_map h' = h_map ?h)"
    using harbor_id_less [OF i] bs(1) by (intro recv_loop_ok [OF l]) simp_all
  then have "ends_in {Out_of_range} (push_socket_data send_ok ?h fd (length bs) p) (\<lambda>(h', out). harbor_with h' {#?m#})"
    using w i' rd by (simp add: push_socket_data_def) (erule ends_in_weaken, auto simp: harbor_with_def)
  then have "ends_in {Out_of_range} (andThen (push_socket_data send_ok ?h fd (length bs) p) (\<lambda>(h, out).
            andThen (free_block (h_mem h) p) (\<lambda>mem. Inr (h\<lparr>h_mem := mem\<rparr>, out)))) (\<lambda>(h', out). harbor_inv h')"
    by (rule ends_in_andThen) (use harbor_with_free [of _ ?m] in auto)
  then show ?thesis by (simp add: mainloop_def)
qed

lemma message_out_ok:
  assumes inv: "harbor_inv h" and f: "fresh_block h (rmessage rmsg) bs" and n: "unat (rm_sz rmsg) = length bs"
  obtains h' out where "mainloop send_ok (arrive h (rmessage rmsg) bs) (Message_out type sess src rmsg) = Inr (h', out)" "harbor_inv h'"
proof -
  let ?m = "\<lparr>hm_header = \<lparr>rh_source = 0, rh_destination = 0, rh_session = 0\<rparr>, hm_buffer = rmessage rmsg, hm_size = rm_sz rmsg\<rparr>"
  let ?h = "arrive h (rmessage rmsg) bs"
  let ?send = "if rn_handle (destination rmsg) = 0
    then remote_send_name ?h src (text_bytes (rn_name (destination rmsg))) type sess (rmessage rmsg) (rm_sz rmsg)
    else remote_send_handle ?h src (rn_handle (destination rmsg)) type sess (rmessage rmsg) (rm_sz rmsg)"
  have w: "harbor_with ?h {#?m#}" by (rule arrive_with [OF inv f]) (simp_all add: n)
  obtain h' taken out where s: "?send = Inr ((h', taken), out)" "harbor_with h' (if taken then {#} else {#?m#})"
  proof (cases "rn_handle (destination rmsg) = 0")
    case True
    obtain h' taken out where "remote_send_name ?h src (text_bytes (rn_name (destination rmsg))) type sess (rmessage rmsg) (rm_sz rmsg) = Inr ((h', taken), out)"
        "harbor_with h' (if taken then {#} else {#?m#})"
      by (rule remote_send_name_ok [OF w]) simp_all
    then show ?thesis using True by (intro that [of h' taken out]) simp_all
  next
    case False
    have l: "links_ok ?h (add_mset ?m (name_msgs (h_map ?h)))" using w by (simp add: harbor_with_def)
    obtain h' taken out where "remote_send_handle ?h src (rn_handle (destination rmsg)) type sess (rmessage rmsg) (rm_sz rmsg) = Inr ((h', taken), out)"
        "links_ok h' (if taken then name_msgs (h_map ?h) else add_mset ?m (name_msgs (h_map ?h)))" "h_map h' = h_map ?h"
      by (rule remote_send_handle_ok [OF l]) simp_all
    then show ?thesis using False w by (intro that [of h' taken out]) (auto simp: harbor_with_def)
  qed
  show thesis
  proof (cases taken)
    case True
    then show ?thesis using s by (intro that [of h' out]) (auto simp: mainloop_def harbor_with_empty)
  next
    case False
    with s(2) have "harbor_with h' {#?m#}" by simp
    from harbor_with_free [OF this] False s(1) show ?thesis
      by (intro that [of "h'\<lparr>h_mem := (h_mem h')(rmessage rmsg := None)\<rparr>" out]) (simp_all add: mainloop_def)
  qed
qed

lemma mainloop_ok:
  assumes inv: "harbor_inv h" and l: "harbor_legal h inp p bs"
  shows "ends_in {Out_of_range} (mainloop send_ok (arrive h p bs) inp) (\<lambda>(h', out). harbor_inv h')"
proof (cases inp)
  case (Socket_message type fd ud b)
  show ?thesis
  proof (cases "type = SOCKET_TYPE_DATA")
    case True
    with l Socket_message obtain i where "harbor_id h fd = Some i" by (auto simp: harbor_legal_def)
    with True l Socket_message show ?thesis using harbor_data_ok [OF inv, of p fd i bs send_ok] by (simp add: harbor_legal_def)
  next
    case False
    then show ?thesis using l inv Socket_message by (simp add: harbor_legal_def arrive_def mainloop_def)
  qed
next
  case (Command_message msg src)
  then show ?thesis using l harbor_command_ok [OF inv] by (simp add: harbor_legal_def arrive_def mainloop_def)
next
  case (Message_out type sess src rmsg)
  then have p: "rmessage rmsg = p" and f: "fresh_block h (rmessage rmsg) bs" "unat (rm_sz rmsg) = length bs"
    using l by (simp_all add: harbor_legal_def)
  show ?thesis unfolding Message_out p [symmetric] by (rule message_out_ok [OF inv f, of send_ok type sess src]) simp
qed


section \<open>Start, steps and release of the service\<close>

lemma harbor_init_Some: "harbor_init h args = Some h' \<Longrightarrow> \<exists>i sl. h' = h\<lparr>h_id := i, h_slave := sl\<rparr>"
  by (auto simp: harbor_init_def Let_def split: option.splits if_splits) blast

lemma harbor_create_inv: "harbor_inv (harbor_create\<lparr>h_id := i, h_slave := sl\<rparr>)"
proof -
  have e: "slave_ok empty_slave" by (simp add: slave_ok_def empty_slave_def)
  have "slave_msgs (replicate n empty_slave) = {#}" for n
    by (induction n) (simp_all add: slave_msgs_def empty_slave_def)
  moreover have "name_msgs (replicate n []) = {#}" for n by (induction n) (simp_all add: name_msgs_def)
  ultimately show ?thesis using e mem_ok_empty
    by (simp add: harbor_create_def harbor_inv_def names_ok_def hash_new_def links_ok_def)
qed

inductive harbor_step :: "(u32 \<Rightarrow> bool) \<Rightarrow> harbor \<Rightarrow> harbor \<Rightarrow> bool" for send_ok where
  "harbor_legal h inp p bs \<Longrightarrow> mainloop send_ok (arrive h p bs) inp = Inr (h', out) \<Longrightarrow> harbor_step send_ok h h'"

lemma harbor_step_inv: "harbor_step send_ok h h' \<Longrightarrow> harbor_inv h \<Longrightarrow> harbor_inv h'"
proof (induction rule: harbor_step.induct)
  case (1 h inp p bs h' out)
  then show ?case using mainloop_ok [of h inp p bs send_ok] by simp
qed

interpretation service: safety "harbor_create\<lparr>h_id := i, h_slave := sl\<rparr>" "harbor_step send_ok" harbor_inv for i sl send_ok
  by unfold_locales (auto intro: harbor_create_inv harbor_step_inv)

lemma harbor_reachable_inv:
  "harbor_init harbor_create args = Some h0 \<Longrightarrow> reachable h0 (harbor_step send_ok) h \<Longrightarrow> harbor_inv h"
  using harbor_init_Some service.reachable_inv by blast

lemma close_all_ok:
  "links_ok h MS \<Longrightarrow> set is \<subseteq> {..<REMOTE_MAX} \<Longrightarrow> \<exists>h' out. close_all is h = Inr (h', out) \<and> links_ok h' MS \<and> h_map h' = h_map h"
proof (induction "is" arbitrary: h)
  case (Cons i "is")
  obtain h1 out1 where h1: "(if s_fd (h_s h ! i) \<noteq> 0 \<and> s_status (h_s h ! i) \<noteq> STATUS_DOWN then close_harbor h i else Inr (h, [])) = Inr (h1, out1)"
      "links_ok h1 MS" "h_map h1 = h_map h"
  proof (cases "s_fd (h_s h ! i) \<noteq> 0 \<and> s_status (h_s h ! i) \<noteq> STATUS_DOWN")
    case True
    have i: "i < REMOTE_MAX" using Cons.prems by simp
    obtain h' where "close_harbor h i = Inr (h', [Hsocket_close (s_fd (h_s h ! i))])" "links_ok h' MS" "h_map h' = h_map h"
        "s_status (h_s h' ! i) = STATUS_DOWN"
      using True by (rule_tac close_harbor_ok [OF Cons.prems(1) i]) simp_all
    then show ?thesis using True by (intro that [of h']) simp_all
  next
    case False
    then show ?thesis using Cons.prems by (intro that [of h "[]"]) auto
  qed
  obtain h2 out2 where "close_all is h1 = Inr (h2, out2)" "links_ok h2 MS" "h_map h2 = h_map h1"
    using Cons.IH [OF h1(2)] Cons.prems by auto
  with h1(1,3) show ?case by auto
qed auto

lemma delete_nodes_ok:
  "mem_ok mem (sum_list (map (\<lambda>n. mset (queued_msgs (kv_queue n))) ns) + MS) \<Longrightarrow> \<forall>n \<in> set ns. queue_ok (kv_queue n) \<Longrightarrow>
    \<exists>mem'. delete_nodes ns mem = Inr mem' \<and> mem_ok mem' MS"
proof (induction ns arbitrary: mem)
  case (Cons n ns)
  have m: "mem_ok mem (mset (queued_msgs (kv_queue n)) + (sum_list (map (\<lambda>n. mset (queued_msgs (kv_queue n))) ns) + MS))"
    using Cons.prems(1) by (simp add: ac_simps)
  have q: "hq_inv q (queued_msgs (kv_queue n))" if "kv_queue n = Some q" for q using that Cons.prems(2) by auto
  have z: "kv_queue n = None \<Longrightarrow> queued_msgs (kv_queue n) = []" by simp
  obtain mem1 where "release_queue_h (kv_queue n) mem = Inr mem1" "mem_ok mem1 (sum_list (map (\<lambda>n. mset (queued_msgs (kv_queue n))) ns) + MS)"
      "\<forall>m \<in># sum_list (map (\<lambda>n. mset (queued_msgs (kv_queue n))) ns) + MS. payload mem1 m = payload mem m"
    by (rule release_queue_spec [OF q z m])
  then show ?case using Cons by simp
qed simp

text \<open>After the release of the service the blocks that remain belong to messages that still wait at a link.\<close>

lemma harbor_release_ok:
  assumes inv: "harbor_inv h"
  obtains h' out where "harbor_release h = Inr (h', out)" "mem_ok (h_mem h') (slave_msgs (h_s h'))"
proof -
  have nok: "names_ok (h_map h)" and l: "links_ok h (name_msgs (h_map h))" using inv by (simp_all add: harbor_inv_def)
  have "set [1..<REMOTE_MAX] \<subseteq> {..<REMOTE_MAX}" by auto
  from close_all_ok [OF l this] obtain h1 out where h1: "close_all [1..<REMOTE_MAX] h = Inr (h1, out)" "links_ok h1 (name_msgs (h_map h))" "h_map h1 = h_map h"
    by blast
  have eq: "sum_list (map (\<lambda>n. mset (queued_msgs (kv_queue n))) (concat hm)) = name_msgs hm" for hm
    by (induction hm) (simp_all add: name_msgs_def)
  have "mem_ok (h_mem h1) (sum_list (map (\<lambda>n. mset (queued_msgs (kv_queue n))) (concat (h_map h))) + slave_msgs (h_s h1))"
    using h1(2) by (simp add: eq links_ok_def ac_simps)
  moreover have "\<forall>n \<in> set (concat (h_map h)). queue_ok (kv_queue n)" using nok by (auto simp: names_ok_def)
  ultimately obtain mem where "delete_nodes (concat (h_map h)) (h_mem h1) = Inr mem" "mem_ok mem (slave_msgs (h_s h1))"
    using delete_nodes_ok by blast
  with h1 show thesis by (intro that [of "h1\<lparr>h_map := [], h_mem := mem\<rparr>" out]) (simp_all add: harbor_release_def hash_delete_def)
qed

section \<open>A node with a link\<close>

text \<open>Node 1 after the command \<^verbatim>\<open>A 5 3\<close>: node 3 is connected on socket 5.\<close>

definition demo_fresh :: harbor where
  "demo_fresh = harbor_create\<lparr>h_id := 1, h_slave := 2\<rparr>"

definition demo_harbor :: harbor where
  "demo_harbor = set_slave 3 (empty_slave\<lparr>s_fd := 5, s_status := STATUS_HEADER\<rparr>) demo_fresh"

lemma demo_scan: "scan_int (text_bytes ''1 2'') = Some (1, text_bytes '' 2'')" "scan_int (text_bytes '' 2'') = Some (2, [])"
  "scan_int (text_bytes ''5 3'') = Some (5, text_bytes '' 3'')" "scan_int (text_bytes '' 3'') = Some (3, [])"
  by code_simp+

lemma demo_init: "harbor_init harbor_create (text_bytes ''1 2'') = Some demo_fresh"
  by (simp add: harbor_init_def demo_scan demo_fresh_def)

lemma demo_slaves: "h_s demo_fresh = replicate REMOTE_MAX empty_slave" "h_mem demo_fresh = Map.empty" "h_map demo_fresh = hash_new" "h_id demo_fresh = 1" "h_slave demo_fresh = 2"
  by (simp_all add: demo_fresh_def harbor_create_def)

lemma demo_command: "mainloop send_ok demo_fresh (Command_message (text_bytes ''A 5 3'') src) = Inr (demo_harbor, [Hsocket_start 5, Hsocket_send 5 [1]])"
proof -
  have t: "text_bytes ''A 5 3'' = [65, 32] @ text_bytes ''5 3''" "takeWhile (\<lambda>c. c \<noteq> 0) (text_bytes ''5 3'') = text_bytes ''5 3''" by code_simp+
  have "REMOTE_MAX = 256" by (simp add: REMOTE_MAX_def)
  then show ?thesis
    by (simp add: mainloop_def harbor_command_def t command_connect_def demo_scan demo_slaves handshake_def dispatch_queue_h_def
        demo_harbor_def empty_slave_def set_slave_def)
qed

lemma demo_harbor_reachable: "reachable demo_fresh (harbor_step send_ok) demo_harbor"
proof -
  have "harbor_legal demo_fresh (Command_message (text_bytes ''A 5 3'') 0) 0 []" by (simp add: harbor_legal_def)
  moreover have "arrive demo_fresh 0 [] = demo_fresh" by (simp add: arrive_def)
  ultimately have "harbor_step send_ok demo_fresh demo_harbor" using demo_command harbor_step.intros by metis
  then show ?thesis using reachable.intros by metis
qed

lemma demo_links: "h_s demo_harbor ! 3 = empty_slave\<lparr>s_fd := 5, s_status := STATUS_HEADER\<rparr>" "h_mem demo_harbor = Map.empty" "h_id demo_harbor = 1"
    "h_slave demo_harbor = 2" "h_map demo_harbor = hash_new"
  by (simp_all add: demo_harbor_def demo_slaves REMOTE_MAX_def)

lemma demo_link_id: "harbor_id demo_harbor 5 = Some 3"
proof -
  have "[1..<REMOTE_MAX] = 1 # 2 # 3 # [4..<REMOTE_MAX]" by (simp add: REMOTE_MAX_def upt_rec)
  then show ?thesis by (simp add: harbor_id_def demo_harbor_def demo_slaves empty_slave_def REMOTE_MAX_def)
qed

lemma hash_new_search: "hash_search hash_new nm = None"
  using name_bucket_less [of nm] by (simp add: hash_search_def hash_new_def)

section \<open>Properties\<close>

text \<open>C17: The harbor service is memory safe on what the engine delivers to it. In every state that it reaches, the blocks of
  memory that came with messages and are still there are exactly the payloads of the messages that wait for a link or for a name, each of them once: none leaks and none is
  freed or sent twice. The next message never makes it touch a block that it does not own, and is always worked off in finite time.
  The one fault left is a read or copy outside a buffer, for a package shorter than its header or for a command without argument;
  messages to other nodes have none. The release of the service never fails, too.
\<close>

theorem harbor_safe:
  assumes init: "harbor_init harbor_create args = Some h0" "reachable h0 (harbor_step send_ok) h"
    and l: "harbor_legal h inp p bs"
  shows "mset_set (dom (h_mem h)) = filter_mset (\<lambda>p. p \<noteq> 0) (image_mset hm_buffer (slave_msgs (h_s h) + name_msgs (h_map h))) \<and>
    (\<forall>f. mainloop send_ok (arrive h p bs) inp = Inl f \<longrightarrow> f = Out_of_range \<and> (\<forall>type sess src rmsg. inp \<noteq> Message_out type sess src rmsg)) \<and>
    (\<exists>r. harbor_release h = Inr r)"
proof -
  have inv: "harbor_inv h" by (rule harbor_reachable_inv [OF init])
  have "mset_set (dom (h_mem h)) = filter_mset (\<lambda>p. p \<noteq> 0) (image_mset hm_buffer (slave_msgs (h_s h) + name_msgs (h_map h)))"
    using inv by (simp add: harbor_inv_def links_ok_def mem_ok_def)
  moreover have "f = Out_of_range" if "mainloop send_ok (arrive h p bs) inp = Inl f" for f
    using mainloop_ok [OF inv l, of send_ok] that by simp
  moreover have "\<exists>r. mainloop send_ok (arrive h p bs) (Message_out type sess src rmsg) = Inr r" if a: "inp = Message_out type sess src rmsg" for type sess src rmsg
  proof -
    have r: "rmessage rmsg = p" "fresh_block h (rmessage rmsg) bs" "unat (rm_sz rmsg) = length bs" using l a by (simp_all add: harbor_legal_def)
    show ?thesis unfolding r(1) [symmetric] by (rule message_out_ok [OF inv r(2,3), of send_ok type sess src]) blast
  qed
  moreover have "\<exists>r. harbor_release h = Inr r" by (rule harbor_release_ok [OF inv]) blast
  ultimately show ?thesis by (metis Inl_Inr_False)
qed

theorem harbor_safe_witness:
  "(\<exists>r. harbor_release demo_harbor = Inr r) \<and>
    (\<exists>r. mainloop (\<lambda>_. True) (arrive demo_harbor 1 [7])
      (Message_out 0 1 9 \<lparr>destination = \<lparr>rn_name = [], rn_handle = 0x04000001\<rparr>, rmessage = 1, rm_sz = 1\<rparr>) = Inr r)"
proof -
  let ?inp = "Message_out 0 1 9 \<lparr>destination = \<lparr>rn_name = [], rn_handle = 0x04000001\<rparr>, rmessage = 1, rm_sz = 1\<rparr>"
  have "harbor_legal demo_harbor ?inp 1 [7]" by (simp add: harbor_legal_def fresh_block_def demo_links)
  from harbor_safe [OF demo_init demo_harbor_reachable this, of "\<lambda>_. True"] show ?thesis by (metis sum.exhaust)
qed

text \<open>
  Data from a socket that belongs to no link makes the service free the buffer twice, in \<open>push_socket_data\<close> and after it in the
  callback: in every state and for every buffer, the message ends in an invalid free.
\<close>

lemma harbor_double_free:
  assumes "harbor_id h fd = None" and "p \<noteq> 0"
  shows "mainloop send_ok (arrive h p bs) (Socket_message SOCKET_TYPE_DATA fd n p) = Inl Bad_pointer"
proof -
  have "harbor_id (arrive h p bs) fd = None" using assms by (simp add: arrive_def harbor_id_def)
  then show ?thesis using assms(2) by (simp add: mainloop_def push_socket_data_def free_block_def arrive_def deref_def)
qed

end
