(* ===== verification/HarborStream.thy ===== *)
theory HarborStream
  imports HarborSafe
begin

text \<open>
  The harbor service as a channel. The receiving side recovers the packages of the sending side from any division of the stream
  (\<open>at_stream\<close> relates a link to its place in the stream), and messages to names that are not known yet
  are kept and sent in order (\<open>name_waits\<close>).
\<close>

section \<open>Packages survive any division of the stream\<close>

lemma from_to_bigendian: "from_bigendian (to_bigendian n @ bs) = n"
proof (rule bit_word_eqI)
  fix i assume "i < LENGTH(32)"
  then consider "i < 8" | "8 \<le> i \<and> i < 16" | "16 \<le> i \<and> i < 24" | "24 \<le> i \<and> i < 32" by fastforce
  then show "bit (from_bigendian (to_bigendian n @ bs)) i = bit n i"
    by cases (auto simp: from_bigendian_def to_bigendian_def bit_simps)
qed

lemma to_bigendian_length [simp]: "length (to_bigendian n) = 4"
  by (simp add: to_bigendian_def)

lemma header_length: "length (header_to_message hdr) = 12"
  by (simp add: header_to_message_def)

lemma header_roundtrip: "message_to_header (header_to_message hdr) = hdr"
proof -
  have "drop 8 (to_bigendian a @ to_bigendian b @ c) = c" for a b c by (simp add: to_bigendian_def)
  moreover have "from_bigendian (to_bigendian n) = n" for n using from_to_bigendian [of n "[]"] by simp
  ultimately show ?thesis by (simp add: message_to_header_def header_to_message_def from_to_bigendian)
qed

lemma size_bytes:
  assumes "n < 2 ^ 24"
  shows "to_bigendian (of_nat n) ! 0 = 0"
    "unat (push_bit 16 (ucast (to_bigendian (of_nat n) ! 1)) OR push_bit 8 (ucast (to_bigendian (of_nat n) ! 2)) OR ucast (to_bigendian (of_nat n) ! 3) :: u32) = n"
proof -
  have "drop_bit 24 (of_nat n :: u32) = 0"
    using assms by (simp add: unat_eq_0 [symmetric] unat_drop_bit unsigned_of_nat take_bit_nat_eq_self)
  then show z: "to_bigendian (of_nat n) ! 0 = 0" by (simp add: to_bigendian_def)
  have "push_bit 16 (ucast (to_bigendian (of_nat n) ! 1)) OR push_bit 8 (ucast (to_bigendian (of_nat n) ! 2)) OR ucast (to_bigendian (of_nat n) ! 3) =
      (of_nat n :: u32)"
    using from_to_bigendian [of "of_nat n" "[]"] z by (simp add: from_bigendian_def or.assoc)
  then show "unat (push_bit 16 (ucast (to_bigendian (of_nat n) ! 1)) OR push_bit 8 (ucast (to_bigendian (of_nat n) ! 2)) OR ucast (to_bigendian (of_nat n) ! 3) :: u32) = n"
    using assms by (simp add: unsigned_of_nat take_bit_nat_eq_self)
qed


definition package :: "u8 list \<Rightarrow> u8 list" where
  "package m = to_bigendian (of_nat (length m)) @ m"

definition package_ok :: "u8 list \<Rightarrow> bool" where
  "package_ok m \<longleftrightarrow> HEADER_COOKIE_LENGTH \<le> length m \<and> length m < 2 ^ 24"

text \<open>A link that has read \<open>k\<close> bytes of the package \<open>m\<close>.\<close>

definition link_at :: "slave \<Rightarrow> u8 list \<Rightarrow> nat \<Rightarrow> bool" where
  "link_at s m k \<longleftrightarrow> k < length (package m) \<and> length (s_size s) = 4 \<and>
     (if k < 4 then s_status s = STATUS_HEADER \<and> s_read s = k \<and> take k (s_size s) = take k (package m)
      else s_status s = STATUS_CONTENT \<and> s_length s = length m \<and> s_read s = k - 4 \<and> length (recv_buffer s) = length m \<and>
        take (k - 4) (recv_buffer s) = map Some (take (k - 4) m))"

definition link_idle :: "slave \<Rightarrow> bool" where
  "link_idle s \<longleftrightarrow> length (s_size s) = 4 \<and> s_status s = STATUS_HEADER \<and> s_read s = 0"

definition delivered :: "(u32 \<Rightarrow> bool) \<Rightarrow> harbor \<Rightarrow> u8 list \<Rightarrow> harbor_effect list" where
  "delivered send_ok h m = (case forward_local_messsage send_ok h m of Inl _ \<Rightarrow> [] | Inr out \<Rightarrow> out)"

lemma link_idle_at: "link_idle s \<Longrightarrow> link_at s m 0"
  by (simp add: link_idle_def link_at_def package_def)

lemma package_length [simp]: "length (package m) = length m + 4"
  by (simp add: package_def)

lemma package_drop: "4 \<le> k \<Longrightarrow> drop k (package m) = drop (k - 4) m"
  by (simp add: package_def)

lemma package_header: "take 4 (package m) = to_bigendian (of_nat (length m))"
  by (simp add: package_def)

lemma recv_content_part:
  assumes s: "link_at s m k" "4 \<le> k" and bs: "drop k (package m) = bs @ rst" "rst \<noteq> []" and h: "h_s h ! i = s"
  obtains s' where "recv_content send_ok h i bs = Inr ((set_slave i s' h, None), [])" "link_at s' m (k + length bs)" "s_fd s' = s_fd s"
proof -
  have m: "drop (k - 4) m = bs @ rst" using bs package_drop [OF s(2)] by simp
  have "0 < length rst" "length m - (k - 4) = length bs + length rst" using bs(2) arg_cong [OF m, of length] by simp_all
  then have len: "k + length bs < length m + 4" using s(2) by linarith
  have "take (k - 4 + length bs) m = take (k - 4) m @ bs" using m by (simp add: take_add)
  moreover have "take (k - 4 + length (map Some bs)) (copy_to (recv_buffer s) (k - 4) (map Some bs)) = take (k - 4) (recv_buffer s) @ map Some bs"
    using s len by (intro copy_to_take) (auto simp: link_at_def)
  ultimately have "take (k + length bs - 4) (copy_to (recv_buffer s) (k - 4) (map Some bs)) = map Some (take (k + length bs - 4) m)"
    using s by (simp add: link_at_def)
  then have "link_at (s\<lparr>recv_buffer := copy_to (recv_buffer s) (k - 4) (map Some bs), s_read := k - 4 + length bs\<rparr>) m (k + length bs)"
    using s len by (auto simp: link_at_def copy_to_length)
  moreover have "length bs < s_length s - s_read s" using s len by (auto simp: link_at_def)
  ultimately show thesis using s h
    by (intro that [of "s\<lparr>recv_buffer := copy_to (recv_buffer s) (k - 4) (map Some bs), s_read := k - 4 + length bs\<rparr>"])
      (simp_all add: recv_content_def Let_def link_at_def)
qed

lemma recv_content_full:
  assumes s: "link_at s m k" "4 \<le> k" and m: "package_ok m" and h: "h_s h ! i = s"
  obtains s' where "recv_content send_ok h i (drop k (package m) @ rst) =
      Inr ((set_slave i s' h, if rst = [] then None else Some rst), delivered send_ok h m)" "link_idle s'" "s_fd s' = s_fd s"
proof -
  have c: "s_length s = length m" "s_read s = k - 4" "length (recv_buffer s) = length m" "take (k - 4) (recv_buffer s) = map Some (take (k - 4) m)"
      "k < length m + 4" "length (s_size s) = 4"
    using s by (auto simp: link_at_def)
  let ?bs = "drop (k - 4) m"
  have buf: "copy_to (recv_buffer s) (k - 4) (map Some ?bs) = map Some m"
    using c s(2) by (simp add: copy_to_def flip: map_append)
  obtain out where out: "forward_local_messsage send_ok h m = Inr out" using m by (simp add: forward_local_messsage_def package_ok_def Let_def)
  have "length m - (k - 4) = length ?bs" "\<not> length m + 4 + length rst - k < length m + 4 - k" by simp_all
  then show thesis using c buf out h s(2)
    by (intro that [of "s\<lparr>s_length := 0, s_read := 0, recv_buffer := [], s_status := STATUS_HEADER\<rparr>"])
      (simp_all add: recv_content_def Let_def delivered_def link_idle_def package_drop comp_def)
qed

lemma recv_header_short:
  assumes s: "link_at s m k" "k < 4" and bs: "drop k (package m) = bs @ rst" "length bs < 4 - k" and h: "h_s h ! i = s"
  obtains s' where "recv_header send_ok h i bs = Inr ((set_slave i s' h, None), [])" "link_at s' m (k + length bs)" "s_fd s' = s_fd s"
proof -
  have c: "s_read s = k" "s_status s = STATUS_HEADER" "length (s_size s) = 4" "take k (s_size s) = take k (package m)" using s by (simp_all add: link_at_def)
  have "take (k + length bs) (package m) = take k (package m) @ bs" using bs(1) by (simp add: take_add)
  moreover have "take (k + length bs) (copy_to (s_size s) k bs) = take k (s_size s) @ bs"
    using c s(2) by (intro copy_to_take) simp
  ultimately have l: "link_at (s\<lparr>s_size := copy_to (s_size s) k bs, s_read := k + length bs\<rparr>) m (k + length bs)"
    using c bs(2) by (simp add: link_at_def copy_to_length)
  show thesis by (rule that [OF _ l]) (use bs(2) c(1) h in \<open>simp_all add: recv_header_def Let_def\<close>)
qed

lemma recv_header_full:
  assumes s: "link_at s m k" "k < 4" and m: "package_ok m" and bs: "4 - k \<le> length bs" "take (4 - k) bs = take (4 - k) (drop k (package m))"
    and h: "h_s h ! i = s"
  obtains s' where "recv_header send_ok h i bs = (if drop (4 - k) bs = [] then Inr ((set_slave i s' h, None), [])
      else recv_content send_ok (set_slave i s' h) i (drop (4 - k) bs))" "link_at s' m 4" "s_fd s' = s_fd s"
proof -
  have c: "s_read s = k" "s_status s = STATUS_HEADER" "length (s_size s) = 4" "take k (s_size s) = take k (package m)" using s by (simp_all add: link_at_def)
  have len: "length m < 2 ^ 24" "length m \<noteq> 0" using m by (auto simp: package_ok_def HEADER_COOKIE_LENGTH_def)
  have "take k (package m) @ take (4 - k) (drop k (package m)) = take (k + (4 - k)) (package m)" by (simp add: take_add)
  then have hdr: "copy_to (s_size s) k (take (4 - k) bs) = to_bigendian (of_nat (length m))"
    using c s(2) bs by (simp add: copy_to_def package_header)
  note b = size_bytes [OF len(1)]
  let ?s = "s\<lparr>s_size := to_bigendian (of_nat (length m)), s_length := length m, s_read := 0, recv_buffer := replicate (length m) None,
      s_status := STATUS_CONTENT\<rparr>"
  have l: "link_at ?s m 4" using len(2) by (simp add: link_at_def)
  have "\<not> length bs < 4 - s_read s" using bs(1) c(1) by simp
  show thesis
    by (rule that [OF _ l]) (use bs(1) c(1) h hdr b in \<open>simp_all add: recv_header_def Let_def\<close>)
qed

lemma slave_set: "i < length (h_s h) \<Longrightarrow> h_s (set_slave i s h) ! i = s"
  by simp

lemma recv_turn_part:
  assumes s: "link_at s m k" and m: "package_ok m" and bs: "drop k (package m) = bs @ rst" "rst \<noteq> []" and h: "h_s h ! i = s" "i < length (h_s h)"
  obtains s' where "recv_turn send_ok h i bs = Inr ((set_slave i s' h, None), [])" "link_at s' m (k + length bs)" "s_fd s' = s_fd s"
proof (cases "k < 4")
  case False
  then have "recv_turn send_ok h i bs = recv_content send_ok h i bs" using s h by (simp add: recv_turn_def Let_def link_at_def)
  moreover obtain s' where "recv_content send_ok h i bs = Inr ((set_slave i s' h, None), [])" "link_at s' m (k + length bs)" "s_fd s' = s_fd s"
    by (rule recv_content_part [OF s _ bs h(1)]) (use False in simp_all)
  ultimately show ?thesis by (intro that [of s']) simp_all
next
  case True
  then have t: "recv_turn send_ok h i bs = recv_header send_ok h i bs" using s h by (simp add: recv_turn_def Let_def link_at_def)
  show ?thesis
  proof (cases "length bs < 4 - k")
    case short: True
    obtain s' where "recv_header send_ok h i bs = Inr ((set_slave i s' h, None), [])" "link_at s' m (k + length bs)" "s_fd s' = s_fd s"
      by (rule recv_header_short [OF s True bs(1) short h(1)])
    then show ?thesis using t by (intro that [of s']) simp_all
  next
    case False
    have w: "4 - k \<le> length bs" "take (4 - k) bs = take (4 - k) (drop k (package m))" using bs(1) False by simp_all
    obtain s1 where s1: "recv_header send_ok h i bs = (if drop (4 - k) bs = [] then Inr ((set_slave i s1 h, None), [])
        else recv_content send_ok (set_slave i s1 h) i (drop (4 - k) bs))" "link_at s1 m 4" "s_fd s1 = s_fd s"
      by (rule recv_header_full [OF s True m w h(1)])
    have "drop (4 - k) (drop k (package m)) = drop (4 - k) bs @ rst" unfolding bs(1) using False by simp
    then have d: "drop 4 (package m) = drop (4 - k) bs @ rst" using True by simp
    obtain s2 where s2: "recv_content send_ok (set_slave i s1 h) i (drop (4 - k) bs) = Inr ((set_slave i s2 (set_slave i s1 h), None), [])"
        "link_at s2 m (4 + length (drop (4 - k) bs))" "s_fd s2 = s_fd s1"
      by (rule recv_content_part [OF s1(2) _ d bs(2) slave_set [OF h(2)]]) simp_all
    have k: "4 + length (drop (4 - k) bs) = k + length bs" using False True by simp
    show ?thesis
    proof (cases "drop (4 - k) bs = []")
      case True
      then show ?thesis using s1 t k by (intro that [of s1]) simp_all
    next
      case more: False
      then show ?thesis using s1(1,3) s2 t k by (intro that [of s2]) (simp_all add: set_slave_def)
    qed
  qed
qed

lemma recv_turn_full:
  assumes s: "link_at s m k" and m: "package_ok m" and h: "h_s h ! i = s" "i < length (h_s h)"
  obtains s' where "recv_turn send_ok h i (drop k (package m) @ rst) =
      Inr ((set_slave i s' h, if rst = [] then None else Some rst), delivered send_ok h m)" "link_idle s'" "s_fd s' = s_fd s"
proof (cases "k < 4")
  case False
  then have "recv_turn send_ok h i bs = recv_content send_ok h i bs" for bs using s h by (simp add: recv_turn_def Let_def link_at_def)
  moreover obtain s' where "recv_content send_ok h i (drop k (package m) @ rst) =
      Inr ((set_slave i s' h, if rst = [] then None else Some rst), delivered send_ok h m)" "link_idle s'" "s_fd s' = s_fd s"
    by (rule recv_content_full [OF s _ m h(1)]) (use False in simp_all)
  ultimately show ?thesis by (intro that [of s']) simp_all
next
  case True
  let ?bs = "drop k (package m) @ rst"
  have t: "recv_turn send_ok h i ?bs = recv_header send_ok h i ?bs" using s h True by (simp add: recv_turn_def Let_def link_at_def)
  have w: "4 - k \<le> length ?bs" "take (4 - k) ?bs = take (4 - k) (drop k (package m))" using True by simp_all
  obtain s1 where s1: "recv_header send_ok h i ?bs = (if drop (4 - k) ?bs = [] then Inr ((set_slave i s1 h, None), [])
      else recv_content send_ok (set_slave i s1 h) i (drop (4 - k) ?bs))" "link_at s1 m 4" "s_fd s1 = s_fd s"
    by (rule recv_header_full [OF s True m w h(1)])
  obtain s2 where s2: "recv_content send_ok (set_slave i s1 h) i (drop 4 (package m) @ rst) =
      Inr ((set_slave i s2 (set_slave i s1 h), if rst = [] then None else Some rst), delivered send_ok (set_slave i s1 h) m)" "link_idle s2" "s_fd s2 = s_fd s1"
    by (rule recv_content_full [OF s1(2) _ m slave_set [OF h(2)]]) simp_all
  have "drop (4 - k) ?bs = drop 4 (package m) @ rst" using True by simp
  moreover have "drop 4 (package m) \<noteq> []" using m by (auto simp: package_def package_ok_def HEADER_COOKIE_LENGTH_def)
  moreover have "delivered send_ok (set_slave i s1 h) m = delivered send_ok h m" by (simp add: delivered_def forward_local_messsage_def)
  ultimately show ?thesis using s1(1,3) s2 t by (intro that [of s2]) (simp_all add: set_slave_def)
qed


text \<open>A link that is \<open>k\<close> bytes into the first of the packages \<open>ms\<close>.\<close>

definition at_stream :: "slave \<Rightarrow> u8 list list \<Rightarrow> nat \<Rightarrow> bool" where
  "at_stream s ms k = (case ms of [] \<Rightarrow> link_idle s \<and> k = 0 | m # _ \<Rightarrow> link_at s m k)"

lemma at_stream_idle: "link_idle s \<Longrightarrow> at_stream s ms 0"
  by (simp add: at_stream_def link_idle_at split: list.split)

lemma delivered_id: "h_id h = h_id h' \<Longrightarrow> delivered send_ok h = delivered send_ok h'"
  by (rule ext) (simp add: delivered_def forward_local_messsage_def)

lemma recv_loop_stream:
  "at_stream s ms k \<Longrightarrow> \<forall>m \<in> set ms. package_ok m \<Longrightarrow> bs \<noteq> [] \<Longrightarrow> bs @ rst = drop k (concat (map package ms)) \<Longrightarrow> length bs < fuel \<Longrightarrow>
    h_s h ! i = s \<Longrightarrow> i < length (h_s h) \<Longrightarrow>
    \<exists>don ms' k' s'. ms = don @ ms' \<and> rst = drop k' (concat (map package ms')) \<and> at_stream s' ms' k' \<and> s_fd s' = s_fd s \<and>
      recv_loop fuel send_ok h i bs = Inr (set_slave i s' h, concat (map (delivered send_ok h) don))"
proof (induction fuel arbitrary: s ms k bs h)
  case (Suc fuel)
  obtain m ms1 where ms: "ms = m # ms1" using Suc.prems(3,4) by (cases ms) auto
  have s: "link_at s m k" and m: "package_ok m" using Suc.prems(1,2) ms by (simp_all add: at_stream_def)
  have k: "k < length (package m)" using s by (simp add: link_at_def)
  let ?p = "drop k (package m)"
  have eq: "bs @ rst = ?p @ concat (map package ms1)" using Suc.prems(4) ms k by simp
  note h = Suc.prems(6,7)
  show ?case
  proof (cases "length bs < length ?p")
    case True
    obtain x where x: "?p = bs @ x" "rst = x @ concat (map package ms1)" 
      using eq True by (auto simp: append_eq_append_conv2 dest: sym)
    have "x \<noteq> []" using x(1) True by auto
    from recv_turn_part [OF s m x(1) this h, of send_ok]
    obtain s' where s': "recv_turn send_ok h i bs = Inr ((set_slave i s' h, None), [])" "link_at s' m (k + length bs)" "s_fd s' = s_fd s" by blast
    have "x = drop (length bs) ?p" using x(1) by simp
    then have "rst = drop (k + length bs) (concat (map package ms))" using x(2) ms True by (simp add: add.commute)
    with s' ms show ?thesis by (intro exI [of _ "[]"] exI [of _ ms] exI [of _ "k + length bs"] exI [of _ s']) (simp add: at_stream_def)
  next
    case False
    have "take (length ?p) bs = ?p" "drop (length ?p) bs @ rst = concat (map package ms1)"
      using arg_cong [OF eq, of "take (length ?p)"] arg_cong [OF eq, of "drop (length ?p)"] False by simp_all
    then obtain t where t: "bs = ?p @ t" "t @ rst = concat (map package ms1)" by (metis append_take_drop_id)
    from recv_turn_full [OF s m h, of send_ok t]
    obtain s' where s': "recv_turn send_ok h i bs = Inr ((set_slave i s' h, if t = [] then None else Some t), delivered send_ok h m)"
        "link_idle s'" "s_fd s' = s_fd s" unfolding t(1) by blast
    show ?thesis
    proof (cases "t = []")
      case True
      with s' ms t(2) at_stream_idle [OF s'(2), of ms1] show ?thesis
        by (intro exI [of _ "[m]"] exI [of _ ms1] exI [of _ 0] exI [of _ s']) simp
    next
      case False
      have "length t < fuel" using Suc.prems(5) t(1) k by simp
      then obtain don ms' k' s'' where r: "ms1 = don @ ms'" "rst = drop k' (concat (map package ms'))" "at_stream s'' ms' k'" "s_fd s'' = s_fd s'"
          "recv_loop fuel send_ok (set_slave i s' h) i t = Inr (set_slave i s'' (set_slave i s' h), concat (map (delivered send_ok (set_slave i s' h)) don))"
        using Suc.IH [of s' ms1 0 t "set_slave i s' h"] at_stream_idle [OF s'(2), of ms1] Suc.prems(2) ms False t(2) h slave_set [OF h(2), of s'] by auto
      have "delivered send_ok (set_slave i s' h) = delivered send_ok h" by (rule delivered_id) simp
      with r s' False ms show ?thesis
        by (intro exI [of _ "m # don"] exI [of _ ms'] exI [of _ k'] exI [of _ s'']) (simp add: set_slave_def)
    qed
  qed
qed simp

lemma harbor_id_set:
  assumes "s_fd s = s_fd (h_s h ! i)"
  shows "harbor_id (set_slave i s h) fd = harbor_id h fd"
proof -
  have "s_fd ((h_s h)[i := s] ! j) = s_fd (h_s h ! j)" for j
    using assms by (cases "j = i"; cases "i < length (h_s h)") (simp_all add: list_update_beyond)
  then show ?thesis by (simp add: harbor_id_def)
qed

text \<open>The chunks of a stream as messages of the socket layer, one after the other.\<close>

fun harbor_feed :: "(u32 \<Rightarrow> bool) \<Rightarrow> int \<Rightarrow> ptr \<Rightarrow> harbor \<Rightarrow> u8 list list \<Rightarrow> (harbor \<times> harbor_effect list) res" where
  "harbor_feed send_ok fd p h [] = Inr (h, [])"
| "harbor_feed send_ok fd p h (c # cs) =
     thenOut (mainloop send_ok (arrive h p c) (Socket_message SOCKET_TYPE_DATA fd (int (length c)) p)) (\<lambda>h'. harbor_feed send_ok fd p h' cs)"

lemma data_stream:
  assumes st: "at_stream (h_s h ! i) ms k" and ms: "\<forall>m \<in> set ms. package_ok m" and c: "c \<noteq> []" "length c < 2 ^ 31"
    and eq: "c @ rst = drop k (concat (map package ms))" and i: "harbor_id h fd = Some i" "i < length (h_s h)" and p: "p \<noteq> 0" "h_mem h p = None"
  obtains don ms' k' s' where "ms = don @ ms'" "rst = drop k' (concat (map package ms'))" "at_stream s' ms' k'" "s_fd s' = s_fd (h_s h ! i)"
    "mainloop send_ok (arrive h p c) (Socket_message SOCKET_TYPE_DATA fd (int (length c)) p) =
      Inr (set_slave i s' h, concat (map (delivered send_ok h) don))"
proof -
  let ?h = "arrive h p c"
  have f: "h_s ?h = h_s h" "h_id ?h = h_id h" by (simp_all add: arrive_def)
  have "unat (of_nat (length c) :: u64) = length c" using c(2) by (simp add: unsigned_of_nat take_bit_nat_eq_self)
  then have rd: "read_block (h_mem ?h) p (of_nat (length c)) = Inr c" using p c by (auto simp: read_block_def arrive_def)
  have id: "harbor_id ?h fd = Some i" using i f by (simp add: harbor_id_def)
  obtain don ms' k' s' where r: "ms = don @ ms'" "rst = drop k' (concat (map package ms'))" "at_stream s' ms' k'" "s_fd s' = s_fd (h_s h ! i)"
      "recv_loop (length c + 2) send_ok ?h i c = Inr (set_slave i s' ?h, concat (map (delivered send_ok ?h) don))"
    using recv_loop_stream [OF st ms c(1) eq, of "length c + 2" ?h i send_ok] i(2) f by auto
  have "free_block (h_mem (set_slave i s' ?h)) p = Inr (h_mem h)" using p by (simp add: free_block_def arrive_def fun_upd_idem)
  moreover have "(set_slave i s' ?h)\<lparr>h_mem := h_mem h\<rparr> = set_slave i s' h" by (simp add: set_slave_def arrive_def)
  moreover have "delivered send_ok ?h = delivered send_ok h" by (rule delivered_id) (simp add: f)
  ultimately have "mainloop send_ok ?h (Socket_message SOCKET_TYPE_DATA fd (int (length c)) p) =
      Inr (set_slave i s' h, concat (map (delivered send_ok h) don))"
    using r(5) rd id by (simp add: mainloop_def push_socket_data_def)
  then show thesis by (rule that [OF r(1-4)])
qed

lemma feed_stream:
  "at_stream (h_s h ! i) ms k \<Longrightarrow> \<forall>m \<in> set ms. package_ok m \<Longrightarrow> \<forall>c \<in> set cs. c \<noteq> [] \<and> length c < 2 ^ 31 \<Longrightarrow>
    concat cs = drop k (concat (map package ms)) \<Longrightarrow> harbor_id h fd = Some i \<Longrightarrow> i < length (h_s h) \<Longrightarrow> p \<noteq> 0 \<Longrightarrow> h_mem h p = None \<Longrightarrow>
    \<exists>s'. link_idle s' \<and> harbor_feed send_ok fd p h cs = Inr (set_slave i s' h, concat (map (delivered send_ok h) ms))"
proof (induction cs arbitrary: h ms k)
  case Nil
  have "ms = []"
  proof (cases ms)
    case (Cons m ms')
    then have "k < length (package m)" using Nil.prems(1) by (simp add: at_stream_def link_at_def)
    then show ?thesis using Nil.prems(4) Cons by simp
  qed simp
  then show ?case using Nil.prems(1) by (intro exI [of _ "h_s h ! i"]) (simp add: at_stream_def set_slave_def)
next
  case (Cons c cs)
  have c: "c \<noteq> []" "length c < 2 ^ 31" and eq: "c @ concat cs = drop k (concat (map package ms))" using Cons.prems(3,4) by simp_all
  obtain don ms' k' s' where r: "ms = don @ ms'" "concat cs = drop k' (concat (map package ms'))" "at_stream s' ms' k'" "s_fd s' = s_fd (h_s h ! i)"
      "mainloop send_ok (arrive h p c) (Socket_message SOCKET_TYPE_DATA fd (int (length c)) p) =
        Inr (set_slave i s' h, concat (map (delivered send_ok h) don))"
    by (rule data_stream [OF Cons.prems(1,2) c eq Cons.prems(5-8)])
  let ?h = "set_slave i s' h"
  have "\<exists>s''. link_idle s'' \<and> harbor_feed send_ok fd p ?h cs = Inr (set_slave i s'' ?h, concat (map (delivered send_ok ?h) ms'))"
    by (rule Cons.IH [of ?h ms' k']) (use Cons.prems r(1-3) harbor_id_set [OF r(4)] slave_set [OF Cons.prems(6)] in simp_all)
  then obtain s'' where s'': "link_idle s''" "harbor_feed send_ok fd p ?h cs = Inr (set_slave i s'' ?h, concat (map (delivered send_ok ?h) ms'))" by blast
  have "delivered send_ok ?h = delivered send_ok h" by (rule delivered_id) simp
  with s'' r(1,5) show ?case by (intro exI [of _ s'']) (simp add: set_slave_def)
qed

lemma delivered_message:
  "0 \<le> sint (rh_session hdr) \<Longrightarrow> delivered (\<lambda>_. True) h (bs @ header_to_message hdr) =
    [Hsend (rh_source hdr) ((rh_destination hdr AND HANDLE_MASK) OR push_bit HANDLE_REMOTE_SHIFT (word_of_int (h_id h)))
       (uint (drop_bit HANDLE_REMOTE_SHIFT (rh_destination hdr)) OR PTYPE_TAG_DONTCOPY) (rh_session hdr) bs]"
  by (simp add: delivered_def forward_local_messsage_def header_length header_roundtrip HEADER_COOKIE_LENGTH_def Let_def)

lemma send_remote_package:
  "length bs + HEADER_COOKIE_LENGTH < 2 ^ 24 \<Longrightarrow> send_remote fd bs hdr = [Hsocket_send fd (package (bs @ header_to_message hdr))] \<and>
    package_ok (bs @ header_to_message hdr)"
  by (simp add: send_remote_def package_def package_ok_def header_length HEADER_COOKIE_LENGTH_def Let_def)


section \<open>What a message leaves alone\<close>

text \<open>Blocks are only freed, and names are only touched by messages that name them.\<close>

definition leaves :: "harbor \<Rightarrow> harbor \<Rightarrow> bool" where
  "leaves h h' \<longleftrightarrow> h_mem h' \<subseteq>\<^sub>m h_mem h \<and> h_map h' = h_map h \<and> h_slave h' = h_slave h"

lemma leaves_refl [simp]: "leaves h h"
  by (simp add: leaves_def)

lemma leaves_trans: "leaves h h' \<Longrightarrow> leaves h' h'' \<Longrightarrow> leaves h h''"
  by (auto simp: leaves_def intro: map_le_trans)

lemma leaves_slave [simp]: "leaves h (set_slave i s h') = leaves h h'" "leaves (set_slave i s h) h' = leaves h h'"
  by (simp_all add: leaves_def set_slave_def)

lemma leaves_mem [simp]: "mem \<subseteq>\<^sub>m h_mem h \<Longrightarrow> leaves h (h\<lparr>h_mem := mem\<rparr>)" "mem \<subseteq>\<^sub>m h_mem h \<Longrightarrow> leaves h ((set_slave i s h)\<lparr>h_mem := mem\<rparr>)"
  by (simp_all add: leaves_def set_slave_def)

lemma free_block_le: "free_block mem p = Inr mem' \<Longrightarrow> mem' \<subseteq>\<^sub>m mem"
  by (auto simp: free_block_def andThen_Inr_iff map_le_def split: if_splits)

lemma give_block_le: "give_block mem src dest type sess p n = Inr (mem', out) \<Longrightarrow> mem' \<subseteq>\<^sub>m mem"
  by (auto simp: give_block_def andThen_Inr_iff dest: free_block_le)

lemma drain_loop_le:
  assumes "\<And>m s s' out. work m s = Inr (s', out) \<Longrightarrow> s' \<subseteq>\<^sub>m s"
  shows "drain_loop k work q s = Inr ((q', s'), out) \<Longrightarrow> s' \<subseteq>\<^sub>m s"
proof (induction k arbitrary: q s out)
  case (Suc k)
  then obtain q1 r where p: "pop_queue q = Inr (q1, r)" by (auto simp: andThen_Inr_iff)
  show ?case
  proof (cases r)
    case (Some m)
    then obtain t out1 out2 where "work m s = Inr (t, out1)" "drain_loop k work q1 t = Inr ((q', s'), out2)"
      using Suc.prems p by (cases "work m s") (auto simp: andThen_Inr_iff)
    then show ?thesis using Suc.IH assms by (blast intro: map_le_trans)
  qed (use Suc.prems p in simp)
qed simp

lemma drain_queue_le:
  assumes "\<And>m s s' out. work m s = Inr (s', out) \<Longrightarrow> s' \<subseteq>\<^sub>m s"
  shows "drain_queue work q s = Inr ((q', s'), out) \<Longrightarrow> s' \<subseteq>\<^sub>m s"
  unfolding drain_queue_def by (erule drain_loop_le [rotated]) (rule assms)

lemma send_queued_le: "send_queued fd addr m mem = Inr (mem', out) \<Longrightarrow> mem' \<subseteq>\<^sub>m mem"
  by (auto simp: send_queued_def andThen_Inr_iff dest: free_block_le)

lemma send_local_le: "send_local hnd m mem = Inr (mem', out) \<Longrightarrow> mem' \<subseteq>\<^sub>m mem"
  by (auto simp: send_local_def dest: give_block_le)

lemma release_queue_le: "release_queue_h qo mem = Inr mem' \<Longrightarrow> mem' \<subseteq>\<^sub>m mem"
proof (cases qo)
  case (Some q)
  assume "release_queue_h qo mem = Inr mem'"
  then obtain q' out where "drain_queue (\<lambda>m mem. andThen (free_block mem (hm_buffer m)) (\<lambda>mem. Inr (mem, []))) q mem = Inr ((q', mem'), out)"
    using Some by (auto simp: release_queue_h_def andThen_Inr_iff)
  then show ?thesis by (rule drain_queue_le [rotated]) (auto simp: andThen_Inr_iff dest: free_block_le)
qed (simp add: release_queue_h_def)

lemma drain_sent_le: "drain_queue (send_queued fd addr) q mem = Inr ((q', mem'), out) \<Longrightarrow> mem' \<subseteq>\<^sub>m mem"
  by (rule drain_queue_le [rotated]) (auto dest: send_queued_le)

lemma drain_local_le: "drain_queue (send_local hnd) q mem = Inr ((q', mem'), out) \<Longrightarrow> mem' \<subseteq>\<^sub>m mem"
  by (rule drain_queue_le [rotated]) (auto dest: send_local_le)

lemmas emptied_le = drain_sent_le drain_local_le release_queue_le

lemma close_harbor_leaves: "close_harbor h i = Inr (h', out) \<Longrightarrow> leaves h h'"
  by (auto simp: close_harbor_def Let_def andThen_Inr_iff dest: release_queue_le)

lemma dispatch_queue_leaves: "dispatch_queue_h h i = Inr (h', out) \<Longrightarrow> leaves h h'"
  unfolding dispatch_queue_h_def
  by (auto simp: Let_def andThen_Inr_iff split: option.splits
      dest!: emptied_le intro!: leaves_mem(2) intro: map_le_trans)

lemma recv_content_leaves: "recv_content send_ok h i bs = Inr ((h', r), out) \<Longrightarrow> leaves h h'"
  by (auto simp: recv_content_def Let_def andThen_Inr_iff split: if_splits)

lemma recv_header_leaves: "recv_header send_ok h i bs = Inr ((h', r), out) \<Longrightarrow> leaves h h'"
  by (auto simp: recv_header_def Let_def andThen_Inr_iff split: if_splits dest!: close_harbor_leaves recv_content_leaves)

lemma recv_turn_leaves: "recv_turn send_ok h i bs = Inr ((h', r), out) \<Longrightarrow> leaves h h'"
  by (auto simp: recv_turn_def Let_def andThen_Inr_iff thenOut_def split: status.splits list.splits if_splits
      dest!: close_harbor_leaves recv_content_leaves recv_header_leaves dispatch_queue_leaves intro: leaves_trans)

lemma recv_loop_leaves: "recv_loop k send_ok h i bs = Inr (h', out) \<Longrightarrow> leaves h h'"
proof (induction k arbitrary: h bs out)
  case (Suc k)
  from Suc.prems show ?case
    by (auto simp: thenOut_def andThen_Inr_iff split: option.splits dest!: recv_turn_leaves dest: Suc.IH intro: leaves_trans)
qed simp

lemma push_socket_data_leaves: "push_socket_data send_ok h fd ud p = Inr (h', out) \<Longrightarrow> leaves h h'"
  by (auto simp: push_socket_data_def andThen_Inr_iff simp del: recv_loop.simps split: option.splits dest: free_block_le recv_loop_leaves)

lemma command_connect_leaves: "command_connect h cmd arg = Inr (h', out) \<Longrightarrow> leaves h h'"
  by (auto simp: command_connect_def Let_def andThen_Inr_iff split: if_splits option.splits prod.splits dest!: dispatch_queue_leaves)

lemma remote_send_handle_leaves: "remote_send_handle h src dest type sess p n = Inr ((h', taken), out) \<Longrightarrow> leaves h h'"
  by (auto simp: remote_send_handle_def Let_def andThen_Inr_iff split: if_splits dest: give_block_le)

lemma dispatch_name_leaves: "dispatch_name_queue h hnd q = Inr ((h', rest), out) \<Longrightarrow> leaves h h'"
  unfolding dispatch_name_queue_def
  by (auto simp: Let_def andThen_Inr_iff split: if_splits option.splits
      dest!: emptied_le intro!: leaves_mem intro: map_le_trans)

text \<open>What the table of names compares: the hash, and the bytes before the first zero.\<close>

definition name_key :: "u8 list \<Rightarrow> u32 \<times> u8 list" where
  "name_key nm = (name_hash nm, takeWhile (\<lambda>c. c \<noteq> 0) (take GLOBALNAME_LENGTH nm))"

lemma name_match_key: "name_match nm n \<longleftrightarrow> (kv_hash n, takeWhile (\<lambda>c. c \<noteq> 0) (take GLOBALNAME_LENGTH (kv_key n))) = name_key nm"
  by (simp add: name_match_def strncmp_eq_def name_key_def)

definition spares :: "u8 list \<Rightarrow> harbor \<Rightarrow> harbor \<Rightarrow> bool" where
  "spares nm h h' \<longleftrightarrow> h_mem h' \<subseteq>\<^sub>m h_mem h \<and> hash_search (h_map h') nm = hash_search (h_map h) nm \<and> h_slave h' = h_slave h"

lemma leaves_spares: "leaves h h' \<Longrightarrow> spares nm h h'"
  by (simp add: leaves_def spares_def)

lemma find_set_other: "(\<And>x. g x \<Longrightarrow> \<not> f x) \<Longrightarrow> g v \<Longrightarrow> find f (set_first g v xs) = find f xs"
  by (induction xs) auto

lemma search_set_other:
  assumes "names_ok hm" "name_key nm' \<noteq> name_key nm" "name_match nm' n"
  shows "hash_search (set_node hm nm' n) nm = hash_search hm nm"
proof -
  have "name_bucket nm' < length hm" using assms(1) name_bucket_less [of nm'] by (simp add: names_ok_def)
  moreover have "find (name_match nm) (set_first (name_match nm') n b) = find (name_match nm) b" for b
    by (rule find_set_other) (use assms(2,3) in \<open>auto simp: name_match_key\<close>)
  ultimately show ?thesis by (cases "name_bucket nm = name_bucket nm'") (simp_all add: hash_search_def set_node_def)
qed

lemma name_node_other:
  assumes "names_ok hm" "name_key nm' \<noteq> name_key nm"
  shows "hash_search (fst (name_node hm nm')) nm = hash_search hm nm"
proof -
  have "name_bucket nm' < length hm" using assms(1) name_bucket_less [of nm'] by (simp add: names_ok_def)
  moreover have "\<not> name_match nm \<lparr>kv_key = take GLOBALNAME_LENGTH nm', kv_hash = name_hash nm', kv_value = v, kv_queue = q\<rparr>" for v q
    using assms(2) by (simp add: name_match_key name_key_def)
  ultimately show ?thesis
    by (cases "name_bucket nm = name_bucket nm'") (auto simp: name_node_def hash_insert_def hash_search_def Let_def split: option.splits)
qed

lemma update_name_spares:
  assumes ok: "names_ok (h_map h)" and k: "name_key nm' \<noteq> name_key nm" and u: "update_name h nm' hnd = Inr (h', out)"
  shows "spares nm h h'"
proof -
  obtain hm node where n: "name_node (h_map h) nm' = (hm, node)" "hash_search hm nm' = Some node" "names_ok hm" by (rule name_node_spec [OF ok])
  have s: "hash_search hm nm = hash_search (h_map h) nm" using name_node_other [OF ok k] n(1) by simp
  have "name_match nm' node" using search_in [OF n(3,2)] by simp
  then have m: "hash_search (set_node hm nm' (node\<lparr>kv_value := hnd\<rparr>)) nm = hash_search (h_map h) nm"
      "hash_search (set_node hm nm' (node\<lparr>kv_value := hnd, kv_queue := None\<rparr>)) nm = hash_search (h_map h) nm"
    using s by (simp_all add: search_set_other [OF n(3) k] name_match_def)
  show ?thesis using u n(1) m
    by (auto simp: update_name_def Let_def andThen_Inr_iff spares_def leaves_def split: option.splits
        dest!: dispatch_name_leaves release_queue_le intro: map_le_trans)
qed

lemma remote_send_name_spares:
  assumes ok: "names_ok (h_map h)" and k: "name_key nm' \<noteq> name_key nm" and u: "remote_send_name h src nm' type sess p n = Inr ((h', taken), out)"
  shows "spares nm h h'"
proof -
  obtain hm node where n: "name_node (h_map h) nm' = (hm, node)" "hash_search hm nm' = Some node" "names_ok hm" by (rule name_node_spec [OF ok])
  have s: "hash_search hm nm = hash_search (h_map h) nm" using name_node_other [OF ok k] n(1) by simp
  have "name_match nm' node" using search_in [OF n(3,2)] by simp
  then have m: "hash_search (set_node hm nm' (node\<lparr>kv_queue := q\<rparr>)) nm = hash_search (h_map h) nm" for q
    using s by (simp add: search_set_other [OF n(3) k] name_match_def)
  show ?thesis using u n(1) m s
    by (auto simp: remote_send_name_def Let_def andThen_Inr_iff spares_def leaves_def split: if_splits dest!: remote_send_handle_leaves)
qed

text \<open>The names in a message: of the receiver, and in the command that registers one.\<close>

definition message_name :: "harbor_input \<Rightarrow> u8 list option" where
  "message_name inp =
     (case inp of
        Message_out type sess src rmsg \<Rightarrow> if rn_handle (destination rmsg) = 0 then Some (text_bytes (rn_name (destination rmsg))) else None
      | _ \<Rightarrow> None)"

definition registered_name :: "harbor_input \<Rightarrow> u8 list option" where
  "registered_name inp =
     (case inp of
        Command_message msg src \<Rightarrow>
          if take 1 msg = text_bytes ''N'' then Some (drop 2 msg @ replicate (GLOBALNAME_LENGTH - length (drop 2 msg)) 0) else None
      | _ \<Rightarrow> None)"

definition other_name :: "u8 list \<Rightarrow> u8 list option \<Rightarrow> bool" where
  "other_name nm x \<longleftrightarrow> (case x of None \<Rightarrow> True | Some nm' \<Rightarrow> name_key nm' \<noteq> name_key nm)"

lemma mainloop_spares:
  assumes ok: "names_ok (h_map h)" and oth: "other_name nm (message_name inp)" "other_name nm (registered_name inp)"
    and r: "mainloop send_ok h inp = Inr (h', out)"
  shows "spares nm h h'"
proof (cases inp)
  case (Socket_message type fd ud p)
  have "leaves h h'" using r Socket_message
    by (auto simp: mainloop_def andThen_Inr_iff split: if_splits dest!: push_socket_data_leaves free_block_le intro: leaves_trans)
  then show ?thesis by (rule leaves_spares)
next
  case (Command_message msg src)
  have N: "(msg @ [0]) ! 0 = 78 \<longleftrightarrow> take 1 msg = text_bytes ''N''" by (cases msg) (auto simp: text_bytes_def)
  show ?thesis
  proof (cases "take 1 msg = text_bytes ''N''")
    case True
    then have "name_key (drop 2 msg @ replicate (GLOBALNAME_LENGTH - length (drop 2 msg)) 0) \<noteq> name_key nm"
      using oth(2) Command_message by (simp add: registered_name_def other_name_def)
    then show ?thesis using r Command_message True update_name_spares [OF ok] leaves_spares [OF leaves_refl]
      by (auto simp: mainloop_def harbor_command_def Let_def N split: if_splits)
  next
    case False
    then show ?thesis using r Command_message leaves_spares [OF leaves_refl] leaves_spares [OF command_connect_leaves]
      by (auto simp: mainloop_def harbor_command_def Let_def N split: if_splits)
  qed
next
  case (Message_out type sess src rmsg)
  let ?send = "if rn_handle (destination rmsg) = 0
    then remote_send_name h src (text_bytes (rn_name (destination rmsg))) type sess (rmessage rmsg) (rm_sz rmsg)
    else remote_send_handle h src (rn_handle (destination rmsg)) type sess (rmessage rmsg) (rm_sz rmsg)"
  obtain h1 taken out1 where s: "?send = Inr ((h1, taken), out1)" using r Message_out by (auto simp: mainloop_def andThen_Inr_iff)
  have "spares nm h h1" using s oth(1) Message_out remote_send_name_spares [OF ok] leaves_spares [OF remote_send_handle_leaves]
    by (auto simp: message_name_def other_name_def split: if_splits)
  moreover have "leaves h1 h'" using r s Message_out by (auto simp: mainloop_def andThen_Inr_iff split: if_splits dest: free_block_le)
  ultimately show ?thesis by (auto simp: spares_def leaves_def intro: map_le_trans)
qed

section \<open>Messages to a name that is not known yet\<close>

lemma find_set_first: "f v \<Longrightarrow> find f xs \<noteq> None \<Longrightarrow> find f (set_first f v xs) = Some v"
  by (induction xs) auto

lemma search_set_node:
  assumes "names_ok hm" and "hash_search hm nm = Some node" and "name_match nm n"
  shows "hash_search (set_node hm nm n) nm = Some n"
  using assms name_bucket_less [of nm] find_set_first [of "name_match nm" n "hm ! name_bucket nm"]
  by (simp add: hash_search_def set_node_def names_ok_def)

text \<open>The messages that wait for a name, with their payloads.\<close>

definition name_waits :: "harbor \<Rightarrow> u8 list \<Rightarrow> (remote_message_header \<times> u8 list) list \<Rightarrow> bool" where
  "name_waits h nm hs \<longleftrightarrow>
     (case hash_search (h_map h) nm of
        None \<Rightarrow> hs = []
      | Some node \<Rightarrow> kv_value node = 0 \<and> map (\<lambda>m. (hm_header m, payload (h_mem h) m)) (queued_msgs (kv_queue node)) = hs)"

lemma arrive_fields: "h_map (arrive h p bs) = h_map h" "h_slave (arrive h p bs) = h_slave h" "h_s (arrive h p bs) = h_s h"
  by (simp_all add: arrive_def)

lemma payload_arrive:
  assumes "mem_ok (h_mem h) MS" and "p = 0 \<or> h_mem h p = None" and "m \<in># MS"
  shows "payload (h_mem (arrive h p bs)) m = payload (h_mem h) m"
  using assms by (cases "hm_buffer m = p") (auto simp: payload_def mem_ok_def msg_ok_def arrive_def)

lemma name_waits_send:
  assumes inv: "harbor_inv h" and w: "name_waits h nm hs" and p: "fresh_block h p bs" and n: "unat n = length bs"
  obtains h' where "remote_send_name (arrive h p bs) src nm type sess p n = Inr ((h', True),
      [Hsend 0 (h_slave h) PTYPE_TEXT 0 (text_bytes ''Q '' @ takeWhile (\<lambda>c. c \<noteq> 0) (take GLOBALNAME_LENGTH nm))])"
    "name_waits h' nm (hs @ [(\<lparr>rh_source = src, rh_destination = push_bit HANDLE_REMOTE_SHIFT (word_of_int type), rh_session = sess\<rparr>, bs)])"
    "h_slave h' = h_slave h" "h_s h' = h_s h" "h_mem h' = h_mem (arrive h p bs)"
proof -
  have nok: "names_ok (h_map h)" and mem: "mem_ok (h_mem h) (slave_msgs (h_s h) + name_msgs (h_map h))"
    using inv by (simp_all add: harbor_inv_def links_ok_def)
  obtain hm node where nd: "name_node (h_map h) nm = (hm, node)" "hash_search hm nm = Some node" "names_ok hm" "name_msgs hm = name_msgs (h_map h)"
      "hash_search (h_map h) nm = None \<and> kv_value node = 0 \<and> kv_queue node = None \<or> hash_search (h_map h) nm = Some node \<and> hm = h_map h"
    by (rule name_node_spec [OF nok])
  have v: "kv_value node = 0" "map (\<lambda>m. (hm_header m, payload (h_mem h) m)) (queued_msgs (kv_queue node)) = hs"
    using nd(5) w by (auto simp: name_waits_def)
  obtain R where R: "name_msgs hm = mset (queued_msgs (kv_queue node)) + R" "\<forall>n. name_msgs (set_node hm nm n) = mset (queued_msgs (kv_queue n)) + R"
    by (rule node_split [OF nd(3,2)])
  let ?hdr = "\<lparr>rh_source = src, rh_destination = push_bit HANDLE_REMOTE_SHIFT (word_of_int type), rh_session = sess\<rparr>"
  have q0: "queue_ok (kv_queue node)" and match: "name_match nm node" using search_in [OF nd(3,2)] by simp_all
  obtain q where q: "push_queue (case kv_queue node of None \<Rightarrow> new_queue | Some q \<Rightarrow> q) p n ?hdr = Inr q"
      "queued_msgs (Some q) = queued_msgs (kv_queue node) @ [\<lparr>hm_header = ?hdr, hm_buffer = p, hm_size = n\<rparr>]" "queue_ok (Some q)"
    by (rule push_waiting [OF q0])
  let ?n = "node\<lparr>kv_queue := Some q\<rparr>" let ?mem = "h_mem (arrive h p bs)"
  let ?h = "(arrive h p bs)\<lparr>h_map := set_node hm nm ?n\<rparr>"
  have mem': "mem_ok (h_mem h) (slave_msgs (h_s h) + (mset (queued_msgs (kv_queue node)) + R))" using mem by (simp only: nd(4) [symmetric] R(1))
  have new: "payload ?mem \<lparr>hm_header = ?hdr, hm_buffer = p, hm_size = n\<rparr> = bs" using n p by (auto simp: payload_def arrive_def fresh_block_def unat_eq_0)
  have "payload ?mem m = payload (h_mem h) m" if "m \<in> set (queued_msgs (kv_queue node))" for m
    by (rule payload_arrive [OF mem']) (use p that in \<open>auto simp: fresh_block_def\<close>)
  then have "map (\<lambda>m. (hm_header m, payload ?mem m)) (queued_msgs (kv_queue node)) = hs" using v(2) by auto
  moreover have "hash_search (set_node hm nm ?n) nm = Some ?n"
    by (rule search_set_node [OF nd(3,2)]) (use match in \<open>simp add: name_match_def\<close>)
  ultimately have "name_waits ?h nm (hs @ [(?hdr, bs)])" using v(1) q(2) new by (simp add: name_waits_def)
  then show thesis
    by (intro that [of ?h]) (use nd(1) v(1) q(1) in \<open>simp_all add: remote_send_name_def arrive_fields\<close>)
qed

lemma name_waits_update:
  assumes inv: "harbor_inv h" and w: "name_waits h nm hs" and fd: "s_fd (h_s h ! unat (drop_bit HANDLE_REMOTE_SHIFT hnd)) \<noteq> 0"
  shows "\<exists>h'. update_name h nm hnd = Inr (h', concat (map (\<lambda>(hdr, bs). send_remote (s_fd (h_s h ! unat (drop_bit HANDLE_REMOTE_SHIFT hnd))) bs
      (hdr\<lparr>rh_destination := rh_destination hdr OR (hnd AND HANDLE_MASK)\<rparr>)) hs))"
proof -
  have nok: "names_ok (h_map h)" and l: "links_ok h (name_msgs (h_map h))" using inv by (simp_all add: harbor_inv_def)
  obtain hm node where nd: "name_node (h_map h) nm = (hm, node)" "hash_search hm nm = Some node" "names_ok hm" "name_msgs hm = name_msgs (h_map h)"
      "hash_search (h_map h) nm = None \<and> kv_value node = 0 \<and> kv_queue node = None \<or> hash_search (h_map h) nm = Some node \<and> hm = h_map h"
    by (rule name_node_spec [OF nok])
  let ?h = "h\<lparr>h_map := hm\<rparr>" let ?fd = "s_fd (h_s h ! unat (drop_bit HANDLE_REMOTE_SHIFT hnd))" let ?ms = "queued_msgs (kv_queue node)"
  have hs: "map (\<lambda>m. (hm_header m, payload (h_mem h) m)) ?ms = hs" using nd(5) w by (auto simp: name_waits_def)
  obtain R where R: "name_msgs hm = mset ?ms + R" "\<forall>n. name_msgs (set_node hm nm n) = mset (queued_msgs (kv_queue n)) + R"
    by (rule node_split [OF nd(3,2)])
  show ?thesis
  proof (cases "kv_queue node")
    case None
    then show ?thesis using nd(1) hs by (simp add: update_name_def)
  next
    case (Some q)
    have q: "hq_inv q ?ms" using search_in [OF nd(3,2)] Some by simp
    have lh: "links_ok ?h (mset ?ms + R)" using l nd(4) R(1) by simp
    have fd': "s_fd (h_s ?h ! unat (drop_bit HANDLE_REMOTE_SHIFT hnd)) \<noteq> 0" using fd by simp
    obtain mem q' where d: "dispatch_name_queue ?h hnd q = Inr ((?h\<lparr>h_mem := mem\<rparr>, Some q'),
        concat (map (\<lambda>m. send_remote (s_fd (h_s ?h ! unat (drop_bit HANDLE_REMOTE_SHIFT hnd))) (payload (h_mem ?h) m)
          ((hm_header m)\<lparr>rh_destination := rh_destination (hm_header m) OR (hnd AND HANDLE_MASK)\<rparr>)) ?ms))"
      "hq_inv q' []" "links_ok (?h\<lparr>h_mem := mem\<rparr>) R"
      by (rule dispatch_name_sent [OF lh q fd'])
    have "release_queue_h (Some q') mem = Inr mem" using pop_queue_Nil [OF d(2)] by (simp add: release_queue_h_def drain_queue_def)
    then show ?thesis using nd(1) Some d(1) by (simp add: update_name_def comp_def flip: hs)
  qed
qed



text \<open>Messages that do not touch the name leave what waits for it in place.\<close>

lemma waiting_owned:
  assumes "harbor_inv h" and "hash_search (h_map h) nm = Some node" and "m \<in> set (queued_msgs (kv_queue node))"
  shows "m \<in># slave_msgs (h_s h) + name_msgs (h_map h)"
proof -
  have "names_ok (h_map h)" using assms(1) by (simp add: harbor_inv_def)
  from node_split [OF this assms(2)] obtain R where "name_msgs (h_map h) = mset (queued_msgs (kv_queue node)) + R" by metis
  then show ?thesis using assms(3) by simp
qed

lemma name_waits_spared:
  assumes inv: "harbor_inv h" "harbor_inv h'" and w: "name_waits h nm hs" and p: "p = 0 \<or> h_mem h p = None"
    and sp: "spares nm (arrive h p bs) h'"
  shows "name_waits h' nm hs"
proof (cases "hash_search (h_map h) nm")
  case None
  then show ?thesis using w sp by (simp add: name_waits_def spares_def arrive_fields)
next
  case (Some node)
  then have s': "hash_search (h_map h') nm = Some node" using sp by (simp add: spares_def arrive_fields)
  have mem: "mem_ok (h_mem h) (slave_msgs (h_s h) + name_msgs (h_map h))" "mem_ok (h_mem h') (slave_msgs (h_s h') + name_msgs (h_map h'))"
    using inv by (simp_all add: harbor_inv_def links_ok_def)
  have "payload (h_mem h') m = payload (h_mem h) m" if m: "m \<in> set (queued_msgs (kv_queue node))" for m
  proof -
    have "msg_ok (h_mem h') m" using mem(2) waiting_owned [OF inv(2) s' m] by (simp add: mem_ok_def)
    moreover have "h_mem h' b = Some x \<Longrightarrow> h_mem (arrive h p bs) b = Some x" for b x using sp by (auto simp: spares_def map_le_def dom_def)
    ultimately have "payload (h_mem h') m = payload (h_mem (arrive h p bs)) m" by (auto simp: msg_ok_def payload_def)
    also have "\<dots> = payload (h_mem h) m" by (rule payload_arrive [OF mem(1) p waiting_owned [OF inv(1) Some m]])
    finally show ?thesis .
  qed
  then show ?thesis using w Some s' by (auto simp: name_waits_def)
qed

section \<open>Histories of the service\<close>

text \<open>
  Messages that reach the service one after the other, each with the block that comes with it; the result has the effects of each message.
  \<open>legal_run\<close>: each of them is legal when it comes, and none faults.
\<close>

fun harbor_run :: "(u32 \<Rightarrow> bool) \<Rightarrow> harbor \<Rightarrow> (harbor_input \<times> ptr \<times> u8 list) list \<Rightarrow> (harbor \<times> harbor_effect list list) res" where
  "harbor_run send_ok h [] = Inr (h, [])"
| "harbor_run send_ok h ((inp, p, bs) # es) =
     andThen (mainloop send_ok (arrive h p bs) inp) (\<lambda>(h', out).
     andThen (harbor_run send_ok h' es) (\<lambda>(h'', outs). Inr (h'', out # outs)))"

fun legal_run :: "(u32 \<Rightarrow> bool) \<Rightarrow> harbor \<Rightarrow> (harbor_input \<times> ptr \<times> u8 list) list \<Rightarrow> bool" where
  "legal_run send_ok h [] \<longleftrightarrow> True"
| "legal_run send_ok h ((inp, p, bs) # es) \<longleftrightarrow>
     harbor_legal h inp p bs \<and> (case mainloop send_ok (arrive h p bs) inp of Inl f \<Rightarrow> False | Inr (h', out) \<Rightarrow> legal_run send_ok h' es)"

text \<open>The messages to a name, with their bytes, and their effects.\<close>

definition sent_to :: "u8 list \<Rightarrow> harbor_input \<times> ptr \<times> u8 list \<Rightarrow> (remote_message_header \<times> u8 list) list" where
  "sent_to nm e =
     (case e of (inp, p, bs) \<Rightarrow>
        if message_name inp = Some nm then
          (case inp of
             Message_out type sess src rmsg \<Rightarrow>
               [(\<lparr>rh_source = src, rh_destination = push_bit HANDLE_REMOTE_SHIFT (word_of_int type), rh_session = sess\<rparr>, bs)]
           | _ \<Rightarrow> [])
        else [])"

definition query_name :: "harbor \<Rightarrow> u8 list \<Rightarrow> harbor_effect" where
  "query_name h nm = Hsend 0 (h_slave h) PTYPE_TEXT 0 (text_bytes ''Q '' @ takeWhile (\<lambda>c. c \<noteq> 0) (take GLOBALNAME_LENGTH nm))"

definition waits_for :: "u8 list \<Rightarrow> harbor_input \<Rightarrow> bool" where
  "waits_for nm inp \<longleftrightarrow> other_name nm (registered_name inp) \<and> (message_name inp = Some nm \<or> other_name nm (message_name inp))"

lemma message_waits:
  assumes inv: "harbor_inv h" and w: "name_waits h nm hs" and l: "harbor_legal h inp p bs" and o: "waits_for nm inp"
    and r: "mainloop send_ok (arrive h p bs) inp = Inr (h', out)"
  shows "name_waits h' nm (hs @ sent_to nm (inp, p, bs)) \<and> h_slave h' = h_slave h \<and> (message_name inp = Some nm \<longrightarrow> out = [query_name h nm])"
proof (cases "message_name inp = Some nm")
  case True
  then obtain type sess src rmsg where i: "inp = Message_out type sess src rmsg" "rn_handle (destination rmsg) = 0"
      "text_bytes (rn_name (destination rmsg)) = nm"
    by (auto simp: message_name_def split: harbor_input.splits if_splits)
  have f: "rmessage rmsg = p" "fresh_block h p bs" "unat (rm_sz rmsg) = length bs" using l i by (simp_all add: harbor_legal_def)
  from name_waits_send [OF inv w f(2,3), of src type sess] obtain h1 where
      "remote_send_name (arrive h p bs) src nm type sess p (rm_sz rmsg) = Inr ((h1, True), [query_name h nm])" "h_slave h1 = h_slave h"
      "name_waits h1 nm (hs @ [(\<lparr>rh_source = src, rh_destination = push_bit HANDLE_REMOTE_SHIFT (word_of_int type), rh_session = sess\<rparr>, bs)])"
    unfolding query_name_def by metis
  then show ?thesis using r i f(1) True by (simp add: mainloop_def sent_to_def)
next
  case False
  then have ot: "other_name nm (message_name inp)" "other_name nm (registered_name inp)" using o by (simp_all add: waits_for_def)
  have p: "p = 0 \<or> h_mem h p = None" using l by (auto simp: harbor_legal_def fresh_block_def split: harbor_input.splits if_splits)
  have "names_ok (h_map (arrive h p bs))" using inv by (simp add: harbor_inv_def arrive_fields)
  from mainloop_spares [OF this ot r] have sp: "spares nm (arrive h p bs) h'" .
  have "harbor_inv h'" using mainloop_ok [OF inv l, of send_ok] r by simp
  from name_waits_spared [OF inv this w p sp] show ?thesis using False sp by (simp add: sent_to_def spares_def arrive_fields)
qed

lemma run_waits:
  "harbor_inv h \<Longrightarrow> name_waits h nm hs \<Longrightarrow> legal_run send_ok h es \<Longrightarrow> list_all (\<lambda>e. waits_for nm (fst e)) es \<Longrightarrow>
    \<exists>h' outs. harbor_run send_ok h es = Inr (h', outs) \<and> harbor_inv h' \<and> name_waits h' nm (hs @ concat (map (sent_to nm) es)) \<and>
      length outs = length es \<and> list_all (\<lambda>(e, out). message_name (fst e) = Some nm \<longrightarrow> out = [query_name h nm]) (zip es outs)"
proof (induction es arbitrary: h hs)
  case (Cons e es)
  obtain inp p bs where e: "e = (inp, p, bs)" by (metis prod_cases3)
  obtain h1 out where m: "mainloop send_ok (arrive h p bs) inp = Inr (h1, out)" "legal_run send_ok h1 es" and l: "harbor_legal h inp p bs"
    using Cons.prems(3) e by (auto split: sum.splits)
  have inv: "harbor_inv h1" using mainloop_ok [OF Cons.prems(1) l, of send_ok] m(1) by simp
  have o: "waits_for nm inp" "list_all (\<lambda>e. waits_for nm (fst e)) es" using Cons.prems(4) e by simp_all
  note s = message_waits [OF Cons.prems(1,2) l o(1) m(1)]
  have "query_name h1 nm = query_name h nm" using s by (simp add: query_name_def)
  with Cons.IH [OF inv conjunct1 [OF s] m(2) o(2)] s m(1) e show ?case by auto
qed simp

section \<open>Properties\<close>

text \<open>C18: What one harbor service sends, the other one delivers. The packages of \<open>send_remote\<close> for any list of messages (each of less than
  16 MB), cut into chunks at any places by the network, make the receiving service send exactly these messages to the local
  receivers, in order, with their bytes, types, sources and sessions and with the receiver's handle on this node. Afterwards
  the link waits for a new package and no block is left over.
\<close>

theorem harbor_roundtrip:
  assumes init: "harbor_init harbor_create args = Some h0" "reachable h0 (harbor_step (\<lambda>_. True)) h"
    and link: "harbor_id h fd = Some i" "s_status (h_s h ! i) = STATUS_HEADER" "s_read (h_s h ! i) = 0"
    and ms: "\<forall>(bs, hdr) \<in> set ms. length bs + HEADER_COOKIE_LENGTH < 2 ^ 24 \<and> 0 \<le> sint (rh_session hdr)"
    and sent: "concat (map (\<lambda>(bs, hdr). send_remote out_fd bs hdr) ms) = map (Hsocket_send out_fd) frames"
    and cs: "concat cs = concat frames" "\<forall>c \<in> set cs. c \<noteq> [] \<and> length c < 2 ^ 31" and p: "p \<noteq> 0" "h_mem h p = None"
  shows "\<exists>h'. harbor_feed (\<lambda>_. True) fd p h cs = Inr (h', map (\<lambda>(bs, hdr).
        Hsend (rh_source hdr) ((rh_destination hdr AND HANDLE_MASK) OR push_bit HANDLE_REMOTE_SHIFT (word_of_int (h_id h)))
          (uint (drop_bit HANDLE_REMOTE_SHIFT (rh_destination hdr)) OR PTYPE_TAG_DONTCOPY) (rh_session hdr) bs) ms) \<and>
      s_status (h_s h' ! i) = STATUS_HEADER \<and> s_read (h_s h' ! i) = 0 \<and> h_mem h' = h_mem h"
proof -
  have inv: "harbor_inv h" by (rule harbor_reachable_inv [OF init])
  have i: "i < REMOTE_MAX" "length (h_s h) = REMOTE_MAX" using harbor_id_less [OF link(1)] inv by (simp_all add: harbor_inv_def links_ok_def)
  have "slave_ok (h_s h ! i)" using inv i links_slave by (auto simp: harbor_inv_def)
  then have st: "at_stream (h_s h ! i) (map (\<lambda>(bs, hdr). bs @ header_to_message hdr) ms) 0"
    using link by (intro at_stream_idle) (simp add: link_idle_def slave_ok_def)
  have "concat (map (\<lambda>(bs, hdr). send_remote out_fd bs hdr) ms) = map (Hsocket_send out_fd) (map (\<lambda>(bs, hdr). package (bs @ header_to_message hdr)) ms)"
    using ms by (induction ms) (auto simp: send_remote_package)
  then have "map (Hsocket_send out_fd) frames = map (Hsocket_send out_fd) (map (\<lambda>(bs, hdr). package (bs @ header_to_message hdr)) ms)" using sent by simp
  then have "frames = map (\<lambda>(bs, hdr). package (bs @ header_to_message hdr)) ms" by (rule map_injective) (simp add: inj_def)
  then have eq: "concat cs = drop 0 (concat (map package (map (\<lambda>(bs, hdr). bs @ header_to_message hdr) ms)))" using cs(1) by (simp add: comp_def split_def)
  have ok: "\<forall>m \<in> set (map (\<lambda>(bs, hdr). bs @ header_to_message hdr) ms). package_ok m" using ms send_remote_package by fastforce
  have len: "i < length (h_s h)" using i by simp
  obtain s' where s': "link_idle s'" "harbor_feed (\<lambda>_. True) fd p h cs =
      Inr (set_slave i s' h, concat (map (delivered (\<lambda>_. True) h) (map (\<lambda>(bs, hdr). bs @ header_to_message hdr) ms)))"
    using feed_stream [OF st ok cs(2) eq link(1) len p] by blast
  have "concat (map (delivered (\<lambda>_. True) h) (map (\<lambda>(bs, hdr). bs @ header_to_message hdr) ms)) = map (\<lambda>(bs, hdr).
        Hsend (rh_source hdr) ((rh_destination hdr AND HANDLE_MASK) OR push_bit HANDLE_REMOTE_SHIFT (word_of_int (h_id h)))
          (uint (drop_bit HANDLE_REMOTE_SHIFT (rh_destination hdr)) OR PTYPE_TAG_DONTCOPY) (rh_session hdr) bs) ms"
    using ms by (induction ms) (auto simp: delivered_message)
  with s' len show ?thesis by (intro exI [of _ "set_slave i s' h"]) (simp add: link_idle_def)
qed

theorem harbor_roundtrip_witness:
  "\<exists>h'. harbor_feed (\<lambda>_. True) 5 1 demo_harbor [[0, 0, 0], [13, 7, 0, 0], [0, 9, 0, 0, 0, 4, 0, 0, 0, 1]] =
     Inr (h', [Hsend 9 0x01000004 PTYPE_TAG_DONTCOPY 1 [7]]) \<and> h_mem h' = Map.empty"
proof -
  let ?hdr = "\<lparr>rh_source = 9, rh_destination = 4, rh_session = 1\<rparr>"
  have sent: "concat (map (\<lambda>(bs, hdr). send_remote 8 bs hdr) [([7], ?hdr)]) =
      map (Hsocket_send 8) [[0, 0, 0, 13, 7, 0, 0, 0, 9, 0, 0, 0, 4, 0, 0, 0, 1]]"
    by (simp add: send_remote_def HEADER_COOKIE_LENGTH_def) code_simp
  have "0 \<le> sint (1 :: u32)" by simp
  then have ms: "\<forall>(bs, hdr) \<in> set [([7], ?hdr)]. length bs + HEADER_COOKIE_LENGTH < 2 ^ 24 \<and> 0 \<le> sint (rh_session hdr)"
    by (simp add: HEADER_COOKIE_LENGTH_def)
  have st: "s_status (h_s demo_harbor ! 3) = STATUS_HEADER" "s_read (h_s demo_harbor ! 3) = 0" by (simp_all add: demo_links empty_slave_def)
  have v: "(4 AND HANDLE_MASK) OR push_bit HANDLE_REMOTE_SHIFT (word_of_int 1) = (0x01000004 :: u32)"
      "uint (drop_bit HANDLE_REMOTE_SHIFT (4 :: u32)) OR PTYPE_TAG_DONTCOPY = PTYPE_TAG_DONTCOPY"
    by code_simp+
  from harbor_roundtrip [OF demo_init demo_harbor_reachable demo_link_id st ms sent, of "[[0, 0, 0], [13, 7, 0, 0], [0, 9, 0, 0, 0, 4, 0, 0, 0, 1]]" 1]
  show ?thesis using v by (auto simp: demo_links)
qed

text \<open>C19: no message is lost or reordered while a global name is unknown. Take any state that the harbor service reaches in which the name is not
  in its table, and any legal messages that come after it in any order and do not fault: messages to this name, messages to handles and to other names, data and events of links,
  connections of nodes, registrations of other names. Each message to the name makes the service query the name and nothing else, and when the name is at last
  registered with a handle on a node whose link has a socket (\<open>fd \<noteq> 0\<close>), all messages to the name, and they alone, are sent on that link, in the
  order in which they came and with their own bytes, types, sources and sessions. (Without a socket the queue moves to the link, but the handle is not put into the
  headers: lemma \<open>name_queue_without_handle\<close>.)
\<close>

theorem harbor_names_kept:
  assumes init: "harbor_init harbor_create args = Some h0" "reachable h0 (harbor_step send_ok) h"
    and addr: "addr \<noteq> []" "length addr < GLOBALNAME_LENGTH" and new: "hash_search (h_map h) (text_bytes (copy_name addr)) = None"
    and run: "legal_run send_ok h es" "list_all (\<lambda>e. waits_for (text_bytes (copy_name addr)) (fst e)) es"
    and last: "harbor_run send_ok h es = Inr (h1, outs)" "fd = s_fd (h_s h1 ! unat (drop_bit HANDLE_REMOTE_SHIFT hnd))" "fd \<noteq> 0"
  shows "\<exists>h2. length outs = length es \<and>
      list_all (\<lambda>(e, out). message_name (fst e) = Some (text_bytes (copy_name addr)) \<longrightarrow>
        out = [Hsend 0 (h_slave h) PTYPE_TEXT 0 (text_bytes ''Q '' @ takeWhile (\<lambda>c. c \<noteq> 0) (text_bytes addr))]) (zip es outs) \<and>
      mainloop send_ok h1 (Command_message (text_bytes (''N '' @ addr)) hnd) =
        Inr (h2, concat (map (\<lambda>(hdr, bs). send_remote fd bs (hdr\<lparr>rh_destination := rh_destination hdr OR (hnd AND HANDLE_MASK)\<rparr>))
          (concat (map (sent_to (text_bytes (copy_name addr))) es))))"
proof -
  have inv: "harbor_inv h" by (rule harbor_reachable_inv [OF init])
  let ?nm = "text_bytes (copy_name addr)"
  have nm: "?nm = text_bytes addr @ replicate (GLOBALNAME_LENGTH - length addr) 0" using addr(2) by (simp add: text_bytes_def copy_name_def Let_def)
  have "takeWhile (\<lambda>c. c \<noteq> 0) (take GLOBALNAME_LENGTH ?nm) = takeWhile (\<lambda>c. c \<noteq> 0) (text_bytes addr)"
    using addr(2) unfolding nm
    by (auto simp: takeWhile_append text_bytes_def intro!: takeWhile_eq_all_conv [THEN iffD2, symmetric])
  then have q: "query_name h ?nm = Hsend 0 (h_slave h) PTYPE_TEXT 0 (text_bytes ''Q '' @ takeWhile (\<lambda>c. c \<noteq> 0) (text_bytes addr))"
    by (simp add: query_name_def)
  have "name_waits h ?nm []" using new by (simp add: name_waits_def)
  from run_waits [OF inv this run] have h1: "harbor_inv h1" "length outs = length es"
      "name_waits h1 ?nm (concat (map (sent_to ?nm) es))"
      "list_all (\<lambda>(e, out). message_name (fst e) = Some ?nm \<longrightarrow> out = [query_name h ?nm]) (zip es outs)" unfolding last(1) by auto
  have "s_fd (h_s h1 ! unat (drop_bit HANDLE_REMOTE_SHIFT hnd)) \<noteq> 0" using last by simp
  from name_waits_update [OF h1(1,3) this] obtain h2 where "update_name h1 ?nm hnd = Inr (h2, concat (map (\<lambda>(hdr, bs). send_remote fd bs
      (hdr\<lparr>rh_destination := rh_destination hdr OR (hnd AND HANDLE_MASK)\<rparr>)) (concat (map (sent_to ?nm) es))))"
    using last(2) by auto
  moreover have "mainloop send_ok h1 (Command_message (text_bytes (''N '' @ addr)) hnd) = update_name h1 ?nm hnd"
    using addr unfolding nm by (simp add: mainloop_def harbor_command_def text_bytes_def)
  ultimately show ?thesis using h1(2,4) unfolding q by auto
qed

text \<open>Two messages to the name \<open>db\<close> with an event of a socket between them.\<close>

definition demo_message :: "u32 \<Rightarrow> ptr \<Rightarrow> u8 \<Rightarrow> harbor_input \<times> ptr \<times> u8 list" where
  "demo_message sess p b =
     (Message_out 0 sess 9 \<lparr>destination = \<lparr>rn_name = copy_name ''db'', rn_handle = 0\<rparr>, rmessage = p, rm_sz = 1\<rparr>, p, [b])"

definition demo_run :: "(harbor_input \<times> ptr \<times> u8 list) list" where
  "demo_run = [demo_message 1 1 7, (Socket_message SOCKET_TYPE_CONNECT 5 0 0, 0, []), demo_message 2 2 8]"

lemma demo_message_waits:
  assumes "harbor_inv h" "name_waits h (text_bytes (copy_name ''db'')) hs" "p \<noteq> 0" "h_mem h p = None" "demo_message sess p b = (inp, p, bs)"
  shows "harbor_legal h inp p bs \<and> (\<exists>h' hs'. mainloop send_ok (arrive h p bs) inp = Inr (h', [query_name h (text_bytes (copy_name ''db''))]) \<and>
    harbor_inv h' \<and> name_waits h' (text_bytes (copy_name ''db'')) hs' \<and> h_s h' = h_s h \<and> h_mem h' = (h_mem h)(p \<mapsto> bs))"
proof -
  have f: "fresh_block h p [b]" "unat (1 :: u64) = length [b]" using assms(3,4) by (simp_all add: fresh_block_def)
  have i: "inp = Message_out 0 sess 9 \<lparr>destination = \<lparr>rn_name = copy_name ''db'', rn_handle = 0\<rparr>, rmessage = p, rm_sz = 1\<rparr>" "bs = [b]"
    using assms(5) by (simp_all add: demo_message_def)
  have l: "harbor_legal h inp p bs" using f by (simp add: i harbor_legal_def)
  from name_waits_send [OF assms(1,2) f, of 9 0 sess] obtain h' hs' where h':
      "remote_send_name (arrive h p [b]) 9 (text_bytes (copy_name ''db'')) 0 sess p 1 = Inr ((h', True), [query_name h (text_bytes (copy_name ''db''))])"
      "name_waits h' (text_bytes (copy_name ''db'')) hs'" "h_s h' = h_s h" "h_mem h' = h_mem (arrive h p [b])"
    unfolding query_name_def by metis
  then have m: "mainloop send_ok (arrive h p bs) inp = Inr (h', [query_name h (text_bytes (copy_name ''db''))])" by (simp add: i mainloop_def)
  have "harbor_inv h'" using mainloop_ok [OF assms(1) l, of send_ok] m by simp
  with l m h' assms(3) show ?thesis by (auto simp: i arrive_def)
qed

lemma demo_run_ends: "legal_run send_ok demo_harbor demo_run \<and> (\<exists>h1 outs. harbor_run send_ok demo_harbor demo_run = Inr (h1, outs) \<and> h_s h1 = h_s demo_harbor)"
proof -
  let ?nm = "text_bytes (copy_name ''db'')" let ?c = "Socket_message SOCKET_TYPE_CONNECT 5 0 0"
  obtain i1 b1 i2 b2 where e: "demo_message 1 1 7 = (i1, 1, b1)" "demo_message 2 2 8 = (i2, 2, b2)" by (simp add: demo_message_def)
  have inv: "harbor_inv demo_harbor" by (rule harbor_reachable_inv [OF demo_init demo_harbor_reachable])
  have w: "name_waits demo_harbor ?nm []" by (simp add: name_waits_def demo_links hash_new_search)
  obtain h1 hs1 where h1: "harbor_legal demo_harbor i1 1 b1" "mainloop send_ok (arrive demo_harbor 1 b1) i1 = Inr (h1, [query_name demo_harbor ?nm])"
      "harbor_inv h1" "name_waits h1 ?nm hs1" "h_s h1 = h_s demo_harbor" "h_mem h1 = [1 \<mapsto> b1]"
    using demo_message_waits [OF inv w _ _ e(1), of send_ok] by (auto simp: demo_links)
  have c: "mainloop send_ok (arrive h1 0 []) ?c = Inr (h1, [])" "harbor_legal h1 ?c 0 []"
    by (simp_all add: mainloop_def arrive_def harbor_legal_def SOCKET_TYPE_CONNECT_def SOCKET_TYPE_DATA_def SOCKET_TYPE_ERROR_def SOCKET_TYPE_CLOSE_def)
  obtain h2 where h2: "harbor_legal h1 i2 2 b2" "mainloop send_ok (arrive h1 2 b2) i2 = Inr (h2, [query_name h1 ?nm])" "h_s h2 = h_s h1"
    using demo_message_waits [OF h1(3,4) _ _ e(2), of send_ok] h1(6) by auto
  show ?thesis using h1 h2 c by (simp add: demo_run_def e)
qed

theorem harbor_names_kept_witness:
  "legal_run (\<lambda>_. True) demo_harbor demo_run \<and> (\<exists>h1 h2 outs. harbor_run (\<lambda>_. True) demo_harbor demo_run = Inr (h1, outs) \<and> length outs = 3 \<and>
    mainloop (\<lambda>_. True) h1 (Command_message (text_bytes (''N db'')) 0x03000007) =
      Inr (h2, send_remote 5 [7] \<lparr>rh_source = 9, rh_destination = 7, rh_session = 1\<rparr> @
        send_remote 5 [8] \<lparr>rh_source = 9, rh_destination = 7, rh_session = 2\<rparr>))"
proof -
  let ?nm = "text_bytes (copy_name ''db'')"
  obtain h1 outs where r: "legal_run (\<lambda>_. True) demo_harbor demo_run" "harbor_run (\<lambda>_. True) demo_harbor demo_run = Inr (h1, outs)" "h_s h1 = h_s demo_harbor"
    using demo_run_ends [of "\<lambda>_. True"] by blast
  have i: "unat (drop_bit HANDLE_REMOTE_SHIFT (0x03000007 :: u32)) = 3" by code_simp
  have fd: "5 = s_fd (h_s h1 ! unat (drop_bit HANDLE_REMOTE_SHIFT (0x03000007 :: u32)))" unfolding i r(3) by (simp add: demo_links)
  have v: "0x03000007 AND HANDLE_MASK = (7 :: u32)" by code_simp
  have w: "list_all (\<lambda>e. waits_for ?nm (fst e)) demo_run"
    by (simp add: demo_run_def demo_message_def waits_for_def registered_name_def message_name_def other_name_def)
  have s: "concat (map (sent_to ?nm) demo_run) = [(\<lparr>rh_source = 9, rh_destination = 0, rh_session = 1\<rparr>, [7]),
      (\<lparr>rh_source = 9, rh_destination = 0, rh_session = 2\<rparr>, [8])]"
    by (simp add: demo_run_def demo_message_def sent_to_def message_name_def)
  have new: "hash_search (h_map demo_harbor) ?nm = None" by (simp add: demo_links hash_new_search)
  have len: "length demo_run = 3" by (simp add: demo_run_def)
  from harbor_names_kept [OF demo_init demo_harbor_reachable _ _ new r(1) w r(2) fd] show ?thesis
    using r(1,2) unfolding s len by (auto simp: v GLOBALNAME_LENGTH_def)
qed

text \<open>
  When the node of the name has no socket yet, the waiting messages move to its link as they are, with the type and no handle in the header;
  the link later sends them in this form, to the handle 0 of that node.
\<close>

lemma name_queue_without_handle:
  assumes "s_fd (h_s h ! unat (drop_bit HANDLE_REMOTE_SHIFT hnd)) = 0" "s_status (h_s h ! unat (drop_bit HANDLE_REMOTE_SHIFT hnd)) \<noteq> STATUS_DOWN"
    and "s_queue (h_s h ! unat (drop_bit HANDLE_REMOTE_SHIFT hnd)) = None"
    and "unat (drop_bit HANDLE_REMOTE_SHIFT hnd) \<noteq> unat (drop_bit HANDLE_REMOTE_SHIFT (h_slave h))"
  shows "dispatch_name_queue h hnd q = Inr ((set_slave (unat (drop_bit HANDLE_REMOTE_SHIFT hnd))
     ((h_s h ! unat (drop_bit HANDLE_REMOTE_SHIFT hnd))\<lparr>s_queue := Some q\<rparr>) h, None), [])"
  using assms by (simp add: dispatch_name_queue_def Let_def)

end
