(* ===== verification/SocketServer.thy ===== *)
theory SocketServer
  imports Engine
begin

text \<open>
  Model of \<^verbatim>\<open>skynet-src/socket_server.c\<close>: the table of sockets, the requests that services put into the control pipe, the
  buffers that wait to be written, and the loop that turns requests and events of the system into messages.

  The operating system is an argument: each handler is given the answers of the calls it makes (\<open>io\<close> for
  \<^verbatim>\<open>write\<close> and \<^verbatim>\<open>sendto\<close>, one after the other; a list that is used up means that the call would block), and what it asks the
  system to do is an effect. The chains of write buffers are lists. A write buffer holds the bytes that are left to
  write, with the pointers that the code compares. A request in the pipe is a value, not its bytes.
\<close>

section \<open>Data\<close>

definition MAX_SOCKET_P :: nat where "MAX_SOCKET_P = 16"
definition MAX_SOCKET :: nat where "MAX_SOCKET = 2 ^ MAX_SOCKET_P"
definition MIN_READ_BUFFER :: int where "MIN_READ_BUFFER = 64"
definition UDP_ADDRESS_SIZE :: nat where "UDP_ADDRESS_SIZE = 19"

datatype socket_type =
    SOCKET_TYPE_INVALID | SOCKET_TYPE_RESERVE | SOCKET_TYPE_PLISTEN | SOCKET_TYPE_LISTEN | SOCKET_TYPE_CONNECTING
  | SOCKET_TYPE_CONNECTED | SOCKET_TYPE_HALFCLOSE | SOCKET_TYPE_PACCEPT | SOCKET_TYPE_BIND

datatype priority = PRIORITY_HIGH | PRIORITY_LOW

definition HASH_ID :: "int \<Rightarrow> nat" where
  "HASH_ID i = unat (word_of_int i :: u32) mod MAX_SOCKET"

definition PROTOCOL_TCP :: u8 where "PROTOCOL_TCP = 0"
definition PROTOCOL_UDP :: u8 where "PROTOCOL_UDP = 1"
definition PROTOCOL_UDPv6 :: u8 where "PROTOCOL_UDPv6 = 2"

record write_buffer =
  wb_buffer :: ptr
  wb_ptr :: ptr
  wb_bytes :: "u8 list"
  userobject :: bool
  wb_address :: "u8 list"

text \<open>The union \<open>p\<close> is two fields: the first is used by TCP sockets, the second by UDP sockets.\<close>

record socket =
  sk_opaque :: u32
  sk_high :: "write_buffer list"
  sk_low :: "write_buffer list"
  wb_size :: int
  sk_fd :: int
  sk_id :: int
  sk_protocol :: u8
  sk_type :: socket_type
  p_size :: int
  p_address :: "u8 list"

text \<open>
  A package to send: the object \<open>rs_buffer\<close>, and for a user object (a negative size) the address that its interface
  gives; \<open>rs_bytes\<close> are the bytes there.
\<close>

record request_send =
  rs_id :: int
  rs_buffer :: ptr
  rs_object :: "ptr option"
  rs_bytes :: "u8 list"

datatype request =
    Rq_start int u32
  | Rq_bind int int u32
  | Rq_listen int int u32
  | Rq_close int bool u32
  | Rq_open int string int u32
  | Rq_exit
  | Rq_send priority request_send
  | Rq_send_udp request_send "u8 list"
  | Rq_set_udp int "u8 list"
  | Rq_setopt int int int
  | Rq_udp int int bool u32

record sock_event =
  ev_s :: "nat option"
  ev_read :: bool
  ev_write :: bool

record socket_server =
  alloc_id :: u32
  checkctrl :: bool
  ss_pipe :: "request list"
  ss_ev :: "sock_event list"
  event_index :: nat
  slot :: "nat \<Rightarrow> socket"

datatype result_type = SOCKET_DATA | SOCKET_CLOSE | SOCKET_OPEN | SOCKET_ACCEPT | SOCKET_ERROR | SOCKET_EXIT | SOCKET_UDP

datatype result_data = Null | Static_text string | Received "u8 list"

record socket_message =
  res_id :: int
  res_opaque :: u32
  res_ud :: int
  res_data :: result_data

type_synonym outcome = "(result_type \<times> socket_message) option"

text \<open>Answers of the system.\<close>

datatype io = Moved nat | Eintr | Eagain | Efail string

datatype connect_answer = Not_resolved string | Not_connected string | Connected_now int "string option" | In_progress int

datatype accept_answer = File_limit string | Accept_failed | Accepted int "string option"

datatype sock_effect =
    Sp_add int
  | Sp_del int
  | Sp_write int bool
  | Close_fd int
  | Wrote int "u8 list"
  | Sent_to int "u8 list" "u8 list option"
  | Free_buffer ptr
  | Free_object ptr
  | Set_opt int int int
  | Print string

definition set_socket :: "nat \<Rightarrow> socket \<Rightarrow> socket_server \<Rightarrow> socket_server" where
  "set_socket i s ss = ss\<lparr>slot := (slot ss)(i := s)\<rparr>"

definition set_type :: "nat \<Rightarrow> socket_type \<Rightarrow> socket_server \<Rightarrow> socket_server" where
  "set_type i t ss = set_socket i ((slot ss i)\<lparr>sk_type := t\<rparr>) ss"

section \<open>Buffers\<close>

text \<open>The address, the bytes and whether it is a user object.\<close>

definition send_object_init :: "request_send \<Rightarrow> ptr \<times> u8 list \<times> bool" where
  "send_object_init r = (case rs_object r of Some b \<Rightarrow> (b, rs_bytes r, True) | None \<Rightarrow> (rs_buffer r, rs_bytes r, False))"

definition free_func :: "bool \<Rightarrow> ptr \<Rightarrow> sock_effect list" where
  "free_func user p = [if user then Free_object p else Free_buffer p]"

definition write_buffer_free :: "write_buffer \<Rightarrow> sock_effect list" where
  "write_buffer_free b = free_func (userobject b) (wb_buffer b)"

definition free_wb_list :: "write_buffer list \<Rightarrow> sock_effect list" where
  "free_wb_list l = concat (map write_buffer_free l)"

section \<open>Identifiers\<close>

text \<open>
  The counter is a signed number that wraps; a negative value is masked. The exchange of the type succeeds when nobody
  else takes the slot in between.
\<close>

fun reserve_loop :: "nat \<Rightarrow> socket_server \<Rightarrow> socket_server \<times> int" where
  "reserve_loop 0 ss = (ss, -1)"
| "reserve_loop (Suc k) ss =
     (let a = alloc_id ss + 1; a = (if sint a < 0 then a AND 0x7fffffff else a); i = sint a; s = slot ss (HASH_ID i); ss = ss\<lparr>alloc_id := a\<rparr> in
      if sk_type s = SOCKET_TYPE_INVALID
      then (set_socket (HASH_ID i) (s\<lparr>sk_type := SOCKET_TYPE_RESERVE, sk_id := i, sk_fd := -1\<rparr>) ss, i)
      else reserve_loop k ss)"

definition reserve_id :: "socket_server \<Rightarrow> socket_server \<times> int" where
  "reserve_id ss = reserve_loop MAX_SOCKET ss"

definition clear_wb_list :: "write_buffer list" where
  "clear_wb_list = []"

text \<open>\<open>cell\<close> is what the allocation leaves in the fields that are not initialised.\<close>

definition socket_server_create :: "(nat \<Rightarrow> socket) \<Rightarrow> socket_server" where
  "socket_server_create cell =
     \<lparr>alloc_id = 0, checkctrl = True, ss_pipe = [], ss_ev = [], event_index = 0,
      slot = (\<lambda>i. (cell i)\<lparr>sk_type := SOCKET_TYPE_INVALID, sk_high := clear_wb_list, sk_low := clear_wb_list\<rparr>)\<rparr>"

definition force_close :: "socket_server \<Rightarrow> nat \<Rightarrow> ((socket_server \<times> socket_message) \<times> sock_effect list) res" where
  "force_close ss i =
     (let s = slot ss i; r = \<lparr>res_id = sk_id s, res_opaque = sk_opaque s, res_ud = 0, res_data = Null\<rparr> in
      if sk_type s = SOCKET_TYPE_INVALID then Inr ((ss, r), [])
      else
        andThen (assert_that (sk_type s \<noteq> SOCKET_TYPE_RESERVE)) (\<lambda>_.
          Inr ((set_socket i (s\<lparr>sk_high := [], sk_low := [], sk_type := SOCKET_TYPE_INVALID\<rparr>) ss, r),
            free_wb_list (sk_high s) @ free_wb_list (sk_low s) @
            (if sk_type s \<noteq> SOCKET_TYPE_PACCEPT \<and> sk_type s \<noteq> SOCKET_TYPE_PLISTEN then [Sp_del (sk_fd s)] else []) @
            (if sk_type s \<noteq> SOCKET_TYPE_BIND then [Close_fd (sk_fd s)] else []))))"

fun release_slots :: "nat \<Rightarrow> socket_server \<Rightarrow> (socket_server \<times> sock_effect list) res" where
  "release_slots 0 ss = Inr (ss, [])"
| "release_slots (Suc k) ss =
     thenOut (release_slots k ss) (\<lambda>ss.
       if sk_type (slot ss k) \<noteq> SOCKET_TYPE_RESERVE
       then andThen (force_close ss k) (\<lambda>((ss, _), out). Inr (ss, out))
       else Inr (ss, []))"

definition socket_server_release :: "socket_server \<Rightarrow> (socket_server \<times> sock_effect list) res" where
  "socket_server_release ss = release_slots MAX_SOCKET ss"

definition check_wb_list :: "write_buffer list \<Rightarrow> unit res" where
  "check_wb_list l = assert_that (l = [])"

text \<open>\<open>full\<close>: the event poll refuses the descriptor. The result is the index of the slot, or \<open>None\<close>.\<close>

definition new_fd ::
  "bool \<Rightarrow> socket_server \<Rightarrow> int \<Rightarrow> int \<Rightarrow> u8 \<Rightarrow> u32 \<Rightarrow> bool \<Rightarrow> ((socket_server \<times> nat option) \<times> sock_effect list) res" where
  "new_fd full ss i fd proto opaque add =
     (let k = HASH_ID i; s = slot ss k in
      andThen (assert_that (sk_type s = SOCKET_TYPE_RESERVE)) (\<lambda>_.
      if add \<and> full then Inr ((set_type k SOCKET_TYPE_INVALID ss, None), [])
      else
        let s' = s\<lparr>sk_id := i, sk_fd := fd, sk_protocol := proto, p_size := MIN_READ_BUFFER, sk_opaque := opaque, wb_size := 0\<rparr> in
        andThen (check_wb_list (sk_high s')) (\<lambda>_.
        andThen (check_wb_list (sk_low s')) (\<lambda>_.
          Inr ((set_socket k s' ss, Some k), if add then [Sp_add fd] else [])))))"

definition open_socket :: "bool \<Rightarrow> connect_answer \<Rightarrow> socket_server \<Rightarrow> int \<Rightarrow> u32 \<Rightarrow> ((socket_server \<times> outcome) \<times> sock_effect list) res" where
  "open_socket full ans ss i opaque =
     (let r = \<lparr>res_id = i, res_opaque = opaque, res_ud = 0, res_data = Null\<rparr>;
          failed = (\<lambda>ss t. (set_type (HASH_ID i) SOCKET_TYPE_INVALID ss, Some (SOCKET_ERROR, r\<lparr>res_data := Static_text t\<rparr>)));
          opened = (\<lambda>fd go. andThen (new_fd full ss i fd PROTOCOL_TCP opaque True) (\<lambda>((ss, ns), out).
             case ns of
               None \<Rightarrow> Inr (failed ss ''reach skynet socket number limit'', out @ [Close_fd fd])
             | Some k \<Rightarrow> (case go ss k of (t, out') \<Rightarrow> Inr (t, out @ out'))))
      in case ans of
           Not_resolved t \<Rightarrow> Inr (failed ss t, [])
         | Not_connected t \<Rightarrow> Inr (failed ss t, [])
         | Connected_now fd addr \<Rightarrow>
             opened fd (\<lambda>ss k. ((set_type k SOCKET_TYPE_CONNECTED ss,
               Some (SOCKET_OPEN, case addr of None \<Rightarrow> r | Some a \<Rightarrow> r\<lparr>res_data := Static_text a\<rparr>)), []))
         | In_progress fd \<Rightarrow> opened fd (\<lambda>ss k. ((set_type k SOCKET_TYPE_CONNECTING ss, None), [Sp_write fd True])))"

section \<open>Writing\<close>

text \<open>
  The loop of \<open>send_list_tcp\<close>: the answers and buffers that are left, \<open>wb_size\<close>, and the failure of a write. \<^verbatim>\<open>write\<close>
  takes at most as many bytes as it is given.
\<close>

fun write_loop :: "io list \<Rightarrow> int \<Rightarrow> write_buffer list \<Rightarrow> int \<Rightarrow> (io list \<times> write_buffer list \<times> int \<times> bool) \<times> sock_effect list" where
  "write_loop ws fd [] n = ((ws, [], n, False), [])"
| "write_loop [] fd (b # bs) n = (([], b # bs, n, False), [])"
| "write_loop (w # ws) fd (b # bs) n =
     (case w of
        Eintr \<Rightarrow> write_loop ws fd (b # bs) n
      | Eagain \<Rightarrow> ((ws, b # bs, n, False), [])
      | Efail _ \<Rightarrow> ((ws, b # bs, n, True), [])
      | Moved k \<Rightarrow>
          let z = min k (length (wb_bytes b)) in
          if z \<noteq> length (wb_bytes b)
          then ((ws, b\<lparr>wb_ptr := wb_ptr b + of_nat z, wb_bytes := drop z (wb_bytes b)\<rparr> # bs, n - int z, False), [Wrote fd (take z (wb_bytes b))])
          else case write_loop ws fd bs (n - int z) of (r, out) \<Rightarrow> (r, Wrote fd (wb_bytes b) # write_buffer_free b @ out))"

text \<open>The address for \<^verbatim>\<open>sendto\<close>: none when it belongs to another protocol.\<close>

definition udp_socket_address :: "socket \<Rightarrow> u8 list \<Rightarrow> u8 list option" where
  "udp_socket_address s addr =
     (if addr ! 0 \<noteq> sk_protocol s then None
      else if sk_protocol s = PROTOCOL_UDP then Some (take 6 (drop 1 addr))
      else if sk_protocol s = PROTOCOL_UDPv6 then Some (take 18 (drop 1 addr))
      else None)"

text \<open>The loop of \<open>send_list_udp\<close>: after an error the rest stays.\<close>

fun sendto_loop :: "io list \<Rightarrow> socket \<Rightarrow> write_buffer list \<Rightarrow> int \<Rightarrow> (io list \<times> write_buffer list \<times> int) \<times> sock_effect list" where
  "sendto_loop ws s [] n = ((ws, [], n), [])"
| "sendto_loop [] s (b # bs) n = (([], b # bs, n), [])"
| "sendto_loop (w # ws) s (b # bs) n =
     (case w of
        Moved _ \<Rightarrow>
          (case sendto_loop ws s bs (n - int (length (wb_bytes b))) of
             (r, out) \<Rightarrow> (r, Sent_to (sk_fd s) (wb_bytes b) (udp_socket_address s (wb_address b)) # write_buffer_free b @ out))
      | Efail _ \<Rightarrow> ((ws, b # bs, n), [Print ''socket-server : udp (%d) sendto error %s.''])
      | _ \<Rightarrow> ((ws, b # bs, n), []))"

definition wb_list :: "priority \<Rightarrow> socket \<Rightarrow> write_buffer list" where
  "wb_list pri s = (case pri of PRIORITY_HIGH \<Rightarrow> sk_high s | PRIORITY_LOW \<Rightarrow> sk_low s)"

definition set_wb_list :: "priority \<Rightarrow> write_buffer list \<Rightarrow> socket \<Rightarrow> socket" where
  "set_wb_list pri l s = (case pri of PRIORITY_HIGH \<Rightarrow> s\<lparr>sk_high := l\<rparr> | PRIORITY_LOW \<Rightarrow> s\<lparr>sk_low := l\<rparr>)"

definition send_list_tcp ::
  "io list \<Rightarrow> socket_server \<Rightarrow> nat \<Rightarrow> priority \<Rightarrow> ((io list \<times> socket_server \<times> outcome) \<times> sock_effect list) res" where
  "send_list_tcp ws ss i pri =
     (let s = slot ss i in
      case write_loop ws (sk_fd s) (wb_list pri s) (wb_size s) of ((ws', l, n, failed), out) \<Rightarrow>
        let ss' = set_socket i (set_wb_list pri l (s\<lparr>wb_size := n\<rparr>)) ss in
        if failed then andThen (force_close ss' i) (\<lambda>((ss, r), out'). Inr ((ws', ss, Some (SOCKET_CLOSE, r)), out @ out'))
        else Inr ((ws', ss', None), out))"

definition send_list_udp ::
  "io list \<Rightarrow> socket_server \<Rightarrow> nat \<Rightarrow> priority \<Rightarrow> ((io list \<times> socket_server \<times> outcome) \<times> sock_effect list) res" where
  "send_list_udp ws ss i pri =
     (let s = slot ss i in
      case sendto_loop ws s (wb_list pri s) (wb_size s) of ((ws', l, n), out) \<Rightarrow>
        Inr ((ws', set_socket i (set_wb_list pri l (s\<lparr>wb_size := n\<rparr>)) ss, None), out))"

definition send_list ::
  "io list \<Rightarrow> socket_server \<Rightarrow> nat \<Rightarrow> priority \<Rightarrow> ((io list \<times> socket_server \<times> outcome) \<times> sock_effect list) res" where
  "send_list ws ss i pri = (if sk_protocol (slot ss i) = PROTOCOL_TCP then send_list_tcp ws ss i pri else send_list_udp ws ss i pri)"

definition list_uncomplete :: "write_buffer list \<Rightarrow> bool" where
  "list_uncomplete l = (case l of [] \<Rightarrow> False | b # _ \<Rightarrow> wb_ptr b \<noteq> wb_buffer b)"

definition raise_uncomplete :: "socket \<Rightarrow> socket res" where
  "raise_uncomplete s =
     (case sk_low s of
        [] \<Rightarrow> Inl Bad_pointer
      | tmp # rest \<Rightarrow> andThen (assert_that (sk_high s = [])) (\<lambda>_. Inr (s\<lparr>sk_low := rest, sk_high := [tmp]\<rparr>)))"

definition send_buffer :: "io list \<Rightarrow> socket_server \<Rightarrow> nat \<Rightarrow> ((socket_server \<times> outcome) \<times> sock_effect list) res" where
  "send_buffer ws ss i =
     andThen (assert_that (\<not> list_uncomplete (sk_low (slot ss i)))) (\<lambda>_.
     thenOut (send_list ws ss i PRIORITY_HIGH) (\<lambda>(ws, ss, r).
     if r \<noteq> None then Inr ((ss, r), [])
     else if sk_high (slot ss i) \<noteq> [] then Inr ((ss, None), [])
     else if sk_low (slot ss i) \<noteq> [] then
       thenOut (send_list ws ss i PRIORITY_LOW) (\<lambda>(ws, ss, r).
       if r \<noteq> None then Inr ((ss, r), [])
       else if list_uncomplete (sk_low (slot ss i))
       then andThen (raise_uncomplete (slot ss i)) (\<lambda>s. Inr ((set_socket i s ss, None), []))
       else Inr ((ss, None), []))
     else
       andThen (if sk_type (slot ss i) = SOCKET_TYPE_HALFCLOSE
                then andThen (force_close ss i) (\<lambda>((ss, r), out). Inr ((ss, Some (SOCKET_CLOSE, r)), out))
                else Inr ((ss, None), []))
         (\<lambda>(t, out). Inr (t, Sp_write (sk_fd (slot ss i)) False # out))))"

definition append_sendbuffer_any :: "write_buffer list \<Rightarrow> request_send \<Rightarrow> nat \<Rightarrow> u8 list \<Rightarrow> write_buffer list" where
  "append_sendbuffer_any l r n addr =
     (case send_object_init r of (start, bytes, user) \<Rightarrow>
        l @ [\<lparr>wb_buffer = rs_buffer r, wb_ptr = start + of_nat n, wb_bytes = drop n bytes, userobject = user, wb_address = addr\<rparr>])"

definition append_sendbuffer_udp :: "socket \<Rightarrow> priority \<Rightarrow> request_send \<Rightarrow> u8 list \<Rightarrow> socket" where
  "append_sendbuffer_udp s pri r addr =
     (set_wb_list pri (append_sendbuffer_any (wb_list pri s) r 0 (take UDP_ADDRESS_SIZE addr)) s)\<lparr>wb_size := wb_size s + int (length (rs_bytes r))\<rparr>"

definition append_sendbuffer :: "socket \<Rightarrow> request_send \<Rightarrow> nat \<Rightarrow> socket" where
  "append_sendbuffer s r n =
     s\<lparr>sk_high := append_sendbuffer_any (sk_high s) r n [], wb_size := wb_size s + int (length (drop n (rs_bytes r)))\<rparr>"

definition append_sendbuffer_low :: "socket \<Rightarrow> request_send \<Rightarrow> socket" where
  "append_sendbuffer_low s r =
     s\<lparr>sk_low := append_sendbuffer_any (sk_low s) r 0 [], wb_size := wb_size s + int (length (rs_bytes r))\<rparr>"

definition send_buffer_empty :: "socket \<Rightarrow> bool" where
  "send_buffer_empty s \<longleftrightarrow> sk_high s = [] \<and> sk_low s = []"


text \<open>\<open>send_socket\<close>; \<open>addr\<close> is the address of a package for UDP, if it has its own.\<close>

definition send_socket ::
  "io list \<Rightarrow> socket_server \<Rightarrow> request_send \<Rightarrow> priority \<Rightarrow> u8 list option \<Rightarrow> ((socket_server \<times> outcome) \<times> sock_effect list) res" where
  "send_socket ws ss r pri addr =
     (let k = HASH_ID (rs_id r); s = slot ss k; (start, bytes, user) = send_object_init r; free = free_func user (rs_buffer r);
          w = (case ws of [] \<Rightarrow> Eagain | w # _ \<Rightarrow> w); to = (case addr of None \<Rightarrow> p_address s | Some a \<Rightarrow> a) in
      if sk_type s = SOCKET_TYPE_INVALID \<or> sk_id s \<noteq> rs_id r \<or> sk_type s = SOCKET_TYPE_HALFCLOSE \<or> sk_type s = SOCKET_TYPE_PACCEPT
      then Inr ((ss, None), free)
      else if sk_type s = SOCKET_TYPE_PLISTEN \<or> sk_type s = SOCKET_TYPE_LISTEN
      then Inr ((ss, None), Print ''socket-server: write to listen fd %d.'' # free)
      else if send_buffer_empty s \<and> sk_type s = SOCKET_TYPE_CONNECTED then
        if sk_protocol s = PROTOCOL_TCP then
          case w of
            Efail _ \<Rightarrow>
              andThen (force_close ss k) (\<lambda>((ss, m), out).
                Inr ((ss, Some (SOCKET_CLOSE, m)), Print ''socket-server: write to %d (fd=%d) error :%s.'' # out @ free))
          | _ \<Rightarrow>
              let n = (case w of Moved z \<Rightarrow> min z (length bytes) | _ \<Rightarrow> 0);
                  wrote = (case w of Moved _ \<Rightarrow> [Wrote (sk_fd s) (take n bytes)] | _ \<Rightarrow> []) in
              if n = length bytes then Inr ((ss, None), wrote @ free)
              else Inr ((set_socket k (append_sendbuffer s r n) ss, None), wrote @ [Sp_write (sk_fd s) True])
        else
          let sent = (case w of Moved _ \<Rightarrow> [Sent_to (sk_fd s) bytes (udp_socket_address s to)] | _ \<Rightarrow> []) in
          if w \<noteq> Moved (length bytes)
          then Inr ((set_socket k (append_sendbuffer_udp s pri r to) ss, None), sent @ [Sp_write (sk_fd s) True])
          else Inr ((ss, None), sent @ free)
      else if sk_protocol s = PROTOCOL_TCP then
        Inr ((set_socket k (if pri = PRIORITY_LOW then append_sendbuffer_low s r else append_sendbuffer s r 0) ss, None), [])
      else Inr ((set_socket k (append_sendbuffer_udp s pri r to) ss, None), []))"

section \<open>Requests\<close>

definition listen_socket :: "socket_server \<Rightarrow> int \<Rightarrow> int \<Rightarrow> u32 \<Rightarrow> ((socket_server \<times> outcome) \<times> sock_effect list) res" where
  "listen_socket ss i fd opaque =
     andThen (new_fd False ss i fd PROTOCOL_TCP opaque False) (\<lambda>((ss, ns), out).
     case ns of
       Some k \<Rightarrow> Inr ((set_type k SOCKET_TYPE_PLISTEN ss, None), out)
     | None \<Rightarrow> Inr ((set_type (HASH_ID i) SOCKET_TYPE_INVALID ss,
         Some (SOCKET_ERROR, \<lparr>res_id = i, res_opaque = opaque, res_ud = 0, res_data = Static_text ''reach skynet socket number limit''\<rparr>)), out @ [Close_fd fd]))"

definition close_socket :: "io list \<Rightarrow> socket_server \<Rightarrow> int \<Rightarrow> bool \<Rightarrow> u32 \<Rightarrow> ((socket_server \<times> outcome) \<times> sock_effect list) res" where
  "close_socket ws ss i shutdown opaque =
     (let k = HASH_ID i; s = slot ss k; r = \<lparr>res_id = i, res_opaque = opaque, res_ud = 0, res_data = Null\<rparr> in
      if sk_type s = SOCKET_TYPE_INVALID \<or> sk_id s \<noteq> i then Inr ((ss, Some (SOCKET_CLOSE, r)), [])
      else
        thenOut (if send_buffer_empty s then Inr ((ss, None), []) else send_buffer ws ss k) (\<lambda>(ss, t).
        if t \<noteq> None then Inr ((ss, t), [])
        else if shutdown \<or> send_buffer_empty (slot ss k)
        then andThen (force_close ss k) (\<lambda>((ss, m), out). Inr ((ss, Some (SOCKET_CLOSE, m\<lparr>res_id := i, res_opaque := opaque\<rparr>)), out))
        else Inr ((set_type k SOCKET_TYPE_HALFCLOSE ss, None), [])))"

definition bind_socket :: "bool \<Rightarrow> socket_server \<Rightarrow> int \<Rightarrow> int \<Rightarrow> u32 \<Rightarrow> ((socket_server \<times> outcome) \<times> sock_effect list) res" where
  "bind_socket full ss i fd opaque =
     (let r = \<lparr>res_id = i, res_opaque = opaque, res_ud = 0, res_data = Null\<rparr> in
      andThen (new_fd full ss i fd PROTOCOL_TCP opaque True) (\<lambda>((ss, ns), out).
      case ns of
        None \<Rightarrow> Inr ((ss, Some (SOCKET_ERROR, r\<lparr>res_data := Static_text ''reach skynet socket number limit''\<rparr>)), out)
      | Some k \<Rightarrow> Inr ((set_type k SOCKET_TYPE_BIND ss, Some (SOCKET_OPEN, r\<lparr>res_data := Static_text ''binding''\<rparr>)), out)))"

definition start_socket :: "bool \<Rightarrow> string \<Rightarrow> socket_server \<Rightarrow> int \<Rightarrow> u32 \<Rightarrow> ((socket_server \<times> outcome) \<times> sock_effect list) res" where
  "start_socket full err ss i opaque =
     (let k = HASH_ID i; s = slot ss k; r = \<lparr>res_id = i, res_opaque = opaque, res_ud = 0, res_data = Null\<rparr> in
      if sk_type s = SOCKET_TYPE_INVALID \<or> sk_id s \<noteq> i then Inr ((ss, Some (SOCKET_ERROR, r\<lparr>res_data := Static_text ''invalid socket''\<rparr>)), [])
      else if sk_type s = SOCKET_TYPE_PACCEPT \<or> sk_type s = SOCKET_TYPE_PLISTEN then
        if full then andThen (force_close ss k) (\<lambda>((ss, m), out). Inr ((ss, Some (SOCKET_ERROR, m\<lparr>res_data := Static_text err\<rparr>)), out))
        else Inr ((set_socket k (s\<lparr>sk_type := (if sk_type s = SOCKET_TYPE_PACCEPT then SOCKET_TYPE_CONNECTED else SOCKET_TYPE_LISTEN),
               sk_opaque := opaque\<rparr>) ss, Some (SOCKET_OPEN, r\<lparr>res_data := Static_text ''start''\<rparr>)), [Sp_add (sk_fd s)])
      else if sk_type s = SOCKET_TYPE_CONNECTED
      then Inr ((set_socket k (s\<lparr>sk_opaque := opaque\<rparr>) ss, Some (SOCKET_OPEN, r\<lparr>res_data := Static_text ''transfer''\<rparr>)), [])
      else Inr ((ss, None), []))"

definition setopt_socket :: "socket_server \<Rightarrow> int \<Rightarrow> int \<Rightarrow> int \<Rightarrow> sock_effect list" where
  "setopt_socket ss i what val =
     (let s = slot ss (HASH_ID i) in
      if sk_type s = SOCKET_TYPE_INVALID \<or> sk_id s \<noteq> i then [] else [Set_opt (sk_fd s) what val])"

definition add_udp_socket :: "bool \<Rightarrow> socket_server \<Rightarrow> int \<Rightarrow> int \<Rightarrow> bool \<Rightarrow> u32 \<Rightarrow> (socket_server \<times> sock_effect list) res" where
  "add_udp_socket full ss i fd v6 opaque =
     andThen (new_fd full ss i fd (if v6 then PROTOCOL_UDPv6 else PROTOCOL_UDP) opaque True) (\<lambda>((ss, ns), out).
     case ns of
       None \<Rightarrow> Inr (set_type (HASH_ID i) SOCKET_TYPE_INVALID ss, out @ [Close_fd fd])
     | Some k \<Rightarrow> Inr (set_socket k ((slot ss k)\<lparr>sk_type := SOCKET_TYPE_CONNECTED, p_address := replicate UDP_ADDRESS_SIZE 0\<rparr>) ss, out))"

definition set_udp_address :: "socket_server \<Rightarrow> int \<Rightarrow> u8 list \<Rightarrow> socket_server \<times> outcome" where
  "set_udp_address ss i addr =
     (let k = HASH_ID i; s = slot ss k in
      if sk_type s = SOCKET_TYPE_INVALID \<or> sk_id s \<noteq> i then (ss, None)
      else if addr ! 0 \<noteq> sk_protocol s
      then (ss, Some (SOCKET_ERROR, \<lparr>res_id = sk_id s, res_opaque = sk_opaque s, res_ud = 0, res_data = Static_text ''protocol mismatch''\<rparr>))
      else
        let n = (if addr ! 0 = PROTOCOL_UDP then 1 + 2 + 4 else 1 + 2 + 16) in
        (set_socket k (s\<lparr>p_address := take n addr @ drop n (p_address s)\<rparr>) ss, None))"

text \<open>Answers of the system in a turn of the loop.\<close>

datatype read_answer = Read_bytes "u8 list" | Read_eintr | Read_again | Read_error string

datatype recv_answer = Datagram "u8 list" bool "u8 list" | Recv_again | Recv_error string

record sys =
  sys_io :: "io list"
  sys_full :: bool
  sys_err :: string
  sys_connect :: connect_answer
  sys_read :: read_answer
  sys_recv :: recv_answer
  sys_sockerr :: "string option"
  sys_peer :: "string option"
  sys_accept :: accept_answer
  sys_wait :: "sock_event list"

definition ctrl_cmd :: "sys \<Rightarrow> socket_server \<Rightarrow> request \<Rightarrow> ((socket_server \<times> outcome) \<times> sock_effect list) res" where
  "ctrl_cmd sy ss rq =
     (case rq of
        Rq_start i opaque \<Rightarrow> start_socket (sys_full sy) (sys_err sy) ss i opaque
      | Rq_bind i fd opaque \<Rightarrow> bind_socket (sys_full sy) ss i fd opaque
      | Rq_listen i fd opaque \<Rightarrow> listen_socket ss i fd opaque
      | Rq_close i shutdown opaque \<Rightarrow> close_socket (sys_io sy) ss i shutdown opaque
      | Rq_open i host port opaque \<Rightarrow> open_socket (sys_full sy) (sys_connect sy) ss i opaque
      | Rq_exit \<Rightarrow> Inr ((ss, Some (SOCKET_EXIT, \<lparr>res_id = 0, res_opaque = 0, res_ud = 0, res_data = Null\<rparr>)), [])
      | Rq_send pri r \<Rightarrow> send_socket (sys_io sy) ss r pri None
      | Rq_send_udp r addr \<Rightarrow> send_socket (sys_io sy) ss r PRIORITY_HIGH (Some addr)
      | Rq_set_udp i addr \<Rightarrow> Inr (set_udp_address ss i addr, [])
      | Rq_setopt i what val \<Rightarrow> Inr ((ss, None), setopt_socket ss i what val)
      | Rq_udp i fd v6 opaque \<Rightarrow> andThen (add_udp_socket (sys_full sy) ss i fd v6 opaque) (\<lambda>(ss, out). Inr ((ss, None), out)))"

section \<open>Events\<close>

definition forward_message_tcp :: "read_answer \<Rightarrow> socket_server \<Rightarrow> nat \<Rightarrow> ((socket_server \<times> outcome) \<times> sock_effect list) res" where
  "forward_message_tcp ans ss i =
     (let s = slot ss i; z = p_size s in
      case ans of
        Read_eintr \<Rightarrow> Inr ((ss, None), [])
      | Read_again \<Rightarrow> Inr ((ss, None), [Print ''socket-server: EAGAIN capture.''])
      | Read_error t \<Rightarrow> andThen (force_close ss i) (\<lambda>((ss, m), out). Inr ((ss, Some (SOCKET_ERROR, m\<lparr>res_data := Static_text t\<rparr>)), out))
      | Read_bytes bs \<Rightarrow>
          if bs = [] then andThen (force_close ss i) (\<lambda>((ss, m), out). Inr ((ss, Some (SOCKET_CLOSE, m)), out))
          else if sk_type s = SOCKET_TYPE_HALFCLOSE then Inr ((ss, None), [])
          else
            let z' = (if int (length bs) = z then z * 2 else if MIN_READ_BUFFER < z \<and> int (length bs) * 2 < z then z div 2 else z) in
            Inr ((set_socket i (s\<lparr>p_size := z'\<rparr>) ss,
              Some (SOCKET_DATA, \<lparr>res_id = sk_id s, res_opaque = sk_opaque s, res_ud = int (length bs), res_data = Received bs\<rparr>)), []))"

text \<open>The address of a datagram: protocol, port and address as in the socket address.\<close>

definition gen_udp_address :: "u8 \<Rightarrow> u8 list \<Rightarrow> u8 list" where
  "gen_udp_address proto addr = proto # take (if proto = PROTOCOL_UDP then 2 + 4 else 2 + 16) addr"

definition forward_message_udp :: "recv_answer \<Rightarrow> socket_server \<Rightarrow> nat \<Rightarrow> ((socket_server \<times> outcome) \<times> sock_effect list) res" where
  "forward_message_udp ans ss i =
     (let s = slot ss i in
      case ans of
        Recv_again \<Rightarrow> Inr ((ss, None), [])
      | Recv_error t \<Rightarrow> andThen (force_close ss i) (\<lambda>((ss, m), out). Inr ((ss, Some (SOCKET_ERROR, m\<lparr>res_data := Static_text t\<rparr>)), out))
      | Datagram bs v4 addr \<Rightarrow>
          let proto = (if v4 then PROTOCOL_UDP else PROTOCOL_UDPv6) in
          if sk_protocol s \<noteq> proto then Inr ((ss, None), [])
          else Inr ((ss, Some (SOCKET_UDP, \<lparr>res_id = sk_id s, res_opaque = sk_opaque s, res_ud = int (length bs),
                 res_data = Received (bs @ gen_udp_address proto addr)\<rparr>)), []))"

definition report_connect :: "string option \<Rightarrow> string option \<Rightarrow> socket_server \<Rightarrow> nat \<Rightarrow> ((socket_server \<times> outcome) \<times> sock_effect list) res" where
  "report_connect err peer ss i =
     (let s = slot ss i in
      case err of
        Some t \<Rightarrow> andThen (force_close ss i) (\<lambda>((ss, m), out). Inr ((ss, Some (SOCKET_ERROR, m\<lparr>res_data := Static_text t\<rparr>)), out))
      | None \<Rightarrow>
          Inr ((set_type i SOCKET_TYPE_CONNECTED ss, Some (SOCKET_OPEN, \<lparr>res_id = sk_id s, res_opaque = sk_opaque s, res_ud = 0,
                 res_data = (case peer of None \<Rightarrow> Null | Some a \<Rightarrow> Static_text a)\<rparr>)),
               if send_buffer_empty s then [Sp_write (sk_fd s) False] else []))"

text \<open>The results \<open>SOCKET_ACCEPT\<close> for 1, \<open>SOCKET_ERROR\<close> for -1 and none for 0.\<close>

definition report_accept :: "accept_answer \<Rightarrow> socket_server \<Rightarrow> nat \<Rightarrow> ((socket_server \<times> outcome) \<times> sock_effect list) res" where
  "report_accept ans ss i =
     (let s = slot ss i in
      case ans of
        File_limit t \<Rightarrow> Inr ((ss, Some (SOCKET_ERROR, \<lparr>res_id = sk_id s, res_opaque = sk_opaque s, res_ud = 0, res_data = Static_text t\<rparr>)), [])
      | Accept_failed \<Rightarrow> Inr ((ss, None), [])
      | Accepted fd peer \<Rightarrow>
          (case reserve_id ss of (ss, j) \<Rightarrow>
             if j < 0 then Inr ((ss, None), [Close_fd fd])
             else
               andThen (new_fd False ss j fd PROTOCOL_TCP (sk_opaque s) False) (\<lambda>((ss, ns), out).
               case ns of
                 None \<Rightarrow> Inr ((ss, None), out @ [Close_fd fd])
               | Some k \<Rightarrow> Inr ((set_type k SOCKET_TYPE_PACCEPT ss, Some (SOCKET_ACCEPT, \<lparr>res_id = sk_id s, res_opaque = sk_opaque s, res_ud = j,
                     res_data = (case peer of None \<Rightarrow> Null | Some a \<Rightarrow> Static_text a)\<rparr>)), out))))"

fun clear_first :: "(nat \<Rightarrow> bool) \<Rightarrow> sock_event list \<Rightarrow> sock_event list" where
  "clear_first f [] = []"
| "clear_first f (e # es) = (case ev_s e of Some i \<Rightarrow> if f i then e\<lparr>ev_s := None\<rparr> # es else e # clear_first f es | None \<Rightarrow> e # clear_first f es)"

definition clear_closed_event :: "socket_server \<Rightarrow> result_type \<Rightarrow> socket_message \<Rightarrow> socket_server" where
  "clear_closed_event ss t m =
     (if t = SOCKET_CLOSE \<or> t = SOCKET_ERROR
      then ss\<lparr>ss_ev := take (event_index ss) (ss_ev ss) @
             clear_first (\<lambda>i. sk_type (slot ss i) = SOCKET_TYPE_INVALID \<and> sk_id (slot ss i) = res_id m) (drop (event_index ss) (ss_ev ss))\<rparr>
      else ss)"

text \<open>An event of a socket whose type is not special; a socket that can be read and written is looked at twice.\<close>

definition socket_event :: "sys \<Rightarrow> socket_server \<Rightarrow> nat \<Rightarrow> sock_event \<Rightarrow> ((socket_server \<times> outcome) \<times> sock_effect list) res" where
  "socket_event sy ss i e =
     (if ev_read e then
        andThen (if sk_protocol (slot ss i) = PROTOCOL_TCP then forward_message_tcp (sys_read sy) ss i else forward_message_udp (sys_recv sy) ss i)
          (\<lambda>((ss, t), out).
             let k = event_index ss - 1; ty = map_option fst t in
             if ty = Some SOCKET_UDP then Inr ((ss\<lparr>event_index := k\<rparr>, t), out)
             else if ev_write e \<and> ty \<noteq> Some SOCKET_CLOSE \<and> ty \<noteq> Some SOCKET_ERROR
             then Inr ((ss\<lparr>ss_ev := (ss_ev ss)[k := e\<lparr>ev_read := False\<rparr>], event_index := k\<rparr>, t), out)
             else Inr ((ss, t), out))
      else if ev_write e then send_buffer (sys_io sy) ss i
      else Inr ((ss, None), []))"

definition MAX_EVENT :: nat where "MAX_EVENT = 64"

text \<open>A turn of the loop goes on or returns.\<close>

datatype poll_result = Poll_again | Poll_return outcome

definition again_or :: "(socket_server \<times> outcome) \<times> sock_effect list \<Rightarrow> (socket_server \<times> poll_result) \<times> sock_effect list" where
  "again_or x = (case x of ((ss, t), out) \<Rightarrow> ((ss, if t = None then Poll_again else Poll_return t), out))"

definition poll_event :: "sys \<Rightarrow> socket_server \<Rightarrow> ((socket_server \<times> poll_result) \<times> sock_effect list) res" where
  "poll_event sy ss =
     (let ss = (if event_index ss = length (ss_ev ss)
                then ss\<lparr>ss_ev := take MAX_EVENT (sys_wait sy), checkctrl := True, event_index := 0\<rparr> else ss) in
      if ss_ev ss = [] then Inr ((ss, Poll_return None), [])
      else
        let e = ss_ev ss ! event_index ss; ss = ss\<lparr>event_index := event_index ss + 1\<rparr> in
        case ev_s e of
          None \<Rightarrow> Inr ((ss, Poll_again), [])
        | Some i \<Rightarrow>
            andThen (case sk_type (slot ss i) of
                       SOCKET_TYPE_CONNECTING \<Rightarrow> report_connect (sys_sockerr sy) (sys_peer sy) ss i
                     | SOCKET_TYPE_LISTEN \<Rightarrow> report_accept (sys_accept sy) ss i
                     | SOCKET_TYPE_INVALID \<Rightarrow> Inr ((ss, None), [Print ''socket-server: invalid socket''])
                     | _ \<Rightarrow> socket_event sy ss i e) (\<lambda>x. Inr (again_or x)))"

definition poll_turn :: "sys \<Rightarrow> socket_server \<Rightarrow> ((socket_server \<times> poll_result) \<times> sock_effect list) res" where
  "poll_turn sy ss =
     (if checkctrl ss then
        (case ss_pipe ss of
           [] \<Rightarrow> poll_event sy (ss\<lparr>checkctrl := False\<rparr>)
         | rq # rest \<Rightarrow>
             andThen (ctrl_cmd sy (ss\<lparr>ss_pipe := rest\<rparr>) rq) (\<lambda>((ss, t), out).
             case t of
               None \<Rightarrow> Inr ((ss, Poll_again), out)
             | Some (ty, m) \<Rightarrow> Inr ((clear_closed_event ss ty m, Poll_return t), out)))
      else poll_event sy ss)"

text \<open>The loop, over the answers of the system in its turns.\<close>

fun socket_server_poll :: "sys list \<Rightarrow> socket_server \<Rightarrow> ((socket_server \<times> outcome) \<times> sock_effect list) res" where
  "socket_server_poll [] ss = Inl Out_of_fuel"
| "socket_server_poll (sy # sys) ss =
     thenOut (poll_turn sy ss) (\<lambda>(ss, r). case r of Poll_again \<Rightarrow> socket_server_poll sys ss | Poll_return t \<Rightarrow> Inr ((ss, t), []))"

section \<open>Calls of services\<close>

definition send_request :: "socket_server \<Rightarrow> request \<Rightarrow> socket_server" where
  "send_request ss rq = ss\<lparr>ss_pipe := ss_pipe ss @ [rq]\<rparr>"

text \<open>The size of \<open>struct request_open\<close> is 24 bytes.\<close>

definition open_request :: "socket_server \<Rightarrow> string \<Rightarrow> socket_server \<times> int" where
  "open_request ss addr = (if 256 \<le> length addr + 24 then (ss, -1) else reserve_id ss)"

definition socket_server_connect :: "socket_server \<Rightarrow> u32 \<Rightarrow> string \<Rightarrow> int \<Rightarrow> socket_server \<times> int" where
  "socket_server_connect ss opaque addr port =
     (case open_request ss addr of (ss, i) \<Rightarrow> if i < 0 then (ss, -1) else (send_request ss (Rq_open i addr port opaque), i))"

definition socket_free_buffer :: "request_send \<Rightarrow> sock_effect list" where
  "socket_free_buffer r = (case send_object_init r of (_, _, user) \<Rightarrow> free_func user (rs_buffer r))"

definition send_checked :: "socket_server \<Rightarrow> request_send \<Rightarrow> request \<Rightarrow> (socket_server \<times> int) \<times> sock_effect list" where
  "send_checked ss r rq =
     (let s = slot ss (HASH_ID (rs_id r)) in
      if sk_id s \<noteq> rs_id r \<or> sk_type s = SOCKET_TYPE_INVALID then ((ss, -1), socket_free_buffer r)
      else ((send_request ss rq, wb_size s), []))"

definition socket_server_send :: "socket_server \<Rightarrow> request_send \<Rightarrow> (socket_server \<times> int) \<times> sock_effect list" where
  "socket_server_send ss r = send_checked ss r (Rq_send PRIORITY_HIGH r)"

definition socket_server_send_lowpriority :: "socket_server \<Rightarrow> request_send \<Rightarrow> socket_server \<times> sock_effect list" where
  "socket_server_send_lowpriority ss r = (case send_checked ss r (Rq_send PRIORITY_LOW r) of ((ss, _), out) \<Rightarrow> (ss, out))"

definition socket_server_exit :: "socket_server \<Rightarrow> socket_server" where
  "socket_server_exit ss = send_request ss Rq_exit"

definition socket_server_close :: "socket_server \<Rightarrow> u32 \<Rightarrow> int \<Rightarrow> socket_server" where
  "socket_server_close ss opaque i = send_request ss (Rq_close i False opaque)"

definition socket_server_shutdown :: "socket_server \<Rightarrow> u32 \<Rightarrow> int \<Rightarrow> socket_server" where
  "socket_server_shutdown ss opaque i = send_request ss (Rq_close i True opaque)"

text \<open>\<open>fd\<close> is what \<open>do_listen\<close> or \<open>do_bind\<close> answers.\<close>

definition socket_server_listen :: "int \<Rightarrow> socket_server \<Rightarrow> u32 \<Rightarrow> (socket_server \<times> int) \<times> sock_effect list" where
  "socket_server_listen fd ss opaque =
     (if fd < 0 then ((ss, -1), [])
      else case reserve_id ss of (ss, i) \<Rightarrow> if i < 0 then ((ss, i), [Close_fd fd]) else ((send_request ss (Rq_listen i fd opaque), i), []))"

definition socket_server_bind :: "socket_server \<Rightarrow> u32 \<Rightarrow> int \<Rightarrow> socket_server \<times> int" where
  "socket_server_bind ss opaque fd =
     (case reserve_id ss of (ss, i) \<Rightarrow> if i < 0 then (ss, -1) else (send_request ss (Rq_bind i fd opaque), i))"

definition socket_server_start :: "socket_server \<Rightarrow> u32 \<Rightarrow> int \<Rightarrow> socket_server" where
  "socket_server_start ss opaque i = send_request ss (Rq_start i opaque)"

text \<open>\<^verbatim>\<open>TCP_NODELAY\<close> is 1.\<close>

definition socket_server_nodelay :: "socket_server \<Rightarrow> int \<Rightarrow> socket_server" where
  "socket_server_nodelay ss i = send_request ss (Rq_setopt i 1 1)"

definition socket_server_udp :: "int \<Rightarrow> bool \<Rightarrow> socket_server \<Rightarrow> u32 \<Rightarrow> (socket_server \<times> int) \<times> sock_effect list" where
  "socket_server_udp fd v6 ss opaque =
     (if fd < 0 then ((ss, -1), [])
      else case reserve_id ss of (ss, i) \<Rightarrow> if i < 0 then ((ss, -1), [Close_fd fd]) else ((send_request ss (Rq_udp i fd v6 opaque), i), []))"

definition socket_server_udp_send :: "socket_server \<Rightarrow> request_send \<Rightarrow> u8 list \<Rightarrow> (socket_server \<times> int) \<times> sock_effect list" where
  "socket_server_udp_send ss r addr =
     (let s = slot ss (HASH_ID (rs_id r)) in
      if sk_id s \<noteq> rs_id r \<or> sk_type s = SOCKET_TYPE_INVALID then ((ss, -1), socket_free_buffer r)
      else if addr ! 0 \<noteq> PROTOCOL_UDP \<and> addr ! 0 \<noteq> PROTOCOL_UDPv6 then ((ss, -1), socket_free_buffer r)
      else ((send_request ss (Rq_send_udp r (take (if addr ! 0 = PROTOCOL_UDP then 1 + 2 + 4 else 1 + 2 + 16) addr)), wb_size s), []))"

text \<open>\<open>ans\<close> is the resolved address: whether it is for IPv6, with port and address.\<close>

definition socket_server_udp_connect :: "(bool \<times> u8 list) option \<Rightarrow> socket_server \<Rightarrow> int \<Rightarrow> socket_server \<times> int" where
  "socket_server_udp_connect ans ss i =
     (case ans of
        None \<Rightarrow> (ss, -1)
      | Some (v6, addr) \<Rightarrow> (send_request ss (Rq_set_udp i (gen_udp_address (if v6 then PROTOCOL_UDPv6 else PROTOCOL_UDP) addr)), 0))"

definition socket_server_udp_address :: "u8 list \<Rightarrow> int \<Rightarrow> u8 list option" where
  "socket_server_udp_address bytes ud =
     (let addr = drop (nat ud) bytes in
      if addr ! 0 = PROTOCOL_UDP then Some (take (1 + 2 + 4) addr)
      else if addr ! 0 = PROTOCOL_UDPv6 then Some (take (1 + 2 + 16) addr)
      else None)"

section \<open>Messages for the services\<close>

definition SKYNET_SOCKET_TYPE_UDP :: int where "SKYNET_SOCKET_TYPE_UDP = 6"

text \<open>The message of \<^verbatim>\<open>forward_message\<close> in \<^verbatim>\<open>skynet_socket.c\<close>, with the handle it is pushed to.\<close>

definition forward_message :: "int \<Rightarrow> bool \<Rightarrow> socket_message \<Rightarrow> u32 \<times> skynet_socket_message" where
  "forward_message type padding r =
     (res_opaque r,
      \<lparr>sm_type = type, sm_id = res_id r, sm_ud = res_ud r,
       sm_buffer = (if padding then [] else case res_data r of Received bs \<Rightarrow> bs | _ \<Rightarrow> []),
       sm_tail = (if padding then (case res_data r of Static_text t \<Rightarrow> take 128 (map of_char t) | _ \<Rightarrow> []) else [])\<rparr>)"

definition skynet_socket_poll :: "outcome \<Rightarrow> (u32 \<times> skynet_socket_message) option" where
  "skynet_socket_poll t =
     (case t of
        None \<Rightarrow> None
      | Some (ty, r) \<Rightarrow>
          (case ty of
             SOCKET_EXIT \<Rightarrow> None
           | SOCKET_DATA \<Rightarrow> Some (forward_message SOCKET_TYPE_DATA False r)
           | SOCKET_CLOSE \<Rightarrow> Some (forward_message SOCKET_TYPE_CLOSE False r)
           | SOCKET_OPEN \<Rightarrow> Some (forward_message SOCKET_TYPE_CONNECT True r)
           | SOCKET_ERROR \<Rightarrow> Some (forward_message SOCKET_TYPE_ERROR True r)
           | SOCKET_ACCEPT \<Rightarrow> Some (forward_message SOCKET_TYPE_ACCEPT True r)
           | SOCKET_UDP \<Rightarrow> Some (forward_message SKYNET_SOCKET_TYPE_UDP False r)))"

text \<open>The result of a send with the warning message that the service gets for itself.\<close>

definition check_wsz :: "int \<Rightarrow> int \<Rightarrow> int \<times> skynet_socket_message option" where
  "check_wsz i wsz =
     (if wsz < 0 then (-1, None)
      else (0, if 1024 * 1024 < wsz
               then Some \<lparr>sm_type = SOCKET_TYPE_WARNING, sm_id = i, sm_ud = sint (word_of_int (wsz div 1024) :: u32), sm_buffer = [], sm_tail = []\<rparr>
               else None))"

definition skynet_socket_send :: "socket_server \<Rightarrow> request_send \<Rightarrow> (socket_server \<times> int \<times> skynet_socket_message option) \<times> sock_effect list" where
  "skynet_socket_send ss r = (case socket_server_send ss r of ((ss, wsz), out) \<Rightarrow> ((ss, check_wsz (rs_id r) wsz), out))"

definition skynet_socket_udp_send ::
  "socket_server \<Rightarrow> request_send \<Rightarrow> u8 list \<Rightarrow> (socket_server \<times> int \<times> skynet_socket_message option) \<times> sock_effect list" where
  "skynet_socket_udp_send ss r addr = (case socket_server_udp_send ss r addr of ((ss, wsz), out) \<Rightarrow> ((ss, check_wsz (rs_id r) wsz), out))"

definition skynet_socket_udp_address :: "skynet_socket_message \<Rightarrow> u8 list option" where
  "skynet_socket_udp_address m = (if sm_type m \<noteq> SKYNET_SOCKET_TYPE_UDP then None else socket_server_udp_address (sm_buffer m) (sm_ud m))"

end
