(* ===== verification/SocketSafe.thy ===== *)
theory SocketSafe
  imports SocketServer
begin

text \<open>
  The invariant of the socket server and its preservation by every request and event (\<open>net_step\<close>: whole turns of the socket thread and
  requests of services in any order, with any answers of the system), so that no assertion of the code fails. What services may ask for, and what \<open>net_step\<close>
  leaves out, is said where it is defined.
\<close>


section \<open>The invariant of a socket\<close>

definition list_bytes :: "write_buffer list \<Rightarrow> u8 list" where
  "list_bytes l = concat (map wb_bytes l)"

definition carries :: "socket_type \<Rightarrow> bool" where
  "carries t \<longleftrightarrow> t = SOCKET_TYPE_CONNECTING \<or> t = SOCKET_TYPE_CONNECTED \<or> t = SOCKET_TYPE_HALFCLOSE \<or> t = SOCKET_TYPE_BIND"

text \<open>
  Only sockets that carry data have buffers; \<open>wb_size\<close> counts the bytes in them; no buffer of low priority has
  been sent in part.
\<close>

definition sock_ok :: "socket \<Rightarrow> bool" where
  "sock_ok s \<longleftrightarrow> (\<not> carries (sk_type s) \<longrightarrow> sk_high s = [] \<and> sk_low s = []) \<and>
     (sk_type s \<noteq> SOCKET_TYPE_INVALID \<and> sk_type s \<noteq> SOCKET_TYPE_RESERVE \<longrightarrow> wb_size s = int (length (list_bytes (sk_high s) @ list_bytes (sk_low s)))) \<and>
     (\<forall>b \<in> set (sk_low s). wb_ptr b = wb_buffer b)"

lemma carries_simps [simp]:
  "\<not> carries SOCKET_TYPE_INVALID" "\<not> carries SOCKET_TYPE_RESERVE" "\<not> carries SOCKET_TYPE_PLISTEN" "\<not> carries SOCKET_TYPE_LISTEN"
  "\<not> carries SOCKET_TYPE_PACCEPT" "carries SOCKET_TYPE_CONNECTING" "carries SOCKET_TYPE_CONNECTED" "carries SOCKET_TYPE_HALFCLOSE" "carries SOCKET_TYPE_BIND"
  by (simp_all add: carries_def)

lemma list_bytes_simps [simp]: "list_bytes [] = []" "list_bytes (b # l) = wb_bytes b @ list_bytes l" "list_bytes (l @ l') = list_bytes l @ list_bytes l'"
  by (simp_all add: list_bytes_def)

lemma slot_set [simp]: "slot (set_socket i s ss) = (slot ss)(i := s)" "ss_pipe (set_socket i s ss) = ss_pipe ss" "ss_ev (set_socket i s ss) = ss_ev ss"
  "event_index (set_socket i s ss) = event_index ss" "alloc_id (set_socket i s ss) = alloc_id ss" "checkctrl (set_socket i s ss) = checkctrl ss"
  by (simp_all add: set_socket_def)

lemma set_socket_twice [simp]: "set_socket i s (set_socket i t ss) = set_socket i s ss"
  by (simp add: set_socket_def)

lemma set_socket_same: "set_socket i (slot ss i) ss = ss"
  by (simp add: set_socket_def)

text \<open>The bytes that the system took over.\<close>

fun written :: "sock_effect list \<Rightarrow> u8 list" where
  "written [] = []"
| "written (Wrote fd bs # es) = bs @ written es"
| "written (_ # es) = written es"

lemma written_append [simp]: "written (a @ b) = written a @ written b"
  by (induction a rule: written.induct) simp_all

lemma written_free [simp]: "written (write_buffer_free b) = []" "written (free_wb_list l) = []" "written (free_func u p) = []"
proof -
  show "written (free_func u p) = []" for u p by (simp add: free_func_def)
  then show "written (write_buffer_free b) = []" for b by (simp add: write_buffer_free_def)
  then show "written (free_wb_list l) = []" by (induction l) (simp_all add: free_wb_list_def)
qed

text \<open>
  What a run of writes does to a list: the bytes written and the bytes left are the bytes that were there, in order, and only the
  first buffer left may be new.
\<close>

lemma write_loop_spec:
  "write_loop ws fd l n = ((ws', l', n', failed), out) \<Longrightarrow>
    list_bytes l = written out @ list_bytes l' \<and> n' = n - int (length (written out)) \<and> set (tl l') \<subseteq> set l"
proof (induction ws fd l n arbitrary: ws' l' n' failed out rule: write_loop.induct)
  case (3 w ws fd b bs n)
  show ?case
  proof (cases w)
    case (Moved k)
    let ?z = "min k (length (wb_bytes b))"
    show ?thesis
    proof (cases "?z = length (wb_bytes b)")
      case True
      obtain r out1 where r: "write_loop ws fd bs (n - int ?z) = (r, out1)" by (cases "write_loop ws fd bs (n - int ?z)")
      with "3.prems" Moved True have eq: "out = Wrote fd (wb_bytes b) # write_buffer_free b @ out1" "r = (ws', l', n', failed)"
        by (auto simp: Let_def)
      have "list_bytes bs = written out1 @ list_bytes l' \<and> n' = n - int ?z - int (length (written out1)) \<and> set (tl l') \<subseteq> set bs"
        by (rule "3.IH"(1) [OF Moved refl]) (use True r eq in simp_all)
      then show ?thesis using eq True by auto
    next
      case False
      then have "k < length (wb_bytes b)" by simp
      then show ?thesis using "3.prems" Moved by (auto simp: Let_def)
    qed
  qed (use 3 in auto)
qed auto

lemma sendto_loop_spec:
  "sendto_loop ws s l n = ((ws', l', n'), out) \<Longrightarrow>
    n' - int (length (list_bytes l')) = n - int (length (list_bytes l)) \<and> set l' \<subseteq> set l \<and> written out = []"
proof (induction ws s l n arbitrary: ws' l' n' out rule: sendto_loop.induct)
  case (3 w ws s b bs n)
  show ?case
  proof (cases w)
    case (Moved k)
    obtain r out1 where r: "sendto_loop ws s bs (n - int (length (wb_bytes b))) = (r, out1)"
      by (cases "sendto_loop ws s bs (n - int (length (wb_bytes b)))")
    with "3.prems" Moved have eq: "out = Sent_to (sk_fd s) (wb_bytes b) (udp_socket_address s (wb_address b)) # write_buffer_free b @ out1" "r = (ws', l', n')"
      by auto
    then show ?thesis using "3.IH" [OF Moved, of ws' l' n' out1] r by auto
  qed (use "3.prems" in auto)
qed auto

section \<open>Closing and writing\<close>

text \<open>The types of sockets that are registered for events.\<close>

definition registered :: "socket_type \<Rightarrow> bool" where
  "registered t \<longleftrightarrow> t = SOCKET_TYPE_LISTEN \<or> carries t"

lemma registered_simps [simp]:
  "\<not> registered SOCKET_TYPE_INVALID" "\<not> registered SOCKET_TYPE_RESERVE" "\<not> registered SOCKET_TYPE_PLISTEN" "registered SOCKET_TYPE_LISTEN"
  "\<not> registered SOCKET_TYPE_PACCEPT" "carries t \<Longrightarrow> registered t"
  by (simp_all add: registered_def)

text \<open>
  \<open>changes k ss ss' t\<close>: an operation with result \<open>t\<close> touched slot \<open>k\<close> only, left it in order and under its identifier; a registered socket
  stays registered or is closed, and the result tells this.
\<close>

definition closes :: "outcome \<Rightarrow> int \<Rightarrow> bool" where
  "closes t i \<longleftrightarrow> (\<exists>ty m. t = Some (ty, m) \<and> (ty = SOCKET_CLOSE \<or> ty = SOCKET_ERROR) \<and> res_id m = i)"

definition moves_to :: "socket \<Rightarrow> socket \<Rightarrow> outcome \<Rightarrow> bool" where
  "moves_to s s' t \<longleftrightarrow> sock_ok s' \<and> sk_type s' \<noteq> SOCKET_TYPE_RESERVE \<and> sk_id s' = sk_id s \<and>
     (registered (sk_type s) \<longrightarrow> registered (sk_type s') \<or> (sk_type s' = SOCKET_TYPE_INVALID \<and> closes t (sk_id s)))"

definition changes :: "nat \<Rightarrow> socket_server \<Rightarrow> socket_server \<Rightarrow> outcome \<Rightarrow> bool" where
  "changes k ss ss' t \<longleftrightarrow> (\<exists>s'. ss' = set_socket k s' ss \<and> moves_to (slot ss k) s' t)"

lemma changesI: "moves_to (slot ss k) s' t \<Longrightarrow> changes k ss (set_socket k s' ss) t"
  by (auto simp: changes_def)

lemma changes_same: "sock_ok (slot ss k) \<Longrightarrow> sk_type (slot ss k) \<noteq> SOCKET_TYPE_RESERVE \<Longrightarrow>
    sk_type (slot ss k) = SOCKET_TYPE_INVALID \<longrightarrow> \<not> registered (sk_type (slot ss k)) \<Longrightarrow> changes k ss ss t"
  using changesI [of ss k "slot ss k" t] by (simp add: moves_to_def set_socket_same)

lemma force_close_ok:
  assumes "sk_type (slot ss k) \<noteq> SOCKET_TYPE_RESERVE"
    and "sk_type (slot ss k) = SOCKET_TYPE_INVALID \<longrightarrow> sock_ok (slot ss k)"
  obtains s' m out where "force_close ss k = Inr ((set_socket k s' ss, m), out)" "sk_type s' = SOCKET_TYPE_INVALID" "sock_ok s'"
    "sk_id s' = sk_id (slot ss k)" "res_id m = sk_id (slot ss k)" "written out = []"
proof (cases "sk_type (slot ss k) = SOCKET_TYPE_INVALID")
  case True
  then show ?thesis using assms by (intro that [of "slot ss k"]) (simp add: force_close_def Let_def set_socket_same, simp_all)
next
  case False
  then show ?thesis using assms
    by (intro that [of "(slot ss k)\<lparr>sk_high := [], sk_low := [], sk_type := SOCKET_TYPE_INVALID\<rparr>"]) (simp add: force_close_def Let_def, simp_all add: sock_ok_def)
qed

lemma closed_moves: "sk_type s' = SOCKET_TYPE_INVALID \<Longrightarrow> sock_ok s' \<Longrightarrow> sk_id s' = sk_id s \<Longrightarrow> closes t (sk_id s) \<Longrightarrow> moves_to s s' t"
  by (simp add: moves_to_def)

lemma closesI: "ty = SOCKET_CLOSE \<or> ty = SOCKET_ERROR \<Longrightarrow> res_id m = i \<Longrightarrow> closes (Some (ty, m)) i"
  by (auto simp: closes_def)

lemma send_list_cases:
  assumes t: "sk_type (slot ss k) \<noteq> SOCKET_TYPE_RESERVE" "sk_type (slot ss k) \<noteq> SOCKET_TYPE_INVALID"
  obtains (closed) ws' s' m out where "send_list ws ss k pri = Inr ((ws', set_socket k s' ss, Some (SOCKET_CLOSE, m)), out)"
      "sk_type s' = SOCKET_TYPE_INVALID" "sock_ok s'" "sk_id s' = sk_id (slot ss k)" "res_id m = sk_id (slot ss k)"
  | (left) ws' l n out where "send_list ws ss k pri = Inr ((ws', set_socket k (set_wb_list pri l ((slot ss k)\<lparr>wb_size := n\<rparr>)) ss, None), out)"
      "n - int (length (list_bytes l)) = wb_size (slot ss k) - int (length (list_bytes (wb_list pri (slot ss k))))"
      "set (tl l) \<subseteq> set (wb_list pri (slot ss k))"
      "sk_protocol (slot ss k) = PROTOCOL_TCP \<longrightarrow> list_bytes (wb_list pri (slot ss k)) = written out @ list_bytes l"
proof (cases "sk_protocol (slot ss k) = PROTOCOL_TCP")
  case True
  let ?s = "slot ss k"
  obtain ws' l n failed out where w: "write_loop ws (sk_fd ?s) (wb_list pri ?s) (wb_size ?s) = ((ws', l, n, failed), out)"
    by (metis prod.exhaust)
  note spec = write_loop_spec [OF w]
  let ?s1 = "set_wb_list pri l (?s\<lparr>wb_size := n\<rparr>)"
  show ?thesis
  proof (cases failed)
    case False
    then show ?thesis using True w spec by (intro left [of ws' l n out]) (simp_all add: send_list_def send_list_tcp_def Let_def)
  next
    case fl: True
    have f: "sk_type ?s1 = sk_type ?s" "sk_id ?s1 = sk_id ?s" by (cases pri; simp add: set_wb_list_def)+
    obtain s' m out' where "force_close (set_socket k ?s1 ss) k = Inr ((set_socket k s' (set_socket k ?s1 ss), m), out')"
        "sk_type s' = SOCKET_TYPE_INVALID" "sock_ok s'" "sk_id s' = sk_id (slot (set_socket k ?s1 ss) k)"
        "res_id m = sk_id (slot (set_socket k ?s1 ss) k)" "written out' = []"
      by (rule force_close_ok [of "set_socket k ?s1 ss" k]) (use t f in simp_all)
    then show ?thesis using True w fl f by (intro closed [of ws' s' m "out @ out'"]) (simp_all add: send_list_def send_list_tcp_def Let_def)
  qed
next
  case False
  let ?s = "slot ss k"
  obtain ws' l n out where w: "sendto_loop ws ?s (wb_list pri ?s) (wb_size ?s) = ((ws', l, n), out)" by (metis prod.exhaust)
  have "set (tl l) \<subseteq> set l" by (cases l) auto
  then show ?thesis using False w sendto_loop_spec [OF w] by (intro left [of ws' l n out]) (auto simp: send_list_def send_list_udp_def Let_def)
qed


lemma set_wb_list_fields [simp]:
  "sk_type (set_wb_list pri l s) = sk_type s" "sk_id (set_wb_list pri l s) = sk_id s" "sk_fd (set_wb_list pri l s) = sk_fd s"
  "sk_protocol (set_wb_list pri l s) = sk_protocol s" "wb_size (set_wb_list pri l s) = wb_size s"
  "sk_high (set_wb_list PRIORITY_HIGH l s) = l" "sk_low (set_wb_list PRIORITY_HIGH l s) = sk_low s"
  "sk_high (set_wb_list PRIORITY_LOW l s) = sk_high s" "sk_low (set_wb_list PRIORITY_LOW l s) = l"
  "wb_list PRIORITY_HIGH s = sk_high s" "wb_list PRIORITY_LOW s = sk_low s"
  by (cases pri; simp add: set_wb_list_def wb_list_def)+

lemma sock_okD:
  assumes "sock_ok s"
  shows "\<not> carries (sk_type s) \<Longrightarrow> sk_high s = [] \<and> sk_low s = []"
    "sk_type s \<noteq> SOCKET_TYPE_INVALID \<Longrightarrow> sk_type s \<noteq> SOCKET_TYPE_RESERVE \<Longrightarrow>
      wb_size s = int (length (list_bytes (sk_high s))) + int (length (list_bytes (sk_low s)))"
    "b \<in> set (sk_low s) \<Longrightarrow> wb_ptr b = wb_buffer b"
  using assms by (auto simp: sock_ok_def)

lemma low_complete: "sock_ok s \<Longrightarrow> \<not> list_uncomplete (sk_low s)"
  using sock_okD(3) [of s] by (auto simp: list_uncomplete_def split: list.split)

lemma carries_not [simp]: "carries t \<Longrightarrow> t \<noteq> SOCKET_TYPE_RESERVE" "carries t \<Longrightarrow> t \<noteq> SOCKET_TYPE_INVALID"
  by auto

lemma sock_ok_carries:
  assumes "carries (sk_type s)" and "wb_size s = int (length (list_bytes (sk_high s))) + int (length (list_bytes (sk_low s)))"
    and "\<forall>b \<in> set (sk_low s). wb_ptr b = wb_buffer b"
  shows "sock_ok s"
  using assms by (simp add: sock_ok_def)

lemma send_buffer_ok:
  assumes ok: "sock_ok (slot ss k)" and c: "carries (sk_type (slot ss k))"
  shows "ends_in {} (send_buffer ws ss k) (\<lambda>((ss', t), out). changes k ss ss' t)"
proof -
  let ?s = "slot ss k"
  note low = low_complete [OF ok] and sz = sock_okD(2) [OF ok] and cmp = sock_okD(3) [OF ok]
  have t: "sk_type ?s \<noteq> SOCKET_TYPE_RESERVE" "sk_type ?s \<noteq> SOCKET_TYPE_INVALID" using c by auto
  show ?thesis
  proof (cases rule: send_list_cases [OF t, of ws PRIORITY_HIGH])
    case (1 ws' s' m out)
    then have "changes k ss (set_socket k s' ss) (Some (SOCKET_CLOSE, m))"
      by (intro changesI closed_moves closesI) simp_all
    with 1 low show ?thesis by (simp add: send_buffer_def)
  next
    case (2 ws1 l n out1)
    let ?s1 = "set_wb_list PRIORITY_HIGH l (?s\<lparr>wb_size := n\<rparr>)" let ?ss1 = "set_socket k ?s1 ss"
    have ok1: "sock_ok ?s1" using c t sz cmp 2(2) by (intro sock_ok_carries) simp_all
    have stay: "moves_to ?s s' t'" if "sock_ok s'" "sk_type s' = sk_type ?s" "sk_id s' = sk_id ?s" for s' t'
      using that c by (simp add: moves_to_def)
    show ?thesis
    proof (cases "l = []")
      case False
      then have "changes k ss ?ss1 None" using ok1 by (intro changesI stay) simp_all
      with 2 low False show ?thesis by (simp add: send_buffer_def)
    next
      case emp: True
      show ?thesis
      proof (cases "sk_low ?s = []")
        case True
        have close: "ends_in {} (andThen (force_close ?ss1 k) (\<lambda>((ss, r), out). Inr ((ss, Some (SOCKET_CLOSE, r)), out))) (\<lambda>((ss', t), out). changes k ss ss' t)"
        proof (rule force_close_ok [of ?ss1 k])
          fix s' m out assume f: "force_close ?ss1 k = Inr ((set_socket k s' ?ss1, m), out)" "sk_type s' = SOCKET_TYPE_INVALID" "sock_ok s'"
            "sk_id s' = sk_id (slot ?ss1 k)" "res_id m = sk_id (slot ?ss1 k)" "written out = []"
          then have "changes k ss (set_socket k s' ss) (Some (SOCKET_CLOSE, m))" by (intro changesI closed_moves closesI) simp_all
          with f show ?thesis by simp
        qed (use t in simp_all)
        have "changes k ss ?ss1 None" using ok1 by (intro changesI stay) simp_all
        with close 2 low emp True show ?thesis
          by (cases "sk_type ?s = SOCKET_TYPE_HALFCLOSE") (auto simp: send_buffer_def ends_in_def split: sum.splits)
      next
        case more: False
        have t1: "sk_type (slot ?ss1 k) \<noteq> SOCKET_TYPE_RESERVE" "sk_type (slot ?ss1 k) \<noteq> SOCKET_TYPE_INVALID" using t by simp_all
        show ?thesis
        proof (cases rule: send_list_cases [OF t1, of ws1 PRIORITY_LOW])
          case (1 ws' s' m out)
          then have "changes k ss (set_socket k s' ss) (Some (SOCKET_CLOSE, m))"
            by (intro changesI closed_moves closesI) simp_all
          with 1 2 low emp more show ?thesis by (simp add: send_buffer_def)
        next
          case (2 ws2 l2 n2 out2)
          note snd = 2 and fst = \<open>send_list ws ss k PRIORITY_HIGH = _\<close>
          let ?s2 = "set_wb_list PRIORITY_LOW l2 (?s1\<lparr>wb_size := n2\<rparr>)"
          have n2: "n2 = int (length (list_bytes l2))" using snd(2) sz t emp 2(2) ok1 sock_okD(2) [OF ok1] by simp
          have tl: "\<forall>b \<in> set (tl l2). wb_ptr b = wb_buffer b" using snd(3) cmp by auto
          show ?thesis
          proof (cases "list_uncomplete l2")
            case True
            then obtain b r where b: "l2 = b # r" by (auto simp: list_uncomplete_def split: list.splits)
            have "sock_ok (?s2\<lparr>sk_low := r, sk_high := [b]\<rparr>)" using c n2 b tl emp by (intro sock_ok_carries) simp_all
            then have "changes k ss (set_socket k (?s2\<lparr>sk_low := r, sk_high := [b]\<rparr>) ss) None" by (intro changesI stay) simp_all
            with fst snd low emp more True b show ?thesis by (simp add: send_buffer_def raise_uncomplete_def)
          next
            case False
            then have "\<forall>b \<in> set l2. wb_ptr b = wb_buffer b" using tl by (cases l2) (simp_all add: list_uncomplete_def)
            then have "sock_ok ?s2" using c n2 emp by (intro sock_ok_carries) simp_all
            then have "changes k ss (set_socket k ?s2 ss) None" by (intro changesI stay) simp_all
            with fst snd low emp more False show ?thesis by (simp add: send_buffer_def)
          qed
        qed
      qed
    qed
  qed
qed


section \<open>Requests\<close>

text \<open>An operation may also leave a slot in its type.\<close>

definition touches :: "nat \<Rightarrow> socket_server \<Rightarrow> socket_server \<Rightarrow> outcome \<Rightarrow> bool" where
  "touches k ss ss' t \<longleftrightarrow> (\<exists>s'. ss' = set_socket k s' ss \<and>
     (sock_ok s' \<and> sk_type s' = sk_type (slot ss k) \<and> sk_id s' = sk_id (slot ss k) \<or>
      sk_type (slot ss k) \<noteq> SOCKET_TYPE_RESERVE \<and> moves_to (slot ss k) s' t))"

lemma touches_changes: "sk_type (slot ss k) \<noteq> SOCKET_TYPE_RESERVE \<Longrightarrow> changes k ss ss' t \<Longrightarrow> touches k ss ss' t"
  by (auto simp: touches_def changes_def)

lemma touches_same: "sock_ok (slot ss k) \<Longrightarrow> touches k ss ss t"
  unfolding touches_def by (intro exI [of _ "slot ss k"]) (simp add: set_socket_same)

lemma touches_kept: "sock_ok s' \<Longrightarrow> sk_type s' = sk_type (slot ss k) \<Longrightarrow> sk_id s' = sk_id (slot ss k) \<Longrightarrow> touches k ss (set_socket k s' ss) t"
  by (auto simp: touches_def)

lemma touches_moved: "sk_type (slot ss k) \<noteq> SOCKET_TYPE_RESERVE \<Longrightarrow> moves_to (slot ss k) s' t \<Longrightarrow> touches k ss (set_socket k s' ss) t"
  by (auto simp: touches_def)

text \<open>A forced close with its result.\<close>

lemma close_touches:
  assumes "sk_type (slot ss k) \<noteq> SOCKET_TYPE_RESERVE" and "sock_ok (slot ss k)" and "ty = SOCKET_CLOSE \<or> ty = SOCKET_ERROR"
    and "\<And>m. res_id (f m) = res_id m \<or> res_id (f m) = sk_id (slot ss k)"
  shows "ends_in {} (andThen (force_close ss k) (\<lambda>((ss, m), out). Inr ((ss, Some (ty, f m)), g out))) (\<lambda>((ss', t), out). touches k ss ss' t)"
proof (rule force_close_ok [OF assms(1)])
  fix s' m out assume f: "force_close ss k = Inr ((set_socket k s' ss, m), out)" "sk_type s' = SOCKET_TYPE_INVALID" "sock_ok s'"
    "sk_id s' = sk_id (slot ss k)" "res_id m = sk_id (slot ss k)" "written out = []"
  then have "moves_to (slot ss k) s' (Some (ty, f m))" using assms(3) assms(4) [of m] by (intro closed_moves closesI) auto
  with f show ?thesis by (simp add: touches_moved assms(1))
qed (use assms in simp)

lemma append_any_bytes: "list_bytes (append_sendbuffer_any l r n addr) = list_bytes l @ drop n (rs_bytes r)"
  by (auto simp: append_sendbuffer_any_def send_object_init_def split: option.split)

lemma append_any_low: "rs_object r = None \<Longrightarrow> b \<in> set (append_sendbuffer_any l r 0 addr) \<Longrightarrow> b \<in> set l \<or> wb_ptr b = wb_buffer b"
  by (auto simp: append_sendbuffer_any_def send_object_init_def)

lemma append_ok:
  assumes ok: "sock_ok s" and c: "carries (sk_type s)" and low: "pri = PRIORITY_LOW \<longrightarrow> rs_object r = None"
  shows "sock_ok (append_sendbuffer s r n)" "pri = PRIORITY_LOW \<Longrightarrow> sock_ok (append_sendbuffer_low s r)" "sock_ok (append_sendbuffer_udp s pri r addr)"
proof -
  note d = sock_okD(2) [OF ok carries_not(2) [OF c] carries_not(1) [OF c]] and l = sock_okD(3) [OF ok]
  show "sock_ok (append_sendbuffer s r n)" using c d l
    by (intro sock_ok_carries) (simp_all add: append_sendbuffer_def append_any_bytes)
  show "sock_ok (append_sendbuffer_low s r)" if "pri = PRIORITY_LOW" using c d l low that append_any_low [of r _ "sk_low s"]
    by (intro sock_ok_carries) (auto simp: append_sendbuffer_low_def append_any_bytes)
  show "sock_ok (append_sendbuffer_udp s pri r addr)" using c d l low append_any_low [of r _ "sk_low s"]
    by (intro sock_ok_carries; cases pri) (auto simp: append_sendbuffer_udp_def append_any_bytes)
qed

lemma append_fields [simp]:
  "sk_type (append_sendbuffer s r n) = sk_type s" "sk_id (append_sendbuffer s r n) = sk_id s"
  "sk_type (append_sendbuffer_low s r) = sk_type s" "sk_id (append_sendbuffer_low s r) = sk_id s"
  "sk_type (append_sendbuffer_udp s pri r addr) = sk_type s" "sk_id (append_sendbuffer_udp s pri r addr) = sk_id s"
  by (simp_all add: append_sendbuffer_def append_sendbuffer_low_def append_sendbuffer_udp_def)

lemma send_socket_ok:
  assumes ok: "sock_ok (slot ss (HASH_ID (rs_id r)))"
    and nr: "\<not> (sk_type (slot ss (HASH_ID (rs_id r))) = SOCKET_TYPE_RESERVE \<and> sk_id (slot ss (HASH_ID (rs_id r))) = rs_id r)"
    and low: "pri = PRIORITY_LOW \<longrightarrow> rs_object r = None"
  shows "ends_in {} (send_socket ws ss r pri addr) (\<lambda>((ss', t), out). touches (HASH_ID (rs_id r)) ss ss' t)"
proof -
  let ?k = "HASH_ID (rs_id r)" let ?s = "slot ss ?k"
  obtain start bytes user where so: "send_object_init r = (start, bytes, user)" by (metis prod_cases3)
  define w where "w = (case ws of [] \<Rightarrow> Eagain | w # _ \<Rightarrow> w)"
  define to where "to = (case addr of None \<Rightarrow> p_address ?s | Some a \<Rightarrow> a)"
  note def = send_socket_def [of ws ss r pri addr, unfolded Let_def so prod.case, folded w_def to_def]
  have same: "touches ?k ss ss t" for t by (rule touches_same [OF ok])
  show ?thesis
  proof (cases "carries (sk_type ?s) \<and> sk_id ?s = rs_id r \<and> sk_type ?s \<noteq> SOCKET_TYPE_HALFCLOSE")
    case False
    then have "sk_type ?s = SOCKET_TYPE_INVALID \<or> sk_id ?s \<noteq> rs_id r \<or> sk_type ?s = SOCKET_TYPE_HALFCLOSE \<or> sk_type ?s = SOCKET_TYPE_PACCEPT \<or>
        sk_type ?s = SOCKET_TYPE_PLISTEN \<or> sk_type ?s = SOCKET_TYPE_LISTEN" using nr by (cases "sk_type ?s") auto
    then show ?thesis using same unfolding def by auto
  next
    case True
    then have c: "carries (sk_type ?s)" by simp
    have hd: "(if sk_type ?s = SOCKET_TYPE_INVALID \<or> sk_id ?s \<noteq> rs_id r \<or> sk_type ?s = SOCKET_TYPE_HALFCLOSE \<or> sk_type ?s = SOCKET_TYPE_PACCEPT then a
        else if sk_type ?s = SOCKET_TYPE_PLISTEN \<or> sk_type ?s = SOCKET_TYPE_LISTEN then b else d) = d" for a b d :: "((socket_server \<times> outcome) \<times> sock_effect list) res"
      using True by (auto simp: carries_def)
    note app = append_ok [OF ok c low]
    have a: "touches ?k ss (set_socket ?k (append_sendbuffer ?s r n) ss) t" "touches ?k ss (set_socket ?k (append_sendbuffer_udp ?s pri r to) ss) t" for n t
      by (rule touches_kept; simp add: app)+
    have b: "touches ?k ss (set_socket ?k (append_sendbuffer_low ?s r) ss) t" if "pri = PRIORITY_LOW" for t
      by (rule touches_kept) (simp_all add: app that)
    have cl: "ends_in {} (andThen (force_close ss ?k) (\<lambda>((ss, m), out). Inr ((ss, Some (SOCKET_CLOSE, m)),
        Print ''socket-server: write to %d (fd=%d) error :%s.'' # out @ free_func user (rs_buffer r)))) (\<lambda>((ss', t), out). touches ?k ss ss' t)"
      by (rule close_touches [OF _ ok]) (use c in auto)
    show ?thesis unfolding def hd using a b same cl by (auto split: io.split)
  qed
qed


lemma andThen_return: "andThen m Inr = m"
  by (cases m) simp_all

lemma close_socket_ok:
  assumes ok: "sock_ok (slot ss (HASH_ID i))" and nr: "\<not> (sk_type (slot ss (HASH_ID i)) = SOCKET_TYPE_RESERVE \<and> sk_id (slot ss (HASH_ID i)) = i)"
  shows "ends_in {} (close_socket ws ss i shutdown opaque) (\<lambda>((ss', t), out). touches (HASH_ID i) ss ss' t)"
proof -
  let ?k = "HASH_ID i" let ?s = "slot ss ?k"
  show ?thesis
  proof (cases "sk_type ?s = SOCKET_TYPE_INVALID \<or> sk_id ?s \<noteq> i")
    case True
    then show ?thesis using touches_same [OF ok] by (auto simp: close_socket_def Let_def)
  next
    case False
    then have t: "sk_type ?s \<noteq> SOCKET_TYPE_RESERVE" "sk_id ?s = i" using nr by auto
    have after: "ends_in {} (if t \<noteq> None then Inr ((ss1, t), []) else if shutdown \<or> send_buffer_empty (slot ss1 ?k)
        then andThen (force_close ss1 ?k) (\<lambda>((ss, m), out). Inr ((ss, Some (SOCKET_CLOSE, m\<lparr>res_id := i, res_opaque := opaque\<rparr>)), out))
        else Inr ((set_type ?k SOCKET_TYPE_HALFCLOSE ss1, None), [])) (\<lambda>((ss', t), out). touches ?k ss ss' t)"
      if ch: "changes ?k ss ss1 t" and live: "t = None \<Longrightarrow> carries (sk_type (slot ss1 ?k)) \<or> send_buffer_empty (slot ss1 ?k)" for ss1 t
    proof -
      obtain s1 where s1: "ss1 = set_socket ?k s1 ss" "moves_to ?s s1 t" using ch by (auto simp: changes_def)
      then have ok1: "sock_ok s1" "sk_type s1 \<noteq> SOCKET_TYPE_RESERVE" "sk_id s1 = i" using t by (simp_all add: moves_to_def)
      show ?thesis
      proof (cases "t = None \<and> \<not> (shutdown \<or> send_buffer_empty (slot ss1 ?k))")
        case True
        then have "carries (sk_type s1)" using live s1 by simp
        moreover from this have "sock_ok (s1\<lparr>sk_type := SOCKET_TYPE_HALFCLOSE\<rparr>)" using ok1 sock_okD [OF ok1(1)] by (intro sock_ok_carries) auto
        ultimately have "moves_to ?s (s1\<lparr>sk_type := SOCKET_TYPE_HALFCLOSE\<rparr>) None" using ok1 t by (simp add: moves_to_def)
        then show ?thesis using True s1 t(1) by (simp add: set_type_def touches_moved)
      next
        case False
        have "ends_in {} (andThen (force_close ss1 ?k) (\<lambda>((ss, m), out). Inr ((ss, Some (SOCKET_CLOSE, m\<lparr>res_id := i, res_opaque := opaque\<rparr>)), out)))
            (\<lambda>((ss', t), out). touches ?k ss ss' t)"
        proof (rule force_close_ok [of ss1 ?k])
          fix s' m out assume f: "force_close ss1 ?k = Inr ((set_socket ?k s' ss1, m), out)" "sk_type s' = SOCKET_TYPE_INVALID" "sock_ok s'"
            "sk_id s' = sk_id (slot ss1 ?k)" "res_id m = sk_id (slot ss1 ?k)" "written out = []"
          then have "moves_to ?s s' (Some (SOCKET_CLOSE, m\<lparr>res_id := i, res_opaque := opaque\<rparr>))" using s1(1) ok1(3) t(2)
            by (intro closed_moves closesI) simp_all
          with f s1(1) t(1) show ?thesis by (simp add: touches_moved)
        qed (use s1 ok1 in simp_all)
        then show ?thesis using False touches_changes [OF t(1) ch] by auto
      qed
    qed
    show ?thesis
    proof (cases "send_buffer_empty ?s")
      case True
      have "changes ?k ss ss None" using t ok by (intro changes_same) simp_all
      from after [OF this] True False show ?thesis by (simp add: close_socket_def Let_def case_prod_unfold andThen_return)
    next
      case more: False
      then have c: "carries (sk_type ?s)" using sock_okD(1) [OF ok] by (auto simp: send_buffer_empty_def)
      have "ends_in {} (send_buffer ws ss ?k) (\<lambda>((ss', t), out). changes ?k ss ss' t)" by (rule send_buffer_ok [OF ok c])
      then obtain ss1 t1 out1 where b: "send_buffer ws ss ?k = Inr ((ss1, t1), out1)" "changes ?k ss ss1 t1"
        by (cases "send_buffer ws ss ?k") auto
      have "carries (sk_type (slot ss1 ?k)) \<or> send_buffer_empty (slot ss1 ?k)" 
      proof -
        obtain s1 where "ss1 = set_socket ?k s1 ss" "sock_ok s1" using b(2) by (auto simp: changes_def moves_to_def)
        then show ?thesis using sock_okD(1) [of s1] by (auto simp: send_buffer_empty_def)
      qed
      from after [OF b(2) this] have "ends_in {} (andThen (if t1 \<noteq> None then Inr ((ss1, t1), []) else if shutdown \<or> send_buffer_empty (slot ss1 ?k)
        then andThen (force_close ss1 ?k) (\<lambda>((ss, m), out). Inr ((ss, Some (SOCKET_CLOSE, m\<lparr>res_id := i, res_opaque := opaque\<rparr>)), out))
        else Inr ((set_type ?k SOCKET_TYPE_HALFCLOSE ss1, None), [])) (\<lambda>(t, out'). Inr (t, out1 @ out'))) (\<lambda>((ss', t), out). touches ?k ss ss' t)"
        by (rule ends_in_andThen) auto
      with False more b(1) show ?thesis by (simp add: close_socket_def Let_def)
    qed
  qed
qed

lemma start_socket_ok:
  assumes ok: "sock_ok (slot ss (HASH_ID i))"
  shows "ends_in {} (start_socket full err ss i opaque) (\<lambda>((ss', t), out). touches (HASH_ID i) ss ss' t)"
proof -
  let ?k = "HASH_ID i" let ?s = "slot ss ?k"
  note same = touches_same [OF ok]
  have cl: "ends_in {} (andThen (force_close ss ?k) (\<lambda>((ss, m), out). Inr ((ss, Some (SOCKET_ERROR, m\<lparr>res_data := Static_text err\<rparr>)), out)))
      (\<lambda>((ss', t), out). touches ?k ss ss' t)" if "sk_type ?s \<noteq> SOCKET_TYPE_RESERVE"
    by (rule close_touches [OF that ok]) simp_all
  have up: "touches ?k ss (set_socket ?k (?s\<lparr>sk_type := ty, sk_opaque := opaque\<rparr>) ss) t"
    if "sk_type ?s = SOCKET_TYPE_PACCEPT \<or> sk_type ?s = SOCKET_TYPE_PLISTEN" "ty = SOCKET_TYPE_CONNECTED \<or> ty = SOCKET_TYPE_LISTEN" for ty t
    by (rule touches_moved) (use that ok in \<open>auto simp: moves_to_def sock_ok_def\<close>)
  have tr: "touches ?k ss (set_socket ?k (?s\<lparr>sk_opaque := opaque\<rparr>) ss) t" for t
    by (rule touches_kept) (use ok in \<open>simp_all add: sock_ok_def\<close>)
  show ?thesis using same cl up tr by (auto simp: start_socket_def Let_def)
qed

lemma set_udp_ok:
  assumes ok: "sock_ok (slot ss (HASH_ID i))"
  shows "case set_udp_address ss i addr of (ss', t) \<Rightarrow> touches (HASH_ID i) ss ss' t"
proof -
  have "touches (HASH_ID i) ss (set_socket (HASH_ID i) ((slot ss (HASH_ID i))\<lparr>p_address := a\<rparr>) ss) t" for a t
    by (rule touches_kept) (use ok in \<open>simp_all add: sock_ok_def\<close>)
  then show ?thesis using touches_same [OF ok] by (auto simp: set_udp_address_def Let_def)
qed

text \<open>The requests that turn a reserved slot into a socket.\<close>

lemma new_fd_cases:
  assumes ok: "sock_ok (slot ss (HASH_ID i))" and r: "sk_type (slot ss (HASH_ID i)) = SOCKET_TYPE_RESERVE" "sk_id (slot ss (HASH_ID i)) = i"
  obtains (refused) "new_fd full ss i fd proto opaque add = Inr ((set_type (HASH_ID i) SOCKET_TYPE_INVALID ss, None), [])" "add \<and> full"
  | (added) s out where "new_fd full ss i fd proto opaque add = Inr ((set_socket (HASH_ID i) s ss, Some (HASH_ID i)), out)"
      "sk_id s = i" "sk_high s = []" "sk_low s = []" "wb_size s = 0" "sk_type s = SOCKET_TYPE_RESERVE"
proof (cases "add \<and> full")
  case True
  then show ?thesis using refused r by (simp add: new_fd_def Let_def)
next
  case False
  have "sk_high (slot ss (HASH_ID i)) = []" "sk_low (slot ss (HASH_ID i)) = []" using sock_okD(1) [OF ok] r by simp_all
  then show ?thesis using False r
    by (intro added [of "(slot ss (HASH_ID i))\<lparr>sk_id := i, sk_fd := fd, sk_protocol := proto, p_size := MIN_READ_BUFFER, sk_opaque := opaque, wb_size := 0\<rparr>"])
      (simp add: new_fd_def Let_def check_wb_list_def, simp_all)
qed

lemma becomes:
  assumes "sk_type (slot ss k) = SOCKET_TYPE_RESERVE" and "sk_id s = sk_id (slot ss k)" and "sk_high s = []" "sk_low s = []" "wb_size s = 0"
    and "ty \<noteq> SOCKET_TYPE_RESERVE"
  shows "changes k ss (set_type k ty (set_socket k s ss)) t"
proof -
  have "moves_to (slot ss k) (s\<lparr>sk_type := ty\<rparr>) t" using assms by (simp add: moves_to_def sock_ok_def)
  then show ?thesis by (simp add: set_type_def changesI)
qed

lemma invalidated:
  assumes "sk_type (slot ss k) = SOCKET_TYPE_RESERVE" and "sock_ok (slot ss k)"
  shows "changes k ss (set_type k SOCKET_TYPE_INVALID ss) t"
proof -
  have "moves_to (slot ss k) ((slot ss k)\<lparr>sk_type := SOCKET_TYPE_INVALID\<rparr>) t" using assms by (simp add: moves_to_def sock_ok_def)
  then show ?thesis by (simp add: set_type_def changesI)
qed


fun creates :: "request \<Rightarrow> int option" where
  "creates (Rq_bind i _ _) = Some i"
| "creates (Rq_listen i _ _) = Some i"
| "creates (Rq_open i _ _ _) = Some i"
| "creates (Rq_udp i _ _ _) = Some i"
| "creates _ = None"

text \<open>The identifier of a request that a reserved slot cannot take.\<close>

fun needs :: "request \<Rightarrow> int option" where
  "needs (Rq_close i _ _) = Some i"
| "needs (Rq_send _ r) = Some (rs_id r)"
| "needs (Rq_send_udp r _) = Some (rs_id r)"
| "needs _ = None"

text \<open>Packages of low priority are plain buffers.\<close>

fun plain_low :: "request \<Rightarrow> bool" where
  "plain_low (Rq_send PRIORITY_LOW r) = (rs_object r = None)"
| "plain_low _ = True"

definition reserved_as :: "socket_server \<Rightarrow> int \<Rightarrow> bool" where
  "reserved_as ss i \<longleftrightarrow> sk_type (slot ss (HASH_ID i)) = SOCKET_TYPE_RESERVE \<and> sk_id (slot ss (HASH_ID i)) = i"

lemma open_socket_ok:
  assumes ok: "sock_ok (slot ss (HASH_ID i))" and r: "reserved_as ss i"
  shows "ends_in {} (open_socket full ans ss i opaque) (\<lambda>((ss', t), out). changes (HASH_ID i) ss ss' t)"
proof -
  have t: "sk_type (slot ss (HASH_ID i)) = SOCKET_TYPE_RESERVE" "sk_id (slot ss (HASH_ID i)) = i" using r by (simp_all add: reserved_as_def)
  have inv: "changes (HASH_ID i) ss (set_type (HASH_ID i) SOCKET_TYPE_INVALID ss) t'" for t' by (rule invalidated [OF t(1) ok])
  have twice: "set_type k ty (set_type k ty ss) = set_type k ty ss" for k ty by (simp add: set_type_def)
  show ?thesis
  proof (cases ans)
    case (Connected_now fd addr)
    show ?thesis
    proof (cases rule: new_fd_cases [OF ok t, of full fd PROTOCOL_TCP opaque True])
      case 1
      then show ?thesis using inv Connected_now by (simp add: open_socket_def Let_def twice)
    next
      case (2 s out)
      then show ?thesis using becomes [OF t(1), of s SOCKET_TYPE_CONNECTED] t Connected_now by (simp add: open_socket_def Let_def)
    qed
  next
    case (In_progress fd)
    show ?thesis
    proof (cases rule: new_fd_cases [OF ok t, of full fd PROTOCOL_TCP opaque True])
      case 1
      then show ?thesis using inv In_progress by (simp add: open_socket_def Let_def twice)
    next
      case (2 s out)
      then show ?thesis using becomes [OF t(1), of s SOCKET_TYPE_CONNECTING] t In_progress by (simp add: open_socket_def Let_def)
    qed
  qed (use inv in \<open>simp_all add: open_socket_def Let_def\<close>)
qed

lemma bind_listen_ok:
  assumes ok: "sock_ok (slot ss (HASH_ID i))" and r: "reserved_as ss i"
  shows "ends_in {} (bind_socket full ss i fd opaque) (\<lambda>((ss', t), out). changes (HASH_ID i) ss ss' t)"
    "ends_in {} (listen_socket ss i fd opaque) (\<lambda>((ss', t), out). changes (HASH_ID i) ss ss' t)"
    "ends_in {} (add_udp_socket full ss i fd v6 opaque) (\<lambda>(ss', out). changes (HASH_ID i) ss ss' None)"
proof -
  have t: "sk_type (slot ss (HASH_ID i)) = SOCKET_TYPE_RESERVE" "sk_id (slot ss (HASH_ID i)) = i" using r by (simp_all add: reserved_as_def)
  have inv: "changes (HASH_ID i) ss (set_type (HASH_ID i) SOCKET_TYPE_INVALID ss) t'" for t' by (rule invalidated [OF t(1) ok])
  have twice: "set_type k ty (set_type k ty ss) = set_type k ty ss" for k ty by (simp add: set_type_def)
  show "ends_in {} (bind_socket full ss i fd opaque) (\<lambda>((ss', t), out). changes (HASH_ID i) ss ss' t)"
  proof (cases rule: new_fd_cases [OF ok t, of full fd PROTOCOL_TCP opaque True])
    case 1
    then show ?thesis using inv by (simp add: bind_socket_def Let_def)
  next
    case (2 s out)
    then show ?thesis using becomes [OF t(1), of s SOCKET_TYPE_BIND] t by (simp add: bind_socket_def Let_def)
  qed
  show "ends_in {} (listen_socket ss i fd opaque) (\<lambda>((ss', t), out). changes (HASH_ID i) ss ss' t)"
  proof (cases rule: new_fd_cases [OF ok t, of False fd PROTOCOL_TCP opaque False])
    case (2 s out)
    then show ?thesis using becomes [OF t(1), of s SOCKET_TYPE_PLISTEN] t by (simp add: listen_socket_def)
  qed simp
  show "ends_in {} (add_udp_socket full ss i fd v6 opaque) (\<lambda>(ss', out). changes (HASH_ID i) ss ss' None)"
  proof (cases rule: new_fd_cases [OF ok t, of full fd "if v6 then PROTOCOL_UDPv6 else PROTOCOL_UDP" opaque True])
    case 1
    then show ?thesis using inv by (simp add: add_udp_socket_def twice)
  next
    case (2 s out)
    have "moves_to (slot ss (HASH_ID i)) (s\<lparr>sk_type := SOCKET_TYPE_CONNECTED, p_address := replicate UDP_ADDRESS_SIZE 0\<rparr>) None"
      using 2 t by (simp add: moves_to_def sock_ok_def)
    then show ?thesis using 2(1) by (simp add: add_udp_socket_def changesI)
  qed
qed

lemma ctrl_cmd_ok:
  assumes ok: "\<forall>k. sock_ok (slot ss k)" and c: "\<forall>i. creates rq = Some i \<longrightarrow> reserved_as ss i"
    and n: "\<forall>i. needs rq = Some i \<longrightarrow> \<not> reserved_as ss i" and low: "plain_low rq"
  shows "ends_in {} (ctrl_cmd sy ss rq) (\<lambda>((ss', t), out). case creates rq of Some i \<Rightarrow> changes (HASH_ID i) ss ss' t | None \<Rightarrow> \<exists>k. touches k ss ss' t)" (is "ends_in _ _ ?G")
proof -
  have cr: "changes (HASH_ID i) ss ss' t \<Longrightarrow> creates rq = Some i \<Longrightarrow> ?G ((ss', t), out)" for i ss' t out by simp
  have okk: "sock_ok (slot ss k)" for k using ok by blast
  show ?thesis
  proof (cases rq)
    case (Rq_start i opaque)
    then show ?thesis using start_socket_ok [OF okk, of "sys_full sy" "sys_err sy" i opaque] unfolding ctrl_cmd_def
      by simp (erule ends_in_weaken, auto)
  next
    case (Rq_bind i fd opaque)
    then have r: "reserved_as ss i" using c by simp
    show ?thesis using bind_listen_ok(1) [OF okk r, of "sys_full sy" fd opaque] Rq_bind unfolding ctrl_cmd_def by simp
  next
    case (Rq_listen i fd opaque)
    then have r: "reserved_as ss i" using c by simp
    show ?thesis using bind_listen_ok(2) [OF okk r, of fd opaque] Rq_listen unfolding ctrl_cmd_def by simp
  next
    case (Rq_close i shutdown opaque)
    then have "\<not> reserved_as ss i" using n by simp
    then show ?thesis using close_socket_ok [OF okk, of i "sys_io sy" shutdown opaque] Rq_close unfolding ctrl_cmd_def reserved_as_def
      by simp (erule ends_in_weaken, auto)
  next
    case (Rq_open i host port opaque)
    then have r: "reserved_as ss i" using c by simp
    show ?thesis using open_socket_ok [OF okk r, of "sys_full sy" "sys_connect sy" opaque] Rq_open unfolding ctrl_cmd_def by simp
  next
    case Rq_exit
    then show ?thesis using touches_same [OF okk] by (auto simp: ctrl_cmd_def)
  next
    case (Rq_send pri r)
    then have "\<not> reserved_as ss (rs_id r)" "pri = PRIORITY_LOW \<longrightarrow> rs_object r = None" using n low by (auto split: priority.splits)
    then show ?thesis using send_socket_ok [OF okk, of r pri "sys_io sy" None] Rq_send unfolding ctrl_cmd_def reserved_as_def
      by simp (erule ends_in_weaken, auto)
  next
    case (Rq_send_udp r addr)
    then have "\<not> reserved_as ss (rs_id r)" using n by simp
    then show ?thesis using send_socket_ok [OF okk, of r PRIORITY_HIGH "sys_io sy" "Some addr"] Rq_send_udp unfolding ctrl_cmd_def reserved_as_def
      by simp (erule ends_in_weaken, auto)
  next
    case (Rq_set_udp i addr)
    then show ?thesis using set_udp_ok [OF okk, of i addr] by (auto simp: ctrl_cmd_def)
  next
    case (Rq_setopt i what val)
    then show ?thesis using touches_same [OF okk] by (auto simp: ctrl_cmd_def)
  next
    case (Rq_udp i fd v6 opaque)
    then have r: "reserved_as ss i" using c by simp
    have "ends_in {} (andThen (add_udp_socket (sys_full sy) ss i fd v6 opaque) (\<lambda>(ss, out). Inr ((ss, None), out))) ?G"
      by (rule ends_in_andThen [OF bind_listen_ok(3) [OF okk r]]) (use cr Rq_udp in auto)
    then show ?thesis using Rq_udp unfolding ctrl_cmd_def by simp
  qed
qed


section \<open>Identifiers\<close>

lemma HASH_ID_sint: "HASH_ID (sint (a :: u32)) = unat a mod MAX_SOCKET"
  by (simp add: HASH_ID_def)

definition next_id :: "u32 \<Rightarrow> u32" where
  "next_id a = (if sint (a + 1) < 0 then (a + 1) AND 0x7fffffff else a + 1)"

lemma int31_mask: "(0x7fffffff :: u32) = mask 31"
  by (simp add: mask_eq_exp_minus_1)

lemma next_id_nonneg: "0 \<le> sint (next_id a)"
proof (cases "sint (a + 1) < 0")
  case True
  have "unat ((a + 1) AND 0x7fffffff) < 2 ^ 31" unfolding int31_mask unat_and_mask by (rule mod_less_divisor) simp
  from sint_small [OF this] True show ?thesis by (simp add: next_id_def)
qed (simp add: next_id_def)

lemma next_id_slot: "unat (next_id a) mod MAX_SOCKET = (unat a + 1) mod MAX_SOCKET"
proof -
  have "unat (a + 1) mod 2 ^ 16 = (unat a + 1) mod 2 ^ 16" using unat_plus_mod_pow [of 16 a 1] by simp
  moreover have "unat ((a + 1) AND 0x7fffffff) mod 2 ^ 16 = unat (a + 1) mod 2 ^ 16"
    unfolding int31_mask by (rule unat_and_mask_mod) simp
  ultimately show ?thesis by (simp add: next_id_def MAX_SOCKET_def MAX_SOCKET_P_def)
qed

lemma reserve_loop_Suc:
  "reserve_loop (Suc k) ss =
     (let a = next_id (alloc_id ss); i = sint a; s = slot ss (HASH_ID i) in
      if sk_type s = SOCKET_TYPE_INVALID
      then (set_socket (HASH_ID i) (s\<lparr>sk_type := SOCKET_TYPE_RESERVE, sk_id := i, sk_fd := -1\<rparr>) (ss\<lparr>alloc_id := a\<rparr>), i)
      else reserve_loop k (ss\<lparr>alloc_id := a\<rparr>))"
  by (simp add: next_id_def Let_def)

lemma reserve_loop_cases:
  "reserve_loop n ss = (ss', i) \<Longrightarrow>
    (i = -1 \<and> (\<exists>a. ss' = ss\<lparr>alloc_id := a\<rparr>)) \<or>
    (0 \<le> i \<and> sk_type (slot ss (HASH_ID i)) = SOCKET_TYPE_INVALID \<and>
      (\<exists>a. ss' = set_socket (HASH_ID i) ((slot ss (HASH_ID i))\<lparr>sk_type := SOCKET_TYPE_RESERVE, sk_id := i, sk_fd := -1\<rparr>) (ss\<lparr>alloc_id := a\<rparr>)))"
proof (induction n arbitrary: ss)
  case 0
  then have "i = -1 \<and> ss' = ss\<lparr>alloc_id := alloc_id ss\<rparr>" by simp
  then show ?case by blast
next
  case (Suc n)
  let ?a = "next_id (alloc_id ss)"
  show ?case
  proof (cases "sk_type (slot ss (HASH_ID (sint ?a))) = SOCKET_TYPE_INVALID")
    case True
    then show ?thesis using Suc.prems next_id_nonneg by (auto simp: reserve_loop_Suc Let_def simp del: reserve_loop.simps)
  next
    case False
    then have "reserve_loop n (ss\<lparr>alloc_id := ?a\<rparr>) = (ss', i)" using Suc.prems by (simp add: reserve_loop_Suc Let_def del: reserve_loop.simps)
    from Suc.IH [OF this] show ?thesis by auto
  qed
qed

lemma reserve_loop_finds:
  "k < n \<Longrightarrow> sk_type (slot ss ((unat (alloc_id ss) + 1 + k) mod MAX_SOCKET)) = SOCKET_TYPE_INVALID \<Longrightarrow> 0 \<le> snd (reserve_loop n ss)"
proof (induction n arbitrary: k ss)
  case (Suc n)
  let ?a = "next_id (alloc_id ss)"
  have h: "HASH_ID (sint ?a) = (unat (alloc_id ss) + 1) mod MAX_SOCKET" by (simp add: HASH_ID_sint next_id_slot)
  show ?case
  proof (cases "sk_type (slot ss (HASH_ID (sint ?a))) = SOCKET_TYPE_INVALID")
    case True
    then show ?thesis using next_id_nonneg by (simp add: reserve_loop_Suc Let_def del: reserve_loop.simps)
  next
    case False
    then have "k \<noteq> 0" using Suc.prems(2) h by (intro notI) simp
    then obtain j where j: "k = Suc j" by (cases k) auto
    have "(unat ?a + 1 + j) mod MAX_SOCKET = (unat (alloc_id ss) + 1 + k) mod MAX_SOCKET"
      using next_id_slot [of "alloc_id ss"] j by (metis (no_types, lifting) ab_semigroup_add_class.add_ac(1) add_Suc_right mod_add_left_eq plus_1_eq_Suc)
    then have "0 \<le> snd (reserve_loop n (ss\<lparr>alloc_id := ?a\<rparr>))"
      using Suc.prems j by (intro Suc.IH [of j]) simp_all
    then show ?thesis using False by (simp add: reserve_loop_Suc Let_def del: reserve_loop.simps)
  qed
qed simp


section \<open>The table and the pipe\<close>

definition created_ids :: "request list \<Rightarrow> int list" where
  "created_ids rqs = List.map_filter creates rqs"

lemma created_ids_simps [simp]:
  "created_ids [] = []" "created_ids (rq # rqs) = (case creates rq of None \<Rightarrow> created_ids rqs | Some i \<Rightarrow> i # created_ids rqs)"
  "created_ids (a @ b) = created_ids a @ created_ids b"
  by (simp_all add: created_ids_def map_filter_def split: option.split)

text \<open>A request that a reserved slot cannot take comes after the request that creates the socket; \<open>C\<close> are identifiers created before.\<close>

fun pipe_ok :: "socket_server \<Rightarrow> int set \<Rightarrow> request list \<Rightarrow> bool" where
  "pipe_ok ss C [] = True"
| "pipe_ok ss C (rq # rqs) =
     ((\<forall>i. needs rq = Some i \<and> reserved_as ss i \<longrightarrow> i \<in> C) \<and> pipe_ok ss (C \<union> set_option (creates rq)) rqs)"

lemma pipe_ok_mono:
  "pipe_ok ss C rqs \<Longrightarrow> (\<And>i. reserved_as ss' i \<Longrightarrow> \<exists>rq \<in> set rqs. needs rq = Some i \<Longrightarrow> reserved_as ss i \<and> (i \<in> C \<longrightarrow> i \<in> C')) \<Longrightarrow> pipe_ok ss' C' rqs"
proof (induction rqs arbitrary: C C')
  case (Cons rq rqs)
  have "pipe_ok ss' (C' \<union> set_option (creates rq)) rqs"
    by (rule Cons.IH [of "C \<union> set_option (creates rq)"]) (use Cons.prems in auto)
  then show ?case using Cons.prems by auto
qed simp

lemma pipe_ok_snoc: "pipe_ok ss C (rqs @ [rq]) \<longleftrightarrow> pipe_ok ss C rqs \<and> (\<forall>i. needs rq = Some i \<and> reserved_as ss i \<longrightarrow> i \<in> C \<union> set (created_ids rqs))"
  by (induction rqs arbitrary: C) (auto split: option.splits)

text \<open>
  The table: sockets are in order, the reserved identifiers are those that services are about to use (\<open>R\<close>) and those with a
  request in the pipe, each of them once.
\<close>

definition table_ok :: "socket_server \<Rightarrow> int set \<Rightarrow> bool" where
  "table_ok ss R \<longleftrightarrow> (\<forall>k. sock_ok (slot ss k)) \<and> distinct (created_ids (ss_pipe ss)) \<and> set (created_ids (ss_pipe ss)) \<inter> R = {} \<and>
     (\<forall>i. reserved_as ss i \<longleftrightarrow> i \<in> set (created_ids (ss_pipe ss)) \<union> R) \<and>
     (\<forall>k. sk_type (slot ss k) = SOCKET_TYPE_RESERVE \<longrightarrow> HASH_ID (sk_id (slot ss k)) = k) \<and>
     pipe_ok ss {} (ss_pipe ss) \<and> (\<forall>rq \<in> set (ss_pipe ss). plain_low rq)"

lemma reserved_cong: "slot ss' = slot ss \<Longrightarrow> reserved_as ss' = reserved_as ss"
  by (rule ext) (simp add: reserved_as_def)

lemma pipe_ok_cong:
  assumes "slot ss' = slot ss"
  shows "pipe_ok ss' C rqs = pipe_ok ss C rqs"
proof (induction rqs arbitrary: C)
  case (Cons rq rqs)
  then show ?case unfolding pipe_ok.simps reserved_cong [OF assms] by blast
qed simp

lemma table_ok_cong: assumes "slot ss' = slot ss" and "ss_pipe ss' = ss_pipe ss" shows "table_ok ss' R = table_ok ss R"
  unfolding table_ok_def reserved_cong [OF assms(1)] pipe_ok_cong [OF assms(1)] assms ..

text \<open>An operation that keeps what is reserved.\<close>

lemma table_same_reserved:
  assumes t: "table_ok ss R" and ok: "\<forall>k. sock_ok (slot ss' k)" and p: "ss_pipe ss' = ss_pipe ss"
    and r: "\<And>k. sk_type (slot ss' k) = SOCKET_TYPE_RESERVE \<longleftrightarrow> sk_type (slot ss k) = SOCKET_TYPE_RESERVE"
      "\<And>k. sk_type (slot ss k) = SOCKET_TYPE_RESERVE \<Longrightarrow> sk_id (slot ss' k) = sk_id (slot ss k)"
  shows "table_ok ss' R"
proof -
  have eq: "reserved_as ss' = reserved_as ss" using r by (intro ext) (auto simp: reserved_as_def)
  have "pipe_ok ss' {} (ss_pipe ss)" by (rule pipe_ok_mono [of ss "{}"]) (use t eq in \<open>simp_all add: table_ok_def\<close>)
  then show ?thesis using t ok p r eq by (simp add: table_ok_def)
qed

lemma touches_table:
  assumes t: "table_ok ss R" and c: "touches k ss ss' u"
  shows "table_ok ss' R"
proof -
  obtain s' where s': "ss' = set_socket k s' ss" "sock_ok s'" "sk_type s' = SOCKET_TYPE_RESERVE \<longleftrightarrow> sk_type (slot ss k) = SOCKET_TYPE_RESERVE"
      "sk_id s' = sk_id (slot ss k)"
    using c by (auto simp: touches_def moves_to_def)
  show ?thesis by (rule table_same_reserved [OF t]) (use t s' in \<open>auto simp: table_ok_def\<close>)
qed

text \<open>The first request of the pipe is done.\<close>

lemma table_created:
  assumes t: "table_ok ss R" and p: "ss_pipe ss = rq # rest" "creates rq = Some i" and c: "changes (HASH_ID i) (ss\<lparr>ss_pipe := rest\<rparr>) ss' u"
  shows "table_ok ss' R"
proof -
  let ?k = "HASH_ID i"
  obtain s' where s': "ss' = set_socket ?k s' (ss\<lparr>ss_pipe := rest\<rparr>)" "sock_ok s'" "sk_type s' \<noteq> SOCKET_TYPE_RESERVE"
    using c by (auto simp: changes_def moves_to_def)
  have "reserved_as ss i" using t p by (simp add: table_ok_def)
  then have eq: "reserved_as ss' j \<longleftrightarrow> reserved_as ss j \<and> j \<noteq> i" for j using s' by (auto simp: reserved_as_def)
  have "pipe_ok ss {i} rest" using t p by (simp add: table_ok_def)
  then have "pipe_ok ss' {} rest" by (rule pipe_ok_mono) (simp add: eq)
  then show ?thesis using t p s' eq by (auto simp: table_ok_def)
qed

lemma table_done:
  assumes t: "table_ok ss R" and p: "ss_pipe ss = rq # rest" "creates rq = None"
  shows "table_ok (ss\<lparr>ss_pipe := rest\<rparr>) R"
proof -
  have eq: "reserved_as (ss\<lparr>ss_pipe := rest\<rparr>) = reserved_as ss" by (rule reserved_cong) simp
  have "pipe_ok (ss\<lparr>ss_pipe := rest\<rparr>) {} rest" using t p pipe_ok_cong [of "ss\<lparr>ss_pipe := rest\<rparr>" ss] by (simp add: table_ok_def)
  then show ?thesis using t p eq by (simp add: table_ok_def)
qed


section \<open>Events\<close>

definition ev_slots :: "sock_event list \<Rightarrow> nat list" where
  "ev_slots es = List.map_filter ev_s es"

lemma ev_slots_simps [simp]: "ev_slots [] = []" "ev_slots (e # es) = (case ev_s e of None \<Rightarrow> ev_slots es | Some i \<Rightarrow> i # ev_slots es)"
  by (simp_all add: ev_slots_def split: option.split)

definition ev_pending :: "socket_server \<Rightarrow> nat list" where
  "ev_pending ss = ev_slots (drop (event_index ss) (ss_ev ss))"

text \<open>Events that are still to be handled are for different sockets, which are registered.\<close>

definition events_ok :: "socket_server \<Rightarrow> bool" where
  "events_ok ss \<longleftrightarrow> event_index ss \<le> length (ss_ev ss) \<and> distinct (ev_pending ss) \<and> (\<forall>i \<in> set (ev_pending ss). registered (sk_type (slot ss i)))"

lemma clear_first_slots: "ev_slots (clear_first f es) = (case find f (ev_slots es) of None \<Rightarrow> ev_slots es | Some k \<Rightarrow> remove1 k (ev_slots es))"
proof (induction es)
  case (Cons e es)
  show ?case
  proof (cases "ev_s e")
    case None
    then show ?thesis using Cons by (simp split: option.split)
  next
    case (Some i)
    show ?thesis
    proof (cases "f i")
      case True
      then show ?thesis using Some by simp
    next
      case False
      have "k \<noteq> i" if "find f (ev_slots es) = Some k" for k using that False by (auto simp: find_Some_iff)
      then show ?thesis using Some False Cons by (auto split: option.splits)
    qed
  qed
qed simp

text \<open>After a request the event of the socket that it closed is dropped.\<close>

lemma clear_closed_event_fields [simp]:
  "slot (clear_closed_event ss ty m) = slot ss" "ss_pipe (clear_closed_event ss ty m) = ss_pipe ss"
  by (simp_all add: clear_closed_event_def)

lemma cleared_events:
  assumes ev: "events_ok ss" and e: "ss_ev ss' = ss_ev ss" "event_index ss' = event_index ss"
    and others: "\<And>i. i \<noteq> k \<Longrightarrow> slot ss' i = slot ss i"
    and k: "registered (sk_type (slot ss k)) \<Longrightarrow> registered (sk_type (slot ss' k)) \<or>
        (sk_type (slot ss' k) = SOCKET_TYPE_INVALID \<and> (ty = SOCKET_CLOSE \<or> ty = SOCKET_ERROR) \<and> res_id m = sk_id (slot ss' k))"
  shows "events_ok (clear_closed_event ss' ty m)"
proof -
  let ?f = "\<lambda>i. sk_type (slot ss' i) = SOCKET_TYPE_INVALID \<and> sk_id (slot ss' i) = res_id m"
  let ?p = "ev_pending ss"
  have reg: "registered (sk_type (slot ss i))" if "i \<in> set ?p" for i using ev that by (simp add: events_ok_def)
  have dist: "distinct ?p" and len: "event_index ss \<le> length (ss_ev ss)" using ev by (simp_all add: events_ok_def)
  show ?thesis
  proof (cases "ty = SOCKET_CLOSE \<or> ty = SOCKET_ERROR")
    case False
    then have "registered (sk_type (slot ss' i))" if "i \<in> set ?p" for i using reg [OF that] others [of i] k by (cases "i = k") auto
    then show ?thesis using False dist len e by (simp add: clear_closed_event_def events_ok_def ev_pending_def)
  next
    case True
    have pend: "ev_pending (clear_closed_event ss' ty m) = (case find ?f ?p of None \<Rightarrow> ?p | Some j \<Rightarrow> remove1 j ?p)"
      using True e len by (simp add: clear_closed_event_def ev_pending_def clear_first_slots split: option.split)
    have "registered (sk_type (slot ss' i))" if i: "i \<in> set (ev_pending (clear_closed_event ss' ty m))" for i
    proof (rule ccontr)
      assume n: "\<not> registered (sk_type (slot ss' i))"
      have ip: "i \<in> set ?p" using i pend by (auto split: option.splits dest: set_remove1_subset [THEN subsetD])
      have ik: "i = k" using n reg [OF ip] others [of i] by (cases "i = k") auto
      then have fk: "?f k" using n k reg [OF ip] by auto
      have "?f j \<Longrightarrow> j \<in> set ?p \<Longrightarrow> j = k" for j using reg [of j] others [of j] by (cases "j = k") auto
      then have only: "find ?f ?p = Some j \<Longrightarrow> j = k" for j by (auto simp: find_Some_iff)
      have "find ?f ?p \<noteq> None" using fk ip ik by (auto simp: find_None_iff)
      then have "find ?f ?p = Some k" using only by blast
      then show False using i pend ik dist by simp
    qed
    moreover have "distinct (ev_pending (clear_closed_event ss' ty m))" using pend dist by (simp split: option.split)
    moreover have "event_index (clear_closed_event ss' ty m) \<le> length (ss_ev (clear_closed_event ss' ty m))"
      using e len by (simp add: clear_closed_event_def)
    ultimately show ?thesis by (simp add: events_ok_def)
  qed
qed

lemma event_handlers_ok:
  assumes ok: "sock_ok (slot ss k)" and c: "carries (sk_type (slot ss k))"
  shows "ends_in {} (forward_message_tcp ans ss k) (\<lambda>((ss', t), out). changes k ss ss' t)"
    "ends_in {} (forward_message_udp uans ss k) (\<lambda>((ss', t), out). changes k ss ss' t)"
    "ends_in {} (report_connect err peer ss k) (\<lambda>((ss', t), out). changes k ss ss' t)"
proof -
  let ?s = "slot ss k"
  have t: "sk_type ?s \<noteq> SOCKET_TYPE_RESERVE" "sk_type ?s \<noteq> SOCKET_TYPE_INVALID" using c by auto
  have cl: "ends_in {} (andThen (force_close ss k) (\<lambda>((ss, m), out). Inr ((ss, Some (ty, f m)), out))) (\<lambda>((ss', t), out). changes k ss ss' t)"
    if "ty = SOCKET_CLOSE \<or> ty = SOCKET_ERROR" "\<And>m. res_id (f m) = res_id m" for ty f
  proof (rule force_close_ok [OF t(1)])
    fix s' m out assume f: "force_close ss k = Inr ((set_socket k s' ss, m), out)" "sk_type s' = SOCKET_TYPE_INVALID" "sock_ok s'"
      "sk_id s' = sk_id ?s" "res_id m = sk_id ?s" "written out = []"
    then have "changes k ss (set_socket k s' ss) (Some (ty, f m))" using that by (intro changesI closed_moves closesI) simp_all
    with f show ?thesis by simp
  qed (use t in simp)
  have same: "changes k ss ss t'" for t' using ok t by (intro changes_same) simp_all
  have psz: "changes k ss (set_socket k (?s\<lparr>p_size := z\<rparr>) ss) t'" for z t'
    by (rule changesI) (use ok c in \<open>auto simp: moves_to_def sock_ok_def\<close>)
  have con: "changes k ss (set_type k SOCKET_TYPE_CONNECTED ss) t'" for t'
    unfolding set_type_def by (rule changesI) (use ok c in \<open>auto simp: moves_to_def sock_ok_def\<close>)
  show "ends_in {} (forward_message_tcp ans ss k) (\<lambda>((ss', t), out). changes k ss ss' t)"
    using cl [of SOCKET_CLOSE "\<lambda>m. m"] cl [of SOCKET_ERROR "\<lambda>m. m\<lparr>res_data := Static_text x\<rparr>" for x] same psz
    by (cases ans) (simp_all add: forward_message_tcp_def Let_def)
  show "ends_in {} (forward_message_udp uans ss k) (\<lambda>((ss', t), out). changes k ss ss' t)"
    using cl [of SOCKET_ERROR "\<lambda>m. m\<lparr>res_data := Static_text x\<rparr>" for x] same by (cases uans) (simp_all add: forward_message_udp_def Let_def)
  show "ends_in {} (report_connect err peer ss k) (\<lambda>((ss', t), out). changes k ss ss' t)"
    using cl [of SOCKET_ERROR "\<lambda>m. m\<lparr>res_data := Static_text x\<rparr>" for x] con by (cases err) (simp_all add: report_connect_def Let_def)
qed

text \<open>A change of a socket whose event has been taken from the list.\<close>

lemma changes_events:
  assumes ev: "events_ok ss" and i: "i \<notin> set (ev_pending ss)" and c: "changes i ss ss' t"
  shows "events_ok ss'"
proof -
  obtain s' where "ss' = set_socket i s' ss" using c by (auto simp: changes_def)
  then show ?thesis using ev i by (auto simp: events_ok_def ev_pending_def)
qed

lemma socket_event_ok:
  assumes ok: "\<forall>k. sock_ok (slot ss k)" and c: "carries (sk_type (slot ss i))" and ev: "events_ok ss"
    and e: "0 < event_index ss" "ss_ev ss ! (event_index ss - 1) = e" "ev_s e = Some i" and i: "i \<notin> set (ev_pending ss)"
  shows "ends_in {} (socket_event sy ss i e) (\<lambda>((ss', t), out). \<exists>ss2. changes i ss ss2 t \<and> slot ss' = slot ss2 \<and> ss_pipe ss' = ss_pipe ss \<and> events_ok ss')"
    (is "ends_in _ _ ?G")
proof -
  have oki: "sock_ok (slot ss i)" using ok by blast
  have plain: "?G ((ss', t), out)" if ch: "changes i ss ss' t" for ss' t out
    using ch changes_events [OF ev i ch] by (auto simp: changes_def)
  have rewind: "?G ((ss'\<lparr>ss_ev := (ss_ev ss')[event_index ss' - 1 := e'], event_index := event_index ss' - 1\<rparr>, t), out)"
    if ch: "changes i ss ss' t" and t: "map_option fst t \<noteq> Some SOCKET_CLOSE" "map_option fst t \<noteq> Some SOCKET_ERROR" and e': "ev_s e' = Some i" for ss' t out e'
  proof -
    obtain s' where s': "ss' = set_socket i s' ss" "moves_to (slot ss i) s' t" using ch by (auto simp: changes_def)
    have "registered (sk_type s')" using s'(2) c t by (auto simp: moves_to_def closes_def)
    moreover have len: "event_index ss - 1 < length (ss_ev ss)" "Suc (event_index ss - 1) = event_index ss" using ev e(1) by (auto simp: events_ok_def)
    moreover have "drop (event_index ss - 1) ((ss_ev ss)[event_index ss - 1 := e']) = e' # drop (event_index ss) (ss_ev ss)"
      using len by (simp add: Cons_nth_drop_Suc [symmetric])
    ultimately have "events_ok (ss'\<lparr>ss_ev := (ss_ev ss')[event_index ss' - 1 := e'], event_index := event_index ss' - 1\<rparr>)"
      using s'(1) ev i e' by (auto simp: events_ok_def ev_pending_def)
    then show ?thesis using ch s'(1) by auto
  qed
  have upd: "ss'\<lparr>event_index := event_index ss' - 1\<rparr> = ss'\<lparr>ss_ev := (ss_ev ss')[event_index ss' - 1 := e], event_index := event_index ss' - 1\<rparr>"
    if "changes i ss ss' t" for ss' t
  proof -
    have "ss_ev ss' = ss_ev ss" "event_index ss' = event_index ss" using that by (auto simp: changes_def)
    then have "(ss_ev ss')[event_index ss' - 1 := e] = ss_ev ss'" using e(2) by (metis list_update_id)
    then show ?thesis by simp
  qed
  have after: "ends_in {} (let k = event_index ss' - 1; ty = map_option fst t in
             if ty = Some SOCKET_UDP then Inr ((ss'\<lparr>event_index := k\<rparr>, t), out)
             else if ev_write e \<and> ty \<noteq> Some SOCKET_CLOSE \<and> ty \<noteq> Some SOCKET_ERROR
             then Inr ((ss'\<lparr>ss_ev := (ss_ev ss')[k := e\<lparr>ev_read := False\<rparr>], event_index := k\<rparr>, t), out)
             else Inr ((ss', t), out)) ?G" if ch: "changes i ss ss' t" for ss' t out
  proof (cases "map_option fst t = Some SOCKET_UDP")
    case True
    then have "map_option fst t \<noteq> Some SOCKET_CLOSE" "map_option fst t \<noteq> Some SOCKET_ERROR" by auto
    from rewind [OF ch this e(3)] True show ?thesis unfolding upd [OF ch] Let_def by simp
  next
    case False
    then show ?thesis using plain [OF ch] rewind [OF ch, of "e\<lparr>ev_read := False\<rparr>"] e(3) by (simp add: Let_def)
  qed
  have rd: "ends_in {} (if sk_protocol (slot ss i) = PROTOCOL_TCP then forward_message_tcp (sys_read sy) ss i else forward_message_udp (sys_recv sy) ss i)
      (\<lambda>((ss', t), out). changes i ss ss' t)" using event_handlers_ok [OF oki c] by simp
  have wr: "ends_in {} (send_buffer (sys_io sy) ss i) ?G"
    by (rule ends_in_weaken [OF send_buffer_ok [OF oki c]]) (use plain in auto)
  have no: "?G ((ss, None), [])" using oki c by (intro plain changes_same) auto
  have "ends_in {} (andThen (if sk_protocol (slot ss i) = PROTOCOL_TCP then forward_message_tcp (sys_read sy) ss i else forward_message_udp (sys_recv sy) ss i)
      (\<lambda>((ss, t), out). let k = event_index ss - 1; ty = map_option fst t in
             if ty = Some SOCKET_UDP then Inr ((ss\<lparr>event_index := k\<rparr>, t), out)
             else if ev_write e \<and> ty \<noteq> Some SOCKET_CLOSE \<and> ty \<noteq> Some SOCKET_ERROR
             then Inr ((ss\<lparr>ss_ev := (ss_ev ss)[k := e\<lparr>ev_read := False\<rparr>], event_index := k\<rparr>, t), out)
             else Inr ((ss, t), out))) ?G"
    by (rule ends_in_andThen [OF rd]) (use after in auto)
  then show ?thesis using wr no unfolding socket_event_def by (cases "ev_read e"; cases "ev_write e") simp_all
qed


section \<open>The loop\<close>

definition net_ok :: "socket_server \<Rightarrow> int set \<Rightarrow> bool" where
  "net_ok ss R \<longleftrightarrow> table_ok ss R \<and> events_ok ss"

lemma report_accept_ok:
  assumes t: "table_ok ss R" and ev: "events_ok ss"
  shows "ends_in {} (report_accept ans ss i) (\<lambda>((ss', t), out). net_ok ss' R)"
proof (cases ans)
  case (Accepted fd peer)
  obtain ss1 j where r: "reserve_id ss = (ss1, j)" by (cases "reserve_id ss")
  note cs = reserve_loop_cases [OF r [unfolded reserve_id_def]]
  show ?thesis
  proof (cases "j < 0")
    case True
    then obtain a where "ss1 = ss\<lparr>alloc_id := a\<rparr>" using cs by auto
    moreover have "table_ok (ss\<lparr>alloc_id := a\<rparr>) R" using t table_ok_cong [of "ss\<lparr>alloc_id := a\<rparr>" ss] by simp
    moreover have "events_ok (ss\<lparr>alloc_id := a\<rparr>)" using ev by (simp add: events_ok_def ev_pending_def)
    ultimately show ?thesis using True Accepted r by (simp add: report_accept_def net_ok_def)
  next
    case False
    let ?k = "HASH_ID j" let ?s = "(slot ss ?k)\<lparr>sk_type := SOCKET_TYPE_RESERVE, sk_id := j, sk_fd := -1\<rparr>"
    obtain a where inv: "sk_type (slot ss ?k) = SOCKET_TYPE_INVALID" and ss1: "ss1 = set_socket ?k ?s (ss\<lparr>alloc_id := a\<rparr>)"
      using cs False by auto
    have okk: "sock_ok (slot ss ?k)" using t by (simp add: table_ok_def)
    have "sock_ok (slot ss1 ?k)" "sk_type (slot ss1 ?k) = SOCKET_TYPE_RESERVE" "sk_id (slot ss1 ?k) = j"
      using okk inv ss1 by (simp_all add: sock_ok_def)
    then obtain s out where n: "new_fd False ss1 j fd PROTOCOL_TCP (sk_opaque (slot ss i)) False = Inr ((set_socket ?k s ss1, Some ?k), out)"
        "sk_high s = []" "sk_low s = []" "wb_size s = 0"
      by (rule new_fd_cases [where full = False and add = False]) simp_all
    let ?ss = "set_type ?k SOCKET_TYPE_PACCEPT (set_socket ?k s ss1)"
    have sl: "slot ?ss = (slot ss)(?k := s\<lparr>sk_type := SOCKET_TYPE_PACCEPT\<rparr>)" "ss_pipe ?ss = ss_pipe ss" "ss_ev ?ss = ss_ev ss" "event_index ?ss = event_index ss"
      using ss1 by (simp_all add: set_type_def)
    have "sock_ok (s\<lparr>sk_type := SOCKET_TYPE_PACCEPT\<rparr>)" using n by (simp add: sock_ok_def)
    then have "table_ok ?ss R" using t inv by (intro table_same_reserved [OF t]) (auto simp: sl table_ok_def)
    moreover have "events_ok ?ss" using ev inv by (auto simp: events_ok_def ev_pending_def sl)
    ultimately show ?thesis using False Accepted r n(1) by (simp add: report_accept_def net_ok_def Let_def)
  qed
qed (use assms in \<open>simp_all add: report_accept_def net_ok_def Let_def\<close>)

text \<open>What the system reports: events of different sockets that are registered.\<close>

definition wait_ok :: "socket_server \<Rightarrow> sock_event list \<Rightarrow> bool" where
  "wait_ok ss es \<longleftrightarrow> distinct (ev_slots (take MAX_EVENT es)) \<and> (\<forall>i \<in> set (ev_slots (take MAX_EVENT es)). registered (sk_type (slot ss i)))"

lemma poll_event_ok:
  assumes t: "table_ok ss R" and ev: "events_ok ss" and w: "wait_ok ss (sys_wait sy)"
  shows "ends_in {} (poll_event sy ss) (\<lambda>((ss', r), out). net_ok ss' R)"
proof -
  define ss1 where "ss1 = (if event_index ss = length (ss_ev ss)
      then ss\<lparr>ss_ev := take MAX_EVENT (sys_wait sy), checkctrl := True, event_index := 0\<rparr> else ss)"
  note def = poll_event_def [of sy ss, folded ss1_def]
  have sl: "slot ss1 = slot ss" "ss_pipe ss1 = ss_pipe ss" by (simp_all add: ss1_def)
  have t1: "table_ok ss1 R" using t table_ok_cong [OF sl] by simp
  have ev1: "events_ok ss1" using ev w by (auto simp: ss1_def events_ok_def ev_pending_def wait_ok_def)
  show ?thesis
  proof (cases "ss_ev ss1 = []")
    case True
    then show ?thesis using t1 ev1 def by (simp add: net_ok_def)
  next
    case False
    have idx: "event_index ss1 < length (ss_ev ss1)" using False ev by (auto simp: ss1_def events_ok_def)
    define e where "e = ss_ev ss1 ! event_index ss1"
    define ss2 where "ss2 = ss1\<lparr>event_index := event_index ss1 + 1\<rparr>"
    have sl2: "slot ss2 = slot ss1" "ss_pipe ss2 = ss_pipe ss1" by (simp_all add: ss2_def)
    have t2: "table_ok ss2 R" using t1 table_ok_cong [OF sl2] by simp
    have "drop (event_index ss1) (ss_ev ss1) = e # drop (event_index ss2) (ss_ev ss2)" using idx by (simp add: e_def ss2_def Cons_nth_drop_Suc)
    then have pend: "ev_pending ss1 = (case ev_s e of None \<Rightarrow> ev_pending ss2 | Some i \<Rightarrow> i # ev_pending ss2)" by (simp add: ev_pending_def split: option.split)
    then have ev2: "events_ok ss2" using ev1 idx by (auto simp: events_ok_def sl2 ss2_def split: option.splits)
    note def2 = def [unfolded Let_def, folded e_def ss2_def]
    show ?thesis
    proof (cases "ev_s e")
      case None
      then show ?thesis using False t2 ev2 def2 by (simp add: net_ok_def)
    next
      case (Some i)
      have reg: "registered (sk_type (slot ss2 i))" and i: "i \<notin> set (ev_pending ss2)" using ev1 pend Some by (auto simp: events_ok_def sl2)
      have okk: "\<forall>k. sock_ok (slot ss2 k)" using t2 by (simp add: table_ok_def)
      have nr: "sk_type (slot ss2 i) \<noteq> SOCKET_TYPE_RESERVE" using reg by auto
      have ch: "net_ok ss' R" if c: "changes i ss2 ss' u" for ss' u
        using touches_table [OF t2 touches_changes [OF nr c]] changes_events [OF ev2 i c] by (simp add: net_ok_def)
      have e: "0 < event_index ss2" "ss_ev ss2 ! (event_index ss2 - 1) = e" by (simp_all add: ss2_def e_def)
      have "ends_in {} (case sk_type (slot ss2 i) of
             SOCKET_TYPE_CONNECTING \<Rightarrow> report_connect (sys_sockerr sy) (sys_peer sy) ss2 i
           | SOCKET_TYPE_LISTEN \<Rightarrow> report_accept (sys_accept sy) ss2 i
           | SOCKET_TYPE_INVALID \<Rightarrow> Inr ((ss2, None), [Print ''socket-server: invalid socket''])
           | _ \<Rightarrow> socket_event sy ss2 i e) (\<lambda>((ss', t), out). net_ok ss' R)"
      proof (cases "sk_type (slot ss2 i) = SOCKET_TYPE_LISTEN")
        case True
        then show ?thesis using report_accept_ok [OF t2 ev2, of "sys_accept sy" i] by simp
      next
        case nl: False
        then have c: "carries (sk_type (slot ss2 i))" using reg by (simp add: registered_def)
        have sev: "net_ok ss' R" if "changes i ss2 ss3 t" "slot ss' = slot ss3" "ss_pipe ss' = ss_pipe ss2" "events_ok ss'" for ss' ss3 t
        proof -
          have "ss_pipe ss3 = ss_pipe ss2" using that(1) by (auto simp: changes_def)
          then show ?thesis using ch [OF that(1)] table_ok_cong [of ss' ss3] that(2-4) by (simp add: net_ok_def)
        qed
        have con: "ends_in {} (report_connect (sys_sockerr sy) (sys_peer sy) ss2 i) (\<lambda>((ss', t), out). net_ok ss' R)"
          by (rule ends_in_weaken [OF event_handlers_ok(3) [OF okk [rule_format] c]]) (use ch in auto)
        have "ends_in {} (socket_event sy ss2 i e) (\<lambda>((ss', t), out). net_ok ss' R)"
          by (rule ends_in_weaken [OF socket_event_ok [OF okk c ev2 e Some i]]) (use sev in auto)
        then show ?thesis using con c nl by (cases "sk_type (slot ss2 i)") simp_all
      qed
      then have "ends_in {} (andThen (case sk_type (slot ss2 i) of
             SOCKET_TYPE_CONNECTING \<Rightarrow> report_connect (sys_sockerr sy) (sys_peer sy) ss2 i
           | SOCKET_TYPE_LISTEN \<Rightarrow> report_accept (sys_accept sy) ss2 i
           | SOCKET_TYPE_INVALID \<Rightarrow> Inr ((ss2, None), [Print ''socket-server: invalid socket''])
           | _ \<Rightarrow> socket_event sy ss2 i e) (\<lambda>x. Inr (again_or x))) (\<lambda>((ss', r), out). net_ok ss' R)"
        by (rule ends_in_andThen) (auto simp: again_or_def split: prod.splits)
      then show ?thesis using False Some def2 by simp
    qed
  qed
qed

lemma poll_turn_ok:
  assumes inv: "net_ok ss R" and w: "wait_ok ss (sys_wait sy)"
  shows "ends_in {} (poll_turn sy ss) (\<lambda>((ss', r), out). net_ok ss' R)"
proof -
  have t: "table_ok ss R" and ev: "events_ok ss" using inv by (simp_all add: net_ok_def)
  show ?thesis
  proof (cases "checkctrl ss")
    case False
    then show ?thesis using poll_event_ok [OF t ev w] by (simp add: poll_turn_def)
  next
    case c: True
    show ?thesis
    proof (cases "ss_pipe ss")
      case Nil
      let ?ss = "ss\<lparr>checkctrl := False\<rparr>"
      have "table_ok ?ss R" using t table_ok_cong [of ?ss ss] by simp
      moreover have "events_ok ?ss" using ev by (simp add: events_ok_def ev_pending_def)
      moreover have "wait_ok ?ss (sys_wait sy)" using w by (simp add: wait_ok_def)
      ultimately show ?thesis using c Nil poll_event_ok [of ?ss R sy] by (simp add: poll_turn_def)
    next
      case (Cons rq rest)
      let ?ss = "ss\<lparr>ss_pipe := rest\<rparr>"
      have res: "reserved_as ?ss = reserved_as ss" by (rule reserved_cong) simp
      have "\<forall>k. sock_ok (slot ?ss k)" "\<forall>i. creates rq = Some i \<longrightarrow> reserved_as ?ss i" "\<forall>i. needs rq = Some i \<longrightarrow> \<not> reserved_as ?ss i" "plain_low rq"
        using t Cons unfolding res by (auto simp: table_ok_def)
      from ctrl_cmd_ok [OF this, of sy] obtain ss' u out where cmd: "ctrl_cmd sy ?ss rq = Inr ((ss', u), out)"
          "case creates rq of Some i \<Rightarrow> changes (HASH_ID i) ?ss ss' u | None \<Rightarrow> \<exists>k. touches k ?ss ss' u"
        by (cases "ctrl_cmd sy ?ss rq") auto
      have tab: "table_ok ss' R"
        using cmd(2) table_created [OF t Cons] touches_table [OF table_done [OF t Cons]] by (cases "creates rq") auto
      obtain k s' where s': "ss' = set_socket k s' ?ss" "registered (sk_type (slot ss k)) \<longrightarrow> registered (sk_type s') \<or> (sk_type s' = SOCKET_TYPE_INVALID \<and> closes u (sk_id s'))"
        using cmd(2) by (auto simp: changes_def touches_def moves_to_def split: option.splits)
      have ev': "events_ok (clear_closed_event ss' ty m)" if "u = Some (ty, m)" for ty m
        by (rule cleared_events [OF ev, of _ k]) (use s' that in \<open>auto simp: closes_def\<close>)
      have "events_ok ss'" if "u = None" using ev s' that by (auto simp: events_ok_def ev_pending_def closes_def)
      then show ?thesis using c Cons cmd(1) tab ev' table_ok_cong [of "clear_closed_event ss' ty m" ss' for ty m]
        by (cases u) (auto simp: poll_turn_def net_ok_def)
    qed
  qed
qed

section \<open>All threads\<close>

text \<open>
  A service reserves an identifier, puts the request that creates the socket into the pipe, and makes other requests with identifiers it
  has been given; the socket thread runs turns of its loop. Four conditions restrict this relation, and the code does not enforce any of them.
  Requests to close or to send name identifiers whose creating request is already in the pipe (\<open>i \<notin> R\<close>): on a slot that is only reserved
  they would fail an assertion. Packages of low priority are plain buffers (\<open>plain_low\<close>): a user object makes \<open>send_buffer\<close> fail an assertion. An identifier is
  not issued again while requests for its last owner are in the pipe (the counter runs through \<open>2 ^ 31\<close> values). And a turn of the socket thread is one
  step: when a service reserves a slot in the middle of a turn, between \<open>force_close\<close> and \<open>clear_closed_event\<close>, an event of its last
  owner can survive.
\<close>

inductive net_step :: "socket_server \<times> int set \<Rightarrow> socket_server \<times> int set \<Rightarrow> bool" where
  reserve: "reserve_id ss = (ss', i) \<Longrightarrow> 0 \<le> i \<Longrightarrow> \<forall>rq \<in> set (ss_pipe ss). needs rq \<noteq> Some i \<Longrightarrow> net_step (ss, R) (ss', insert i R)"
| create: "creates rq = Some i \<Longrightarrow> i \<in> R \<Longrightarrow> net_step (ss, R) (send_request ss rq, R - {i})"
| request: "creates rq = None \<Longrightarrow> \<forall>i. needs rq = Some i \<longrightarrow> i \<notin> R \<Longrightarrow> plain_low rq \<Longrightarrow> net_step (ss, R) (send_request ss rq, R)"
| poll: "wait_ok ss (sys_wait sy) \<Longrightarrow> poll_turn sy ss = Inr ((ss', r), out) \<Longrightarrow> net_step (ss, R) (ss', R)"

lemma send_request_fields [simp]: "slot (send_request ss rq) = slot ss" "ss_pipe (send_request ss rq) = ss_pipe ss @ [rq]"
  by (simp_all add: send_request_def)

lemma send_request_events: "events_ok (send_request ss rq) = events_ok ss"
  by (simp add: send_request_def events_ok_def ev_pending_def)

lemma net_reserve:
  assumes inv: "net_ok ss R" and r: "reserve_id ss = (ss', i)" "0 \<le> i" and n: "\<forall>rq \<in> set (ss_pipe ss). needs rq \<noteq> Some i"
  shows "net_ok ss' (insert i R)"
proof -
  have t: "table_ok ss R" and ev: "events_ok ss" using inv by (simp_all add: net_ok_def)
  let ?s = "(slot ss (HASH_ID i))\<lparr>sk_type := SOCKET_TYPE_RESERVE, sk_id := i, sk_fd := -1\<rparr>"
  obtain a where a: "sk_type (slot ss (HASH_ID i)) = SOCKET_TYPE_INVALID" "ss' = set_socket (HASH_ID i) ?s (ss\<lparr>alloc_id := a\<rparr>)"
    using reserve_loop_cases [OF r(1) [unfolded reserve_id_def]] r(2) by auto
  have nr: "\<not> reserved_as ss i" using a(1) by (simp add: reserved_as_def)
  have eq: "reserved_as ss' j \<longleftrightarrow> reserved_as ss j \<or> j = i" for j using a by (auto simp: reserved_as_def)
  have "pipe_ok ss' {} (ss_pipe ss)"
    by (rule pipe_ok_mono [of ss "{}"]) (use t n eq in \<open>auto simp: table_ok_def\<close>)
  moreover have "sock_ok ?s" using t a(1) by (auto simp: table_ok_def sock_ok_def)
  ultimately have "table_ok ss' (insert i R)" using t a nr eq by (auto simp: table_ok_def)
  moreover have "events_ok ss'" using ev a by (auto simp: events_ok_def ev_pending_def)
  ultimately show ?thesis by (simp add: net_ok_def)
qed

lemma net_request:
  assumes inv: "net_ok ss R" and c: "case creates rq of Some i \<Rightarrow> i \<in> R \<and> R' = R - {i} | None \<Rightarrow> R' = R"
    and n: "\<forall>i. needs rq = Some i \<longrightarrow> i \<notin> R" and p: "plain_low rq"
  shows "net_ok (send_request ss rq) R'"
proof -
  have t: "table_ok ss R" and ev: "events_ok ss" using inv by (simp_all add: net_ok_def)
  have res: "reserved_as (send_request ss rq) = reserved_as ss" by (rule reserved_cong) simp
  have "pipe_ok (send_request ss rq) {} (ss_pipe ss @ [rq])"
    unfolding pipe_ok_snoc res using t n pipe_ok_cong [of "send_request ss rq" ss] by (auto simp: table_ok_def)
  then have "table_ok (send_request ss rq) R'" using t c p unfolding table_ok_def res by (auto split: option.splits)
  then show ?thesis using ev by (simp add: net_ok_def send_request_events)
qed

definition net_inv :: "socket_server \<times> int set \<Rightarrow> bool" where
  "net_inv a = net_ok (fst a) (snd a)"

lemma net_step_inv: "net_step a b \<Longrightarrow> net_inv a \<Longrightarrow> net_inv b"
proof (induction rule: net_step.induct)
  case (reserve ss ss' i R)
  then show ?case using net_reserve by (simp add: net_inv_def)
next
  case (create rq i R ss)
  have "needs rq = None" "plain_low rq" using create(1) by (cases rq; simp)+
  then show ?case using create net_request [where ss = ss and R = R and rq = rq and R' = "R - {i}"] by (simp add: net_inv_def)
next
  case (request rq R ss)
  then show ?case using net_request [where ss = ss and R = R and rq = rq and R' = R] by (simp add: net_inv_def)
next
  case (poll ss sy ss' r out R)
  then show ?case using poll_turn_ok [of ss R sy] by (simp add: net_inv_def)
qed

lemma create_net_ok: "net_ok (socket_server_create cell) {}"
  by (auto simp: net_ok_def table_ok_def events_ok_def ev_pending_def socket_server_create_def clear_wb_list_def sock_ok_def reserved_as_def)

interpretation net: safety "(socket_server_create cell, {})" net_step net_inv for cell
  by unfold_locales (auto simp: net_inv_def intro: create_net_ok dest: net_step_inv [unfolded net_inv_def])


section \<open>What holds of every reachable server\<close>

lemma offset_to: "k < (m :: nat) \<Longrightarrow> \<exists>j < m. (a + j) mod m = k"
proof (intro exI conjI)
  assume k: "k < m"
  show "(k + (m - a mod m)) mod m < m" using k by simp
  have "a mod m \<le> m" using k by (simp add: less_imp_le)
  then have "a mod m + (k + (m - a mod m)) = k + m" by simp
  then have "(a mod m + (k + (m - a mod m))) mod m = k" using k by simp
  then show "(a + (k + (m - a mod m)) mod m) mod m = k" by (simp add: mod_simps)
qed

lemma reserve_loop_bound: "snd (reserve_loop n ss) < 2 ^ 31"
proof (induction n arbitrary: ss)
  case (Suc n)
  have "sint (next_id (alloc_id ss)) < 2 ^ 31" using sint_lt [of "next_id (alloc_id ss)"] by simp
  then show ?case using Suc [of "ss\<lparr>alloc_id := next_id (alloc_id ss)\<rparr>"] by (simp add: reserve_loop_Suc Let_def del: reserve_loop.simps)
qed simp

text \<open>C16: \<open>reserve_id\<close> finds a free slot whenever the table has one, however many others are in use and wherever its counter is: the
  identifier is not negative, its slot was free, and this slot alone changes, to a reserved slot with the new identifier.
  Only a full table gives -1, and is left as it is.\<close>

theorem reserve_id_correct:
  "case reserve_id ss of (ss', i) \<Rightarrow>
     if \<exists>k. k < MAX_SOCKET \<and> sk_type (slot ss k) = SOCKET_TYPE_INVALID
     then 0 \<le> i \<and> i < 2 ^ 31 \<and> sk_type (slot ss (HASH_ID i)) = SOCKET_TYPE_INVALID \<and>
       slot ss' = (slot ss)(HASH_ID i := (slot ss (HASH_ID i))\<lparr>sk_type := SOCKET_TYPE_RESERVE, sk_id := i, sk_fd := -1\<rparr>)
     else i = -1 \<and> slot ss' = slot ss"
proof -
  obtain ss' i where r: "reserve_id ss = (ss', i)" by (cases "reserve_id ss")
  note cs = reserve_loop_cases [OF r [unfolded reserve_id_def]]
  have lt: "HASH_ID j < MAX_SOCKET" for j by (simp add: HASH_ID_def MAX_SOCKET_def)
  show ?thesis
  proof (cases "\<exists>k. k < MAX_SOCKET \<and> sk_type (slot ss k) = SOCKET_TYPE_INVALID")
    case True
    then obtain k where k: "k < MAX_SOCKET" "sk_type (slot ss k) = SOCKET_TYPE_INVALID" by blast
    obtain j where "j < MAX_SOCKET" "(unat (alloc_id ss) + 1 + j) mod MAX_SOCKET = k" using offset_to [OF k(1)] by blast
    then have "0 \<le> i" using reserve_loop_finds [of j MAX_SOCKET ss] k(2) r by (simp add: reserve_id_def)
    moreover have "i < 2 ^ 31" using reserve_loop_bound [of MAX_SOCKET ss] r by (simp add: reserve_id_def)
    ultimately show ?thesis using cs True r by auto
  next
    case False
    then have "i = -1" "slot ss' = slot ss" using cs lt by auto
    then show ?thesis using False r by simp
  qed
qed


text \<open>A service opens a listening socket: it has reserved the identifier and put the request into the pipe.\<close>

definition demo_net :: "(nat \<Rightarrow> socket) \<Rightarrow> socket_server" where
  "demo_net cell = send_request (fst (reserve_id (socket_server_create cell))) (Rq_listen (snd (reserve_id (socket_server_create cell))) 5 1)"


end
