(* ===== verification/SocketStream.thy ===== *)
theory SocketStream
  imports SocketSafe
begin

text \<open>
  The order of the bytes on a TCP socket: packages of high and low priority are never mixed or lost, whatever the system takes of each
  write; and the assertion that a user object of low priority breaks.
\<close>

section \<open>The order of the bytes\<close>

lemma append_shuffles: "bs @ c \<in> shuffles c bs"
proof (induction bs)
  case (Cons x bs)
  then show ?case by (cases c) (simp_all add: Cons_in_shuffles_iff)
qed simp

lemma shuffles_left: "xs \<in> shuffles as bs \<Longrightarrow> xs @ c \<in> shuffles (as @ c) bs"
proof (induction xs arbitrary: as bs)
  case (Cons x xs)
  show ?case
  proof (cases as)
    case Nil
    then show ?thesis using Cons.prems append_shuffles [of "x # xs" c] by simp
  next
    case (Cons a as')
    then show ?thesis using Cons.prems Cons.IH [of as' bs] Cons.IH [of as "tl bs"] by (auto simp: Cons_in_shuffles_iff)
  qed
qed (use Nil_in_shuffles in auto)

lemma shuffles_right: "xs \<in> shuffles as bs \<Longrightarrow> xs @ c \<in> shuffles as (bs @ c)"
  using shuffles_left [of xs bs as c] by (simp add: shuffles_commutes)

text \<open>What is left of a list after a run of writes, buffer by buffer.\<close>

lemma write_loop_parts:
  "write_loop ws fd l n = ((ws', l', n', failed), out) \<Longrightarrow>
    \<exists>j \<le> length l. (l' = drop j l \<and> written out = list_bytes (take j l)) \<or>
      (\<exists>z. j < length l \<and> 0 < z \<and> z < length (wb_bytes (l ! j)) \<and>
        l' = (l ! j)\<lparr>wb_ptr := wb_ptr (l ! j) + of_nat z, wb_bytes := drop z (wb_bytes (l ! j))\<rparr> # drop (Suc j) l \<and>
        written out = list_bytes (take j l) @ take z (wb_bytes (l ! j)))"
proof (induction ws fd l n arbitrary: ws' l' n' failed out rule: write_loop.induct)
  case (3 w ws fd b bs n)
  show ?case
  proof (cases w)
    case (Moved k)
    let ?z = "min k (length (wb_bytes b))"
    show ?thesis
    proof (cases "?z = length (wb_bytes b)")
      case True
      obtain r out1 where r: "write_loop ws fd bs (n - int ?z) = (r, out1)" by (cases "write_loop ws fd bs (n - int ?z)")
      with "3.prems" Moved True have eq: "out = Wrote fd (wb_bytes b) # write_buffer_free b @ out1" "r = (ws', l', n', failed)"
        by (auto simp: Let_def)
      have "\<exists>j \<le> length bs. (l' = drop j bs \<and> written out1 = list_bytes (take j bs)) \<or>
        (\<exists>z. j < length bs \<and> 0 < z \<and> z < length (wb_bytes (bs ! j)) \<and>
          l' = (bs ! j)\<lparr>wb_ptr := wb_ptr (bs ! j) + of_nat z, wb_bytes := drop z (wb_bytes (bs ! j))\<rparr> # drop (Suc j) bs \<and>
          written out1 = list_bytes (take j bs) @ take z (wb_bytes (bs ! j)))"
        by (rule "3.IH"(1) [OF Moved refl]) (use True r eq in simp_all)
      then obtain j where "j \<le> length bs" "(l' = drop j bs \<and> written out1 = list_bytes (take j bs)) \<or>
        (\<exists>z. j < length bs \<and> 0 < z \<and> z < length (wb_bytes (bs ! j)) \<and>
          l' = (bs ! j)\<lparr>wb_ptr := wb_ptr (bs ! j) + of_nat z, wb_bytes := drop z (wb_bytes (bs ! j))\<rparr> # drop (Suc j) bs \<and>
          written out1 = list_bytes (take j bs) @ take z (wb_bytes (bs ! j)))" by blast
      then show ?thesis using eq(1) by (intro exI [of _ "Suc j"]) auto
    next
      case False
      then have k: "k < length (wb_bytes b)" by simp
      then have o: "out = [Wrote fd (take k (wb_bytes b))]" "l' = b\<lparr>wb_ptr := wb_ptr b + of_nat k, wb_bytes := drop k (wb_bytes b)\<rparr> # bs"
        using "3.prems" Moved by (auto simp: Let_def)
      show ?thesis
      proof (cases "k = 0")
        case True
        then show ?thesis using o by (intro exI [of _ 0]) simp
      next
        case False
        then show ?thesis using o k by (intro exI [of _ 0]) auto
      qed
    qed
  next
    case Eintr
    then show ?thesis using "3.IH"(2) [OF Eintr] "3.prems" by simp
  qed (use "3.prems" in \<open>auto intro: exI [of _ 0]\<close>)
qed auto

text \<open>
  \<open>streams s H L W\<close>: packages \<open>H\<close> of high and \<open>L\<close> of low priority were sent on the socket and the bytes \<open>W\<close> written. Everything that is
  written or in the high list is some merge \<open>X\<close> of \<open>H\<close> and of the first low packages.
\<close>

definition streams :: "socket \<Rightarrow> u8 list list \<Rightarrow> u8 list list \<Rightarrow> u8 list \<Rightarrow> bool" where
  "streams s H L W \<longleftrightarrow> (\<exists>X Xl. X \<in> shuffles H Xl \<and> L = Xl @ map wb_bytes (sk_low s) \<and> concat X = W @ list_bytes (sk_high s))"

definition tcp_open :: "socket \<Rightarrow> bool" where
  "tcp_open s \<longleftrightarrow> sock_ok s \<and> sk_type s = SOCKET_TYPE_CONNECTED \<and> sk_protocol s = PROTOCOL_TCP \<and> (\<forall>b \<in> set (sk_low s). length (wb_bytes b) < 2 ^ 31)"

lemma streams_order:
  assumes "streams s H L W"
  shows "\<exists>ord \<in> shuffles H L. concat ord = W @ list_bytes (sk_high s) @ list_bytes (sk_low s)"
proof -
  obtain X Xl where X: "X \<in> shuffles H Xl" "L = Xl @ map wb_bytes (sk_low s)" "concat X = W @ list_bytes (sk_high s)" using assms by (auto simp: streams_def)
  have "X @ map wb_bytes (sk_low s) \<in> shuffles H L" unfolding X(2) by (rule shuffles_right [OF X(1)])
  then show ?thesis using X(3) by (intro bexI [of _ "X @ map wb_bytes (sk_low s)"]) (simp_all add: list_bytes_def)
qed


text \<open>The bytes that were written when the socket was closed.\<close>

definition sent_prefix :: "u8 list list \<Rightarrow> u8 list list \<Rightarrow> u8 list \<Rightarrow> bool" where
  "sent_prefix H L W \<longleftrightarrow> (\<exists>ord \<in> shuffles H L. \<exists>rest. concat ord = W @ rest)"

lemma sent_prefixI:
  assumes "streams s H L W" and "list_bytes (sk_high s) @ list_bytes (sk_low s) = V @ rest"
  shows "sent_prefix H L (W @ V)"
  using streams_order [OF assms(1)] assms(2) by (fastforce simp: sent_prefix_def)

lemma sent_prefix_more: "sent_prefix H L W \<Longrightarrow> sent_prefix (H @ H') (L @ L') W"
  unfolding sent_prefix_def using shuffles_left shuffles_right
  by (metis (no_types, lifting) append_assoc concat_append)

definition kept_or_closed :: "socket \<Rightarrow> outcome \<Rightarrow> u8 list list \<Rightarrow> u8 list list \<Rightarrow> u8 list \<Rightarrow> bool" where
  "kept_or_closed s t H L W = (if t = None then tcp_open s \<and> streams s H L W else sent_prefix H L W)"

lemma moved_pointer: "0 < z \<Longrightarrow> z < 2 ^ 31 \<Longrightarrow> (a :: ptr) + of_nat z \<noteq> a"
proof
  assume z: "0 < z" "z < 2 ^ 31" and "a + of_nat z = a"
  then have "of_nat z = (0 :: ptr)" by simp
  then have "unat (of_nat z :: ptr) = 0" by simp
  then show False using z by (simp add: unat_of_nat)
qed

text \<open>After the low list has been flushed, a buffer that was written in part moves to the high list.\<close>

lemma low_flushed:
  assumes w: "write_loop ws fd (sk_low s) n = ((ws', l, n', failed), out)" and o: "tcp_open s" and st: "streams s H L W" and e: "sk_high s = []"
  obtains (whole) "\<not> list_uncomplete l" "set l \<subseteq> set (sk_low s)" "\<And>s'. sk_high s' = [] \<Longrightarrow> sk_low s' = l \<Longrightarrow> streams s' H L (W @ written out)"
  | (part) b r where "list_uncomplete l" "l = b # r" "set r \<subseteq> set (sk_low s)"
      "\<And>s'. sk_high s' = [b] \<Longrightarrow> sk_low s' = r \<Longrightarrow> streams s' H L (W @ written out)"
proof -
  let ?l = "sk_low s"
  obtain X Xl where X: "X \<in> shuffles H Xl" "L = Xl @ map wb_bytes ?l" "concat X = W" using st e by (auto simp: streams_def)
  have more: "X @ map wb_bytes (take j ?l) \<in> shuffles H (Xl @ map wb_bytes (take j ?l))" for j by (rule shuffles_right [OF X(1)])
  have L: "L = (Xl @ map wb_bytes (take j ?l)) @ map wb_bytes (drop j ?l)" for j
    using X(2) by (simp add: map_append [symmetric] del: map_append)
  obtain j where j: "j \<le> length ?l" "(l = drop j ?l \<and> written out = list_bytes (take j ?l)) \<or>
      (\<exists>z. j < length ?l \<and> 0 < z \<and> z < length (wb_bytes (?l ! j)) \<and>
        l = (?l ! j)\<lparr>wb_ptr := wb_ptr (?l ! j) + of_nat z, wb_bytes := drop z (wb_bytes (?l ! j))\<rparr> # drop (Suc j) ?l \<and>
        written out = list_bytes (take j ?l) @ take z (wb_bytes (?l ! j)))" using write_loop_parts [OF w] by blast
  have ptr: "\<forall>b \<in> set ?l. wb_ptr b = wb_buffer b \<and> length (wb_bytes b) < 2 ^ 31" using o by (auto simp: tcp_open_def sock_ok_def)
  from j(2) show thesis
  proof (elim disjE exE conjE)
    assume l: "l = drop j ?l" and wr: "written out = list_bytes (take j ?l)"
    have sub: "set l \<subseteq> set ?l" using l by (simp add: set_drop_subset)
    then have "\<not> list_uncomplete l" using ptr by (auto simp: list_uncomplete_def split: list.split)
    moreover have "streams s' H L (W @ written out)" if "sk_high s' = []" "sk_low s' = l" for s'
      unfolding streams_def using more [of j] L [of j] X(3) that l wr
      by (intro exI [of _ "X @ map wb_bytes (take j ?l)"] exI [of _ "Xl @ map wb_bytes (take j ?l)"]) (simp add: list_bytes_def)
    ultimately show thesis using sub by (intro whole)
  next
    fix z assume jl: "j < length ?l" and z: "0 < z" "z < length (wb_bytes (?l ! j))"
      and l: "l = (?l ! j)\<lparr>wb_ptr := wb_ptr (?l ! j) + of_nat z, wb_bytes := drop z (wb_bytes (?l ! j))\<rparr> # drop (Suc j) ?l"
      and wr: "written out = list_bytes (take j ?l) @ take z (wb_bytes (?l ! j))"
    have b: "?l ! j \<in> set ?l" using jl by simp
    then have "list_uncomplete l" using ptr z moved_pointer [of z] l by (auto simp: list_uncomplete_def)
    moreover have "streams s' H L (W @ written out)"
      if "sk_high s' = [(?l ! j)\<lparr>wb_ptr := wb_ptr (?l ! j) + of_nat z, wb_bytes := drop z (wb_bytes (?l ! j))\<rparr>]" "sk_low s' = drop (Suc j) ?l" for s'
      unfolding streams_def using more [of "Suc j"] L [of "Suc j"] X(3) that jl wr
      by (intro exI [of _ "X @ map wb_bytes (take (Suc j) ?l)"] exI [of _ "Xl @ map wb_bytes (take (Suc j) ?l)"])
        (simp add: list_bytes_def take_Suc_conv_app_nth)
    ultimately show thesis using l set_drop_subset [of "Suc j" ?l] by (intro part) auto
  qed
qed


lemma streams_high:
  assumes "streams s H L W" and "sk_low s' = sk_low s" and "list_bytes (sk_high s) = V @ list_bytes (sk_high s')"
  shows "streams s' H L (W @ V)"
  using assms by (auto simp: streams_def)

text \<open>The two outcomes of flushing a list of an open TCP socket.\<close>

lemma tcp_list_cases:
  assumes o: "sk_protocol (slot ss k) = PROTOCOL_TCP" "sk_type (slot ss k) = SOCKET_TYPE_CONNECTED"
    and w: "write_loop ws (sk_fd (slot ss k)) (wb_list pri (slot ss k)) (wb_size (slot ss k)) = ((ws', l, n, failed), out)"
  obtains (closed) ss' m out' where "send_list ws ss k pri = Inr ((ws', ss', Some (SOCKET_CLOSE, m)), out @ out')" "written out' = []"
  | (left) "send_list ws ss k pri = Inr ((ws', set_socket k (set_wb_list pri l ((slot ss k)\<lparr>wb_size := n\<rparr>)) ss, None), out)"
proof (cases failed)
  case True
  let ?ss = "set_socket k (set_wb_list pri l ((slot ss k)\<lparr>wb_size := n\<rparr>)) ss"
  obtain s' m out' where "force_close ?ss k = Inr ((set_socket k s' ?ss, m), out')" "written out' = []"
    by (rule force_close_ok [of ?ss k]) (use o in simp_all)
  then show ?thesis using True o w by (intro closed) (auto simp: send_list_def send_list_tcp_def Let_def)
next
  case False
  then show ?thesis using o w by (intro left) (simp add: send_list_def send_list_tcp_def Let_def)
qed

text \<open>
  The bytes that wait on a socket, in the order in which they will leave it: the high list before the low list. A flush of socket \<open>s\<close> writes them
  from the front, and what it does not write is what waits on \<open>s'\<close>, unless a write failed and the socket was closed.
\<close>

definition waiting_bytes :: "socket \<Rightarrow> u8 list" where
  "waiting_bytes s = list_bytes (sk_high s) @ list_bytes (sk_low s)"

definition flushes :: "socket \<Rightarrow> socket \<Rightarrow> outcome \<Rightarrow> u8 list \<Rightarrow> bool" where
  "flushes s s' t W = (if t = None then waiting_bytes s = W @ waiting_bytes s' else \<exists>rest. waiting_bytes s = W @ rest)"

lemma send_buffer_streams:
  assumes o: "tcp_open (slot ss k)" and st: "streams (slot ss k) H L W"
  shows "ends_in {} (send_buffer ws ss k) (\<lambda>((ss', t), out). sk_id (slot ss' k) = sk_id (slot ss k) \<and>
    kept_or_closed (slot ss' k) t H L (W @ written out) \<and> flushes (slot ss k) (slot ss' k) t (written out))"
proof -
  let ?s = "slot ss k"
  have c: "carries (sk_type ?s)" and ok: "sock_ok ?s" and tcp: "sk_protocol ?s = PROTOCOL_TCP" "sk_type ?s = SOCKET_TYPE_CONNECTED"
    and len: "\<forall>b \<in> set (sk_low ?s). length (wb_bytes b) < 2 ^ 31" using o by (simp_all add: tcp_open_def)
  obtain ss' t out where sb: "send_buffer ws ss k = Inr ((ss', t), out)" and ch: "changes k ss ss' t"
    using send_buffer_ok [OF ok c, of ws] by (cases "send_buffer ws ss k") auto
  have ok': "sock_ok (slot ss' k)" "sk_id (slot ss' k) = sk_id ?s" using ch by (auto simp: changes_def moves_to_def)
  note low = low_complete [OF ok]
  obtain ws1 l1 n1 f1 out1 where w1: "write_loop ws (sk_fd ?s) (wb_list PRIORITY_HIGH ?s) (wb_size ?s) = ((ws1, l1, n1, f1), out1)" by (metis prod.exhaust)
  let ?s1 = "set_wb_list PRIORITY_HIGH l1 (?s\<lparr>wb_size := n1\<rparr>)" let ?ss1 = "set_socket k ?s1 ss"
  have b1: "list_bytes (sk_high ?s) = written out1 @ list_bytes l1" and n1: "n1 = wb_size ?s - int (length (written out1))"
    using write_loop_spec [OF w1] by simp_all
  have st1: "streams ?s1 H L (W @ written out1)" using b1 by (intro streams_high [OF st]) simp_all
  have close: "kept_or_closed (slot ss' k) t H L (W @ written out) \<and> flushes ?s (slot ss' k) t (written out)"
    if "t = Some x" "written out = V" "list_bytes (sk_high ?s) @ list_bytes (sk_low ?s) = V @ rest" for x V rest
    using that sent_prefixI [OF st that(3)] by (simp add: kept_or_closed_def flushes_def waiting_bytes_def)
  have "kept_or_closed (slot ss' k) t H L (W @ written out) \<and> flushes ?s (slot ss' k) t (written out)"
  proof (cases rule: tcp_list_cases [OF tcp w1])
    case (1 ss2 m out')
    then show ?thesis using sb low b1 by (intro close [where V = "written out1"]) (auto simp: send_buffer_def)
  next
    case r1: 2
    show ?thesis
    proof (cases "l1 \<noteq> [] \<or> sk_low ?s = []")
      case True
      with sb r1 low tcp have "ss' = ?ss1" "t = None" "written out = written out1" by (auto simp: send_buffer_def split: if_splits)
      with ok' st1 tcp len b1 show ?thesis by (simp add: kept_or_closed_def tcp_open_def flushes_def waiting_bytes_def)
    next
      case False
      then have e: "l1 = []" "sk_low ?s \<noteq> []" by simp_all
      have tcp1: "sk_protocol (slot ?ss1 k) = PROTOCOL_TCP" "sk_type (slot ?ss1 k) = SOCKET_TYPE_CONNECTED" using tcp by simp_all
      have "sock_ok ?s1" using c n1 b1 e sock_okD(2,3) [OF ok] by (intro sock_ok_carries) simp_all
      then have o1: "tcp_open ?s1" using tcp len by (simp add: tcp_open_def)
      obtain ws2 l2 n2 f2 out2 where w2: "write_loop ws1 (sk_fd (slot ?ss1 k)) (wb_list PRIORITY_LOW (slot ?ss1 k)) (wb_size (slot ?ss1 k)) = ((ws2, l2, n2, f2), out2)"
        by (metis prod.exhaust)
      show ?thesis
      proof (cases rule: tcp_list_cases [OF tcp1 w2])
        case (1 ss2 m out')
        then show ?thesis using sb low b1 r1 e write_loop_spec [OF w2]
          by (intro close [where V = "written out1 @ written out2"]) (auto simp: send_buffer_def)
      next
        case r2: 2
        have w2': "write_loop ws1 (sk_fd ?s) (sk_low ?s1) n1 = ((ws2, l2, n2, f2), out2)" using w2 by simp
        have h1: "sk_high ?s1 = []" using e by simp
        have b2: "waiting_bytes ?s = (written out1 @ written out2) @ list_bytes l2" using b1 e write_loop_spec [OF w2] by (simp add: waiting_bytes_def)
        show ?thesis
        proof (cases rule: low_flushed [OF w2' o1 st1 h1])
          case 1
          with sb low r1 r2 e have "t = None" "ss' = set_socket k (set_wb_list PRIORITY_LOW l2 (?s1\<lparr>wb_size := n2\<rparr>)) ss" "out = out1 @ out2"
            by (auto simp: send_buffer_def)
          with 1 ok' tcp len e b2 show ?thesis by (auto simp: kept_or_closed_def tcp_open_def flushes_def waiting_bytes_def)
        next
          case (2 b r)
          with sb low r1 r2 e have "t = None" "ss' = set_socket k ((set_wb_list PRIORITY_LOW l2 (?s1\<lparr>wb_size := n2\<rparr>))\<lparr>sk_low := r, sk_high := [b]\<rparr>) ss"
              "out = out1 @ out2"
            by (auto simp: send_buffer_def raise_uncomplete_def)
          with 2 ok' tcp len b2 show ?thesis by (auto simp: kept_or_closed_def tcp_open_def flushes_def waiting_bytes_def)
        qed
      qed
    qed
  qed
  then show ?thesis using sb ok' by simp
qed

text \<open>The packages of a priority.\<close>

definition of_prio :: "priority \<Rightarrow> priority \<Rightarrow> u8 list \<Rightarrow> u8 list list" where
  "of_prio p pri bs = (if p = pri then [bs] else [])"

lemma streams_append_high:
  assumes "streams s H L W" and "sk_low s' = sk_low s" and "list_bytes (sk_high s) @ bs = V @ list_bytes (sk_high s')"
    and "pri = PRIORITY_LOW \<longrightarrow> sk_low s = []"
  shows "streams s' (H @ of_prio PRIORITY_HIGH pri bs) (L @ of_prio PRIORITY_LOW pri bs) (W @ V)"
proof -
  obtain X Xl where X: "X \<in> shuffles H Xl" "L = Xl @ map wb_bytes (sk_low s)" "concat X = W @ list_bytes (sk_high s)" using assms(1) by (auto simp: streams_def)
  have "concat (X @ [bs]) = W @ V @ list_bytes (sk_high s')" using X(3) assms(3) by simp
  moreover have "X @ [bs] \<in> shuffles (H @ of_prio PRIORITY_HIGH pri bs) (Xl @ of_prio PRIORITY_LOW pri bs)"
    using shuffles_left [OF X(1), of "[bs]"] shuffles_right [OF X(1), of "[bs]"] by (cases pri) (simp_all add: of_prio_def)
  ultimately show ?thesis using X(2) assms(2,4) unfolding streams_def
    by (intro exI [of _ "X @ [bs]"] exI [of _ "Xl @ of_prio PRIORITY_LOW pri bs"]) (cases pri; simp add: of_prio_def)
qed

lemma streams_append_low:
  assumes "streams s H L W" and "sk_high s' = sk_high s" and "map wb_bytes (sk_low s') = map wb_bytes (sk_low s) @ [bs]"
  shows "streams s' H (L @ [bs]) W"
  using assms by (fastforce simp: streams_def)

lemma append_any_map: "map wb_bytes (append_sendbuffer_any l r n addr) = map wb_bytes l @ [drop n (rs_bytes r)]"
  by (auto simp: append_sendbuffer_any_def send_object_init_def split: option.split)

lemma send_socket_streams:
  assumes k: "k = HASH_ID (rs_id r)" "sk_id (slot ss k) = rs_id r" and o: "tcp_open (slot ss k)" and st: "streams (slot ss k) H L W"
    and low: "pri = PRIORITY_LOW \<longrightarrow> rs_object r = None \<and> length (rs_bytes r) < 2 ^ 31"
  shows "ends_in {} (send_socket ws ss r pri None) (\<lambda>((ss', t), out). sk_id (slot ss' k) = sk_id (slot ss k) \<and>
    kept_or_closed (slot ss' k) t (H @ of_prio PRIORITY_HIGH pri (rs_bytes r)) (L @ of_prio PRIORITY_LOW pri (rs_bytes r)) (W @ written out))"
proof -
  let ?s = "slot ss k" let ?bs = "rs_bytes r" let ?H = "H @ of_prio PRIORITY_HIGH pri ?bs" let ?L = "L @ of_prio PRIORITY_LOW pri ?bs"
  have c: "carries (sk_type ?s)" and ok: "sock_ok ?s" and tcp: "sk_protocol ?s = PROTOCOL_TCP" "sk_type ?s = SOCKET_TYPE_CONNECTED"
    and len: "\<forall>b \<in> set (sk_low ?s). length (wb_bytes b) < 2 ^ 31" using o by (simp_all add: tcp_open_def)
  have low': "pri = PRIORITY_LOW \<longrightarrow> rs_object r = None" using low by simp
  note app = append_ok [OF ok c low']
  obtain start user where so: "send_object_init r = (start, ?bs, user)" by (cases "rs_object r") (auto simp: send_object_init_def)
  define w where "w = (case ws of [] \<Rightarrow> Eagain | w # _ \<Rightarrow> w)"
  define n where "n = (case w of Moved z \<Rightarrow> min z (length ?bs) | _ \<Rightarrow> 0)"
  note def = send_socket_def [of ws ss r pri None, unfolded Let_def so prod.case, folded w_def, folded n_def k(1)]
  have high: "kept_or_closed (append_sendbuffer ?s r m) None ?H ?L (W @ V)"
    if "list_bytes (sk_high ?s) @ ?bs = V @ list_bytes (sk_high ?s) @ drop m ?bs" "pri = PRIORITY_LOW \<longrightarrow> sk_low ?s = []" for m V
    using app(1) tcp len streams_append_high [OF st, of "append_sendbuffer ?s r m" ?bs V pri] that
    by (simp add: kept_or_closed_def tcp_open_def append_sendbuffer_def append_any_bytes)
  have lower: "kept_or_closed (append_sendbuffer_low ?s r) None ?H ?L W" if "pri = PRIORITY_LOW"
  proof -
    have "tcp_open (append_sendbuffer_low ?s r)" using app(2) tcp len low that
      by (auto simp: tcp_open_def append_sendbuffer_low_def append_sendbuffer_any_def so)
    then show ?thesis using that streams_append_low [OF st, of "append_sendbuffer_low ?s r" ?bs]
      by (simp add: kept_or_closed_def of_prio_def append_sendbuffer_low_def append_any_map)
  qed
  show ?thesis
  proof (cases "send_buffer_empty ?s")
    case False
    then show ?thesis using def k tcp lower high [where m = 0 and V = "[]"] by (cases pri) simp_all
  next
    case True
    then have e: "sk_high ?s = []" "sk_low ?s = []" by (simp_all add: send_buffer_empty_def)
    show ?thesis
    proof (cases "\<exists>x. w = Efail x")
      case f: True
      obtain s' m out' where fc: "force_close ss k = Inr ((set_socket k s' ss, m), out')" "written out' = []" "sk_id s' = sk_id ?s"
        by (rule force_close_ok [of ss k]) (use c in auto)
      have "sent_prefix ?H ?L W" using sent_prefix_more [OF sent_prefixI [OF st, of "[]"]] by simp
      then show ?thesis using f fc True def k tcp by (auto simp: kept_or_closed_def)
    next
      case nf: False
      have whole: "kept_or_closed ?s None ?H ?L (W @ ?bs)"
        using o e streams_append_high [OF st, of ?s ?bs ?bs pri] by (simp add: kept_or_closed_def)
      have part: "kept_or_closed (append_sendbuffer ?s r n) None ?H ?L (W @ take n ?bs)" using e by (intro high) simp_all
      define wrote where "wrote = (case w of Moved _ \<Rightarrow> [Wrote (sk_fd ?s) (take n ?bs)] | _ \<Rightarrow> [])"
      have wr: "written wrote = take n ?bs" by (cases w) (simp_all add: wrote_def n_def)
      have "send_socket ws ss r pri None = (if n = length ?bs then Inr ((ss, None), wrote @ free_func user (rs_buffer r))
          else Inr ((set_socket k (append_sendbuffer ?s r n) ss, None), wrote @ [Sp_write (sk_fd ?s) True]))"
        using nf True def k tcp by (cases w) (simp_all add: wrote_def)
      then show ?thesis using whole part wr by simp
    qed
  qed
qed


section \<open>Histories of a socket\<close>

text \<open>Packages that services send, and write events, with the answers of the system.\<close>

datatype stream_op = Send priority request_send "io list" | Flush "io list"

fun stream_run :: "int \<Rightarrow> stream_op list \<Rightarrow> socket_server \<Rightarrow> ((socket_server \<times> outcome) \<times> sock_effect list) res" where
  "stream_run i [] ss = Inr ((ss, None), [])"
| "stream_run i (op # ops) ss =
     thenOut (case op of Send pri r ws \<Rightarrow> send_socket ws ss r pri None | Flush ws \<Rightarrow> send_buffer ws ss (HASH_ID i))
       (\<lambda>(ss, t). if t = None then stream_run i ops ss else Inr ((ss, t), []))"

fun packages :: "priority \<Rightarrow> stream_op list \<Rightarrow> u8 list list" where
  "packages p [] = []"
| "packages p (Send pri r ws # ops) = of_prio p pri (rs_bytes r) @ packages p ops"
| "packages p (Flush ws # ops) = packages p ops"

fun stream_op_ok :: "int \<Rightarrow> stream_op \<Rightarrow> bool" where
  "stream_op_ok i (Send pri r ws) \<longleftrightarrow> rs_id r = i \<and> (pri = PRIORITY_LOW \<longrightarrow> rs_object r = None \<and> length (rs_bytes r) < 2 ^ 31)"
| "stream_op_ok i (Flush ws) \<longleftrightarrow> True"

lemma stream_run_streams:
  assumes "tcp_open (slot ss (HASH_ID i))" "sk_id (slot ss (HASH_ID i)) = i" "streams (slot ss (HASH_ID i)) H L W" "\<forall>op \<in> set ops. stream_op_ok i op"
  shows "ends_in {} (stream_run i ops ss) (\<lambda>((ss', t), out). (t = None \<longrightarrow> sk_id (slot ss' (HASH_ID i)) = i) \<and>
    kept_or_closed (slot ss' (HASH_ID i)) t (H @ packages PRIORITY_HIGH ops) (L @ packages PRIORITY_LOW ops) (W @ written out))"
  using assms
proof (induction ops arbitrary: ss H L W)
  case Nil
  then show ?case by (simp add: kept_or_closed_def)
next
  case (Cons op ops)
  let ?k = "HASH_ID i" let ?h = "packages PRIORITY_HIGH [op]" let ?l = "packages PRIORITY_LOW [op]"
  let ?run = "case op of Send pri r ws \<Rightarrow> send_socket ws ss r pri None | Flush ws \<Rightarrow> send_buffer ws ss ?k"
  have "ends_in {} ?run (\<lambda>((ss', t), out). sk_id (slot ss' ?k) = i \<and> kept_or_closed (slot ss' ?k) t (H @ ?h) (L @ ?l) (W @ written out))"
  proof (cases op)
    case (Send pri r ws)
    then show ?thesis using Cons.prems send_socket_streams [of ?k r ss H L W pri ws] by simp
  next
    case (Flush ws)
    then show ?thesis using Cons.prems send_buffer_streams [of ss ?k H L W ws] by (cases "send_buffer ws ss ?k") auto
  qed
  then obtain ss1 t1 out1 where r: "?run = Inr ((ss1, t1), out1)" "sk_id (slot ss1 ?k) = i"
      and kc: "kept_or_closed (slot ss1 ?k) t1 (H @ ?h) (L @ ?l) (W @ written out1)"
    by (cases ?run) auto
  have pk: "packages p (op # ops) = packages p [op] @ packages p ops" for p by (cases op) simp_all
  show ?case
  proof (cases t1)
    case None
    then have "ends_in {} (stream_run i ops ss1) (\<lambda>((ss', t), out). (t = None \<longrightarrow> sk_id (slot ss' ?k) = i) \<and> kept_or_closed (slot ss' ?k) t ((H @ ?h) @ packages PRIORITY_HIGH ops)
        ((L @ ?l) @ packages PRIORITY_LOW ops) ((W @ written out1) @ written out))"
      using Cons.prems(4) r(2) kc by (intro Cons.IH) (simp_all add: kept_or_closed_def)
    then show ?thesis unfolding pk using r(1) None by (cases "stream_run i ops ss1") auto
  next
    case (Some u)
    have "sent_prefix ((H @ ?h) @ packages PRIORITY_HIGH ops) ((L @ ?l) @ packages PRIORITY_LOW ops) (W @ written out1)"
      by (rule sent_prefix_more) (use kc Some in \<open>simp add: kept_or_closed_def\<close>)
    then show ?thesis unfolding pk using r(1) Some by (simp add: kept_or_closed_def)
  qed
qed

text \<open>How a package joins those that wait: behind the high ones and before all low ones, or behind everything.\<close>

definition joins :: "priority \<Rightarrow> socket \<Rightarrow> socket \<Rightarrow> u8 list \<Rightarrow> bool" where
  "joins pri s s' bs \<longleftrightarrow>
     map wb_bytes (sk_high s') = map wb_bytes (sk_high s) @ of_prio PRIORITY_HIGH pri bs \<and>
     map wb_bytes (sk_low s') = map wb_bytes (sk_low s) @ of_prio PRIORITY_LOW pri bs"

lemma send_socket_joins:
  assumes "tcp_open (slot ss (HASH_ID i))" "sk_id (slot ss (HASH_ID i)) = i" "rs_id r = i" "\<not> send_buffer_empty (slot ss (HASH_ID i))"
  shows "\<exists>ss'. send_socket ws ss r pri None = Inr ((ss', None), []) \<and> joins pri (slot ss (HASH_ID i)) (slot ss' (HASH_ID i)) (rs_bytes r)"
proof -
  obtain start user where so: "send_object_init r = (start, rs_bytes r, user)" by (cases "rs_object r") (auto simp: send_object_init_def)
  show ?thesis using assms
    by (cases pri) (simp_all add: send_socket_def so Let_def tcp_open_def joins_def append_sendbuffer_def append_sendbuffer_low_def append_any_map of_prio_def)
qed

text \<open>C15: packages sent on an open TCP socket with empty lists, in any order with write events and with any answers of the system to each
  write, where packages of low priority are plain buffers of less than \<open>2 ^ 31\<close> bytes (a user object of low priority can fail an assertion, lemma
  \<open>low_object_asserts\<close>): no assertion fails, and there is an order of the packages that keeps the order in which those of high and those of low priority were sent
  such that the bytes written followed by those in the high and the low list are the packages in that order, each whole and exactly once;
  when a write fails and the socket is closed, the bytes written begin that sequence. Priorities are obeyed at every moment: while something
  waits, a package of high priority is queued behind the waiting high ones and before all waiting low ones (a low package that was begun counts as high), one of low priority behind everything, and
  neither writes anything; a write event sends the waiting bytes from the front, the high list before the low list.\<close>

theorem socket_stream:
  assumes "slot ss (HASH_ID i) = s" "sk_type s = SOCKET_TYPE_CONNECTED" "sk_protocol s = PROTOCOL_TCP" "sk_id s = i"
    and "sk_high s = []" "sk_low s = []" "wb_size s = 0" and "\<forall>op \<in> set ops. stream_op_ok i op"
  shows "\<exists>ss' t out ord. stream_run i ops ss = Inr ((ss', t), out) \<and> ord \<in> shuffles (packages PRIORITY_HIGH ops) (packages PRIORITY_LOW ops) \<and>
    (if t = None then
       concat ord = written out @ list_bytes (sk_high (slot ss' (HASH_ID i))) @ list_bytes (sk_low (slot ss' (HASH_ID i))) \<and>
       (\<forall>r pri ws. rs_id r = i \<and> \<not> send_buffer_empty (slot ss' (HASH_ID i)) \<longrightarrow>
          (\<exists>ss''. send_socket ws ss' r pri None = Inr ((ss'', None), []) \<and>
             joins pri (slot ss' (HASH_ID i)) (slot ss'' (HASH_ID i)) (rs_bytes r))) \<and>
       (\<forall>ws. \<exists>ss'' t' out'. send_buffer ws ss' (HASH_ID i) = Inr ((ss'', t'), out') \<and>
          flushes (slot ss' (HASH_ID i)) (slot ss'' (HASH_ID i)) t' (written out'))
     else \<exists>rest. concat ord = written out @ rest)"
proof -
  let ?k = "HASH_ID i" let ?H = "packages PRIORITY_HIGH ops" let ?L = "packages PRIORITY_LOW ops"
  have "tcp_open s" using assms by (simp add: tcp_open_def sock_ok_def)
  moreover have "streams s [] [] []" using assms by (simp add: streams_def)
  ultimately have "ends_in {} (stream_run i ops ss) (\<lambda>((ss', t), out). (t = None \<longrightarrow> sk_id (slot ss' ?k) = i) \<and> kept_or_closed (slot ss' ?k) t ?H ?L (written out))"
    using stream_run_streams [of ss i "[]" "[]" "[]" ops] assms by simp
  then obtain ss' t out where run: "stream_run i ops ss = Inr ((ss', t), out)" "t = None \<longrightarrow> sk_id (slot ss' ?k) = i"
      "kept_or_closed (slot ss' ?k) t ?H ?L (written out)"
    by (cases "stream_run i ops ss") auto
  show ?thesis
  proof (cases t)
    case None
    then have o: "tcp_open (slot ss' ?k)" "streams (slot ss' ?k) ?H ?L (written out)" "sk_id (slot ss' ?k) = i"
      using run by (simp_all add: kept_or_closed_def)
    obtain ord where "ord \<in> shuffles ?H ?L" "concat ord = written out @ list_bytes (sk_high (slot ss' ?k)) @ list_bytes (sk_low (slot ss' ?k))"
      using streams_order [OF o(2)] by blast
    moreover have "\<exists>ss'' t' out'. send_buffer ws ss' ?k = Inr ((ss'', t'), out') \<and> flushes (slot ss' ?k) (slot ss'' ?k) t' (written out')" for ws
      using send_buffer_streams [OF o(1,2), of ws] by (cases "send_buffer ws ss' ?k") auto
    ultimately show ?thesis using run(1) None send_socket_joins [OF o(1,3)] by (intro exI [of _ ss'] exI [of _ t] exI [of _ out] exI [of _ ord]) simp
  next
    case (Some u)
    then show ?thesis using run by (fastforce simp: kept_or_closed_def sent_prefix_def)
  qed
qed

definition demo_tcp :: socket where
  "demo_tcp = \<lparr>sk_opaque = 1, sk_high = [], sk_low = [], wb_size = 0, sk_fd = 7, sk_id = 1, sk_protocol = PROTOCOL_TCP,
     sk_type = SOCKET_TYPE_CONNECTED, p_size = 64, p_address = []\<rparr>"

definition demo_sockets :: socket_server where
  "demo_sockets = \<lparr>alloc_id = 1, checkctrl = True, ss_pipe = [], ss_ev = [], event_index = 0, slot = (\<lambda>_. demo_tcp)\<rparr>"

definition demo_ops :: "stream_op list" where
  "demo_ops = [Send PRIORITY_HIGH \<lparr>rs_id = 1, rs_buffer = 16, rs_object = None, rs_bytes = [1, 2, 3]\<rparr> [Moved 1],
     Send PRIORITY_LOW \<lparr>rs_id = 1, rs_buffer = 32, rs_object = None, rs_bytes = [4, 5]\<rparr> [], Flush [Eintr, Moved 2, Moved 1]]"

theorem socket_stream_witness:
  "list_all (stream_op_ok 1) demo_ops \<and> (\<exists>ss' out ord ss'' t' out'. stream_run 1 demo_ops demo_sockets = Inr ((ss', None), out) \<and>
     ord \<in> shuffles [[1, 2, 3]] [[4, 5]] \<and>
     concat ord = written out @ list_bytes (sk_high (slot ss' (HASH_ID 1))) @ list_bytes (sk_low (slot ss' (HASH_ID 1))) \<and>
     send_buffer [Moved 1] ss' (HASH_ID 1) = Inr ((ss'', t'), out') \<and> flushes (slot ss' (HASH_ID 1)) (slot ss'' (HASH_ID 1)) t' (written out'))"
proof -
  have ok: "\<forall>op \<in> set demo_ops. stream_op_ok 1 op" by (simp add: demo_ops_def)
  have pk: "packages PRIORITY_HIGH demo_ops = [[1, 2, 3]]" "packages PRIORITY_LOW demo_ops = [[4, 5]]" by (simp_all add: demo_ops_def of_prio_def)
  have run: "map_sum (\<lambda>e. e) (\<lambda>r. snd (fst r)) (stream_run 1 demo_ops demo_sockets) = Inr None"
    by (simp add: demo_ops_def demo_sockets_def demo_tcp_def send_socket_def send_object_init_def send_buffer_empty_def Let_def append_sendbuffer_def
        append_sendbuffer_any_def append_sendbuffer_low_def send_buffer_def list_uncomplete_def assert_that_def send_list_def send_list_tcp_def
        wb_list_def set_wb_list_def raise_uncomplete_def set_socket_def)
  have d: "slot demo_sockets (HASH_ID 1) = demo_tcp" "sk_type demo_tcp = SOCKET_TYPE_CONNECTED" "sk_protocol demo_tcp = PROTOCOL_TCP" "sk_id demo_tcp = 1"
      "sk_high demo_tcp = []" "sk_low demo_tcp = []" "wb_size demo_tcp = 0" by (simp_all add: demo_sockets_def demo_tcp_def)
  from socket_stream [OF d ok, unfolded pk] show ?thesis
  proof (elim exE conjE, goal_cases)
    case (1 ss' t out ord)
    then have "t = None" using run by simp
    with 1 show ?thesis using ok unfolding list_all_iff by (auto simp del: stream_run.simps)
  qed
qed

text \<open>
  A user object of low priority whose bytes are not at the object itself makes the list look as if its first buffer had been sent in part: the
  next write event fails the assertion of \<open>send_buffer\<close>.
\<close>

lemma low_object_asserts:
  assumes "sk_id (slot ss (HASH_ID (rs_id r))) = rs_id r" "sk_type (slot ss (HASH_ID (rs_id r))) = SOCKET_TYPE_CONNECTED"
    and "sk_protocol (slot ss (HASH_ID (rs_id r))) = PROTOCOL_TCP" "sk_high (slot ss (HASH_ID (rs_id r))) \<noteq> []" "sk_low (slot ss (HASH_ID (rs_id r))) = []"
    and "rs_object r = Some b" "b \<noteq> rs_buffer r"
  shows "\<exists>ss' out. send_socket ws ss r PRIORITY_LOW None = Inr ((ss', None), out) \<and> send_buffer ws' ss' (HASH_ID (rs_id r)) = Inl Assert_failed"
  using assms by (simp add: send_socket_def send_object_init_def Let_def send_buffer_empty_def append_sendbuffer_low_def append_sendbuffer_any_def
    send_buffer_def list_uncomplete_def assert_that_def)

end
