(* ===== verification/ServerSafe.thy ===== *)
theory ServerSafe
  imports ServerInv
begin

text \<open>
  The commands, the creation of services and the dispatch of messages keep the invariant of the server
  and never touch a dangling pointer, whatever programs the services run: the only faults are those
  that a service brings about itself. The locale \<open>service_launcher\<close> is the contract between the commands
  and the creation of services, which call each other.
\<close>

section \<open>Rules for calls\<close>

text \<open>
  \<open>safe R B V m\<close>: the call ends with a state that satisfies the invariant, or with a soft fault;
  \<open>safe1\<close> is the same for a call without a result.
\<close>

abbreviation safe :: "ctx multiset \<Rightarrow> mqid set \<Rightarrow> int \<Rightarrow> (server \<times> 'a) res \<Rightarrow> bool" where
  "safe R B V m \<equiv> ends_in soft m (\<lambda>r. srv_inv R B V (fst r))"

abbreviation safe1 :: "ctx multiset \<Rightarrow> mqid set \<Rightarrow> int \<Rightarrow> server res \<Rightarrow> bool" where
  "safe1 R B V m \<equiv> ends_in soft m (srv_inv R B V)"

named_theorems safe_rules

lemma safe_bind [safe_rules]:
  "safe R B V m \<Longrightarrow> (\<And>s r. srv_inv R B V s \<Longrightarrow> ends_in soft (f (s, r)) G) \<Longrightarrow> ends_in soft (andThen m f) G"
  by (cases m) auto

lemma safe1_bind [safe_rules]:
  "safe1 R B V m \<Longrightarrow> (\<And>s. srv_inv R B V s \<Longrightarrow> ends_in soft (f s) G) \<Longrightarrow> ends_in soft (andThen m f) G"
  by (cases m) auto

lemma safe_need [safe_rules]: "(\<And>p. param = Some p \<Longrightarrow> ends_in soft (f p) G) \<Longrightarrow> ends_in soft (need param f) G"
  by (cases param) (auto simp: need_def)

lemma safe_need_word [safe_rules]: "(\<And>p. w = Some p \<Longrightarrow> ends_in soft (f p) G) \<Longrightarrow> ends_in soft (need_word w f) G"
  by (cases w) (auto simp: need_word_def)

lemma safe_deref [safe_rules]:
  "srv_inv R B V s \<Longrightarrow> c \<in># R \<Longrightarrow> (\<And>x. ctxs s c = Some x \<Longrightarrow> ends_in soft (f x) G) \<Longrightarrow>
    ends_in soft (andThen (deref (ctxs s) c) f) G"
  using inv_held [of R B V s c] by auto

lemma safe_findname [safe_rules]:
  "srv_inv R B V s \<Longrightarrow> (\<And>h. ends_in soft (f h) G) \<Longrightarrow> ends_in soft (andThen (skynet_handle_findname (H s) t) f) G"
  using findname_spec [OF inv_fields(5), of R B V s t] by auto

lemma ends_in_if: "(b \<Longrightarrow> ends_in E m G) \<Longrightarrow> (\<not> b \<Longrightarrow> ends_in E n G) \<Longrightarrow> ends_in E (if b then m else n) G"
  by simp

text \<open>The calls of the last theory in this form.\<close>

lemma safe_error [safe_rules]: "srv_inv R B V s \<Longrightarrow> c \<in># R \<Longrightarrow> safe1 R B V (skynet_error s (Some c) msg)"
  using error_keeps [of R B V s "Some c" msg] inv_held [of R B V s c] by (auto simp: keeps_def)

lemma safe_error_None [safe_rules]: "srv_inv R B V s \<Longrightarrow> safe1 R B V (skynet_error s None msg)"
  using error_keeps [of R B V s None msg] by (auto simp: keeps_def)

lemma safe_send [safe_rules]: "srv_inv R B V s \<Longrightarrow> c \<in># R \<Longrightarrow> safe R B V (skynet_send s (Some c) src dest type sess dat bs z)"
  by (rule ends_in_weaken [OF send_keeps]) (auto simp: keeps_def)

lemma safe_sendname [safe_rules]: "srv_inv R B V s \<Longrightarrow> c \<in># R \<Longrightarrow> safe R B V (skynet_sendname s c src addr type sess dat bs z)"
  by (rule ends_in_weaken [OF sendname_keeps]) (auto simp: keeps_def)

lemma safe_retire [safe_rules]: "srv_inv R B V s \<Longrightarrow> safe R B V (handle_retire s h)"
  using handle_retire_ok [of R B V s h] by auto

lemma safe_push [safe_rules]: "srv_inv R B V s \<Longrightarrow> safe R B V (skynet_context_push s h m)"
  using push_keeps [of R B V s h m] by (auto simp: keeps_def)

lemma safe_newsession [safe_rules]: "srv_inv R B V s \<Longrightarrow> c \<in># R \<Longrightarrow> safe R B V (skynet_context_newsession s c)"
  using newsession_keeps [of R B V s c] by auto

lemma safe_set_result [safe_rules]: "srv_inv R B V s \<Longrightarrow> c \<in># R \<Longrightarrow> safe R B V (set_result s c t)"
  unfolding set_result_def by (rule safe_deref; auto intro: inv_set_ctx)

lemma safe_namehandle [safe_rules]:
  assumes inv: "srv_inv R B V s"
  shows "safe R B V (andThen (skynet_handle_namehandle (H s) h nm) (\<lambda>(hs, r). Inr (s\<lparr>H := hs\<rparr>, r)))"
proof (cases "name_map (H s) nm")
  case (Some h')
  then show ?thesis using namehandle_taken [OF inv_fields(5) [OF inv], of nm h] inv by simp
next
  case None
  show ?thesis
  proof (cases "name_count (H s) < name_cap (H s) \<or> name_cap (H s) * 2 \<le> MAX_SLOT_SIZE")
    case True
    obtain hs where hs: "skynet_handle_namehandle (H s) h nm = Inr (hs, Some nm)" "names_inv hs"
        "slot hs = slot (H s)" "slot_size hs = slot_size (H s)" "harbor hs = harbor (H s)"
      using namehandle_new [OF inv_fields(5) [OF inv] None True, of h] by blast
    then have "handle_inv (handle_field s) hs" "live hs = live (H s)"
      using inv_fields(4) [OF inv] by (simp_all add: handle_inv_def slots_inv_def live_def)
    then have "srv_inv R B V (s\<lparr>H := hs\<rparr>)" by (intro inv_set_H [OF inv]) simp_all
    then show ?thesis using hs(1) by simp
  next
    case False
    obtain p where "name_search (name (H s)) nm 0 (int (name_count (H s)) - 1) = Inr (Inr p)"
      using name_search_all [OF inv_fields(5) [OF inv], of nm] name_map_Some_iff [OF inv_fields(5) [OF inv], of nm] None by fastforce
    then show ?thesis
      using False by (simp add: skynet_handle_namehandle_def insert_name_def insert_name_before_def)
  qed
qed

section \<open>Commands\<close>

lemma safe_queryname [safe_rules]: "srv_inv R B V s \<Longrightarrow> c \<in># R \<Longrightarrow> safe R B V (skynet_queryname s c nm)"
  unfolding skynet_queryname_def by (auto intro!: safe_rules)

lemma safe_tohandle [safe_rules]: "srv_inv R B V s \<Longrightarrow> c \<in># R \<Longrightarrow> safe R B V (tohandle s c p)"
  unfolding tohandle_def by (auto intro!: safe_rules)

lemma safe_handle_exit [safe_rules]:
  assumes inv: "srv_inv R B V s" and c: "c \<in># R"
  shows "safe1 R B V (handle_exit s c h)"
proof -
  have 1: "safe R B V (if h = 0 then
          andThen (deref (ctxs s) c) (\<lambda>x.
          andThen (skynet_error s (Some c) ''KILL self'') (\<lambda>s. Inr (s, ctx_handle x)))
        else andThen (skynet_error s (Some c) (''KILL :'' @ hex_text h)) (\<lambda>s. Inr (s, h)))"
    using inv c by (auto intro!: safe_rules)
  have 2: "safe1 R B V (if monitor_exit t \<noteq> 0 then
          andThen (skynet_send t (Some c) k (monitor_exit t) PTYPE_CLIENT 0 0 [] 0) (\<lambda>(s, _). Inr s)
        else Inr t)" if "srv_inv R B V t" for t k
    using that c by (auto intro!: safe_rules)
  show ?thesis unfolding handle_exit_def
    by (rule safe_bind [OF 1], unfold split, rule safe1_bind [OF 2], assumption)
      (auto intro!: safe_bind [OF safe_retire])
qed

lemma safe_push_all [safe_rules]: "srv_inv R B V s \<Longrightarrow> safe1 R B V (push_all_to ms s)"
  by (induction ms arbitrary: s) (auto intro!: safe_bind [OF safe_push])

lemma safe_timeout: "srv_inv R B V s \<Longrightarrow> c \<in># R \<Longrightarrow> safe R B V (cmd_timeout s c param)"
  unfolding cmd_timeout_def by (auto intro!: safe_rules simp: Let_def split: prod.split)

lemma safe_reg: "srv_inv R B V s \<Longrightarrow> c \<in># R \<Longrightarrow> safe R B V (cmd_reg s c param)"
  unfolding cmd_reg_def by (rule safe_deref, assumption+) (auto intro!: safe_rules split: option.split)

lemma safe_query: "srv_inv R B V s \<Longrightarrow> c \<in># R \<Longrightarrow> safe R B V (cmd_query s c param)"
  unfolding cmd_query_def by (auto intro!: safe_rules)

lemma safe_name: "srv_inv R B V s \<Longrightarrow> c \<in># R \<Longrightarrow> safe R B V (cmd_name s c param)"
  unfolding cmd_name_def by (auto intro!: safe_rules simp: Let_def)

lemma safe_exit: "srv_inv R B V s \<Longrightarrow> c \<in># R \<Longrightarrow> safe R B V (cmd_exit s c param)"
  unfolding cmd_exit_def by (auto intro!: safe_rules)

lemma safe_kill: "srv_inv R B V s \<Longrightarrow> c \<in># R \<Longrightarrow> safe R B V (cmd_kill s c param)"
  unfolding cmd_kill_def by (auto intro!: safe_rules)

lemma safe_env: "srv_inv R B V s \<Longrightarrow> safe R B V (cmd_getenv s c param)" "srv_inv R B V s \<Longrightarrow> safe R B V (cmd_setenv s c param)"
  unfolding cmd_getenv_def cmd_setenv_def skynet_setenv_def assert_that_def
  by (auto intro!: safe_rules split: list.split)

lemma safe_starttime: "srv_inv R B V s \<Longrightarrow> c \<in># R \<Longrightarrow> safe R B V (cmd_starttime s c param)"
  unfolding cmd_starttime_def by (auto intro!: safe_rules)

lemma safe_abort: "srv_inv R B V s \<Longrightarrow> safe R B V (cmd_abort s c param)"
  unfolding cmd_abort_def using handle_retireall_ok [of R B V s] by auto

lemma safe_monitor: "srv_inv R B V s \<Longrightarrow> c \<in># R \<Longrightarrow> safe R B V (cmd_monitor s c param)"
  unfolding cmd_monitor_def by (auto intro!: safe_set_result safe_bind [OF safe_tohandle])

lemma safe_stat:
  assumes inv: "srv_inv R B V s" and c: "c \<in># R"
  shows "safe R B V (cmd_stat P s c param)"
proof -
  have q: "safe R B V (andThen (deref (mqs (Q s)) (ctx_queue x)) (\<lambda>q. set_result s c (f q)))" if "ctxs s c = Some x" for x f
    using inv_queue [OF inv that] safe_set_result [OF inv c] by (auto simp: qshape_iff)
  have e: "safe R B V (set_result (set_ctx c (x\<lparr>endless := False\<rparr>) s) c t)" if "ctxs s c = Some x" for x t
    by (rule safe_set_result [OF inv_set_ctx [OF inv that] c]) simp_all
  have k: "safe R B V (set_result (s\<lparr>clock_reads := n\<rparr>) c t)" for n t
    by (rule safe_set_result [OF _ c]) (simp add: inv)
  show ?thesis unfolding cmd_stat_def
    by (rule safe_need, rule safe_deref [OF inv c]) (intro ends_in_if safe_set_result [OF inv c] q e k)
qed

lemma safe_log_open [safe_rules]: "srv_inv R B V s \<Longrightarrow> c \<in># R \<Longrightarrow> safe R B V (skynet_log_open P s c h)"
  unfolding skynet_log_open_def by (auto intro!: safe1_bind [OF safe_error] simp: Let_def split: option.split)

lemma safe_log_close [safe_rules]: "srv_inv R B V s \<Longrightarrow> c \<in># R \<Longrightarrow> safe1 R B V (skynet_log_close s c h)"
  unfolding skynet_log_close_def by (auto intro!: safe1_bind [OF safe_error])

text \<open>Work on another service while a reference to it is held.\<close>

lemma safe_with_context:
  assumes inv: "srv_inv R B V s" and c: "c \<in># R"
    and work: "\<And>s h d. srv_inv (add_mset d R) B V s \<Longrightarrow> safe1 (add_mset d R) B V (work s h d)"
  shows "safe R B V (with_context s c p work)"
  unfolding with_context_def
proof (rule safe_bind [OF safe_tohandle [OF inv c]])
  fix t h
  assume t: "srv_inv R B V t"
  have "safe R B V (andThen (handle_grab t h) (\<lambda>(s, r). case r of None \<Rightarrow> Inr (s, None :: string option)
       | Some d \<Rightarrow> andThen (work s h d) (\<lambda>s. andThen (skynet_context_release s d) (\<lambda>(s, _). Inr (s, None)))))"
  proof (cases rule: handle_grab_ok [OF t, of h])
    case 1
    then show ?thesis using t by simp
  next
    case (2 d x)
    have rel: "safe R B V (andThen (skynet_context_release u d) (\<lambda>(s, _). Inr (s, None)))" if u: "srv_inv (add_mset d R) B V u" for u
    proof -
      obtain s' r where "skynet_context_release u d = Inr (s', r)" "srv_inv R B V s'" by (rule context_release_add [OF u])
      then show ?thesis by simp
    qed
    show ?thesis using 2(5) by (simp, intro safe1_bind [OF work [OF 2(6)]] rel)
  qed
  then show "safe R B V (case (t, h) of (s, h) \<Rightarrow> if h = 0 then Inr (s, None :: string option)
     else andThen (handle_grab s h) (\<lambda>(s, r). case r of None \<Rightarrow> Inr (s, None)
       | Some d \<Rightarrow> andThen (work s h d) (\<lambda>s. andThen (skynet_context_release s d) (\<lambda>(s, _). Inr (s, None)))))"
    using t by simp
qed

lemma safe_logon: "srv_inv R B V s \<Longrightarrow> c \<in># R \<Longrightarrow> safe R B V (cmd_logon P s c param)"
  unfolding cmd_logon_def
proof (rule safe_need, rule safe_with_context, assumption+)
  fix t h d
  assume c: "c \<in># R" and t: "srv_inv (add_mset d R) B V t"
  have lf: "safe1 (add_mset d R) B V (if f then andThen (deref (ctxs u) d) (\<lambda>x. Inr (set_ctx d (x\<lparr>logfile := True\<rparr>) u)) else Inr u)"
    if "srv_inv (add_mset d R) B V u" for u f
    using that by (auto intro!: safe_deref [OF that] inv_set_ctx [OF that])
  show "safe1 (add_mset d R) B V (andThen (deref (ctxs t) d) (\<lambda>x. if \<not> logfile x then
         andThen (skynet_log_open P t c h) (\<lambda>(s, f).
         if f then andThen (deref (ctxs s) d) (\<lambda>x. Inr (set_ctx d (x\<lparr>logfile := True\<rparr>) s)) else Inr s)
       else Inr t))"
    by (rule safe_deref [OF t]) (use c t lf in \<open>auto intro!: safe_bind [OF safe_log_open [OF t]]\<close>)
qed

lemma safe_logoff: "srv_inv R B V s \<Longrightarrow> c \<in># R \<Longrightarrow> safe R B V (cmd_logoff s c param)"
  unfolding cmd_logoff_def
proof (rule safe_need, rule safe_with_context, assumption+)
  fix t h d
  assume c: "c \<in># R" and t: "srv_inv (add_mset d R) B V t"
  have "srv_inv (add_mset d R) B V (set_ctx d (x\<lparr>logfile := False\<rparr>) t)" if "ctxs t d = Some x" for x
    by (rule inv_set_ctx [OF t that]) simp_all
  then show "safe1 (add_mset d R) B V (andThen (deref (ctxs t) d) (\<lambda>x.
       if logfile x then skynet_log_close (set_ctx d (x\<lparr>logfile := False\<rparr>) t) c h else Inr t))"
    by (intro safe_deref [OF t]) (use c t in \<open>auto intro!: safe_log_close\<close>)
qed

lemma safe_signal: "srv_inv R B V s \<Longrightarrow> c \<in># R \<Longrightarrow> safe R B V (cmd_signal s c param)"
  unfolding cmd_signal_def
proof (rule safe_need, rule safe_with_context, assumption+)
  fix p t h d
  assume t: "srv_inv (add_mset d R) B V t"
  have "read_cell (mod_m (M t)) (ctx_mod x) = Inr (module_at (M t) (ctx_mod x))" if "ctxs t d = Some x" for x
    using inv_fields(6) [OF t that] by (intro read_module inv_fields(2) [OF t]) (simp add: context_ok_def)
  then have "safe1 (add_mset d R) B V (andThen (deref (ctxs t) d) (\<lambda>x. skynet_module_instance_signal t x sig))" for sig
    by (intro safe_deref [OF t]) (use t in \<open>auto simp: skynet_module_instance_signal_def\<close>)
  then show "safe1 (add_mset d R) B V (let rest = dropWhile (\<lambda>ch. ch \<noteq> CHR '' '') p;
           sig = (if rest = [] then 0 else wrap32 (strtol0 (text_bytes rest))) in
       andThen (deref (ctxs t) d) (\<lambda>x. skynet_module_instance_signal t x sig))"
    by (simp add: Let_def)
qed

section \<open>Launching and running services\<close>

lemma inv_set_M:
  assumes inv: "srv_inv R B V s" and m: "modules_inv m" "mod_count (M s) \<le> mod_count m"
  shows "srv_inv R B V (s\<lparr>M := m\<rparr>)"
proof -
  have hf: "handle_field (s\<lparr>M := m\<rparr>) = handle_field s" "refs R (s\<lparr>M := m\<rparr>) = refs R s"
    by (auto simp: handle_field_def refs_def)
  have "context_ok R (s\<lparr>M := m\<rparr>) c x" if "ctxs s c = Some x" for c x
    using inv_fields(6) [OF inv that] m(2) hf by (simp add: context_ok_def)
  then show ?thesis using inv m(1) hf unfolding srv_inv_def by simp
qed

lemma register_full:
  assumes si: "slots_inv hf s" and full: "\<not> can_register s"
  shows "skynet_handle_register hf s c = Some (Inl Assert_failed)"
proof -
  have "find_free s 0 = None"
  proof (rule ccontr)
    assume "find_free s 0 \<noteq> None"
    then obtain h where "find_free s 0 = Some h" by blast
    from find_free_Some [OF this] hash_of_less [OF si, of h] full show False by (auto simp: can_register_def)
  qed
  then show ?thesis using full by (subst skynet_handle_register.simps) (simp add: can_register_def)
qed

text \<open>A new context: two references, one of the table and one of its creator, and a queue in the creator's hands.\<close>

lemma inv_new_context:
  assumes inv: "srv_inv R B V s" and i: "i < mod_count (M s)"
    and hs: "slots_inv ((handle_field s)(c := h)) hs" "live hs = insert c (live (H s))" "names_inv hs" "\<forall>d \<in> live (H s). handle_field s d \<noteq> h"
    and c: "c = next_ctx s" and x: "ref x = 2" "ctx_mod x = i" "ctx_handle x = h" "ctx_queue x = c"
    and clash: "\<not> handle_clash s h"
  shows "srv_inv (add_mset c R) (insert c B) V
    (s\<lparr>H := hs, ctxs := (ctxs s)(c \<mapsto> x), next_ctx := c + 1, Q := set_mq c (skynet_mq_create h) (Q s), next_mq := c + 1, total := total s + 1\<rparr>)"
    (is "srv_inv _ _ _ ?t")
proof -
  have cn: "ctxs s c = None" using inv_fields(6) [OF inv, of c] c by (cases "ctxs s c") (auto simp: context_ok_def)
  have "\<not> 0 < refs R s c" using inv_fields(7) [OF inv, of c] cn by auto
  then have nl: "c \<notin> live (H s)" "REMOTE s \<noteq> Some c" "count R c = 0" 
    unfolding refs_def by (auto split: if_splits simp del: count_greater_zero_iff)
  have hf: "handle_field ?t = (handle_field s)(c := h)" using x(3) by (auto simp: handle_field_def)
  have rf: "refs (add_mset c R) ?t d = (if d = c then 2 else refs R s d)" for d
    using nl hs(2) by (auto simp: refs_def)
  have qn: "qshape (Q s) c = None"
  proof (rule ccontr)
    assume "qshape (Q s) c \<noteq> None"
    then obtain k v where "qshape (Q s) c = Some (k, v)" by auto
    from inv_fields(9) [OF inv this] c show False by simp
  qed
  then have mn: "mqs (Q s) c = None" by (simp add: qshape_def views_def)
  obtain as where rep: "sys_rep (Q s) B as" using inv_rep [OF inv] by blast
  have rep': "sys_rep (Q ?t) (insert c B) as" using create_step [OF rep mn, of h] by simp
  have sh: "qshape (Q ?t) a = (if a = c then Some (h, 0) else qshape (Q s) a)" for a
    by (simp add: qshape_def view_create)
  have noclash: "h' \<noteq> h" if "qshape (Q s) a = Some (h', k)" for a h' k
  proof
    assume "h' = h"
    with that obtain q where "mqs (Q s) a = Some q" "MessageQueue.handle q = h" by (auto simp: qshape_iff)
    with inv_fields(9) [OF inv that] inv_fields(3) [OF inv] have "handle_clash s h"
      by (auto simp: handle_clash_def list_ex_iff intro!: bexI [of _ a])
    with clash show False by simp
  qed
  have "card (insert c (dom (ctxs s))) = card (dom (ctxs s)) + 1"
    using finite_ctxs [OF inv] cn by (simp add: card_insert_if domIff)
  then have "total ?t = int (card (dom (ctxs ?t))) - V" using inv_fields(8) [OF inv] by simp
  moreover have "handle_inv (handle_field ?t) (H ?t)" unfolding hf using hs(1,3) by (simp add: handle_inv_def)
  moreover have "context_ok (add_mset c R) ?t d y" if "ctxs ?t d = Some y" for d y
  proof (cases "d = c")
    case True
    then show ?thesis using that x i rf [of c] sh [of c] by (simp add: context_ok_def)
  next
    case False
    then have "context_ok R s d y" using that inv_fields(6) [OF inv, of d y] by simp
    then show ?thesis using False rf [of d] sh [of d] c by (simp add: context_ok_def)
  qed
  moreover have "ctxs ?t d \<noteq> None" if "0 < refs (add_mset c R) ?t d" for d
    using that rf [of d] inv_fields(7) [OF inv, of d] by (cases "d = c") auto
  moreover have "a < next_ctx ?t" if "qshape (Q ?t) a \<noteq> None" for a
    using that sh [of a] inv_fields(9) [OF inv, of a] c by (force split: if_splits)
  moreover have "d = a" if "qshape (Q ?t) a = Some (g, k)" "d \<in> live (H ?t)" "handle_field ?t d = g" for a g k d
  proof (cases "a = c")
    case True
    then show ?thesis using that sh [of a] hs(2,4) hf by (auto split: if_splits)
  next
    case False
    then have a: "qshape (Q s) a = Some (g, k)" using that(1) sh [of a] by simp
    from noclash [OF a] that(2,3) hs(2) hf have "d \<in> live (H s)" "handle_field s d = g" by (auto split: if_splits)
    then show ?thesis by (rule inv_fields(10) [OF inv a])
  qed
  ultimately show ?thesis using rep' inv_fields(2) [OF inv] unfolding srv_inv_def by (simp add: exI [of _ as])
qed

lemma context_setup_ok:
  assumes inv: "srv_inv R B V s" and i: "i < mod_count (M s)"
  shows "ends_in soft (context_setup s i p) (\<lambda>(s', c, a). a = c \<and> c \<notin> B \<and> M s' = M s \<and> srv_inv (add_mset c R) (insert c B) V s')"
proof -
  define c where "c = next_ctx s"
  define x where "x = new_context s i p"
  define s1 where "s1 = (set_ctx c x s)\<lparr>next_ctx := c + 1\<rparr>"
  have cn: "ctxs s c = None" using inv_fields(6) [OF inv, of c] c_def by (cases "ctxs s c") (auto simp: context_ok_def)
  have nl: "c \<notin> live (H s)" using inv_live [OF inv, of c] cn by auto
  have cB: "c \<notin> B"
  proof
    assume "c \<in> B"
    then obtain q where "mqs (Q s) c = Some q" using inv_busy [OF inv] by blast
    then have "qshape (Q s) c = Some (MessageQueue.handle q, release q)" by (simp add: qshape_iff)
    from inv_fields(9) [OF inv this] show False by (simp add: c_def)
  qed
  have H1: "H s1 = H s" "Q s1 = Q s" "next_mq s1 = c" "M s1 = M s" "total s1 = total s" "ctxs s1 = (ctxs s)(c \<mapsto> x)"
    using inv_fields(3) [OF inv] by (simp_all add: s1_def c_def)
  have hf1: "handle_field s1 d = handle_field s d" if "d \<in> live (H s)" for d
    using that nl by (auto simp: handle_field_def s1_def)
  have si: "slots_inv (handle_field s1) (H s)"
    using handle_inv_cong [of "H s" "handle_field s1" "handle_field s"] hf1 inv_fields(1) [OF inv] by (simp add: handle_inv_def)
  have touch1: "touch s1 (slot (H s)) = Inr ()"
    using touch_live [OF inv, of "slot (H s)"] by (auto simp: touch_def list_all_iff H1 split: if_splits option.splits)
  have eq: "context_setup s i p = andThen (handle_register s1 c) (\<lambda>(s2, h).
      Inr ((set_ctx c (x\<lparr>ctx_handle := h, ctx_queue := next_mq s2\<rparr>) s2)
        \<lparr>Q := set_mq (next_mq s2) (skynet_mq_create h) (Q s2), next_mq := next_mq s2 + 1, total := total s2 + 1\<rparr>, c, next_mq s2))"
    unfolding context_setup_def Let_def c_def x_def s1_def ..
  show ?thesis
  proof (cases "can_register (H s)")
    case False
    then have "context_setup s i p = Inl Assert_failed"
      unfolding eq using register_full [OF si False, of c] touch1 H1(1) by (simp add: handle_register_def)
    then show ?thesis by simp
  next
    case True
    obtain hs h where r: "skynet_handle_register (handle_field s1) (H s) c = Some (Inr (hs, h))"
        "slots_inv ((handle_field s1)(c := h)) hs" "live hs = insert c (live (H s))" "\<forall>d \<in> live (H s). handle_field s1 d \<noteq> h"
        "name hs = name (H s)" "name_count hs = name_count (H s)" "name_cap hs = name_cap (H s)"
      using register_spec [OF si True nl] by blast
    have cl: "handle_clash s1 h = handle_clash s h"
      using inv_fields(3) [OF inv] H1(2,3) by (simp add: handle_clash_def c_def)
    let ?y = "x\<lparr>ctx_handle := h, ctx_queue := c\<rparr>"
    let ?t = "s\<lparr>H := hs, ctxs := (ctxs s)(c \<mapsto> ?y), next_ctx := c + 1,
        Q := set_mq c (skynet_mq_create h) (Q s), next_mq := c + 1, total := total s + 1\<rparr>"
    have "context_setup s i p = (if handle_clash s h then Inl Handle_clash else Inr (?t, c, c))"
    proof -
      have "handle_register s1 c = (if handle_clash s h then Inl Handle_clash else Inr (s1\<lparr>H := hs\<rparr>, h))"
        using r(1) touch1 H1(1) cl by (simp add: handle_register_def)
      then show ?thesis unfolding eq using H1 by (simp add: set_ctx_def) (simp add: s1_def set_ctx_def)
    qed
    moreover have "srv_inv (add_mset c R) (insert c B) V ?t" if "\<not> handle_clash s h"
    proof (rule inv_new_context [OF inv i])
      have "((handle_field s1)(c := h)) = ((handle_field s)(c := h))" by (auto simp: handle_field_def s1_def fun_eq_iff)
      then show "slots_inv ((handle_field s)(c := h)) hs" using r(2) by simp
      show "names_inv hs" using names_inv_cong [OF r(5-7)] inv_fields(5) [OF inv] by simp
      show "\<forall>d \<in> live (H s). handle_field s d \<noteq> h" using r(4) hf1 by auto
    qed (use that r(3) in \<open>simp_all add: c_def x_def new_context_def\<close>)
    ultimately show ?thesis using cB by simp
  qed
qed

text \<open>
  The contract between the commands of a service and \<open>skynet_context_new\<close>: a launch keeps the invariant,
  and the context that it returns is there. What services do is safe for every launcher of this kind.
\<close>

locale service_launcher =
  fixes L :: launcher
  assumes launch_ok: "srv_inv R B V s \<Longrightarrow>
    ends_in soft (L s nm param) (\<lambda>r. srv_inv R B V (fst r) \<and> (\<forall>d. snd r = Some d \<longrightarrow> ctxs (fst r) d \<noteq> None))"
begin

lemma safe_launch: "srv_inv R B V s \<Longrightarrow> c \<in># R \<Longrightarrow> safe R B V (cmd_launch L s c param)"
  unfolding cmd_launch_def Let_def case_prod_beta
  by (rule safe_need, rule ends_in_andThen [OF launch_ok], assumption)
    (auto intro!: safe_set_result split: option.split)

lemma safe_command: "srv_inv R B V s \<Longrightarrow> c \<in># R \<Longrightarrow> safe R B V (skynet_command L P s c cmd param)"
proof -
  assume h: "srv_inv R B V s" "c \<in># R"
  have "list_all (\<lambda>f. safe R B V (snd f s c param)) (cmd_funcs L P)"
    unfolding cmd_funcs_def list.pred_inject snd_conv
    by (intro conjI safe_timeout safe_reg safe_query safe_name safe_exit safe_kill safe_launch safe_env safe_starttime
        safe_abort safe_monitor safe_stat safe_logon safe_logoff safe_signal h list.pred_inject(1))
  then have "map_of (cmd_funcs L P) cmd = Some f \<Longrightarrow> safe R B V (f s c param)" for f
    by (auto simp: list_all_iff dest!: map_of_SomeD)
  then show ?thesis using h(1) by (auto simp: skynet_command_def split: option.split)
qed

lemma safe_run: "srv_inv R B V s \<Longrightarrow> c \<in># R \<Longrightarrow> safe R B V (run_prog L P c p s)"
proof (induction p arbitrary: s)
  case (Callback f p)
  have "safe1 R B V (skynet_callback s c f)"
    unfolding skynet_callback_def using Callback.prems by (auto intro!: safe_deref inv_set_ctx [OF Callback.prems(1)])
  then show ?case using Callback by (auto intro: safe1_bind)
next
  case (Error msg p)
  then show ?case by (auto intro!: safe1_bind [OF safe_error])
qed (auto intro!: safe_bind [OF safe_send] safe_bind [OF safe_sendname] safe_bind [OF safe_command] safe_bind [OF safe_queryname])

end

text \<open>The two ends of a launch, with the references and the queue of the creator.\<close>

abbreviation launched :: "ctx multiset \<Rightarrow> mqid set \<Rightarrow> int \<Rightarrow> server \<times> ctx option \<Rightarrow> bool" where
  "launched R B V r \<equiv> srv_inv R B V (fst r) \<and> (\<forall>d. snd r = Some d \<longrightarrow> ctxs (fst r) d \<noteq> None)"

lemma context_ready_ok:
  assumes inv: "srv_inv (add_mset c R) (insert c B) V s" and cB: "c \<notin> B"
  shows "ends_in soft (context_ready s c c nm param) (launched R B V)"
proof -
  obtain s1 ret where s1: "skynet_context_release s c = Inr (s1, ret)" "srv_inv R (insert c B) V s1"
      "ret = None \<or> ctxs s1 c \<noteq> None" "ret = None \<or> ret = Some c"
    by (rule context_release_add [OF inv]) auto
  obtain s2 where s2: "(if ret \<noteq> None then andThen (deref (ctxs s1) c) (\<lambda>x. Inr (set_ctx c (x\<lparr>ctx_init := True\<rparr>) s1))
      else Inr s1) = Inr s2" "srv_inv R (insert c B) V s2" "ret = None \<or> ctxs s2 c \<noteq> None"
  proof (cases "ret = None")
    case True
    then show ?thesis using that [of s1] s1 by simp
  next
    case False
    then obtain x where x: "ctxs s1 c = Some x" using s1(3) by auto
    have "srv_inv R (insert c B) V (set_ctx c (x\<lparr>ctx_init := True\<rparr>) s1)" by (rule inv_set_ctx [OF s1(2) x]) simp_all
    then show ?thesis using that [of "set_ctx c (x\<lparr>ctx_init := True\<rparr>) s1"] False x by simp
  qed
  obtain w where w: "skynet_globalmq_push (Q s2) c = Inr w" "srv_inv R (insert c B - {c}) V (s2\<lparr>Q := w\<rparr>)"
    by (rule give_back_ok [OF s2(2), of c]) simp_all
  have inv3: "srv_inv R B V (s2\<lparr>Q := w\<rparr>)" using w(2) cB by simp
  have "ends_in soft (if ret \<noteq> None then skynet_error (s2\<lparr>Q := w\<rparr>) ret msg else Inr (s2\<lparr>Q := w\<rparr>))
      (\<lambda>t. srv_inv R B V t \<and> (ret \<noteq> None \<longrightarrow> ctxs t c \<noteq> None))" for msg
  proof (cases "ret = None")
    case True
    then show ?thesis using inv3 by simp
  next
    case False
    have "\<exists>x. ctxs (s2\<lparr>Q := w\<rparr>) d = Some x" if "ret = Some d" for d using that s2(3) s1(4) by auto
    from error_keeps [where cx = ret and msg = msg, OF inv3 this] show ?thesis using False s2(3) by (auto simp: keeps_def)
  qed
  then show ?thesis
    unfolding context_ready_def s1(1) split_beta andThen_simps fst_conv snd_conv s2(1) w(1) Let_def
    by (rule ends_in_andThen) (use s1(4) in auto)
qed

lemma context_failed_ok:
  assumes inv: "srv_inv (add_mset c R) (insert c B) V s" and cB: "c \<notin> B"
  shows "ends_in soft (context_failed s c c nm) (launched R B V)"
  unfolding context_failed_def
proof (rule safe1_bind [OF safe_error [OF inv]], simp, rule safe_deref, assumption, simp)
  fix t and x :: skynet_context
  assume t: "srv_inv (add_mset c R) (insert c B) V t"
  obtain u r where u: "skynet_context_release t c = Inr (u, r)" "srv_inv R (insert c B) V u" by (rule context_release_add [OF t])
  have fin: "ends_in soft (andThen (release_queue v c h) (\<lambda>s. Inr (s, None))) (launched R B V)"
    if "srv_inv R (insert c B) V v" for v h
    by (rule ends_in_andThen [OF release_queue_ok [OF that]]) (use cB in simp_all)
  have "ends_in soft (andThen (handle_retire u h) (\<lambda>(s, _). andThen (release_queue s c h) (\<lambda>s. Inr (s, None)))) (launched R B V)" for h
    by (rule safe_bind [OF safe_retire [OF u(2)]]) (use fin in simp)
  then show "ends_in soft (let h = ctx_handle x in andThen (skynet_context_release t c) (\<lambda>(s, _).
     andThen (handle_retire s h) (\<lambda>(s, _). andThen (release_queue s c h) (\<lambda>s. Inr (s, None))))) (launched R B V)"
    using u(1) by (simp add: Let_def)
qed

lemma context_new_ok: "srv_inv R B V s \<Longrightarrow> ends_in soft (skynet_context_new P n s nm param) (launched R B V)"
proof (induction n arbitrary: R B V s nm param)
  case 0
  then show ?case by simp
next
  case (Suc n)
  have sl: "service_launcher (skynet_context_new P n)" by (rule service_launcher.intro) (rule Suc.IH)
  let ?G = "launched R B V"
  have body: "ends_in soft (case r of None \<Rightarrow> Inr (t, None)
     | Some i \<Rightarrow>
         andThen (skynet_module_instance_create P t i) (\<lambda>p.
         if p = 0 then Inr (t, None)
         else
           andThen (context_setup t i p) (\<lambda>(s, c, a).
           andThen (skynet_module_instance_init P s i p param) (\<lambda>prg.
           andThen (run_prog (skynet_context_new P n) P c prg s) (\<lambda>(s, failed).
           if \<not> failed then context_ready s c a nm param else context_failed s c a nm))))) ?G"
    if t: "srv_inv R B V t" and r: "\<forall>i. r = Some i \<longrightarrow> i < mod_count (M t)" for t r
  proof (cases r)
    case None
    then show ?thesis using t by simp
  next
    case (Some i)
    then have i: "i < mod_count (M t)" using r by simp
    note rd = read_module [OF inv_fields(2) [OF t] i]
    obtain p where p: "skynet_module_instance_create P t i = Inr p" using rd by (simp add: skynet_module_instance_create_def)
    have run: "ends_in soft (andThen (skynet_module_instance_init P u i p param) (\<lambda>prg.
           andThen (run_prog (skynet_context_new P n) P c prg u) (\<lambda>(s, failed).
           if \<not> failed then context_ready s c c nm param else context_failed s c c nm))) ?G"
      if u: "srv_inv (add_mset c R) (insert c B) V u" and c: "c \<notin> B" and m: "M u = M t" for u c
    proof -
      obtain f where "mod_init (module_at (M t) i) = Some f" using inv_fields(2) [OF t] i by (auto simp: modules_inv_def)
      then have "skynet_module_instance_init P u i p param = Inr (init_fun P f p param)"
        using rd m by (simp add: skynet_module_instance_init_def)
      moreover have "ends_in soft (andThen (run_prog (skynet_context_new P n) P c prg u) (\<lambda>(s, failed).
           if \<not> failed then context_ready s c c nm param else context_failed s c c nm)) ?G" for prg
        by (rule safe_bind [OF service_launcher.safe_run [OF sl u]])
          (use context_ready_ok [OF _ c] context_failed_ok [OF _ c] in simp_all)
      ultimately show ?thesis by simp
    qed
    have "ends_in soft (andThen (context_setup t i p) (\<lambda>(s, c, a).
           andThen (skynet_module_instance_init P s i p param) (\<lambda>prg.
           andThen (run_prog (skynet_context_new P n) P c prg s) (\<lambda>(s, failed).
           if \<not> failed then context_ready s c a nm param else context_failed s c a nm)))) ?G"
      by (rule ends_in_andThen [OF context_setup_ok [OF t i]]) (use run in auto)
    then show ?thesis using t Some p by simp
  qed
  from query_any [OF inv_fields(2) [OF Suc.prems], of "dlopen P" "dlsym P" nm] show ?case
  proof (elim disjE exE conjE)
    fix m r
    assume q: "skynet_module_query (dlopen P) (dlsym P) (M s) nm = Inr (m, r)" "modules_inv m" "mod_count (M s) \<le> mod_count m"
      "\<forall>i. r = Some i \<longrightarrow> i < mod_count m"
    have "srv_inv R B V (s\<lparr>M := m\<rparr>)" by (rule inv_set_M [OF Suc.prems q(2,3)])
    from body [OF this, of r] q(1,4) show ?thesis by (simp add: Let_def)
  qed simp
qed

interpretation engine: service_launcher "skynet_context_new P n" for P n
  by unfold_locales (rule context_new_ok)

section \<open>Dispatching\<close>

context service_launcher
begin

lemma safe_dispatch_message:
  assumes inv: "srv_inv R B V s" and c: "c \<in># R" and x: "ctxs s c = Some x" and f: "cb x = Some f"
  shows "safe1 R B V (dispatch_message L P s c m)"
proof -
  have "srv_inv R B V (dispatch_enter P s c x m)"
    using inv_set_ctx [OF _ x, of R B V] inv
    by (auto simp: dispatch_enter_def Let_def emit_def intro!: inv_set_ctx [of R B V _ c x] simp: x)
  then have run: "safe R B V (run_prog L P c prg (dispatch_enter P s c x m))" for prg
    using c by (rule safe_run)
  have leave: "safe1 R B V (dispatch_leave P pr u c)" if "srv_inv R B V u" for u pr
    unfolding dispatch_leave_def Let_def using that
    by (auto intro!: safe_deref [OF that c] inv_set_ctx [OF that])
  show ?thesis
    unfolding dispatch_message_def using x f
    by (auto intro!: ends_in_assert safe_bind [OF run] safe1_bind [OF leave])
qed

lemma safe_handle_message:
  assumes inv: "srv_inv R B V s" and c: "c \<in># R"
  shows "safe R B V (handle_message L P s sm c h c m)"
proof -
  obtain x where x: "ctxs s c = Some x" using inv_held [OF inv c] by blast
  obtain q where q: "mqs (Q s) c = Some q" using inv_queue(1) [OF inv x] by (auto simp: qshape_iff)
  obtain as where rep: "sys_rep (Q s) B as" using inv_rep [OF inv] by blast
  note ov = overload_step [OF rep q]
  let ?s = "s\<lparr>Q := set_mq c (fst (skynet_mq_overload q)) (Q s)\<rparr>"
  have inv': "srv_inv R B V ?s"
    by (rule inv_set_Q [OF inv conjunct1 [OF ov]]) (simp only: qshape_def [abs_def] conjunct2 [OF ov])
  have warn: "safe1 R B V (if n \<noteq> 0 then skynet_error ?s (Some c) msg else Inr ?s)" for n :: nat and msg
    using safe_error [OF inv' c] inv' by simp
  have work: "safe1 R B V (if cb y = None then Inr (skynet_free t (data m)) else dispatch_message L P t c m)"
    if "srv_inv R B V t" "ctxs t c = Some y" for t y
    using that safe_dispatch_message [OF that(1) c that(2)] by auto
  show ?thesis
    unfolding handle_message_def deref_Some [where v = q, of "mqs (Q s)" c, OF q] andThen_simps case_prod_beta Let_def
    by (rule safe1_bind [OF warn], rule safe_deref [OF _ c], assumption, rule safe1_bind [OF work], assumption+) simp
qed

text \<open>The queue of a context that is referred to is taken out of the hands of the worker when it runs empty.\<close>

lemma safe_dispatch_turns:
  "srv_inv R B V s \<Longrightarrow> c \<in># R \<Longrightarrow> c \<in> B \<Longrightarrow>
    ends_in soft (dispatch_turns L P n s sm c h c) (\<lambda>(s', sm', empty). srv_inv R (if empty then B - {c} else B) V s')"
proof (induction n arbitrary: s sm)
  case 0
  then show ?case by simp
next
  case (Suc n)
  obtain x where x: "ctxs s c = Some x" using inv_held [OF Suc.prems(1,2)] by blast
  show ?case
  proof (cases rule: world_pop_ok [OF Suc.prems(1) inv_queue(1) [OF Suc.prems(1) x] Suc.prems(3)])
    case (1 w)
    then show ?thesis by simp
  next
    case (2 w m ms)
    have "ends_in soft (andThen (handle_message L P (s\<lparr>Q := w\<rparr>) sm c h c m) (\<lambda>(s, sm). dispatch_turns L P n s sm c h c))
        (\<lambda>(s', sm', empty). srv_inv R (if empty then B - {c} else B) V s')"
      by (rule safe_bind [OF safe_handle_message [OF 2(2) Suc.prems(2)]]) (use Suc.IH Suc.prems(2,3) in simp)
    then show ?thesis using 2(1) by simp
  qed
qed

lemma safe_dispatch_batch:
  assumes inv: "srv_inv R B V s" and c: "c \<in># R" "c \<in> B"
  shows "ends_in soft (dispatch_batch L P s sm c h c weight) (\<lambda>(s', sm', empty). srv_inv R (if empty then B - {c} else B) V s')"
proof -
  obtain x where x: "ctxs s c = Some x" using inv_held [OF inv c(1)] by blast
  show ?thesis
  proof (cases rule: world_pop_ok [OF inv inv_queue(1) [OF inv x] c(2)])
    case (1 w)
    then show ?thesis by (simp add: dispatch_batch_def)
  next
    case (2 w m ms)
    obtain q where q: "mqs w c = Some q" using 2(4) by (metis fun_upd_same views_iff)
    have "ends_in soft (andThen (handle_message L P (s\<lparr>Q := w\<rparr>) sm c h c m) (\<lambda>(s, sm). dispatch_turns L P n s sm c h c))
        (\<lambda>(s', sm', empty). srv_inv R (if empty then B - {c} else B) V s')" for n
      by (rule safe_bind [OF safe_handle_message [OF 2(2) c(1)]]) (use safe_dispatch_turns c in simp)
    then show ?thesis using 2(1) q by (simp add: dispatch_batch_def Let_def)
  qed
qed

lemma take_next:
  assumes "srv_inv R B V s"
  shows "ends_in soft (andThen (globalmq_take s) (\<lambda>(s, nq). Inr (s, sm, nq)))
    (\<lambda>(s', sm', nq). srv_inv R (B \<union> set_option nq) V s' \<and> set_option nq \<inter> B = {})"
  by (rule globalmq_take_ok [OF assms]) (use assms in simp_all)

lemma safe_release_add: "srv_inv (add_mset c R) B V s \<Longrightarrow> safe R B V (skynet_context_release s c)"
  by (rule context_release_add [of c R B V s]) auto

lemma safe_dispatch_queue:
  assumes inv: "srv_inv R B V s" and a: "a \<in> B"
  shows "ends_in soft (dispatch_queue L P s sm a weight)
    (\<lambda>(s', sm', nq). srv_inv R (B - {a} \<union> set_option nq) V s' \<and> set_option nq \<inter> (B - {a}) = {})"
proof -
  obtain q where q: "mqs (Q s) a = Some q" using inv_busy [OF inv a] by blast
  let ?h = "MessageQueue.handle q"
  have sh: "qshape (Q s) a = Some (?h, release q)" using q by (simp add: qshape_iff)
  show ?thesis
  proof (cases rule: handle_grab_ok [OF inv, of ?h])
    case 1
    have "ends_in soft (andThen (release_queue s a ?h) (\<lambda>s. andThen (globalmq_take s) (\<lambda>(s, nq). Inr (s, sm, nq))))
        (\<lambda>(s', sm', nq). srv_inv R (B - {a} \<union> set_option nq) V s' \<and> set_option nq \<inter> (B - {a}) = {})"
      by (rule ends_in_andThen [OF release_queue_ok [OF inv a]]) (rule take_next)
    then show ?thesis using 1 q by (simp add: dispatch_queue_def skynet_mq_handle_def Let_def)
  next
    case (2 c x)
    have c: "c = a" using inv_fields(10) [OF inv sh 2(2)] 2(3,4) by (simp add: handle_field_def)
    let ?s = "set_ctx a (x\<lparr>ref := ref x + 1\<rparr>) s" and ?R = "add_mset a R"
    have inv': "srv_inv ?R B V ?s" using 2(6) c by simp
    have empty: "ends_in soft (andThen (skynet_context_release t a) (\<lambda>(s, _). andThen (globalmq_take s) (\<lambda>(s, nq). Inr (s, sm', nq))))
        (\<lambda>(s', sm', nq). srv_inv R (B - {a} \<union> set_option nq) V s' \<and> set_option nq \<inter> (B - {a}) = {})"
      if "srv_inv ?R (B - {a}) V t" for t and sm' :: skynet_monitor
      by (rule safe_bind [OF safe_release_add [OF that]]) (use take_next in simp)
    have more: "ends_in soft (andThen (deref (ctxs t) a) (\<lambda>x.
           andThen (assert_that (a = ctx_queue x)) (\<lambda>_.
           andThen (globalmq_take t) (\<lambda>(s, nq).
           andThen (case nq of None \<Rightarrow> Inr (s, a)
                    | Some b \<Rightarrow> andThen (skynet_globalmq_push (Q s) a) (\<lambda>w. Inr (s\<lparr>Q := w\<rparr>, b))) (\<lambda>(s, b).
           andThen (skynet_context_release s a) (\<lambda>(s, _). Inr (s, sm', Some b)))))))
        (\<lambda>(s', sm', nq). srv_inv R (B - {a} \<union> set_option nq) V s' \<and> set_option nq \<inter> (B - {a}) = {})"
      if t: "srv_inv ?R B V t" for t and sm' :: skynet_monitor
    proof -
      obtain y where y: "ctxs t a = Some y" using inv_held [OF t] by auto
      have cq: "ctx_queue y = a" by (rule inv_queue(3) [OF t y])
      have rel: "ends_in soft (andThen (skynet_context_release u a) (\<lambda>(s, _). Inr (s, sm', Some b)))
          (\<lambda>(s', sm', nq). srv_inv R (B - {a} \<union> set_option nq) V s' \<and> set_option nq \<inter> (B - {a}) = {})"
        if "srv_inv ?R (B - {a} \<union> {b}) V u" "b = a \<or> b \<notin> B" for u b
        by (rule safe_bind [OF safe_release_add [OF that(1)]]) (use that(2) in auto)
      show ?thesis
      proof (cases rule: globalmq_take_ok [OF t])
        case 1
        have "B - {a} \<union> {a} = B" using a by auto
        with t have "srv_inv ?R (B - {a} \<union> {a}) V t" by simp
        then show ?thesis using 1 y cq rel [of a t] by simp
      next
        case (2 w b)
        obtain w' where w': "skynet_globalmq_push (Q (t\<lparr>Q := w\<rparr>)) a = Inr w'"
            "srv_inv ?R (insert b B - {a}) V (t\<lparr>Q := w\<rparr>\<lparr>Q := w'\<rparr>)"
          by (rule give_back_ok [OF 2(2), of a]) (use a in simp_all)
        have "insert b B - {a} = B - {a} \<union> {b}" using 2(3) a by auto
        with w' 2 y cq rel [of b "t\<lparr>Q := w'\<rparr>"] show ?thesis by simp
      qed
    qed
    have "ends_in soft (andThen (dispatch_batch L P ?s sm a ?h a weight) (\<lambda>(s, sm, empty).
         if empty then
           andThen (skynet_context_release s a) (\<lambda>(s, _).
           andThen (globalmq_take s) (\<lambda>(s, nq). Inr (s, sm, nq)))
         else
           andThen (deref (ctxs s) a) (\<lambda>x.
           andThen (assert_that (a = ctx_queue x)) (\<lambda>_.
           andThen (globalmq_take s) (\<lambda>(s, nq).
           andThen (case nq of None \<Rightarrow> Inr (s, a)
                    | Some b \<Rightarrow> andThen (skynet_globalmq_push (Q s) a) (\<lambda>w. Inr (s\<lparr>Q := w\<rparr>, b))) (\<lambda>(s, b).
           andThen (skynet_context_release s a) (\<lambda>(s, _). Inr (s, sm, Some b))))))))
        (\<lambda>(s', sm', nq). srv_inv R (B - {a} \<union> set_option nq) V s' \<and> set_option nq \<inter> (B - {a}) = {})"
      by (rule ends_in_andThen [OF safe_dispatch_batch [OF inv' _ a]]) (use empty more in auto)
    then show ?thesis using 2(5) q c by (simp add: dispatch_queue_def skynet_mq_handle_def Let_def)
  qed
qed

lemma safe_message_dispatch:
  assumes inv: "srv_inv R (B \<union> set_option q) V s" and q: "set_option q \<inter> B = {}"
  shows "ends_in soft (skynet_context_message_dispatch L P s sm q weight)
    (\<lambda>(s', sm', nq). srv_inv R (B \<union> set_option nq) V s' \<and> set_option nq \<inter> B = {})"
proof -
  have disp: "ends_in soft (dispatch_queue L P t sm a weight)
      (\<lambda>(s', sm', nq). srv_inv R (B \<union> set_option nq) V s' \<and> set_option nq \<inter> B = {})"
    if "srv_inv R (insert a B) V t" "a \<notin> B" for t a
    using safe_dispatch_queue [OF that(1), of a] that(2) by simp
  show ?thesis
  proof (cases q)
    case (Some a)
    then show ?thesis using inv q disp [of a s] by (simp add: skynet_context_message_dispatch_def)
  next
    case None
    then have inv': "srv_inv R B V s" using inv by simp
    show ?thesis
    proof (cases rule: globalmq_take_ok [OF inv'])
      case 1
      then show ?thesis using None inv' by (simp add: skynet_context_message_dispatch_def)
    next
      case (2 w a)
      then show ?thesis using None disp [of a "s\<lparr>Q := w\<rparr>"] by (simp add: skynet_context_message_dispatch_def)
    qed
  qed
qed

end

section \<open>Monitor, harbor and timer\<close>

lemma safe_endless: "srv_inv R B V s \<Longrightarrow> safe1 R B V (skynet_context_endless s h)"
proof -
  assume inv: "srv_inv R B V s"
  show ?thesis
  proof (cases rule: handle_grab_ok [OF inv, of h])
    case 1
    then show ?thesis using inv by (simp add: skynet_context_endless_def)
  next
    case (2 c x)
    let ?s = "set_ctx c (x\<lparr>ref := ref x + 1\<rparr>) s"
    have "srv_inv (add_mset c R) B V (set_ctx c (x\<lparr>ref := ref x + 1, endless := True\<rparr>) ?s)"
      by (rule inv_set_ctx [OF 2(6), where x = "x\<lparr>ref := ref x + 1\<rparr>"]) simp_all
    from service_launcher.safe_release_add [OF engine.service_launcher_axioms this]
    show ?thesis using 2(5) by (auto simp: skynet_context_endless_def intro: safe_bind)
  qed
qed

lemma safe_monitor_check: "srv_inv R B V s \<Longrightarrow> safe R B V (skynet_monitor_check s sm)"
  unfolding skynet_monitor_check_def
  by (auto intro!: safe1_bind [OF safe_endless] safe1_bind [OF safe_error_None])

lemma harbor_start_ok:
  assumes inv: "srv_inv R B V s" and x: "ctxs s c = Some x" and none: "REMOTE s = None"
  obtains s' where "skynet_harbor_start s c = Inr s'" "srv_inv R B (V + 1) s'"
proof -
  let ?s = "set_ctx c (x\<lparr>ref := ref x + 1\<rparr>) s"
  let ?t = "?s\<lparr>total := total s - 1, REMOTE := Some c\<rparr>"
  note inv1 = inv_grab [OF inv x]
  have rf: "refs R ?t = refs (add_mset c R) ?s" using none by (auto simp: refs_def fun_eq_iff)
  have hf: "handle_field ?t = handle_field ?s" by (auto simp: handle_field_def)
  have "context_ok R ?t d y = context_ok (add_mset c R) ?s d y" for d y by (simp add: context_ok_def rf)
  then have "srv_inv R B (V + 1) ?t" using inv1 rf hf unfolding srv_inv_def by simp
  moreover have "skynet_harbor_start s c = Inr ?t"
    using x by (simp add: skynet_harbor_start_def skynet_context_reserve_def skynet_context_grab_def)
  ultimately show thesis using that by blast
qed

lemma harbor_exit_ok:
  assumes inv: "srv_inv R B V s"
  obtains s' where "skynet_harbor_exit s = Inr s'" "srv_inv R B V s'"
proof (cases "REMOTE s")
  case None
  then have "s\<lparr>REMOTE := None\<rparr> = s" by simp
  then show thesis using that [of s] None inv by (simp add: skynet_harbor_exit_def)
next
  case (Some c)
  let ?t = "s\<lparr>REMOTE := None\<rparr>"
  have rf: "refs (add_mset c R) ?t = refs R s" using Some by (auto simp: refs_def fun_eq_iff)
  have hf: "handle_field ?t = handle_field s" by (auto simp: handle_field_def)
  have "context_ok (add_mset c R) ?t d y = context_ok R s d y" for d y by (simp add: context_ok_def rf)
  then have "srv_inv (add_mset c R) B V ?t" using inv rf hf unfolding srv_inv_def by simp
  then obtain s' r where "skynet_context_release ?t c = Inr (s', r)" "srv_inv R B V s'" by (rule context_release_add)
  then show thesis using that [of s'] Some by (simp add: skynet_harbor_exit_def)
qed

end
