(* ===== verification/Node.thy ===== *)
theory Node
  imports ServerSafe
begin

text \<open>
  Model of \<^verbatim>\<open>skynet-src/skynet_start.c\<close>: the start of a node and its threads. The workers take turns with
  \<open>skynet_context_message_dispatch\<close> and sleep when there is nothing to do; the timer thread pushes the
  timeouts that are due, the monitor thread checks the workers, the socket thread pushes messages. Each
  turn of a thread is one step of the relation \<open>engine_step\<close>. The creation and the joining of the threads
  are calls of the operating system; the socket poll is modelled apart, in SocketServer.
\<close>

section \<open>Starting\<close>

record skynet_config =
  harbor_id :: u32
  profile :: bool
  module_path :: string
  bootstrap_cmd :: string
  logger_arg :: "string option"
  logservice :: string

text \<open>
  \<open>bootstrap\<close> launches the first service. If that fails, the log service \<open>lg\<close> handles what is in its queue
  (\<open>k\<close> bounds the number of messages) and the process ends.
\<close>

definition bootstrap :: "platform \<Rightarrow> nat \<Rightarrow> nat \<Rightarrow> server \<Rightarrow> ctx \<Rightarrow> string \<Rightarrow> server res" where
  "bootstrap P depth k s lg cmdline =
     need_word (scan_word (text_bytes cmdline)) (\<lambda>(w1, rest).
     need_word (scan_word rest) (\<lambda>(w2, _).
     andThen (skynet_context_new P depth s (bytes_text w1) (Some (bytes_text w2))) (\<lambda>(s, r).
     if r = None then
       andThen (skynet_error s None (''Bootstrap error : '' @ cmdline @ [CHR 0x0A])) (\<lambda>s.
       andThen (deref (ctxs s) lg) (\<lambda>x.
       andThen (skynet_context_dispatchall (skynet_context_new P depth) P k s lg (ctx_queue x)) (\<lambda>s. Inl Exited)))
     else Inr s)))"

text \<open>\<open>skynet_start\<close> up to the creation of the threads.\<close>

definition skynet_start :: "platform \<Rightarrow> nat \<Rightarrow> nat \<Rightarrow> skynet_config \<Rightarrow> timer \<Rightarrow> server res" where
  "skynet_start P depth k config T =
     (let s = skynet_profile_enable (server_start (harbor_id config) (module_path config) T) (profile config) in
      andThen (skynet_context_new P depth s (logservice config) (logger_arg config)) (\<lambda>(s, r).
      case r of None \<Rightarrow> Inl Exited | Some c \<Rightarrow> bootstrap P depth k s c (bootstrap_cmd config)))"

section \<open>The threads\<close>

text \<open>The weight of a worker decides how many messages of a queue it handles in one turn.\<close>

definition weight_table :: "int list" where
  "weight_table = [-1, -1, -1, -1, 0, 0, 0, 0, 1, 1, 1, 1, 1, 1, 1, 1,
     2, 2, 2, 2, 2, 2, 2, 2, 3, 3, 3, 3, 3, 3, 3, 3]"

definition worker_weight :: "nat \<Rightarrow> int" where
  "worker_weight i = (if i < length weight_table then weight_table ! i else 0)"

definition signal_hup :: "server \<Rightarrow> server res" where
  "signal_hup s =
     andThen (skynet_handle_findname (H s) ''logger'') (\<lambda>lg.
     if lg \<noteq> 0 then
       andThen (skynet_context_push s lg
         \<lparr>source = 0, session = 0, data = 0, sz = push_bit MESSAGE_TYPE_SHIFT (word_of_int PTYPE_SYSTEM)\<rparr>) (\<lambda>(s, _). Inr s)
     else Inr s)"

text \<open>A turn of the timer thread: the clock reads \<open>cp\<close> and the messages that are due are pushed.\<close>

definition timer_turn :: "u64 \<Rightarrow> server \<Rightarrow> server res" where
  "timer_turn cp s =
     andThen (skynet_updatetime cp (TI s)) (\<lambda>(T', outs). push_all_to (concat outs) (s\<lparr>TI := T'\<rparr>))"

text \<open>A worker runs, waits on the condition variable, or has ended.\<close>

datatype worker_pc = Running | Waiting | Ended

record engine =
  srv :: server
  worker_pc :: "nat \<Rightarrow> worker_pc"
  worker_queue :: "nat \<Rightarrow> mqid option"
  monitors :: "nat \<Rightarrow> skynet_monitor"
  sleep :: int
  quit :: bool
  reserved :: int

definition engine_start :: "server \<Rightarrow> engine" where
  "engine_start s = \<lparr>srv = s, worker_pc = (\<lambda>_. Running), worker_queue = (\<lambda>_. None),
     monitors = (\<lambda>_. skynet_monitor_new), sleep = 0, quit = False, reserved = 0\<rparr>"

text \<open>A turn of the loop of \<open>thread_worker\<close>: dispatch, and go to sleep when there is nothing to do.\<close>

definition worker_turn :: "platform \<Rightarrow> nat \<Rightarrow> nat \<Rightarrow> engine \<Rightarrow> engine res" where
  "worker_turn P depth i e =
     andThen (skynet_context_message_dispatch (skynet_context_new P depth) P (srv e) (monitors e i) (worker_queue e i) (worker_weight i))
       (\<lambda>(s, sm, q).
         let e = e\<lparr>srv := s, monitors := (monitors e)(i := sm), worker_queue := (worker_queue e)(i := q)\<rparr> in
         Inr (if q = None \<and> \<not> quit e
              then e\<lparr>sleep := sleep e + 1, worker_pc := (worker_pc e)(i := Waiting)\<rparr> else e))"

text \<open>The condition under which another thread wakes a sleeping worker.\<close>

definition wakeup :: "nat \<Rightarrow> nat \<Rightarrow> engine \<Rightarrow> bool" where
  "wakeup cnt busy e \<longleftrightarrow> int cnt - int busy \<le> sleep e"

text \<open>
  The threads of the engine: workers, the timer, the monitor, the socket thread (which pushes messages
  to services), and the main thread (which launches services before the workers start). A worker that
  waits may wake at any time. A step is a whole turn of a thread: the states related are those between turns, and calls of other
  threads in the middle of a turn are not among the interleavings.
\<close>

inductive engine_step :: "platform \<Rightarrow> nat \<Rightarrow> engine \<Rightarrow> engine \<Rightarrow> bool" for P :: platform and depth :: nat where
  work: "worker_pc e i = Running \<Longrightarrow> \<not> quit e \<Longrightarrow> worker_turn P depth i e = Inr e' \<Longrightarrow> engine_step P depth e e'"
| wake: "worker_pc e i = Waiting \<Longrightarrow>
     engine_step P depth e (e\<lparr>sleep := sleep e - 1, worker_pc := (worker_pc e)(i := Running)\<rparr>)"
| ended: "worker_pc e i = Running \<Longrightarrow> quit e \<Longrightarrow> engine_step P depth e (e\<lparr>worker_pc := (worker_pc e)(i := Ended)\<rparr>)"
| launch: "skynet_context_new P depth (srv e) nm param = Inr (s, r) \<Longrightarrow> engine_step P depth e (e\<lparr>srv := s\<rparr>)"
| timer: "timer_turn cp (srv e) = Inr s \<Longrightarrow> engine_step P depth e (e\<lparr>srv := s\<rparr>)"
| abort: "skynet_context_total (srv e) = 0 \<Longrightarrow> engine_step P depth e (e\<lparr>quit := True\<rparr>)"
| hup: "signal_hup (srv e) = Inr s \<Longrightarrow> engine_step P depth e (e\<lparr>srv := s\<rparr>)"
| check: "skynet_monitor_check (srv e) (monitors e i) = Inr (s, sm) \<Longrightarrow>
     engine_step P depth e (e\<lparr>srv := s, monitors := (monitors e)(i := sm)\<rparr>)"
| socket: "skynet_context_push (srv e) h m = Inr (s, r) \<Longrightarrow> engine_step P depth e (e\<lparr>srv := s\<rparr>)"
| harbor: "ctxs (srv e) c \<noteq> None \<Longrightarrow> REMOTE (srv e) = None \<Longrightarrow> skynet_harbor_start (srv e) c = Inr s \<Longrightarrow>
     engine_step P depth e (e\<lparr>srv := s, reserved := reserved e + 1\<rparr>)"

definition busy :: "(nat \<Rightarrow> mqid option) \<Rightarrow> mqid set" where
  "busy wq = {a. \<exists>i. wq i = Some a}"

definition one_owner :: "(nat \<Rightarrow> mqid option) \<Rightarrow> bool" where
  "one_owner wq \<longleftrightarrow> (\<forall>i j a. wq i = Some a \<longrightarrow> wq j = Some a \<longrightarrow> i = j)"

definition sleepers :: "(nat \<Rightarrow> worker_pc) \<Rightarrow> nat set" where
  "sleepers pc = {i. pc i = Waiting}"

definition engine_inv :: "engine \<Rightarrow> bool" where
  "engine_inv e \<longleftrightarrow> srv_inv {#} (busy (worker_queue e)) (reserved e) (srv e) \<and> one_owner (worker_queue e) \<and>
     finite (sleepers (worker_pc e)) \<and> sleep e = int (card (sleepers (worker_pc e)))"

lemma busy_upd: "busy (wq(i := q)) = busy (wq(i := None)) \<union> set_option q"
  by (auto simp: busy_def split: if_splits)

lemma busy_split: "busy wq = busy (wq(i := None)) \<union> set_option (wq i)"
  using busy_upd [of wq i "wq i"] by simp

lemma one_owner_disjoint: "one_owner wq \<Longrightarrow> set_option (wq i) \<inter> busy (wq(i := None)) = {}"
  unfolding one_owner_def busy_def by (auto split: if_splits)

lemma one_owner_upd: "one_owner wq \<Longrightarrow> set_option q \<inter> busy (wq(i := None)) = {} \<Longrightarrow> one_owner (wq(i := q))"
  unfolding one_owner_def busy_def by (auto split: if_splits)

lemma sleepers_upd: "sleepers (pc(i := x)) = (if x = Waiting then insert i (sleepers pc) else sleepers pc - {i})"
  by (auto simp: sleepers_def)

text \<open>Between the steps of the threads nobody holds a reference: a context lives in the table or as the harbor.\<close>

lemma server_start_inv: "srv_inv {#} {} 0 (server_start hb path T)"
proof -
  let ?s = "server_start hb path T"
  have f: "H ?s = skynet_handle_init hb" "ctxs ?s = Map.empty" "Q ?s = skynet_mq_init Map.empty" "M ?s = skynet_module_init path"
    "REMOTE ?s = None" "next_ctx ?s = 0" "next_mq ?s = 0" "total ?s = 0"
    by (simp_all add: server_start_def skynet_globalinit_def skynet_initthread_def skynet_harbor_init_def)
  have "live (H ?s) = {}" by (simp add: f live_def skynet_handle_init_def)
  moreover have "sys_rep (Q ?s) {} []" by (simp add: f sys_rep_def gq_rep_def skynet_mq_init_def)
  moreover have "qshape (Q ?s) = Map.empty" by (simp add: f qshape_def [abs_def] views_def skynet_mq_init_def)
  ultimately show ?thesis
    unfolding srv_inv_def by (auto simp: f handle_inv_init modules_inv_init refs_def)
qed

lemma safe_hup: "srv_inv R B V s \<Longrightarrow> safe1 R B V (signal_hup s)"
  unfolding signal_hup_def by (rule safe_findname) (auto intro!: safe_bind [OF safe_push])

lemma timer_turn_inv: "timer_turn cp s = Inr s' \<Longrightarrow> srv_inv R B V s \<Longrightarrow> srv_inv R B V s'"
proof -
  assume t: "timer_turn cp s = Inr s'" and inv: "srv_inv R B V s"
  from t obtain T' outs where "push_all_to (concat outs) (s\<lparr>TI := T'\<rparr>) = Inr s'"
    by (auto simp: timer_turn_def andThen_Inr_iff)
  with safe_push_all [of R B V "s\<lparr>TI := T'\<rparr>" "concat outs"] inv show ?thesis by simp
qed

lemma worker_turn_ok:
  assumes inv: "engine_inv e" and run: "worker_pc e i = Running"
  shows "ends_in soft (worker_turn P depth i e) engine_inv"
proof -
  let ?B = "busy ((worker_queue e)(i := None))"
  have oo: "one_owner (worker_queue e)" using inv by (simp add: engine_inv_def)
  have s: "srv_inv {#} (?B \<union> set_option (worker_queue e i)) (reserved e) (srv e)"
    using inv busy_split [of "worker_queue e" i] by (simp add: engine_inv_def)
  show ?thesis
    unfolding worker_turn_def
  proof (rule ends_in_andThen [OF engine.safe_message_dispatch [OF s one_owner_disjoint [OF oo]]])
    fix r :: "server \<times> skynet_monitor \<times> mqid option"
    assume "case r of (s', sm', nq) \<Rightarrow> srv_inv {#} (?B \<union> set_option nq) (reserved e) s' \<and> set_option nq \<inter> ?B = {}"
    then obtain t sm q where r: "r = (t, sm, q)" "srv_inv {#} (?B \<union> set_option q) (reserved e) t" "set_option q \<inter> ?B = {}"
      by (cases r) auto
    let ?e = "e\<lparr>srv := t, monitors := (monitors e)(i := sm), worker_queue := (worker_queue e)(i := q)\<rparr>"
    have e1: "engine_inv ?e"
      using r(2) busy_upd [of "worker_queue e" i q] one_owner_upd [OF oo r(3)] inv by (simp add: engine_inv_def)
    have "i \<notin> sleepers (worker_pc e)" using run by (simp add: sleepers_def)
    with e1 have "engine_inv (?e\<lparr>sleep := sleep ?e + 1, worker_pc := (worker_pc ?e)(i := Waiting)\<rparr>)"
      by (simp add: engine_inv_def sleepers_upd)
    with e1 show "ends_in soft (case r of (s, sm, q) \<Rightarrow>
         let e = e\<lparr>srv := s, monitors := (monitors e)(i := sm), worker_queue := (worker_queue e)(i := q)\<rparr> in
         Inr (if q = None \<and> \<not> quit e
              then e\<lparr>sleep := sleep e + 1, worker_pc := (worker_pc e)(i := Waiting)\<rparr> else e)) engine_inv"
      by (cases q; cases "quit e") (simp_all add: r(1) Let_def)
  qed
qed

lemma engine_step_inv: "engine_step P depth e e' \<Longrightarrow> engine_inv e \<Longrightarrow> engine_inv e'"
proof (induction rule: engine_step.induct)
  case (work e i e')
  then show ?case using worker_turn_ok [of e i P depth] by simp
next
  case (wake e i)
  then have "i \<in> sleepers (worker_pc e)" by (simp add: sleepers_def)
  then have "0 < card (sleepers (worker_pc e))" using wake.prems by (auto simp: engine_inv_def card_gt_0_iff)
  then show ?case using wake.prems \<open>i \<in> sleepers (worker_pc e)\<close> by (simp add: engine_inv_def sleepers_upd)
next
  case (ended e i)
  then have "i \<notin> sleepers (worker_pc e)" by (simp add: sleepers_def)
  then show ?case using ended.prems by (simp add: engine_inv_def sleepers_upd)
next
  case (launch e nm param s r)
  then show ?case using context_new_ok [of "{#}" "busy (worker_queue e)" "reserved e" "srv e" P depth nm param]
    by (simp add: engine_inv_def)
next
  case (timer cp e s)
  then show ?case using timer_turn_inv by (auto simp: engine_inv_def)
next
  case (abort e)
  then show ?case by (simp add: engine_inv_def)
next
  case (hup e s)
  then show ?case using safe_hup [of "{#}" "busy (worker_queue e)" "reserved e" "srv e"] by (simp add: engine_inv_def)
next
  case (check e i s sm)
  then show ?case using safe_monitor_check [of "{#}" "busy (worker_queue e)" "reserved e" "srv e" "monitors e i"]
    by (simp add: engine_inv_def)
next
  case (socket e h m s r)
  then show ?case using safe_push [of "{#}" "busy (worker_queue e)" "reserved e" "srv e" h m] by (simp add: engine_inv_def)
next
  case (harbor e c s)
  then obtain x where "ctxs (srv e) c = Some x" by auto
  with harbor obtain s' where "skynet_harbor_start (srv e) c = Inr s'" "srv_inv {#} (busy (worker_queue e)) (reserved e + 1) s'"
    unfolding engine_inv_def by (metis harbor_start_ok)
  with harbor show ?case by (simp add: engine_inv_def)
qed

lemma engine_start_inv: "engine_inv (engine_start (server_start hb path T))"
  using server_start_inv [of hb path T] by (simp add: engine_inv_def engine_start_def busy_def one_owner_def sleepers_def)

interpretation threads: safety "engine_start (server_start hb path T)" "engine_step P depth" engine_inv for hb path T P depth
  by unfold_locales (auto intro: engine_start_inv engine_step_inv)

end
