(* ===== verification/Delivery.thy ===== *)
theory Delivery
  imports Node
begin

text \<open>
  What the calls of the server do to messages: a send puts exactly one message into exactly one queue,
  a turn of a worker handles a bounded number of messages of one queue, the text of a handle reads back
  as the handle, and the monitor marks a service that does not return.
\<close>

section \<open>The type in the size\<close>

lemma TYPE_MASK_mask: "MESSAGE_TYPE_MASK = mask 56"
proof (rule bit_word_eqI)
  fix n assume "n < LENGTH(64)"
  then show "bit MESSAGE_TYPE_MASK n = bit (mask 56 :: u64) n" by (auto simp: MESSAGE_TYPE_MASK_def bit_simps)
qed

lemma type_packs:
  assumes z: "z AND MESSAGE_TYPE_MASK = z"
  shows "uint (drop_bit MESSAGE_TYPE_SHIFT (z OR push_bit MESSAGE_TYPE_SHIFT (word_of_int (type AND 0xff)))) = type AND 0xff"
    and "(z OR push_bit MESSAGE_TYPE_SHIFT (word_of_int (type AND 0xff))) AND MESSAGE_TYPE_MASK = z"
proof -
  let ?t = "word_of_int (type AND 0xff) :: u64"
  have low: "push_bit 56 ?t AND mask 56 = 0" by (rule bit_word_eqI) (auto simp: bit_simps)
  have z': "z AND mask 56 = z" using z by (simp add: TYPE_MASK_mask)
  have zn: "\<not> bit z n" if "56 \<le> n" for n
    using z' that by (metis bit_and_iff bit_mask_iff not_less)
  have tb: "type AND 0xff = take_bit 8 type" by (simp add: take_bit_eq_mask mask_numeral)
  have t8: "\<not> bit ?t n" if "8 \<le> n" for n
    using that unfolding tb by (simp add: bit_simps)
  have "drop_bit 56 (z OR push_bit 56 ?t) = ?t"
  proof (rule bit_word_eqI)
    fix n assume "n < LENGTH(64)"
    then show "bit (drop_bit 56 (z OR push_bit 56 ?t)) n = bit ?t n"
      using zn [of "56 + n"] t8 [of n] by (cases "n < 8") (auto simp: bit_drop_bit_eq bit_or_iff bit_push_bit_iff)
  qed
  moreover have "uint ?t = type AND 0xff"
  proof -
    have "take_bit 64 (take_bit 8 type) = take_bit 8 type" by simp
    then show ?thesis unfolding tb by (simp add: uint_word_of_int_eq)
  qed
  ultimately show "uint (drop_bit MESSAGE_TYPE_SHIFT (z OR push_bit MESSAGE_TYPE_SHIFT ?t)) = type AND 0xff"
    by (simp add: MESSAGE_TYPE_SHIFT_def)
  show "(z OR push_bit MESSAGE_TYPE_SHIFT ?t) AND MESSAGE_TYPE_MASK = z"
    using or_field_low [OF z' low] by (simp add: TYPE_MASK_mask MESSAGE_TYPE_SHIFT_def)
qed

section \<open>What a send does\<close>

lemma handle_field_cong: "ctxs s' = ctxs s \<Longrightarrow> handle_field s' = handle_field s"
  by (auto simp: handle_field_def)

text \<open>\<open>filter_args\<close> on a call with a legal session: the session used, the block sent and the packed size.\<close>

lemma filter_args_spec:
  assumes x: "ctxs s c = Some x" and al: "type AND PTYPE_TAG_ALLOCSESSION \<noteq> 0 \<Longrightarrow> sess = 0"
  obtains s' sess' dat' where
    "filter_args s (Some c) type sess dat bs z =
      Inr (s', sess', dat', z OR push_bit MESSAGE_TYPE_SHIFT (word_of_int (type AND 0xff)))"
    "Q s' = Q s" "H s' = H s" "HARBOR s' = HARBOR s" "freed s' = freed s" "\<exists>y. ctxs s' c = Some y \<and> ctx_handle y = ctx_handle x"
    "handle_field s' = handle_field s"
    "if type AND PTYPE_TAG_ALLOCSESSION = 0 then sess' = sess else 0 < sint sess'"
    "if type AND PTYPE_TAG_DONTCOPY = 0 \<and> dat \<noteq> 0
     then dat' = of_nat (brk s) \<and> blocks s' dat' = Some (take (unat z) bs @ [0]) else dat' = dat"
proof -
  obtain s1 sess' where s1: "(if type AND PTYPE_TAG_ALLOCSESSION \<noteq> 0 then
           andThen (assert_that (sess = 0)) (\<lambda>_. case Some c of None \<Rightarrow> Inl Bad_pointer | Some c \<Rightarrow> skynet_context_newsession s c)
         else Inr (s, sess)) = Inr (s1, sess')" "Q s1 = Q s" "H s1 = H s" "HARBOR s1 = HARBOR s" "freed s1 = freed s" "brk s1 = brk s"
      "\<exists>y. ctxs s1 c = Some y \<and> ctx_handle y = ctx_handle x" "handle_field s1 = handle_field s"
      "if type AND PTYPE_TAG_ALLOCSESSION = 0 then sess' = sess else 0 < sint sess'"
  proof (cases "type AND PTYPE_TAG_ALLOCSESSION = 0")
    case True
    then show ?thesis using that [of s sess] x by simp
  next
    case False
    have hf: "handle_field s c = ctx_handle x" using x by (simp add: handle_field_def)
    show ?thesis
    proof (cases "sint (session_id x + 1) \<le> 0")
      case True
      with False al x hf show ?thesis
        by (intro that [of "set_ctx c (x\<lparr>session_id := 1\<rparr>) s" 1]) (auto simp: skynet_context_newsession_def set_ctx_def handle_field_def Let_def)
    next
      case pos: False
      with False al x hf show ?thesis
        by (intro that [of "set_ctx c (x\<lparr>session_id := session_id x + 1\<rparr>) s" "session_id x + 1"])
          (auto simp: skynet_context_newsession_def set_ctx_def handle_field_def Let_def)
    qed
  qed
  show thesis
  proof (cases "type AND PTYPE_TAG_DONTCOPY = 0 \<and> dat \<noteq> 0")
    case True
    let ?t = "fst (skynet_malloc s1 (take (unat z) bs @ [0]))"
    have "handle_field ?t = handle_field s1" by (rule handle_field_cong) (simp add: skynet_malloc_def)
    with True s1 show ?thesis
      by (intro that [of ?t sess' "of_nat (brk s)"]) (simp_all add: filter_args_def Let_def skynet_malloc_def)
  next
    case False
    with s1 show ?thesis by (intro that [of s1 sess' dat]) (auto simp: filter_args_def Let_def)
  qed
qed

text \<open>C9: a message to a service of the same node arrives: the call returns the session, the queue of the
  receiver (and no other) gets one message more at its end, and what the receiver will be given by
  \<open>dispatch_message\<close>, the type and the size unpacked from the size field, are those of the sender, with
  the sender's handle as the source, and with a copy of the data unless the sender gave its block
  away. Without a receiver the call returns \<open>-1\<close>, no queue changes, and exactly the block that would have
  been sent is freed.
\<close>

theorem skynet_send_correct:
  assumes "srv_inv R B V s" and "c \<in># R" and "ctxs s c = Some x" and "dest \<noteq> 0"
    and "HARBOR s \<noteq> -1" and "dest AND NOT HANDLE_MASK = HARBOR s" and "z AND MESSAGE_TYPE_MASK = z"
    and "type AND PTYPE_TAG_ALLOCSESSION \<noteq> 0 \<longrightarrow> sess = 0"
  shows "\<exists>s' r dat' sess'. skynet_send s (Some c) src dest type sess dat bs z = Inr (s', r) \<and>
    (if type AND PTYPE_TAG_ALLOCSESSION = 0 then sess' = sess else 0 < sint sess') \<and>
    (case skynet_handle_grab (handle_field s) (H s) dest of
       Some d \<Rightarrow> r = sess' \<and> freed s' = freed s \<and>
         (if type AND PTYPE_TAG_DONTCOPY = 0 \<and> dat \<noteq> 0 then blocks s' dat' = Some (take (unat z) bs @ [0]) else dat' = dat) \<and>
         (\<exists>m. (\<forall>a. messages s' a = (if a = d then messages s d @ [m] else messages s a)) \<and>
           source m = (if src = 0 then ctx_handle x else src) \<and> session m = sess' \<and> data m = dat' \<and>
           uint (drop_bit MESSAGE_TYPE_SHIFT (sz m)) = type AND 0xff \<and> sz m AND MESSAGE_TYPE_MASK = z)
     | None \<Rightarrow> r = -1 \<and> messages s' = messages s \<and> freed s' = freed s @ (if dat' = 0 then [] else [dat']) \<and>
         (if type AND PTYPE_TAG_DONTCOPY = 0 \<and> dat \<noteq> 0 then dat' = of_nat (brk s) else dat' = dat))"
proof -
  have al: "type AND PTYPE_TAG_ALLOCSESSION \<noteq> 0 \<Longrightarrow> sess = 0" using assms(8) by simp
  let ?z = "z OR push_bit MESSAGE_TYPE_SHIFT (word_of_int (type AND 0xff))"
  obtain t sess' dat' where t: "filter_args s (Some c) type sess dat bs z = Inr (t, sess', dat', ?z)"
      "Q t = Q s" "H t = H s" "HARBOR t = HARBOR s" "freed t = freed s" "\<exists>y. ctxs t c = Some y \<and> ctx_handle y = ctx_handle x"
      "handle_field t = handle_field s"
      "if type AND PTYPE_TAG_ALLOCSESSION = 0 then sess' = sess else 0 < sint sess'"
      "if type AND PTYPE_TAG_DONTCOPY = 0 \<and> dat \<noteq> 0
       then dat' = of_nat (brk s) \<and> blocks t dat' = Some (take (unat z) bs @ [0]) else dat' = dat"
    by (rule filter_args_spec [OF assms(3) al])
  obtain y where y: "ctxs t c = Some y" "ctx_handle y = ctx_handle x" using t(6) by blast
  have inv: "srv_inv R B V t"
    using filter_args_keeps [OF assms(1), of "Some c" type sess dat bs z] assms(2) t(1) by simp
  let ?m = "\<lparr>source = if src = 0 then ctx_handle x else src, session = sess', data = dat', sz = ?z\<rparr>"
  have msg_t: "messages t = messages s" by (simp add: messages_def [abs_def] t(2))
  have local: "skynet_send s (Some c) src dest type sess dat bs z =
      andThen (skynet_context_push t dest ?m) (\<lambda>(s, ok). if ok then Inr (s, sess') else Inr (skynet_free s dat', -1))"
    using assms(4-7) t(1,4) y by (simp add: skynet_send_def skynet_harbor_message_isremote_def Let_def)
  show ?thesis
  proof (cases rule: context_push_ok [OF inv, of dest ?m])
    case 1
    have "messages (skynet_free t dat') = messages s" by (simp add: messages_def [abs_def] t(2))
    moreover have "freed (skynet_free t dat') = freed s @ (if dat' = 0 then [] else [dat'])" by (simp add: skynet_free_def t(5))
    ultimately show ?thesis using local 1 t(3,7,8,9) by (auto split: if_splits)
  next
    case (2 d xd w)
    have m: "messages (t\<lparr>Q := w\<rparr>) a = (if a = d then messages s d @ [?m] else messages s a)" for a
      by (simp add: messages_def 2(6) t(2))
    have send: "skynet_send s (Some c) src dest type sess dat bs z = Inr (t\<lparr>Q := w\<rparr>, sess')" using local 2(4) by simp
    have bl: "if type AND PTYPE_TAG_DONTCOPY = 0 \<and> dat \<noteq> 0 then blocks (t\<lparr>Q := w\<rparr>) dat' = Some (take (unat z) bs @ [0])
        else dat' = dat" using t(9) by (auto split: if_splits)
    have fr: "freed (t\<lparr>Q := w\<rparr>) = freed s" using t(5) by simp
    have mm: "\<exists>m. (\<forall>a. messages (t\<lparr>Q := w\<rparr>) a = (if a = d then messages s d @ [m] else messages s a)) \<and>
        source m = (if src = 0 then ctx_handle x else src) \<and> session m = sess' \<and> data m = dat' \<and>
        uint (drop_bit MESSAGE_TYPE_SHIFT (sz m)) = type AND 0xff \<and> sz m AND MESSAGE_TYPE_MASK = z"
      by (intro exI [of _ ?m] conjI allI m) (simp_all only: skynet_message.simps type_packs [OF assms(7)])
    show ?thesis
      unfolding send 2(1) [unfolded t(3,7)] option.case
      by (rule exI [of _ "t\<lparr>Q := w\<rparr>"], rule exI [of _ sess'], rule exI [of _ dat'], rule exI [of _ sess'])
        (intro conjI refl t(8) bl fr mm)
  qed
qed

text \<open>A node with one service, the logger, to which the running code holds a reference.\<close>

definition demo_platform :: platform where
  "demo_platform = \<lparr>dlopen = (\<lambda>f. Some 1), dlsym = (\<lambda>l f. Some 0), create_fun = (\<lambda>f n. 5),
     init_fun = (\<lambda>f p a. Callback (Some (\<lambda>ty se so d z. Return False)) (Cmd ''REG'' (Some ''.logger'') (\<lambda>r. Return False))),
     thread_time = (\<lambda>n. 0), fopen = (\<lambda>f. True), show_seconds = (\<lambda>n. [])\<rparr>"

definition demo_start :: server where
  "demo_start = server_start 1 ''./?.so'' timer_create_timer"

definition demo_launch :: "(server \<times> ctx option) res" where
  "demo_launch = skynet_context_new demo_platform 1 demo_start ''logger'' None"

definition demo_node :: server where
  "demo_node = (case demo_launch of Inl _ \<Rightarrow> demo_start | Inr r \<Rightarrow> fst r)"

lemma demo_launched: "map_sum (\<lambda>e. e) snd demo_launch = Inr (Some 0)"
  by code_simp

lemma demo_facts:
  "HARBOR demo_node = 0x1000000" "map_option ctx_handle (ctxs demo_node 0) = Some 0x1000001"
  "skynet_handle_grab (handle_field demo_node) (H demo_node) 0x1000001 = Some 0"
  by code_simp+

lemma result_Inr: "map_sum (\<lambda>e. e) snd m = Inr v \<Longrightarrow> m = Inr (case m of Inl _ \<Rightarrow> d | Inr r \<Rightarrow> fst r, v)"
  by (cases m) auto

lemma demo_launch_node: "demo_launch = Inr (demo_node, Some 0)"
  unfolding demo_node_def by (rule result_Inr [OF demo_launched])

lemma demo_node_inv: "srv_inv {#} {} 0 demo_node"
  using context_new_ok [OF server_start_inv, of demo_platform 1 1 "''./?.so''" timer_create_timer "''logger''" None] demo_launch_node
  by (simp add: demo_launch_def demo_start_def)

theorem skynet_send_correct_witness:
  "\<exists>s s' m. skynet_send s (Some 0) 0 0x1000001 0 5 9 [104, 105] 2 = Inr (s', 5) \<and>
     messages s' 0 = messages s 0 @ [m] \<and> source m = 0x1000001 \<and> session m = 5 \<and>
     uint (drop_bit MESSAGE_TYPE_SHIFT (sz m)) = 0 \<and> sz m AND MESSAGE_TYPE_MASK = 2"
proof -
  obtain x where x: "ctxs demo_node 0 = Some x" "ctx_handle x = 0x1000001" using demo_facts(2) by auto
  let ?s = "set_ctx 0 (x\<lparr>ref := ref x + 1\<rparr>) demo_node"
  have "srv_inv (add_mset 0 {#}) {} 0 ?s" by (rule inv_grab [OF demo_node_inv x(1)])
  moreover have gr: "skynet_handle_grab (handle_field ?s) (H ?s) 0x1000001 = Some 0"
    using demo_facts(3) x handle_field_Some [OF x(1)] by (simp add: fun_upd_idem)
  moreover have z: "(2 :: u64) AND MESSAGE_TYPE_MASK = 2" by code_simp
  moreover have "0x1000001 AND NOT HANDLE_MASK = HARBOR ?s" "HARBOR ?s \<noteq> -1"
    by (simp_all add: demo_facts(1) HANDLE_MASK_def)
  ultimately obtain s' r sess' m where
      "skynet_send ?s (Some 0) 0 0x1000001 0 5 9 [104, 105] 2 = Inr (s', r)" "sess' = 5" "r = sess'"
      "\<forall>a. messages s' a = (if a = 0 then messages ?s 0 @ [m] else messages ?s a)"
      "source m = 0x1000001" "session m = sess'" "uint (drop_bit MESSAGE_TYPE_SHIFT (sz m)) = 0" "sz m AND MESSAGE_TYPE_MASK = 2"
    using skynet_send_correct [of "{#0#}" "{}" 0 ?s 0 "x\<lparr>ref := ref x + 1\<rparr>" "0x1000001" 2 0 5 0 9 "[104, 105]"]
    unfolding gr option.case by (auto simp: x(2) z)
  then show ?thesis by (intro exI [of _ ?s] exI [of _ s'] exI [of _ m]) simp
qed

section \<open>The end of a queue\<close>

definition error_message :: "u32 \<Rightarrow> skynet_message" where
  "error_message h = \<lparr>source = h, session = 0, data = 0, sz = push_bit MESSAGE_TYPE_SHIFT (word_of_int PTYPE_ERROR)\<rparr>"

definition local_handle :: "server \<Rightarrow> u32 \<Rightarrow> bool" where
  "local_handle s h \<longleftrightarrow> h AND NOT HANDLE_MASK = HARBOR s \<or> h AND NOT HANDLE_MASK = 0"

text \<open>The error message for a service of another node goes to the harbor service, with a request at the address \<open>p\<close>.\<close>

definition remote_error :: "u32 \<Rightarrow> ptr \<Rightarrow> skynet_message" where
  "remote_error h p = \<lparr>source = h, session = 0, data = p, sz = SIZEOF_REMOTE_MESSAGE OR push_bit MESSAGE_TYPE_SHIFT (word_of_int PTYPE_ERROR)\<rparr>"

text \<open>
  What the messages \<open>ms\<close>, left behind by the service \<open>h\<close>, add to the queue \<open>b\<close>, and the requests to the harbor service; \<open>n\<close> is the
  address of the next request.
\<close>

fun error_notes :: "server \<Rightarrow> u32 \<Rightarrow> nat \<Rightarrow> skynet_message list \<Rightarrow> mqid \<Rightarrow> skynet_message list" where
  "error_notes s h n [] b = []"
| "error_notes s h n (m # ms) b =
     (if source m = 0 then error_notes s h n ms b
      else if local_handle s (source m) then
        (if skynet_handle_grab (handle_field s) (H s) (source m) = Some b then [error_message h] else []) @ error_notes s h n ms b
      else (if REMOTE s = Some b then [remote_error h (of_nat n)] else []) @ error_notes s h (n + 1) ms b)"

fun error_requests :: "server \<Rightarrow> nat \<Rightarrow> skynet_message list \<Rightarrow> (ptr \<rightharpoonup> remote_message) \<Rightarrow> nat \<times> (ptr \<rightharpoonup> remote_message)" where
  "error_requests s n [] rm = (n, rm)"
| "error_requests s n (m # ms) rm =
     (if source m = 0 \<or> local_handle s (source m) then error_requests s n ms rm
      else error_requests s (n + 1) ms (rm(of_nat n \<mapsto> \<lparr>destination = \<lparr>rn_name = [], rn_handle = source m\<rparr>, rmessage = 0, rm_sz = 0\<rparr>)))"

lemma error_notes_cong:
  assumes "handle_field s' = handle_field s" "H s' = H s" "HARBOR s' = HARBOR s" "REMOTE s' = REMOTE s"
  shows "error_notes s' h n ms b = error_notes s h n ms b" "error_requests s' n ms rm = error_requests s n ms rm"
proof -
  have l: "local_handle s' x = local_handle s x" for x using assms(3) by (simp add: local_handle_def)
  show "error_notes s' h n ms b = error_notes s h n ms b" by (induction ms arbitrary: n) (simp_all add: assms l)
  show "error_requests s' n ms rm = error_requests s n ms rm" by (induction ms arbitrary: n rm) (simp_all add: l)
qed

text \<open>What an answer to one message does.\<close>

definition answered :: "server \<Rightarrow> u32 \<Rightarrow> skynet_message \<Rightarrow> server \<Rightarrow> bool" where
  "answered s h m s' \<longleftrightarrow> H s' = H s \<and> HARBOR s' = HARBOR s \<and> REMOTE s' = REMOTE s \<and> handle_field s' = handle_field s \<and>
     freed s' = freed s @ filter (\<lambda>p. p \<noteq> 0) [data m] \<and> (\<forall>b. messages s' b = messages s b @ error_notes s h (brk s) [m] b) \<and>
     (brk s', rmsgs s') = error_requests s (brk s) [m] (rmsgs s)"

lemma drop_message_send:
  assumes h: "h \<noteq> 0" and hb: "HARBOR s \<noteq> -1"
  shows "drop_message s m h =
    (let t = skynet_free s (data m) in
     if source m = 0 then Inr t
     else if local_handle s (source m) then
       andThen (skynet_context_push t (source m) (error_message h)) (\<lambda>(s, ok). if ok then Inr s else Inr (skynet_free s 0))
     else let (u, rp) = new_remote_message t \<lparr>destination = \<lparr>rn_name = [], rn_handle = source m\<rparr>, rmessage = 0,
            rm_sz = push_bit MESSAGE_TYPE_SHIFT (word_of_int PTYPE_ERROR)\<rparr>
          in skynet_harbor_send u rp h 0)"
proof -
  let ?t = "skynet_free s (data m)"
  have t: "HARBOR ?t = HARBOR s" by (simp add: skynet_free_def)
  have "andThen (andThen x (\<lambda>(s, ok). if ok then Inr (s, 0 :: 32 word) else Inr (skynet_free s 0, -1))) (\<lambda>(s, _). Inr s) =
      andThen x (\<lambda>(s, ok). if ok then Inr s else Inr (skynet_free s 0))" for x :: "(server \<times> bool) res"
    by (cases x) (auto split: prod.split)
  moreover have "andThen (andThen x (\<lambda>s. Inr (s, 0 :: 32 word))) (\<lambda>(s, _). Inr s) = x" for x :: "server res" by (cases x) auto
  ultimately show ?thesis using h hb t
    by (auto simp: drop_message_def Let_def skynet_send_def filter_args_def PTYPE_ERROR_def PTYPE_TAG_ALLOCSESSION_def
        skynet_harbor_message_isremote_def local_handle_def error_message_def new_remote_message_def)
qed

lemma drop_message_spec:
  assumes inv: "srv_inv R B V s" and h: "h \<noteq> 0" and hb: "HARBOR s \<noteq> -1" and loc: "source m = 0 \<or> local_handle s (source m) \<or> REMOTE s \<noteq> None"
  obtains s' where "drop_message s m h = Inr s'" "srv_inv R B V s'" "dead_same s s'" "answered s h m s'"
proof -
  let ?t = "skynet_free s (data m)"
  have t: "srv_inv R B V ?t" "handle_field ?t = handle_field s" "HARBOR ?t = HARBOR s" "\<And>b. messages ?t b = messages s b" "REMOTE ?t = REMOTE s"
      "freed ?t = freed s @ filter (\<lambda>p. p \<noteq> 0) [data m]" "dead_same s ?t" "H ?t = H s" "brk ?t = brk s" "rmsgs ?t = rmsgs s" "Q ?t = Q s"
    using inv by (simp_all add: skynet_free_def handle_field_def [abs_def] messages_def dead_same_Q)
  note drop = drop_message_send [OF h hb, of m]
  consider (zero) "source m = 0" | (local) "source m \<noteq> 0" "local_handle s (source m)"
    | (remote) c where "source m \<noteq> 0" "\<not> local_handle s (source m)" "REMOTE s = Some c" using loc by auto
  then show thesis
  proof cases
    case zero
    then show ?thesis using t drop by (intro that [of ?t]) (simp_all add: answered_def Let_def)
  next
    case local
    from t(1) show ?thesis
    proof (cases rule: context_push_ok [where h = "source m" and m = "error_message h"])
      case none
      then have "drop_message s m h = Inr ?t" using local drop by (simp add: skynet_free_def [of ?t 0] Let_def)
      with none local t show ?thesis using that [of ?t] by (simp add: answered_def)
    next
      case (some d x w)
      then have "drop_message s m h = Inr (?t\<lparr>Q := w\<rparr>)" using local drop by (simp add: Let_def)
      moreover have "messages (?t\<lparr>Q := w\<rparr>) b = messages s b @ error_notes s h (brk s) [m] b" for b
        using some(1,6) t(2,4,8) local by (auto simp: messages_def)
      moreover have "dead_same s (?t\<lparr>Q := w\<rparr>)"
        using some inv_fields(6) [OF t(1), of d x] by (intro dead_same_upd [of s d "source m"]) (simp_all add: context_ok_def)
      moreover have "handle_field (?t\<lparr>Q := w\<rparr>) = handle_field s" using t(2) handle_field_cong [of "?t\<lparr>Q := w\<rparr>" ?t] by simp
      ultimately show ?thesis using that [of "?t\<lparr>Q := w\<rparr>"] t some(5) local by (simp add: answered_def)
    qed
  next
    case (remote c)
    let ?rp = "of_nat (brk s) :: ptr"
    let ?u = "?t\<lparr>rmsgs := (rmsgs s)(?rp \<mapsto> \<lparr>destination = \<lparr>rn_name = [], rn_handle = source m\<rparr>, rmessage = 0, rm_sz = 0\<rparr>), brk := brk s + 1\<rparr>"
    have u: "srv_inv R B V ?u" "handle_field ?u = handle_field s" "\<And>b. messages ?u b = messages s b"
      using t by (simp_all add: handle_field_def [abs_def] messages_def)
    obtain x where x: "ctxs ?u c = Some x" using inv_fields(7) [OF u(1), of c] remote(3) t(5) by (auto simp: refs_def)
    have sh: "qshape (Q ?u) c = Some (ctx_handle x, 0)" and cq: "ctx_queue x = c" using inv_queue [OF u(1) x] by simp_all
    obtain w where w: "skynet_mq_push (Q ?u) c (remote_error h ?rp) = Inr w" "srv_inv R B V (?u\<lparr>Q := w\<rparr>)"
        "views w = (views (Q ?u))(c \<mapsto> (ctx_handle x, 0, messages ?u c @ [remote_error h ?rp]))"
      by (rule mq_push_ok [OF u(1) sh])
    have ty: "uint (drop_bit MESSAGE_TYPE_SHIFT (push_bit MESSAGE_TYPE_SHIFT (word_of_int PTYPE_ERROR) :: u64)) = PTYPE_ERROR"
        "push_bit MESSAGE_TYPE_SHIFT (word_of_int PTYPE_ERROR) AND MESSAGE_TYPE_MASK = (0 :: u64)"
        "PTYPE_ERROR \<noteq> PTYPE_SYSTEM" "PTYPE_ERROR \<noteq> PTYPE_HARBOR"
      by (simp_all add: MESSAGE_TYPE_SHIFT_def MESSAGE_TYPE_MASK_def PTYPE_ERROR_def PTYPE_SYSTEM_def PTYPE_HARBOR_def mask_eq_exp_minus_1)
    have "drop_message s m h = Inr (?u\<lparr>Q := w\<rparr>)" using remote drop t(5,9,10) x cq w(1)
      by (simp add: new_remote_message_def skynet_harbor_send_def Let_def ty skynet_context_send_def remote_error_def)
    moreover have "messages (?u\<lparr>Q := w\<rparr>) b = messages s b @ error_notes s h (brk s) [m] b" for b
      using w(3) u(3) remote by (auto simp: messages_def)
    moreover have "dead_same s (?u\<lparr>Q := w\<rparr>)"
      using sh by (intro dead_same_upd [of s c "ctx_handle x"]) (simp_all add: w(3) t(11))
    moreover have "handle_field (?u\<lparr>Q := w\<rparr>) = handle_field s" using u(2) handle_field_cong [of "?u\<lparr>Q := w\<rparr>" ?u] by simp
    ultimately show ?thesis using that [of "?u\<lparr>Q := w\<rparr>"] t w(2) remote by (simp add: answered_def)
  qed
qed

lemma error_notes_Cons:
  "error_notes s h n (m # ms) b = error_notes s h n [m] b @ error_notes s h (fst (error_requests s n [m] rm)) ms b"
  "error_requests s n (m # ms) rm = (case error_requests s n [m] rm of (n', rm') \<Rightarrow> error_requests s n' ms rm')"
  by simp_all

lemma drop_messages_spec:
  "srv_inv R B V s \<Longrightarrow> views (Q s) a = Some (h0, r, ms) \<Longrightarrow> r \<noteq> 0 \<Longrightarrow> length ms < k \<Longrightarrow> h \<noteq> 0 \<Longrightarrow> HARBOR s \<noteq> -1 \<Longrightarrow>
    (\<forall>m \<in> set ms. source m = 0 \<or> local_handle s (source m)) \<or> REMOTE s \<noteq> None \<Longrightarrow>
    \<exists>s'. drop_messages k s a h = Inr s' \<and> srv_inv R B V s' \<and> views (Q s') a = Some (h0, r, []) \<and>
      freed s' = freed s @ filter (\<lambda>p. p \<noteq> 0) (map data ms) \<and> (brk s', rmsgs s') = error_requests s (brk s) ms (rmsgs s) \<and>
      (\<forall>b. b \<noteq> a \<longrightarrow> messages s' b = messages s b @ error_notes s h (brk s) ms b)"
proof (induction k arbitrary: s ms)
  case 0
  then show ?case by simp
next
  case (Suc k)
  note inv = Suc.prems(1)
  obtain as where rep: "sys_rep (Q s) B as" using inv_rep [OF inv] by blast
  obtain q where q: "mqs (Q s) a = Some q" "MessageQueue.handle q = h0" "release q = r" "mq_contents q = ms"
    using Suc.prems(2) by (auto simp: views_iff view_def)
  obtain w o' where w: "world_pop (Q s) a = Inr (w, o')" "sys_rep w B as"
    using dead_pop [OF rep q(1)] q(3) Suc.prems(3) by blast
  from world_pop_views [OF w(1) q(1) node_ok_inv [OF sys_rep_node [OF rep q(1)]]] show ?case
  proof (elim disjE exE conjE)
    assume v: "mq_contents q = []" "o' = None" "views w = views (Q s)"
    then have "srv_inv R B V (s\<lparr>Q := w\<rparr>)" using inv_set_Q [OF inv w(2)] by (simp add: qshape_def [abs_def])
    then show ?thesis using w(1) v q(4) Suc.prems(2) by (simp add: messages_def)
  next
    fix m ms'
    assume v: "mq_contents q = m # ms'" "o' = Some m" "views w = (views (Q s))(a \<mapsto> (MessageQueue.handle q, release q, ms'))"
    let ?u = "s\<lparr>Q := w\<rparr>"
    have ms: "ms = m # ms'" using v(1) q(4) by simp
    have "qshape w = qshape (Q s)"
      by (rule qshape_upd [of _ a h0 r]) (use Suc.prems(2) v(3) q(2,3) in \<open>auto simp: qshape_def\<close>)
    then have inv': "srv_inv R B V ?u" by (rule inv_set_Q [OF inv w(2)])
    have wa: "views w a = Some (h0, r, ms')" using v(3) q(2,3) by simp
    have hf: "handle_field ?u = handle_field s" by (rule handle_field_cong) simp
    have um: "messages ?u b = messages s b" if "b \<noteq> a" for b using v(3) that by (simp add: messages_def)
    have lu: "local_handle ?u = local_handle s" by (rule ext) (simp add: local_handle_def)
    have hb: "HARBOR ?u \<noteq> -1" and mm: "source m = 0 \<or> local_handle ?u (source m) \<or> REMOTE ?u \<noteq> None"
      using Suc.prems(6,7) ms unfolding lu by auto
    obtain t where t: "drop_message ?u m h = Inr t" "srv_inv R B V t" "dead_same ?u t" "answered ?u h m t"
      by (rule drop_message_spec [OF inv' Suc.prems(5) hb mm])
    have tf: "H t = H s" "HARBOR t = HARBOR s" "REMOTE t = REMOTE s" "handle_field t = handle_field s"
        "freed t = freed s @ filter (\<lambda>p. p \<noteq> 0) [data m]" "(brk t, rmsgs t) = error_requests s (brk s) [m] (rmsgs s)"
        "\<And>b. messages t b = messages ?u b @ error_notes s h (brk s) [m] b"
      using t(4) hf lu by (simp_all add: answered_def)
    have lt: "local_handle t = local_handle s" by (rule ext) (simp add: local_handle_def tf(2))
    note cong = error_notes_cong [OF tf(4,1-3)]
    have "views (Q t) a = Some (h0, r, ms')" using t(3) wa Suc.prems(3) by (simp add: dead_same_def)
    moreover have "(\<forall>m \<in> set ms'. source m = 0 \<or> local_handle t (source m)) \<or> REMOTE t \<noteq> None" "HARBOR t \<noteq> -1" "length ms' < k"
      using Suc.prems(4,6,7) ms unfolding lt tf(2,3) by auto
    ultimately obtain s' where s': "drop_messages k t a h = Inr s'" "srv_inv R B V s'" "views (Q s') a = Some (h0, r, [])"
        "freed s' = freed t @ filter (\<lambda>p. p \<noteq> 0) (map data ms')" "(brk s', rmsgs s') = error_requests s (brk t) ms' (rmsgs t)"
        "\<forall>b. b \<noteq> a \<longrightarrow> messages s' b = messages t b @ error_notes s h (brk t) ms' b"
      using Suc.IH [OF t(2) _ Suc.prems(3) _ Suc.prems(5)] unfolding cong by blast
    have "(brk s', rmsgs s') = error_requests s (brk s) ms (rmsgs s)"
      unfolding ms error_notes_Cons(2) [of s "brk s" m ms' "rmsgs s"] tf(6) [symmetric] using s'(5) by simp
    moreover have "messages s' b = messages s b @ error_notes s h (brk s) ms b" if "b \<noteq> a" for b
      unfolding ms error_notes_Cons(1) [of s h "brk s" m ms' b "rmsgs s"] tf(6) [symmetric] using s'(6) tf(7) [of b] um that by simp
    ultimately show ?thesis using w(1) v(2) t(1) tf(5) s'(1-4) ms by simp
  qed
qed

text \<open>C10: when a worker finds the queue of a service that has ended (its handle \<open>h\<close> is not 0, and the node has a harbor service or all
  messages left in the queue come from services of this node), the release of the queue ends without a fault: every
  message left in it is dropped and its data freed exactly once, the queue is gone, and for each
  of those messages its sender on this node, if it still exists, gets one error message from the dead service, in the
  order of the messages. For each message from another node the harbor service gets one request to send the error message to its sender. No
  other queue changes.
\<close>

theorem dead_queue_replies:
  assumes "srv_inv R B V s" and "a \<in> B" and "mqs (Q s) a = Some q" and "release q \<noteq> 0" and "h \<noteq> 0" and "HARBOR s \<noteq> -1"
    and "(\<forall>m \<in> set (mq_contents q). source m = 0 \<or> local_handle s (source m)) \<or> REMOTE s \<noteq> None"
  shows "\<exists>s'. release_queue s a h = Inr s' \<and> srv_inv R (B - {a}) V s' \<and> mqs (Q s') a = None \<and>
     freed s' = freed s @ filter (\<lambda>p. p \<noteq> 0) (map data (mq_contents q)) \<and>
     (brk s', rmsgs s') = error_requests s (brk s) (mq_contents q) (rmsgs s) \<and>
     (\<forall>b. b \<noteq> a \<longrightarrow> messages s' b = messages s b @ error_notes s h (brk s) (mq_contents q) b)"
proof -
  have v: "views (Q s) a = Some (MessageQueue.handle q, release q, mq_contents q)" by (rule views_queue [OF assms(3)])
  have k: "length (mq_contents q) < Suc (skynet_mq_length q)" by simp
  obtain t where t: "drop_messages (Suc (skynet_mq_length q)) s a h = Inr t" "srv_inv R B V t"
      "views (Q t) a = Some (MessageQueue.handle q, release q, [])"
      "freed t = freed s @ filter (\<lambda>p. p \<noteq> 0) (map data (mq_contents q))"
      "(brk t, rmsgs t) = error_requests s (brk s) (mq_contents q) (rmsgs s)"
      "\<forall>b. b \<noteq> a \<longrightarrow> messages t b = messages s b @ error_notes s h (brk s) (mq_contents q) b"
    using drop_messages_spec [OF assms(1) v assms(4) k assms(5-7)] by blast
  obtain w where w: "mq_free (Q t) a = Inr w" "srv_inv R (B - {a}) V (t\<lparr>Q := w\<rparr>)"
    by (rule inv_free [OF t(2) assms(2) t(3) assms(4)])
  have "release_queue s a h = Inr (t\<lparr>Q := w\<rparr>)"
    using assms(3,4) t(1) w(1) by (simp add: release_queue_def del: drop_messages.simps)
  moreover have "views w a = None" using mq_free_views [OF w(1)] by simp
  then have "mqs w a = None" by (simp add: views_def)
  moreover have "messages (t\<lparr>Q := w\<rparr>) b = messages t b" if "b \<noteq> a" for b
    using mq_free_views [OF w(1)] that by (simp add: messages_def)
  ultimately show ?thesis using w(2) t(4-6) by simp
qed

text \<open>A second service with a message from the logger in its queue ends, and a worker takes its queue.\<close>

definition demo_dead :: "(server \<times> mqid option) res" where
  "demo_dead =
     andThen (skynet_context_new demo_platform 1 demo_node ''agent'' None) (\<lambda>r.
     andThen (skynet_context_push (fst r) 0x1000002 \<lparr>source = 0x1000001, session = 3, data = 9, sz = 2\<rparr>) (\<lambda>r.
     andThen (handle_retire (fst r) 0x1000002) (\<lambda>r.
     andThen (globalmq_take (fst r)) (\<lambda>r. globalmq_take (fst r)))))"

lemma take_busy:
  "srv_inv R B V s \<Longrightarrow> \<exists>r. globalmq_take s = Inr r \<and> (\<exists>B'. srv_inv R B' V (fst r) \<and> (\<forall>a. snd r = Some a \<longrightarrow> a \<in> B'))"
  by (rule globalmq_take_ok, assumption) (auto intro: exI [of _ B])

lemma demo_dead_inv: "ends_in soft demo_dead (\<lambda>r. \<exists>B. srv_inv {#} B 0 (fst r) \<and> (\<forall>a. snd r = Some a \<longrightarrow> a \<in> B))"
proof -
  have take2: "ends_in soft (andThen (globalmq_take s) (\<lambda>r. globalmq_take (fst r)))
      (\<lambda>r. \<exists>B. srv_inv {#} B 0 (fst r) \<and> (\<forall>a. snd r = Some a \<longrightarrow> a \<in> B))" if "srv_inv {#} B 0 s" for s B
    using take_busy [OF that] take_busy [of "{#}" _ 0] by fastforce
  have new: "safe {#} {} 0 (skynet_context_new demo_platform 1 demo_node ''agent'' None)"
    by (rule ends_in_weaken [OF context_new_ok [OF demo_node_inv]]) simp
  show ?thesis unfolding demo_dead_def
    by (rule safe_bind [OF new], unfold fst_conv, rule safe_bind [OF safe_push], assumption, unfold fst_conv,
        rule safe_bind [OF safe_retire], assumption, unfold fst_conv) (rule take2)
qed

lemma demo_dead_facts:
  "map_sum (\<lambda>e. e) (\<lambda>r. (snd r, HARBOR (fst r), map_option (\<lambda>q. (release q, mq_contents q)) (mqs (Q (fst r)) 1),
      skynet_handle_grab (handle_field (fst r)) (H (fst r)) 0x1000001)) demo_dead =
   Inr (Some 1, 0x1000000, Some (1, [\<lparr>source = 0x1000001, session = 3, data = 9, sz = 2\<rparr>]), Some 0)"
  by code_simp

lemma map_sum_InrD: "map_sum f g m = Inr v \<Longrightarrow> \<exists>r. m = Inr r \<and> g r = v"
  by (cases m) auto

theorem dead_queue_replies_witness:
  "\<exists>s s'. release_queue s 1 0x1000002 = Inr s' \<and> mqs (Q s) 1 \<noteq> None \<and> mqs (Q s') 1 = None \<and> freed s' = freed s @ [9] \<and>
     messages s' 0 = messages s 0 @ [error_message 0x1000002]"
proof -
  let ?m = "\<lparr>source = 0x1000001, session = 3, data = 9, sz = 2\<rparr> :: skynet_message"
  obtain r where r: "demo_dead = Inr r" using map_sum_InrD [OF demo_dead_facts] by blast
  let ?s = "fst r"
  obtain B where B: "srv_inv {#} B 0 ?s" "\<forall>a. snd r = Some a \<longrightarrow> a \<in> B"
    using demo_dead_inv unfolding r ends_in_simps by blast
  have f: "snd r = Some 1" "HARBOR ?s = 0x1000000" "map_option (\<lambda>q. (release q, mq_contents q)) (mqs (Q ?s) 1) = Some (1, [?m])"
      "skynet_handle_grab (handle_field ?s) (H ?s) 0x1000001 = Some 0"
    using demo_dead_facts unfolding r by simp_all
  then obtain q where q: "mqs (Q ?s) 1 = Some q" "release q = 1" "mq_contents q = [?m]" by auto
  have l: "local_handle ?s 0x1000001" using f(2) by (simp add: local_handle_def HANDLE_MASK_def)
  then obtain s' where s': "release_queue ?s 1 0x1000002 = Inr s'" "mqs (Q s') 1 = None" "freed s' = freed ?s @ [9]"
      "\<forall>b. b \<noteq> 1 \<longrightarrow> messages s' b = messages ?s b @ error_notes ?s 0x1000002 (brk ?s) [?m] b"
    using dead_queue_replies [OF B(1) _ q(1), of "0x1000002"] B(2) f(1,2) q by auto
  from s'(4) have "messages s' 0 = messages ?s 0 @ [error_message 0x1000002]" using l f(4) by simp
  with s'(1-3) q(1) show ?thesis by blast
qed

section \<open>The turn of a worker\<close>

lemma handle_message_version:
  "handle_message L P s sm a h c m = Inr (s', sm') \<Longrightarrow> version sm' = version sm + 2 \<and> mon_destination sm' = 0"
  by (auto simp: handle_message_def andThen_Inr_iff Let_def skynet_monitor_trigger_def case_prod_beta)

lemma dispatch_turns_bounded:
  "dispatch_turns L P n s sm a h c = Inr (s', sm', out) \<Longrightarrow>
    \<exists>k \<le> n. version sm' = version sm + 2 * of_nat k \<and> (\<not> out \<longrightarrow> k = n) \<and> (mon_destination sm = 0 \<longrightarrow> mon_destination sm' = 0)"
proof (induction n arbitrary: s sm)
  case 0
  then show ?case by simp
next
  case (Suc n)
  from Suc.prems obtain w r where w: "world_pop (Q s) a = Inr (w, r)" by (auto simp: andThen_Inr_iff)
  show ?case
  proof (cases r)
    case None
    then show ?thesis using Suc.prems w by (auto intro!: exI [of _ 0])
  next
    case (Some m)
    then obtain t sm1 where t: "handle_message L P (s\<lparr>Q := w\<rparr>) sm a h c m = Inr (t, sm1)"
        "dispatch_turns L P n t sm1 a h c = Inr (s', sm', out)"
      using Suc.prems w by (auto simp: andThen_Inr_iff)
    obtain k where "k \<le> n" "version sm' = version sm1 + 2 * of_nat k" "\<not> out \<longrightarrow> k = n" "mon_destination sm' = 0"
      using Suc.IH [OF t(2)] handle_message_version [OF t(1)] by auto
    then show ?thesis using handle_message_version [OF t(1)] by (intro exI [of _ "Suc k"]) (simp add: algebra_simps)
  qed
qed

text \<open>C11: a worker cannot be kept by one service: of a queue of length \<open>l\<close> it handles at least one message and
  at most \<open>max 1 ((l - 1) div 2 ^ weight)\<close> (one for a negative weight) before the next queue has its turn,
  and fewer only when the queue runs empty. Each message is two increments of the version that the
  monitor compares, and at the end the monitor no longer names a service.
\<close>

theorem dispatch_bounded:
  assumes "mqs (Q s) a = Some q" and "mq_inv q" and "mq_contents q \<noteq> []"
    and "dispatch_batch L P s sm a h c weight = Inr (s', sm', out)"
  shows "\<exists>k. 1 \<le> k \<and> k \<le> (if 0 \<le> weight then max 1 ((skynet_mq_length q - 1) div 2 ^ nat weight) else 1) \<and>
    (\<not> out \<longrightarrow> k = (if 0 \<le> weight then max 1 ((skynet_mq_length q - 1) div 2 ^ nat weight) else 1)) \<and>
    version sm' = version sm + 2 * of_nat k \<and> mon_destination sm' = 0"
proof -
  obtain m ms where "mq_contents q = m # ms" using assms(3) by (cases "mq_contents q") auto
  then obtain q' where q': "skynet_mq_pop q = Inr (q', Some m)" "mq_contents q' = ms" using mq_pop_Cons [OF assms(2)] by metis
  have len: "skynet_mq_length q' = skynet_mq_length q - 1"
    using q'(2) \<open>mq_contents q = m # ms\<close> length_mq_contents [of q] length_mq_contents [of q'] by simp
  have pop: "world_pop (Q s) a = Inr (set_mq a q' (Q s), Some m)" using assms(1) q'(1) by (simp add: world_pop_def)
  let ?n = "if 0 \<le> weight then skynet_mq_length q' div 2 ^ nat weight else 1"
  obtain t sm1 where t: "handle_message L P (s\<lparr>Q := set_mq a q' (Q s)\<rparr>) sm a h c m = Inr (t, sm1)"
      "dispatch_turns L P (?n - 1) t sm1 a h c = Inr (s', sm', out)"
    using assms(4) pop by (auto simp: dispatch_batch_def andThen_Inr_iff Let_def set_mq_def)
  obtain k where "k \<le> ?n - 1" "version sm' = version sm1 + 2 * of_nat k" "\<not> out \<longrightarrow> k = ?n - 1" "mon_destination sm' = 0"
    using dispatch_turns_bounded [OF t(2)] handle_message_version [OF t(1)] by auto
  then show ?thesis
    using handle_message_version [OF t(1)] len
    by (intro exI [of _ "Suc k"]) (auto simp: algebra_simps max_def)
qed

text \<open>The logger with the message of its own launch and two more.\<close>

definition demo_busy :: "(server \<times> bool) res" where
  "demo_busy =
     andThen (skynet_context_push demo_node 0x1000001 \<lparr>source = 1, session = 3, data = 9, sz = 2\<rparr>) (\<lambda>r.
     skynet_context_push (fst r) 0x1000001 \<lparr>source = 1, session = 4, data = 10, sz = 2\<rparr>)"

definition demo_batch :: "server \<Rightarrow> (server \<times> skynet_monitor \<times> bool) res" where
  "demo_batch s = dispatch_batch (skynet_context_new demo_platform 1) demo_platform s skynet_monitor_new 0 0x1000001 0 0"

lemma demo_busy_facts:
  "map_sum (\<lambda>e. e) (\<lambda>r. (map_option (\<lambda>q. (mq_inv q, skynet_mq_length q)) (mqs (Q (fst r)) 0),
      map_sum (\<lambda>e. e) (\<lambda>r. snd (snd r)) (demo_batch (fst r)))) demo_busy = Inr (Some (True, 3), Inr False)"
  by code_simp

theorem dispatch_bounded_witness:
  "\<exists>s s' sm'. demo_batch s = Inr (s', sm', False) \<and> length (messages s 0) = 3 \<and> version sm' = 4 \<and> mon_destination sm' = 0"
proof -
  obtain r :: "server \<times> bool" where r: "map_option (\<lambda>q. (mq_inv q, skynet_mq_length q)) (mqs (Q (fst r)) 0) = Some (True, 3)"
      "map_sum (\<lambda>e. e) (\<lambda>r. snd (snd r)) (demo_batch (fst r)) = Inr False"
    using map_sum_InrD [OF demo_busy_facts] by (simp only: prod.inject) blast
  let ?s = "fst r"
  obtain q where q: "mqs (Q ?s) 0 = Some q" "mq_inv q" "skynet_mq_length q = 3" using r(1) by auto
  obtain s' sm' where b: "demo_batch ?s = Inr (s', sm', False)" using map_sum_InrD [OF r(2)] by auto
  have "mq_contents q \<noteq> []" using q(3) length_mq_contents [of q] by (metis list.size(3) zero_neq_numeral)
  from dispatch_bounded [OF q(1,2) this b [unfolded demo_batch_def]] have "version sm' = 4 \<and> mon_destination sm' = 0"
    using q(3) by (auto simp: skynet_monitor_new_def)
  with b q(1,3) show ?thesis by (intro exI [of _ ?s] exI [of _ s'] exI [of _ sm']) (simp add: messages_view)
qed

section \<open>The monitor\<close>

lemma endless_spec:
  assumes inv: "srv_inv R B V s" and c: "skynet_handle_grab (handle_field s) (H s) h = Some c" "ctxs s c = Some x"
  shows "skynet_context_endless s h = Inr (set_ctx c (x\<lparr>endless := True\<rparr>) s)"
  using c
proof (cases rule: handle_grab_ok [OF inv, of h])
  case (2 d y)
  have "0 < ref x" using inv_fields(6) [OF inv c(2)] by (simp add: context_ok_def)
  then show ?thesis using 2 c by (simp add: skynet_context_endless_def skynet_context_release_def Let_def set_ctx_def)
qed simp

text \<open>C13: a callback that does not return is found: if the monitor looks twice at a worker while it is in the
  same callback, the second look sets the mark \<open>endless\<close> of the service and changes no other context. If
  the callback returns between the two looks, or another one begins, nothing happens.
\<close>

theorem monitor_detects:
  assumes "srv_inv R B V s" and "skynet_handle_grab (handle_field s) (H s) dest = Some c" and "ctxs s c = Some x" and "dest \<noteq> 0"
    and "check_version sm \<noteq> version sm + 1"
  shows "\<exists>sm1 s'. skynet_monitor_check s (skynet_monitor_trigger sm src dest) = Inr (s, sm1) \<and>
     skynet_monitor_check s sm1 = Inr (s', sm1) \<and> ctxs s' = (ctxs s)(c \<mapsto> x\<lparr>endless := True\<rparr>) \<and> srv_inv R B V s' \<and>
     (\<forall>src' dest'. \<exists>sm2. skynet_monitor_check s (skynet_monitor_trigger sm1 src' dest') = Inr (s, sm2))"
proof -
  let ?sm = "(skynet_monitor_trigger sm src dest)\<lparr>check_version := version sm + 1\<rparr>"
  let ?t = "set_ctx c (x\<lparr>endless := True\<rparr>) s"
  have one: "skynet_monitor_check s (skynet_monitor_trigger sm src dest) = Inr (s, ?sm)"
    using assms(5) by (simp add: skynet_monitor_check_def skynet_monitor_trigger_def)
  have t: "srv_inv R B V ?t" by (rule inv_set_ctx [OF assms(1,3)]) simp_all
  have err: "\<exists>s'. skynet_error ?t None msg = Inr s' \<and> ctxs s' = ctxs ?t \<and> srv_inv R B V s'" for msg
    using error_keeps [OF t, of None msg] by (auto simp: keeps_def)
  have "skynet_monitor_check s ?sm = andThen (skynet_error ?t None (''A message from [ :'' @ hex8_text src @ '' ] to [ :'' @
      hex8_text dest @ '' ] maybe in an endless loop (version = '' @ dec_text (sint (version sm + 1)) @ '')'')) (\<lambda>s. Inr (s, ?sm))"
    using endless_spec [OF assms(1-3)] assms(4) by (simp add: skynet_monitor_check_def skynet_monitor_trigger_def)
  then obtain s' where "skynet_monitor_check s ?sm = Inr (s', ?sm)" "ctxs s' = ctxs ?t" "srv_inv R B V s'"
    using err by (metis andThen_simps(2))
  moreover have "\<exists>sm2. skynet_monitor_check s (skynet_monitor_trigger ?sm src' dest') = Inr (s, sm2)" for src' dest'
    by (simp add: skynet_monitor_check_def skynet_monitor_trigger_def)
  ultimately show ?thesis using one by (intro exI [of _ ?sm] exI [of _ s']) simp
qed

theorem monitor_detects_witness:
  "\<exists>sm1 s'. skynet_monitor_check demo_node (skynet_monitor_trigger skynet_monitor_new 7 0x1000001) = Inr (demo_node, sm1) \<and>
     skynet_monitor_check demo_node sm1 = Inr (s', sm1) \<and> map_option endless (ctxs s' 0) = Some True"
proof -
  obtain x where x: "ctxs demo_node 0 = Some x" using demo_facts(2) by auto
  from monitor_detects [OF demo_node_inv demo_facts(3) x, of skynet_monitor_new 7] show ?thesis
    by (fastforce simp: skynet_monitor_new_def)
qed

section \<open>Handles as text\<close>

lemma of_char_byte: "of_char (char_of (unat b)) = (b :: u8)"
proof -
  have "of_char (char_of (unat b)) = (of_nat (of_char (char_of (unat b))) :: u8)" by (simp only: of_nat_of_char)
  also have "\<dots> = b" using unat_byte_lt [of b] by simp
  finally show ?thesis .
qed

lemma text_bytes_of_bytes [simp]: "text_bytes (bytes_text bs) = bs"
  by (induction bs) (simp_all add: text_bytes_def bytes_text_def of_char_byte)

lemma less_16: "d < 16 \<Longrightarrow> d = 0 \<or> d = 1 \<or> d = 2 \<or> d = 3 \<or> d = 4 \<or> d = 5 \<or> d = 6 \<or> d = 7 \<or>
    d = 8 \<or> d = 9 \<or> d = 10 \<or> d = 11 \<or> d = 12 \<or> d = 13 \<or> d = 14 \<or> d = (15 :: nat)"
  by presburger

lemma hex_digit_value: "d < 16 \<Longrightarrow> digit_of 16 (hex_digit d) = Some d"
  by (drule less_16) (elim disjE; simp add: digit_of_def hex_digit_def)

lemma show_hex_digits: "\<forall>c\<in>set (show_hex n). digit_of 16 c \<noteq> None"
  by (induction n rule: show_hex.induct) (subst show_hex.simps, auto simp: hex_digit_value)

lemma digits_value_hex: "digits_value 16 0 (show_hex n) = n"
proof (induction n rule: show_hex.induct)
  case (1 n)
  show ?case
  proof (cases "n < 16")
    case True
    then show ?thesis by (subst show_hex.simps) (simp add: hex_digit_value)
  next
    case False
    then show ?thesis using 1 show_hex_digits by (subst show_hex.simps) (simp add: digits_value_append hex_digit_value)
  qed
qed

lemma hex_char: "digit_of 16 c \<noteq> None \<Longrightarrow> \<not> is_space c \<and> c \<noteq> 45 \<and> c \<noteq> 43 \<and> c \<noteq> 120 \<and> c \<noteq> 88"
  by (auto simp: digit_of_def is_space_def word_le_nat_alt split: if_splits)

lemma strtoul16_digits:
  assumes d: "\<forall>c\<in>set bs. digit_of 16 c \<noteq> None" and v: "digits_value 16 0 bs < 2 ^ 64"
  shows "strtoul16 bs = of_nat (digits_value 16 0 bs)"
proof -
  have h: "\<not> is_space c" "c \<noteq> 45" "c \<noteq> 43" "c \<noteq> 120" "c \<noteq> 88" if "c \<in> set bs" for c using hex_char d that by blast+
  have "dropWhile is_space bs = bs" using h(1) by (cases bs) auto
  moreover have "split_sign bs = (False, bs)" using h(2,3) by (cases bs) (auto simp: split_sign_def)
  moreover have "(case bs of a # b # r \<Rightarrow> if a = 48 \<and> (b = 120 \<or> b = 88) then r else bs | _ \<Rightarrow> bs) = bs"
    using h(4,5) by (auto split: list.split)
  ultimately show ?thesis using v by (simp add: strtoul16_def Let_def)
qed

lemma strtoul_digits:
  assumes d: "\<forall>c\<in>set (text_bytes t). digit_of 16 c \<noteq> None" and v: "digits_value 16 0 (text_bytes t) = unat (h :: u32)"
  shows "strtoul_handle t = h"
proof -
  have "unat h < 2 ^ LENGTH(32)" by (rule unsigned_less)
  then have "unat h < 2 ^ 64" by simp
  then have "strtoul16 (text_bytes t) = of_nat (unat h)" using strtoul16_digits [OF d] v by simp
  moreover have "ucast (ucast h :: u64) = h" by (rule bit_word_eqI) (auto simp: bit_simps)
  ultimately show ?thesis by (simp add: strtoul_handle_def)
qed

lemma strtoul_hex: "strtoul_handle (hex_text h) = h"
  using show_hex_digits digits_value_hex by (intro strtoul_digits) (auto simp: hex_text_def)

text \<open>The eight digits of \<open>id_to_hex\<close>.\<close>

lemma foldl_nibbles: "foldl (\<lambda>a i. a * 16 + n div 16 ^ i mod 16) acc (rev [0..<k]) = acc * 16 ^ k + n mod 16 ^ k" for n :: nat
proof (induction k arbitrary: acc)
  case (Suc k)
  have "n mod 16 ^ Suc k = 16 ^ k * (n div 16 ^ k mod 16) + n mod 16 ^ k"
    using mod_mult2_eq [of n "16 ^ k" 16] by (simp add: mult.commute)
  then show ?case using Suc.IH by (simp add: algebra_simps)
qed simp

definition upper_digit :: "nat \<Rightarrow> u8" where
  "upper_digit d = of_char (''0123456789ABCDEF'' ! d)"

lemma upper_digit_value: "d < 16 \<Longrightarrow> digit_of 16 (upper_digit d) = Some d"
  by (drule less_16) (elim disjE; hypsubst; code_simp)

lemma digits_value_map:
  "(\<And>i. i \<in> set is \<Longrightarrow> f i < 16) \<Longrightarrow> digits_value 16 acc (map (\<lambda>i. upper_digit (f i)) is) = foldl (\<lambda>a i. a * 16 + f i) acc is"
  by (induction "is" arbitrary: acc) (simp_all add: upper_digit_value)

lemma nibble: "unat (drop_bit (i * 4) h AND 0xf) = unat h div 16 ^ i mod 16" for h :: u32
proof -
  have "drop_bit (i * 4) h AND 0xf = take_bit 4 (drop_bit (i * 4) h)" by (simp add: take_bit_eq_mask mask_numeral)
  then have "unat (drop_bit (i * 4) h AND 0xf) = take_bit 4 (drop_bit (i * 4) (unat h))"
    by (simp only: unsigned_take_bit_eq unsigned_drop_bit_eq take_bit_nat_eq_self [OF unsigned_less])
  also have "\<dots> = unat h div 16 ^ i mod 16" by (simp add: take_bit_eq_mod drop_bit_eq_div power_mult mult.commute [of i 4])
  finally show ?thesis .
qed

lemma id_to_hex_digits:
  "text_bytes (tl (id_to_hex h)) = map (\<lambda>i. upper_digit (unat h div 16 ^ i mod 16)) (rev [0..<8])"
proof -
  have "rev [0..<8] = map (\<lambda>i. 7 - i) [0..<8 :: nat]" by (simp add: upt_rec)
  then show ?thesis by (simp add: id_to_hex_def text_bytes_def nibble upper_digit_def)
qed

lemma strtoul_id: "strtoul_handle (tl (id_to_hex h)) = h"
proof (rule strtoul_digits)
  show "\<forall>c\<in>set (text_bytes (tl (id_to_hex h))). digit_of 16 c \<noteq> None"
    unfolding id_to_hex_digits by (auto simp: upper_digit_value)
  have "unat h < 2 ^ LENGTH(32)" by (rule unsigned_less)
  then have "unat h < 16 ^ 8" by simp
  then show "digits_value 16 0 (text_bytes (tl (id_to_hex h))) = unat h"
    unfolding id_to_hex_digits by (subst digits_value_map) (simp_all only: foldl_nibbles, simp_all)
qed

text \<open>The texts by which handles are passed to commands read back as the same handle, for every
  handle: the short form that \<open>REG\<close>, \<open>QUERY\<close> and \<open>MONITOR\<close> answer with, and the eight digits that \<open>LAUNCH\<close> answers with.
\<close>

lemma handle_text_roundtrip:
  "tohandle s c (CHR '':'' # hex_text h) = Inr (s, h) \<and> tohandle s c (id_to_hex h) = Inr (s, h) \<and>
   skynet_queryname s c (CHR '':'' # hex_text h) = Inr (s, h) \<and> skynet_queryname s c (id_to_hex h) = Inr (s, h)"
proof -
  have "id_to_hex h = CHR '':'' # tl (id_to_hex h)" by (simp add: id_to_hex_def)
  then show ?thesis using strtoul_hex [of h] strtoul_id [of h] by (metis list.sel(1,3) list.distinct(1) skynet_queryname_def tohandle_def)
qed

end
