(* ===== verification/HashId.thy ===== *)
theory HashId
  imports Prelude
begin

text \<open>
  Model of \<^verbatim>\<open>service-src/hashid.h\<close>: a hash table from socket ids to slots, with the nodes in an
  array of \<open>cap\<close> entries and collisions chained through node pointers. A node pointer is its
  index in the array; \<open>-1\<close> marks a free node.

  The chains are pointer structures that the code edits in place, so the invariant
  \<open>hashid_rep\<close> describes each chain by the list of its nodes. The table is proved to implement
  a partial map from ids to slots.
\<close>

section \<open>State and operations\<close>

record hashid_node =
  nid :: int
  nnext :: "nat option"

record hashid =
  hashmod :: int
  cap :: int
  count :: int
  ids :: "hashid_node list"
  hash :: "nat option list"

text \<open>
  The loop of \<open>hashid_init\<close>. It doubles a C \<^verbatim>\<open>int\<close>: above \<open>2 ^ 30\<close> the value wraps around and the
  loop does not end, which shows as running out of the 32 turns that any other case needs at most.
\<close>

fun hashcap_loop :: "nat \<Rightarrow> int \<Rightarrow> int \<Rightarrow> int res" where
  "hashcap_loop fuel c mx =
     (if c < mx then (case fuel of 0 \<Rightarrow> Inl Out_of_fuel | Suc f \<Rightarrow> hashcap_loop f (wrap32 (c * 2)) mx)
      else Inr c)"

declare hashcap_loop.simps [simp del]

definition hashid_init :: "int \<Rightarrow> hashid res" where
  "hashid_init mx =
     andThen (hashcap_loop 32 16 mx) (\<lambda>hashcap.
       Inr \<lparr>hashmod = hashcap - 1, cap = mx, count = 0,
            ids = replicate (nat mx) \<lparr>nid = -1, nnext = None\<rparr>,
            hash = replicate (nat hashcap) None\<rparr>)"

definition hashid_clear :: "hashid \<Rightarrow> hashid" where
  "hashid_clear hi = \<lparr>hashmod = 1, cap = 0, count = 0, ids = [], hash = []\<rparr>"

definition bucket :: "hashid \<Rightarrow> int \<Rightarrow> nat" where
  "bucket hi i = nat (i AND hashmod hi)"

text \<open>
  Walking a chain. A chain that visits more nodes than there are is a cycle, and the loop of
  the source would not end; the fuel \<open>length ids\<close> is therefore exact.
\<close>

fun chain_find :: "nat \<Rightarrow> hashid_node list \<Rightarrow> int \<Rightarrow> nat option \<Rightarrow> int res" where
  "chain_find fuel ns i None = Inr (-1)"
| "chain_find 0 ns i (Some c) = Inl Out_of_fuel"
| "chain_find (Suc f) ns i (Some c) =
     (if c < length ns then
        if nid (ns ! c) = i then Inr (int c) else chain_find f ns i (nnext (ns ! c))
      else Inl Bad_pointer)"

definition hashid_lookup :: "hashid \<Rightarrow> int \<Rightarrow> int res" where
  "hashid_lookup hi i =
     (if bucket hi i < length (hash hi) then chain_find (length (ids hi)) (ids hi) i (hash hi ! bucket hi i)
      else Inl Bad_pointer)"

text \<open>The second loop of \<open>hashid_remove\<close>: it looks one node ahead and unlinks that node.\<close>

fun chain_unlink :: "nat \<Rightarrow> hashid_node list \<Rightarrow> int \<Rightarrow> nat \<Rightarrow> (hashid_node list \<times> nat) option res" where
  "chain_unlink fuel ns i c =
     (case nnext (ns ! c) of
        None \<Rightarrow> Inr None
      | Some t \<Rightarrow>
          if length ns \<le> t then Inl Bad_pointer
          else if nid (ns ! t) = i then
            Inr (Some (ns[c := (ns ! c)\<lparr>nnext := nnext (ns ! t)\<rparr>], t))
          else (case fuel of 0 \<Rightarrow> Inl Out_of_fuel | Suc f \<Rightarrow> chain_unlink f ns i t))"

declare chain_unlink.simps [simp del]

text \<open>The code after \<^verbatim>\<open>_clear\<close>.\<close>

definition clear_node :: "hashid \<Rightarrow> nat \<Rightarrow> hashid" where
  "clear_node hi c = hi\<lparr>ids := (ids hi)[c := \<lparr>nid = -1, nnext = None\<rparr>], count := count hi - 1\<rparr>"

definition hashid_remove :: "hashid \<Rightarrow> int \<Rightarrow> (hashid \<times> int) res" where
  "hashid_remove hi i =
     (let h = bucket hi i in
      if length (hash hi) \<le> h then Inl Bad_pointer
      else case hash hi ! h of
        None \<Rightarrow> Inr (hi, -1)
      | Some c \<Rightarrow>
          if length (ids hi) \<le> c then Inl Bad_pointer
          else if nid (ids hi ! c) = i then
            Inr (clear_node (hi\<lparr>hash := (hash hi)[h := nnext (ids hi ! c)]\<rparr>) c, int c)
          else
            andThen (chain_unlink (length (ids hi)) (ids hi) i c) (\<lambda>r. case r of
                None \<Rightarrow> Inr (hi, -1)
              | Some (ns, t) \<Rightarrow> Inr (clear_node (hi\<lparr>ids := ns\<rparr>) t, int t)))"

text \<open>
  The search of \<open>hashid_insert\<close> for a free node, from index \<open>id % cap\<close> on. The sum is a C \<^verbatim>\<open>int\<close>:
  where it wraps around the remainder is negative and the index lies before the array.
\<close>

function free_node :: "hashid \<Rightarrow> int \<Rightarrow> int \<Rightarrow> nat option res" where
  "free_node hi i k =
     (if k < cap hi then
        let s = wrap32 (k + i); index = (if s < 0 then - ((- s) mod cap hi) else s mod cap hi) in
        if index < 0 \<or> length (ids hi) \<le> nat index then Inl Out_of_range
        else if nid (ids hi ! nat index) = -1 then Inr (Some (nat index))
        else free_node hi i (k + 1)
      else Inr None)"
  by pat_completeness auto
termination
  by (relation "measure (\<lambda>(hi, i, k). nat (cap hi - k))") auto

declare free_node.simps [simp del]

definition hashid_insert :: "hashid \<Rightarrow> int \<Rightarrow> (hashid \<times> int) res" where
  "hashid_insert hi i =
     andThen (free_node hi i 0) (\<lambda>r. case r of
         None \<Rightarrow> Inl Assert_failed
       | Some c \<Rightarrow>
           andThen (assert_that (nnext (ids hi ! c) = None)) (\<lambda>_.
             let h = bucket hi i in
             if length (hash hi) \<le> h then Inl Bad_pointer
             else Inr (hi\<lparr>count := count hi + 1,
                         ids := (ids hi)[c := \<lparr>nid = i, nnext = hash hi ! h\<rparr>],
                         hash := (hash hi)[h := Some c]\<rparr>, int c)))"

definition hashid_full :: "hashid \<Rightarrow> bool" where
  "hashid_full hi = (count hi = cap hi)"


section \<open>Chains\<close>

text \<open>\<open>chain ns p xs\<close>: from pointer \<open>p\<close> the nodes \<open>xs\<close> are linked in this order.\<close>

fun chain :: "hashid_node list \<Rightarrow> nat option \<Rightarrow> nat list \<Rightarrow> bool" where
  "chain ns p [] = (p = None)"
| "chain ns p (x # xs) = (p = Some x \<and> x < length ns \<and> chain ns (nnext (ns ! x)) xs)"

lemma chain_bound: "chain ns p xs \<Longrightarrow> x \<in> set xs \<Longrightarrow> x < length ns"
  by (induction xs arbitrary: p) auto

lemma chain_cong:
  "chain ns p xs \<Longrightarrow> length ns' = length ns \<Longrightarrow> (\<And>x. x \<in> set xs \<Longrightarrow> nnext (ns' ! x) = nnext (ns ! x)) \<Longrightarrow>
    chain ns' p xs"
  by (induction xs arbitrary: p) auto

lemma chain_length_le:
  assumes "chain ns p xs" and "distinct xs"
  shows "length xs \<le> length ns"
proof -
  have "set xs \<subseteq> {..<length ns}" using chain_bound [OF assms(1)] by auto
  then have "card (set xs) \<le> card {..<length ns}" by (intro card_mono) simp_all
  then show ?thesis using assms(2) by (simp add: distinct_card)
qed

lemma chain_find_spec:
  "chain ns p xs \<Longrightarrow> length xs \<le> f \<Longrightarrow>
    chain_find f ns i p = Inr (case find (\<lambda>c. nid (ns ! c) = i) xs of None \<Rightarrow> -1 | Some c \<Rightarrow> int c)"
proof (induction xs arbitrary: p f)
  case (Cons x xs)
  then obtain g where "f = Suc g" by (cases f) auto
  with Cons show ?case by auto
qed simp

text \<open>Unlinking a node behind the first one of a chain.\<close>

lemma chain_unlink_spec:
  assumes "chain ns (Some c) (c # xs)" and "distinct (c # xs)" and "length xs \<le> f"
  shows "(find (\<lambda>x. nid (ns ! x) = i) xs = None \<longrightarrow> chain_unlink f ns i c = Inr None) \<and>
    (\<forall>t. find (\<lambda>x. nid (ns ! x) = i) xs = Some t \<longrightarrow>
      (\<exists>b\<in>set (c # xs). b \<noteq> t \<and>
        chain_unlink f ns i c = Inr (Some (ns[b := (ns ! b)\<lparr>nnext := nnext (ns ! t)\<rparr>], t)) \<and>
        chain (ns[b := (ns ! b)\<lparr>nnext := nnext (ns ! t)\<rparr>]) (Some c) (c # remove1 t xs)))"
  using assms
proof (induction xs arbitrary: c f)
  case Nil
  then show ?case by (simp add: chain_unlink.simps)
next
  case (Cons x xs)
  then have c: "nnext (ns ! c) = Some x" "x < length ns" "c < length ns" "c \<noteq> x" "c \<notin> set xs" "x \<notin> set xs" "distinct xs"
    and ch: "chain ns (nnext (ns ! x)) xs" by auto
  obtain g where g: "f = Suc g" "length xs \<le> g" using Cons.prems(3) by (cases f) auto
  show ?case
  proof (cases "nid (ns ! x) = i")
    case True
    let ?ns = "ns[c := (ns ! c)\<lparr>nnext := nnext (ns ! x)\<rparr>]"
    have "chain ?ns (nnext (ns ! x)) xs"
      using c by (intro chain_cong [OF ch]) (auto simp: nth_list_update)
    then have "chain ?ns (Some c) (c # xs)" using c by simp
    moreover have "chain_unlink f ns i c = Inr (Some (?ns, x))"
      using c True by (subst chain_unlink.simps) simp
    ultimately show ?thesis using c True by auto
  next
    case False
    have u: "chain_unlink f ns i c = chain_unlink g ns i x"
      using c False g by (subst chain_unlink.simps) simp
    have IH: "(find (\<lambda>x. nid (ns ! x) = i) xs = None \<longrightarrow> chain_unlink g ns i x = Inr None) \<and>
      (\<forall>t. find (\<lambda>x. nid (ns ! x) = i) xs = Some t \<longrightarrow>
      (\<exists>b\<in>set (x # xs). b \<noteq> t \<and>
        chain_unlink g ns i x = Inr (Some (ns[b := (ns ! b)\<lparr>nnext := nnext (ns ! t)\<rparr>], t)) \<and>
        chain (ns[b := (ns ! b)\<lparr>nnext := nnext (ns ! t)\<rparr>]) (Some x) (x # remove1 t xs)))"
      using c ch g by (intro Cons.IH) auto
    show ?thesis
    proof (intro conjI allI impI)
      assume "find (\<lambda>x. nid (ns ! x) = i) (x # xs) = None"
      with IH False show "chain_unlink f ns i c = Inr None" by (simp add: u)
    next
      fix t assume f: "find (\<lambda>x. nid (ns ! x) = i) (x # xs) = Some t"
      with False IH obtain b where b: "b \<in> set (x # xs)" "b \<noteq> t"
        "chain_unlink g ns i x = Inr (Some (ns[b := (ns ! b)\<lparr>nnext := nnext (ns ! t)\<rparr>], t))"
        "chain (ns[b := (ns ! b)\<lparr>nnext := nnext (ns ! t)\<rparr>]) (Some x) (x # remove1 t xs)" by auto
      have "x \<noteq> t" using f False by (auto simp: find_Some_iff)
      moreover have "b \<noteq> c" using b(1) c by auto
      ultimately show "\<exists>b\<in>set (c # x # xs). b \<noteq> t \<and>
        chain_unlink f ns i c = Inr (Some (ns[b := (ns ! b)\<lparr>nnext := nnext (ns ! t)\<rparr>], t)) \<and>
        chain (ns[b := (ns ! b)\<lparr>nnext := nnext (ns ! t)\<rparr>]) (Some c) (c # remove1 t (x # xs))"
        using b c u by (intro bexI [of _ b]) auto
    qed
  qed
qed

section \<open>Invariant and abstraction\<close>

definition used :: "hashid \<Rightarrow> nat set" where
  "used hi = {c. c < length (ids hi) \<and> nid (ids hi ! c) \<noteq> -1}"

text \<open>\<open>bk h\<close> lists the nodes of the chain of bucket \<open>h\<close>.\<close>

definition hashid_rep :: "hashid \<Rightarrow> (nat \<Rightarrow> nat list) \<Rightarrow> bool" where
  "hashid_rep hi bk \<longleftrightarrow>
     (\<exists>k. hashmod hi = mask k \<and> length (hash hi) = 2 ^ k) \<and> 0 \<le> cap hi \<and> length (ids hi) = nat (cap hi) \<and>
     (\<forall>h<length (hash hi). chain (ids hi) (hash hi ! h) (bk h) \<and> distinct (bk h) \<and>
        set (bk h) = {c\<in>used hi. bucket hi (nid (ids hi ! c)) = h}) \<and>
     (\<forall>c<length (ids hi). c \<notin> used hi \<longrightarrow> nnext (ids hi ! c) = None) \<and>
     inj_on (\<lambda>c. nid (ids hi ! c)) (used hi) \<and>
     count hi = int (card (used hi))"

definition hashid_inv :: "hashid \<Rightarrow> bool" where
  "hashid_inv hi \<longleftrightarrow> (\<exists>bk. hashid_rep hi bk)"

text \<open>The table as a partial map from ids to slots.\<close>

definition hashid_map :: "hashid \<Rightarrow> int \<Rightarrow> nat option" where
  "hashid_map hi i = (if i = -1 then None else find (\<lambda>c. nid (ids hi ! c) = i) [0..<length (ids hi)])"

lemma find_unique:
  "(\<And>a b. a \<in> set xs \<Longrightarrow> b \<in> set xs \<Longrightarrow> P a \<Longrightarrow> P b \<Longrightarrow> a = b) \<Longrightarrow>
    find P xs = Some c \<longleftrightarrow> c \<in> set xs \<and> P c"
  by (induction xs) auto

lemma hashid_repD:
  assumes "hashid_rep hi bk"
  shows "bucket hi i < length (hash hi)" and "length (ids hi) = nat (cap hi)" and "0 \<le> cap hi"
    and "h < length (hash hi) \<Longrightarrow> chain (ids hi) (hash hi ! h) (bk h)"
    and "h < length (hash hi) \<Longrightarrow> distinct (bk h)"
    and "h < length (hash hi) \<Longrightarrow> set (bk h) = {c\<in>used hi. bucket hi (nid (ids hi ! c)) = h}"
    and "c < length (ids hi) \<Longrightarrow> c \<notin> used hi \<Longrightarrow> nnext (ids hi ! c) = None"
    and "inj_on (\<lambda>c. nid (ids hi ! c)) (used hi)" and "count hi = int (card (used hi))"
proof -
  from assms obtain k where k: "hashmod hi = mask k" "length (hash hi) = 2 ^ k"
    by (auto simp: hashid_rep_def)
  have "i AND mask k < 2 ^ k" "0 \<le> i AND mask k"
    by (simp_all flip: take_bit_eq_mask)
  then show "bucket hi i < length (hash hi)"
    unfolding bucket_def k by (simp add: nat_less_iff)
qed (use assms in \<open>simp_all add: hashid_rep_def\<close>)

lemma hashid_map_Some:
  assumes "hashid_rep hi bk"
  shows "hashid_map hi i = Some c \<longleftrightarrow> c \<in> used hi \<and> nid (ids hi ! c) = i"
proof (cases "i = -1")
  case True
  then show ?thesis by (auto simp: hashid_map_def used_def)
next
  case False
  have u: "a = b" if "a < length (ids hi)" "b < length (ids hi)" "nid (ids hi ! a) = i" "nid (ids hi ! b) = i" for a b
    using that False inj_onD [OF hashid_repD(8) [OF assms], of a b] by (auto simp: used_def)
  then show ?thesis using False unfolding hashid_map_def
    by (subst if_not_P, simp, subst find_unique) (auto simp: used_def)
qed

lemma hashid_map_find:
  assumes r: "hashid_rep hi bk" and "i \<noteq> -1"
  shows "find (\<lambda>c. nid (ids hi ! c) = i) (bk (bucket hi i)) = hashid_map hi i"
proof (rule option_eqI)
  fix c
  note b = hashid_repD(1) [OF r, of i]
  have "find (\<lambda>c. nid (ids hi ! c) = i) (bk (bucket hi i)) = Some c \<longleftrightarrow>
      c \<in> set (bk (bucket hi i)) \<and> nid (ids hi ! c) = i"
    using inj_onD [OF hashid_repD(8) [OF r]]
    by (intro find_unique) (auto simp: hashid_repD(6) [OF r b])
  then show "find (\<lambda>c. nid (ids hi ! c) = i) (bk (bucket hi i)) = Some c \<longleftrightarrow> hashid_map hi i = Some c"
    by (auto simp: hashid_repD(6) [OF r b] hashid_map_Some [OF r])
qed

definition slot_result :: "nat option \<Rightarrow> int" where
  "slot_result r = (case r of None \<Rightarrow> -1 | Some c \<Rightarrow> int c)"

lemma hashid_lookup_map:
  assumes r: "hashid_rep hi bk" and "i \<noteq> -1"
  shows "hashid_lookup hi i = Inr (slot_result (hashid_map hi i))"
proof -
  note b = hashid_repD(1) [OF r, of i]
  note ch = hashid_repD(4,5) [OF r b]
  show ?thesis
    using chain_find_spec [OF ch(1) chain_length_le [OF ch], of i] b hashid_map_find [OF assms]
    by (simp add: hashid_lookup_def slot_result_def)
qed

lemma free_node_spec:
  assumes r: "hashid_rep hi bk" and i: "0 \<le> i" "i + cap hi \<le> 2 ^ 31" and k: "0 \<le> k"
    and free: "c < length (ids hi)" "c \<notin> used hi"
    and seen: "\<forall>j. 0 \<le> j \<and> j < k \<longrightarrow> nat ((j + i) mod cap hi) \<in> used hi"
  shows "\<exists>d. free_node hi i k = Inr (Some d) \<and> d < length (ids hi) \<and> d \<notin> used hi"
  using k seen
proof (induction "nat (cap hi - k)" arbitrary: k rule: less_induct)
  case less
  have len: "length (ids hi) = nat (cap hi)" by (rule hashid_repD(2) [OF r])
  have pos: "0 < cap hi" using free(1) len by auto
  have kc: "k < cap hi"
  proof (rule ccontr)
    assume "\<not> k < cap hi"
    define j where "j = (int c - i) mod cap hi"
    have j: "0 \<le> j" "j < cap hi" using pos by (simp_all add: j_def)
    have "(j + i) mod cap hi = int c mod cap hi"
      by (simp add: j_def mod_simps)
    also have "\<dots> = int c" using free(1) len pos by simp
    finally have "nat ((j + i) mod cap hi) = c" by simp
    with less.prems(2) j \<open>\<not> k < cap hi\<close> free(2) show False by force
  qed
  let ?x = "nat ((k + i) mod cap hi)"
  have w: "wrap32 (k + i) = k + i" using less.prems(1) i kc by (intro wrap32_id) simp_all
  have x: "?x < length (ids hi)" "0 \<le> (k + i) mod cap hi" using pos len by (simp_all add: nat_less_iff)
  have step: "free_node hi i k = (if nid (ids hi ! ?x) = -1 then Inr (Some ?x) else free_node hi i (k + 1))"
  proof -
    have n: "((k + i) mod cap hi < 0) = False" "(k + i < 0) = False" "(length (ids hi) \<le> ?x) = False"
      using x less.prems(1) i by auto
    show ?thesis using kc by (subst free_node.simps) (simp only: Let_def w n if_True if_False simp_thms)
  qed
  show ?case
  proof (cases "nid (ids hi ! ?x) = -1")
    case True
    with step x show ?thesis by (auto simp: used_def)
  next
    case False
    have "nat ((j + i) mod cap hi) \<in> used hi" if "0 \<le> j \<and> j < k + 1" for j
      using that less.prems(2) False x by (cases "j = k") (auto simp: used_def)
    then have "\<exists>d. free_node hi i (k + 1) = Inr (Some d) \<and> d < length (ids hi) \<and> d \<notin> used hi"
      using kc less.prems(1) by (intro less.hyps) auto
    with step False show ?thesis by simp
  qed
qed

lemma used_full:
  assumes "hashid_rep hi bk"
  shows "hashid_full hi \<longleftrightarrow> used hi = {..<length (ids hi)}"
proof -
  have s: "used hi \<subseteq> {..<length (ids hi)}" by (auto simp: used_def)
  have "int (length (ids hi)) = cap hi" using hashid_repD(2,3) [OF assms] by simp
  then have f: "hashid_full hi \<longleftrightarrow> card (used hi) = length (ids hi)"
    unfolding hashid_full_def hashid_repD(9) [OF assms] by linarith
  show ?thesis
  proof
    assume "hashid_full hi"
    with f have "card (used hi) = card {..<length (ids hi)}" by simp
    then show "used hi = {..<length (ids hi)}" using card_subset_eq [OF finite_lessThan s] by blast
  next
    assume "used hi = {..<length (ids hi)}"
    with f show "hashid_full hi" by simp
  qed
qed

lemma insert_used:
  assumes "d < length (ids hi)" and "i \<noteq> -1"
  shows "used (hi\<lparr>count := x, ids := (ids hi)[d := \<lparr>nid = i, nnext = y\<rparr>], hash := z\<rparr>) = insert d (used hi)"
  using assms by (auto simp: used_def nth_list_update)

lemma hashid_insert_rep:
  assumes r: "hashid_rep hi bk" and i: "0 \<le> i" "i + cap hi \<le> 2 ^ 31" and new: "hashid_map hi i = None"
    and nf: "\<not> hashid_full hi"
  shows "\<exists>hi' d. hashid_insert hi i = Inr (hi', int d) \<and> d < length (ids hi) \<and> d \<notin> used hi \<and>
    hashid_rep hi' (bk(bucket hi i := d # bk (bucket hi i))) \<and>
    hashid_map hi' = (hashid_map hi)(i \<mapsto> d) \<and> cap hi' = cap hi"
proof -
  let ?h = "bucket hi i" let ?bk = "bk(?h := d # bk ?h)"
  note b = hashid_repD(1) [OF r, of i]
  from nf used_full [OF r] obtain c where c: "c < length (ids hi)" "c \<notin> used hi"
    by (auto simp: used_def)
  have "\<exists>d. free_node hi i 0 = Inr (Some d) \<and> d < length (ids hi) \<and> d \<notin> used hi"
    by (rule free_node_spec [OF r i order.refl c]) auto
  then obtain d where d: "free_node hi i 0 = Inr (Some d)" "d < length (ids hi)" "d \<notin> used hi" by blast
  let ?hi = "hi\<lparr>count := count hi + 1, ids := (ids hi)[d := \<lparr>nid = i, nnext = hash hi ! ?h\<rparr>],
      hash := (hash hi)[?h := Some d]\<rparr>"
  have run: "hashid_insert hi i = Inr (?hi, int d)"
    using d b hashid_repD(7) [OF r d(2,3)] by (simp add: hashid_insert_def Let_def)
  have i1: "i \<noteq> -1" using i by simp
  have u: "used ?hi = insert d (used hi)" by (rule insert_used [OF d(2) i1])
  have bu: "bucket ?hi = bucket hi" by (simp add: bucket_def fun_eq_iff)
  have nm: "nid (ids ?hi ! c) = (if c = d then i else nid (ids hi ! c))"
      "nnext (ids ?hi ! c) = (if c = d then hash hi ! ?h else nnext (ids hi ! c))" if "c < length (ids hi)" for c
    using that by (auto simp: nth_list_update)
  have ul: "c < length (ids hi)" if "c \<in> used hi" for c using that by (simp add: used_def)
  have ni: "nid (ids hi ! c) \<noteq> i" if "c \<in> used hi" for c
    using new that hashid_map_Some [OF r, of i c] by auto
  have rep: "hashid_rep ?hi (bk(?h := d # bk ?h))"
    unfolding hashid_rep_def
  proof (intro conjI allI impI)
    fix h assume "h < length (hash ?hi)"
    then have h: "h < length (hash hi)" by simp
    have nd: "d \<notin> set (bk h)" using d(3) hashid_repD(6) [OF r h] by auto
    have "chain (ids ?hi) (hash hi ! h) (bk h)"
      using nd by (intro chain_cong [OF hashid_repD(4) [OF r h]]) (simp, rename_tac x, case_tac "x = d", simp_all)
    then show "chain (ids ?hi) (hash ?hi ! h) ((bk(?h := d # bk ?h)) h)"
      using d(2) h by (auto simp: nth_list_update)
    show "distinct ((bk(?h := d # bk ?h)) h)" using hashid_repD(5) [OF r h] nd by auto
    have "c \<noteq> d" if "c \<in> used hi" for c using that d(3) by auto
    then show "set ((bk(?h := d # bk ?h)) h) = {c \<in> used ?hi. bucket ?hi (nid (ids ?hi ! c)) = h}"
      using hashid_repD(6) [OF r h] d(2) ul unfolding u bu by (auto simp: nth_list_update)
  next
    show "inj_on (\<lambda>c. nid (ids ?hi ! c)) (used ?hi)"
      using hashid_repD(8) [OF r] ni ul d unfolding u by (auto simp: inj_on_def nth_list_update)
    have "finite (used hi)" by (simp add: used_def)
    then show "count ?hi = int (card (used ?hi))"
      unfolding u using d(3) hashid_repD(9) [OF r] by simp
  qed (use r d u in \<open>auto simp: hashid_rep_def nth_list_update\<close>)
  have "hashid_map ?hi j = ((hashid_map hi)(i \<mapsto> d)) j" for j
    using d(2,3) ul ni i1
    by (intro option_eqI) (auto simp: hashid_map_Some [OF rep] hashid_map_Some [OF r] u nth_list_update)
  then have "hashid_map ?hi = (hashid_map hi)(i \<mapsto> d)" by (rule ext)
  then show ?thesis using run d rep by (intro exI [of _ ?hi] exI [of _ d]) simp
qed

text \<open>Taking node \<open>t\<close> out of its chain, however the links were redirected.\<close>

lemma unlink_rep:
  assumes r: "hashid_rep hi bk" and h: "h < length (hash hi)" and t: "t \<in> set (bk h)"
    and ns: "length ns = length (ids hi)" "\<And>x. nid (ns ! x) = nid (ids hi ! x)"
      "\<And>x. x \<notin> set (bk h) \<Longrightarrow> nnext (ns ! x) = nnext (ids hi ! x)"
    and ch: "chain ns p (remove1 t (bk h))"
    and hi': "hi' = clear_node (hi\<lparr>ids := ns, hash := (hash hi)[h := p]\<rparr>) t"
  shows "hashid_rep hi' (bk(h := remove1 t (bk h)))"
    and "hashid_map hi' = (hashid_map hi)(nid (ids hi ! t) := None)"
proof -
  note fields = hi' clear_node_def
  have t': "t \<in> used hi" "t < length (ids hi)" using t hashid_repD(6) [OF r h] by (auto simp: used_def)
  have n: "nid (ids hi' ! c) = (if c = t then -1 else nid (ids hi ! c))" if "c < length (ids hi)" for c
    using that ns by (auto simp: fields nth_list_update)
  have l: "length (ids hi') = length (ids hi)" "length (hash hi') = length (hash hi)"
    using ns by (simp_all add: fields)
  have u: "used hi' = used hi - {t}" unfolding used_def l using n by (auto split: if_splits)
  have ul: "c < length (ids hi)" if "c \<in> used hi" for c using that by (simp add: used_def)
  have bu: "bucket hi' = bucket hi" by (simp add: bucket_def fun_eq_iff fields)
  have nx: "nnext (ids hi' ! x) = nnext (ns ! x)" if "x \<noteq> t" for x using that by (simp add: fields)
  show rep: "hashid_rep hi' (bk(h := remove1 t (bk h)))"
    unfolding hashid_rep_def
  proof (intro conjI allI impI)
    fix g assume "g < length (hash hi')"
    then have g: "g < length (hash hi)" using l by simp
    have disj: "x \<notin> set (bk h)" if "g \<noteq> h" "x \<in> set (bk g)" for x
      using that hashid_repD(6) [OF r h] hashid_repD(6) [OF r g] by auto
    show "chain (ids hi') (hash hi' ! g) ((bk(h := remove1 t (bk h))) g)"
    proof (cases "g = h")
      case True
      have "t \<notin> set (remove1 t (bk h))" using hashid_repD(5) [OF r h] by simp
      then have "chain (ids hi') p (remove1 t (bk h))"
        using l(1) ns(1) by (intro chain_cong [OF ch] nx) auto
      then show ?thesis using True h by (simp add: fields)
    next
      case False
      have "chain (ids hi') (hash hi ! g) (bk g)"
        using disj [OF False] t l nx ns(3) by (intro chain_cong [OF hashid_repD(4) [OF r g]]) (simp, metis)
      then show ?thesis using False by (simp add: fields)
    qed
    show "distinct ((bk(h := remove1 t (bk h))) g)" using hashid_repD(5) [OF r] g h by simp
    show "set ((bk(h := remove1 t (bk h))) g) = {c \<in> used hi'. bucket hi' (nid (ids hi' ! c)) = g}"
      using hashid_repD(6) [OF r g] hashid_repD(6) [OF r h] hashid_repD(5) [OF r h] t n ul disj
      unfolding u bu by (auto simp: fun_upd_def split: if_splits)
  next
    fix c assume c: "c < length (ids hi')" "c \<notin> used hi'"
    show "nnext (ids hi' ! c) = None"
    proof (cases "c = t")
      case True
      then show ?thesis using c l ns(1) by (simp add: fields)
    next
      case False
      with c l u have "c \<notin> used hi" "c < length (ids hi)" by auto
      moreover from this have "c \<notin> set (bk h)" using hashid_repD(6) [OF r h] by auto
      ultimately show ?thesis using nx [OF False] ns(3) hashid_repD(7) [OF r] by simp
    qed
  next
    show "inj_on (\<lambda>c. nid (ids hi' ! c)) (used hi')"
      using hashid_repD(8) [OF r] n ul unfolding u by (auto simp: inj_on_def)
    have "finite (used hi)" by (simp add: used_def)
    moreover from this t' have "0 < card (used hi)" by (auto simp: card_gt_0_iff)
    ultimately show "count hi' = int (card (used hi'))"
      unfolding u using t' hashid_repD(9) [OF r] by (simp add: fields card_Diff_singleton)
  qed (use r ns in \<open>auto simp: hashid_rep_def fields\<close>)
  have "hashid_map hi' j = ((hashid_map hi)(nid (ids hi ! t) := None)) j" for j
    using n ul t' inj_onD [OF hashid_repD(8) [OF r], of _ t]
    by (intro option_eqI) (auto simp: hashid_map_Some [OF rep] hashid_map_Some [OF r] u)
  then show "hashid_map hi' = (hashid_map hi)(nid (ids hi ! t) := None)" by (rule ext)
qed

lemma remove_first_rep:
  assumes r: "hashid_rep hi bk" and h: "h < length (hash hi)" and c: "bk h = c # xs"
    and hi': "hi' = clear_node (hi\<lparr>hash := (hash hi)[h := nnext (ids hi ! c)]\<rparr>) c"
  shows "hashid_inv hi'" and "hashid_map hi' = (hashid_map hi)(nid (ids hi ! c) := None)"
proof -
  have hi'': "hi' = clear_node (hi\<lparr>ids := ids hi, hash := (hash hi)[h := nnext (ids hi ! c)]\<rparr>) c"
    by (simp add: hi')
  have c': "c \<in> set (bk h)" using c by simp
  have ch: "chain (ids hi) (nnext (ids hi ! c)) (remove1 c (bk h))"
    using hashid_repD(4) [OF r h] c by simp
  note un = unlink_rep [where ns = "ids hi" and p = "nnext (ids hi ! c)", OF r h c' refl refl refl ch hi'']
  show "hashid_inv hi'" unfolding hashid_inv_def using un(1) by blast
  show "hashid_map hi' = (hashid_map hi)(nid (ids hi ! c) := None)" by (rule un(2))
qed

lemma remove_later_rep:
  assumes r: "hashid_rep hi bk" and h: "h < length (hash hi)" and c: "bk h = c # xs"
    and t: "t \<in> set xs" and a: "a \<in> set (c # xs)"
    and ns: "ns = (ids hi)[a := (ids hi ! a)\<lparr>nnext := nnext (ids hi ! t)\<rparr>]"
    and ch: "chain ns (Some c) (c # remove1 t xs)"
    and hi': "hi' = clear_node (hi\<lparr>ids := ns\<rparr>) t"
  shows "hashid_inv hi'" and "hashid_map hi' = (hashid_map hi)(nid (ids hi ! t) := None)"
proof -
  have "hash hi ! h = Some c" using hashid_repD(4) [OF r h] c by simp
  then have hs: "(hash hi)[h := Some c] = hash hi" by (metis list_update_id)
  have hi'': "hi' = clear_node (hi\<lparr>ids := ns, hash := (hash hi)[h := Some c]\<rparr>) t" by (simp add: hs hi')
  have al: "a < length (ids hi)" using chain_bound [OF hashid_repD(4) [OF r h]] a c by simp
  have n: "nid (ns ! x) = nid (ids hi ! x)" for x
    using al by (cases "x = a") (simp_all add: ns)
  have nx: "nnext (ns ! x) = nnext (ids hi ! x)" if "x \<notin> set (bk h)" for x
    using that a c by (cases "x = a") (simp_all add: ns)
  have t': "t \<in> set (bk h)" using c t by simp
  have "t \<noteq> c" using c t hashid_repD(5) [OF r h] by auto
  then have ch': "chain ns (Some c) (remove1 t (bk h))" using ch c by simp
  have l: "length ns = length (ids hi)" by (simp add: ns)
  note un = unlink_rep [OF r h t' l n nx ch' hi'']
  show "hashid_inv hi'" unfolding hashid_inv_def using un(1) by blast
  show "hashid_map hi' = (hashid_map hi)(nid (ids hi ! t) := None)" by (rule un(2))
qed

lemma cap_clear_node [simp]: "cap (clear_node hi c) = cap hi"
  by (simp add: clear_node_def)

lemma hashid_remove_rep:
  assumes r: "hashid_rep hi bk" and i: "i \<noteq> -1"
  shows "\<exists>hi'. hashid_remove hi i = Inr (hi', slot_result (hashid_map hi i)) \<and> hashid_inv hi' \<and>
    hashid_map hi' = (hashid_map hi)(i := None) \<and> cap hi' = cap hi"
proof -
  let ?h = "bucket hi i" let ?P = "\<lambda>c. nid (ids hi ! c) = i"
  note b = hashid_repD(1) [OF r, of i]
  note ch = hashid_repD(4,5) [OF r b]
  have fnd: "find ?P (bk ?h) = hashid_map hi i" by (rule hashid_map_find [OF r i])
  have same: ?thesis if "hashid_remove hi i = Inr (hi, -1)" "hashid_map hi i = None"
    using that r by (auto simp: slot_result_def hashid_inv_def fun_upd_idem)
  show ?thesis
  proof (cases "bk ?h")
    case Nil
    then have "hash hi ! ?h = None" "hashid_map hi i = None" using ch(1) fnd by simp_all
    then show ?thesis using b by (intro same) (simp_all add: hashid_remove_def)
  next
    case (Cons c xs)
    then have c: "hash hi ! ?h = Some c" "c < length (ids hi)" "distinct (c # xs)" "chain (ids hi) (Some c) (c # xs)"
      using ch by simp_all
    show ?thesis
    proof (cases "?P c")
      case True
      have m: "hashid_map hi i = Some c" using fnd Cons True by simp
      let ?hi = "clear_node (hi\<lparr>hash := (hash hi)[?h := nnext (ids hi ! c)]\<rparr>) c"
      have "hashid_remove hi i = Inr (?hi, slot_result (hashid_map hi i))"
        using b c(1,2) True m by (simp add: hashid_remove_def Let_def slot_result_def)
      then show ?thesis using remove_first_rep [OF r b Cons refl] True by (intro exI [of _ ?hi]) simp
    next
      case False
      have "length xs \<le> length (ids hi)" using chain_length_le [OF ch] Cons by simp
      note cu = chain_unlink_spec [OF c(4,3) this, of i]
      have f: "find ?P xs = hashid_map hi i" using fnd Cons False by simp
      have run: "hashid_remove hi i = andThen (chain_unlink (length (ids hi)) (ids hi) i c) (\<lambda>r. case r of
                None \<Rightarrow> Inr (hi, -1) | Some (ns, t) \<Rightarrow> Inr (clear_node (hi\<lparr>ids := ns\<rparr>) t, int t))"
        using b c(1,2) False by (simp add: hashid_remove_def Let_def)
      show ?thesis
      proof (cases "hashid_map hi i")
        case None
        with f have "find ?P xs = None" by simp
        then have "chain_unlink (length (ids hi)) (ids hi) i c = Inr None" using cu by blast
        then show ?thesis using None by (intro same) (simp_all add: run)
      next
        case (Some t)
        with f have ft: "find ?P xs = Some t" by simp
        obtain a where a: "a \<in> set (c # xs)"
          "chain_unlink (length (ids hi)) (ids hi) i c =
             Inr (Some ((ids hi)[a := (ids hi ! a)\<lparr>nnext := nnext (ids hi ! t)\<rparr>], t))"
          "chain ((ids hi)[a := (ids hi ! a)\<lparr>nnext := nnext (ids hi ! t)\<rparr>]) (Some c) (c # remove1 t xs)"
          using cu [THEN conjunct2, rule_format, OF ft] by blast
        have t: "t \<in> set xs" "?P t" using Some f by (auto simp: find_Some_iff)
        show ?thesis
          using remove_later_rep [OF r b Cons t(1) a(1) refl a(3) refl] t(2)
          by (intro exI [of _ "clear_node (hi\<lparr>ids := (ids hi)[a := (ids hi ! a)\<lparr>nnext := nnext (ids hi ! t)\<rparr>]\<rparr>) t"])
            (simp add: run a(2) Some slot_result_def)
      qed
    qed
  qed
qed

lemma hashcap_loop_pow:
  assumes "mx \<le> 2 ^ 30"
  shows "j \<le> 30 \<Longrightarrow> 30 \<le> j + f \<Longrightarrow> \<exists>k\<le>30. hashcap_loop f (2 ^ j) mx = Inr (2 ^ k)"
proof (induction f arbitrary: j)
  case 0
  then show ?case using assms by (auto simp: hashcap_loop.simps)
next
  case (Suc f)
  show ?case
  proof (cases "2 ^ j < mx")
    case True
    then have j: "j < 30" using assms Suc.prems
      by (metis linorder_neqE_nat not_less order.strict_iff_not)
    then have "(2::int) ^ Suc j \<le> 2 ^ 30" by (intro power_increasing) auto
    moreover have "- (2 ^ 31) \<le> (2::int) ^ Suc j" by (rule order_trans [of _ 0]) simp_all
    ultimately have "wrap32 (2 ^ Suc j) = 2 ^ Suc j" by (intro wrap32_id) auto
    then have "wrap32 (2 ^ j * 2) = 2 ^ Suc j" by (simp add: mult.commute)
    with True Suc.IH [of "Suc j"] j Suc.prems show ?thesis
      by (subst hashcap_loop.simps) simp
  next
    case False
    then show ?thesis using Suc.prems by (auto simp: hashcap_loop.simps intro: exI [of _ j])
  qed
qed

lemma hashid_init_inv:
  assumes "0 < mx" and "mx \<le> 2 ^ 30"
  shows "\<exists>hi. hashid_init mx = Inr hi \<and> hashid_inv hi \<and> (\<forall>i. hashid_map hi i = None) \<and> cap hi = mx"
proof -
  obtain k where k: "hashcap_loop 32 16 mx = Inr (2 ^ k)"
    using hashcap_loop_pow [OF assms(2), of 4 32] by auto
  let ?hi = "\<lparr>hashmod = 2 ^ k - 1, cap = mx, count = 0,
      ids = replicate (nat mx) \<lparr>nid = -1, nnext = None\<rparr>, hash = replicate (nat (2 ^ k)) None\<rparr>"
  have u: "used ?hi = {}" by (auto simp: used_def)
  have "nat (2 ^ k) = (2::nat) ^ k" by (simp add: nat_power_eq)
  then have "hashid_rep ?hi (\<lambda>h. [])" using assms
    unfolding hashid_rep_def u by (auto simp: mask_eq_exp_minus_1 u)
  moreover from this have "\<forall>i. hashid_map ?hi i = None"
    using hashid_map_Some u by (metis empty_iff not_Some_eq)
  ultimately show ?thesis by (auto simp: hashid_init_def k hashid_inv_def)
qed

section \<open>The contract of an id table\<close>

text \<open>
  What a user of the table relies on: \<open>tmap\<close> is the table as a partial map, \<open>ok\<close> says which ids
  may be inserted. The \<open>step\<close> relation is the use of the table: fresh ids are inserted while
  the table is not full, and ids are removed.
\<close>

locale slot_table =
  fixes init :: 't and tinv :: "'t \<Rightarrow> bool" and tmap :: "'t \<Rightarrow> int \<Rightarrow> nat option" and full :: "'t \<Rightarrow> bool"
    and ok :: "'t \<Rightarrow> int \<Rightarrow> bool"
    and lookup :: "'t \<Rightarrow> int \<Rightarrow> int res" and ins :: "'t \<Rightarrow> int \<Rightarrow> ('t \<times> int) res"
    and del :: "'t \<Rightarrow> int \<Rightarrow> ('t \<times> int) res"
  assumes init_ok: "tinv init" "tmap init i = None"
    and lookup_spec: "tinv t \<Longrightarrow> 0 \<le> i \<Longrightarrow> lookup t i = Inr (slot_result (tmap t i))"
    and ins_spec: "tinv t \<Longrightarrow> ok t i \<Longrightarrow> tmap t i = None \<Longrightarrow> \<not> full t \<Longrightarrow>
      \<exists>t' d. ins t i = Inr (t', int d) \<and> tinv t' \<and> tmap t' = (tmap t)(i \<mapsto> d) \<and> d \<notin> ran (tmap t)"
    and del_spec: "tinv t \<Longrightarrow> 0 \<le> i \<Longrightarrow>
      \<exists>t'. del t i = Inr (t', slot_result (tmap t i)) \<and> tinv t' \<and> tmap t' = (tmap t)(i := None)"
begin

inductive step :: "'t \<Rightarrow> 't \<Rightarrow> bool" where
  ins: "\<not> full t \<Longrightarrow> ok t i \<Longrightarrow> 0 \<le> i \<Longrightarrow> lookup t i = Inr (-1) \<Longrightarrow> ins t i = Inr (t', d) \<Longrightarrow> step t t'"
| del: "0 \<le> i \<Longrightarrow> del t i = Inr (t', d) \<Longrightarrow> step t t'"

definition table_inv :: "'t \<Rightarrow> bool" where
  "table_inv t \<longleftrightarrow> tinv t \<and> (\<forall>i j c. tmap t i = Some c \<longrightarrow> tmap t j = Some c \<longrightarrow> i = j)"

lemma slot_result_none: "slot_result r = -1 \<longleftrightarrow> r = None"
  by (simp add: slot_result_def split: option.split)

lemma step_table_inv: "step t t' \<Longrightarrow> table_inv t \<Longrightarrow> table_inv t'"
proof (induction rule: step.induct)
  case (ins t i t' d)
  have t: "tinv t" and inj: "tmap t x = Some c \<Longrightarrow> tmap t y = Some c \<Longrightarrow> x = y" for x y c
    using ins.prems unfolding table_inv_def by blast+
  have "tmap t i = None" using ins.hyps(4) lookup_spec [OF t ins.hyps(3)] by (simp add: slot_result_none)
  from ins_spec [OF t ins.hyps(2) this ins.hyps(1)] ins.hyps(5)
  obtain d' where d: "tinv t'" "tmap t' = (tmap t)(i \<mapsto> d')" "d' \<notin> ran (tmap t)" by auto
  have "x = y" if "tmap t' x = Some c" "tmap t' y = Some c" for x y c
    using that inj d(3) unfolding d(2) by (auto simp: ran_def split: if_splits)
  with d(1) show ?case unfolding table_inv_def by blast
next
  case (del i t t' d)
  have t: "tinv t" and inj: "tmap t x = Some c \<Longrightarrow> tmap t y = Some c \<Longrightarrow> x = y" for x y c
    using del.prems unfolding table_inv_def by blast+
  from del_spec [OF t del.hyps(1)] del.hyps(2) have d: "tinv t'" "tmap t' = (tmap t)(i := None)" by auto
  have "x = y" if "tmap t' x = Some c" "tmap t' y = Some c" for x y c
    using that inj unfolding d(2) by (auto split: if_splits)
  with d(1) show ?case unfolding table_inv_def by blast
qed

end

sublocale slot_table \<subseteq> table: safety init step table_inv
proof unfold_locales
  show "table_inv init" by (simp add: table_inv_def init_ok)
qed (rule step_table_inv)

section \<open>The table satisfies the contract\<close>

text \<open>A table of \<open>mx\<close> slots, and the ids that can be inserted without wrapping around.\<close>

definition hashid_new :: "int \<Rightarrow> hashid" where
  "hashid_new mx = (case hashid_init mx of Inr hi \<Rightarrow> hi | Inl _ \<Rightarrow> \<lparr>hashmod = 1, cap = 0, count = 0, ids = [], hash = []\<rparr>)"

definition hashid_ok :: "hashid \<Rightarrow> int \<Rightarrow> bool" where
  "hashid_ok hi i \<longleftrightarrow> 0 \<le> i \<and> i + cap hi \<le> 2 ^ 31"

lemma hashid_insert_spec:
  assumes "hashid_inv hi" and "hashid_ok hi i" and "hashid_map hi i = None" and "\<not> hashid_full hi"
  shows "\<exists>hi' d. hashid_insert hi i = Inr (hi', int d) \<and> hashid_inv hi' \<and>
    hashid_map hi' = (hashid_map hi)(i \<mapsto> d) \<and> d \<notin> ran (hashid_map hi) \<and> d < nat (cap hi) \<and> cap hi' = cap hi"
proof -
  from assms obtain bk where r: "hashid_rep hi bk" by (auto simp: hashid_inv_def)
  obtain hi' d where *: "hashid_insert hi i = Inr (hi', int d)" "d < length (ids hi)" "d \<notin> used hi"
    "hashid_rep hi' (bk(bucket hi i := d # bk (bucket hi i)))" "hashid_map hi' = (hashid_map hi)(i \<mapsto> d)" "cap hi' = cap hi"
    using hashid_insert_rep [OF r _ _ assms(3,4)] assms(2) unfolding hashid_ok_def by blast
  have "d \<notin> ran (hashid_map hi)" using *(3) by (auto simp: ran_def hashid_map_Some [OF r])
  then show ?thesis using * hashid_repD(2) [OF r] unfolding hashid_inv_def by auto
qed

lemma hashid_map_bound:
  assumes "hashid_inv hi" and "hashid_map hi i = Some c"
  shows "c < nat (cap hi)"
proof -
  from assms obtain bk where r: "hashid_rep hi bk" by (auto simp: hashid_inv_def)
  with assms(2) have "c < length (ids hi)" by (simp add: hashid_map_Some used_def)
  then show ?thesis using hashid_repD(2) [OF r] by simp
qed

lemma hashid_remove_spec:
  assumes "hashid_inv hi" and "0 \<le> i"
  shows "\<exists>hi'. hashid_remove hi i = Inr (hi', slot_result (hashid_map hi i)) \<and> hashid_inv hi' \<and>
    hashid_map hi' = (hashid_map hi)(i := None) \<and> cap hi' = cap hi"
  using assms hashid_remove_rep by (auto simp: hashid_inv_def)

lemma hashid_lookup_spec:
  "hashid_inv hi \<Longrightarrow> 0 \<le> i \<Longrightarrow> hashid_lookup hi i = Inr (slot_result (hashid_map hi i))"
  using hashid_lookup_map by (auto simp: hashid_inv_def)

lemma hashid_new_ok:
  assumes "0 < mx" and "mx \<le> 2 ^ 30"
  shows "hashid_init mx = Inr (hashid_new mx)" and "hashid_inv (hashid_new mx)"
    and "hashid_map (hashid_new mx) i = None" and "cap (hashid_new mx) = mx"
  using hashid_init_inv [OF assms] by (auto simp: hashid_new_def)

text \<open>A table of some size between 1 and \<open>2 ^ 30\<close>: other sizes are read as the nearest of these.\<close>

definition table_size :: "int \<Rightarrow> int" where
  "table_size mx = max 1 (min mx (2 ^ 30))"

interpretation id_table: slot_table "hashid_new (table_size mx)" hashid_inv hashid_map hashid_full
  hashid_ok hashid_lookup hashid_insert hashid_remove
proof unfold_locales
  have s: "0 < table_size mx" "table_size mx \<le> 2 ^ 30" by (auto simp: table_size_def)
  show "hashid_inv (hashid_new (table_size mx))" by (rule hashid_new_ok(2) [OF s])
  show "hashid_map (hashid_new (table_size mx)) i = None" for i by (rule hashid_new_ok(3) [OF s])
next
  fix t i assume "hashid_inv t" "0 \<le> (i::int)"
  then show "\<exists>t'. hashid_remove t i = Inr (t', slot_result (hashid_map t i)) \<and> hashid_inv t' \<and>
      hashid_map t' = (hashid_map t)(i := None)"
    using hashid_remove_spec by metis
next
  fix t i assume "hashid_inv t" "hashid_ok t i" "hashid_map t i = None" "\<not> hashid_full t"
  then show "\<exists>t' d. hashid_insert t i = Inr (t', int d) \<and> hashid_inv t' \<and>
      hashid_map t' = (hashid_map t)(i \<mapsto> d) \<and> d \<notin> ran (hashid_map t)"
    using hashid_insert_spec by metis
qed (rule hashid_lookup_spec)

text \<open>C27: The id table of the gate, with at most \<open>2 ^ 30\<close> slots, is a partial map on the ids for which the sum \<^verbatim>\<open>i + id\<close> of
  its search stays an \<^verbatim>\<open>int\<close> (the id plus the size of the array is at most \<open>2 ^ 31\<close>; beyond that the code indexes before the
  array, as \<open>hashid_insert_overflow\<close> shows). After any sequence of insertions of fresh
  such ids (while it is not full) and removals, a lookup ends and returns the slot of the id or \<open>-1\<close>, two ids never
  share a slot, an insertion of such an id into a table that is not full finds a free slot inside the array
  without failing its assertions, and a removal forgets exactly that id.\<close>

theorem hashid_is_map:
  assumes mx: "0 < mx" "mx \<le> 2 ^ 30"
    and hi: "reachable (hashid_new mx) (slot_table.step hashid_full hashid_ok hashid_lookup hashid_insert hashid_remove) hi"
    and i: "0 \<le> i"
  shows "hashid_lookup hi i = Inr (slot_result (hashid_map hi i)) \<and>
    (\<forall>j c. hashid_map hi i = Some c \<longrightarrow> hashid_map hi j = Some c \<longrightarrow> i = j) \<and>
    (hashid_map hi i = None \<and> i + cap hi \<le> 2 ^ 31 \<and> \<not> hashid_full hi \<longrightarrow>
      (\<exists>hi' d. hashid_insert hi i = Inr (hi', int d) \<and> d < nat (cap hi) \<and> hashid_map hi' = (hashid_map hi)(i \<mapsto> d))) \<and>
    (\<exists>hi'. hashid_remove hi i = Inr (hi', slot_result (hashid_map hi i)) \<and> hashid_map hi' = (hashid_map hi)(i := None))"
proof -
  have "table_size mx = mx" using mx by (simp add: table_size_def)
  then have "id_table.table_inv hi" using id_table.table.reachable_inv [of mx hi] hi by simp
  then have inv: "hashid_inv hi" and inj: "\<forall>i j c. hashid_map hi i = Some c \<longrightarrow> hashid_map hi j = Some c \<longrightarrow> i = j"
    by (simp_all add: id_table.table_inv_def)
  have ins: "\<exists>hi' d. hashid_insert hi i = Inr (hi', int d) \<and> d < nat (cap hi) \<and> hashid_map hi' = (hashid_map hi)(i \<mapsto> d)"
    if "hashid_map hi i = None \<and> i + cap hi \<le> 2 ^ 31 \<and> \<not> hashid_full hi"
    using that hashid_insert_spec [OF inv, of i] i unfolding hashid_ok_def by metis
  have del: "\<exists>hi'. hashid_remove hi i = Inr (hi', slot_result (hashid_map hi i)) \<and> hashid_map hi' = (hashid_map hi)(i := None)"
    using hashid_remove_spec [OF inv i] by metis
  show ?thesis using hashid_lookup_spec [OF inv i] inj ins del by (intro conjI) metis+
qed

theorem hashid_is_map_witness:
  "\<exists>hi' d. hashid_insert (hashid_new 4) 5 = Inr (hi', int d) \<and> d < 4 \<and> hashid_map hi' = (\<lambda>i. None)(5 \<mapsto> d)"
proof -
  have inv: "hashid_inv (hashid_new 4)" and m: "hashid_map (hashid_new 4) = (\<lambda>i. None)" and c: "cap (hashid_new 4) = 4"
    using hashid_new_ok [of 4] by (simp_all add: fun_eq_iff)
  have "\<not> hashid_full (hashid_new 4)" by code_simp
  then show ?thesis
    using hashid_is_map [of 4 "hashid_new 4" 5, OF _ _ reachable.start] by (simp add: m c)
qed

text \<open>The socket layer hands out ids up to \<open>2 ^ 31 - 1\<close>. For such an id the sum \<^verbatim>\<open>i + id\<close> of
  \<open>hashid_insert\<close> overflows as soon as the first slot is taken; with the usual wrap-around the
  remainder is negative and the search indexes before the array, though the table has room.\<close>

lemma hashid_insert_overflow:
  "case hashid_insert (hashid_new 3) 1 of Inl _ \<Rightarrow> False
   | Inr (hi, d) \<Rightarrow> \<not> hashid_full hi \<and> hashid_insert hi 2147483647 = Inl Out_of_range"
  by code_simp

end
