(* ===== verification/DataBuffer.thy ===== *)
theory DataBuffer
  imports Prelude
begin

text \<open>
  Model of \<^verbatim>\<open>service-src/databuffer.h\<close>: the bytes that arrived on a connection, as a queue of the
  received blocks with an offset into the first one, and the parser of the length header.
  The message nodes are recycled through a pool; a node carries only a block, so the pool is
  modelled by the number of its allocated blocks and the length of its free list.

  The queue is proved to be the byte string that it represents: reading takes a prefix of it,
  however it is cut into blocks.
\<close>

section \<open>State and operations\<close>

definition MESSAGEPOOL :: nat where "MESSAGEPOOL = 1023"

record databuffer =
  header :: int
  offset :: int
  size :: int
  msgs :: "u8 list list"

record messagepool =
  pool :: nat
  freelist :: nat

definition messagepool_free :: "messagepool \<Rightarrow> messagepool" where
  "messagepool_free mp = \<lparr>pool = 0, freelist = 0\<rparr>"

definition return_message :: "databuffer \<Rightarrow> messagepool \<Rightarrow> (databuffer \<times> messagepool) res" where
  "return_message db mp =
     (case msgs db of
        [] \<Rightarrow> Inl Bad_pointer
      | m # ms \<Rightarrow> Inr (db\<lparr>msgs := ms\<rparr>, mp\<lparr>freelist := freelist mp + 1\<rparr>))"

text \<open>The loop of \<open>databuffer_read\<close>; \<open>acc\<close> is what has been copied so far.\<close>

function read_loop :: "databuffer \<Rightarrow> messagepool \<Rightarrow> int \<Rightarrow> u8 list \<Rightarrow> (databuffer \<times> messagepool \<times> u8 list) res" where
  "read_loop db mp sz acc =
     (case msgs db of
        [] \<Rightarrow> Inl Bad_pointer
      | m # ms \<Rightarrow>
          let bsz = int (length m) - offset db in
          if sz < bsz then
            Inr (db\<lparr>offset := offset db + sz\<rparr>, mp, acc @ take (nat sz) (drop (nat (offset db)) m))
          else if bsz = sz then
            andThen (return_message (db\<lparr>offset := 0\<rparr>) mp) (\<lambda>(db', mp').
              Inr (db', mp', acc @ take (nat sz) (drop (nat (offset db)) m)))
          else
            read_loop (db\<lparr>msgs := ms, offset := 0\<rparr>) (mp\<lparr>freelist := freelist mp + 1\<rparr>) (sz - bsz)
              (acc @ take (nat bsz) (drop (nat (offset db)) m)))"
  by pat_completeness auto
termination
  by (relation "measure (\<lambda>(db, mp, sz, acc). length (msgs db))") auto

declare read_loop.simps [simp del]

definition databuffer_read :: "databuffer \<Rightarrow> messagepool \<Rightarrow> int \<Rightarrow> (databuffer \<times> messagepool \<times> u8 list) res" where
  "databuffer_read db mp sz =
     andThen (assert_that (sz \<le> size db)) (\<lambda>_. read_loop (db\<lparr>size := size db - sz\<rparr>) mp sz [])"

definition databuffer_push :: "databuffer \<Rightarrow> messagepool \<Rightarrow> u8 list \<Rightarrow> databuffer \<times> messagepool" where
  "databuffer_push db mp dat =
     (let mp' = (if freelist mp \<noteq> 0 then mp\<lparr>freelist := freelist mp - 1\<rparr>
                 else mp\<lparr>pool := pool mp + 1, freelist := MESSAGEPOOL - 1\<rparr>)
      in (db\<lparr>size := wrap32 (size db + int (length dat)), msgs := msgs db @ [dat]\<rparr>, mp'))"

text \<open>Big-endian lengths of 2 and 4 bytes, as C \<^verbatim>\<open>int\<close> values.\<close>

definition be_header :: "u8 list \<Rightarrow> int \<Rightarrow> int" where
  "be_header plen hsz =
     (let b = (\<lambda>i. ucast (plen ! i) :: 32 word) in
      if hsz = 2 then sint (push_bit 8 (b 0) OR b 1)
      else sint (push_bit 24 (b 0) OR push_bit 16 (b 1) OR push_bit 8 (b 2) OR b 3))"

definition databuffer_readheader :: "databuffer \<Rightarrow> messagepool \<Rightarrow> int \<Rightarrow> (databuffer \<times> messagepool \<times> int) res" where
  "databuffer_readheader db mp hsz =
     (let ret = (\<lambda>db mp. Inr (db, mp, if size db < header db then -1 else header db)) in
      if header db = 0 then
        if size db < hsz then Inr (db, mp, -1)
        else andThen (databuffer_read db mp hsz) (\<lambda>(db', mp', plen).
               ret (db'\<lparr>header := be_header plen hsz\<rparr>) mp')
      else ret db mp)"

definition databuffer_reset :: "databuffer \<Rightarrow> databuffer" where
  "databuffer_reset db = db\<lparr>header := 0\<rparr>"

definition databuffer_empty :: databuffer where
  "databuffer_empty = \<lparr>header = 0, offset = 0, size = 0, msgs = []\<rparr>"

text \<open>\<open>databuffer_clear\<close> returns every node to the pool and zeroes the buffer.\<close>

definition databuffer_clear :: "databuffer \<Rightarrow> messagepool \<Rightarrow> databuffer \<times> messagepool" where
  "databuffer_clear db mp = (databuffer_empty, mp\<lparr>freelist := freelist mp + length (msgs db)\<rparr>)"

section \<open>The buffer as a byte string\<close>

definition bytes :: "databuffer \<Rightarrow> u8 list" where
  "bytes db = drop (nat (offset db)) (concat (msgs db))"

text \<open>
  The size field is the number of bytes, and the offset lies inside the first block. A block may be
  empty, and then its offset is \<open>0\<close>.
\<close>

definition databuffer_inv :: "databuffer \<Rightarrow> bool" where
  "databuffer_inv db \<longleftrightarrow> 0 \<le> offset db \<and> size db = int (length (bytes db)) \<and>
     (case msgs db of [] \<Rightarrow> offset db = 0 | m # ms \<Rightarrow> offset db \<le> int (length m))"

text \<open>Nodes are never lost: those in use and the free ones are all that were allocated.\<close>

definition pool_inv :: "messagepool \<Rightarrow> nat \<Rightarrow> bool" where
  "pool_inv mp n \<longleftrightarrow> freelist mp + n = MESSAGEPOOL * pool mp"

abbreviation offset_ok :: "databuffer \<Rightarrow> bool" where
  "offset_ok db \<equiv> 0 \<le> offset db \<and> (case msgs db of [] \<Rightarrow> offset db = 0 | m # ms \<Rightarrow> offset db \<le> int (length m))"

lemma read_loop_spec:
  assumes "0 < n" and "n \<le> length (bytes db)" and "offset_ok db"
  shows "\<exists>db' mp'. read_loop db mp (int n) acc = Inr (db', mp', acc @ take n (bytes db)) \<and>
    bytes db' = drop n (bytes db) \<and> header db' = header db \<and> size db' = size db \<and> offset_ok db' \<and>
    pool mp' = pool mp \<and> freelist mp' + length (msgs db') = freelist mp + length (msgs db)"
  using assms
proof (induction "msgs db" arbitrary: db mp n acc)
  case Nil
  then show ?case by (auto simp: bytes_def)
next
  case (Cons m ms)
  note m = Cons.hyps(2) [symmetric]
  obtain off where off: "offset db = int off" using Cons.prems(3) nonneg_int_cases by blast
  have ol: "off \<le> length m" using Cons.prems(3) m off by simp
  have b: "bytes db = drop off m @ concat ms" using ol by (simp add: bytes_def m off)
  have bl: "int (length m) - int off = int (length m - off)" using ol by simp
  consider "n < length m - off" | "n = length m - off" | "length m - off < n" by linarith
  then show ?case
  proof cases
    case 1
    let ?db = "db\<lparr>offset := int (off + n)\<rparr>"
    have "read_loop db mp (int n) acc = Inr (?db, mp, acc @ take n (bytes db))"
      using 1 by (subst read_loop.simps) (simp add: Let_def m off bl b del: of_nat_diff)
    moreover have "bytes ?db = drop n (bytes db)"
      using 1 unfolding b by (simp add: bytes_def m add.commute nat_int_add)
    ultimately show ?thesis using 1 m by (intro exI [of _ ?db] exI [of _ mp]) simp
  next
    case 2
    let ?db = "db\<lparr>offset := 0, msgs := ms\<rparr>"
    have "read_loop db mp (int n) acc = Inr (?db, mp\<lparr>freelist := freelist mp + 1\<rparr>, acc @ take n (bytes db))"
      using 2 by (subst read_loop.simps) (simp add: Let_def m off bl b return_message_def del: of_nat_diff)
    moreover have "bytes ?db = drop n (bytes db)" using 2 unfolding b by (simp add: bytes_def)
    ultimately show ?thesis using m
      by (intro exI [of _ ?db] exI [of _ "mp\<lparr>freelist := freelist mp + 1\<rparr>"]) (simp split: list.split)
  next
    case 3
    let ?db = "db\<lparr>msgs := ms, offset := 0\<rparr>" and ?mp = "mp\<lparr>freelist := freelist mp + 1\<rparr>"
    let ?b = "length m - off"
    have "int n - int ?b = int (n - ?b)" using 3 by simp
    then have step: "read_loop db mp (int n) acc = read_loop ?db ?mp (int (n - ?b)) (acc @ drop off m)"
      using 3 by (subst read_loop.simps) (simp add: Let_def m off bl del: of_nat_diff)
    have bs: "bytes ?db = concat ms" by (simp add: bytes_def)
    have p: "ms = msgs ?db" "0 < n - ?b" "offset_ok ?db" using 3 by (simp_all split: list.split)
    have l: "n - ?b \<le> length (bytes ?db)" using Cons.prems(2) unfolding bs b by simp
    have tk: "(acc @ drop off m) @ take (n - ?b) (bytes ?db) = acc @ take n (bytes db)"
      and dr: "drop (n - ?b) (bytes ?db) = drop n (bytes db)" unfolding bs b using 3 by simp_all
    have k: "freelist ?mp + length (msgs ?db) = freelist mp + length (msgs db)"
        "pool ?mp = pool mp" "header ?db = header db" "size ?db = size db" by (simp_all add: m)
    show ?thesis
      using Cons.hyps(1) [OF p(1,2) l p(3), of ?mp "acc @ drop off m"] unfolding step tk dr k .
  qed
qed

text \<open>Reading is taking a prefix.\<close>

lemma databuffer_read_spec:
  assumes "databuffer_inv db" and "0 < n" and "n \<le> length (bytes db)"
  shows "\<exists>db' mp'. databuffer_read db mp (int n) = Inr (db', mp', take n (bytes db)) \<and>
    bytes db' = drop n (bytes db) \<and> header db' = header db \<and> databuffer_inv db' \<and>
    pool mp' = pool mp \<and> freelist mp' + length (msgs db') = freelist mp + length (msgs db)"
proof -
  let ?db = "db\<lparr>size := size db - int n\<rparr>"
  have s: "size db = int (length (bytes db))" and o: "offset_ok ?db"
    using assms(1) by (auto simp: databuffer_inv_def split: list.splits)
  have b: "bytes ?db = bytes db" by (simp add: bytes_def)
  have run: "databuffer_read db mp (int n) = read_loop ?db mp (int n) []"
    using assms(3) s by (simp add: databuffer_read_def)
  from read_loop_spec [OF assms(2) _ o, of mp "[]"] assms(3) obtain db' mp' where
    *: "read_loop ?db mp (int n) [] = Inr (db', mp', take n (bytes db))" "bytes db' = drop n (bytes db)"
    "header db' = header db" "size db' = size db - int n" "offset_ok db'" "pool mp' = pool mp"
    "freelist mp' + length (msgs db') = freelist mp + length (msgs db)"
    unfolding b by auto
  then have "databuffer_inv db'" using s assms(3) by (simp add: databuffer_inv_def)
  with * run show ?thesis by auto
qed

lemma databuffer_push_spec:
  assumes "databuffer_inv db" and "length (bytes db) + length dat < 2 ^ 31"
    and "databuffer_push db mp dat = (db', mp')"
  shows "databuffer_inv db'" and "bytes db' = bytes db @ dat" and "header db' = header db"
    and "pool_inv mp n \<Longrightarrow> pool_inv mp' (Suc n)" and "length (msgs db') = Suc (length (msgs db))"
proof -
  have *: "size db = int (length (bytes db))" "offset_ok db" using assms(1) by (auto simp: databuffer_inv_def)
  have db': "db' = db\<lparr>size := wrap32 (size db + int (length dat)), msgs := msgs db @ [dat]\<rparr>"
    using assms(3) by (auto simp: databuffer_push_def Let_def)
  have "nat (offset db) \<le> length (concat (msgs db))"
    using *(2) by (cases "msgs db") auto
  then show b: "bytes db' = bytes db @ dat" by (simp add: db' bytes_def)
  have "wrap32 (size db + int (length dat)) = int (length (bytes db'))"
    using assms(2) * b by (subst wrap32_id) auto
  then show "databuffer_inv db'" using *(2) by (auto simp: databuffer_inv_def db' split: list.splits)
  show "header db' = header db" "length (msgs db') = Suc (length (msgs db))" by (simp_all add: db')
  show "pool_inv mp n \<Longrightarrow> pool_inv mp' (Suc n)" using assms(3)
    by (auto simp: databuffer_push_def pool_inv_def MESSAGEPOOL_def Let_def split: if_splits)
qed

section \<open>Headers\<close>

definition be_bytes :: "int \<Rightarrow> nat \<Rightarrow> u8 list" where
  "be_bytes hsz n =
     (if hsz = 2 then [of_nat (n div 256), of_nat n]
      else [of_nat (n div 16777216), of_nat (n div 65536), of_nat (n div 256), of_nat n])"

lemma be_header_2: "be_header [a, b] 2 = int (unat a * 256 + unat b)"
proof -
  have u: "unat (push_bit 8 (ucast a) OR ucast b :: 32 word) = unat a * 256 + unat b"
    using unat_or2 [of a b] by simp
  then have "unat (push_bit 8 (ucast a) OR ucast b :: 32 word) < 2 ^ 31"
    using unat_byte_lt [of a] unat_byte_lt [of b] by simp
  from sint_small [OF this] show ?thesis by (simp add: be_header_def Let_def u)
qed

lemma be_header_4:
  assumes "unat a < 128"
  shows "be_header [a, b, c, d] 4 = int (unat a * 16777216 + unat b * 65536 + unat c * 256 + unat d)"
proof -
  let ?w = "push_bit 24 (ucast a) OR push_bit 16 (ucast b) OR push_bit 8 (ucast c) OR ucast d :: 32 word"
  have u: "unat ?w = unat a * 16777216 + unat b * 65536 + unat c * 256 + unat d"
    using unat_or4 [of a b c d] by simp
  then have "unat ?w < 2 ^ 31"
    using assms unat_byte_lt [of b] unat_byte_lt [of c] unat_byte_lt [of d] by simp
  from sint_small [OF this] show ?thesis by (simp add: be_header_def Let_def u)
qed

lemma unat_byte_of_nat: "unat (of_nat n :: u8) = n mod 256"
  by (simp add: unat_of_nat)

lemma be_header_bytes:
  assumes "hsz = 2 \<and> n < 65536 \<or> hsz = 4 \<and> n < 16777216"
  shows "be_header (be_bytes hsz n) hsz = int n" and "length (be_bytes hsz n) = nat hsz"
proof -
  from assms show "be_header (be_bytes hsz n) hsz = int n"
  proof
    assume h: "hsz = 2 \<and> n < 65536"
    then have "n div 256 mod 256 * 256 + n mod 256 = n" by (simp add: less_mult_imp_div_less)
    with h show ?thesis by (simp add: be_bytes_def be_header_2 unat_byte_of_nat flip: of_nat_mult of_nat_add)
  next
    assume h: "hsz = 4 \<and> n < 16777216"
    have "n div 65536 mod 256 = n div 65536" using h by (simp add: less_mult_imp_div_less)
    moreover have "n = n div 65536 * 65536 + n mod 65536" by simp
    moreover have "n mod 65536 = n div 256 mod 256 * 256 + n mod 256"
      using mod_mult2_eq [of n 256 256] by simp
    ultimately have "n div 65536 mod 256 = n div 65536" "n div 65536 * 65536 + n div 256 mod 256 * 256 + n mod 256 = n"
      by simp_all
    with h show ?thesis
      by (simp add: be_bytes_def be_header_4 unat_byte_of_nat flip: of_nat_mult of_nat_add)
  qed
qed (use assms in \<open>auto simp: be_bytes_def\<close>)

text \<open>Parsing a header consumes it once, and reports it when the packet is complete.\<close>

lemma readheader_spec:
  assumes inv: "databuffer_inv db" and h: "0 < hsz"
  shows "\<exists>db' mp'. databuffer_readheader db mp hsz =
      Inr (db', mp', if header db = 0 \<and> size db < hsz \<or> size db' < header db' then -1 else header db') \<and>
    databuffer_inv db' \<and> pool mp' = pool mp \<and> freelist mp' + length (msgs db') = freelist mp + length (msgs db) \<and>
    (if header db = 0 \<and> hsz \<le> size db
     then bytes db' = drop (nat hsz) (bytes db) \<and> header db' = be_header (take (nat hsz) (bytes db)) hsz
     else db' = db)"
proof (cases "header db = 0 \<and> hsz \<le> size db")
  case True
  have s: "size db = int (length (bytes db))" using inv by (simp add: databuffer_inv_def)
  have "0 < nat hsz" "nat hsz \<le> length (bytes db)" "int (nat hsz) = hsz" using True s h by auto
  from databuffer_read_spec [OF inv this(1,2), of mp, unfolded this(3)] obtain db1 mp1 where
    1: "databuffer_read db mp hsz = Inr (db1, mp1, take (nat hsz) (bytes db))"
    "bytes db1 = drop (nat hsz) (bytes db)" "header db1 = header db" "databuffer_inv db1" "pool mp1 = pool mp"
    "freelist mp1 + length (msgs db1) = freelist mp + length (msgs db)" by blast
  let ?db = "db1\<lparr>header := be_header (take (nat hsz) (bytes db)) hsz\<rparr>"
  have b: "bytes ?db = bytes db1" by (simp add: bytes_def)
  have "databuffer_inv ?db" using 1(4) by (simp add: databuffer_inv_def b split: list.splits)
  then show ?thesis using True 1 b
    by (intro exI [of _ ?db] exI [of _ mp1]) (simp add: databuffer_readheader_def Let_def)
next
  case False
  then show ?thesis using inv
    by (intro exI [of _ db] exI [of _ mp]) (auto simp: databuffer_readheader_def Let_def)
qed

end
