(* ===== verification/Gate.thy ===== *)
theory Gate
  imports CString Engine HashId DataBuffer
begin

text \<open>
  Model of \<^verbatim>\<open>service-src/service_gate.c\<close>: the service that owns the client connections. It keeps a
  table of connections indexed through the id table, cuts the byte stream of each connection
  into packets and forwards them to a broker, the agent of the connection or the watchdog.

  What the service asks of the engine is returned as a list of effects. \<open>skynet_queryname\<close> and
  \<open>skynet_socket_listen\<close>, whose results the code uses, are arguments.
\<close>

section \<open>State\<close>

definition BACKLOG :: int where "BACKLOG = 32"

record connection =
  cid :: int
  agent :: u32
  client :: u32
  remote_name :: "u8 list"
  cbuf :: databuffer

record gate =
  listen_id :: int
  watchdog :: u32
  broker :: u32
  client_tag :: int
  header_size :: int
  max_connection :: int
  ghash :: hashid
  conn :: "connection list"
  mp :: messagepool

text \<open>
  Calls into the engine: \<open>skynet_send\<close> with source, destination, type, session and data,
  \<open>skynet_socket_close\<close>, \<open>skynet_socket_start\<close>, \<open>skynet_socket_send\<close>, and \<open>skynet_error\<close> with its format.
\<close>

datatype gate_effect =
    Send u32 u32 int int "u8 list"
  | Socket_close int
  | Socket_start int
  | Socket_send int "u8 list"
  | Log string

section \<open>Creation and release\<close>

definition empty_connection :: connection where
  "empty_connection = \<lparr>cid = -1, agent = 0, client = 0, remote_name = [], cbuf = databuffer_empty\<rparr>"

definition gate_create :: gate where
  "gate_create =
     \<lparr>listen_id = -1, watchdog = 0, broker = 0, client_tag = 0, header_size = 0, max_connection = 0,
      ghash = \<lparr>hashmod = 0, cap = 0, count = 0, ids = [], hash = []\<rparr>, conn = [], mp = \<lparr>pool = 0, freelist = 0\<rparr>\<rparr>"

definition gate_release :: "gate \<Rightarrow> gate_effect list" where
  "gate_release g =
     map (\<lambda>c. Socket_close (cid c)) (filter (\<lambda>c. 0 \<le> cid c) (conn g)) @
     (if 0 \<le> listen_id g then [Socket_close (listen_id g)] else [])"

section \<open>Control commands\<close>

text \<open>
  \<open>_parm\<close> moves what follows the command and its spaces to the front of the buffer of \<open>sz + 1\<close> bytes and ends
  it with a zero; the bytes behind that stay.
\<close>

definition parm :: "u8 list \<Rightarrow> nat \<Rightarrow> nat \<Rightarrow> u8 list" where
  "parm B sz command_sz =
     (let cs = command_sz + length (takeWhile (\<lambda>c. c = 32) (drop command_sz (take sz B)))
      in drop cs (take sz B) @ [0] @ drop (sz - cs + 1) B)"

text \<open>\<^verbatim>\<open>memcmp(command, lit, i) == 0\<close>; comparing beyond the literal and its zero is a fault.\<close>

definition memcmp_lit :: "u8 list \<Rightarrow> nat \<Rightarrow> string \<Rightarrow> bool res" where
  "memcmp_lit B i lit =
     (let L = text_bytes lit @ [0]; k = min i (length L) in
      if take k B \<noteq> take k L then Inr False
      else if i \<le> length L then Inr True else Inl Out_of_range)"

text \<open>\<^verbatim>\<open>strsep\<close> at position \<open>p\<close>: the buffer with the delimiter replaced by zero, and the position behind it.\<close>

definition strsep_space :: "u8 list \<Rightarrow> nat \<Rightarrow> (u8 list \<times> nat option) res" where
  "strsep_space B p =
     andThen (cstr_at B p) (\<lambda>s.
       let k = length (takeWhile (\<lambda>c. c \<noteq> 32) s) in
       Inr (if k < length s then (B[p + k := 0], Some (p + k + 1)) else (B, None)))"

definition forward_agent :: "gate \<Rightarrow> int \<Rightarrow> u32 \<Rightarrow> u32 \<Rightarrow> gate res" where
  "forward_agent g fd agentaddr clientaddr =
     andThen (hashid_lookup (ghash g) fd) (\<lambda>i.
       Inr (if 0 \<le> i then g\<lparr>conn := (conn g)[nat i := (conn g ! nat i)\<lparr>agent := agentaddr, client := clientaddr\<rparr>]\<rparr>
            else g))"

definition ctrl_kick :: "gate \<Rightarrow> u8 list \<Rightarrow> (gate \<times> gate_effect list) res" where
  "ctrl_kick g B =
     andThen (cstr_at B 0) (\<lambda>s. let uid = wrap32 (strtol10 s) in
     andThen (hashid_lookup (ghash g) uid) (\<lambda>i. Inr (g, if 0 \<le> i then [Socket_close uid] else [])))"

definition ctrl_start :: "gate \<Rightarrow> u8 list \<Rightarrow> (gate \<times> gate_effect list) res" where
  "ctrl_start g B =
     andThen (cstr_at B 0) (\<lambda>s. let uid = wrap32 (strtol10 s) in
     andThen (hashid_lookup (ghash g) uid) (\<lambda>i. Inr (g, if 0 \<le> i then [Socket_start uid] else [])))"

definition ctrl_forward :: "gate \<Rightarrow> u8 list \<Rightarrow> (gate \<times> gate_effect list) res" where
  "ctrl_forward g B =
     andThen (strsep_space B 0) (\<lambda>(B1, r1). case r1 of
       None \<Rightarrow> Inr (g, [])
     | Some p1 \<Rightarrow>
         andThen (cstr_at B1 0) (\<lambda>idstr. let i = wrap32 (strtol10 idstr) in
         andThen (strsep_space B1 p1) (\<lambda>(B2, r2). case r2 of
           None \<Rightarrow> Inr (g, [])
         | Some p2 \<Rightarrow>
             andThen (cstr_at B2 (p1 + 1)) (\<lambda>a.
             andThen (cstr_at B2 (p2 + 1)) (\<lambda>c.
             andThen (forward_agent g i (ucast (strtoul16 a)) (ucast (strtoul16 c))) (\<lambda>g'. Inr (g', [])))))))"

definition ctrl_broker :: "(u8 list \<Rightarrow> u32) \<Rightarrow> gate \<Rightarrow> u8 list \<Rightarrow> (gate \<times> gate_effect list) res" where
  "ctrl_broker queryname g B = andThen (cstr_at B 0) (\<lambda>s. Inr (g\<lparr>broker := queryname s\<rparr>, []))"

definition ctrl_close :: "gate \<Rightarrow> gate \<times> gate_effect list" where
  "ctrl_close g = (if 0 \<le> listen_id g then (g\<lparr>listen_id := -1\<rparr>, [Socket_close (listen_id g)]) else (g, []))"

definition ctrl :: "(u8 list \<Rightarrow> u32) \<Rightarrow> gate \<Rightarrow> u8 list \<Rightarrow> (gate \<times> gate_effect list) res" where
  "ctrl queryname g msg =
     (if msg = [] then Inr (g, [])
      else
        let sz = length msg; B = msg @ [0]; i = length (takeWhile (\<lambda>c. c \<noteq> 32) msg) in
        andThen (memcmp_lit B i ''kick'') (\<lambda>b. if b then ctrl_kick g (parm B sz i) else
        andThen (memcmp_lit B i ''forward'') (\<lambda>b. if b then ctrl_forward g (parm B sz i) else
        andThen (memcmp_lit B i ''broker'') (\<lambda>b. if b then ctrl_broker queryname g (parm B sz i) else
        andThen (memcmp_lit B i ''start'') (\<lambda>b. if b then ctrl_start g (parm B sz i) else
        andThen (memcmp_lit B i ''close'') (\<lambda>b. if b then Inr (ctrl_close g) else
        Inr (g, [Log ''[gate] Unkown command : %s'']))))))) "

section \<open>Packets\<close>

text \<open>\<open>_report\<close>; the texts are shorter than its buffer of 1024 bytes.\<close>

definition report :: "gate \<Rightarrow> u8 list \<Rightarrow> gate_effect list" where
  "report g txt = (if watchdog g = 0 then [] else [Send 0 (watchdog g) PTYPE_TEXT 0 txt])"

definition forward :: "gate \<Rightarrow> connection \<Rightarrow> int \<Rightarrow> (gate \<times> connection \<times> gate_effect list) res" where
  "forward g c sz =
     (if broker g \<noteq> 0 then
        andThen (databuffer_read (cbuf c) (mp g) sz) (\<lambda>(db, mp', dat).
          Inr (g\<lparr>mp := mp'\<rparr>, c\<lparr>cbuf := db\<rparr>, [Send 0 (broker g) (client_tag g OR PTYPE_TAG_DONTCOPY) 1 dat]))
      else if agent c \<noteq> 0 then
        andThen (databuffer_read (cbuf c) (mp g) sz) (\<lambda>(db, mp', dat).
          Inr (g\<lparr>mp := mp'\<rparr>, c\<lparr>cbuf := db\<rparr>, [Send (client c) (agent c) (client_tag g OR PTYPE_TAG_DONTCOPY) 1 dat]))
      else if watchdog g \<noteq> 0 then
        andThen (databuffer_read (cbuf c) (mp g) sz) (\<lambda>(db, mp', dat).
          Inr (g\<lparr>mp := mp'\<rparr>, c\<lparr>cbuf := db\<rparr>,
               [Send 0 (watchdog g) (PTYPE_TEXT OR PTYPE_TAG_DONTCOPY) 1 (show_int (cid c) @ text_bytes '' data '' @ dat)]))
      else Inr (g, c, []))"

text \<open>
  The loop of \<open>dispatch_message\<close>. Every turn but the first consumes at least a header, so the
  number of buffered bytes bounds the turns.
\<close>

fun dispatch_loop :: "nat \<Rightarrow> gate \<Rightarrow> connection \<Rightarrow> int \<Rightarrow> (gate \<times> connection \<times> gate_effect list) res" where
  "dispatch_loop 0 g c sid = Inl Out_of_fuel"
| "dispatch_loop (Suc fuel) g c sid =
     andThen (databuffer_readheader (cbuf c) (mp g) (header_size g)) (\<lambda>(db, mp', sz).
       let g1 = g\<lparr>mp := mp'\<rparr>; c1 = c\<lparr>cbuf := db\<rparr> in
       if sz < 0 then Inr (g1, c1, [])
       else if 0 < sz then
         if 16777216 \<le> sz then
           let (db', mp'') = databuffer_clear db mp' in
           Inr (g1\<lparr>mp := mp''\<rparr>, c1\<lparr>cbuf := db'\<rparr>, [Socket_close sid, Log ''Recv socket message > 16M''])
         else
           andThen (forward g1 c1 sz) (\<lambda>(g2, c2, out).
           andThen (dispatch_loop fuel g2 (c2\<lparr>cbuf := databuffer_reset (cbuf c2)\<rparr>) sid) (\<lambda>(g3, c3, out').
             Inr (g3, c3, out @ out')))
       else dispatch_loop fuel g1 c1 sid)"

definition dispatch_message :: "gate \<Rightarrow> connection \<Rightarrow> int \<Rightarrow> u8 list \<Rightarrow> (gate \<times> connection \<times> gate_effect list) res" where
  "dispatch_message g c sid dat =
     (let (db, mp') = databuffer_push (cbuf c) (mp g) dat
      in dispatch_loop (length (bytes db) + 2) (g\<lparr>mp := mp'\<rparr>) (c\<lparr>cbuf := db\<rparr>) sid)"

section \<open>Socket messages\<close>

definition socket_data :: "gate \<Rightarrow> skynet_socket_message \<Rightarrow> (gate \<times> gate_effect list) res" where
  "socket_data g m =
     andThen (hashid_lookup (ghash g) (sm_id m)) (\<lambda>i.
       if 0 \<le> i then
         andThen (dispatch_message g (conn g ! nat i) (sm_id m) (sm_buffer m)) (\<lambda>(g', c', out).
           Inr (g'\<lparr>conn := (conn g')[nat i := c']\<rparr>, out))
       else Inr (g, [Log ''Drop unknown connection %d message'', Socket_close (sm_id m)]))"

definition socket_connect :: "gate \<Rightarrow> skynet_socket_message \<Rightarrow> (gate \<times> gate_effect list) res" where
  "socket_connect g m =
     (if sm_id m = listen_id g then Inr (g, [])
      else andThen (hashid_lookup (ghash g) (sm_id m)) (\<lambda>i.
        Inr (g, if i < 0 then [Log ''Close unknown connection %d'', Socket_close (sm_id m)] else [])))"

definition socket_close_msg :: "gate \<Rightarrow> skynet_socket_message \<Rightarrow> (gate \<times> gate_effect list) res" where
  "socket_close_msg g m =
     andThen (hashid_remove (ghash g) (sm_id m)) (\<lambda>(h, i).
       if 0 \<le> i then
         let (db, mp') = databuffer_clear (cbuf (conn g ! nat i)) (mp g) in
         Inr (g\<lparr>ghash := h, mp := mp', conn := (conn g)[nat i := empty_connection]\<rparr>,
              report g (show_int (sm_id m) @ text_bytes '' close''))
       else Inr (g\<lparr>ghash := h\<rparr>, []))"

definition socket_accept :: "gate \<Rightarrow> skynet_socket_message \<Rightarrow> (gate \<times> gate_effect list) res" where
  "socket_accept g m =
     andThen (assert_that (listen_id g = sm_id m)) (\<lambda>_.
       if hashid_full (ghash g) then Inr (g, [Socket_close (sm_ud m)])
       else
         andThen (hashid_insert (ghash g) (sm_ud m)) (\<lambda>(h, i).
           let name = take 31 (sm_tail m); shown = takeWhile (\<lambda>b. b \<noteq> 0) name; d = show_int (sm_ud m);
               c = (conn g ! nat i)\<lparr>cid := sm_ud m, remote_name := name\<rparr> in
           Inr (g\<lparr>ghash := h, conn := (conn g)[nat i := c]\<rparr>,
                report g (d @ text_bytes '' open '' @ d @ text_bytes '' '' @ shown @ text_bytes '':0'') @
                [Log ''socket open: %x''])))"

definition dispatch_socket_message :: "gate \<Rightarrow> skynet_socket_message \<Rightarrow> (gate \<times> gate_effect list) res" where
  "dispatch_socket_message g m =
     (if sm_type m = SOCKET_TYPE_DATA then socket_data g m
      else if sm_type m = SOCKET_TYPE_CONNECT then socket_connect g m
      else if sm_type m = SOCKET_TYPE_CLOSE \<or> sm_type m = SOCKET_TYPE_ERROR then socket_close_msg g m
      else if sm_type m = SOCKET_TYPE_ACCEPT then socket_accept g m
      else if sm_type m = SOCKET_TYPE_WARNING then Inr (g, [Log ''fd (%d) send buffer (%d)K''])
      else Inr (g, []))"

section \<open>The callback and the start of the service\<close>

datatype gate_msg = Bytes "u8 list" | Socket_msg skynet_socket_message

text \<open>The last 4 bytes of a client message, little-endian, as the C \<^verbatim>\<open>int\<close> that is looked up.\<close>

definition le_id :: "u8 list \<Rightarrow> int" where
  "le_id b = sint (ucast (b ! 0) OR push_bit 8 (ucast (b ! 1)) OR push_bit 16 (ucast (b ! 2)) OR
     push_bit 24 (ucast (b ! 3)) :: 32 word)"

text \<open>\<open>_cb\<close> with its return value: \<open>1\<close> keeps the message.\<close>

definition gate_cb :: "(u8 list \<Rightarrow> u32) \<Rightarrow> gate \<Rightarrow> int \<Rightarrow> gate_msg \<Rightarrow> (gate \<times> gate_effect list \<times> int) res" where
  "gate_cb queryname g ty m =
     (case m of
        Bytes msg \<Rightarrow>
          if ty = PTYPE_TEXT then andThen (ctrl queryname g msg) (\<lambda>(g', out). Inr (g', out, 0))
          else if ty = PTYPE_CLIENT then
            if length msg \<le> 4 then Inr (g, [Log ''Invalid client message from %x''], 0)
            else
              let uid = le_id (drop (length msg - 4) msg) in
              andThen (hashid_lookup (ghash g) uid) (\<lambda>i.
                Inr (if 0 \<le> i then (g, [Socket_send uid (take (length msg - 4) msg)], 1)
                     else (g, [Log ''Invalid client id %d from %x''], 0)))
          else Inr (g, [], 0)
      | Socket_msg sm \<Rightarrow>
          if ty = PTYPE_SOCKET then andThen (dispatch_socket_message g sm) (\<lambda>(g', out). Inr (g', out, 0))
          else Inr (g, [], 0))"

definition start_listen :: "(u8 list \<Rightarrow> int \<Rightarrow> int \<Rightarrow> int) \<Rightarrow> gate \<Rightarrow> u8 list \<Rightarrow> gate \<times> gate_effect list \<times> int" where
  "start_listen listen g addr =
     (let host = takeWhile (\<lambda>c. c \<noteq> 58) addr; colon = host \<noteq> addr;
          port = wrap32 (strtol10 (if colon then drop (length host + 1) addr else addr)) in
      if port \<le> 0 then (g, [Log ''Invalid gate address %s''], 1)
      else
        let l = listen (if colon then host else []) port BACKLOG; g' = g\<lparr>listen_id := l\<rparr> in
        if l < 0 then (g', [], 1) else (g', [Socket_start l], 0))"

text \<open>\<^verbatim>\<open>sscanf(parm, "%c %s %s %d %d", ...)\<close>: the items read; \<open>max\<close> keeps its 0 when it is missing.\<close>

definition scan_parm :: "u8 list \<Rightarrow> (u8 \<times> u8 list \<times> u8 list \<times> int \<times> int) option" where
  "scan_parm s =
     (case s of [] \<Rightarrow> None | h # s1 \<Rightarrow>
      (case scan_word s1 of None \<Rightarrow> None | Some (w, s2) \<Rightarrow>
      (case scan_word s2 of None \<Rightarrow> None | Some (b, s3) \<Rightarrow>
      (case scan_int s3 of None \<Rightarrow> None | Some (tag, s4) \<Rightarrow>
      Some (h, w, b, tag, case scan_int s4 of None \<Rightarrow> 0 | Some (mx, _) \<Rightarrow> mx)))))"

definition gate_init ::
  "(u8 list \<Rightarrow> u32) \<Rightarrow> (u8 list \<Rightarrow> int \<Rightarrow> int \<Rightarrow> int) \<Rightarrow> gate \<Rightarrow> u8 list option \<Rightarrow> (gate \<times> gate_effect list \<times> int) res" where
  "gate_init queryname listen g p =
     (case p of None \<Rightarrow> Inr (g, [], 1) | Some ps \<Rightarrow>
      (case scan_parm ps of None \<Rightarrow> Inr (g, [Log ''Invalid gate parm %s''], 1)
      | Some (h, wd, binding, tag, mx) \<Rightarrow>
          if mx \<le> 0 then Inr (g, [Log ''Need max connection''], 1)
          else if h \<noteq> 83 \<and> h \<noteq> 76 then Inr (g, [Log ''Invalid data header style''], 1)
          else
            let g1 = g\<lparr>watchdog := if wd ! 0 = 33 then 0 else queryname wd\<rparr> in
            if wd ! 0 \<noteq> 33 \<and> watchdog g1 = 0 then Inr (g1, [Log ''Invalid watchdog %s''], 1)
            else
              andThen (hashid_init mx) (\<lambda>hi.
                Inr (start_listen listen
                  (g1\<lparr>ghash := hi, conn := replicate (nat mx) empty_connection, max_connection := mx,
                      client_tag := if tag = 0 then PTYPE_CLIENT else tag,
                      header_size := if h = 83 then 2 else 4\<rparr>) binding))))"

section \<open>Cutting a stream into packets\<close>

definition frame :: "int \<Rightarrow> u8 list \<Rightarrow> u8 list" where
  "frame hsz p = be_bytes hsz (length p) @ p"

definition frame_ok :: "int \<Rightarrow> u8 list \<Rightarrow> bool" where
  "frame_ok hsz p \<longleftrightarrow> hsz = 2 \<and> length p < 65536 \<or> hsz = 4 \<and> length p < 16777216"

definition has_target :: "gate \<Rightarrow> connection \<Rightarrow> bool" where
  "has_target g c \<longleftrightarrow> broker g \<noteq> 0 \<or> agent c \<noteq> 0 \<or> watchdog g \<noteq> 0"

definition forwarded :: "gate \<Rightarrow> connection \<Rightarrow> u8 list \<Rightarrow> gate_effect" where
  "forwarded g c p =
     (if broker g \<noteq> 0 then Send 0 (broker g) (client_tag g OR PTYPE_TAG_DONTCOPY) 1 p
      else if agent c \<noteq> 0 then Send (client c) (agent c) (client_tag g OR PTYPE_TAG_DONTCOPY) 1 p
      else Send 0 (watchdog g) (PTYPE_TEXT OR PTYPE_TAG_DONTCOPY) 1 (show_int (cid c) @ text_bytes '' data '' @ p))"

lemma forwarded_upd [simp]: "forwarded (g\<lparr>mp := x\<rparr>) (c\<lparr>cbuf := y\<rparr>) = forwarded g c"
  by (simp add: forwarded_def fun_eq_iff)

lemma has_target_upd [simp]: "has_target (g\<lparr>mp := x\<rparr>) (c\<lparr>cbuf := y\<rparr>) = has_target g c"
  by (simp add: has_target_def)

text \<open>
  \<open>unread hsz db fut todo\<close>: the packets \<open>todo\<close> are still to be delivered, from the bytes in the
  buffer and the bytes \<open>fut\<close> that have not arrived yet; the header of the first one may have been
  parsed already.
\<close>

definition unread :: "int \<Rightarrow> databuffer \<Rightarrow> u8 list \<Rightarrow> u8 list list \<Rightarrow> bool" where
  "unread hsz db fut todo \<longleftrightarrow>
     header db = 0 \<and> bytes db @ fut = concat (map (frame hsz) todo) \<or>
     (\<exists>p ps. todo = p # ps \<and> p \<noteq> [] \<and> header db = int (length p) \<and>
        bytes db @ fut = p @ concat (map (frame hsz) ps))"

lemma unreadE:
  assumes "unread hsz db fut todo"
  obtains (start) "header db = 0" "bytes db @ fut = concat (map (frame hsz) todo)"
    | (body) p ps where "todo = p # ps" "p \<noteq> []" "header db = int (length p)"
        "bytes db @ fut = p @ concat (map (frame hsz) ps)"
  using assms unfolding unread_def by blast

lemma forward_spec:
  assumes t: "has_target g c" and inv: "databuffer_inv (cbuf c)" and n: "0 < n" "n \<le> length (bytes (cbuf c))"
  shows "\<exists>db mp'. forward g c (int n) = Inr (g\<lparr>mp := mp'\<rparr>, c\<lparr>cbuf := db\<rparr>, [forwarded g c (take n (bytes (cbuf c)))]) \<and>
    databuffer_inv db \<and> bytes db = drop n (bytes (cbuf c)) \<and> pool mp' = pool (mp g) \<and>
    freelist mp' + length (msgs db) = freelist (mp g) + length (msgs (cbuf c))"
proof -
  from databuffer_read_spec [OF inv n, of "mp g"] obtain db mp' where
    "databuffer_read (cbuf c) (mp g) (int n) = Inr (db, mp', take n (bytes (cbuf c)))"
    "bytes db = drop n (bytes (cbuf c))" "databuffer_inv db" "pool mp' = pool (mp g)"
    "freelist mp' + length (msgs db) = freelist (mp g) + length (msgs (cbuf c))" by blast
  then show ?thesis using t
    by (intro exI [of _ db] exI [of _ mp']) (auto simp: forward_def forwarded_def has_target_def)
qed

text \<open>The result of the loop on a well-formed stream.\<close>

definition loop_result :: "gate \<Rightarrow> connection \<Rightarrow> u8 list \<Rightarrow> u8 list list \<Rightarrow> (gate \<times> connection \<times> gate_effect list) res \<Rightarrow> bool" where
  "loop_result g c fut todo r \<longleftrightarrow>
     (\<exists>mp' db' now later. r = Inr (g\<lparr>mp := mp'\<rparr>, c\<lparr>cbuf := db'\<rparr>, map (forwarded g c) (filter (\<lambda>p. p \<noteq> []) now)) \<and>
        todo = now @ later \<and> databuffer_inv db' \<and> unread (header_size g) db' fut later \<and> (fut = [] \<longrightarrow> later = []) \<and>
        pool mp' = pool (mp g) \<and> freelist mp' + length (msgs db') = freelist (mp g) + length (msgs (cbuf c)))"

lemma databuffer_reset_simps [simp]:
  "bytes (databuffer_reset db) = bytes db" "header (databuffer_reset db) = 0"
  "msgs (databuffer_reset db) = msgs db" "databuffer_inv (databuffer_reset db) = databuffer_inv db"
  by (simp_all add: databuffer_reset_def bytes_def databuffer_inv_def split: list.split)

lemma loop_result_stop:
  assumes "databuffer_inv db" and "unread (header_size g) db fut todo" and "fut = [] \<Longrightarrow> todo = []"
    and "pool mp' = pool (mp g)" and "freelist mp' + length (msgs db) = freelist (mp g) + length (msgs (cbuf c))"
  shows "loop_result g c fut todo (Inr (g\<lparr>mp := mp'\<rparr>, c\<lparr>cbuf := db\<rparr>, []))"
  unfolding loop_result_def using assms
  by (intro exI [of _ mp'] exI [of _ db] exI [of _ "[]"] exI [of _ todo]) simp

lemma loop_result_more:
  assumes r: "loop_result (g\<lparr>mp := mp1\<rparr>) (c\<lparr>cbuf := db1\<rparr>) fut ps r"
    and "pool mp1 = pool (mp g)" and "freelist mp1 + length (msgs db1) = freelist (mp g) + length (msgs (cbuf c))"
  shows "p = [] \<Longrightarrow> loop_result g c fut (p # ps) r"
    and "p \<noteq> [] \<Longrightarrow> loop_result g c fut (p # ps)
      (andThen r (\<lambda>(g', c', out). Inr (g', c', [forwarded g c p] @ out)))"
proof -
  from r obtain mp' db' now later where
    "r = Inr (g\<lparr>mp := mp'\<rparr>, c\<lparr>cbuf := db'\<rparr>, map (forwarded g c) (filter (\<lambda>p. p \<noteq> []) now))" "ps = now @ later"
    "databuffer_inv db'" "unread (header_size g) db' fut later" "fut = [] \<longrightarrow> later = []" "pool mp' = pool mp1"
    "freelist mp' + length (msgs db') = freelist mp1 + length (msgs db1)"
    unfolding loop_result_def by auto
  then show "p = [] \<Longrightarrow> loop_result g c fut (p # ps) r"
    and "p \<noteq> [] \<Longrightarrow> loop_result g c fut (p # ps) (andThen r (\<lambda>(g', c', out). Inr (g', c', [forwarded g c p] @ out)))"
    unfolding loop_result_def using assms(2,3)
    by (intro exI [of _ mp'] exI [of _ db'] exI [of _ "p # now"] exI [of _ later]; simp)+
qed

text \<open>One turn, after the header of the packet \<open>p\<close> is known.\<close>

lemma packet_step:
  assumes "has_target g c" and "databuffer_inv (cbuf c)" and "p \<noteq> []" and "length p < 16777216"
    and "bytes (cbuf c) @ fut = p @ rest" and "length p \<le> length (bytes (cbuf c))"
  shows "\<exists>db mp'. forward g c (int (length p)) = Inr (g\<lparr>mp := mp'\<rparr>, c\<lparr>cbuf := db\<rparr>, [forwarded g c p]) \<and>
    databuffer_inv db \<and> bytes db @ fut = rest \<and> length (bytes db) < length (bytes (cbuf c)) \<and> pool mp' = pool (mp g) \<and>
    freelist mp' + length (msgs db) = freelist (mp g) + length (msgs (cbuf c))"
proof -
  have "take (length p) (bytes (cbuf c)) = p"
    using assms(5,6) by (metis append_eq_append_conv_if)
  moreover have "drop (length p) (bytes (cbuf c)) @ fut = rest"
    using assms(5,6) by (metis append_eq_conv_conj drop_append diff_is_0_eq drop0)
  moreover have "length (drop (length p) (bytes (cbuf c))) < length (bytes (cbuf c))"
    using assms(3,6) by (cases p) auto
  ultimately show ?thesis
    using forward_spec [OF assms(1,2) _ assms(6)] assms(3) by (metis length_greater_0_conv)
qed

lemma dispatch_loop_spec:
  assumes "databuffer_inv (cbuf c)" and "unread (header_size g) (cbuf c) fut todo" and "has_target g c"
    and "\<forall>p\<in>set todo. frame_ok (header_size g) p" and "header_size g = 2 \<or> header_size g = 4"
    and "length (bytes (cbuf c)) < fuel"
  shows "loop_result g c fut todo (dispatch_loop fuel g c sid)"
  using assms
proof (induction fuel arbitrary: g c todo)
  case (Suc fuel)
  let ?hsz = "header_size g"
  have hp: "0 < ?hsz" using Suc.prems(5) by auto
  have sz: "size (cbuf c) = int (length (bytes (cbuf c)))" using Suc.prems(1) by (simp add: databuffer_inv_def)
  obtain db1 mp1 where rh: "databuffer_readheader (cbuf c) (mp g) ?hsz =
      Inr (db1, mp1, if header (cbuf c) = 0 \<and> size (cbuf c) < ?hsz \<or> size db1 < header db1 then -1 else header db1)"
    and db1: "databuffer_inv db1" "pool mp1 = pool (mp g)"
      "freelist mp1 + length (msgs db1) = freelist (mp g) + length (msgs (cbuf c))"
    and hd1: "if header (cbuf c) = 0 \<and> ?hsz \<le> size (cbuf c)
     then bytes db1 = drop (nat ?hsz) (bytes (cbuf c)) \<and> header db1 = be_header (take (nat ?hsz) (bytes (cbuf c))) ?hsz
     else db1 = cbuf c"
    using readheader_spec [OF Suc.prems(1) hp, of "mp g"] by blast
  have sz1: "size db1 = int (length (bytes db1))" using db1(1) by (simp add: databuffer_inv_def)
  let ?g1 = "g\<lparr>mp := mp1\<rparr>" let ?c1 = "c\<lparr>cbuf := db1\<rparr>"
  \<comment> \<open>the part of a turn behind the header\<close>
  have turn: "loop_result g c fut todo (dispatch_loop (Suc fuel) g c sid)"
    if A: "todo = p # ps" "p \<noteq> []" "header db1 = int (length p)" "bytes db1 @ fut = p @ concat (map (frame ?hsz) ps)"
      "\<not> (header (cbuf c) = 0 \<and> size (cbuf c) < ?hsz)" "length (bytes db1) \<le> length (bytes (cbuf c))" for p ps
  proof (cases "length (bytes db1) < length p")
    case True
    then have "dispatch_loop (Suc fuel) g c sid = Inr (?g1, ?c1, [])" using A sz1 by (auto simp: rh)
    moreover have "unread ?hsz db1 fut todo" using A by (auto simp: unread_def)
    moreover have "fut \<noteq> []" using True A(4) by auto
    ultimately show ?thesis using loop_result_stop [OF db1(1) _ _ db1(2,3)] by auto
  next
    case False
    have small: "length p < 16777216" using Suc.prems(4,5) A(1) by (auto simp: frame_ok_def)
    have t1: "has_target ?g1 ?c1" "databuffer_inv (cbuf ?c1)" using Suc.prems(3) db1(1) by simp_all
    obtain db mp' where f: "forward ?g1 ?c1 (int (length p)) = Inr (g\<lparr>mp := mp'\<rparr>, c\<lparr>cbuf := db\<rparr>, [forwarded g c p])"
      "databuffer_inv db" "bytes db @ fut = concat (map (frame ?hsz) ps)" "length (bytes db) < length (bytes db1)"
      "pool mp' = pool mp1" "freelist mp' + length (msgs db) = freelist mp1 + length (msgs db1)"
      using packet_step [OF t1 A(2) small, of fut "concat (map (frame ?hsz) ps)"] A(4) False by auto
    let ?g2 = "g\<lparr>mp := mp'\<rparr>" let ?c2 = "c\<lparr>cbuf := databuffer_reset db\<rparr>"
    have run: "dispatch_loop (Suc fuel) g c sid =
        andThen (dispatch_loop fuel ?g2 ?c2 sid) (\<lambda>(g', c', out). Inr (g', c', [forwarded g c p] @ out))"
      using A small False sz1 f(1) by (auto simp: rh Let_def split: prod.split)
    have "loop_result ?g2 ?c2 fut ps (dispatch_loop fuel ?g2 ?c2 sid)"
      using Suc.prems f A by (intro Suc.IH) (auto simp: unread_def)
    from loop_result_more(2) [OF this _ _ A(2)] show ?thesis
      unfolding run A(1) using f(5,6) db1 by simp
  qed
  from Suc.prems(2) show ?case
  proof (cases rule: unreadE)
    case (body p ps)
    then have "db1 = cbuf c" using hd1 by auto
    with body show ?thesis by (intro turn [of p ps]) auto
  next
    case start
    show ?thesis
    proof (cases "size (cbuf c) < ?hsz")
      case True
      then have "db1 = cbuf c" using hd1 by auto
      then have "dispatch_loop (Suc fuel) g c sid = Inr (?g1, ?c1, [])" using True start by (simp add: rh)
      moreover have "fut = [] \<Longrightarrow> todo = []"
        using start True sz Suc.prems(4) be_header_bytes(2) by (cases todo) (auto simp: frame_def frame_ok_def)
      ultimately show ?thesis
        using loop_result_stop [OF db1(1) _ _ db1(2,3)] Suc.prems(2) \<open>db1 = cbuf c\<close> by auto
    next
      case False
      then obtain p ps where todo: "todo = p # ps" using start sz hp by (cases todo) auto
      have ok: "frame_ok ?hsz p" using Suc.prems(4) todo by simp
      have bl: "length (be_bytes ?hsz (length p)) = nat ?hsz" "be_header (be_bytes ?hsz (length p)) ?hsz = int (length p)"
        using be_header_bytes [of ?hsz "length p"] ok by (auto simp: frame_ok_def)
      have b: "bytes (cbuf c) @ fut = be_bytes ?hsz (length p) @ p @ concat (map (frame ?hsz) ps)"
        using start todo by (simp add: frame_def)
      have le: "nat ?hsz \<le> length (bytes (cbuf c))" using False sz by auto
      have tk: "take (nat ?hsz) (bytes (cbuf c)) = be_bytes ?hsz (length p)"
        "drop (nat ?hsz) (bytes (cbuf c)) @ fut = p @ concat (map (frame ?hsz) ps)"
        using arg_cong [OF b, of "take (nat ?hsz)"] arg_cong [OF b, of "drop (nat ?hsz)"] le bl(1) by simp_all
      have h1: "header db1 = int (length p)" "bytes db1 = drop (nat ?hsz) (bytes (cbuf c))"
        using hd1 False start bl tk by auto
      show ?thesis
      proof (cases "p = []")
        case True
        have run: "dispatch_loop (Suc fuel) g c sid = dispatch_loop fuel ?g1 ?c1 sid"
          using False start h1 True sz1 by (simp add: rh)
        have "loop_result ?g1 ?c1 fut ps (dispatch_loop fuel ?g1 ?c1 sid)"
          using Suc.prems h1 tk True todo le hp db1 by (intro Suc.IH) (auto simp: unread_def)
        from loop_result_more(1) [OF this db1(2,3) True] show ?thesis unfolding run todo .
      next
        case p: False
        show ?thesis using turn [OF todo p h1(1)] tk(2) False h1(2) by simp
      qed
    qed
  qed
qed simp

fun dispatch_chunks :: "gate \<Rightarrow> connection \<Rightarrow> int \<Rightarrow> u8 list list \<Rightarrow> (gate \<times> connection \<times> gate_effect list) res" where
  "dispatch_chunks g c sid [] = Inr (g, c, [])"
| "dispatch_chunks g c sid (d # ds) =
     andThen (dispatch_message g c sid d) (\<lambda>(g', c', out).
     andThen (dispatch_chunks g' c' sid ds) (\<lambda>(g'', c'', out'). Inr (g'', c'', out @ out')))"

lemma dispatch_message_spec:
  assumes "databuffer_inv (cbuf c)" and "unread (header_size g) (cbuf c) (d @ fut) todo" and "has_target g c"
    and "\<forall>p\<in>set todo. frame_ok (header_size g) p" and "header_size g = 2 \<or> header_size g = 4"
    and "length (bytes (cbuf c)) + length d < 2 ^ 31"
  shows "\<exists>mp' db' now later. dispatch_message g c sid d =
      Inr (g\<lparr>mp := mp'\<rparr>, c\<lparr>cbuf := db'\<rparr>, map (forwarded g c) (filter (\<lambda>p. p \<noteq> []) now)) \<and>
    todo = now @ later \<and> databuffer_inv db' \<and> unread (header_size g) db' fut later \<and> (fut = [] \<longrightarrow> later = [])"
proof -
  obtain db mp1 where p: "databuffer_push (cbuf c) (mp g) d = (db, mp1)" by fastforce
  note ps = databuffer_push_spec [OF assms(1,6) p]
  let ?g = "g\<lparr>mp := mp1\<rparr>" let ?c = "c\<lparr>cbuf := db\<rparr>"
  have "loop_result ?g ?c fut todo (dispatch_loop (length (bytes db) + 2) ?g ?c sid)"
    using assms ps by (intro dispatch_loop_spec) (auto simp: unread_def)
  then show ?thesis by (auto simp: dispatch_message_def p loop_result_def)
qed

lemma unread_length:
  assumes "unread hsz db (d @ fut) todo"
  shows "length (bytes db) + length d + length fut \<le> sum_list (map (\<lambda>p. length (frame hsz p)) todo)"
proof -
  have l: "length (concat (map (frame hsz) ps)) = sum_list (map (\<lambda>p. length (frame hsz p)) ps)" for ps
    by (simp add: length_concat comp_def)
  from assms show ?thesis
  proof (cases rule: unreadE)
    case start
    have "length (bytes db @ d @ fut) = sum_list (map (\<lambda>p. length (frame hsz p)) todo)"
      by (simp only: start(2) l)
    then show ?thesis by simp
  next
    case (body p ps)
    have "length (bytes db @ d @ fut) = length p + sum_list (map (\<lambda>p. length (frame hsz p)) ps)"
      by (simp only: body(4) l length_append)
    then show ?thesis using body(1) by (simp add: frame_def)
  qed
qed

lemma dispatch_chunks_spec:
  assumes "databuffer_inv (cbuf c)" and "unread (header_size g) (cbuf c) (concat ds) todo" and "has_target g c"
    and "\<forall>p\<in>set todo. frame_ok (header_size g) p" and "header_size g = 2 \<or> header_size g = 4"
    and "sum_list (map (\<lambda>p. length (frame (header_size g) p)) todo) < 2 ^ 31"
    and "ds = [] \<Longrightarrow> todo = []"
  shows "\<exists>mp' db'. dispatch_chunks g c sid ds =
      Inr (g\<lparr>mp := mp'\<rparr>, c\<lparr>cbuf := db'\<rparr>, map (forwarded g c) (filter (\<lambda>p. p \<noteq> []) todo)) \<and> bytes db' = [] \<and> header db' = 0"
  using assms
proof (induction ds arbitrary: g c todo)
  case Nil
  then show ?case by (intro exI [of _ "mp g"] exI [of _ "cbuf c"]) (auto simp: unread_def)
next
  case (Cons d ds)
  have "length (bytes (cbuf c)) + length d < 2 ^ 31"
    using unread_length [of "header_size g" "cbuf c" d "concat ds" todo] Cons.prems(2,6) by simp
  note dm = dispatch_message_spec [OF Cons.prems(1) _ Cons.prems(3-5) this, of "concat ds" sid]
  obtain mp' db' now later where m: "dispatch_message g c sid d =
      Inr (g\<lparr>mp := mp'\<rparr>, c\<lparr>cbuf := db'\<rparr>, map (forwarded g c) (filter (\<lambda>p. p \<noteq> []) now))"
    "todo = now @ later" "databuffer_inv db'" "unread (header_size g) db' (concat ds) later" "concat ds = [] \<longrightarrow> later = []"
    using dm Cons.prems(2) unfolding concat.simps by blast
  have "\<exists>mp'' db''. dispatch_chunks (g\<lparr>mp := mp'\<rparr>) (c\<lparr>cbuf := db'\<rparr>) sid ds =
      Inr (g\<lparr>mp := mp'\<rparr>\<lparr>mp := mp''\<rparr>, c\<lparr>cbuf := db'\<rparr>\<lparr>cbuf := db''\<rparr>,
        map (forwarded (g\<lparr>mp := mp'\<rparr>) (c\<lparr>cbuf := db'\<rparr>)) (filter (\<lambda>p. p \<noteq> []) later)) \<and> bytes db'' = [] \<and> header db'' = 0"
    using Cons.prems m by (intro Cons.IH) auto
  then show ?case using m(1,2) by auto
qed

text \<open>C28: The gate cuts the byte stream of a connection into its packets, wherever the network
  cuts it: for every way of splitting the encoding of packets \<open>ps\<close> into received blocks, exactly the
  packets that are not empty are forwarded, complete and in order, and nothing stays in the
  buffer. (The connection has a destination for its packets, and fewer than \<open>2 ^ 31\<close> bytes arrive.)\<close>

theorem gate_framing:
  assumes "header_size g = 2 \<or> header_size g = 4" and "\<forall>p\<in>set ps. frame_ok (header_size g) p"
    and "has_target g c" and "cbuf c = databuffer_empty"
    and "concat ds = concat (map (frame (header_size g)) ps)" and "length (concat ds) < 2 ^ 31"
  shows "\<exists>g' c'. dispatch_chunks g c sid ds = Inr (g', c', map (forwarded g c) (filter (\<lambda>p. p \<noteq> []) ps)) \<and>
    bytes (cbuf c') = [] \<and> header (cbuf c') = 0"
proof -
  have l: "length (concat (map (frame h) ps)) = sum_list (map (\<lambda>p. length (frame h p)) ps)" for h
    by (simp add: length_concat comp_def)
  have "ps = []" if "ds = []" using that assms(1,5) by (cases ps) (auto simp: frame_def be_bytes_def)
  with assms l [of "header_size g"] have "\<exists>mp' db'. dispatch_chunks g c sid ds =
      Inr (g\<lparr>mp := mp'\<rparr>, c\<lparr>cbuf := db'\<rparr>, map (forwarded g c) (filter (\<lambda>p. p \<noteq> []) ps)) \<and> bytes db' = [] \<and> header db' = 0"
    by (intro dispatch_chunks_spec) (auto simp: databuffer_empty_def databuffer_inv_def unread_def bytes_def)
  then show ?thesis by auto
qed

theorem gate_framing_witness:
  "\<exists>g' c'. dispatch_chunks (gate_create\<lparr>header_size := 2, broker := 9\<rparr>) empty_connection 3 [[0], [1, 65, 0], [0]] =
     Inr (g', c', [Send 0 9 65536 1 [65]]) \<and> bytes (cbuf c') = [] \<and> header (cbuf c') = 0"
  using gate_framing [of "gate_create\<lparr>header_size := 2, broker := 9\<rparr>" "[[65], []]" empty_connection "[[0], [1, 65, 0], [0]]" 3]
  by (simp add: frame_ok_def has_target_def empty_connection_def frame_def be_bytes_def forwarded_def
      PTYPE_TAG_DONTCOPY_def gate_create_def)

section \<open>Lengths the header parser cannot represent\<close>

lemma be_header_negative:
  assumes "128 \<le> unat a"
  shows "be_header [a, b, c, d] 4 < 0"
proof -
  let ?w = "push_bit 24 (ucast a) OR push_bit 16 (ucast b) OR push_bit 8 (ucast c) OR ucast d :: 32 word"
  have "2 ^ 31 \<le> unat ?w" using unat_or4 [of a b c d] assms by simp
  from sint_large [OF this] show ?thesis by (simp add: be_header_def Let_def)
qed

lemma negative_header_stalls:
  assumes "databuffer_inv (cbuf c)" and "header (cbuf c) < 0" and "length (bytes (cbuf c)) + length (concat ds) < 2 ^ 31"
  shows "\<exists>g' c'. dispatch_chunks g c sid ds = Inr (g', c', []) \<and> bytes (cbuf c') = bytes (cbuf c) @ concat ds"
  using assms
proof (induction ds arbitrary: g c)
  case (Cons d ds)
  obtain db mp' where p: "databuffer_push (cbuf c) (mp g) d = (db, mp')" by fastforce
  have "length (bytes (cbuf c)) + length d < 2 ^ 31" using Cons.prems(3) by simp
  note ps = databuffer_push_spec [OF Cons.prems(1) this p]
  have sz: "size db = int (length (bytes db))" using ps(1) by (simp add: databuffer_inv_def)
  have "dispatch_message g c sid d = Inr (g\<lparr>mp := mp'\<rparr>, c\<lparr>cbuf := db\<rparr>, [])"
    using Cons.prems(2) ps(3) sz by (simp add: dispatch_message_def p databuffer_readheader_def Let_def)
  moreover have "\<exists>g' c'. dispatch_chunks (g\<lparr>mp := mp'\<rparr>) (c\<lparr>cbuf := db\<rparr>) sid ds = Inr (g', c', []) \<and>
      bytes (cbuf c') = bytes (cbuf (c\<lparr>cbuf := db\<rparr>)) @ concat ds"
    using Cons.prems ps by (intro Cons.IH) auto
  ultimately show ?case using ps(2) by auto
qed auto

text \<open>With 4 byte headers a length of \<open>2 ^ 31\<close> or more is a negative \<^verbatim>\<open>int\<close>. It passes neither
  the test for a complete packet nor the 16M limit: the connection is not closed, nothing is
  ever delivered from it again, and everything it sends is kept in memory.\<close>

lemma gate_huge_length_stalls:
  assumes "header_size g = 4" and "cbuf c = databuffer_empty" and "128 \<le> unat b0" and "length (concat ds) + 4 < 2 ^ 31"
  shows "\<exists>g' c'. dispatch_chunks g c sid ([b0, b1, b2, b3] # ds) = Inr (g', c', []) \<and> bytes (cbuf c') = concat ds"
proof -
  let ?d = "[b0, b1, b2, b3]"
  obtain db mp' where p: "databuffer_push (cbuf c) (mp g) ?d = (db, mp')" by fastforce
  have e: "databuffer_inv (cbuf c)" "bytes (cbuf c) = []" "header (cbuf c) = 0"
    using assms(2) by (simp_all add: databuffer_inv_def databuffer_empty_def bytes_def)
  have "length (bytes (cbuf c)) + length ?d < 2 ^ 31" by (simp add: e)
  note ps = databuffer_push_spec [OF e(1) this p]
  have b: "bytes db = ?d" "header db = 0" using ps e by simp_all
  have sz: "size db = 4" using ps(1) b by (simp add: databuffer_inv_def)
  obtain db1 mp1 where r: "databuffer_readheader db mp' 4 = Inr (db1, mp1, if size db1 < header db1 then -1 else header db1)"
    "databuffer_inv db1" "bytes db1 = []" "header db1 = be_header ?d 4"
    using readheader_spec [OF ps(1), of 4 mp'] b sz by auto
  have neg: "header db1 < 0" using be_header_negative [OF assms(3)] r(4) by simp
  have "dispatch_message g c sid ?d = Inr (g\<lparr>mp := mp1\<rparr>, c\<lparr>cbuf := db1\<rparr>, [])"
    using r neg assms(1) by (simp add: dispatch_message_def p Let_def)
  moreover have "\<exists>g' c'. dispatch_chunks (g\<lparr>mp := mp1\<rparr>) (c\<lparr>cbuf := db1\<rparr>) sid ds = Inr (g', c', []) \<and>
      bytes (cbuf c') = bytes (cbuf (c\<lparr>cbuf := db1\<rparr>)) @ concat ds"
    using r neg assms(4) by (intro negative_header_stalls) auto
  ultimately show ?thesis using r(3) by auto
qed

lemma gate_huge_length_stalls_witness:
  "\<exists>g' c'. dispatch_chunks (gate_create\<lparr>header_size := 4, broker := 9\<rparr>) empty_connection 3 ([255, 0, 0, 1] # [[65]]) =
     Inr (g', c', []) \<and> bytes (cbuf c') = [65]"
  using gate_huge_length_stalls [of "gate_create\<lparr>header_size := 4, broker := 9\<rparr>" empty_connection 255 "[[65]]" 3 0 0 1]
  by (simp add: empty_connection_def)

text \<open>A packet that arrives while a connection has no broker, agent or watchdog is not read from
  the buffer, but its header is dropped: its bytes are then taken for headers. Here the packet
  \<open>[0, 1]\<close> is not deliverable; after an agent is set, the packet \<open>[65]\<close> is not delivered and the garbage
  \<open>[0]\<close> is delivered in its place.\<close>

lemma gate_untargeted_desync:
  "case dispatch_message (gate_create\<lparr>header_size := 2\<rparr>) empty_connection 3 (frame 2 [0, 1]) of
     Inl _ \<Rightarrow> False
   | Inr (g, c, out) \<Rightarrow> out = [] \<and>
       (case dispatch_message g (c\<lparr>agent := 9\<rparr>) 3 (frame 2 [65]) of
          Inl _ \<Rightarrow> False | Inr (g', c', out') \<Rightarrow> out' = [Send 0 9 65536 1 [0]])"
  by code_simp

section \<open>The invariant of the service\<close>

text \<open>\<open>kept g c r\<close>: the operation ended, changed only buffer and pool, and lost no message node.\<close>

definition kept :: "gate \<Rightarrow> connection \<Rightarrow> (gate \<times> connection \<times> gate_effect list) res \<Rightarrow> bool" where
  "kept g c r \<longleftrightarrow> (\<exists>mp' db' out. r = Inr (g\<lparr>mp := mp'\<rparr>, c\<lparr>cbuf := db'\<rparr>, out) \<and> databuffer_inv db' \<and>
     pool mp' = pool (mp g) \<and> freelist mp' + length (msgs db') = freelist (mp g) + length (msgs (cbuf c)))"

lemma keptI:
  "databuffer_inv db \<Longrightarrow> pool mp' = pool (mp g) \<Longrightarrow>
    freelist mp' + length (msgs db) = freelist (mp g) + length (msgs (cbuf c)) \<Longrightarrow>
    kept g c (Inr (g\<lparr>mp := mp'\<rparr>, c\<lparr>cbuf := db\<rparr>, out))"
  unfolding kept_def by blast

lemma kept_trans:
  assumes "kept (g\<lparr>mp := mp1\<rparr>) (c\<lparr>cbuf := db1\<rparr>) r" and "pool mp1 = pool (mp g)"
    and "freelist mp1 + length (msgs db1) = freelist (mp g) + length (msgs (cbuf c))"
  shows "kept g c r" and "kept g c (andThen r (\<lambda>(g', c', out'). Inr (g', c', out @ out')))"
proof -
  from assms(1) obtain mp' db' o' where "r = Inr (g\<lparr>mp := mp'\<rparr>, c\<lparr>cbuf := db'\<rparr>, o')" "databuffer_inv db'"
    "pool mp' = pool mp1" "freelist mp' + length (msgs db') = freelist mp1 + length (msgs db1)"
    unfolding kept_def by auto
  then show "kept g c r" "kept g c (andThen r (\<lambda>(g', c', out'). Inr (g', c', out @ out')))"
    using assms(2,3) by (auto intro: keptI)
qed

lemma forward_safe:
  assumes inv: "databuffer_inv (cbuf c)" and n: "0 < n" "n \<le> length (bytes (cbuf c))"
  shows "\<exists>db mp' out. forward g c (int n) = Inr (g\<lparr>mp := mp'\<rparr>, c\<lparr>cbuf := db\<rparr>, out) \<and>
    databuffer_inv db \<and> length (bytes db) \<le> length (bytes (cbuf c)) \<and> pool mp' = pool (mp g) \<and>
    freelist mp' + length (msgs db) = freelist (mp g) + length (msgs (cbuf c))"
proof (cases "has_target g c")
  case True
  then show ?thesis using forward_spec [OF True inv n] by (metis length_drop diff_le_self)
next
  case False
  then show ?thesis using inv
    by (intro exI [of _ "cbuf c"] exI [of _ "mp g"] exI [of _ "[]"]) (simp add: forward_def has_target_def)
qed

lemma dispatch_loop_safe:
  assumes "databuffer_inv (cbuf c)" and "header_size g = 2 \<or> header_size g = 4"
    and "length (bytes (cbuf c)) + (if header (cbuf c) = 0 then 0 else 1) < fuel"
  shows "kept g c (dispatch_loop fuel g c sid)"
  using assms
proof (induction fuel arbitrary: g c)
  case (Suc fuel)
  let ?hsz = "header_size g"
  have hp: "0 < ?hsz" "2 \<le> nat ?hsz" using Suc.prems(2) by auto
  obtain db1 mp1 where rh: "databuffer_readheader (cbuf c) (mp g) ?hsz =
      Inr (db1, mp1, if header (cbuf c) = 0 \<and> size (cbuf c) < ?hsz \<or> size db1 < header db1 then -1 else header db1)"
    and db1: "databuffer_inv db1" "pool mp1 = pool (mp g)"
      "freelist mp1 + length (msgs db1) = freelist (mp g) + length (msgs (cbuf c))"
    and hd1: "if header (cbuf c) = 0 \<and> ?hsz \<le> size (cbuf c)
     then bytes db1 = drop (nat ?hsz) (bytes (cbuf c)) \<and> header db1 = be_header (take (nat ?hsz) (bytes (cbuf c))) ?hsz
     else db1 = cbuf c"
    using readheader_spec [OF Suc.prems(1) hp(1), of "mp g"] by blast
  have sz: "size (cbuf c) = int (length (bytes (cbuf c)))" "size db1 = int (length (bytes db1))"
    using Suc.prems(1) db1(1) by (simp_all add: databuffer_inv_def)
  let ?g1 = "g\<lparr>mp := mp1\<rparr>" let ?c1 = "c\<lparr>cbuf := db1\<rparr>"
  show ?case
  proof (cases "header (cbuf c) = 0 \<and> size (cbuf c) < ?hsz \<or> size db1 < header db1 \<or> header db1 < 0")
    case True
    then have "dispatch_loop (Suc fuel) g c sid = Inr (?g1, ?c1, [])" by (auto simp: rh)
    with keptI [OF db1] show ?thesis by simp
  next
    case False
    have less: "length (bytes db1) < fuel"
      using hd1 hp(2) sz False Suc.prems(3) by (auto split: if_splits)
    show ?thesis
    proof (cases "header db1 = 0")
      case True
      then have "dispatch_loop (Suc fuel) g c sid = dispatch_loop fuel ?g1 ?c1 sid" using False by (auto simp: rh)
      moreover have "kept ?g1 ?c1 (dispatch_loop fuel ?g1 ?c1 sid)"
        using Suc.prems db1 less True by (intro Suc.IH) auto
      ultimately show ?thesis using kept_trans(1) [OF _ db1(2,3)] by simp
    next
      case nz: False
      then obtain n where n: "header db1 = int n" "0 < n" "n \<le> length (bytes db1)"
        using False sz(2) by (cases "header db1") auto
      show ?thesis
      proof (cases "16777216 \<le> int n")
        case True
        then have "dispatch_loop (Suc fuel) g c sid =
            Inr (g\<lparr>mp := mp1\<lparr>freelist := freelist mp1 + length (msgs db1)\<rparr>\<rparr>, c\<lparr>cbuf := databuffer_empty\<rparr>,
              [Socket_close sid, Log ''Recv socket message > 16M''])"
          using False n by (simp add: rh databuffer_clear_def Let_def)
        moreover have "databuffer_inv databuffer_empty"
          by (simp add: databuffer_inv_def databuffer_empty_def bytes_def)
        ultimately show ?thesis using db1 by (auto intro!: keptI simp: databuffer_empty_def)
      next
        case small: False
        have c1: "databuffer_inv (cbuf ?c1)" "n \<le> length (bytes (cbuf ?c1))" using db1 n by simp_all
        obtain db mp' out where f: "forward ?g1 ?c1 (int n) = Inr (g\<lparr>mp := mp'\<rparr>, c\<lparr>cbuf := db\<rparr>, out)"
          "databuffer_inv db" "length (bytes db) \<le> length (bytes db1)" "pool mp' = pool mp1"
          "freelist mp' + length (msgs db) = freelist mp1 + length (msgs db1)"
          using forward_safe [OF c1(1) n(2) c1(2), of ?g1] by auto
        let ?g2 = "g\<lparr>mp := mp'\<rparr>" let ?c2 = "c\<lparr>cbuf := databuffer_reset db\<rparr>"
        have run: "dispatch_loop (Suc fuel) g c sid =
            andThen (dispatch_loop fuel ?g2 ?c2 sid) (\<lambda>(g', c', out'). Inr (g', c', out @ out'))"
          using False n small f(1) by (auto simp: rh Let_def split: prod.split)
        have "kept ?g2 ?c2 (dispatch_loop fuel ?g2 ?c2 sid)"
          using Suc.prems(2) f less by (intro Suc.IH) auto
        from kept_trans(2) [OF this] show ?thesis unfolding run using f(4,5) db1 by simp
      qed
    qed
  qed
qed simp

lemma dispatch_message_safe:
  assumes inv: "databuffer_inv (cbuf c)" and h: "header_size g = 2 \<or> header_size g = 4"
    and l: "length (bytes (cbuf c)) + length d < 2 ^ 31"
    and pi: "pool_inv (mp g) (length (msgs (cbuf c)) + k)"
  shows "\<exists>mp' db' out. dispatch_message g c sid d = Inr (g\<lparr>mp := mp'\<rparr>, c\<lparr>cbuf := db'\<rparr>, out) \<and>
    databuffer_inv db' \<and> pool_inv mp' (length (msgs db') + k)"
proof -
  obtain db mp1 where p: "databuffer_push (cbuf c) (mp g) d = (db, mp1)" by fastforce
  note ps = databuffer_push_spec [OF inv l p]
  let ?g = "g\<lparr>mp := mp1\<rparr>" let ?c = "c\<lparr>cbuf := db\<rparr>"
  have "kept ?g ?c (dispatch_loop (length (bytes db) + 2) ?g ?c sid)"
    using ps h by (intro dispatch_loop_safe) auto
  then obtain mp' db' out where "dispatch_loop (length (bytes db) + 2) ?g ?c sid = Inr (g\<lparr>mp := mp'\<rparr>, c\<lparr>cbuf := db'\<rparr>, out)"
    "databuffer_inv db'" "pool mp' = pool mp1" "freelist mp' + length (msgs db') = freelist mp1 + length (msgs db)"
    unfolding kept_def by auto
  moreover have "pool_inv mp1 (length (msgs db) + k)" using ps(4) [OF pi] ps(5) by simp
  ultimately show ?thesis
    by (intro exI [of _ mp'] exI [of _ db'] exI [of _ out])
      (simp add: dispatch_message_def p pool_inv_def del: dispatch_loop.simps)
qed

text \<open>
  The table of connections and the id table agree, every buffer is well formed, and every message
  node is in a buffer or in the free list of the pool.
\<close>

definition nodes :: "connection list \<Rightarrow> nat" where
  "nodes cs = sum_list (map (\<lambda>c. length (msgs (cbuf c))) cs)"

definition gate_inv :: "gate \<Rightarrow> bool" where
  "gate_inv g \<longleftrightarrow>
     hashid_inv (ghash g) \<and> cap (ghash g) = int (length (conn g)) \<and> (header_size g = 2 \<or> header_size g = 4) \<and>
     (\<forall>i s. hashid_map (ghash g) i = Some s \<longrightarrow> cid (conn g ! s) = i) \<and>
     (\<forall>s<length (conn g). s \<notin> ran (hashid_map (ghash g)) \<longrightarrow> conn g ! s = empty_connection) \<and>
     (\<forall>i j s. hashid_map (ghash g) i = Some s \<longrightarrow> hashid_map (ghash g) j = Some s \<longrightarrow> i = j) \<and>
     (\<forall>s<length (conn g). databuffer_inv (cbuf (conn g ! s))) \<and>
     pool_inv (mp g) (nodes (conn g))"

text \<open>
  The messages for which the gate is shown to be safe. The socket layer guarantees that ids are not negative and that the id of a new
  connection is not in use. It does not guarantee the two bounds, which exclude defects of the code: a connection holds fewer than
  \<open>2 ^ 31\<close> bytes (a client that announces a negative length makes the gate keep everything it sends, see
  \<open>gate_huge_length_stalls\<close>), and the id of a new connection plus the size of the id table is at most \<open>2 ^ 31\<close> (part of \<open>hashid_ok\<close>; the ids of
  the socket layer run up to \<open>2 ^ 31 - 1\<close>, see \<open>hashid_insert_overflow\<close>).
\<close>

definition admissible :: "gate \<Rightarrow> skynet_socket_message \<Rightarrow> bool" where
  "admissible g m \<longleftrightarrow> 0 \<le> sm_id m \<and>
     (sm_type m = SOCKET_TYPE_DATA \<longrightarrow>
        (\<forall>s. hashid_map (ghash g) (sm_id m) = Some s \<longrightarrow>
           length (bytes (cbuf (conn g ! s))) + length (sm_buffer m) < 2 ^ 31)) \<and>
     (sm_type m = SOCKET_TYPE_ACCEPT \<longrightarrow>
        sm_id m = listen_id g \<and> hashid_ok (ghash g) (sm_ud m) \<and> hashid_map (ghash g) (sm_ud m) = None)"

lemma nodes_update:
  "s < length cs \<Longrightarrow> nodes (cs[s := c]) + length (msgs (cbuf (cs ! s))) = nodes cs + length (msgs (cbuf c))"
proof (induction cs arbitrary: s)
  case (Cons a cs)
  then show ?case by (cases s) (auto simp: nodes_def)
qed simp

lemma slot_result_nonneg: "0 \<le> slot_result r \<longleftrightarrow> (\<exists>s. r = Some s \<and> slot_result r = int s)"
  by (cases r) (simp_all add: slot_result_def)

lemma gate_slot:
  assumes "gate_inv g" and "hashid_map (ghash g) i = Some s"
  shows "s < length (conn g)" and "cid (conn g ! s) = i" and "databuffer_inv (cbuf (conn g ! s))"
proof -
  show s: "s < length (conn g)" using hashid_map_bound [OF _ assms(2)] assms(1) by (simp add: gate_inv_def)
  show "cid (conn g ! s) = i" "databuffer_inv (cbuf (conn g ! s))" using assms s by (simp_all add: gate_inv_def)
qed

lemma gate_lookup:
  "gate_inv g \<Longrightarrow> 0 \<le> i \<Longrightarrow> hashid_lookup (ghash g) i = Inr (slot_result (hashid_map (ghash g) i))"
  by (simp add: hashid_lookup_spec gate_inv_def)

lemma socket_data_ok:
  assumes inv: "gate_inv g" and m: "admissible g m" and ty: "sm_type m = SOCKET_TYPE_DATA"
  shows "\<exists>g' out. socket_data g m = Inr (g', out) \<and> gate_inv g' \<and> ghash g' = ghash g \<and>
    (\<forall>s. hashid_map (ghash g) (sm_id m) \<noteq> Some s \<longrightarrow> conn g' ! s = conn g ! s)"
proof (cases "hashid_map (ghash g) (sm_id m)")
  case None
  then show ?thesis using inv gate_lookup [OF inv, of "sm_id m"] m
    by (auto simp: socket_data_def slot_result_def admissible_def)
next
  case (Some s)
  note sl = gate_slot [OF inv Some]
  have h: "header_size g = 2 \<or> header_size g = 4" and pl: "pool_inv (mp g) (nodes (conn g))"
    using inv by (simp_all add: gate_inv_def)
  define k where "k = nodes (conn g) - length (msgs (cbuf (conn g ! s)))"
  have "length (msgs (cbuf (conn g ! s))) \<le> nodes (conn g)"
    using nodes_update [OF sl(1), of empty_connection] by (simp add: empty_connection_def databuffer_empty_def)
  then have k: "nodes (conn g) = length (msgs (cbuf (conn g ! s))) + k" by (simp add: k_def)
  have b: "length (bytes (cbuf (conn g ! s))) + length (sm_buffer m) < 2 ^ 31"
    using m ty Some by (simp add: admissible_def)
  obtain mp' db' out where d: "dispatch_message g (conn g ! s) (sm_id m) (sm_buffer m) =
      Inr (g\<lparr>mp := mp'\<rparr>, (conn g ! s)\<lparr>cbuf := db'\<rparr>, out)" "databuffer_inv db'" "pool_inv mp' (length (msgs db') + k)"
    using dispatch_message_safe [OF sl(3) h b, of k "sm_id m"] pl k by auto
  let ?c = "(conn g ! s)\<lparr>cbuf := db'\<rparr>"
  let ?g = "g\<lparr>mp := mp', conn := (conn g)[s := ?c]\<rparr>"
  have "socket_data g m = Inr (?g, out)"
    using gate_lookup [OF inv, of "sm_id m"] m Some d(1) by (simp add: socket_data_def admissible_def slot_result_def)
  moreover have "nodes (conn ?g) = length (msgs db') + k"
    using nodes_update [OF sl(1), of ?c] k by simp
  then have "gate_inv ?g" using inv d(2,3) sl Some
    by (auto simp: gate_inv_def nth_list_update ran_def)
  ultimately show ?thesis using Some by auto
qed

lemma socket_close_ok:
  assumes inv: "gate_inv g" and m: "0 \<le> sm_id m"
  shows "\<exists>g' out. socket_close_msg g m = Inr (g', out) \<and> gate_inv g' \<and>
    hashid_map (ghash g') = (hashid_map (ghash g))(sm_id m := None)"
proof -
  have hi: "hashid_inv (ghash g)" using inv by (simp add: gate_inv_def)
  obtain h where h: "hashid_remove (ghash g) (sm_id m) = Inr (h, slot_result (hashid_map (ghash g) (sm_id m)))"
    "hashid_inv h" "hashid_map h = (hashid_map (ghash g))(sm_id m := None)" "cap h = cap (ghash g)"
    using hashid_remove_spec [OF hi m] by blast
  show ?thesis
  proof (cases "hashid_map (ghash g) (sm_id m)")
    case None
    then have "socket_close_msg g m = Inr (g\<lparr>ghash := h\<rparr>, [])" by (simp add: socket_close_msg_def h(1) slot_result_def)
    moreover have "hashid_map h = hashid_map (ghash g)" using h(3) None by (simp add: fun_upd_idem)
    then have "gate_inv (g\<lparr>ghash := h\<rparr>)" using inv h(2,4) by (simp add: gate_inv_def)
    ultimately show ?thesis using h(3) by auto
  next
    case (Some s)
    note sl = gate_slot [OF inv Some]
    let ?mp = "(mp g)\<lparr>freelist := freelist (mp g) + length (msgs (cbuf (conn g ! s)))\<rparr>"
    let ?g = "g\<lparr>ghash := h, mp := ?mp, conn := (conn g)[s := empty_connection]\<rparr>"
    have run: "socket_close_msg g m = Inr (?g, report g (show_int (sm_id m) @ text_bytes '' close''))"
      by (simp add: socket_close_msg_def h(1) Some slot_result_def databuffer_clear_def)
    have u: "i = sm_id m" if "hashid_map (ghash g) i = Some s" for i
      using that Some inv unfolding gate_inv_def by blast
    have e: "databuffer_inv databuffer_empty" by (simp add: databuffer_inv_def databuffer_empty_def bytes_def)
    have n: "nodes (conn ?g) + length (msgs (cbuf (conn g ! s))) = nodes (conn g)"
      using nodes_update [OF sl(1), of empty_connection] by (simp add: empty_connection_def databuffer_empty_def)
    have "conn ?g ! t = empty_connection" if t: "t < length (conn g)" "t \<notin> ran (hashid_map h)" for t
    proof (cases "t = s")
      case True
      then show ?thesis using sl(1) by simp
    next
      case False
      have "t \<notin> ran (hashid_map (ghash g))"
      proof
        assume "t \<in> ran (hashid_map (ghash g))"
        then obtain i where i: "hashid_map (ghash g) i = Some t" by (auto simp: ran_def)
        then have "i \<noteq> sm_id m" using Some False by auto
        with i h(3) have "hashid_map h i = Some t" by simp
        with t(2) show False by (simp add: ranI)
      qed
      then show ?thesis using inv t(1) False by (simp add: gate_inv_def)
    qed
    moreover have "cid (conn ?g ! t) = i" if "hashid_map h i = Some t" for i t
    proof -
      from that h(3) have i: "i \<noteq> sm_id m" "hashid_map (ghash g) i = Some t" by (auto split: if_splits)
      then have "t \<noteq> s" using u by auto
      with gate_slot(2) [OF inv i(2)] show ?thesis by simp
    qed
    moreover have "databuffer_inv (cbuf (conn ?g ! t))" if "t < length (conn g)" for t
      using that inv e by (cases "t = s") (simp_all add: gate_inv_def empty_connection_def)
    moreover have "pool_inv ?mp (nodes (conn ?g))"
      using n inv by (simp add: gate_inv_def pool_inv_def)
    moreover have "\<forall>i j t. hashid_map h i = Some t \<longrightarrow> hashid_map h j = Some t \<longrightarrow> i = j"
      using inv unfolding gate_inv_def h(3) by (auto split: if_splits)
    ultimately have "gate_inv ?g" using h(2,4) inv by (simp add: gate_inv_def)
    with run h(3) show ?thesis by auto
  qed
qed

lemma socket_accept_ok:
  assumes inv: "gate_inv g" and m: "sm_id m = listen_id g" "hashid_ok (ghash g) (sm_ud m)"
    "hashid_map (ghash g) (sm_ud m) = None"
  shows "\<exists>g' out. socket_accept g m = Inr (g', out) \<and> gate_inv g' \<and>
    (hashid_full (ghash g) \<and> g' = g \<and> out = [Socket_close (sm_ud m)] \<or>
     (\<exists>s. hashid_map (ghash g') = (hashid_map (ghash g))(sm_ud m \<mapsto> s)))"
proof (cases "hashid_full (ghash g)")
  case True
  then show ?thesis using inv m by (simp add: socket_accept_def)
next
  case False
  have hi: "hashid_inv (ghash g)" and cp: "cap (ghash g) = int (length (conn g))"
    using inv by (simp_all add: gate_inv_def)
  obtain h s where h: "hashid_insert (ghash g) (sm_ud m) = Inr (h, int s)" "hashid_inv h"
    "hashid_map h = (hashid_map (ghash g))(sm_ud m \<mapsto> s)" "s \<notin> ran (hashid_map (ghash g))"
    "s < nat (cap (ghash g))" "cap h = cap (ghash g)"
    using hashid_insert_spec [OF hi m(2,3) False] by blast
  have s: "s < length (conn g)" using h(5) cp by simp
  then have e: "conn g ! s = empty_connection" using inv h(4) by (simp add: gate_inv_def)
  let ?c = "(conn g ! s)\<lparr>cid := sm_ud m, remote_name := take 31 (sm_tail m)\<rparr>"
  let ?g = "g\<lparr>ghash := h, conn := (conn g)[s := ?c]\<rparr>"
  obtain out where run: "socket_accept g m = Inr (?g, out)"
    using False m h(1) by (simp add: socket_accept_def Let_def)
  have n: "nodes (conn ?g) = nodes (conn g)" using nodes_update [OF s, of ?c] by simp
  have ns: "t \<noteq> s" if "hashid_map (ghash g) i = Some t" for i t using that h(4) by (auto simp: ran_def)
  have "cid (conn ?g ! t) = i" if "hashid_map h i = Some t" for i t
    using that h(3) s gate_slot(2) [OF inv, of i t] ns [of i t] by (auto split: if_splits)
  moreover have "conn ?g ! t = empty_connection" if t: "t < length (conn g)" "t \<notin> ran (hashid_map h)" for t
  proof -
    have "hashid_map h (sm_ud m) = Some s" using h(3) by simp
    then have "t \<noteq> s" using t(2) by (auto intro: ranI)
    moreover have "t \<notin> ran (hashid_map (ghash g))"
    proof
      assume "t \<in> ran (hashid_map (ghash g))"
      then obtain i where i: "hashid_map (ghash g) i = Some t" by (auto simp: ran_def)
      with m(3) have "hashid_map h i = Some t" unfolding h(3) by auto
      with t(2) show False by (simp add: ranI)
    qed
    ultimately show ?thesis using inv t(1) by (simp add: gate_inv_def)
  qed
  moreover have "\<forall>i j t. hashid_map h i = Some t \<longrightarrow> hashid_map h j = Some t \<longrightarrow> i = j"
    using inv ns unfolding gate_inv_def h(3) by (auto split: if_splits)
  moreover have "databuffer_inv (cbuf (conn ?g ! t))" if "t < length (conn g)" for t
    using that inv s by (cases "t = s") (simp_all add: gate_inv_def)
  ultimately have "gate_inv ?g" using h(2,6) inv n by (simp add: gate_inv_def)
  with run h(3) show ?thesis by auto
qed

lemma dispatch_socket_message_ok:
  assumes inv: "gate_inv g" and m: "admissible g m"
  shows "\<exists>g' out. dispatch_socket_message g m = Inr (g', out) \<and> gate_inv g'"
proof -
  have i: "0 \<le> sm_id m" using m by (simp add: admissible_def)
  note tys = SOCKET_TYPE_DATA_def SOCKET_TYPE_CONNECT_def SOCKET_TYPE_CLOSE_def SOCKET_TYPE_ACCEPT_def
    SOCKET_TYPE_ERROR_def SOCKET_TYPE_WARNING_def
  consider "sm_type m = SOCKET_TYPE_DATA" | "sm_type m = SOCKET_TYPE_CONNECT"
    | "sm_type m = SOCKET_TYPE_CLOSE \<or> sm_type m = SOCKET_TYPE_ERROR" | "sm_type m = SOCKET_TYPE_ACCEPT"
    | "sm_type m \<notin> {SOCKET_TYPE_DATA, SOCKET_TYPE_CONNECT, SOCKET_TYPE_CLOSE, SOCKET_TYPE_ERROR, SOCKET_TYPE_ACCEPT}"
    by blast
  then show ?thesis
  proof cases
    case 1
    then show ?thesis using socket_data_ok [OF inv m 1] by (auto simp: dispatch_socket_message_def)
  next
    case 2
    then show ?thesis using inv gate_lookup [OF inv i]
      by (auto simp: dispatch_socket_message_def tys socket_connect_def)
  next
    case 3
    then show ?thesis using socket_close_ok [OF inv i] by (auto simp: dispatch_socket_message_def tys)
  next
    case 4
    then show ?thesis using socket_accept_ok [OF inv, of m] m
      by (auto simp: dispatch_socket_message_def tys admissible_def)
  next
    case 5
    then show ?thesis using inv by (simp add: dispatch_socket_message_def)
  qed
qed

inductive gate_step :: "gate \<Rightarrow> gate \<Rightarrow> bool" where
  "admissible g m \<Longrightarrow> dispatch_socket_message g m = Inr (g', out) \<Longrightarrow> gate_step g g'"

lemma gate_step_inv: "gate_step g g' \<Longrightarrow> gate_inv g \<Longrightarrow> gate_inv g'"
  by (induction rule: gate_step.induct) (use dispatch_socket_message_ok in fastforce)

lemma gate_init_inv:
  assumes "gate_init q l gate_create (Some ps) = Inr (g, out, 0)"
    and "\<exists>h w b t mx. scan_parm ps = Some (h, w, b, t, mx) \<and> mx \<le> 2 ^ 30"
  shows "gate_inv g"
proof -
  from assms(2) obtain h w b t mx where p: "scan_parm ps = Some (h, w, b, t, mx)" "mx \<le> 2 ^ 30" by blast
  then have mx: "0 < mx" using assms(1) by (auto simp: gate_init_def split: if_splits)
  obtain hi where hi: "hashid_init mx = Inr hi" "hashid_inv hi" "\<forall>i. hashid_map hi i = None" "cap hi = mx"
    using hashid_init_inv [OF mx p(2)] by blast
  have sl: "start_listen l g1 b = (g, out, 0) \<Longrightarrow> \<exists>x. g = g1\<lparr>listen_id := x\<rparr>" for g1
    by (auto simp: start_listen_def Let_def split: if_splits)
  from assms(1) p(1) hi(1) mx obtain x wd where
    "g = gate_create\<lparr>watchdog := wd, ghash := hi, conn := replicate (nat mx) empty_connection, max_connection := mx,
        client_tag := if t = 0 then PTYPE_CLIENT else t, header_size := if h = 83 then 2 else 4, listen_id := x\<rparr>"
    by (auto simp: gate_init_def Let_def split: if_splits dest!: sl)
  moreover have "databuffer_inv databuffer_empty" by (simp add: databuffer_inv_def databuffer_empty_def bytes_def)
  ultimately show ?thesis using hi(2-4) mx
    by (simp add: gate_inv_def empty_connection_def nodes_def pool_inv_def gate_create_def databuffer_empty_def sum_list_replicate)
qed

text \<open>C29: Whatever the clients send and whenever they connect and disconnect, as long as no connection holds \<open>2 ^ 31\<close> or more
  bytes that have not been forwarded and the ids of connections plus the size of the id table stay within \<open>2 ^ 31\<close>, the gate never fails
  an assertion, indexes outside its tables, dereferences a dangling node or loops: every such
  message of the socket layer is processed. The connection found for an id is the one that was accepted with it, no
  other connection shares its slot, and no message node is ever lost from the pool.\<close>

theorem gate_safe:
  assumes start: "gate_init q l gate_create (Some ps) = Inr (g0, out0, 0)"
    "\<exists>h w b t mx. scan_parm ps = Some (h, w, b, t, mx) \<and> mx \<le> 2 ^ 30"
    and run: "reachable g0 gate_step g" and m: "admissible g m"
  shows "(\<exists>g' out. dispatch_socket_message g m = Inr (g', out)) \<and>
    (\<forall>i s. hashid_map (ghash g) i = Some s \<longrightarrow> s < length (conn g) \<and> cid (conn g ! s) = i) \<and>
    freelist (mp g) + nodes (conn g) = MESSAGEPOOL * pool (mp g)"
proof -
  have "safety g0 gate_step gate_inv"
    using gate_init_inv [OF start] gate_step_inv by unfold_locales
  then have inv: "gate_inv g" using run by (rule safety.reachable_inv)
  then show ?thesis using dispatch_socket_message_ok [OF inv m] gate_slot [OF inv]
    by (auto simp: gate_inv_def pool_inv_def)
qed

theorem gate_safe_witness:
  "case gate_init (\<lambda>s. 0) (\<lambda>h p b. 7) gate_create (Some (text_bytes ''S ! :80 0 4'')) of
     Inl _ \<Rightarrow> False
   | Inr (g, out, r) \<Rightarrow> \<exists>g' out'. dispatch_socket_message g
       \<lparr>sm_type = 4, sm_id = 7, sm_ud = 5, sm_buffer = [], sm_tail = []\<rparr> = Inr (g', out')"
proof -
  let ?ps = "text_bytes ''S ! :80 0 4''"
  let ?i = "gate_init (\<lambda>s. 0) (\<lambda>h p b. 7) gate_create (Some ?ps)"
  let ?m = "\<lparr>sm_type = 4, sm_id = 7, sm_ud = 5, sm_buffer = [], sm_tail = []\<rparr>"
  have e: "case ?i of Inl _ \<Rightarrow> False | Inr (g, out, r) \<Rightarrow> r = 0 \<and> listen_id g = 7 \<and> cap (ghash g) = 4 \<and>
      hashid_map (ghash g) 5 = None" by code_simp
  then obtain g out where g: "?i = Inr (g, out, 0)" "listen_id g = 7" "cap (ghash g) = 4" "hashid_map (ghash g) 5 = None"
    by (auto split: sum.splits)
  have s: "scan_parm ?ps = Some (83, [33], [58, 56, 48], 0, 4)" by code_simp
  have a: "admissible g ?m"
    using g(2-4) by (simp add: admissible_def hashid_ok_def SOCKET_TYPE_DATA_def)
  have "\<exists>g' out'. dispatch_socket_message g ?m = Inr (g', out')"
    using gate_safe [OF g(1) _ reachable.start a] s by auto
  with g(1) show ?thesis by simp
qed

end
