(* ===== verification/NetPack.thy ===== *)
theory NetPack
  imports Engine
begin

text \<open>
  Model of \<^verbatim>\<open>lualib-src/lua-netpack.c\<close>: the Lua library that cuts the byte streams of sockets into packages with
  a two byte length. Incomplete packages wait in a hash table of chains, complete ones in a growing
  ring buffer.

  The user data at index 1 of the Lua stack is an optional queue. A chain of the hash table is a list; memory that
  \<^verbatim>\<open>malloc\<close> returned is a list of optional bytes, and a read or write outside of a block is a fault.

  Proved: the ring buffer is a first-in first-out queue; the table keeps one waiting package per socket; every
  event delivers exactly the packages that the bytes received so far complete, however the stream is
  cut into events and however the sockets interleave; packages written by \<open>lpack\<close> come out
  again.
\<close>

section \<open>State\<close>

definition QUEUESIZE :: nat where "QUEUESIZE = 1024"
definition HASHSIZE :: nat where "HASHSIZE = 4096"

type_synonym block = "u8 option list"

record netpack =
  np_id :: int
  np_size :: int
  np_buffer :: block

record uncomplete =
  pack :: netpack
  uc_read :: int
  uc_header :: int

record queue =
  qcap :: nat
  qhead :: nat
  qtail :: nat
  qhash :: "uncomplete list list"
  qqueue :: "netpack option list"

text \<open>Copying bytes into a block.\<close>

definition memcpy_block :: "block \<Rightarrow> nat \<Rightarrow> u8 list \<Rightarrow> block res" where
  "memcpy_block b off bs =
     (if off + length bs \<le> length b then Inr (take off b @ map Some bs @ drop (off + length bs) b) else Inl Out_of_range)"

section \<open>Operations\<close>

text \<open>The buffers that are freed are returned.\<close>

definition clear_list :: "uncomplete list \<Rightarrow> block list" where
  "clear_list uc = map (\<lambda>u. np_buffer (pack u)) uc"

fun clear_ring :: "queue \<Rightarrow> nat \<Rightarrow> nat \<Rightarrow> block list res" where
  "clear_ring q i 0 = Inr []"
| "clear_ring q i (Suc n) =
     andThen (read_cell (qqueue q) (i mod qcap q)) (\<lambda>np.
       andThen (clear_ring q (i + 1) n) (\<lambda>bs. Inr (np_buffer np # bs)))"

definition lclear :: "queue option \<Rightarrow> (queue option \<times> block list) res" where
  "lclear l =
     (case l of
        None \<Rightarrow> Inr (None, [])
      | Some q \<Rightarrow>
          let freed = concat (map clear_list (qhash q));
              tail = (if qhead q > qtail q then qtail q + qcap q else qtail q)
          in andThen (clear_ring q (qhead q) (tail - qhead q)) (\<lambda>bs.
               Inr (Some (q\<lparr>qhash := replicate HASHSIZE [], qhead := 0, qtail := 0\<rparr>), freed @ bs)))"

definition hash_fd :: "int \<Rightarrow> nat" where
  "hash_fd fd = (let a = drop_bit 24 fd; b = drop_bit 12 fd; c = fd
     in unat (word_of_int (a + b + c) :: u32) mod HASHSIZE)"

fun unlink :: "uncomplete list \<Rightarrow> int \<Rightarrow> uncomplete list \<times> uncomplete option" where
  "unlink [] fd = ([], None)"
| "unlink (u # us) fd =
     (if np_id (pack u) = fd then (us, Some u)
      else let (us', r) = unlink us fd in (u # us', r))"

definition find_uncomplete :: "queue option \<Rightarrow> int \<Rightarrow> queue option \<times> uncomplete option" where
  "find_uncomplete l fd =
     (case l of
        None \<Rightarrow> (None, None)
      | Some q \<Rightarrow>
          let h = hash_fd fd; (us, r) = unlink (qhash q ! h) fd
          in (Some (q\<lparr>qhash := (qhash q)[h := us]\<rparr>), r))"

definition get_queue :: "queue option \<Rightarrow> queue" where
  "get_queue l =
     (case l of
        None \<Rightarrow> \<lparr>qcap = QUEUESIZE, qhead = 0, qtail = 0, qhash = replicate HASHSIZE [], qqueue = replicate QUEUESIZE None\<rparr>
      | Some q \<Rightarrow> q)"

definition expand_ring :: "queue \<Rightarrow> queue" where
  "expand_ring q =
     \<lparr>qcap = qcap q + QUEUESIZE, qhead = 0, qtail = qcap q, qhash = qhash q,
      qqueue = map (\<lambda>i. qqueue q ! ((qhead q + i) mod qcap q)) [0..<qcap q] @ replicate QUEUESIZE None\<rparr>"

text \<open>A package is pushed with its block; when \<open>clone\<close> is set in the source the block is a fresh copy.\<close>

definition push_data :: "queue option \<Rightarrow> int \<Rightarrow> block \<Rightarrow> int \<Rightarrow> queue option res" where
  "push_data l fd buf sz =
     (let q = get_queue l in
      andThen (write_cell (qqueue q) (qtail q) \<lparr>np_id = fd, np_size = sz, np_buffer = buf\<rparr>) (\<lambda>c.
        let t = qtail q + 1;
            q = q\<lparr>qqueue := c, qtail := if t \<ge> qcap q then t - qcap q else t\<rparr>
        in Inr (Some (if qhead q = qtail q then expand_ring q else q))))"

text \<open>The chain of a socket gets a new head, which is then filled by the caller.\<close>

definition save_uncomplete :: "queue option \<Rightarrow> int \<Rightarrow> (uncomplete \<Rightarrow> uncomplete) \<Rightarrow> queue option" where
  "save_uncomplete l fd fill =
     (let q = get_queue l; h = hash_fd fd;
          uc = \<lparr>pack = \<lparr>np_id = fd, np_size = 0, np_buffer = []\<rparr>, uc_read = 0, uc_header = 0\<rparr>
      in Some (q\<lparr>qhash := (qhash q)[h := fill uc # qhash q ! h]\<rparr>))"

definition read_size :: "u8 \<Rightarrow> u8 \<Rightarrow> nat" where
  "read_size b0 b1 = unat (push_bit 8 (ucast b0) OR ucast b1 :: u32)"

definition save_header :: "queue option \<Rightarrow> int \<Rightarrow> u8 \<Rightarrow> queue option" where
  "save_header l fd b = save_uncomplete l fd (\<lambda>uc. uc\<lparr>uc_read := -1, uc_header := uint b\<rparr>)"

definition save_partial :: "queue option \<Rightarrow> int \<Rightarrow> nat \<Rightarrow> u8 list \<Rightarrow> queue option res" where
  "save_partial l fd pack_size bs =
     andThen (memcpy_block (replicate pack_size None) 0 bs) (\<lambda>buf.
       Inr (save_uncomplete l fd (\<lambda>uc. uc\<lparr>uc_read := int (length bs),
         pack := (pack uc)\<lparr>np_size := int pack_size, np_buffer := buf\<rparr>\<rparr>)))"

function push_more :: "queue option \<Rightarrow> int \<Rightarrow> u8 list \<Rightarrow> queue option res" where
  "push_more l fd bs =
     (case bs of
        [] \<Rightarrow> Inl Out_of_range
      | [b] \<Rightarrow> Inr (save_header l fd b)
      | b0 # b1 # r \<Rightarrow>
          let pack_size = read_size b0 b1 in
          if length r < pack_size then save_partial l fd pack_size r
          else andThen (push_data l fd (map Some (take pack_size r)) (int pack_size)) (\<lambda>l.
                 let r' = drop pack_size r in if length r' > 0 then push_more l fd r' else Inr l))"
  by pat_completeness auto
termination by (relation "measure (\<lambda>(l, fd, bs). length bs)") auto

declare push_more.simps [simp del]

definition close_uncomplete :: "queue option \<Rightarrow> int \<Rightarrow> queue option" where
  "close_uncomplete l fd = fst (find_uncomplete l fd)"

text \<open>What \<open>lfilter\<close> returns beside the queue.\<close>

datatype filter_result =
    Nothing
  | Data int block int
  | More
  | Error int "u8 list"
  | Open int "u8 list"
  | Close int
  | Warning int int

text \<open>The branch of \<open>filter_data_\<close> that continues a waiting package: the second byte of its length, and the data.\<close>

definition read_header :: "uncomplete \<Rightarrow> u8 list \<Rightarrow> (uncomplete \<times> u8 list) res" where
  "read_header uc bs =
     (if uc_read uc < 0 then
        andThen (assert_that (uc_read uc = -1)) (\<lambda>_.
          case bs of
            [] \<Rightarrow> Inl Out_of_range
          | b # bs' \<Rightarrow>
              let pack_size = uint b OR push_bit 8 (uc_header uc)
              in Inr (uc\<lparr>pack := (pack uc)\<lparr>np_size := pack_size, np_buffer := replicate (nat pack_size) None\<rparr>, uc_read := 0\<rparr>, bs'))
      else Inr (uc, bs))"

definition fill_data :: "queue option \<Rightarrow> int \<Rightarrow> uncomplete \<Rightarrow> u8 list \<Rightarrow> (queue option \<times> filter_result) res" where
  "fill_data l fd uc bs =
     (let need = nat (np_size (pack uc) - uc_read uc) in
      if length bs < need then
        andThen (memcpy_block (np_buffer (pack uc)) (nat (uc_read uc)) bs) (\<lambda>buf.
          let uc = uc\<lparr>pack := (pack uc)\<lparr>np_buffer := buf\<rparr>, uc_read := uc_read uc + int (length bs)\<rparr>; h = hash_fd fd
          in Inr (map_option (\<lambda>q. q\<lparr>qhash := (qhash q)[h := uc # qhash q ! h]\<rparr>) l, Nothing))
      else
        andThen (memcpy_block (np_buffer (pack uc)) (nat (uc_read uc)) (take need bs)) (\<lambda>buf.
          let bs = drop need bs in
          if length bs = 0 then Inr (l, Data fd buf (np_size (pack uc)))
          else andThen (push_data l fd buf (np_size (pack uc))) (\<lambda>l.
                 andThen (push_more l fd bs) (\<lambda>l. Inr (l, More)))))"

definition fill_uncomplete :: "queue option \<Rightarrow> uncomplete \<Rightarrow> int \<Rightarrow> u8 list \<Rightarrow> (queue option \<times> filter_result) res" where
  "fill_uncomplete l uc fd bs = andThen (read_header uc bs) (\<lambda>(uc, bs). fill_data l fd uc bs)"

definition filter_data_body :: "queue option \<Rightarrow> int \<Rightarrow> u8 list \<Rightarrow> (queue option \<times> filter_result) res" where
  "filter_data_body l fd bs =
     (case find_uncomplete l fd of
        (l, Some uc) \<Rightarrow> fill_uncomplete l uc fd bs
      | (l, None) \<Rightarrow>
          (case bs of
             [] \<Rightarrow> Inl Out_of_range
           | [b] \<Rightarrow> Inr (save_header l fd b, Nothing)
           | b0 # b1 # r \<Rightarrow>
               let pack_size = read_size b0 b1 in
               if length r < pack_size then andThen (save_partial l fd pack_size r) (\<lambda>l. Inr (l, Nothing))
               else if length r = pack_size then Inr (l, Data fd (map Some r) (int (length r)))
               else andThen (push_data l fd (map Some (take pack_size r)) (int pack_size)) (\<lambda>l.
                      andThen (push_more l fd (drop pack_size r)) (\<lambda>l. Inr (l, More)))))"

text \<open>\<open>filter_data\<close> also frees the buffer of the socket message, which is not seen here again.\<close>

definition filter_data :: "queue option \<Rightarrow> int \<Rightarrow> u8 list \<Rightarrow> (queue option \<times> filter_result) res" where
  "filter_data l fd bs = filter_data_body l fd bs"

text \<open>A socket message whose buffer pointer may be null; then a string follows the struct.\<close>

record netpack_message = skynet_socket_message +
  sm_null :: bool

text \<open>The string pushed for an event: with a buffer the length is -1 and the copy runs out of bounds.\<close>

definition pushstring :: "netpack_message \<Rightarrow> u8 list res" where
  "pushstring m = (if sm_null m then Inr (sm_tail m) else Inl Out_of_range)"

definition lfilter :: "queue option \<Rightarrow> netpack_message \<Rightarrow> (queue option \<times> filter_result) res" where
  "lfilter l m =
     (if sm_type m = SOCKET_TYPE_DATA then
        andThen (assert_that (\<not> sm_null m)) (\<lambda>_. filter_data l (sm_id m) (take (nat (sm_ud m)) (sm_buffer m)))
      else if sm_type m = SOCKET_TYPE_CONNECT then Inr (l, Nothing)
      else if sm_type m = SOCKET_TYPE_CLOSE then Inr (close_uncomplete l (sm_id m), Close (sm_id m))
      else if sm_type m = SOCKET_TYPE_ACCEPT then andThen (pushstring m) (\<lambda>s. Inr (l, Open (sm_ud m) s))
      else if sm_type m = SOCKET_TYPE_ERROR then andThen (pushstring m) (\<lambda>s. Inr (close_uncomplete l (sm_id m), Error (sm_id m) s))
      else if sm_type m = SOCKET_TYPE_WARNING then Inr (l, Warning (sm_id m) (sm_ud m))
      else Inr (l, Nothing))"

definition lpop :: "queue option \<Rightarrow> (queue option \<times> netpack option) res" where
  "lpop l =
     (case l of
        None \<Rightarrow> Inr (None, None)
      | Some q \<Rightarrow>
          if qhead q = qtail q then Inr (Some q, None)
          else andThen (read_cell (qqueue q) (qhead q)) (\<lambda>np.
            let h = qhead q + 1 in Inr (Some (q\<lparr>qhead := if h \<ge> qcap q then 0 else h\<rparr>), Some np)))"

section \<open>Writing packages\<close>

definition write_size :: "nat \<Rightarrow> u8 list" where
  "write_size len = [word_of_nat (len div 256 mod 256), word_of_nat (len mod 256)]"

definition lpack :: "u8 list \<Rightarrow> string + u8 list" where
  "lpack bs =
     (if length bs \<ge> 65536 then Inl ''Invalid size (too long) of data : %d'' else Inr (write_size (length bs) @ bs))"

text \<open>A null pointer gives the empty string.\<close>

definition ltostring :: "block option \<Rightarrow> nat \<Rightarrow> u8 list res" where
  "ltostring p sz =
     (case p of
        None \<Rightarrow> Inr []
      | Some b \<Rightarrow> if sz \<le> length b then
                     (if None \<in> set (take sz b) then Inl Uninit_read else Inr (map the (take sz b)))
                   else Inl Out_of_range)"

section \<open>The ring buffer\<close>

definition ring_inv :: "queue \<Rightarrow> bool" where
  "ring_inv q \<longleftrightarrow> 0 < qcap q \<and> length (qqueue q) = qcap q \<and> qhead q < qcap q \<and> qtail q < qcap q \<and> length (qhash q) = HASHSIZE"

definition ring_rep :: "queue option \<Rightarrow> netpack list \<Rightarrow> bool" where
  "ring_rep l ps \<longleftrightarrow>
     (let q = get_queue l in ring_inv q \<and> length ps < qcap q \<and> qtail q = (qhead q + length ps) mod qcap q \<and>
        (\<forall>i<length ps. qqueue q ! ((qhead q + i) mod qcap q) = Some (ps ! i)))"

lemma get_queue_Some [simp]: "get_queue (Some q) = q"
  by (simp add: get_queue_def)

lemma ring_rep_None: "ring_rep None ps \<longleftrightarrow> ps = []"
  by (auto simp: ring_rep_def get_queue_def ring_inv_def QUEUESIZE_def Let_def)

lemma ring_tail_eq:
  assumes "ring_rep (Some q) ps"
  shows "qhead q = qtail q \<longleftrightarrow> ps = []"
  using assms ring_index_inj [of 0 "qcap q" "length ps" "qhead q"]
  by (auto simp: ring_rep_def ring_inv_def)

lemma push_data_spec:
  assumes r: "ring_rep l ps"
  shows "\<exists>q'. push_data l fd buf sz = Inr (Some q') \<and>
    ring_rep (Some q') (ps @ [\<lparr>np_id = fd, np_size = sz, np_buffer = buf\<rparr>]) \<and> qhash q' = qhash (get_queue l)"
proof -
  define q where "q = get_queue l"
  define p where "p = \<lparr>np_id = fd, np_size = sz, np_buffer = buf\<rparr>"
  define q1 where "q1 = q\<lparr>qqueue := (qqueue q)[qtail q := Some p], qtail := (qhead q + length (ps @ [p])) mod qcap q\<rparr>"
  have i: "0 < qcap q" "length (qqueue q) = qcap q" "qhead q < qcap q" "qtail q < qcap q" "length (qhash q) = HASHSIZE"
    and n: "length ps < qcap q" and t: "qtail q = (qhead q + length ps) mod qcap q"
    and c: "\<And>i. i < length ps \<Longrightarrow> qqueue q ! ((qhead q + i) mod qcap q) = Some (ps ! i)"
    using r by (auto simp: ring_rep_def q_def ring_inv_def Let_def)
  have "(if qtail q + 1 \<ge> qcap q then qtail q + 1 - qcap q else qtail q + 1) = (qtail q + 1) mod qcap q"
    using i(4) by (auto simp: mod_if)
  also have "\<dots> = (qhead q + length (ps @ [p])) mod qcap q" by (simp add: t mod_Suc_eq)
  finally have tl: "(if qtail q + 1 \<ge> qcap q then qtail q + 1 - qcap q else qtail q + 1) = (qhead q + length (ps @ [p])) mod qcap q" .
  have "write_cell (qqueue q) (qtail q) p = Inr ((qqueue q)[qtail q := Some p])" using i by simp
  then have u: "push_data l fd buf sz = Inr (Some (if qhead q = qtail q1 then expand_ring q1 else q1))"
    unfolding push_data_def Let_def q_def [symmetric] p_def [symmetric] by (simp only: tl andThen_simps) (simp add: q1_def)
  have c1: "qqueue q1 ! ((qhead q + i) mod qcap q) = Some ((ps @ [p]) ! i)" if "i < length (ps @ [p])" for i
  proof (cases "i = length ps")
    case True
    then show ?thesis using i by (simp add: q1_def t)
  next
    case False
    then have "(qhead q + i) mod qcap q \<noteq> qtail q" using ring_index_inj [of i "qcap q" "length ps" "qhead q"] that n by (auto simp: t)
    then show ?thesis using c [of i] that False by (simp add: q1_def nth_append)
  qed
  show ?thesis
  proof (cases "length (ps @ [p]) = qcap q")
    case True
    then have "qhead q = qtail q1" using i by (simp add: q1_def)
    moreover have "ring_rep (Some (expand_ring q1)) (ps @ [p])"
      using i True c1
      by (auto simp: ring_rep_def ring_inv_def expand_ring_def q1_def QUEUESIZE_def nth_append)
    ultimately show ?thesis using u by (simp add: p_def q_def expand_ring_def q1_def)
  next
    case False
    then have l: "length (ps @ [p]) < qcap q" using n by simp
    then have "qhead q \<noteq> qtail q1"
      using i ring_index_inj [of 0 "qcap q" "length (ps @ [p])" "qhead q"] by (auto simp: q1_def)
    moreover have "ring_rep (Some q1) (ps @ [p])"
      using i l c1 by (auto simp: ring_rep_def ring_inv_def q1_def)
    ultimately show ?thesis using u by (simp add: p_def q_def q1_def)
  qed
qed

lemma lpop_spec:
  "ring_rep l [] \<Longrightarrow> lpop l = Inr (l, None)"
  "ring_rep l (p # ps) \<Longrightarrow> \<exists>q q'. l = Some q \<and> lpop l = Inr (Some q', Some p) \<and> ring_rep (Some q') ps \<and> qhash q' = qhash q"
proof -
  show "ring_rep l [] \<Longrightarrow> lpop l = Inr (l, None)"
    by (cases l) (simp_all add: lpop_def ring_tail_eq)
  assume r: "ring_rep l (p # ps)"
  then obtain q where l: "l = Some q" by (cases l) (auto simp: ring_rep_None)
  have i: "0 < qcap q" "length (qqueue q) = qcap q" "qhead q < qcap q" "qtail q < qcap q" "length (qhash q) = HASHSIZE"
    and n: "Suc (length ps) < qcap q" and t: "qtail q = (qhead q + Suc (length ps)) mod qcap q"
    and c: "\<And>i. i < Suc (length ps) \<Longrightarrow> qqueue q ! ((qhead q + i) mod qcap q) = Some ((p # ps) ! i)"
    using r l by (auto simp: ring_rep_def ring_inv_def)
  define q' where "q' = q\<lparr>qhead := (qhead q + 1) mod qcap q\<rparr>"
  have h: "(if qhead q + 1 \<ge> qcap q then 0 else qhead q + 1) = (qhead q + 1) mod qcap q"
    using i(3) by (auto simp: mod_if)
  have "qhead q \<noteq> qtail q" using ring_tail_eq [of q "p # ps"] r l by simp
  moreover have "qqueue q ! qhead q = Some p" using c [of 0] i by simp
  ultimately have "lpop l = Inr (Some q', Some p)"
    unfolding lpop_def l Let_def option.case h q'_def using i by simp
  moreover have "ring_rep (Some q') ps"
    unfolding ring_rep_def Let_def get_queue_Some
  proof (intro conjI allI impI)
    show "ring_inv q'" using i by (simp add: ring_inv_def q'_def)
    show "length ps < qcap q'" using n by (simp add: q'_def)
    show "qtail q' = (qhead q' + length ps) mod qcap q'" by (simp add: q'_def t mod_add_left_eq)
    fix j assume "j < length ps"
    then show "qqueue q' ! ((qhead q' + j) mod qcap q') = Some (ps ! j)" using c [of "Suc j"] by (simp add: q'_def mod_add_left_eq)
  qed
  ultimately show "\<exists>q q'. l = Some q \<and> lpop l = Inr (Some q', Some p) \<and> ring_rep (Some q') ps \<and> qhash q' = qhash q"
    using l by (auto simp: q'_def)
qed

text \<open>The queue of packages meets the contract of a first-in first-out queue.\<close>

definition push_pack :: "queue option \<Rightarrow> netpack \<Rightarrow> queue option res" where
  "push_pack l p = push_data l (np_id p) (np_buffer p) (np_size p)"

lemma push_pack_spec: "ring_rep l ps \<Longrightarrow> \<exists>q'. push_pack l p = Inr (Some q') \<and> ring_rep (Some q') (ps @ [p])"
  using push_data_spec [of l ps "np_id p" "np_buffer p" "np_size p"] by (cases p) (auto simp: push_pack_def)

interpretation packages: fifo push_pack lpop ring_rep "\<lambda>_ _ _. True" "\<lambda>_ _. True"
proof
  fix l ps p
  assume "ring_rep l ps"
  from push_pack_spec [OF this, of p] show "\<exists>q'. push_pack l p = Inr q' \<and> ring_rep q' (ps @ [p]) \<and> (\<forall>b. True \<longrightarrow> True \<longrightarrow> True)"
    by blast
qed (use lpop_spec in blast)+

section \<open>The table of incomplete packages\<close>

definition waiting_ok :: "uncomplete \<Rightarrow> bool" where
  "waiting_ok u \<longleftrightarrow>
     uc_read u = -1 \<and> 0 \<le> uc_header u \<and> uc_header u < 256 \<and> np_buffer (pack u) = [] \<or>
     0 \<le> uc_read u \<and> uc_read u < np_size (pack u) \<and> np_size (pack u) < 65536 \<and>
     length (np_buffer (pack u)) = nat (np_size (pack u)) \<and> (\<forall>i<nat (uc_read u). np_buffer (pack u) ! i \<noteq> None)"

text \<open>The bytes of the stream that a waiting package stands for.\<close>

definition pending :: "uncomplete \<Rightarrow> u8 list" where
  "pending u =
     (if uc_read u < 0 then [word_of_int (uc_header u)]
      else write_size (nat (np_size (pack u))) @ map the (take (nat (uc_read u)) (np_buffer (pack u))))"

definition lookup :: "uncomplete list list \<Rightarrow> int \<Rightarrow> uncomplete option" where
  "lookup hs fd = find (\<lambda>u. np_id (pack u) = fd) (hs ! hash_fd fd)"

definition table_inv :: "uncomplete list list \<Rightarrow> bool" where
  "table_inv hs \<longleftrightarrow> length hs = HASHSIZE \<and>
     (\<forall>h<HASHSIZE. distinct (map (\<lambda>u. np_id (pack u)) (hs ! h)) \<and>
        (\<forall>u\<in>set (hs ! h). hash_fd (np_id (pack u)) = h \<and> waiting_ok u))"

definition pend :: "queue option \<Rightarrow> int \<Rightarrow> u8 list" where
  "pend l fd = (case lookup (qhash (get_queue l)) fd of None \<Rightarrow> [] | Some u \<Rightarrow> pending u)"

lemma hash_fd_less: "hash_fd fd < HASHSIZE" by (simp add: hash_fd_def HASHSIZE_def Let_def)

lemma unlink_spec:
  "distinct (map (\<lambda>u. np_id (pack u)) us) \<Longrightarrow>
    unlink us fd = (filter (\<lambda>u. np_id (pack u) \<noteq> fd) us, find (\<lambda>u. np_id (pack u) = fd) us)"
proof (induction us)
  case (Cons u us)
  have "\<forall>x\<in>set us. np_id (pack x) \<noteq> np_id (pack u)" using Cons.prems by (auto simp: image_iff)
  then have "filter (\<lambda>x. np_id (pack x) \<noteq> np_id (pack u)) us = us" by simp
  then show ?case using Cons by auto
qed simp

lemma find_filter_other: "fd' \<noteq> fd \<Longrightarrow> find (\<lambda>u. np_id (pack u) = fd') (filter (\<lambda>u. np_id (pack u) \<noteq> fd) us) = find (\<lambda>u. np_id (pack u) = fd') us"
  by (induction us) auto

text \<open>Taking an entry out of the table removes it and no other.\<close>

lemma find_uncomplete_spec:
  assumes t: "table_inv (qhash (get_queue l))"
  obtains l' where "find_uncomplete l fd = (l', lookup (qhash (get_queue l)) fd)"
    "table_inv (qhash (get_queue l'))" "lookup (qhash (get_queue l')) fd = None"
    "\<And>fd'. fd' \<noteq> fd \<Longrightarrow> lookup (qhash (get_queue l')) fd' = lookup (qhash (get_queue l)) fd'"
    "\<And>ps. ring_rep l' ps \<longleftrightarrow> ring_rep l ps" "l' = None \<longleftrightarrow> l = None"
proof (cases l)
  case None
  show ?thesis
  proof (rule that [of None])
    have e: "qhash (get_queue None) ! hash_fd x = []" for x using hash_fd_less by (simp add: get_queue_def)
    show "find_uncomplete l fd = (None, lookup (qhash (get_queue l)) fd)" by (simp add: None find_uncomplete_def lookup_def e)
    show "lookup (qhash (get_queue None)) fd = None" by (simp add: lookup_def e)
  qed (use t None in simp_all)
next
  case (Some q)
  define h where "h = hash_fd fd"
  define us where "us = filter (\<lambda>u. np_id (pack u) \<noteq> fd) (qhash q ! h)"
  define q' where "q' = q\<lparr>qhash := (qhash q)[h := us]\<rparr>"
  have h: "h < HASHSIZE" by (simp add: h_def hash_fd_less)
  have len: "length (qhash q) = HASHSIZE" and d: "distinct (map (\<lambda>u. np_id (pack u)) (qhash q ! h))"
    using t h by (simp_all add: Some table_inv_def)
  show ?thesis
  proof (rule that [of "Some q'"])
    show "find_uncomplete l fd = (Some q', lookup (qhash (get_queue l)) fd)"
      using unlink_spec [OF d, of fd] by (simp add: Some find_uncomplete_def lookup_def q'_def us_def h_def Let_def)
    show "table_inv (qhash (get_queue (Some q')))"
      using t h by (auto simp: Some table_inv_def q'_def nth_list_update us_def distinct_map_filter)
    show "lookup (qhash (get_queue (Some q'))) fd = None"
      using h len by (auto simp: lookup_def q'_def h_def us_def find_None_iff)
    show "lookup (qhash (get_queue (Some q'))) fd' = lookup (qhash (get_queue l)) fd'" if "fd' \<noteq> fd" for fd'
      using h len that by (auto simp: lookup_def q'_def Some nth_list_update us_def h_def find_filter_other)
    show "ring_rep (Some q') ps \<longleftrightarrow> ring_rep l ps" for ps
      by (simp add: Some ring_rep_def ring_inv_def q'_def)
  qed (simp add: Some)
qed

section \<open>Packages of a stream\<close>

text \<open>What a stream of bytes means: its complete packages and the rest.\<close>

fun parse :: "u8 list \<Rightarrow> u8 list list \<times> u8 list" where
  "parse (a # b # r) =
     (let n = read_size a b in
      if length r < n then ([], a # b # r) else let (fs, rest) = parse (drop n r) in (take n r # fs, rest))"
| "parse s = ([], s)"

lemma read_write_size: "n < 65536 \<Longrightarrow> read_size (word_of_nat (n div 256 mod 256)) (word_of_nat (n mod 256)) = n"
  by (simp add: read_size_def unat_or2 unat_of_nat take_bit_eq_mod)

lemma read_size_value: "read_size a b = unat a * 256 + unat b"
  by (simp add: read_size_def unat_or2)

lemma read_size_less: "read_size a b < 65536"
  using unat_byte_lt [of a] unat_byte_lt [of b] by (simp add: read_size_value)

lemma write_read_size: "write_size (read_size a b) = [a, b]"
  using unat_byte_lt [of a] unat_byte_lt [of b] by (simp add: write_size_def read_size_value)

lemma length_write_size [simp]: "length (write_size n) = 2" by (simp add: write_size_def)

lemma parse_write_size:
  "n < 65536 \<Longrightarrow> parse (write_size n @ r) =
     (if length r < n then ([], write_size n @ r) else let (fs, rest) = parse (drop n r) in (take n r # fs, rest))"
  unfolding write_size_def append_Cons append_Nil parse.simps Let_def by (simp only: read_write_size)

lemma parse_rest: "snd (parse bs) = [] \<or> fst (parse (snd (parse bs))) = []"
  by (induction bs rule: parse.induct) (auto simp: Let_def split: prod.split)

definition package :: "int \<Rightarrow> u8 list \<Rightarrow> netpack" where
  "package fd b = \<lparr>np_id = fd, np_size = int (length b), np_buffer = map Some b\<rparr>"

text \<open>The abstraction: pending bytes per socket, and queued packages.\<close>

definition holds :: "queue option \<Rightarrow> (int \<Rightarrow> u8 list) \<Rightarrow> netpack list \<Rightarrow> bool" where
  "holds l p ps \<longleftrightarrow> table_inv (qhash (get_queue l)) \<and> ring_rep l ps \<and> pend l = p"

lemma pending_nonempty: "pending u \<noteq> []" by (simp add: pending_def write_size_def)

lemma pend_Nil: "pend l fd = [] \<longleftrightarrow> lookup (qhash (get_queue l)) fd = None"
  by (simp add: pend_def pending_nonempty split: option.split)

lemma holds_init: "holds None (\<lambda>_. []) []"
  by (auto simp: holds_def table_inv_def pend_def lookup_def get_queue_def ring_rep_None hash_fd_less fun_eq_iff)

text \<open>Entering a package of a socket that has none.\<close>

lemma table_insert:
  assumes "table_inv hs" "lookup hs fd = None" "np_id (pack u) = fd" "waiting_ok u" "h = hash_fd fd"
  shows "table_inv (hs[h := u # hs ! h])" "lookup (hs[h := u # hs ! h]) fd = Some u"
    "fd' \<noteq> fd \<Longrightarrow> lookup (hs[h := u # hs ! h]) fd' = lookup hs fd'"
proof -
  have h: "h < length hs" using assms by (simp add: table_inv_def hash_fd_less)
  have n: "\<forall>v\<in>set (hs ! h). np_id (pack v) \<noteq> fd" using assms(2,5) by (auto simp: lookup_def find_None_iff)
  show "table_inv (hs[h := u # hs ! h])"
    unfolding table_inv_def
  proof (intro conjI allI impI)
    fix k assume k: "k < HASHSIZE"
    have t: "distinct (map (\<lambda>u. np_id (pack u)) (hs ! k))" "\<forall>v\<in>set (hs ! k). hash_fd (np_id (pack v)) = k \<and> waiting_ok v"
      using assms(1) k by (simp_all add: table_inv_def)
    show "distinct (map (\<lambda>u. np_id (pack u)) (hs[h := u # hs ! h] ! k))"
      using t(1) n h assms(3) by (cases "k = h") auto
    show "\<forall>v\<in>set (hs[h := u # hs ! h] ! k). hash_fd (np_id (pack v)) = k \<and> waiting_ok v"
      using t(2) h assms(3-5) by (cases "k = h") auto
  qed (use assms(1) in \<open>simp add: table_inv_def\<close>)
  show "lookup (hs[h := u # hs ! h]) fd = Some u" using assms h by (simp add: lookup_def)
  show "fd' \<noteq> fd \<Longrightarrow> lookup (hs[h := u # hs ! h]) fd' = lookup hs fd'"
    using assms h by (auto simp: lookup_def nth_list_update)
qed

lemma holds_insert:
  assumes h: "holds l p ps" and p: "p fd = []" and u: "np_id (pack u) = fd" "waiting_ok u"
    and q: "get_queue l' = (get_queue l)\<lparr>qhash := (qhash (get_queue l))[hash_fd fd := u # qhash (get_queue l) ! hash_fd fd]\<rparr>"
  shows "holds l' (p(fd := pending u)) ps"
proof -
  have "lookup (qhash (get_queue l)) fd = None" using h p pend_Nil [of l fd] by (auto simp: holds_def)
  note t = table_insert [OF _ this u refl]
  have "pend l' x = (p(fd := pending u)) x" for x
    using h t by (cases "x = fd") (auto simp: holds_def pend_def q)
  then show ?thesis using h t
    by (auto simp: holds_def q ring_rep_def ring_inv_def Let_def)
qed

lemma save_header_holds:
  "holds l p ps \<Longrightarrow> p fd = [] \<Longrightarrow> holds (save_header l fd b) (p(fd := [b])) ps"
proof -
  assume a: "holds l p ps" "p fd = []"
  define u where "u = \<lparr>pack = \<lparr>np_id = fd, np_size = 0, np_buffer = []\<rparr>, uc_read = -1, uc_header = uint b\<rparr>"
  have "uint b < 256" using uint_lt2p [of b] by simp
  then have "waiting_ok u" "pending u = [b]" by (simp_all add: u_def waiting_ok_def pending_def)
  then show ?thesis using holds_insert [OF a, of u "save_header l fd b"]
    by (simp add: save_header_def save_uncomplete_def u_def Let_def)
qed

lemma save_partial_holds:
  assumes a: "holds l p ps" "p fd = []" and n: "length bs < n" "n < 65536"
  shows "\<exists>l'. save_partial l fd n bs = Inr l' \<and> holds l' (p(fd := write_size n @ bs)) ps"
proof -
  define buf where "buf = map Some bs @ replicate (n - length bs) None"
  define u where "u = \<lparr>pack = \<lparr>np_id = fd, np_size = int n, np_buffer = buf\<rparr>, uc_read = int (length bs), uc_header = 0\<rparr>"
  have "waiting_ok u" "pending u = write_size n @ bs"
    using n by (simp_all add: u_def waiting_ok_def pending_def buf_def nth_append o_def)
  moreover have "memcpy_block (replicate n None) 0 bs = Inr buf" using n by (simp add: memcpy_block_def buf_def)
  ultimately show ?thesis using holds_insert [OF a, of u "save_uncomplete l fd (\<lambda>_. u)"]
    by (simp add: save_partial_def save_uncomplete_def u_def Let_def)
qed

lemma push_data_holds:
  "holds l p ps \<Longrightarrow> \<exists>l'. push_data l fd (map Some b) (int (length b)) = Inr l' \<and> holds l' p (ps @ [package fd b])"
  using push_data_spec [of l ps fd "map Some b" "int (length b)"]
  by (auto simp: holds_def package_def pend_def fun_eq_iff)

lemma push_more_holds:
  "holds l p ps \<Longrightarrow> p fd = [] \<Longrightarrow> bs \<noteq> [] \<Longrightarrow>
    \<exists>l'. push_more l fd bs = Inr l' \<and> holds l' (p(fd := snd (parse bs))) (ps @ map (package fd) (fst (parse bs)))"
proof (induction bs arbitrary: l ps rule: parse.induct [case_names Frame Empty Half])
  case (Frame a b r)
  define n where "n = read_size a b"
  show ?case
  proof (cases "length r < n")
    case True
    moreover have "write_size n = [a, b]" "n < 65536" by (simp_all add: n_def write_read_size read_size_less)
    ultimately show ?thesis using save_partial_holds [OF Frame(2,3) True]
      by (subst push_more.simps) (simp add: n_def [symmetric] Let_def)
  next
    case False
    obtain l1 where l1: "push_data l fd (map Some (take n r)) (int n) = Inr l1" "holds l1 p (ps @ [package fd (take n r)])"
      using push_data_holds [OF Frame(2), of fd "take n r"] False by auto
    show ?thesis
    proof (cases "drop n r = []")
      case True
      with l1 False Frame(3) show ?thesis
        by (subst push_more.simps) (simp add: n_def [symmetric] Let_def fun_upd_idem)
    next
      case d: False
      from Frame.IH [OF n_def False l1(2) Frame(3) d] obtain l2 where
        "push_more l1 fd (drop n r) = Inr l2"
        "holds l2 (p(fd := snd (parse (drop n r)))) ((ps @ [package fd (take n r)]) @ map (package fd) (fst (parse (drop n r))))"
        by blast
      with l1 False d show ?thesis
        by (subst push_more.simps) (simp add: n_def [symmetric] Let_def case_prod_beta)
    qed
  qed
next
  case (Half b)
  with save_header_holds [of l p ps fd b] show ?case by (subst push_more.simps) simp
qed simp

text \<open>A package of which \<open>bs0\<close> was received, and its continuation with \<open>bs\<close>.\<close>

lemma fill_data_holds:
  assumes a: "holds l p ps" "p fd = []" "l \<noteq> None" and u: "np_id (pack u) = fd" "np_size (pack u) = int n" "n < 65536"
    "uc_read u = int (length bs0)" "length bs0 \<le> n" "np_buffer (pack u) = map Some bs0 @ rest" "length rest = n - length bs0"
  shows "\<exists>l' r. fill_data l fd u bs = Inr (l', r) \<and>
    (let (fs, s) = parse (write_size n @ bs0 @ bs) in
      r = Nothing \<and> fs = [] \<and> holds l' (p(fd := s)) ps \<or>
      (\<exists>b. r = Data fd (map Some b) (int (length b)) \<and> fs = [b] \<and> holds l' (p(fd := s)) ps) \<or>
      r = More \<and> fs \<noteq> [] \<and> holds l' (p(fd := s)) (ps @ map (package fd) fs))"
proof -
  define need where "need = n - length bs0"
  have need: "nat (np_size (pack u) - uc_read u) = need" using u by (simp add: need_def)
  obtain q where q: "l = Some q" using a(3) by auto
  show ?thesis
  proof (cases "length bs < need")
    case True
    define buf where "buf = map Some (bs0 @ bs) @ drop (length bs) rest"
    define v where "v = u\<lparr>pack := (pack u)\<lparr>np_buffer := buf\<rparr>, uc_read := uc_read u + int (length bs)\<rparr>"
    have mc: "memcpy_block (np_buffer (pack u)) (nat (uc_read u)) bs = Inr buf"
      using u True by (simp add: memcpy_block_def buf_def need_def)
    have v: "np_id (pack v) = fd" "waiting_ok v" "pending v = write_size n @ bs0 @ bs"
      using u True by (auto simp: v_def waiting_ok_def pending_def buf_def need_def nth_append o_def)
    have "fill_data l fd u bs = Inr (Some (q\<lparr>qhash := (qhash q)[hash_fd fd := v # qhash q ! hash_fd fd]\<rparr>), Nothing)"
      unfolding fill_data_def Let_def need mc using True by (simp add: q v_def)
    moreover have "parse (write_size n @ bs0 @ bs) = ([], write_size n @ bs0 @ bs)"
    proof -
      have "length (bs0 @ bs) < n" using True by (simp add: need_def)
      then show ?thesis using u(3) by (simp only: parse_write_size if_True)
    qed
    moreover have "holds (Some (q\<lparr>qhash := (qhash q)[hash_fd fd := v # qhash q ! hash_fd fd]\<rparr>)) (p(fd := write_size n @ bs0 @ bs)) ps"
      using holds_insert [OF a(1,2) v(1,2)] by (simp add: q v(3))
    ultimately show ?thesis by simp
  next
    case False
    define b where "b = bs0 @ take need bs"
    have lb: "length b = n" using False u by (simp add: b_def need_def)
    have mc: "memcpy_block (np_buffer (pack u)) (nat (uc_read u)) (take need bs) = Inr (map Some b)"
      using u False by (simp add: memcpy_block_def b_def need_def)
    obtain fs s where fs: "parse (drop need bs) = (fs, s)" by (cases "parse (drop need bs)")
    have ps: "parse (write_size n @ bs0 @ bs) = (b # fs, s)"
      using False u fs by (simp add: parse_write_size need_def b_def)
    have body: "fill_data l fd u bs = (if drop need bs = [] then Inr (l, Data fd (map Some b) (int n))
        else andThen (push_data l fd (map Some b) (int n)) (\<lambda>l. andThen (push_more l fd (drop need bs)) (\<lambda>l. Inr (l, More))))"
      unfolding fill_data_def Let_def need mc using False u(2) by simp
    show ?thesis
    proof (cases "drop need bs = []")
      case True
      then have "fs = []" "s = []" using fs by simp_all
      then show ?thesis using True a lb by (simp add: body ps fun_upd_idem)
    next
      case d: False
      obtain l1 where l1: "push_data l fd (map Some b) (int n) = Inr l1" "holds l1 p (ps @ [package fd b])"
        using push_data_holds [OF a(1), of fd b] lb by auto
      from push_more_holds [OF l1(2) a(2) d] fs obtain l2 where
        "push_more l1 fd (drop need bs) = Inr l2" "holds l2 (p(fd := s)) ((ps @ [package fd b]) @ map (package fd) fs)"
        by auto
      then show ?thesis using d l1 by (simp add: body ps)
    qed
  qed
qed

section \<open>One event\<close>

text \<open>\<open>delivers fd fs s l' r p ps\<close>: the result \<open>r\<close> hands over the packages \<open>fs\<close>, directly or through the queue, and \<open>s\<close> stays pending.\<close>

definition delivers :: "int \<Rightarrow> u8 list list \<Rightarrow> u8 list \<Rightarrow> queue option \<Rightarrow> filter_result \<Rightarrow> (int \<Rightarrow> u8 list) \<Rightarrow> netpack list \<Rightarrow> bool" where
  "delivers fd fs s l' r p ps \<longleftrightarrow>
      r = Nothing \<and> fs = [] \<and> holds l' (p(fd := s)) ps \<or>
      (\<exists>b. r = Data fd (map Some b) (int (length b)) \<and> fs = [b] \<and> holds l' (p(fd := s)) ps) \<or>
      r = More \<and> fs \<noteq> [] \<and> holds l' (p(fd := s)) (ps @ map (package fd) fs)"

lemma fill_uncomplete_holds:
  assumes a: "holds l p ps" "p fd = []" "l \<noteq> None" and u: "np_id (pack u) = fd" "waiting_ok u" and bs: "bs \<noteq> []"
  shows "\<exists>l' r. fill_uncomplete l u fd bs = Inr (l', r) \<and>
    (let (fs, s) = parse (pending u @ bs) in delivers fd fs s l' r p ps)"
proof (cases "uc_read u < 0")
  case True
  then have r: "uc_read u = -1" and h: "0 \<le> uc_header u" "uc_header u < 256" using u(2) by (auto simp: waiting_ok_def)
  obtain b bs' where b: "bs = b # bs'" using bs by (cases bs) auto
  define hb :: u8 where "hb = word_of_int (uc_header u)"
  define n where "n = read_size hb b"
  have "uint hb = uc_header u" using h by (simp add: hb_def uint_word_of_int_eq take_bit_int_eq_self)
  then have uh: "uc_header u = int (unat hb)" by simp
  have sz: "uint b OR push_bit 8 (uc_header u) = int n"
  proof -
    have "uint (push_bit 8 (ucast hb) OR ucast b :: u32) = int n" by (simp add: n_def read_size_def)
    moreover have "uint (push_bit 8 (ucast hb) OR ucast b :: u32) = push_bit 8 (uint hb) OR uint b"
    proof -
      have "uint (push_bit 8 (ucast hb) :: u32) = int (unat hb * 2 ^ 8)" "uint (ucast b :: u32) = int (unat b)"
        using unat_push_byte [of 8 hb] unat_ucast_byte [of b] by (simp_all only: uint_nat)
      then show ?thesis by (simp only: unsigned_or_eq) (simp add: push_bit_eq_mult)
    qed
    ultimately show ?thesis by (simp add: \<open>uint hb = uc_header u\<close> or.commute)
  qed
  define v where "v = u\<lparr>pack := (pack u)\<lparr>np_size := int n, np_buffer := replicate n None\<rparr>, uc_read := 0\<rparr>"
  have "read_header u bs = Inr (v, bs')" using True r by (simp add: read_header_def b sz v_def Let_def)
  then have "fill_uncomplete l u fd bs = fill_data l fd v bs'" by (simp add: fill_uncomplete_def)
  moreover have "pending u @ bs = write_size n @ [] @ bs'"
    using True by (simp add: pending_def b n_def write_read_size hb_def)
  ultimately show ?thesis
    using fill_data_holds [OF a, of v n "[]" "replicate n None" bs'] u read_size_less [of hb b]
    by (simp add: v_def delivers_def n_def [symmetric])
next
  case False
  define n where "n = nat (np_size (pack u))"
  define k where "k = nat (uc_read u)"
  define bs0 where "bs0 = map the (take k (np_buffer (pack u)))"
  have w: "0 \<le> uc_read u" "uc_read u < np_size (pack u)" "np_size (pack u) < 65536"
    "length (np_buffer (pack u)) = n" "\<forall>i<k. np_buffer (pack u) ! i \<noteq> None"
    using u(2) False by (auto simp: waiting_ok_def n_def k_def)
  have k: "k < n" "uc_read u = int k" "np_size (pack u) = int n" using w by (simp_all add: k_def n_def)
  have "take k (np_buffer (pack u)) = map Some bs0"
    using w(4,5) k(1) by (intro nth_equalityI) (auto simp: bs0_def)
  then have buf: "np_buffer (pack u) = map Some bs0 @ drop k (np_buffer (pack u))" by (metis append_take_drop_id)
  have "fill_uncomplete l u fd bs = fill_data l fd u bs" using False by (simp add: fill_uncomplete_def read_header_def)
  moreover have "pending u @ bs = write_size n @ bs0 @ bs" using False by (simp add: pending_def bs0_def n_def k_def)
  ultimately show ?thesis
    using fill_data_holds [OF a u(1) k(3) _ _ _ buf, of bs] w k by (simp add: bs0_def delivers_def)
qed

lemma filter_data_holds:
  assumes a: "holds l p ps" and bs: "bs \<noteq> []"
  shows "\<exists>l' r. filter_data l fd bs = Inr (l', r) \<and> (let (fs, s) = parse (p fd @ bs) in delivers fd fs s l' r p ps)"
proof -
  obtain l1 where l1: "find_uncomplete l fd = (l1, lookup (qhash (get_queue l)) fd)"
    "table_inv (qhash (get_queue l1))" "lookup (qhash (get_queue l1)) fd = None"
    "\<And>fd'. fd' \<noteq> fd \<Longrightarrow> lookup (qhash (get_queue l1)) fd' = lookup (qhash (get_queue l)) fd'"
    "\<And>ps. ring_rep l1 ps \<longleftrightarrow> ring_rep l ps" "l1 = None \<longleftrightarrow> l = None"
    using a find_uncomplete_spec [of l fd] by (auto simp: holds_def)
  have h1: "holds l1 (p(fd := [])) ps" using a l1 by (auto simp: holds_def pend_def fun_eq_iff)
  show ?thesis
  proof (cases "lookup (qhash (get_queue l)) fd")
    case (Some u)
    have "np_id (pack u) = fd" "u \<in> set (qhash (get_queue l) ! hash_fd fd)"
      using Some by (auto simp: lookup_def find_Some_iff)
    moreover from this have "waiting_ok u" using a hash_fd_less [of fd] by (simp add: holds_def table_inv_def)
    moreover have "l1 \<noteq> None" using Some l1(6) by (auto simp: lookup_def get_queue_def hash_fd_less)
    moreover have "p fd = pending u" using a Some by (auto simp: holds_def pend_def)
    ultimately show ?thesis
      using fill_uncomplete_holds [OF h1 _ _ _ _ bs, of fd u]
      by (simp add: filter_data_def filter_data_body_def l1(1) Some delivers_def)
  next
    case None
    then have p: "p fd = []" using a by (auto simp: holds_def pend_def)
    then have h: "holds l1 p ps" using h1 by (simp add: fun_upd_idem)
    have body: "filter_data l fd bs = (case bs of [] \<Rightarrow> Inl Out_of_range | [b] \<Rightarrow> Inr (save_header l1 fd b, Nothing)
      | b0 # b1 # r \<Rightarrow> let pack_size = read_size b0 b1 in
               if length r < pack_size then andThen (save_partial l1 fd pack_size r) (\<lambda>l. Inr (l, Nothing))
               else if length r = pack_size then Inr (l1, Data fd (map Some r) (int (length r)))
               else andThen (push_data l1 fd (map Some (take pack_size r)) (int pack_size)) (\<lambda>l.
                      andThen (push_more l fd (drop pack_size r)) (\<lambda>l. Inr (l, More))))"
      by (simp add: filter_data_def filter_data_body_def l1(1) None)
    consider b where "bs = [b]" | b0 b1 r where "bs = b0 # b1 # r" using bs by (metis list.exhaust)
    then show ?thesis
    proof cases
      case 1
      then show ?thesis using save_header_holds [OF h p] unfolding body unfolding 1 by (simp add: p delivers_def)
    next
      case 2
      define n where "n = read_size b0 b1"
      have n: "n < 65536" "write_size n = [b0, b1]" by (simp_all add: n_def read_size_less write_read_size)
      consider "length r < n" | "length r = n" | "n < length r" by linarith
      then show ?thesis
      proof cases
        case 1
        then show ?thesis using save_partial_holds [OF h p 1 n(1)] n
          unfolding body unfolding 2 by (auto simp: p n_def [symmetric] delivers_def)
      next
        case eq: 2
        then show ?thesis using h p unfolding body unfolding 2 by (simp add: n_def [symmetric] delivers_def fun_upd_idem)
      next
        case 3
        obtain l2 where l2: "push_data l1 fd (map Some (take n r)) (int n) = Inr l2" "holds l2 p (ps @ [package fd (take n r)])"
          using push_data_holds [OF h, of fd "take n r"] 3 by auto
        have "drop n r \<noteq> []" using 3 by simp
        from push_more_holds [OF l2(2) p this] obtain l3 where
          "push_more l2 fd (drop n r) = Inr l3"
          "holds l3 (p(fd := snd (parse (drop n r)))) ((ps @ [package fd (take n r)]) @ map (package fd) (fst (parse (drop n r))))" by blast
        then show ?thesis using l2 3
          unfolding body unfolding 2 by (simp add: p n_def [symmetric] delivers_def case_prod_beta Let_def)
      qed
    qed
  qed
qed

section \<open>Streams\<close>

lemma parse_append:
  "parse (xs @ ys) = (let (fs, s) = parse xs; (gs, t) = parse (s @ ys) in (fs @ gs, t))"
proof (induction xs rule: parse.induct)
  case (1 a b r)
  define n where "n = read_size a b"
  show ?case
  proof (cases "length r < n")
    case True
    then have "parse (a # b # r) = ([], a # b # r)" by (simp add: n_def Let_def)
    then show ?thesis by (simp add: case_prod_beta del: parse.simps)
  next
    case False
    then have "parse ((a # b # r) @ ys) = (let (fs, rest) = parse (drop n r @ ys) in (take n r # fs, rest))"
      by (simp add: n_def [symmetric] Let_def)
    also have "\<dots> = (let (fs, s) = parse (a # b # r); (gs, t) = parse (s @ ys) in (fs @ gs, t))"
      using "1.IH" [OF n_def False] False by (simp add: n_def [symmetric] Let_def case_prod_beta)
    finally show ?thesis .
  qed
qed (simp_all add: case_prod_beta del: parse.simps(1))

text \<open>The reader: after an event that queued packages, the queue is read until it is empty. \<open>out\<close> lists what was
  obtained, in order.\<close>

fun drain :: "nat \<Rightarrow> queue option \<Rightarrow> (queue option \<times> (int \<times> block \<times> int) list) res" where
  "drain 0 l = Inr (l, [])"
| "drain (Suc n) l =
     andThen (lpop l) (\<lambda>(l, r).
       case r of
         None \<Rightarrow> Inr (l, [])
       | Some np \<Rightarrow> andThen (drain n l) (\<lambda>(l, out). Inr (l, (np_id np, np_buffer np, np_size np) # out)))"

definition receive :: "queue option \<Rightarrow> int \<times> u8 list \<Rightarrow> (queue option \<times> (int \<times> block \<times> int) list) res" where
  "receive l e =
     andThen (filter_data l (fst e) (snd e)) (\<lambda>(l, r).
       case r of
         Data fd buf n \<Rightarrow> Inr (l, [(fd, buf, n)])
       | More \<Rightarrow> drain (qcap (get_queue l)) l
       | _ \<Rightarrow> Inr (l, []))"

fun receive_all :: "queue option \<Rightarrow> (int \<times> u8 list) list \<Rightarrow> (queue option \<times> (int \<times> block \<times> int) list) res" where
  "receive_all l [] = Inr (l, [])"
| "receive_all l (e # es) =
     andThen (receive l e) (\<lambda>(l, out). andThen (receive_all l es) (\<lambda>(l, out'). Inr (l, out @ out')))"

definition stream :: "(int \<times> u8 list) list \<Rightarrow> int \<Rightarrow> u8 list" where
  "stream es fd = concat (map snd (filter (\<lambda>e. fst e = fd) es))"

definition obtained :: "(int \<times> block \<times> int) list \<Rightarrow> int \<Rightarrow> (block \<times> int) list" where
  "obtained out fd = map snd (filter (\<lambda>e. fst e = fd) out)"

definition whole :: "u8 list \<Rightarrow> block \<times> int" where "whole b = (map Some b, int (length b))"

lemma drain_holds:
  "holds l p ps \<Longrightarrow> length ps \<le> n \<Longrightarrow>
    \<exists>l'. drain n l = Inr (l', map (\<lambda>np. (np_id np, np_buffer np, np_size np)) ps) \<and> holds l' p []"
proof (induction ps arbitrary: l n)
  case Nil
  then show ?case using lpop_spec(1) [of l] by (cases n) (auto simp: holds_def)
next
  case (Cons np ps)
  then obtain m where n: "n = Suc m" by (cases n) auto
  from Cons.prems lpop_spec(2) [of l np ps] obtain q q' where
    q: "l = Some q" "lpop l = Inr (Some q', Some np)" "ring_rep (Some q') ps" "qhash q' = qhash q" by (auto simp: holds_def)
  then have "holds (Some q') p ps" using Cons.prems by (auto simp: holds_def pend_def fun_eq_iff)
  from Cons.IH [OF this, of m] Cons.prems q(2) show ?case by (auto simp: n)
qed

lemma receive_holds:
  assumes a: "holds l p []" and bs: "bs \<noteq> []"
  shows "\<exists>l'. receive l (fd, bs) = Inr (l', map (\<lambda>b. (fd, whole b)) (fst (parse (p fd @ bs)))) \<and>
    holds l' (p(fd := snd (parse (p fd @ bs)))) []"
proof -
  obtain fs s where fs: "parse (p fd @ bs) = (fs, s)" by (cases "parse (p fd @ bs)")
  obtain l1 r where l1: "filter_data l fd bs = Inr (l1, r)" and d: "delivers fd fs s l1 r p []"
    using filter_data_holds [OF a bs, of fd] fs by auto
  from d consider "r = Nothing" "fs = []" "holds l1 (p(fd := s)) []"
    | b where "r = Data fd (map Some b) (int (length b))" "fs = [b]" "holds l1 (p(fd := s)) []"
    | "r = More" "holds l1 (p(fd := s)) (map (package fd) fs)"
    by (auto simp: delivers_def)
  then show ?thesis
  proof cases
    case 3
    have "length (map (package fd) fs) \<le> qcap (get_queue l1)" using 3(2) by (auto simp: holds_def ring_rep_def Let_def)
    from drain_holds [OF 3(2) this] obtain l2 where
      "drain (qcap (get_queue l1)) l1 = Inr (l2, map (\<lambda>np. (np_id np, np_buffer np, np_size np)) (map (package fd) fs))"
      "holds l2 (p(fd := s)) []" by blast
    then show ?thesis using 3(1) by (simp add: receive_def l1 fs o_def package_def whole_def)
  qed (simp_all add: receive_def l1 fs whole_def)
qed

lemma parse_stable: "parse (snd (parse xs)) = ([], snd (parse xs))"
proof (induction xs rule: parse.induct)
  case (1 a b r)
  then show ?case by (cases "length r < read_size a b") (auto simp: Let_def case_prod_beta)
qed simp_all

lemma receive_all_holds:
  "holds l p [] \<Longrightarrow> \<forall>e\<in>set es. snd e \<noteq> [] \<Longrightarrow> \<forall>fd. parse (p fd) = ([], p fd) \<Longrightarrow>
    \<exists>l' out. receive_all l es = Inr (l', out) \<and> (\<forall>fd. obtained out fd = map whole (fst (parse (p fd @ stream es fd)))) \<and>
      holds l' (\<lambda>fd. snd (parse (p fd @ stream es fd))) []"
proof (induction es arbitrary: l p)
  case Nil
  then show ?case by (simp add: obtained_def stream_def)
next
  case (Cons e es)
  obtain fd bs where e: "e = (fd, bs)" by (cases e)
  obtain fs s where fs: "parse (p fd @ bs) = (fs, s)" by (cases "parse (p fd @ bs)")
  from receive_holds [OF Cons.prems(1), of bs fd] Cons.prems(2) obtain l1 where
    l1: "receive l e = Inr (l1, map (\<lambda>b. (fd, whole b)) fs)" "holds l1 (p(fd := s)) []" by (auto simp: e fs)
  have st: "\<forall>x. parse ((p(fd := s)) x) = ([], (p(fd := s)) x)"
    using Cons.prems(3) parse_stable [of "p fd @ bs"] fs by simp
  from Cons.IH [OF l1(2) _ st] Cons.prems(2) obtain l2 out where
    l2: "receive_all l1 es = Inr (l2, out)"
    "\<forall>x. obtained out x = map whole (fst (parse ((p(fd := s)) x @ stream es x)))"
    "holds l2 (\<lambda>x. snd (parse ((p(fd := s)) x @ stream es x))) []" by auto
  have split: "parse (p x @ stream (e # es) x) =
      (let (gs, t) = parse ((p(fd := s)) x @ stream es x) in ((if x = fd then fs else []) @ gs, t))" for x
    using parse_append [of "p fd @ bs" "stream es fd"] fs by (simp add: stream_def e case_prod_beta)
  have "obtained (map (\<lambda>b. (fd, whole b)) fs @ out) x = map whole (fst (parse (p x @ stream (e # es) x)))" for x
    unfolding split using l2(2) by (simp add: obtained_def o_def case_prod_beta)
  moreover have "(\<lambda>x. snd (parse (p x @ stream (e # es) x))) = (\<lambda>x. snd (parse ((p(fd := s)) x @ stream es x)))"
    unfolding split by (simp add: case_prod_beta fun_eq_iff)
  ultimately show ?case using l1(1) l2(1,3) by simp
qed

text \<open>C30: However the streams of any number of sockets are cut into non-empty pieces and interleaved, reading them through
  the library ends without a fault and gives, for each socket, exactly the complete packages of its stream, in order; the rest
  of the stream stays pending and the queue is empty.\<close>

theorem netpack_stream:
  assumes "\<forall>e\<in>set es. snd e \<noteq> []"
  shows "\<exists>l out. receive_all None es = Inr (l, out) \<and>
    (\<forall>fd. obtained out fd = map whole (fst (parse (stream es fd))) \<and> pend l fd = snd (parse (stream es fd))) \<and>
    ring_rep l []"
  using receive_all_holds [OF holds_init assms] by (auto simp: holds_def fun_eq_iff)

theorem netpack_stream_witness:
  "\<exists>l out. receive_all None [(7, [0]), (8, [0, 1]), (7, [2, 65]), (8, [66]), (7, [67, 0])] = Inr (l, out) \<and>
    (\<forall>fd. obtained out fd = map whole (fst (parse (stream [(7, [0]), (8, [0, 1]), (7, [2, 65]), (8, [66]), (7, [67, 0])] fd))) \<and>
      pend l fd = snd (parse (stream [(7, [0]), (8, [0, 1]), (7, [2, 65]), (8, [66]), (7, [67, 0])] fd))) \<and>
    ring_rep l []"
  by (rule netpack_stream) simp

lemma parse_packs: "\<forall>m\<in>set ms. length m < 65536 \<Longrightarrow> parse (concat (map (\<lambda>m. write_size (length m) @ m) ms)) = (ms, [])"
  by (induction ms) (simp_all add: parse_write_size)

text \<open>C31: What one side packs with \<open>lpack\<close> and sends arrives on the other side as the same messages in the same order,
  for every segmentation and interleaving of the sockets.\<close>

theorem netpack_roundtrip:
  assumes "\<forall>e\<in>set es. snd e \<noteq> []"
    and "\<forall>fd. list_all2 (\<lambda>m p. lpack m = Inr p) (ms fd) (packs fd) \<and> stream es fd = concat (packs fd)"
  shows "\<exists>l out. receive_all None es = Inr (l, out) \<and> (\<forall>fd. obtained out fd = map whole (ms fd))"
proof -
  have *: "list_all2 (\<lambda>m p. lpack m = Inr p) xs ps \<Longrightarrow>
      ps = map (\<lambda>m. write_size (length m) @ m) xs \<and> (\<forall>m\<in>set xs. length m < 65536)" for xs ps
    by (induction xs ps rule: list_all2_induct) (auto simp: lpack_def split: if_splits)
  have "fst (parse (stream es fd)) = ms fd" for fd
    using * [of "ms fd" "packs fd"] assms(2) parse_packs [of "ms fd"] by simp
  then show ?thesis using receive_all_holds [OF holds_init assms(1)] by auto
qed

theorem netpack_roundtrip_witness:
  "\<exists>l out. receive_all None [(7, [0, 1]), (7, [65, 0, 0])] = Inr (l, out) \<and>
    (\<forall>fd. obtained out fd = map whole (if fd = 7 then [[65], []] else []))"
  by (rule netpack_roundtrip [where packs = "\<lambda>fd. if fd = 7 then [[0, 1, 65], [0, 0]] else []"])
    (simp_all add: lpack_def write_size_def stream_def)

section \<open>All events, and clearing\<close>

lemma close_uncomplete_holds: "holds l p ps \<Longrightarrow> holds (close_uncomplete l fd) (p(fd := [])) ps"
proof -
  assume a: "holds l p ps"
  then have t: "table_inv (qhash (get_queue l))" by (simp add: holds_def)
  obtain l1 where l1: "find_uncomplete l fd = (l1, lookup (qhash (get_queue l)) fd)"
    "table_inv (qhash (get_queue l1))" "lookup (qhash (get_queue l1)) fd = None"
    "\<And>fd'. fd' \<noteq> fd \<Longrightarrow> lookup (qhash (get_queue l1)) fd' = lookup (qhash (get_queue l)) fd'"
    "\<And>ps. ring_rep l1 ps \<longleftrightarrow> ring_rep l ps" "l1 = None \<longleftrightarrow> l = None"
    by (rule find_uncomplete_spec [OF t, of fd]) (rule that)
  have "pend l1 = p(fd := [])"
  proof
    fix x
    show "pend l1 x = (p(fd := [])) x" using a l1(3,4) by (cases "x = fd") (auto simp: holds_def pend_def)
  qed
  then show ?thesis using a l1 by (simp add: holds_def close_uncomplete_def)
qed

text \<open>The messages of the engine: data comes with a buffer and a positive length, the string of the other events follows the struct.\<close>

definition engine_message :: "netpack_message \<Rightarrow> bool" where
  "engine_message m \<longleftrightarrow>
     (if sm_type m = SOCKET_TYPE_DATA then \<not> sm_null m \<and> 0 < sm_ud m \<and> nat (sm_ud m) \<le> length (sm_buffer m) else sm_null m)"

text \<open>C32: No message of the engine makes \<open>lfilter\<close> fault. Data is delivered according to the stream of its socket; a close or an error drops
  what was pending for that socket; no event touches what other sockets have pending or the queued packages.\<close>

theorem netpack_events:
  assumes h: "holds l p ps" and m: "engine_message m"
  shows "\<exists>l' r. lfilter l m = Inr (l', r) \<and>
    (if sm_type m = SOCKET_TYPE_DATA
     then let (fs, s) = parse (p (sm_id m) @ take (nat (sm_ud m)) (sm_buffer m)) in delivers (sm_id m) fs s l' r p ps
     else if sm_type m = SOCKET_TYPE_CLOSE \<or> sm_type m = SOCKET_TYPE_ERROR then holds l' (p(sm_id m := [])) ps
     else holds l' p ps)"
proof -
  note tys = SOCKET_TYPE_DATA_def SOCKET_TYPE_CONNECT_def SOCKET_TYPE_CLOSE_def SOCKET_TYPE_ACCEPT_def
    SOCKET_TYPE_ERROR_def SOCKET_TYPE_WARNING_def
  show ?thesis
  proof (cases "sm_type m = SOCKET_TYPE_DATA")
    case True
    then have "take (nat (sm_ud m)) (sm_buffer m) \<noteq> []" "\<not> sm_null m" using m by (auto simp: engine_message_def)
    with filter_data_holds [OF h this(1), of "sm_id m"] True show ?thesis by (simp add: lfilter_def)
  next
    case False
    then show ?thesis using h m close_uncomplete_holds [OF h, of "sm_id m"]
      by (simp add: lfilter_def engine_message_def pushstring_def tys)
  qed
qed

theorem netpack_events_witness:
  "\<exists>l' r. lfilter None \<lparr>sm_type = 1, sm_id = 7, sm_ud = 3, sm_buffer = [0, 1, 65], sm_tail = [], sm_null = False\<rparr> = Inr (l', r) \<and>
    delivers 7 [[65]] [] l' r (\<lambda>_. []) []"
  using netpack_events [OF holds_init, of "\<lparr>sm_type = 1, sm_id = 7, sm_ud = 3, sm_buffer = [0, 1, 65], sm_tail = [], sm_null = False\<rparr>"]
  by (simp add: engine_message_def SOCKET_TYPE_DATA_def read_size_value)

lemma clear_ring_spec:
  "(\<And>i. i < length ps \<Longrightarrow> read_cell (qqueue q) ((k + i) mod qcap q) = Inr (ps ! i)) \<Longrightarrow>
    clear_ring q k (length ps) = Inr (map np_buffer ps)"
proof (induction ps arbitrary: k)
  case (Cons p ps)
  have "read_cell (qqueue q) ((k + 1 + i) mod qcap q) = Inr (ps ! i)" if "i < length ps" for i
    using Cons.prems [of "Suc i"] that by simp
  from Cons.IH [OF this] Cons.prems [of 0] show ?case by simp
qed simp

lemma wrapped_length: "h < c \<Longrightarrow> n < c \<Longrightarrow> (if h > (h + n) mod c then (h + n) mod c + c else (h + n) mod c) - h = (n::nat)"
  by (cases "h + n < c") (auto simp: mod_if)

text \<open>Clearing frees each waiting buffer and each queued one exactly once and leaves nothing pending and nothing queued.\<close>

lemma netpack_clear:
  assumes "holds l p ps"
  shows "\<exists>l'. lclear l = Inr (l', concat (map clear_list (qhash (get_queue l))) @ map np_buffer ps) \<and> holds l' (\<lambda>_. []) []"
proof (cases l)
  case None
  then show ?thesis using assms holds_init
    by (auto simp: lclear_def holds_def ring_rep_None get_queue_def clear_list_def)
next
  case (Some q)
  define q' where "q' = q\<lparr>qhash := replicate HASHSIZE [], qhead := 0, qtail := 0\<rparr>"
  have i: "0 < qcap q" "length (qqueue q) = qcap q" "qhead q < qcap q" "length ps < qcap q" "qtail q = (qhead q + length ps) mod qcap q"
    and c: "\<And>i. i < length ps \<Longrightarrow> qqueue q ! ((qhead q + i) mod qcap q) = Some (ps ! i)"
    using assms by (auto simp: holds_def ring_rep_def ring_inv_def Some)
  have "clear_ring q (qhead q) (length ps) = Inr (map np_buffer ps)"
    using c i by (intro clear_ring_spec) simp
  moreover have n: "(if qhead q > qtail q then qtail q + qcap q else qtail q) - qhead q = length ps"
    unfolding i(5) by (rule wrapped_length [OF i(3,4)])
  ultimately have "lclear l = Inr (Some q', concat (map clear_list (qhash (get_queue l))) @ map np_buffer ps)"
    unfolding lclear_def Some option.case Let_def n by (simp add: q'_def)
  moreover have "holds (Some q') (\<lambda>_. []) []"
    using i by (auto simp: holds_def table_inv_def ring_rep_def ring_inv_def pend_def lookup_def q'_def hash_fd_less fun_eq_iff)
  ultimately show ?thesis by blast
qed

lemma netpack_clear_witness: "\<exists>l'. lclear None = Inr (l', concat (map clear_list (qhash (get_queue None)))) \<and> holds l' (\<lambda>_. []) []"
  using netpack_clear [OF holds_init] by simp

end
