(* ===== verification/Seri.thy ===== *)
theory Seri
  imports Prelude
begin

text \<open>
  Model of \<^verbatim>\<open>lualib-src/lua-seri.c\<close>: the serialisation of Lua values with which services exchange messages.
  Values are written into a chain of blocks of 128 bytes and copied into one buffer at the end.

  A Lua value is a datatype. A table has the length that \<^verbatim>\<open>lua_rawlen\<close> reports for it and its entries in the order of
  \<^verbatim>\<open>lua_next\<close>; a table with a \<^verbatim>\<open>__pairs\<close> metamethod has the sequence of pairs that the iteration
  yields. Floating point numbers and pointers are their 64 bits.

  Reading recurses on the stream, of which every step consumes a byte; the model has a bound on the
  number of nested and repeated calls, which is proved sufficient for every stream.
  The counters of the source are \<^verbatim>\<open>int\<close>: packing ends with \<open>Int_overflow\<close> where the number of bytes does not fit, and a stream that is read has
  fewer than \<open>2 ^ 31\<close> bytes. The growth of the Lua stack (\<^verbatim>\<open>luaL_checkstack\<close>) and of the C stack by nested tables has no limit here.

  Proved: the chain of blocks holds the bytes written, in order; what is packed is unpacked
  again, the entries of tables included; packing fails exactly for unsupported values and for tables nested too
  deep; unpacking any bytes at all ends, with values or an error.
\<close>

section \<open>Values\<close>

type_synonym i64 = "64 word"

datatype lua_value =
    Nil
  | Boolean bool
  | Integer i64
  | Real u64
  | LightUserdata u64
  | String "u8 list"
  | Table nat "(lua_value \<times> lua_value) list"
  | MetaTable "(lua_value \<times> lua_value) list"
  | Unsupported

definition TYPE_NIL :: u8 where "TYPE_NIL = 0"
definition TYPE_BOOLEAN :: u8 where "TYPE_BOOLEAN = 1"
definition TYPE_NUMBER :: u8 where "TYPE_NUMBER = 2"
definition TYPE_NUMBER_ZERO :: nat where "TYPE_NUMBER_ZERO = 0"
definition TYPE_NUMBER_BYTE :: nat where "TYPE_NUMBER_BYTE = 1"
definition TYPE_NUMBER_WORD :: nat where "TYPE_NUMBER_WORD = 2"
definition TYPE_NUMBER_DWORD :: nat where "TYPE_NUMBER_DWORD = 4"
definition TYPE_NUMBER_QWORD :: nat where "TYPE_NUMBER_QWORD = 6"
definition TYPE_NUMBER_REAL :: nat where "TYPE_NUMBER_REAL = 8"
definition TYPE_USERDATA :: u8 where "TYPE_USERDATA = 3"
definition TYPE_SHORT_STRING :: u8 where "TYPE_SHORT_STRING = 4"
definition TYPE_LONG_STRING :: u8 where "TYPE_LONG_STRING = 5"
definition TYPE_TABLE :: u8 where "TYPE_TABLE = 6"
definition MAX_COOKIE :: nat where "MAX_COOKIE = 32"
definition BLOCK_SIZE :: nat where "BLOCK_SIZE = 128"
definition MAX_DEPTH :: nat where "MAX_DEPTH = 32"

definition COMBINE_TYPE :: "u8 \<Rightarrow> nat \<Rightarrow> u8" where
  "COMBINE_TYPE t v = t OR push_bit 3 (word_of_nat v)"

lemmas seri_consts = TYPE_NIL_def TYPE_BOOLEAN_def TYPE_NUMBER_def TYPE_NUMBER_ZERO_def TYPE_NUMBER_BYTE_def
  TYPE_NUMBER_WORD_def TYPE_NUMBER_DWORD_def TYPE_NUMBER_QWORD_def TYPE_NUMBER_REAL_def TYPE_USERDATA_def
  TYPE_SHORT_STRING_def TYPE_LONG_STRING_def TYPE_TABLE_def

text \<open>The bytes of an object in the memory of a little-endian host.\<close>

definition memory :: "nat \<Rightarrow> 64 word \<Rightarrow> u8 list" where
  "memory n w = map (\<lambda>i. ucast (drop_bit (8 * i) w)) [0..<n]"

section \<open>The chain of blocks\<close>

text \<open>
  The blocks in chain order; \<open>current\<close> is the last one. Cells not written are undefined. \<open>wlen\<close> is an \<^verbatim>\<open>int\<close> in the source;
  \<open>luaseri_pack\<close> ends with \<open>Int_overflow\<close> where it would not fit.
\<close>

record write_block =
  blocks :: "u8 option list list"
  wlen :: nat
  wptr :: nat

definition blk_alloc :: "u8 option list" where "blk_alloc = replicate BLOCK_SIZE None"

definition write_current :: "write_block \<Rightarrow> u8 list \<Rightarrow> write_block" where
  "write_current b bs =
     (let cur = last (blocks b); cur' = take (wptr b) cur @ map Some bs @ drop (wptr b + length bs) cur
      in b\<lparr>blocks := butlast (blocks b) @ [cur'], wlen := wlen b + length bs, wptr := wptr b + length bs\<rparr>)"

text \<open>The label \<open>_again\<close>: a new block, which takes all the data or its first 128 bytes.\<close>

function wb_again :: "write_block \<Rightarrow> u8 list \<Rightarrow> write_block" where
  "wb_again b bs =
     (let b = b\<lparr>blocks := blocks b @ [blk_alloc], wptr := 0\<rparr>
      in if length bs \<le> BLOCK_SIZE then write_current b bs
         else wb_again (write_current b (take BLOCK_SIZE bs)) (drop BLOCK_SIZE bs))"
  by pat_completeness auto
termination
  by (relation "measure (\<lambda>(b, bs). length bs)") (auto simp: BLOCK_SIZE_def)

declare wb_again.simps [simp del]

definition wb_push :: "write_block \<Rightarrow> u8 list \<Rightarrow> write_block" where
  "wb_push b bs =
     (if wptr b = BLOCK_SIZE then wb_again b bs
      else if int (wptr b) \<le> int BLOCK_SIZE - int (length bs) then write_current b bs
      else let copy = BLOCK_SIZE - wptr b in wb_again (write_current b (take copy bs)) (drop copy bs))"

definition wb_init :: write_block where
  "wb_init = \<lparr>blocks = [blk_alloc], wlen = 0, wptr = 0\<rparr>"

text \<open>The blocks behind the first are freed; they are returned.\<close>

definition wb_free :: "write_block \<Rightarrow> write_block \<times> u8 option list list" where
  "wb_free wb = (\<lparr>blocks = [], wlen = 0, wptr = 0\<rparr>, tl (blocks wb))"

text \<open>The final copy: full blocks, then the rest of the last one.\<close>

definition copy_cells :: "u8 option list \<Rightarrow> nat \<Rightarrow> u8 list res" where
  "copy_cells b n =
     (if length b < n then Inl Out_of_range
      else if None \<in> set (take n b) then Inl Uninit_read else Inr (map the (take n b)))"

fun seri :: "u8 option list list \<Rightarrow> nat \<Rightarrow> u8 list res" where
  "seri bs len =
     (if len > 0 then
        (case bs of
           [] \<Rightarrow> Inl Bad_pointer
         | b # bs' \<Rightarrow>
             if len \<ge> BLOCK_SIZE then
               andThen (copy_cells b BLOCK_SIZE) (\<lambda>x. andThen (seri bs' (len - BLOCK_SIZE)) (\<lambda>y. Inr (x @ y)))
             else copy_cells b len)
      else Inr [])"

declare seri.simps [simp del]

section \<open>Writing values\<close>

definition wb_nil :: "write_block \<Rightarrow> write_block" where "wb_nil wb = wb_push wb [TYPE_NIL]"

definition wb_boolean :: "write_block \<Rightarrow> bool \<Rightarrow> write_block" where
  "wb_boolean wb boolean = wb_push wb [COMBINE_TYPE TYPE_BOOLEAN (if boolean then 1 else 0)]"

definition wb_integer :: "write_block \<Rightarrow> i64 \<Rightarrow> write_block" where
  "wb_integer wb v =
     (if v = 0 then wb_push wb [COMBINE_TYPE TYPE_NUMBER TYPE_NUMBER_ZERO]
      else if v \<noteq> scast (ucast v :: 32 word) then
        wb_push (wb_push wb [COMBINE_TYPE TYPE_NUMBER TYPE_NUMBER_QWORD]) (memory 8 v)
      else if sint v < 0 then
        wb_push (wb_push wb [COMBINE_TYPE TYPE_NUMBER TYPE_NUMBER_DWORD]) (memory 4 v)
      else if sint v < 0x100 then
        wb_push (wb_push wb [COMBINE_TYPE TYPE_NUMBER TYPE_NUMBER_BYTE]) (memory 1 v)
      else if sint v < 0x10000 then
        wb_push (wb_push wb [COMBINE_TYPE TYPE_NUMBER TYPE_NUMBER_WORD]) (memory 2 v)
      else wb_push (wb_push wb [COMBINE_TYPE TYPE_NUMBER TYPE_NUMBER_DWORD]) (memory 4 v))"

definition wb_real :: "write_block \<Rightarrow> u64 \<Rightarrow> write_block" where
  "wb_real wb v = wb_push (wb_push wb [COMBINE_TYPE TYPE_NUMBER TYPE_NUMBER_REAL]) (memory 8 v)"

definition wb_pointer :: "write_block \<Rightarrow> u64 \<Rightarrow> write_block" where
  "wb_pointer wb v = wb_push (wb_push wb [TYPE_USERDATA]) (memory 8 v)"

text \<open>
  The size of a string is cast to an \<^verbatim>\<open>int\<close>: from \<open>2 ^ 31\<close> bytes on it may be negative, which is taken for the length of a short
  string. \<open>str\<close> are the bytes at the pointer.
\<close>

definition int_length :: "u8 list \<Rightarrow> int" where
  "int_length str = sint (word_of_nat (length str) :: 32 word)"

definition wb_string :: "write_block \<Rightarrow> u8 list \<Rightarrow> int \<Rightarrow> write_block" where
  "wb_string wb str len =
     (if len < int MAX_COOKIE then
        let wb = wb_push wb [COMBINE_TYPE TYPE_SHORT_STRING (unat (word_of_int len :: u8))] in
        if len > 0 then wb_push wb (take (nat len) str) else wb
      else if len < 0x10000 then
        wb_push (wb_push (wb_push wb [COMBINE_TYPE TYPE_LONG_STRING 2]) (memory 2 (word_of_int len))) (take (nat len) str)
      else
        wb_push (wb_push (wb_push wb [COMBINE_TYPE TYPE_LONG_STRING 4]) (memory 4 (word_of_int len))) (take (nat len) str))"

text \<open>Raw access to an integer key, and the entries that are not in the array part.\<close>

definition rawgeti :: "(lua_value \<times> lua_value) list \<Rightarrow> nat \<Rightarrow> lua_value" where
  "rawgeti kvs i = (case find (\<lambda>kv. fst kv = Integer (word_of_nat i)) kvs of None \<Rightarrow> Nil | Some kv \<Rightarrow> snd kv)"

definition in_array :: "nat \<Rightarrow> lua_value \<Rightarrow> bool" where
  "in_array n k = (case k of Integer x \<Rightarrow> 0 < sint x \<and> sint x \<le> int n | _ \<Rightarrow> False)"

text \<open>Repeating a step that may fail.\<close>

fun each :: "('a \<Rightarrow> 's \<Rightarrow> 'e + 's) \<Rightarrow> 'a list \<Rightarrow> 's \<Rightarrow> 'e + 's" where
  "each f [] s = Inr s"
| "each f (x # xs) s = (case f x s of Inl e \<Rightarrow> Inl e | Inr s' \<Rightarrow> each f xs s')"

lemma each_cong [fundef_cong]:
  "xs = ys \<Longrightarrow> s = t \<Longrightarrow> (\<And>x s. x \<in> set ys \<Longrightarrow> f x s = g x s) \<Longrightarrow> each f xs s = each g ys t"
  by (induction xs arbitrary: ys s t) (auto split: sum.split)

definition then_do :: "'e + 'a \<Rightarrow> ('a \<Rightarrow> 'e + 'b) \<Rightarrow> 'e + 'b" where
  "then_do m f = (case m of Inl e \<Rightarrow> Inl e | Inr x \<Rightarrow> f x)"

lemma then_do_simps [simp]: "then_do (Inl e) f = Inl e" "then_do (Inr x) f = f x"
  by (simp_all add: then_do_def)

lemma then_do_cong [fundef_cong]: "m = n \<Longrightarrow> (\<And>x. n = Inr x \<Longrightarrow> f x = g x) \<Longrightarrow> then_do m f = then_do n g"
  by (auto simp: then_do_def split: sum.split)

definition table_head :: "write_block \<Rightarrow> nat \<Rightarrow> write_block" where
  "table_head wb array_size =
     (if array_size \<ge> MAX_COOKIE - 1
      then wb_integer (wb_push wb [COMBINE_TYPE TYPE_TABLE (MAX_COOKIE - 1)]) (word_of_nat array_size)
      else wb_push wb [COMBINE_TYPE TYPE_TABLE array_size])"

lemma find_Some_in: "find p xs = Some x \<Longrightarrow> x \<in> set xs" by (induction xs) (auto split: if_splits)

lemma size_pair_less: "kv \<in> set kvs \<Longrightarrow> size (fst kv) < size (Table n kvs)" "kv \<in> set kvs \<Longrightarrow> size (snd kv) < size (Table n kvs)"
  by (induction kvs) auto

text \<open>
  \<open>wb_table_array\<close>, \<open>wb_table_hash\<close> and \<open>wb_table_metapairs\<close> as functions of the step for one value, which \<open>pack_one\<close> ties.
\<close>

definition wb_table_array :: "(lua_value \<Rightarrow> write_block \<Rightarrow> string + write_block) \<Rightarrow> nat \<Rightarrow> (lua_value \<times> lua_value) list \<Rightarrow> write_block \<Rightarrow> string + write_block" where
  "wb_table_array pack array_size kvs wb = each pack (map (rawgeti kvs) [1..<array_size + 1]) (table_head wb array_size)"

definition wb_pairs :: "(lua_value \<Rightarrow> write_block \<Rightarrow> string + write_block) \<Rightarrow> (lua_value \<times> lua_value) list \<Rightarrow> write_block \<Rightarrow> string + write_block" where
  "wb_pairs pack kvs wb =
     then_do (each (\<lambda>kv wb. then_do (pack (fst kv) wb) (pack (snd kv))) kvs wb) (\<lambda>wb. Inr (wb_nil wb))"

definition wb_table_hash :: "(lua_value \<Rightarrow> write_block \<Rightarrow> string + write_block) \<Rightarrow> nat \<Rightarrow> (lua_value \<times> lua_value) list \<Rightarrow> write_block \<Rightarrow> string + write_block" where
  "wb_table_hash pack array_size kvs wb = wb_pairs pack (filter (\<lambda>kv. \<not> in_array array_size (fst kv)) kvs) wb"

definition wb_table_metapairs :: "(lua_value \<Rightarrow> write_block \<Rightarrow> string + write_block) \<Rightarrow> (lua_value \<times> lua_value) list \<Rightarrow> write_block \<Rightarrow> string + write_block" where
  "wb_table_metapairs pack kvs wb = wb_pairs pack kvs (wb_push wb [COMBINE_TYPE TYPE_TABLE 0])"

lemma rawgeti_in: "rawgeti kvs i = Nil \<or> (\<exists>kv\<in>set kvs. rawgeti kvs i = snd kv)"
  by (force simp: rawgeti_def split: option.split dest: find_Some_in)

lemma wb_pairs_cong [fundef_cong]:
  "kvs = kvs' \<Longrightarrow> wb = wb' \<Longrightarrow> (\<And>kv wb. kv \<in> set kvs' \<Longrightarrow> f (fst kv) wb = g (fst kv) wb) \<Longrightarrow>
    (\<And>kv wb. kv \<in> set kvs' \<Longrightarrow> f (snd kv) wb = g (snd kv) wb) \<Longrightarrow> wb_pairs f kvs wb = wb_pairs g kvs' wb'"
  unfolding wb_pairs_def by (intro then_do_cong each_cong) auto

lemma wb_table_array_cong [fundef_cong]:
  "n = n' \<Longrightarrow> kvs = kvs' \<Longrightarrow> wb = wb' \<Longrightarrow> (\<And>v wb. v = Nil \<or> (\<exists>kv\<in>set kvs'. v = snd kv) \<Longrightarrow> f v wb = g v wb) \<Longrightarrow>
    wb_table_array f n kvs wb = wb_table_array g n' kvs' wb'"
  unfolding wb_table_array_def using rawgeti_in [of kvs'] by (intro each_cong) auto

lemma wb_table_hash_cong [fundef_cong]:
  "n = n' \<Longrightarrow> kvs = kvs' \<Longrightarrow> wb = wb' \<Longrightarrow> (\<And>kv wb. kv \<in> set kvs' \<Longrightarrow> f (fst kv) wb = g (fst kv) wb) \<Longrightarrow>
    (\<And>kv wb. kv \<in> set kvs' \<Longrightarrow> f (snd kv) wb = g (snd kv) wb) \<Longrightarrow> wb_table_hash f n kvs wb = wb_table_hash g n' kvs' wb'"
  unfolding wb_table_hash_def by (intro wb_pairs_cong) auto

lemma wb_table_metapairs_cong [fundef_cong]:
  "kvs = kvs' \<Longrightarrow> wb = wb' \<Longrightarrow> (\<And>kv wb. kv \<in> set kvs' \<Longrightarrow> f (fst kv) wb = g (fst kv) wb) \<Longrightarrow>
    (\<And>kv wb. kv \<in> set kvs' \<Longrightarrow> f (snd kv) wb = g (snd kv) wb) \<Longrightarrow> wb_table_metapairs f kvs wb = wb_table_metapairs g kvs' wb'"
  unfolding wb_table_metapairs_def by (intro wb_pairs_cong) auto

function pack_one :: "nat \<Rightarrow> lua_value \<Rightarrow> write_block \<Rightarrow> string + write_block" where
  "pack_one depth v b =
     (if depth > MAX_DEPTH then Inl ''serialize can't pack too depth table''
      else case v of
        Nil \<Rightarrow> Inr (wb_nil b)
      | Integer x \<Rightarrow> Inr (wb_integer b x)
      | Real n \<Rightarrow> Inr (wb_real b n)
      | Boolean c \<Rightarrow> Inr (wb_boolean b c)
      | String str \<Rightarrow> Inr (wb_string b str (int_length str))
      | LightUserdata p \<Rightarrow> Inr (wb_pointer b p)
      | Table n kvs \<Rightarrow>
          then_do (wb_table_array (pack_one (depth + 1)) n kvs b) (\<lambda>b. wb_table_hash (pack_one (depth + 1)) n kvs b)
      | MetaTable kvs \<Rightarrow> wb_table_metapairs (pack_one (depth + 1)) kvs b
      | Unsupported \<Rightarrow> Inl ''Unsupport type %s to serialize'')"
  by pat_completeness auto
termination
proof (relation "measure (\<lambda>(d, v, b). size v)", goal_cases)
  case (2 depth v b n kvs v' b')
  then show ?case using size_pair_less(2) [of _ kvs n] by auto
qed (auto dest: size_pair_less)
declare pack_one.simps [simp del]

fun pack_from :: "lua_value list \<Rightarrow> write_block \<Rightarrow> string + write_block" where
  "pack_from vs b = each (pack_one 0) vs b"

text \<open>
  The bytes, or the error of Lua; a fault is a copy from outside of the blocks, or a number of bytes that does not fit the \<^verbatim>\<open>int\<close>
  \<open>wb.len\<close>.
\<close>

definition luaseri_pack :: "lua_value list \<Rightarrow> (string + u8 list) res" where
  "luaseri_pack vs =
     (case pack_from vs wb_init of
        Inl e \<Rightarrow> Inr (Inl e)
      | Inr wb \<Rightarrow>
          if 2 ^ 31 \<le> wlen wb then Inl Int_overflow
          else andThen (seri (blocks wb) (wlen wb)) (\<lambda>bs. Inr (Inr bs)))"

section \<open>Reading values\<close>

datatype seri_error =
    Invalid_stream  \<comment> \<open>the error of \<open>invalid_stream\<close>\<close>
  | Too_big         \<comment> \<open>Lua refuses a string of negative length\<close>
  | Nan_index       \<comment> \<open>Lua refuses a key that is not a number\<close>
  | Null_pointer    \<comment> \<open>the error for a null buffer\<close>
  | No_fuel         \<comment> \<open>the bound on the calls is exhausted\<close>

text \<open>A read block is the bytes from its pointer on.\<close>

definition rb_read :: "u8 list \<Rightarrow> nat \<Rightarrow> seri_error + (u8 list \<times> u8 list)" where
  "rb_read rb sz = (if length rb < sz then Inl Invalid_stream else Inr (take sz rb, drop sz rb))"

fun of_memory :: "u8 list \<Rightarrow> 64 word" where
  "of_memory [] = 0"
| "of_memory (b # bs) = ucast b OR push_bit 8 (of_memory bs)"

definition get_integer :: "u8 list \<Rightarrow> nat \<Rightarrow> seri_error + (i64 \<times> u8 list)" where
  "get_integer rb cookie =
     (if cookie = TYPE_NUMBER_ZERO then Inr (0, rb)
      else if cookie = TYPE_NUMBER_BYTE then then_do (rb_read rb 1) (\<lambda>(n, rb). Inr (of_memory n, rb))
      else if cookie = TYPE_NUMBER_WORD then then_do (rb_read rb 2) (\<lambda>(n, rb). Inr (of_memory n, rb))
      else if cookie = TYPE_NUMBER_DWORD then
        then_do (rb_read rb 4) (\<lambda>(n, rb). Inr (scast (ucast (of_memory n) :: 32 word), rb))
      else if cookie = TYPE_NUMBER_QWORD then then_do (rb_read rb 8) (\<lambda>(n, rb). Inr (of_memory n, rb))
      else Inl Invalid_stream)"

definition get_real :: "u8 list \<Rightarrow> seri_error + (u64 \<times> u8 list)" where
  "get_real rb = then_do (rb_read rb 8) (\<lambda>(n, rb). Inr (of_memory n, rb))"

definition get_pointer :: "u8 list \<Rightarrow> seri_error + (u64 \<times> u8 list)" where
  "get_pointer rb = then_do (rb_read rb 8) (\<lambda>(n, rb). Inr (of_memory n, rb))"

text \<open>The length is an \<^verbatim>\<open>int\<close>; a negative one passes the test of \<open>rb_read\<close> and is refused by \<^verbatim>\<open>lua_pushlstring\<close>.\<close>

definition get_buffer :: "u8 list \<Rightarrow> 32 word \<Rightarrow> seri_error + (u8 list \<times> u8 list)" where
  "get_buffer rb len = (if sint len < 0 then Inl Too_big else rb_read rb (unat len))"

definition is_nan :: "u64 \<Rightarrow> bool" where
  "is_nan w = (drop_bit 52 w AND 0x7ff = 0x7ff \<and> w AND mask 52 \<noteq> 0)"

definition table_size :: "u8 list \<Rightarrow> nat \<Rightarrow> seri_error + (int \<times> u8 list)" where
  "table_size rb array_size =
     (if array_size = MAX_COOKIE - 1 then
        then_do (rb_read rb 1) (\<lambda>(t, rb).
          let type = hd t; cookie = unat (drop_bit 3 type) in
          if type AND 7 \<noteq> TYPE_NUMBER \<or> cookie = TYPE_NUMBER_REAL then Inl Invalid_stream
          else then_do (get_integer rb cookie) (\<lambda>(n, rb). Inr (sint (ucast n :: 32 word), rb)))
      else Inr (int array_size, rb))"

text \<open>
  The readers of tables use the reader \<open>one\<close> of single values, which \<open>unpack_one\<close> ties; a number bounds the nesting and the
  entries of the hash part. A table is returned with the assignments that build it, in order; its number is the size of the
  array part.
\<close>

type_synonym reader = "u8 list \<Rightarrow> seri_error + (lua_value \<times> u8 list)"

primrec unpack_array :: "reader \<Rightarrow> nat \<Rightarrow> nat \<Rightarrow> u8 list \<Rightarrow> seri_error + ((lua_value \<times> lua_value) list \<times> u8 list)" where
  "unpack_array one 0 i rb = Inr ([], rb)"
| "unpack_array one (Suc n) i rb =
     then_do (one rb) (\<lambda>(v, rb).
       then_do (unpack_array one n (i + 1) rb) (\<lambda>(xs, rb). Inr ((Integer (word_of_nat i), v) # xs, rb)))"

definition nan_key :: "lua_value \<Rightarrow> bool" where
  "nan_key k = (case k of Real x \<Rightarrow> is_nan x | _ \<Rightarrow> False)"

primrec unpack_hash :: "reader \<Rightarrow> nat \<Rightarrow> u8 list \<Rightarrow> seri_error + ((lua_value \<times> lua_value) list \<times> u8 list)" where
  "unpack_hash one 0 rb = Inl No_fuel"
| "unpack_hash one (Suc k) rb =
     then_do (one rb) (\<lambda>(key, rb).
       if key = Nil then Inr ([], rb)
       else then_do (one rb) (\<lambda>(v, rb).
         if nan_key key then Inl Nan_index
         else then_do (unpack_hash one k rb) (\<lambda>(kvs, rb). Inr ((key, v) # kvs, rb))))"

definition unpack_table :: "reader \<Rightarrow> nat \<Rightarrow> u8 list \<Rightarrow> nat \<Rightarrow> seri_error + (lua_value \<times> u8 list)" where
  "unpack_table one k rb array_size =
     then_do (table_size rb array_size) (\<lambda>(n, rb).
       then_do (unpack_array one (nat n) 1 rb) (\<lambda>(xs, rb).
         then_do (unpack_hash one k rb) (\<lambda>(kvs, rb). Inr (Table (nat n) (xs @ kvs), rb))))"

definition push_value :: "reader \<Rightarrow> nat \<Rightarrow> u8 list \<Rightarrow> u8 \<Rightarrow> nat \<Rightarrow> seri_error + (lua_value \<times> u8 list)" where
  "push_value one k rb type cookie =
     (if type = TYPE_NIL then Inr (Nil, rb)
      else if type = TYPE_BOOLEAN then Inr (Boolean (cookie \<noteq> 0), rb)
      else if type = TYPE_NUMBER then
        if cookie = TYPE_NUMBER_REAL then then_do (get_real rb) (\<lambda>(x, rb). Inr (Real x, rb))
        else then_do (get_integer rb cookie) (\<lambda>(x, rb). Inr (Integer x, rb))
      else if type = TYPE_USERDATA then then_do (get_pointer rb) (\<lambda>(x, rb). Inr (LightUserdata x, rb))
      else if type = TYPE_SHORT_STRING then
        then_do (get_buffer rb (word_of_nat cookie)) (\<lambda>(s, rb). Inr (String s, rb))
      else if type = TYPE_LONG_STRING then
        if cookie = 2 then
          then_do (rb_read rb 2) (\<lambda>(n, rb). then_do (get_buffer rb (ucast (of_memory n))) (\<lambda>(s, rb). Inr (String s, rb)))
        else if cookie \<noteq> 4 then Inl Invalid_stream
        else then_do (rb_read rb 4) (\<lambda>(n, rb). then_do (get_buffer rb (ucast (of_memory n))) (\<lambda>(s, rb). Inr (String s, rb)))
      else if type = TYPE_TABLE then unpack_table one k rb cookie
      else Inl Invalid_stream)"

primrec unpack_one :: "nat \<Rightarrow> reader" where
  "unpack_one 0 = (\<lambda>rb. Inl No_fuel)"
| "unpack_one (Suc k) = (\<lambda>rb.
     then_do (rb_read rb 1) (\<lambda>(t, rb). push_value (unpack_one k) k rb (hd t AND 7) (unat (drop_bit 3 (hd t)))))"

text \<open>The loop over the values of a message.\<close>

primrec unpack_values :: "nat \<Rightarrow> u8 list \<Rightarrow> seri_error + lua_value list" where
  "unpack_values 0 rb = Inl No_fuel"
| "unpack_values (Suc k) rb =
     (case rb_read rb 1 of
        Inl _ \<Rightarrow> Inr []
      | Inr (t, rb) \<Rightarrow>
          then_do (push_value (unpack_one k) k rb (hd t AND 7) (unat (drop_bit 3 (hd t)))) (\<lambda>(v, rb).
            then_do (unpack_values k rb) (\<lambda>vs. Inr (v # vs))))"

definition unpack_buffer :: "u8 list \<Rightarrow> seri_error + lua_value list" where
  "unpack_buffer buffer = (if buffer = [] then Inr [] else unpack_values (length buffer + 1) buffer)"

text \<open>The arguments: none, a string, or a pointer and a size. The memory behind the pointer has the size given.\<close>

datatype unpack_arg = No_arg | Lua_string "u8 list" | Lua_pointer "u8 list option" nat

definition luaseri_unpack :: "unpack_arg \<Rightarrow> seri_error + lua_value list" where
  "luaseri_unpack arg =
     (case arg of
        No_arg \<Rightarrow> Inr []
      | Lua_string s \<Rightarrow> unpack_buffer s
      | Lua_pointer p len \<Rightarrow>
          if len = 0 then Inr [] else (case p of None \<Rightarrow> Inl Null_pointer | Some m \<Rightarrow> unpack_buffer (take len m)))"

section \<open>The chain of blocks holds the bytes\<close>

text \<open>The contract of a place that bytes are appended to.\<close>

locale byte_sink =
  fixes push :: "'b \<Rightarrow> u8 list \<Rightarrow> 'b" and rep :: "'b \<Rightarrow> u8 list \<Rightarrow> bool"
  assumes push_rep: "rep b xs \<Longrightarrow> rep (push b bs) (xs @ bs)"
begin

lemma push2_rep: "rep b xs \<Longrightarrow> rep (push (push b bs) cs) (xs @ bs @ cs)"
  using push_rep [OF push_rep] by simp

lemma push3_rep: "rep b xs \<Longrightarrow> rep (push (push (push b bs) cs) ds) (xs @ bs @ cs @ ds)"
  using push_rep [OF push2_rep] by simp

text \<open>The result of writing: it succeeds exactly when \<open>ok\<close>, and then the bytes are there.\<close>

definition writes :: "bool \<Rightarrow> 'e + 'b \<Rightarrow> u8 list \<Rightarrow> bool" where
  "writes ok r ys \<longleftrightarrow> (case r of Inl e \<Rightarrow> \<not> ok | Inr b \<Rightarrow> ok \<and> rep b ys)"

lemma writes_Inr [simp]: "writes ok (Inr b) ys \<longleftrightarrow> ok \<and> rep b ys"
  by (simp add: writes_def)

lemma writes_Inl [simp]: "writes ok (Inl e) ys \<longleftrightarrow> \<not> ok"
  by (simp add: writes_def)

lemma writes_then:
  "writes p m ys \<Longrightarrow> (\<And>b. rep b ys \<Longrightarrow> writes q (f b) zs) \<Longrightarrow> writes (p \<and> q) (then_do m f) zs"
  by (cases m) (auto simp: writes_def split: sum.split)

lemma writes_each:
  "rep b xs \<Longrightarrow> (\<And>x b ys. x \<in> set vs \<Longrightarrow> rep b ys \<Longrightarrow> writes (ok x) (f x b) (ys @ e x)) \<Longrightarrow>
    writes (\<forall>x\<in>set vs. ok x) (each f vs b) (xs @ concat (map e vs))"
proof (induction vs arbitrary: b xs)
  case (Cons v vs)
  have "writes (ok v \<and> (\<forall>x\<in>set vs. ok x)) (then_do (f v b) (each f vs)) (xs @ concat (map e (v # vs)))"
  proof (rule writes_then)
    show "writes (ok v) (f v b) (xs @ e v)" using Cons.prems by simp
    show "writes (\<forall>x\<in>set vs. ok x) (each f vs b') (xs @ concat (map e (v # vs)))" if "rep b' (xs @ e v)" for b'
      using Cons.IH [OF that] Cons.prems(2) by simp
  qed
  then show ?case by (simp add: then_do_def)
qed simp

end

definition wb_rep :: "write_block \<Rightarrow> u8 list \<Rightarrow> bool" where
  "wb_rep b xs \<longleftrightarrow>
     (\<exists>pre cur. blocks b = pre @ [cur] \<and> (\<forall>x\<in>set (pre @ [cur]). length x = BLOCK_SIZE) \<and>
        concat pre @ take (wptr b) cur = map Some xs \<and> wlen b = length xs \<and> wptr b \<le> BLOCK_SIZE)"

lemma wb_rep_init: "wb_rep wb_init []"
  by (simp add: wb_rep_def wb_init_def blk_alloc_def)

lemma write_current_rep:
  assumes "wb_rep b xs" and "wptr b + length bs \<le> BLOCK_SIZE"
  shows "wb_rep (write_current b bs) (xs @ bs)"
proof -
  obtain pre cur where b: "blocks b = pre @ [cur]" "\<forall>x\<in>set (pre @ [cur]). length x = BLOCK_SIZE"
    "concat pre @ take (wptr b) cur = map Some xs" "wlen b = length xs" "wptr b \<le> BLOCK_SIZE"
    using assms(1) unfolding wb_rep_def by blast
  define cur' where "cur' = take (wptr b) cur @ map Some bs @ drop (wptr b + length bs) cur"
  have "concat pre @ take (wptr b + length bs) cur' = map Some (xs @ bs)"
    using b(2,3,5) by (simp add: cur'_def)
  moreover have "length cur' = BLOCK_SIZE" using b(2) assms(2) by (simp add: cur'_def)
  ultimately show ?thesis using b assms(2)
    unfolding wb_rep_def by (intro exI [of _ pre] exI [of _ cur']) (simp add: write_current_def cur'_def Let_def)
qed

lemma new_block_rep:
  "wb_rep b xs \<Longrightarrow> wptr b = BLOCK_SIZE \<Longrightarrow> wb_rep (b\<lparr>blocks := blocks b @ [blk_alloc], wptr := 0\<rparr>) xs"
proof -
  assume a: "wb_rep b xs" "wptr b = BLOCK_SIZE"
  then obtain pre cur where b: "blocks b = pre @ [cur]" "\<forall>x\<in>set (pre @ [cur]). length x = BLOCK_SIZE"
    "concat pre @ take (wptr b) cur = map Some xs" "wlen b = length xs" unfolding wb_rep_def by blast
  then show ?thesis using a(2)
    unfolding wb_rep_def by (intro exI [of _ "pre @ [cur]"] exI [of _ blk_alloc]) (simp add: blk_alloc_def)
qed

lemma wb_again_rep: "wb_rep b xs \<Longrightarrow> wptr b = BLOCK_SIZE \<Longrightarrow> wb_rep (wb_again b bs) (xs @ bs)"
proof (induction b bs arbitrary: xs rule: wb_again.induct)
  case (1 b bs)
  define b1 where "b1 = b\<lparr>blocks := blocks b @ [blk_alloc], wptr := 0\<rparr>"
  have b1: "wb_rep b1 xs" "wptr b1 = 0" using new_block_rep [OF 1(2,3)] by (simp_all add: b1_def)
  show ?case
  proof (cases "length bs \<le> BLOCK_SIZE")
    case True
    then show ?thesis using write_current_rep [OF b1(1), of bs] b1(2)
      by (subst wb_again.simps) (simp add: b1_def [symmetric] Let_def)
  next
    case False
    define b2 where "b2 = write_current b1 (take BLOCK_SIZE bs)"
    have "wb_rep b2 (xs @ take BLOCK_SIZE bs)" "wptr b2 = BLOCK_SIZE"
      using write_current_rep [OF b1(1), of "take BLOCK_SIZE bs"] b1(2) False by (simp_all add: b2_def write_current_def Let_def)
    then have "wb_rep (wb_again b2 (drop BLOCK_SIZE bs)) ((xs @ take BLOCK_SIZE bs) @ drop BLOCK_SIZE bs)"
      using "1.IH" [OF b1_def False, folded b2_def] by blast
    then show ?thesis using False
      by (subst wb_again.simps) (simp add: b1_def [symmetric] b2_def [symmetric] Let_def)
  qed
qed

lemma wb_push_rep: "wb_rep b xs \<Longrightarrow> wb_rep (wb_push b bs) (xs @ bs)"
proof -
  assume b: "wb_rep b xs"
  then have p: "wptr b \<le> BLOCK_SIZE" by (auto simp: wb_rep_def)
  define copy where "copy = BLOCK_SIZE - wptr b"
  show ?thesis
  proof (cases "wptr b = BLOCK_SIZE \<or> int (wptr b) \<le> int BLOCK_SIZE - int (length bs)")
    case True
    then show ?thesis using wb_again_rep [OF b] write_current_rep [OF b, of bs] by (auto simp: wb_push_def)
  next
    case False
    define b1 where "b1 = write_current b (take copy bs)"
    have "wb_rep b1 (xs @ take copy bs)" "wptr b1 = BLOCK_SIZE"
      using write_current_rep [OF b, of "take copy bs"] False p by (auto simp: b1_def copy_def write_current_def Let_def)
    from wb_again_rep [OF this, of "drop copy bs"] False show ?thesis
      by (simp add: wb_push_def copy_def [symmetric] b1_def [symmetric] Let_def)
  qed
qed

interpretation chain: byte_sink wb_push wb_rep
  by unfold_locales (rule wb_push_rep)

lemma copy_cells_Some: "take n b = map Some xs \<Longrightarrow> length xs = n \<Longrightarrow> copy_cells b n = Inr xs"
proof -
  assume a: "take n b = map Some xs" "length xs = n"
  then have "length (take n b) = n" by simp
  then have "n \<le> length b" by simp
  then show ?thesis using a(1) by (auto simp: copy_cells_def o_def)
qed

lemma seri_blocks:
  "\<forall>x\<in>set (pre @ [cur]). length x = BLOCK_SIZE \<Longrightarrow> concat pre @ take p cur = map Some xs \<Longrightarrow> p \<le> BLOCK_SIZE \<Longrightarrow>
    seri (pre @ [cur]) (length xs) = Inr xs"
proof (induction pre arbitrary: xs)
  case Nil
  then have c: "take p cur = map Some xs" "length xs = p" by auto (metis length_map length_take min.absorb2)
  show ?case
  proof (cases "p < BLOCK_SIZE")
    case True
    then show ?thesis using copy_cells_Some [OF c] c(2) by (subst seri.simps) auto
  next
    case False
    then have "p = BLOCK_SIZE" using Nil by simp
    then show ?thesis using copy_cells_Some [OF c] c(2) by (subst seri.simps) (auto simp: seri.simps BLOCK_SIZE_def)
  qed
next
  case (Cons b pre)
  define ys where "ys = take BLOCK_SIZE xs"
  have l: "length b = BLOCK_SIZE" using Cons.prems(1) by simp
  have "map Some xs = b @ concat pre @ take p cur" using Cons.prems(2) by simp
  then have s: "b = map Some ys" "concat pre @ take p cur = map Some (drop BLOCK_SIZE xs)"
    using l by (simp_all add: ys_def flip: take_map drop_map)
  have n: "BLOCK_SIZE \<le> length xs" "length ys = BLOCK_SIZE" "0 < BLOCK_SIZE"
    using s(1) l by (auto simp: ys_def BLOCK_SIZE_def)
  have "copy_cells b BLOCK_SIZE = Inr ys" using s(1) l n by (intro copy_cells_Some) simp_all
  moreover have "seri (pre @ [cur]) (length xs - BLOCK_SIZE) = Inr (drop BLOCK_SIZE xs)"
    using Cons.IH [OF _ s(2)] Cons.prems by simp
  ultimately show ?case using n by (subst seri.simps) (auto simp: ys_def)
qed

lemma seri_rep: "wb_rep b xs \<Longrightarrow> seri (blocks b) (wlen b) = Inr xs"
  unfolding wb_rep_def using seri_blocks by metis

lemma wb_rep_length: "wb_rep b xs \<Longrightarrow> wlen b = length xs"
  by (auto simp: wb_rep_def)

section \<open>The encoding\<close>

definition items :: "nat \<Rightarrow> (lua_value \<times> lua_value) list \<Rightarrow> lua_value list" where
  "items n kvs = map (rawgeti kvs) [1..<n + 1]"

definition others :: "nat \<Rightarrow> (lua_value \<times> lua_value) list \<Rightarrow> (lua_value \<times> lua_value) list" where
  "others n kvs = filter (\<lambda>kv. \<not> in_array n (fst kv)) kvs"

lemma pair_size:
  fixes kvs :: "(lua_value \<times> lua_value) list"
  assumes "kv \<in> set kvs"
  shows "size (fst kv) < Suc (size_list (\<lambda>x. Suc (size (fst x) + size (snd x))) kvs)"
    "size (snd kv) < Suc (size_list (\<lambda>x. Suc (size (fst x) + size (snd x))) kvs)"
  using assms by (induction kvs) auto

lemma items_size [termination_simp]: "v \<in> set (items n kvs) \<Longrightarrow> size v < Suc (size_list (\<lambda>x. Suc (size (fst x) + size (snd x))) kvs)"
proof -
  assume "v \<in> set (items n kvs)"
  then obtain i where "v = rawgeti kvs i" by (auto simp: items_def)
  then show ?thesis using rawgeti_in [of kvs i] pair_size(2) [of _ kvs] by auto
qed

lemma others_size [termination_simp]:
  "(a, b) \<in> set (others n kvs) \<Longrightarrow> size a < Suc (size_list (\<lambda>x. Suc (size (fst x) + size (snd x))) kvs)"
  "(a, b) \<in> set (others n kvs) \<Longrightarrow> size b < Suc (size_list (\<lambda>x. Suc (size (fst x) + size (snd x))) kvs)"
  using pair_size [of "(a, b)" kvs] by (auto simp: others_def)

definition int_bytes :: "i64 \<Rightarrow> u8 list" where
  "int_bytes v =
     (if v = 0 then [2] else if v \<noteq> scast (ucast v :: 32 word) then 50 # memory 8 v
      else if sint v < 0 then 34 # memory 4 v else if sint v < 0x100 then 10 # memory 1 v
      else if sint v < 0x10000 then 18 # memory 2 v else 34 # memory 4 v)"

text \<open>The bytes of a string, from the \<^verbatim>\<open>int\<close> that its size is cast to; below \<open>2 ^ 31\<close> bytes this is the size itself.\<close>

definition string_bytes :: "u8 list \<Rightarrow> u8 list" where
  "string_bytes s =
     (let len = int_length s in
      if len < 32 then COMBINE_TYPE 4 (unat (word_of_int len :: u8)) # take (nat len) s
      else if len < 0x10000 then 21 # memory 2 (word_of_int len) @ take (nat len) s
      else 37 # memory 4 (word_of_int len) @ take (nat len) s)"

lemma int_length_small: "length s < 2 ^ 31 \<Longrightarrow> int_length s = int (length s)"
  by (simp add: int_length_def signed_of_nat signed_take_bit_int_eq_self)

lemma string_bytes_small:
  assumes "length s < 2 ^ 31"
  shows "string_bytes s =
     (if length s < 32 then COMBINE_TYPE 4 (length s) # s
      else if length s < 0x10000 then 21 # memory 2 (word_of_nat (length s)) @ s
      else 37 # memory 4 (word_of_nat (length s)) @ s)"
  using int_length_small [OF assms] by (auto simp: string_bytes_def Let_def unat_of_nat)

definition head_bytes :: "nat \<Rightarrow> u8 list" where
  "head_bytes n = (if 31 \<le> n then 254 # int_bytes (word_of_nat n) else [COMBINE_TYPE 6 n])"

text \<open>The bytes of a value, as a function of the value alone.\<close>

fun encoding :: "lua_value \<Rightarrow> u8 list" where
  "encoding Nil = [0]"
| "encoding (Boolean b) = [if b then 9 else 1]"
| "encoding (Integer v) = int_bytes v"
| "encoding (Real v) = 66 # memory 8 v"
| "encoding (LightUserdata v) = 3 # memory 8 v"
| "encoding (String s) = string_bytes s"
| "encoding (Table n kvs) = head_bytes n @ concat (map encoding (items n kvs)) @
     concat (map (\<lambda>kv. encoding (fst kv) @ encoding (snd kv)) (others n kvs)) @ [0]"
| "encoding (MetaTable kvs) = 6 # concat (map (\<lambda>kv. encoding (fst kv) @ encoding (snd kv)) kvs) @ [0]"
| "encoding Unsupported = []"

text \<open>The values that can be packed at a depth.\<close>

fun packable :: "nat \<Rightarrow> lua_value \<Rightarrow> bool" where
  "packable d Unsupported = False"
| "packable d (Table n kvs) = (d \<le> 32 \<and> (\<forall>v\<in>set (items n kvs). packable (d + 1) v) \<and>
     (\<forall>kv\<in>set (others n kvs). packable (d + 1) (fst kv) \<and> packable (d + 1) (snd kv)))"
| "packable d (MetaTable kvs) = (d \<le> 32 \<and> (\<forall>kv\<in>set kvs. packable (d + 1) (fst kv) \<and> packable (d + 1) (snd kv)))"
| "packable d v = (d \<le> 32)"

lemma wb_integer_rep: "wb_rep b xs \<Longrightarrow> wb_rep (wb_integer b v) (xs @ int_bytes v)"
  using chain.push_rep [of b xs] chain.push2_rep [of b xs]
  by (simp add: wb_integer_def int_bytes_def COMBINE_TYPE_def seri_consts)
    (metis append_Cons append_Nil)

lemma wb_string_rep: "wb_rep b xs \<Longrightarrow> wb_rep (wb_string b s (int_length s)) (xs @ string_bytes s)"
proof -
  assume b: "wb_rep b xs"
  define len where "len = int_length s"
  define c where "c = COMBINE_TYPE 4 (unat (word_of_int len :: u8))"
  show ?thesis
    using chain.push_rep [OF b, of "[c]"] chain.push2_rep [OF b, of "[c]" "take (nat len) s"]
      chain.push3_rep [OF b, of "[21]" "memory 2 (word_of_int len)" "take (nat len) s"]
      chain.push3_rep [OF b, of "[37]" "memory 4 (word_of_int len)" "take (nat len) s"]
    unfolding wb_string_def string_bytes_def len_def [symmetric] Let_def TYPE_SHORT_STRING_def TYPE_LONG_STRING_def MAX_COOKIE_def c_def [symmetric]
    by (auto simp: COMBINE_TYPE_def)
qed

lemma table_head_rep: "wb_rep b xs \<Longrightarrow> wb_rep (table_head b n) (xs @ head_bytes n)"
  using wb_integer_rep [OF chain.push_rep [of b xs "[254]"], of "word_of_nat n"] chain.push_rep [of b xs "[COMBINE_TYPE 6 n]"]
  by (auto simp: table_head_def head_bytes_def seri_consts MAX_COOKIE_def COMBINE_TYPE_def)

definition pair_bytes :: "lua_value \<times> lua_value \<Rightarrow> u8 list" where
  "pair_bytes kv = encoding (fst kv) @ encoding (snd kv)"

lemma wb_pairs_writes:
  assumes b: "wb_rep b xs"
    and f: "\<And>kv b ys. kv \<in> set kvs \<Longrightarrow> wb_rep b ys \<Longrightarrow> chain.writes (ok (fst kv)) (f (fst kv) b) (ys @ encoding (fst kv))"
      "\<And>kv b ys. kv \<in> set kvs \<Longrightarrow> wb_rep b ys \<Longrightarrow> chain.writes (ok (snd kv)) (f (snd kv) b) (ys @ encoding (snd kv))"
  shows "chain.writes (\<forall>kv\<in>set kvs. ok (fst kv) \<and> ok (snd kv)) (wb_pairs f kvs b) (xs @ concat (map pair_bytes kvs) @ [0])"
proof -
  have "chain.writes (ok (fst kv) \<and> ok (snd kv)) (then_do (f (fst kv) b) (f (snd kv))) (ys @ pair_bytes kv)"
    if "kv \<in> set kvs" "wb_rep b ys" for kv b ys
    using f(1) [OF that] f(2) [OF that(1)] unfolding pair_bytes_def append_assoc [symmetric] by (rule chain.writes_then)
  from chain.writes_each [OF b, of kvs, OF this]
  have "chain.writes ((\<forall>kv\<in>set kvs. ok (fst kv) \<and> ok (snd kv)) \<and> True) (wb_pairs f kvs b) (xs @ concat (map pair_bytes kvs) @ [0])"
    unfolding wb_pairs_def
  proof (rule chain.writes_then)
    show "chain.writes True (Inr (wb_nil wb)) (xs @ concat (map pair_bytes kvs) @ [0])" if "wb_rep wb (xs @ concat (map pair_bytes kvs))" for wb
      using chain.push_rep [OF that, of "[0]"] by (simp add: wb_nil_def TYPE_NIL_def)
  qed
  then show ?thesis by simp
qed

lemma pair_bytes_map: "map (\<lambda>kv. encoding (fst kv) @ encoding (snd kv)) kvs = map pair_bytes kvs"
  by (simp add: pair_bytes_def)

lemma component_sizes:
  "v \<in> set (items n kvs) \<Longrightarrow> size v < size (Table n kvs)"
  "kv \<in> set (others n kvs) \<Longrightarrow> size (fst kv) < size (Table n kvs) \<and> size (snd kv) < size (Table n kvs)"
  "kv \<in> set kvs \<Longrightarrow> size (fst kv) < size (MetaTable kvs) \<and> size (snd kv) < size (MetaTable kvs)"
proof -
  show "size v < size (Table n kvs)" if v: "v \<in> set (items n kvs)"
  proof -
    obtain i where "v = rawgeti kvs i" using v by (auto simp: items_def)
    then show ?thesis using rawgeti_in [of kvs i] size_pair_less(2) [of _ kvs n] by auto
  qed
  show "size (fst kv) < size (Table n kvs) \<and> size (snd kv) < size (Table n kvs)" if "kv \<in> set (others n kvs)"
    using that size_pair_less [of kv kvs n] by (auto simp: others_def)
  show "size (fst kv) < size (MetaTable kvs) \<and> size (snd kv) < size (MetaTable kvs)" if "kv \<in> set kvs"
    using size_pair_less [OF that] by simp
qed

text \<open>Packing succeeds exactly for packable values and appends their encoding.\<close>

lemma pack_one_writes: "wb_rep b xs \<Longrightarrow> chain.writes (packable d v) (pack_one d v b) (xs @ encoding v)"
proof (induction v arbitrary: d b xs rule: measure_induct_rule [of size])
  case (less v)
  note push = chain.push_rep [OF less.prems] chain.push2_rep [OF less.prems]
  show ?case
  proof (cases "d \<le> 32")
    case False
    then have "pack_one d v b = Inl ''serialize can't pack too depth table''" by (simp add: pack_one.simps MAX_DEPTH_def)
    moreover have "\<not> packable d v" using False by (cases v) simp_all
    ultimately show ?thesis by simp
  next
    case True
    then have d: "\<not> d > MAX_DEPTH" by (simp add: MAX_DEPTH_def)
    show ?thesis
    proof (cases v)
      case (Table n kvs)
      have array: "chain.writes (\<forall>v\<in>set (items n kvs). packable (d + 1) v) (wb_table_array (pack_one (d + 1)) n kvs b)
          (xs @ head_bytes n @ concat (map encoding (items n kvs)))"
        unfolding wb_table_array_def items_def [symmetric] append_assoc [symmetric]
        by (rule chain.writes_each [OF table_head_rep [OF less.prems]]) (use less.IH component_sizes(1) Table in blast)
      have hash: "chain.writes (\<forall>kv\<in>set (others n kvs). packable (d + 1) (fst kv) \<and> packable (d + 1) (snd kv))
          (wb_table_hash (pack_one (d + 1)) n kvs b') (ys @ concat (map pair_bytes (others n kvs)) @ [0])"
        if "wb_rep b' ys" for b' ys
        unfolding wb_table_hash_def others_def [symmetric]
        by (rule wb_pairs_writes [OF that]) (use less.IH component_sizes(2) Table in blast)+
      have "chain.writes ((\<forall>v\<in>set (items n kvs). packable (d + 1) v) \<and> (\<forall>kv\<in>set (others n kvs). packable (d + 1) (fst kv) \<and> packable (d + 1) (snd kv)))
          (then_do (wb_table_array (pack_one (d + 1)) n kvs b) (wb_table_hash (pack_one (d + 1)) n kvs))
          ((xs @ head_bytes n @ concat (map encoding (items n kvs))) @ concat (map pair_bytes (others n kvs)) @ [0])"
        using array hash by (rule chain.writes_then)
      then show ?thesis using d True by (simp add: Table pack_one.simps pair_bytes_map)
    next
      case (MetaTable kvs)
      have "chain.writes (\<forall>kv\<in>set kvs. packable (d + 1) (fst kv) \<and> packable (d + 1) (snd kv))
          (wb_table_metapairs (pack_one (d + 1)) kvs b) ((xs @ [6]) @ concat (map pair_bytes kvs) @ [0])"
        unfolding wb_table_metapairs_def
      proof (rule wb_pairs_writes)
        show "wb_rep (wb_push b [COMBINE_TYPE TYPE_TABLE 0]) (xs @ [6])"
          using push(1) [of "[6]"] by (simp add: COMBINE_TYPE_def TYPE_TABLE_def)
      qed (use less.IH component_sizes(3) MetaTable in blast)+
      then show ?thesis using d True by (simp add: MetaTable pack_one.simps pair_bytes_map)
    qed (use d True push push(2) [of "[66]"] push(2) [of "[3]"] wb_integer_rep [OF less.prems] wb_string_rep [OF less.prems] in
        \<open>simp_all add: pack_one.simps wb_nil_def wb_boolean_def wb_real_def wb_pointer_def COMBINE_TYPE_def seri_consts\<close>)
  qed
qed

section \<open>Reading back\<close>

text \<open>What a value becomes: its entries are assigned anew, the array part first.\<close>

fun restored :: "lua_value \<Rightarrow> lua_value" where
  "restored (Table n kvs) = Table n (zip (map (\<lambda>i. Integer (word_of_nat i)) [1..<n + 1]) (map restored (items n kvs)) @
     map (\<lambda>kv. (restored (fst kv), restored (snd kv))) (others n kvs))"
| "restored (MetaTable kvs) = Table 0 (map (\<lambda>kv. (restored (fst kv), restored (snd kv))) kvs)"
| "restored v = v"

text \<open>Values within the limits of the format: sizes fit an \<^verbatim>\<open>int\<close>, and a key is neither nil nor NaN.\<close>

fun storable :: "lua_value \<Rightarrow> bool" where
  "storable (String s) = (length s < 2 ^ 31)"
| "storable (Table n kvs) = (n < 2 ^ 31 \<and> (\<forall>v\<in>set (items n kvs). storable v) \<and>
     (\<forall>kv\<in>set (others n kvs). fst kv \<noteq> Nil \<and> \<not> nan_key (fst kv) \<and> storable (fst kv) \<and> storable (snd kv)))"
| "storable (MetaTable kvs) = (\<forall>kv\<in>set kvs. fst kv \<noteq> Nil \<and> \<not> nan_key (fst kv) \<and> storable (fst kv) \<and> storable (snd kv))"
| "storable Unsupported = False"
| "storable v = True"

lemma memory_Suc: "memory (Suc n) w = ucast w # memory n (drop_bit 8 w)"
  unfolding memory_def by (subst upt_conv_Cons) (simp_all add: map_Suc_upt [symmetric] o_def ac_simps del: upt_Suc)

lemma length_memory [simp]: "length (memory n w) = n" by (simp add: memory_def)

lemma of_memory_memory: "of_memory (memory n w) = take_bit (8 * n) w"
proof (induction n arbitrary: w)
  case 0
  show ?case by (simp add: memory_def)
next
  case (Suc n)
  have "ucast (ucast w :: u8) OR push_bit 8 (take_bit (8 * n) (drop_bit 8 w)) = take_bit (8 * Suc n) w"
    by (rule bit_word_eqI) (auto simp: bit_simps)
  then show ?case by (simp add: memory_Suc Suc)
qed

lemma take_bit_small: "unat w < 2 ^ k \<Longrightarrow> take_bit k w = (w :: 64 word)"
  by (simp add: word_unat_eq_iff unsigned_take_bit_eq take_bit_nat_eq_self)

lemma take_bit_full: "take_bit 64 w = (w :: 64 word)"
  using unsigned_less [of w] by (intro take_bit_small) simp

lemma rb_read_append: "length m = n \<Longrightarrow> rb_read (m @ s) n = Inr (m, s)"
  by (simp add: rb_read_def)

lemma ucast_take_bit: "ucast (take_bit 32 v :: 64 word) = (ucast v :: 32 word)"
  by (rule bit_word_eqI) (auto simp: bit_simps)

lemma sint_nonneg_unat: "0 \<le> sint (v::64 word) \<Longrightarrow> int (unat v) = sint v"
proof -
  assume "0 \<le> sint v"
  moreover have "sint v < 2 ^ 63" using sint_lt [of v] by simp
  ultimately have "uint v = sint v" unfolding uint_sint by (simp add: take_bit_eq_mod)
  then show ?thesis by simp
qed

text \<open>The bytes of an integer start with its type and are read back.\<close>

lemma int_bytes_read:
  obtains c r where "int_bytes v = c # r" "c AND 7 = 2" "unat (drop_bit 3 c) \<noteq> 8"
    "\<And>s. get_integer (r @ s) (unat (drop_bit 3 c)) = Inr (v, s)"
proof -
  note rd = get_integer_def seri_consts rb_read_append of_memory_memory ucast_take_bit
  consider "v = 0" | "v \<noteq> 0" "v \<noteq> scast (ucast v :: 32 word)" | "v \<noteq> 0" "v = scast (ucast v :: 32 word)" "sint v < 0 \<or> 0x10000 \<le> sint v"
    | "v \<noteq> 0" "v = scast (ucast v :: 32 word)" "0 \<le> sint v" "sint v < 0x100"
    | "v \<noteq> 0" "v = scast (ucast v :: 32 word)" "0x100 \<le> sint v" "sint v < 0x10000"
    by linarith
  then show ?thesis
  proof cases
    case 1
    then show ?thesis by (intro that [of 2 "[]"]) (simp_all add: int_bytes_def rd)
  next
    case 2
    moreover have "take_bit 64 v = v" by (rule take_bit_full)
    ultimately show ?thesis by (intro that [of 50 "memory 8 v"]) (simp_all add: int_bytes_def rd)
  next
    case 3
    have "int_bytes v = 34 # memory 4 v" unfolding int_bytes_def using 3 by auto
    then show ?thesis using 3(2) by (intro that [of 34 "memory 4 v"]) (simp_all add: rd)
  next
    case 4
    have "unat v < 256" using sint_nonneg_unat [OF 4(3)] 4(4) by linarith
    moreover have "int_bytes v = 10 # memory 1 v" unfolding int_bytes_def using 4 by auto
    ultimately show ?thesis by (intro that [of 10 "memory 1 v"]) (simp_all add: rd take_bit_small)
  next
    case 5
    have "unat v < 65536" using sint_nonneg_unat [of v] 5(3,4) by linarith
    moreover have "int_bytes v = 18 # memory 2 v" unfolding int_bytes_def using 5 by auto
    ultimately show ?thesis by (intro that [of 18 "memory 2 v"]) (simp_all add: rd take_bit_small)
  qed
qed

lemma unpack_one_Cons: "unpack_one (Suc k) (c # s) = push_value (unpack_one k) k s (c AND 7) (unat (drop_bit 3 c))"
  by (simp add: rb_read_def)

lemma get_buffer_append: "length s < 2 ^ 31 \<Longrightarrow> unat (w :: 32 word) = length s \<Longrightarrow> get_buffer (s @ t) w = Inr (s, t)"
  using sint_small [of w] by (simp add: get_buffer_def rb_read_append)

lemma combine_fields: "n < 32 \<Longrightarrow> t \<in> {4, 6} \<Longrightarrow> COMBINE_TYPE t n AND 7 = t \<and> unat (drop_bit 3 (COMBINE_TYPE t n)) = n"
proof -
  have "list_all (\<lambda>n. COMBINE_TYPE 4 n AND 7 = 4 \<and> unat (drop_bit 3 (COMBINE_TYPE 4 n)) = n \<and>
      COMBINE_TYPE 6 n AND 7 = 6 \<and> unat (drop_bit 3 (COMBINE_TYPE 6 n)) = n) [0..<32]" by code_simp
  then show "n < 32 \<Longrightarrow> t \<in> {4, 6} \<Longrightarrow> ?thesis" by (auto simp: list_all_iff)
qed

lemma unat_length_word: "n < 2 ^ 31 \<Longrightarrow> unat (word_of_nat n :: 64 word) = n" "n < 2 ^ 31 \<Longrightarrow> unat (word_of_nat n :: 32 word) = n"
  by (simp_all add: unat_of_nat)

lemma string_read: "length s < 2 ^ 31 \<Longrightarrow> unpack_one (Suc k) (string_bytes s @ t) = Inr (String s, t)"
proof -
  assume s: "length s < 2 ^ 31"
  have u: "unat (ucast (take_bit j (word_of_nat (length s) :: 64 word)) :: 32 word) = length s" if "length s < 2 ^ j" for j
  proof -
    have "take_bit j (word_of_nat (length s) :: 64 word) = word_of_nat (length s)"
      using s that by (intro take_bit_small) (simp add: unat_length_word)
    then show ?thesis using s by (simp add: unsigned_ucast_eq unat_length_word take_bit_nat_eq_self)
  qed
  consider "length s < 32" | "32 \<le> length s" "length s < 0x10000" | "0x10000 \<le> length s" by linarith
  then show ?thesis
  proof cases
    case 1
    then show ?thesis using combine_fields [OF 1, of 4] get_buffer_append [OF s, of "word_of_nat (length s)" t] s
      by (simp add: string_bytes_small unpack_one_Cons push_value_def seri_consts unat_length_word del: unpack_one.simps)
  next
    case 2
    then show ?thesis using get_buffer_append [OF s u [of 16], of t]
      by (simp add: string_bytes_small unpack_one_Cons push_value_def seri_consts rb_read_append of_memory_memory del: unpack_one.simps)
  next
    case 3
    then show ?thesis using get_buffer_append [OF s u [of 32], of t] s
      by (simp add: string_bytes_small unpack_one_Cons push_value_def seri_consts rb_read_append of_memory_memory del: unpack_one.simps)
  qed
qed

lemma head_read:
  assumes "n < 2 ^ 31"
  obtains c r where "head_bytes n = c # r" "c AND 7 = 6" "\<And>s. table_size (r @ s) (unat (drop_bit 3 c)) = Inr (int n, s)"
proof (cases "31 \<le> n")
  case True
  obtain c r where c: "int_bytes (word_of_nat n) = c # r" "c AND 7 = 2" "unat (drop_bit 3 c) \<noteq> 8"
    "\<And>s. get_integer (r @ s) (unat (drop_bit 3 c)) = Inr (word_of_nat n, s)" by (rule int_bytes_read [of "word_of_nat n"]) (rule that)
  have "ucast (word_of_nat n :: 64 word) = (word_of_nat n :: 32 word)"
    using assms by (simp add: word_unat_eq_iff unsigned_ucast_eq unat_length_word take_bit_nat_eq_self)
  then have "sint (ucast (word_of_nat n :: 64 word) :: 32 word) = int n" using assms sint_small [of "word_of_nat n"] by (simp add: unat_length_word)
  then show ?thesis using c True
    by (intro that [of 254 "c # r"]) (simp_all add: head_bytes_def table_size_def MAX_COOKIE_def seri_consts rb_read_def Let_def)
next
  case False
  then show ?thesis using combine_fields [of n 6]
    by (intro that [of "COMBINE_TYPE 6 n" "[]"]) (simp_all add: head_bytes_def table_size_def MAX_COOKIE_def)
qed

lemma array_read:
  assumes "\<And>v t. v \<in> set vs \<Longrightarrow> length (encoding v @ t) < k \<Longrightarrow> one (encoding v @ t) = Inr (restored v, t)"
    and "length (concat (map encoding vs) @ s) < k"
  shows "unpack_array one (length vs) i (concat (map encoding vs) @ s) =
    Inr (zip (map (\<lambda>i. Integer (word_of_nat i)) [i..<i + length vs]) (map restored vs), s)"
  using assms
proof (induction vs arbitrary: i)
  case (Cons v vs)
  have "unpack_array one (length vs) (i + 1) (concat (map encoding vs) @ s) =
    Inr (zip (map (\<lambda>i. Integer (word_of_nat i)) [i + 1..<i + 1 + length vs]) (map restored vs), s)"
    using Cons.prems by (intro Cons.IH) auto
  moreover have "[i..<i + length (v # vs)] = i # [i + 1..<i + 1 + length vs]" by (simp add: upt_conv_Cons del: upt_Suc)
  ultimately show ?case using Cons.prems(1) [of v "concat (map encoding vs) @ s"] Cons.prems(2) by (simp del: upt_Suc)
qed simp

lemma restored_Nil: "restored v = Nil \<longleftrightarrow> v = Nil" by (cases v) simp_all

lemma nan_key_restored: "nan_key (restored v) = nan_key v" by (cases v) (simp_all add: nan_key_def)

lemma hash_read:
  assumes "\<And>v t. (\<exists>kv\<in>set kvs. v = fst kv \<or> v = snd kv) \<Longrightarrow> length (encoding v @ t) < k \<Longrightarrow> one (encoding v @ t) = Inr (restored v, t)"
    and "\<And>t. length t + 1 < k \<Longrightarrow> one (0 # t) = Inr (Nil, t)"
    and "\<forall>kv\<in>set kvs. fst kv \<noteq> Nil \<and> \<not> nan_key (fst kv)"
    and "length (concat (map pair_bytes kvs) @ 0 # s) < k" and "length kvs < m"
  shows "unpack_hash one m (concat (map pair_bytes kvs) @ 0 # s) = Inr (map (\<lambda>kv. (restored (fst kv), restored (snd kv))) kvs, s)"
  using assms
proof (induction kvs arbitrary: m)
  case Nil
  then show ?case by (cases m) simp_all
next
  case (Cons kv kvs)
  then obtain m' where m: "m = Suc m'" by (cases m) auto
  define t where "t = concat (map pair_bytes kvs) @ 0 # s"
  have IH: "unpack_hash one m' t = Inr (map (\<lambda>kv. (restored (fst kv), restored (snd kv))) kvs, s)"
    unfolding t_def using Cons.prems m by (intro Cons.IH) auto
  have len: "length (encoding (fst kv) @ encoding (snd kv) @ t) < k" using Cons.prems(4) by (simp add: t_def pair_bytes_def [of kv])
  have "one (encoding (fst kv) @ encoding (snd kv) @ t) = Inr (restored (fst kv), encoding (snd kv) @ t)"
    using Cons.prems(1) [OF _ len] by auto
  moreover have "one (encoding (snd kv) @ t) = Inr (restored (snd kv), t)"
    using Cons.prems(1) [of "snd kv" t] len by auto
  ultimately show ?case using IH Cons.prems(3) by (simp add: m pair_bytes_def [of kv] t_def [symmetric] restored_Nil nan_key_restored)
qed

lemma encoding_nonempty: "storable v \<Longrightarrow> encoding v \<noteq> []"
proof (cases v)
  case (Integer x)
  then show ?thesis using int_bytes_read [of x] by (metis encoding.simps(3) list.distinct(1))
qed (auto simp: string_bytes_def Let_def)

text \<open>Every storable value is read back from its encoding, whatever follows.\<close>

lemma unpack_one_encoding:
  "storable v \<Longrightarrow> length (encoding v @ t) < k \<Longrightarrow> unpack_one k (encoding v @ t) = Inr (restored v, t)"
proof (induction v arbitrary: t k rule: measure_induct_rule [of size])
  case (less v)
  then obtain k' where k: "k = Suc k'" by (cases k) auto
  note rd = k unpack_one_Cons push_value_def seri_consts rb_read_append of_memory_memory take_bit_full
  have nil: "unpack_one k' (0 # t) = Inr (Nil, t)" if "length t + 1 < k'" for t
    using that by (cases k') (simp_all add: unpack_one_Cons push_value_def seri_consts del: unpack_one.simps(2))
  have pairs: "unpack_hash (unpack_one k') k' (concat (map pair_bytes kvs) @ 0 # t) =
      Inr (map (\<lambda>kv. (restored (fst kv), restored (snd kv))) kvs, t)"
    if kvs: "\<forall>kv\<in>set kvs. fst kv \<noteq> Nil \<and> \<not> nan_key (fst kv) \<and> storable (fst kv) \<and> storable (snd kv)"
      and sz: "\<And>kv. kv \<in> set kvs \<Longrightarrow> size (fst kv) < size v \<and> size (snd kv) < size v"
      and len: "length (concat (map pair_bytes kvs) @ 0 # t) < k'" for kvs t
  proof (rule hash_read [OF _ nil _ len])
    show "unpack_one k' (encoding u @ t) = Inr (restored u, t)"
      if "\<exists>kv\<in>set kvs. u = fst kv \<or> u = snd kv" "length (encoding u @ t) < k'" for u t
      using less.IH [of u t k'] kvs sz that by auto
    show "\<forall>kv\<in>set kvs. fst kv \<noteq> Nil \<and> \<not> nan_key (fst kv)" using kvs by blast
    have "length kvs \<le> length (concat (map pair_bytes kvs))" using kvs
      by (induction kvs) (auto simp: pair_bytes_def Suc_le_eq dest!: encoding_nonempty simp flip: length_greater_0_conv)
    then show "length kvs < k'" using len by simp
  qed simp
  show ?case
  proof (cases v)
    case (Integer x)
    obtain c r where c: "int_bytes x = c # r" "c AND 7 = 2" "unat (drop_bit 3 c) \<noteq> 8"
      "\<And>s. get_integer (r @ s) (unat (drop_bit 3 c)) = Inr (x, s)" by (rule int_bytes_read [of x]) (rule that)
    then show ?thesis by (simp add: Integer rd del: unpack_one.simps)
  next
    case (String s)
    then show ?thesis using less.prems(1) by (simp add: k string_read del: unpack_one.simps)
  next
    case (Table n kvs)
    define s where "s = concat (map pair_bytes (others n kvs)) @ 0 # t"
    obtain c r where c: "head_bytes n = c # r" "c AND 7 = 6" "\<And>s. table_size (r @ s) (unat (drop_bit 3 c)) = Inr (int n, s)"
      by (rule head_read [of n]) (use less.prems Table in auto)
    have len: "length (c # r @ concat (map encoding (items n kvs)) @ s) < k"
      using less.prems(2) by (simp add: Table c(1) s_def pair_bytes_map)
    have "length (items n kvs) = n" by (simp add: items_def)
    then have "unpack_array (unpack_one k') n 1 (concat (map encoding (items n kvs)) @ s) =
        Inr (zip (map (\<lambda>i. Integer (word_of_nat i)) [1..<n + 1]) (map restored (items n kvs)), s)"
      using array_read [of "items n kvs" k' "unpack_one k'" s 1] less.IH less.prems component_sizes(1) [of _ n kvs] len
      by (simp add: Table k)
    moreover have "unpack_hash (unpack_one k') k' s = Inr (map (\<lambda>kv. (restored (fst kv), restored (snd kv))) (others n kvs), t)"
      unfolding s_def using less.prems component_sizes(2) [of _ n kvs] len by (intro pairs) (auto simp: Table k s_def)
    ultimately show ?thesis using c
      by (simp add: Table k unpack_one_Cons push_value_def seri_consts unpack_table_def s_def pair_bytes_map del: unpack_one.simps upt_Suc)
  next
    case (MetaTable kvs)
    have "unpack_hash (unpack_one k') k' (concat (map pair_bytes kvs) @ 0 # t) = Inr (map (\<lambda>kv. (restored (fst kv), restored (snd kv))) kvs, t)"
      using less.prems component_sizes(3) [of _ kvs] by (intro pairs) (auto simp: MetaTable k pair_bytes_map)
    then show ?thesis
      by (simp add: MetaTable k unpack_one_Cons push_value_def seri_consts unpack_table_def table_size_def MAX_COOKIE_def pair_bytes_map del: unpack_one.simps)
  qed (use less.prems in \<open>simp_all add: rd get_real_def get_pointer_def del: unpack_one.simps\<close>)
qed

section \<open>Reading ends\<close>

lemma rb_read_shorter: "rb_read rb n = Inr (a, t) \<Longrightarrow> length t + n = length rb"
  by (auto simp: rb_read_def split: if_splits)

lemma then_do_Inr: "then_do m f = Inr y \<longleftrightarrow> (\<exists>x. m = Inr x \<and> f x = Inr y)"
  by (cases m) auto

lemma then_do_Inl: "then_do m f = Inl e \<longleftrightarrow> m = Inl e \<or> (\<exists>x. m = Inr x \<and> f x = Inl e)"
  by (cases m) auto

lemmas reads = get_integer_def get_real_def get_pointer_def get_buffer_def table_size_def Let_def then_do_Inr then_do_Inl

lemma scalar_reads:
  "get_integer rb c = Inr (x, t) \<Longrightarrow> length t \<le> length rb" "get_integer rb c \<noteq> Inl No_fuel"
  "get_real rb = Inr (y, t) \<Longrightarrow> length t \<le> length rb" "get_real rb \<noteq> Inl No_fuel"
  "get_pointer rb = Inr (y, t) \<Longrightarrow> length t \<le> length rb" "get_pointer rb \<noteq> Inl No_fuel"
  "get_buffer rb w = Inr (z, t) \<Longrightarrow> length t \<le> length rb" "get_buffer rb w \<noteq> Inl No_fuel"
  by (auto simp: reads rb_read_def split: if_splits)

lemma table_size_reads:
  "table_size rb c = Inr (n, t) \<Longrightarrow> length t \<le> length rb" "table_size rb c \<noteq> Inl No_fuel"
  by (auto simp: table_size_def Let_def then_do_Inr then_do_Inl rb_read_def split: if_splits dest: scalar_reads(1) scalar_reads(2) [THEN notE])

text \<open>A reader that consumes input and, on inputs shorter than \<open>k\<close>, does not run out of its bound.\<close>

definition good :: "reader \<Rightarrow> nat \<Rightarrow> bool" where
  "good one k \<longleftrightarrow> (\<forall>s v t. one s = Inr (v, t) \<longrightarrow> length t < length s) \<and> (\<forall>s. length s < k \<longrightarrow> one s \<noteq> Inl No_fuel)"

lemma array_good:
  "good one k \<Longrightarrow> (unpack_array one n i s = Inr (xs, t) \<longrightarrow> length t \<le> length s) \<and> (length s < k \<longrightarrow> unpack_array one n i s \<noteq> Inl No_fuel)"
proof (induction n arbitrary: i s xs t)
  case (Suc n)
  show ?case
  proof (cases "one s")
    case (Inl e)
    then show ?thesis using Suc.prems by (auto simp: good_def)
  next
    case (Inr r)
    obtain v u where r: "r = (v, u)" by (cases r)
    have "length u < length s" using Suc.prems Inr r by (auto simp: good_def)
    then show ?thesis using Suc.IH [OF Suc.prems, of "i + 1" u] Inr r
      by (cases "unpack_array one n (i + 1) u") (auto intro: order_trans less_trans dest: less_imp_le)
  qed
qed simp

lemma hash_good:
  "good one k \<Longrightarrow> (unpack_hash one m s = Inr (xs, t) \<longrightarrow> length t \<le> length s) \<and>
    (length s < k \<longrightarrow> length s < m \<longrightarrow> unpack_hash one m s \<noteq> Inl No_fuel)"
proof (induction m arbitrary: s xs t)
  case (Suc m)
  have g: "one s = Inr (v, u) \<Longrightarrow> length u < length s" "length s < k \<Longrightarrow> one s \<noteq> Inl No_fuel" for s v u
    using Suc.prems by (auto simp: good_def)
  show ?case
  proof (cases "one s")
    case (Inl e)
    then show ?thesis using g by auto
  next
    case (Inr r)
    obtain key u where r: "r = (key, u)" by (cases r)
    have u: "length u < length s" using g Inr r by auto
    show ?thesis
    proof (cases "key = Nil \<or> nan_key key")
      case True
      then show ?thesis using Inr r u g(2) [of u] by (cases "one u") auto
    next
      case False
      show ?thesis
      proof (cases "one u")
        case (Inl e)
        then show ?thesis using Inr r u g(2) [of u] False by auto
      next
        case w: (Inr q)
        obtain v w where q: "q = (v, w)" by (cases q)
        have wu: "length w < length u" using g(1) w q by auto
        have h: "unpack_hash one m w = Inr (ys, t') \<Longrightarrow> length t' \<le> length w"
          "length w < k \<Longrightarrow> length w < m \<Longrightarrow> unpack_hash one m w \<noteq> Inl No_fuel" for ys t'
          using Suc.IH [OF Suc.prems, of w] by blast+
        show ?thesis
        proof (cases "unpack_hash one m w")
          case (Inl e)
          then show ?thesis using h(2) wu u \<open>one s = Inr r\<close> r w q False by auto
        next
          case (Inr p)
          then show ?thesis using h(1) [of "fst p" "snd p"] wu u \<open>one s = Inr r\<close> r w q False by (auto split: prod.splits)
        qed
      qed
    qed
  qed
qed simp

lemma table_good:
  assumes "good one k"
  shows "(unpack_table one m rb c = Inr (v, t) \<longrightarrow> length t \<le> length rb) \<and> (length rb < k \<longrightarrow> length rb < m \<longrightarrow> unpack_table one m rb c \<noteq> Inl No_fuel)"
proof (cases "table_size rb c")
  case (Inl e)
  then show ?thesis using table_size_reads(2) [of rb c] by (auto simp: unpack_table_def)
next
  case (Inr r)
  obtain n u where r: "r = (n, u)" by (cases r)
  have u: "length u \<le> length rb" using table_size_reads(1) Inr r by auto
  note a = array_good [OF assms, of "nat n" 1 u]
  show ?thesis
  proof (cases "unpack_array one (nat n) 1 u")
    case (Inl e)
    then show ?thesis using a Inr r u by (auto simp: unpack_table_def)
  next
    case w: (Inr q)
    obtain xs w where q: "q = (xs, w)" by (cases q)
    have wu: "length w \<le> length u" using a w q by auto
    have h: "unpack_hash one m w = Inr (ys, t') \<Longrightarrow> length t' \<le> length w"
      "length w < k \<Longrightarrow> length w < m \<Longrightarrow> unpack_hash one m w \<noteq> Inl No_fuel" for ys t'
      using hash_good [OF assms, of m w] by blast+
    show ?thesis
    proof (cases "unpack_hash one m w")
      case (Inl e)
      then show ?thesis using h(2) wu u \<open>table_size rb c = Inr r\<close> r w q by (auto simp: unpack_table_def)
    next
      case (Inr p)
      then show ?thesis using h(1) [of "fst p" "snd p"] wu u \<open>table_size rb c = Inr r\<close> r w q by (auto simp: unpack_table_def split: prod.splits)
    qed
  qed
qed

lemma push_value_good:
  assumes "good one k"
  shows "(push_value one m rb ty c = Inr (v, t) \<longrightarrow> length t \<le> length rb) \<and> (length rb < k \<longrightarrow> length rb < m \<longrightarrow> push_value one m rb ty c \<noteq> Inl No_fuel)"
  using table_good [OF assms, of m rb c] scalar_reads [of rb]
  by (auto simp: push_value_def then_do_Inr then_do_Inl split: if_splits dest!: rb_read_shorter scalar_reads(1,3,5,7) intro: order_trans)
    (auto simp: scalar_reads rb_read_def split: if_splits)

lemma unpack_one_good: "good (unpack_one k) k"
proof (induction k)
  case 0
  show ?case by (simp add: good_def)
next
  case (Suc k)
  show ?case unfolding good_def
  proof (intro conjI allI impI)
    fix s v t assume "unpack_one (Suc k) s = Inr (v, t)"
    then show "length t < length s"
      by (cases s) (use push_value_good [OF Suc] in \<open>auto simp: rb_read_def less_Suc_eq_le split: if_splits\<close>)
  next
    fix s :: "u8 list" assume "length s < Suc k"
    then show "unpack_one (Suc k) s \<noteq> Inl No_fuel"
      by (cases s) (use push_value_good [OF Suc] in \<open>auto simp: rb_read_def split: if_splits\<close>)
  qed
qed

lemma unpack_values_Cons:
  "unpack_values (Suc k) (c # s) = then_do (unpack_one (Suc k) (c # s)) (\<lambda>(v, rb). then_do (unpack_values k rb) (\<lambda>vs. Inr (v # vs)))"
  by (simp add: rb_read_def)

lemma unpack_values_total: "length s < k \<Longrightarrow> unpack_values k s \<noteq> Inl No_fuel"
proof (induction k arbitrary: s)
  case (Suc k)
  show ?case
  proof (cases s)
    case Nil
    then show ?thesis by (simp add: rb_read_def)
  next
    case (Cons c s')
    show ?thesis
    proof (cases "unpack_one (Suc k) s")
      case (Inl e)
      then show ?thesis using unpack_one_good [of "Suc k"] Suc.prems
        unfolding Cons unpack_values_Cons by (auto simp: good_def)
    next
      case (Inr r)
      obtain v u where r: "r = (v, u)" by (cases r)
      have "length u < length s" using unpack_one_good [of "Suc k"] Inr r by (auto simp: good_def)
      then show ?thesis using Suc.IH [of u] Inr r Suc.prems unfolding Cons unpack_values_Cons
        by (cases "unpack_values k u") auto
    qed
  qed
qed simp

section \<open>Main theorems\<close>

lemma pack_from_writes: "chain.writes (\<forall>v\<in>set vs. packable 0 v) (pack_from vs wb_init) (concat (map encoding vs))"
  using chain.writes_each [OF wb_rep_init, of vs "packable 0" "pack_one 0" encoding] pack_one_writes by simp

lemma luaseri_pack_cases:
  "if \<forall>v\<in>set vs. packable 0 v
   then luaseri_pack vs = (if length (concat (map encoding vs)) < 2 ^ 31 then Inr (Inr (concat (map encoding vs))) else Inl Int_overflow)
   else \<exists>e. luaseri_pack vs = Inr (Inl e)"
proof (cases "pack_from vs wb_init")
  case (Inl e)
  then show ?thesis using pack_from_writes [of vs] by (auto simp: luaseri_pack_def simp del: pack_from.simps)
next
  case (Inr wb)
  then show ?thesis using pack_from_writes [of vs] seri_rep [of wb] by (auto simp: luaseri_pack_def wb_rep_length simp del: pack_from.simps)
qed

text \<open>C34: Packing never reads outside of the blocks; it raises an error exactly when a value is not supported or nested more than 32 levels deep.
  Otherwise it gives the encodings of the values one after the other, if these have fewer than \<open>2 ^ 31\<close> bytes; with more the \<^verbatim>\<open>int\<close>
  that counts the bytes overflows. The encoding of a string starts with its length as an \<^verbatim>\<open>int\<close>, which is its true length only below \<open>2 ^ 31\<close>
  bytes.\<close>

theorem seri_pack_correct:
  "(luaseri_pack vs = Inr (Inr bs) \<longleftrightarrow> list_all (packable 0) vs \<and> bs = concat (map encoding vs) \<and> length bs < 2 ^ 31) \<and>
   ((\<exists>e. luaseri_pack vs = Inr (Inl e)) \<longleftrightarrow> \<not> list_all (packable 0) vs) \<and>
   (luaseri_pack vs = Inl f \<longleftrightarrow> f = Int_overflow \<and> list_all (packable 0) vs \<and> 2 ^ 31 \<le> length (concat (map encoding vs)))"
  using luaseri_pack_cases [of vs] by (auto simp: list_all_iff split: if_splits)

lemma unpack_values_encoding:
  "\<forall>v\<in>set vs. storable v \<Longrightarrow> length (concat (map encoding vs)) < k \<Longrightarrow>
    unpack_values k (concat (map encoding vs)) = Inr (map restored vs)"
proof (induction vs arbitrary: k)
  case Nil
  then obtain k' where "k = Suc k'" by (cases k) auto
  then show ?case by (simp add: rb_read_def)
next
  case (Cons v vs)
  obtain k' where k: "k = Suc k'" using Cons.prems(2) by (cases k) auto
  have "encoding v \<noteq> []" using Cons.prems(1) encoding_nonempty by simp
  then obtain c s where c: "concat (map encoding (v # vs)) = c # s" by (cases "encoding v") auto
  have "unpack_one (Suc k') (c # s) = Inr (restored v, concat (map encoding vs))"
    using unpack_one_encoding [of v "concat (map encoding vs)" "Suc k'"] Cons.prems k by (simp add: c [symmetric])
  moreover have "unpack_values k' (concat (map encoding vs)) = Inr (map restored vs)"
    using Cons.prems k \<open>encoding v \<noteq> []\<close> by (intro Cons.IH) (auto simp: length_greater_0_conv [symmetric] simp del: length_greater_0_conv)
  ultimately show ?case unfolding c k unpack_values_Cons by simp
qed

text \<open>C33: What was packed is unpacked again, from a string or from memory: numbers, strings, pointers and booleans unchanged, and tables
  with the same entries. This holds for supported values, nested at most 32 levels deep, with keys that are neither nil nor NaN, and as long as every
  string and array and the packed values together stay below \<open>2 ^ 31\<close> bytes, since the code counts them in an \<^verbatim>\<open>int\<close>.\<close>

theorem seri_roundtrip:
  assumes "list_all (packable 0) vs" and "list_all storable vs" and "length (concat (map encoding vs)) < 2 ^ 31"
  shows "\<exists>bs. luaseri_pack vs = Inr (Inr bs) \<and> luaseri_unpack (Lua_string bs) = Inr (map restored vs) \<and>
    luaseri_unpack (Lua_pointer (Some bs) (length bs)) = Inr (map restored vs)"
proof -
  define bs where "bs = concat (map encoding vs)"
  have "unpack_buffer bs = Inr (map restored vs)"
  proof (cases "bs = []")
    case True
    have "vs = []"
    proof (rule ccontr)
      assume "vs \<noteq> []"
      then have "encoding (hd vs) \<noteq> []" using assms(2) by (auto simp: list_all_iff intro!: encoding_nonempty)
      then show False using True \<open>vs \<noteq> []\<close> by (cases vs) (auto simp: bs_def)
    qed
    then show ?thesis by (simp add: unpack_buffer_def True)
  next
    case False
    then show ?thesis using unpack_values_encoding [of vs "length bs + 1"] assms(2)
      unfolding unpack_buffer_def bs_def [symmetric] if_not_P [OF False] by (simp add: list_all_iff del: unpack_values.simps)
  qed
  then show ?thesis using luaseri_pack_cases [of vs] assms(1,3)
    by (intro exI [of _ bs]) (auto simp: luaseri_unpack_def bs_def list_all_iff unpack_buffer_def split: if_splits)
qed

theorem seri_roundtrip_witness:
  "\<exists>bs. luaseri_pack [Integer 70000, Table 1 [(Integer 1, Boolean True), (String [65], Nil)]] = Inr (Inr bs) \<and>
    luaseri_unpack (Lua_string bs) = Inr [Integer 70000, Table 1 [(Integer 1, Boolean True), (String [65], Nil)]]"
proof -
  have "items 1 [(Integer 1, Boolean True), (String [65], Nil)] = [Boolean True]"
    "others 1 [(Integer 1, Boolean True), (String [65], Nil)] = [(String [65], Nil)]"
    by (simp_all add: items_def others_def rawgeti_def in_array_def)
  moreover have "length (int_bytes 70000) \<le> 9" "length (head_bytes 1) = 1" "length (string_bytes [65]) = 2"
    by (simp_all add: int_bytes_def head_bytes_def string_bytes_small)
  ultimately show ?thesis
    using seri_roundtrip [of "[Integer 70000, Table 1 [(Integer 1, Boolean True), (String [65], Nil)]]"]
    by (auto simp: nan_key_def)
qed

text \<open>C35: Unpacking ends for every argument: the bound on the calls is never exhausted, so the result is a list of values or one of
  the errors that Lua raises.\<close>

theorem seri_unpack_total: "luaseri_unpack arg \<noteq> Inl No_fuel"
proof -
  have "unpack_buffer b \<noteq> Inl No_fuel" for b
    using unpack_values_total [of b "length b + 1"] by (simp add: unpack_buffer_def del: unpack_values.simps)
  then show ?thesis by (auto simp: luaseri_unpack_def split: unpack_arg.split option.split)
qed

lemma rawgeti_distinct:
  "distinct (map fst kvs) \<Longrightarrow> (Integer (word_of_nat i), v) \<in> set kvs \<Longrightarrow> rawgeti kvs i = v"
  by (induction kvs) (auto simp: rawgeti_def rev_image_eqI split: if_splits)

lemma rawgeti_entry: "rawgeti kvs i \<noteq> Nil \<Longrightarrow> (Integer (word_of_nat i), rawgeti kvs i) \<in> set kvs"
  by (induction kvs) (auto simp: rawgeti_def split: if_splits)

text \<open>The table that is built from a packed one has exactly its entries, whatever length Lua reported for it: no key of
  the array part is lost or duplicated, and the nil values written for its holes leave no entry.\<close>

lemma seri_table_entries:
  assumes "distinct (map fst kvs)" and "Nil \<notin> snd ` set kvs" and "n < 2 ^ 31"
  shows "\<exists>as. restored (Table n kvs) = Table n as \<and>
    {kv \<in> set as. snd kv \<noteq> Nil} = (\<lambda>kv. (restored (fst kv), restored (snd kv))) ` set kvs"
proof -
  define as where "as = zip (map (\<lambda>i. Integer (word_of_nat i)) [1..<n + 1]) (map restored (items n kvs)) @
      map (\<lambda>kv. (restored (fst kv), restored (snd kv))) (others n kvs)"
  have arr: "set (zip (map (\<lambda>i. Integer (word_of_nat i)) [1..<n + 1]) (map restored (items n kvs))) =
      (\<lambda>i. (Integer (word_of_nat i), restored (rawgeti kvs i))) ` {1..n}"
    by (auto simp: items_def zip_map1 zip_map2 zip_same_conv_map image_iff)
  have "{kv \<in> set as. snd kv \<noteq> Nil} = (\<lambda>kv. (restored (fst kv), restored (snd kv))) ` set kvs"
  proof (intro set_eqI iffI)
    fix kv assume "kv \<in> {kv \<in> set as. snd kv \<noteq> Nil}"
    then consider i where "kv = (Integer (word_of_nat i), restored (rawgeti kvs i))" "rawgeti kvs i \<noteq> Nil"
      | kv' where "kv' \<in> set (others n kvs)" "kv = (restored (fst kv'), restored (snd kv'))"
      unfolding as_def set_append arr by (auto simp: restored_Nil)
    then show "kv \<in> (\<lambda>kv. (restored (fst kv), restored (snd kv))) ` set kvs"
      by cases (force dest: rawgeti_entry simp: others_def)+
  next
    fix kv assume "kv \<in> (\<lambda>kv. (restored (fst kv), restored (snd kv))) ` set kvs"
    then obtain k v where kv: "(k, v) \<in> set kvs" "kv = (restored k, restored v)" by auto
    have v: "v \<noteq> Nil" using assms(2) kv(1) by force
    show "kv \<in> {kv \<in> set as. snd kv \<noteq> Nil}"
    proof (cases "in_array n k")
      case False
      then have "(k, v) \<in> set (others n kvs)" using kv(1) by (simp add: others_def)
      then show ?thesis using kv(2) v by (force simp: as_def restored_Nil)
    next
      case True
      then obtain x where x: "k = Integer x" "0 < sint x" "sint x \<le> int n" by (auto simp: in_array_def split: lua_value.splits)
      define i where "i = nat (sint x)"
      have "x = word_of_nat i" using x sint_nonneg_unat [of x] by (simp add: i_def)
      moreover have "i \<in> {1..n}" using x by (auto simp: i_def)
      ultimately show ?thesis using kv v x(1) rawgeti_distinct [OF assms(1), of i v] unfolding as_def set_append arr by (auto simp: restored_Nil)
    qed
  qed
  then show ?thesis by (simp add: as_def)
qed

lemma seri_table_entries_witness:
  "\<exists>as. restored (Table 3 [(Integer 3, Boolean True), (String [65], Integer 7)]) = Table 3 as \<and>
    {kv \<in> set as. snd kv \<noteq> Nil} = {(Integer 3, Boolean True), (String [65], Integer 7)}"
  using seri_table_entries [of "[(Integer 3, Boolean True), (String [65], Integer 7)]" 3] by (auto simp del: restored.simps(1))

text \<open>A string length of \<open>2 ^ 31\<close> or more turns negative, passes the test against the bytes that are left and reaches Lua.\<close>

lemma seri_negative_length: "luaseri_unpack (Lua_string [37, 0, 0, 0, 128]) = Inl Too_big"
  by code_simp

end
