(* ===== verification/Des.thy ===== *)
theory Des
  imports Prelude
begin

text \<open>
  Model of the DES cipher of \<^verbatim>\<open>lualib-src/lua-crypt.c\<close>: the tables, the key schedule, the block cipher
  and the functions \<open>ldesencode\<close> and \<open>ldesdecode\<close> that pad and encrypt strings. The macros become
  functions on the pair of registers.

  Decryption is proved to invert encryption, for every key and text: the final permutation
  undoes the initial one, and the rounds with the reversed key schedule undo the rounds.
\<close>

section \<open>Tables\<close>

definition SB1 :: "u32 list" where
  "SB1 =
    [0x01010400, 0x00000000, 0x00010000, 0x01010404, 0x01010004, 0x00010404,
     0x00000004, 0x00010000, 0x00000400, 0x01010400, 0x01010404, 0x00000400,
     0x01000404, 0x01010004, 0x01000000, 0x00000004, 0x00000404, 0x01000400,
     0x01000400, 0x00010400, 0x00010400, 0x01010000, 0x01010000, 0x01000404,
     0x00010004, 0x01000004, 0x01000004, 0x00010004, 0x00000000, 0x00000404,
     0x00010404, 0x01000000, 0x00010000, 0x01010404, 0x00000004, 0x01010000,
     0x01010400, 0x01000000, 0x01000000, 0x00000400, 0x01010004, 0x00010000,
     0x00010400, 0x01000004, 0x00000400, 0x00000004, 0x01000404, 0x00010404,
     0x01010404, 0x00010004, 0x01010000, 0x01000404, 0x01000004, 0x00000404,
     0x00010404, 0x01010400, 0x00000404, 0x01000400, 0x01000400, 0x00000000,
     0x00010004, 0x00010400, 0x00000000, 0x01010004]"

definition SB2 :: "u32 list" where
  "SB2 =
    [0x80108020, 0x80008000, 0x00008000, 0x00108020, 0x00100000, 0x00000020,
     0x80100020, 0x80008020, 0x80000020, 0x80108020, 0x80108000, 0x80000000,
     0x80008000, 0x00100000, 0x00000020, 0x80100020, 0x00108000, 0x00100020,
     0x80008020, 0x00000000, 0x80000000, 0x00008000, 0x00108020, 0x80100000,
     0x00100020, 0x80000020, 0x00000000, 0x00108000, 0x00008020, 0x80108000,
     0x80100000, 0x00008020, 0x00000000, 0x00108020, 0x80100020, 0x00100000,
     0x80008020, 0x80100000, 0x80108000, 0x00008000, 0x80100000, 0x80008000,
     0x00000020, 0x80108020, 0x00108020, 0x00000020, 0x00008000, 0x80000000,
     0x00008020, 0x80108000, 0x00100000, 0x80000020, 0x00100020, 0x80008020,
     0x80000020, 0x00100020, 0x00108000, 0x00000000, 0x80008000, 0x00008020,
     0x80000000, 0x80100020, 0x80108020, 0x00108000]"

definition SB3 :: "u32 list" where
  "SB3 =
    [0x00000208, 0x08020200, 0x00000000, 0x08020008, 0x08000200, 0x00000000,
     0x00020208, 0x08000200, 0x00020008, 0x08000008, 0x08000008, 0x00020000,
     0x08020208, 0x00020008, 0x08020000, 0x00000208, 0x08000000, 0x00000008,
     0x08020200, 0x00000200, 0x00020200, 0x08020000, 0x08020008, 0x00020208,
     0x08000208, 0x00020200, 0x00020000, 0x08000208, 0x00000008, 0x08020208,
     0x00000200, 0x08000000, 0x08020200, 0x08000000, 0x00020008, 0x00000208,
     0x00020000, 0x08020200, 0x08000200, 0x00000000, 0x00000200, 0x00020008,
     0x08020208, 0x08000200, 0x08000008, 0x00000200, 0x00000000, 0x08020008,
     0x08000208, 0x00020000, 0x08000000, 0x08020208, 0x00000008, 0x00020208,
     0x00020200, 0x08000008, 0x08020000, 0x08000208, 0x00000208, 0x08020000,
     0x00020208, 0x00000008, 0x08020008, 0x00020200]"

definition SB4 :: "u32 list" where
  "SB4 =
    [0x00802001, 0x00002081, 0x00002081, 0x00000080, 0x00802080, 0x00800081,
     0x00800001, 0x00002001, 0x00000000, 0x00802000, 0x00802000, 0x00802081,
     0x00000081, 0x00000000, 0x00800080, 0x00800001, 0x00000001, 0x00002000,
     0x00800000, 0x00802001, 0x00000080, 0x00800000, 0x00002001, 0x00002080,
     0x00800081, 0x00000001, 0x00002080, 0x00800080, 0x00002000, 0x00802080,
     0x00802081, 0x00000081, 0x00800080, 0x00800001, 0x00802000, 0x00802081,
     0x00000081, 0x00000000, 0x00000000, 0x00802000, 0x00002080, 0x00800080,
     0x00800081, 0x00000001, 0x00802001, 0x00002081, 0x00002081, 0x00000080,
     0x00802081, 0x00000081, 0x00000001, 0x00002000, 0x00800001, 0x00002001,
     0x00802080, 0x00800081, 0x00002001, 0x00002080, 0x00800000, 0x00802001,
     0x00000080, 0x00800000, 0x00002000, 0x00802080]"

definition SB5 :: "u32 list" where
  "SB5 =
    [0x00000100, 0x02080100, 0x02080000, 0x42000100, 0x00080000, 0x00000100,
     0x40000000, 0x02080000, 0x40080100, 0x00080000, 0x02000100, 0x40080100,
     0x42000100, 0x42080000, 0x00080100, 0x40000000, 0x02000000, 0x40080000,
     0x40080000, 0x00000000, 0x40000100, 0x42080100, 0x42080100, 0x02000100,
     0x42080000, 0x40000100, 0x00000000, 0x42000000, 0x02080100, 0x02000000,
     0x42000000, 0x00080100, 0x00080000, 0x42000100, 0x00000100, 0x02000000,
     0x40000000, 0x02080000, 0x42000100, 0x40080100, 0x02000100, 0x40000000,
     0x42080000, 0x02080100, 0x40080100, 0x00000100, 0x02000000, 0x42080000,
     0x42080100, 0x00080100, 0x42000000, 0x42080100, 0x02080000, 0x00000000,
     0x40080000, 0x42000000, 0x00080100, 0x02000100, 0x40000100, 0x00080000,
     0x00000000, 0x40080000, 0x02080100, 0x40000100]"

definition SB6 :: "u32 list" where
  "SB6 =
    [0x20000010, 0x20400000, 0x00004000, 0x20404010, 0x20400000, 0x00000010,
     0x20404010, 0x00400000, 0x20004000, 0x00404010, 0x00400000, 0x20000010,
     0x00400010, 0x20004000, 0x20000000, 0x00004010, 0x00000000, 0x00400010,
     0x20004010, 0x00004000, 0x00404000, 0x20004010, 0x00000010, 0x20400010,
     0x20400010, 0x00000000, 0x00404010, 0x20404000, 0x00004010, 0x00404000,
     0x20404000, 0x20000000, 0x20004000, 0x00000010, 0x20400010, 0x00404000,
     0x20404010, 0x00400000, 0x00004010, 0x20000010, 0x00400000, 0x20004000,
     0x20000000, 0x00004010, 0x20000010, 0x20404010, 0x00404000, 0x20400000,
     0x00404010, 0x20404000, 0x00000000, 0x20400010, 0x00000010, 0x00004000,
     0x20400000, 0x00404010, 0x00004000, 0x00400010, 0x20004010, 0x00000000,
     0x20404000, 0x20000000, 0x00400010, 0x20004010]"

definition SB7 :: "u32 list" where
  "SB7 =
    [0x00200000, 0x04200002, 0x04000802, 0x00000000, 0x00000800, 0x04000802,
     0x00200802, 0x04200800, 0x04200802, 0x00200000, 0x00000000, 0x04000002,
     0x00000002, 0x04000000, 0x04200002, 0x00000802, 0x04000800, 0x00200802,
     0x00200002, 0x04000800, 0x04000002, 0x04200000, 0x04200800, 0x00200002,
     0x04200000, 0x00000800, 0x00000802, 0x04200802, 0x00200800, 0x00000002,
     0x04000000, 0x00200800, 0x04000000, 0x00200800, 0x00200000, 0x04000802,
     0x04000802, 0x04200002, 0x04200002, 0x00000002, 0x00200002, 0x04000000,
     0x04000800, 0x00200000, 0x04200800, 0x00000802, 0x00200802, 0x04200800,
     0x00000802, 0x04000002, 0x04200802, 0x04200000, 0x00200800, 0x00000000,
     0x00000002, 0x04200802, 0x00000000, 0x00200802, 0x04200000, 0x00000800,
     0x04000002, 0x04000800, 0x00000800, 0x00200002]"

definition SB8 :: "u32 list" where
  "SB8 =
    [0x10001040, 0x00001000, 0x00040000, 0x10041040, 0x10000000, 0x10001040,
     0x00000040, 0x10000000, 0x00040040, 0x10040000, 0x10041040, 0x00041000,
     0x10041000, 0x00041040, 0x00001000, 0x00000040, 0x10040000, 0x10000040,
     0x10001000, 0x00001040, 0x00041000, 0x00040040, 0x10040040, 0x10041000,
     0x00001040, 0x00000000, 0x00000000, 0x10040040, 0x10000040, 0x10001000,
     0x00041040, 0x00040000, 0x00041040, 0x00040000, 0x10041000, 0x00001000,
     0x00000040, 0x10040040, 0x00001000, 0x00041040, 0x10001000, 0x00000040,
     0x10000040, 0x10040000, 0x10040040, 0x10000000, 0x00040000, 0x10001040,
     0x00000000, 0x10041040, 0x00040040, 0x10000040, 0x10040000, 0x10001000,
     0x10001040, 0x00000000, 0x10041040, 0x00041000, 0x00041000, 0x00001040,
     0x00001040, 0x00040040, 0x10000000, 0x10041000]"

definition LHs :: "u32 list" where
  "LHs =
    [0x00000000, 0x00000001, 0x00000100, 0x00000101, 0x00010000, 0x00010001,
     0x00010100, 0x00010101, 0x01000000, 0x01000001, 0x01000100, 0x01000101,
     0x01010000, 0x01010001, 0x01010100, 0x01010101]"

definition RHs :: "u32 list" where
  "RHs =
    [0x00000000, 0x01000000, 0x00010000, 0x01010000, 0x00000100, 0x01000100,
     0x00010100, 0x01010100, 0x00000001, 0x01000001, 0x00010001, 0x01010001,
     0x00000101, 0x01000101, 0x00010101, 0x01010101]"

section \<open>The block cipher\<close>

definition GET_UINT32 :: "u8 list \<Rightarrow> nat \<Rightarrow> u32" where
  "GET_UINT32 b i =
     push_bit 24 (ucast (b ! i)) OR push_bit 16 (ucast (b ! (i + 1))) OR
     push_bit 8 (ucast (b ! (i + 2))) OR ucast (b ! (i + 3))"

definition PUT_UINT32 :: "u32 \<Rightarrow> u8 list" where
  "PUT_UINT32 n = [ucast (drop_bit 24 n), ucast (drop_bit 16 n), ucast (drop_bit 8 n), ucast n]"

definition DES_IP :: "u32 \<times> u32 \<Rightarrow> u32 \<times> u32" where
  "DES_IP = (\<lambda>(X, Y).
     let T = (drop_bit 4 X XOR Y) AND 0x0F0F0F0F; Y = Y XOR T; X = X XOR push_bit 4 T;
         T = (drop_bit 16 X XOR Y) AND 0x0000FFFF; Y = Y XOR T; X = X XOR push_bit 16 T;
         T = (drop_bit 2 Y XOR X) AND 0x33333333; X = X XOR T; Y = Y XOR push_bit 2 T;
         T = (drop_bit 8 Y XOR X) AND 0x00FF00FF; X = X XOR T; Y = Y XOR push_bit 8 T;
         Y = (push_bit 1 Y OR drop_bit 31 Y) AND 0xFFFFFFFF;
         T = (X XOR Y) AND 0xAAAAAAAA; Y = Y XOR T; X = X XOR T;
         X = (push_bit 1 X OR drop_bit 31 X) AND 0xFFFFFFFF
     in (X, Y))"

definition DES_FP :: "u32 \<times> u32 \<Rightarrow> u32 \<times> u32" where
  "DES_FP = (\<lambda>(X, Y).
     let X = (push_bit 31 X OR drop_bit 1 X) AND 0xFFFFFFFF;
         T = (X XOR Y) AND 0xAAAAAAAA; X = X XOR T; Y = Y XOR T;
         Y = (push_bit 31 Y OR drop_bit 1 Y) AND 0xFFFFFFFF;
         T = (drop_bit 8 Y XOR X) AND 0x00FF00FF; X = X XOR T; Y = Y XOR push_bit 8 T;
         T = (drop_bit 2 Y XOR X) AND 0x33333333; X = X XOR T; Y = Y XOR push_bit 2 T;
         T = (drop_bit 16 X XOR Y) AND 0x0000FFFF; Y = Y XOR T; X = X XOR push_bit 16 T;
         T = (drop_bit 4 X XOR Y) AND 0x0F0F0F0F; Y = Y XOR T; X = X XOR push_bit 4 T
     in (X, Y))"

text \<open>\<^verbatim>\<open>DES_ROUND(X, Y)\<close> with the two subkeys it consumes: the new \<open>Y\<close>.\<close>

definition DES_ROUND :: "u32 \<Rightarrow> u32 \<Rightarrow> u32 \<Rightarrow> u32 \<Rightarrow> u32" where
  "DES_ROUND k1 k2 X Y =
     (let T = k1 XOR X;
          Y = Y XOR (SB8 ! unat (T AND 0x3F) XOR SB6 ! unat (drop_bit 8 T AND 0x3F) XOR
                     SB4 ! unat (drop_bit 16 T AND 0x3F) XOR SB2 ! unat (drop_bit 24 T AND 0x3F));
          T = k2 XOR (push_bit 28 X OR drop_bit 4 X)
      in Y XOR (SB7 ! unat (T AND 0x3F) XOR SB5 ! unat (drop_bit 8 T AND 0x3F) XOR
                SB3 ! unat (drop_bit 16 T AND 0x3F) XOR SB1 ! unat (drop_bit 24 T AND 0x3F)))"

text \<open>The two subkeys of one turn of the key schedule.\<close>

definition subkeys :: "u32 \<Rightarrow> u32 \<Rightarrow> u32 list" where
  "subkeys X Y =
     [((push_bit 4 X) AND 0x24000000) OR ((push_bit 28 X) AND 0x10000000) OR
      ((push_bit 14 X) AND 0x08000000) OR ((push_bit 18 X) AND 0x02080000) OR
      ((push_bit 6 X) AND 0x01000000) OR ((push_bit 9 X) AND 0x00200000) OR
      ((drop_bit 1 X) AND 0x00100000) OR ((push_bit 10 X) AND 0x00040000) OR
      ((push_bit 2 X) AND 0x00020000) OR ((drop_bit 10 X) AND 0x00010000) OR
      ((drop_bit 13 Y) AND 0x00002000) OR ((drop_bit 4 Y) AND 0x00001000) OR
      ((push_bit 6 Y) AND 0x00000800) OR ((drop_bit 1 Y) AND 0x00000400) OR
      ((drop_bit 14 Y) AND 0x00000200) OR (Y AND 0x00000100) OR
      ((drop_bit 5 Y) AND 0x00000020) OR ((drop_bit 10 Y) AND 0x00000010) OR
      ((drop_bit 3 Y) AND 0x00000008) OR ((drop_bit 18 Y) AND 0x00000004) OR
      ((drop_bit 26 Y) AND 0x00000002) OR ((drop_bit 24 Y) AND 0x00000001),
      ((push_bit 15 X) AND 0x20000000) OR ((push_bit 17 X) AND 0x10000000) OR
      ((push_bit 10 X) AND 0x08000000) OR ((push_bit 22 X) AND 0x04000000) OR
      ((drop_bit 2 X) AND 0x02000000) OR ((push_bit 1 X) AND 0x01000000) OR
      ((push_bit 16 X) AND 0x00200000) OR ((push_bit 11 X) AND 0x00100000) OR
      ((push_bit 3 X) AND 0x00080000) OR ((drop_bit 6 X) AND 0x00040000) OR
      ((push_bit 15 X) AND 0x00020000) OR ((drop_bit 4 X) AND 0x00010000) OR
      ((drop_bit 2 Y) AND 0x00002000) OR ((push_bit 8 Y) AND 0x00001000) OR
      ((drop_bit 14 Y) AND 0x00000808) OR ((drop_bit 9 Y) AND 0x00000400) OR
      (Y AND 0x00000200) OR ((push_bit 7 Y) AND 0x00000100) OR
      ((drop_bit 7 Y) AND 0x00000020) OR ((drop_bit 3 Y) AND 0x00000011) OR
      ((push_bit 2 Y) AND 0x00000004) OR ((drop_bit 21 Y) AND 0x00000002)]"

definition permuted_choice :: "u8 list \<Rightarrow> u32 \<times> u32" where
  "permuted_choice key =
     (let X = GET_UINT32 key 0; Y = GET_UINT32 key 4;
          T = (drop_bit 4 Y XOR X) AND 0x0F0F0F0F; X = X XOR T; Y = Y XOR push_bit 4 T;
          T = (Y XOR X) AND 0x10101010; X = X XOR T; Y = Y XOR T;
          X = push_bit 3 (LHs ! unat (X AND 0xF)) OR
              push_bit 2 (LHs ! unat (drop_bit 8 X AND 0xF)) OR
              push_bit 1 (LHs ! unat (drop_bit 16 X AND 0xF)) OR
              (LHs ! unat (drop_bit 24 X AND 0xF) ) OR
              push_bit 7 (LHs ! unat (drop_bit 5 X AND 0xF)) OR
              push_bit 6 (LHs ! unat (drop_bit 13 X AND 0xF)) OR
              push_bit 5 (LHs ! unat (drop_bit 21 X AND 0xF)) OR
              push_bit 4 (LHs ! unat (drop_bit 29 X AND 0xF));
          Y = push_bit 3 (RHs ! unat (drop_bit 1 Y AND 0xF)) OR
              push_bit 2 (RHs ! unat (drop_bit 9 Y AND 0xF)) OR
              push_bit 1 (RHs ! unat (drop_bit 17 Y AND 0xF)) OR
              (RHs ! unat (drop_bit 25 Y AND 0xF) ) OR
              push_bit 7 (RHs ! unat (drop_bit 4 Y AND 0xF)) OR
              push_bit 6 (RHs ! unat (drop_bit 12 Y AND 0xF)) OR
              push_bit 5 (RHs ! unat (drop_bit 20 Y AND 0xF)) OR
              push_bit 4 (RHs ! unat (drop_bit 28 Y AND 0xF))
      in (X AND 0x0FFFFFFF, Y AND 0x0FFFFFFF))"

fun ks_loop :: "nat \<Rightarrow> nat \<Rightarrow> u32 \<Rightarrow> u32 \<Rightarrow> u32 list" where
  "ks_loop i 0 X Y = []"
| "ks_loop i (Suc n) X Y =
     (let (X', Y') =
        (if i < 2 \<or> i = 8 \<or> i = 15
         then ((push_bit 1 X OR drop_bit 27 X) AND 0x0FFFFFFF, (push_bit 1 Y OR drop_bit 27 Y) AND 0x0FFFFFFF)
         else ((push_bit 2 X OR drop_bit 26 X) AND 0x0FFFFFFF, (push_bit 2 Y OR drop_bit 26 Y) AND 0x0FFFFFFF))
      in subkeys X' Y' @ ks_loop (Suc i) n X' Y')"

definition des_main_ks :: "u8 list \<Rightarrow> u32 list" where
  "des_main_ks key = (let (X, Y) = permuted_choice key in ks_loop 0 16 X Y)"

text \<open>The sixteen rounds, two at a time: \<^verbatim>\<open>DES_ROUND(Y, X); DES_ROUND(X, Y)\<close>.\<close>

fun des_rounds :: "u32 list \<Rightarrow> u32 \<times> u32 \<Rightarrow> u32 \<times> u32" where
  "des_rounds (a # b # c # d # sk) (X, Y) =
     (let X' = DES_ROUND a b Y X; Y' = DES_ROUND c d X' Y in des_rounds sk (X', Y'))"
| "des_rounds sk XY = XY"

definition des_crypt :: "u32 list \<Rightarrow> u8 list \<Rightarrow> u8 list" where
  "des_crypt sk input =
     (let (X, Y) = des_rounds sk (DES_IP (GET_UINT32 input 0, GET_UINT32 input 4));
          (Y, X) = DES_FP (Y, X)
      in PUT_UINT32 Y @ PUT_UINT32 X)"

section \<open>Strings\<close>

text \<open>Errors of the Lua interface, with the format of their message.\<close>

type_synonym 'a lua = "string + 'a"

definition des_key :: "u8 list \<Rightarrow> u32 list lua" where
  "des_key key = (if length key \<noteq> 8 then Inl ''Invalid key size %d, need 8 bytes'' else Inr (des_main_ks key))"

text \<open>The last block: the remaining bytes, \<open>0x80\<close> and zeros.\<close>

definition des_tail :: "u8 list \<Rightarrow> u8 list" where
  "des_tail bs = map (\<lambda>j. if j < length bs then bs ! j else if j = length bs then 0x80 else 0) [0..<8]"

fun des_blocks :: "u32 list \<Rightarrow> u8 list \<Rightarrow> u8 list" where
  "des_blocks sk text =
     (if 8 \<le> length text then des_crypt sk (take 8 text) @ des_blocks sk (drop 8 text)
      else des_crypt sk (des_tail text))"

declare des_blocks.simps [simp del]

text \<open>The index into the text is an \<^verbatim>\<open>int\<close>, in both directions; the outer result is its overflow, the inner one the Lua error.\<close>

definition ldesencode :: "u8 list \<Rightarrow> u8 list \<Rightarrow> u8 list lua res" where
  "ldesencode key text =
     (case des_key key of
        Inl e \<Rightarrow> Inr (Inl e)
      | Inr sk \<Rightarrow> if 2 ^ 31 \<le> length text then Inl Int_overflow else Inr (Inr (des_blocks sk text)))"

definition reverse_ks :: "u32 list \<Rightarrow> u32 list" where
  "reverse_ks esk = concat (map (\<lambda>i. [esk ! (30 - i), esk ! (31 - i)]) [0, 2, 4, 6, 8, 10, 12, 14, 16, 18, 20, 22, 24, 26, 28, 30])"

fun des_decrypt :: "u32 list \<Rightarrow> u8 list \<Rightarrow> u8 list" where
  "des_decrypt sk text = (if text = [] then [] else des_crypt sk (take 8 text) @ des_decrypt sk (drop 8 text))"

declare des_decrypt.simps [simp del]

text \<open>
  The loop that looks for the padding, from the last byte backwards. Its bound is compared as an
  unsigned number: for a text of one block it is \<open>0\<close>, the test is always true, and a block of
  zeros makes the loop read in front of the buffer.
\<close>

datatype padding = Pad nat | Bad_text | Before_buffer

function find_padding :: "nat \<Rightarrow> u8 list \<Rightarrow> nat \<Rightarrow> padding" where
  "find_padding textsz buffer p =
     (if textsz < p then Before_buffer
      else if 8 < textsz \<and> 8 < p then Pad p
      else
        let b = buffer ! (textsz - p) in
        if b = 0 then find_padding textsz buffer (Suc p)
        else if b = 0x80 then Pad p else Bad_text)"
  by pat_completeness auto
termination
  by (relation "measure (\<lambda>(textsz, buffer, p). Suc textsz - p)") auto

declare find_padding.simps [simp del]

text \<open>The outer result is the overflow or the fault of reading before the buffer, the inner one the Lua error.\<close>

definition ldesdecode :: "u8 list \<Rightarrow> u8 list \<Rightarrow> u8 list lua res" where
  "ldesdecode key text =
     (case des_key key of
        Inl e \<Rightarrow> Inr (Inl e)
      | Inr esk \<Rightarrow>
          if length text mod 8 \<noteq> 0 \<or> length text = 0 then Inr (Inl ''Invalid des crypt text length %d'')
          else if 2 ^ 31 \<le> length text then Inl Int_overflow
          else
            let buffer = des_decrypt (reverse_ks esk) text in
            (case find_padding (length text) buffer 1 of
               Before_buffer \<Rightarrow> Inl Out_of_range
             | Bad_text \<Rightarrow> Inr (Inl ''Invalid des crypt text'')
             | Pad p \<Rightarrow> if 8 < p then Inr (Inl ''Invalid des crypt text'')
                        else Inr (Inr (take (length text - p) buffer))))"

section \<open>The permutations\<close>

text \<open>A delta swap is its own inverse, and the rotations cancel.\<close>

definition delta :: "nat \<Rightarrow> u32 \<Rightarrow> u32 \<times> u32 \<Rightarrow> u32 \<times> u32" where
  "delta s m = (\<lambda>(A, B). let T = (drop_bit s A XOR B) AND m in (A XOR push_bit s T, B XOR T))"

definition rotl :: "nat \<Rightarrow> u32 \<Rightarrow> u32" where
  "rotl k x = push_bit k x OR drop_bit (32 - k) x"

lemma drop_push_mask:
  assumes "drop_bit s (push_bit s m) = m"
  shows "drop_bit s (push_bit s (x AND m)) = (x AND m :: u32)"
proof (rule bit_word_eqI)
  fix n assume n: "n < LENGTH(32)"
  have "bit (drop_bit s (push_bit s m)) n = bit m n" by (simp add: assms)
  then show "bit (drop_bit s (push_bit s (x AND m))) n = bit (x AND m) n"
    using n by (auto simp: bit_simps)
qed

lemma xor_cancel: "(a XOR t) XOR (b XOR t) = (a XOR b :: u32)"
  by (simp add: xor.assoc xor.left_commute xor.commute)

lemma delta_delta:
  assumes "drop_bit s (push_bit s m) = m"
  shows "delta s m (delta s m (A, B)) = (A, B)"
proof -
  define T where "T = (drop_bit s A XOR B) AND m"
  have "drop_bit s (push_bit s T) = T" unfolding T_def by (rule drop_push_mask [OF assms])
  then have "(drop_bit s (A XOR push_bit s T) XOR (B XOR T)) AND m = T"
    by (simp only: drop_bit_xor xor_cancel T_def)
  then have "delta s m (A XOR push_bit s T, B XOR T) = ((A XOR push_bit s T) XOR push_bit s T, (B XOR T) XOR T)"
    by (simp only: delta_def Let_def case_prod_conv)
  moreover have "delta s m (A, B) = (A XOR push_bit s T, B XOR T)"
    by (simp only: delta_def Let_def case_prod_conv T_def)
  ultimately show ?thesis by (simp only: xor.assoc xor_self_eq xor.right_neutral)
qed

lemma bit_rol: "0 < k \<Longrightarrow> k < 32 \<Longrightarrow> n < 32 \<Longrightarrow> bit (rotl k x) n = bit x (if k \<le> n then n - k else 32 + n - k)"
  by (auto simp: rotl_def bit_simps dest: bit_imp_le_length)

lemma rol_rol: "0 < k \<Longrightarrow> k < 32 \<Longrightarrow> rotl (32 - k) (rotl k x) = x"
  by (rule bit_word_eqI) (auto simp: bit_rol)

lemma and_all: "x AND 0xFFFFFFFF = (x::u32)"
proof -
  have "0xFFFFFFFF = (-1::u32)" by simp
  then show ?thesis by (simp only: and.right_neutral)
qed

definition swp :: "u32 \<times> u32 \<Rightarrow> u32 \<times> u32" where "swp = (\<lambda>(X, Y). (Y, X))"
definition rotl_fst :: "nat \<Rightarrow> u32 \<times> u32 \<Rightarrow> u32 \<times> u32" where "rotl_fst k = (\<lambda>(X, Y). (rotl k X, Y))"
definition rotl_snd :: "nat \<Rightarrow> u32 \<times> u32 \<Rightarrow> u32 \<times> u32" where "rotl_snd k = (\<lambda>(X, Y). (X, rotl k Y))"

text \<open>The statements of the macros as these steps.\<close>

lemma let_delta:
  "(let T = (drop_bit s A XOR B) AND m; B' = B XOR T; A' = A XOR push_bit s T in K A' B') =
     case_prod K (delta s m (A, B))"
  by (simp add: delta_def Let_def)

lemma let_delta_0:
  "(let T = (A XOR B) AND m; B' = B XOR T; A' = A XOR T in K A' B') = case_prod K (delta 0 m (A, B))"
  "(let T = (A XOR B) AND m; A' = A XOR T; B' = B XOR T in K A' B') = case_prod K (delta 0 m (A, B))"
  by (simp_all add: delta_def Let_def)

lemma let_rol:
  "(let A' = (push_bit 1 A OR drop_bit 31 A) AND 0xFFFFFFFF in K A') = K (rotl 1 A)"
  "(let A' = (push_bit 31 A OR drop_bit 1 A) AND 0xFFFFFFFF in K A') = K (rotl 31 A)"
  by (simp_all only: Let_def and_all rotl_def) simp_all

lemma DES_IP_steps:
  "DES_IP P = rotl_fst 1 (delta 0 0xAAAAAAAA (rotl_snd 1
     (swp (delta 8 0x00FF00FF (delta 2 0x33333333 (swp (delta 16 0x0000FFFF (delta 4 0x0F0F0F0F P))))))))"
proof -
  obtain X Y where P: "P = (X, Y)" by fastforce
  obtain X1 Y1 where 1: "delta 4 0x0F0F0F0F (X, Y) = (X1, Y1)" by fastforce
  obtain X2 Y2 where 2: "delta 16 0x0000FFFF (X1, Y1) = (X2, Y2)" by fastforce
  obtain X3 Y3 where 3: "delta 2 0x33333333 (Y2, X2) = (Y3, X3)" by fastforce
  obtain X4 Y4 where 4: "delta 8 0x00FF00FF (Y3, X3) = (Y4, X4)" by fastforce
  obtain X5 Y5 where 5: "delta 0 0xAAAAAAAA (X4, rotl 1 Y4) = (X5, Y5)" by fastforce
  have "DES_IP (X, Y) = (rotl 1 X5, Y5)"
    unfolding DES_IP_def case_prod_conv
    by (subst let_delta, simp only: 1 case_prod_conv, subst let_delta, simp only: 2 case_prod_conv,
        subst let_delta, simp only: 3 case_prod_conv, subst let_delta, simp only: 4 case_prod_conv,
        subst let_rol, subst let_delta_0, simp only: 5 case_prod_conv, subst let_rol, rule refl)
  then show ?thesis by (simp only: P 1 2 3 4 5 swp_def rotl_fst_def rotl_snd_def case_prod_conv)
qed

lemma DES_FP_steps:
  "DES_FP P = delta 4 0x0F0F0F0F (delta 16 0x0000FFFF (swp (delta 2 0x33333333 (delta 8 0x00FF00FF (swp
     (rotl_snd 31 (delta 0 0xAAAAAAAA (rotl_fst 31 P))))))))"
proof -
  obtain X Y where P: "P = (X, Y)" by fastforce
  obtain X1 Y1 where 1: "delta 0 0xAAAAAAAA (rotl 31 X, Y) = (X1, Y1)" by fastforce
  obtain X2 Y2 where 2: "delta 8 0x00FF00FF (rotl 31 Y1, X1) = (Y2, X2)" by fastforce
  obtain X3 Y3 where 3: "delta 2 0x33333333 (Y2, X2) = (Y3, X3)" by fastforce
  obtain X4 Y4 where 4: "delta 16 0x0000FFFF (X3, Y3) = (X4, Y4)" by fastforce
  obtain X5 Y5 where 5: "delta 4 0x0F0F0F0F (X4, Y4) = (X5, Y5)" by fastforce
  have "DES_FP (X, Y) = (X5, Y5)"
    unfolding DES_FP_def case_prod_conv
    by (subst let_rol, subst let_delta_0, simp only: 1 case_prod_conv, subst let_rol,
        subst let_delta, simp only: 2 case_prod_conv, subst let_delta, simp only: 3 case_prod_conv,
        subst let_delta, simp only: 4 case_prod_conv, subst let_delta, simp only: 5 case_prod_conv)
  then show ?thesis by (simp only: P 1 2 3 4 5 swp_def rotl_fst_def rotl_snd_def case_prod_conv)
qed

lemma step_cancel:
  "delta 4 0x0F0F0F0F (delta 4 0x0F0F0F0F P) = P" "delta 16 0x0000FFFF (delta 16 0x0000FFFF P) = P"
  "delta 2 0x33333333 (delta 2 0x33333333 P) = P" "delta 8 0x00FF00FF (delta 8 0x00FF00FF P) = P"
  "delta 0 0xAAAAAAAA (delta 0 0xAAAAAAAA P) = P" "swp (swp P) = P"
  "rotl_fst 31 (rotl_fst 1 P) = P" "rotl_fst 1 (rotl_fst 31 P) = P"
  "rotl_snd 31 (rotl_snd 1 P) = P" "rotl_snd 1 (rotl_snd 31 P) = P"
  using rol_rol [of 1] rol_rol [of 31]
  by (cases P; simp add: delta_delta swp_def rotl_fst_def rotl_snd_def)+

lemma DES_FP_IP: "DES_FP (DES_IP P) = P"
  by (simp only: DES_IP_steps DES_FP_steps step_cancel)

lemma DES_IP_FP: "DES_IP (DES_FP P) = P"
  by (simp only: DES_IP_steps DES_FP_steps step_cancel)

lemma swp_swp [simp]: "swp (swp P) = P"
  by (cases P) (simp add: swp_def)

section \<open>Words and bytes\<close>

lemma GET_PUT_word:
  "push_bit 24 (ucast (ucast (drop_bit 24 n) :: u8)) OR push_bit 16 (ucast (ucast (drop_bit 16 n) :: u8)) OR
     push_bit 8 (ucast (ucast (drop_bit 8 n) :: u8)) OR ucast (ucast n :: u8) = (n :: u32)"
proof (rule bit_word_eqI)
  fix k assume "k < LENGTH(32)"
  then consider "k < 8" | "8 \<le> k" "k < 16" | "16 \<le> k" "k < 24" | "24 \<le> k" "k < 32" by fastforce
  then show "bit (push_bit 24 (ucast (ucast (drop_bit 24 n) :: u8)) OR push_bit 16 (ucast (ucast (drop_bit 16 n) :: u8)) OR
     push_bit 8 (ucast (ucast (drop_bit 8 n) :: u8)) OR ucast (ucast n :: u8) :: u32) k = bit n k"
    by cases (auto simp: bit_simps)
qed

lemma GET_PUT: "GET_UINT32 (PUT_UINT32 a @ PUT_UINT32 b) 0 = a" "GET_UINT32 (PUT_UINT32 a @ PUT_UINT32 b) 4 = b"
  by (simp_all only: GET_UINT32_def PUT_UINT32_def) (simp_all add: GET_PUT_word)

lemma PUT_GET_byte:
  fixes a b c d :: u8
  defines "w \<equiv> push_bit 24 (ucast a) OR push_bit 16 (ucast b) OR push_bit 8 (ucast c) OR (ucast d :: u32)"
  shows "ucast (drop_bit 24 w) = a" "ucast (drop_bit 16 w) = b" "ucast (drop_bit 8 w) = c" "ucast w = d"
  unfolding w_def by (rule bit_word_eqI; auto simp: bit_simps dest: bit_imp_le_length)+

lemma PUT_GET:
  assumes "length b = 8"
  shows "PUT_UINT32 (GET_UINT32 b 0) @ PUT_UINT32 (GET_UINT32 b 4) = b"
proof -
  obtain b0 b1 b2 b3 b4 b5 b6 b7 where "b = [b0, b1, b2, b3, b4, b5, b6, b7]"
    using assms by (auto simp: numeral_eq_Suc length_Suc_conv)
  then have "GET_UINT32 b 0 = push_bit 24 (ucast b0) OR push_bit 16 (ucast b1) OR push_bit 8 (ucast b2) OR ucast b3"
    "GET_UINT32 b 4 = push_bit 24 (ucast b4) OR push_bit 16 (ucast b5) OR push_bit 8 (ucast b6) OR ucast b7"
    by (simp_all add: GET_UINT32_def)
  then have "PUT_UINT32 (GET_UINT32 b 0) = [b0, b1, b2, b3]" "PUT_UINT32 (GET_UINT32 b 4) = [b4, b5, b6, b7]"
    by (simp_all only: PUT_UINT32_def PUT_GET_byte)
  with \<open>b = _\<close> show ?thesis by simp
qed

section \<open>The rounds\<close>

lemma DES_ROUND_invol: "DES_ROUND k1 k2 X (DES_ROUND k1 k2 X Y) = Y"
  by (simp add: DES_ROUND_def Let_def xor.assoc xor.left_commute)

fun rev_pairs :: "u32 list \<Rightarrow> u32 list" where
  "rev_pairs (a # b # r) = rev_pairs r @ [a, b]"
| "rev_pairs r = r"

lemma des_rounds_append:
  "length xs mod 4 = 0 \<Longrightarrow> des_rounds (xs @ ys) P = des_rounds ys (des_rounds xs P)"
proof (induction xs P rule: des_rounds.induct)
  case (1 a b c d sk X Y)
  then show ?case by (simp add: Let_def mod_Suc split: if_splits)
qed (auto simp: mod_Suc)

lemma length_rev_pairs [simp]: "length (rev_pairs xs) = length xs"
  by (induction xs rule: rev_pairs.induct) auto

lemma des_rounds_inverse:
  "length sk mod 4 = 0 \<Longrightarrow> des_rounds (rev_pairs sk) (swp (des_rounds sk P)) = swp P"
proof (induction sk P rule: des_rounds.induct)
  case (1 a b c d sk X Y)
  have l: "length sk mod 4 = 0" using 1(2) by (simp add: mod_Suc split: if_splits)
  let ?X = "DES_ROUND a b Y X" let ?Y = "DES_ROUND c d ?X Y"
  have "des_rounds (rev_pairs (a # b # c # d # sk)) (swp (des_rounds (a # b # c # d # sk) (X, Y))) =
      des_rounds [c, d, a, b] (des_rounds (rev_pairs sk) (swp (des_rounds sk (?X, ?Y))))"
    using l by (simp add: Let_def des_rounds_append)
  also have "\<dots> = des_rounds [c, d, a, b] (swp (?X, ?Y))" using 1(1) [OF refl refl l] by simp
  also have "\<dots> = swp (X, Y)" by (simp add: swp_def Let_def DES_ROUND_invol)
  finally show ?case .
qed (auto simp: mod_Suc)

lemma reverse_ks_pairs:
  assumes "length esk = 32"
  shows "reverse_ks esk = rev_pairs esk"
proof -
  have "esk = map ((!) esk) [0..<32]" using assms by (metis map_nth)
  then obtain f where "esk = map f [0..<32]" by blast
  then show ?thesis by (simp add: reverse_ks_def upt_rec)
qed

lemma des_crypt_steps:
  "des_crypt sk b = (let Q = DES_FP (swp (des_rounds sk (DES_IP (GET_UINT32 b 0, GET_UINT32 b 4))))
     in PUT_UINT32 (fst Q) @ PUT_UINT32 (snd Q))"
  by (simp add: des_crypt_def Let_def swp_def split_def)

lemma length_des_crypt [simp]: "length (des_crypt sk b) = 8"
  by (simp add: des_crypt_steps Let_def PUT_UINT32_def)

lemma des_crypt_inverse:
  assumes "length b = 8" and "length sk = 32"
  shows "des_crypt (reverse_ks sk) (des_crypt sk b) = b"
proof -
  let ?I = "DES_IP (GET_UINT32 b 0, GET_UINT32 b 4)"
  let ?Q = "DES_FP (swp (des_rounds sk ?I))"
  have "des_crypt sk b = PUT_UINT32 (fst ?Q) @ PUT_UINT32 (snd ?Q)" by (simp only: des_crypt_steps Let_def)
  then have "DES_IP (GET_UINT32 (des_crypt sk b) 0, GET_UINT32 (des_crypt sk b) 4) = swp (des_rounds sk ?I)"
    by (simp only: GET_PUT prod.collapse DES_IP_FP)
  then have "DES_FP (swp (des_rounds (reverse_ks sk) (DES_IP (GET_UINT32 (des_crypt sk b) 0, GET_UINT32 (des_crypt sk b) 4)))) =
      (GET_UINT32 b 0, GET_UINT32 b 4)"
    using assms(2) by (simp add: reverse_ks_pairs des_rounds_inverse DES_FP_IP)
  then show ?thesis
    by (simp only: des_crypt_steps [of "reverse_ks sk"] Let_def fst_conv snd_conv PUT_GET [OF assms(1)])
qed

section \<open>Padding\<close>

definition padded :: "u8 list \<Rightarrow> u8 list" where
  "padded plain = plain @ 0x80 # replicate (7 - length plain mod 8) 0"

lemma des_tail_padded: "length bs < 8 \<Longrightarrow> des_tail bs = padded bs"
proof (rule nth_equalityI)
  assume l: "length bs < 8"
  then show "length (des_tail bs) = length (padded bs)" by (simp add: des_tail_def padded_def)
  fix i assume "i < length (des_tail bs)"
  then have i: "i < 8" by (simp add: des_tail_def)
  then have "des_tail bs ! i = (if i < length bs then bs ! i else if i = length bs then 0x80 else 0)"
    unfolding des_tail_def by (subst nth_map) simp_all
  also have "\<dots> = padded bs ! i" using l i by (auto simp: padded_def nth_append nth_Cons')
  finally show "des_tail bs ! i = padded bs ! i" .
qed

lemma des_decrypt_block: "length c = 8 \<Longrightarrow> des_decrypt sk c = des_crypt sk c"
  by (subst des_decrypt.simps) (auto simp: des_decrypt.simps [of sk "[]"])

lemma padded_drop: "8 \<le> length plain \<Longrightarrow> padded plain = take 8 plain @ padded (drop 8 plain)"
proof -
  assume l: "8 \<le> length plain"
  have "length (drop 8 plain) mod 8 = length plain mod 8" using le_mod_geq [OF l] by simp
  then have "take 8 plain @ padded (drop 8 plain) = (take 8 plain @ drop 8 plain) @ 0x80 # replicate (7 - length plain mod 8) 0"
    by (simp only: padded_def append.assoc)
  then show ?thesis by (simp only: append_take_drop_id padded_def)
qed

lemma length_des_blocks: "length (des_blocks sk plain) = length (padded plain)"
proof (induction sk plain rule: des_blocks.induct)
  case (1 sk plain)
  show ?case
  proof (cases "8 \<le> length plain")
    case True
    then have "length (padded plain) = 8 + length (padded (drop 8 plain))" by (subst padded_drop [OF True]) simp
    with 1 True show ?thesis by (subst des_blocks.simps) simp
  next
    case False
    then show ?thesis by (subst des_blocks.simps) (simp add: padded_def)
  qed
qed

lemma des_decrypt_blocks:
  assumes "length sk = 32"
  shows "des_decrypt (reverse_ks sk) (des_blocks sk plain) = padded plain"
proof (induction plain rule: length_induct)
  case (1 plain)
  have ne: "des_crypt sk b \<noteq> []" for b using length_des_crypt [of sk b] by fastforce
  show ?case
  proof (cases "8 \<le> length plain")
    case True
    have "des_decrypt (reverse_ks sk) (des_blocks sk plain) =
        des_crypt (reverse_ks sk) (des_crypt sk (take 8 plain)) @ des_decrypt (reverse_ks sk) (des_blocks sk (drop 8 plain))"
      using True ne by (subst des_decrypt.simps, subst (1 2 3) des_blocks.simps) simp
    also have "\<dots> = take 8 plain @ padded (drop 8 plain)" using True 1 assms by (simp add: des_crypt_inverse)
    finally show ?thesis using padded_drop [OF True] by simp
  next
    case False
    have "length (padded plain) = 8" using False by (simp add: padded_def)
    then have "des_crypt (reverse_ks sk) (des_crypt sk (padded plain)) = padded plain"
      using assms by (simp add: des_crypt_inverse)
    then show ?thesis using False ne
      by (simp add: des_blocks.simps [of sk plain] des_tail_padded des_decrypt.simps)
  qed
qed

lemma find_padding_zeros:
  assumes "k \<le> 7" and "1 \<le> p" and "p \<le> k + 1" and "buffer = t @ 0x80 # replicate k 0"
  shows "find_padding (length buffer) buffer p = Pad (k + 1)"
  using assms
proof (induction "k + 1 - p" arbitrary: p)
  case 0
  then have "p = k + 1" by simp
  then show ?case using assms by (subst find_padding.simps) (simp add: nth_append)
next
  case (Suc x)
  then have p: "p \<le> k" "x = k + 1 - Suc p" by simp_all
  have "buffer ! (length buffer - p) = 0"
    using p assms(4) Suc.prems(2) by (auto simp: nth_append nth_Cons')
  moreover have "find_padding (length buffer) buffer (Suc p) = Pad (k + 1)"
    using Suc.hyps(1) [OF p(2)] p Suc.prems by simp
  ultimately show ?case using p assms(1,4)
    by (subst find_padding.simps) simp
qed

lemma length_des_main_ks: "length (des_main_ks key) = 32"
proof -
  have "length (ks_loop i n X Y) = 2 * n" for i n X Y
    by (induction n arbitrary: i X Y) (auto simp: subkeys_def Let_def split: prod.split)
  then show ?thesis by (simp add: des_main_ks_def split: prod.split)
qed

text \<open>C39: What \<open>ldesencode\<close> encrypts, \<open>ldesdecode\<close> decrypts: for every key of 8 bytes and every text so short that the ciphertext has fewer
  than \<open>2 ^ 31\<close> bytes (the loops count in an \<^verbatim>\<open>int\<close>), the ciphertext has the length of the text padded to the next multiple of 8 bytes, and
  decoding it returns the text.\<close>

theorem des_roundtrip:
  assumes "length key = 8" and "length plain < 2 ^ 31 - 8"
  shows "\<exists>c. ldesencode key plain = Inr (Inr c) \<and> length c = 8 * (length plain div 8 + 1) \<and> ldesdecode key c = Inr (Inr plain)"
proof -
  let ?sk = "des_main_ks key" let ?c = "des_blocks ?sk plain"
  have k: "des_key key = Inr ?sk" using assms(1) by (simp add: des_key_def)
  have l: "length ?c = 8 * (length plain div 8 + 1)"
    by (simp add: length_des_blocks padded_def) presburger
  have d: "des_decrypt (reverse_ks ?sk) ?c = padded plain"
    by (rule des_decrypt_blocks [OF length_des_main_ks])
  have lt: "length plain mod 8 < 8" by simp
  have "find_padding (length ?c) (padded plain) 1 = Pad (7 - length plain mod 8 + 1)"
    unfolding length_des_blocks by (rule find_padding_zeros [OF _ _ _ padded_def]) simp_all
  moreover have "take (length ?c - (7 - length plain mod 8 + 1)) (padded plain) = plain"
    unfolding length_des_blocks by (simp add: padded_def)
  moreover have short: "length ?c < 2 ^ 31" using assms(2) unfolding l by simp
  ultimately have "ldesdecode key ?c = Inr (Inr plain)"
    using l k by (simp add: ldesdecode_def d Let_def)
  with l k assms(2) show ?thesis by (simp add: ldesencode_def)
qed

theorem des_roundtrip_witness:
  "\<exists>c. ldesencode [1, 2, 3, 4, 5, 6, 7, 8] [65, 66, 67] = Inr (Inr c) \<and> length c = 8 \<and>
    ldesdecode [1, 2, 3, 4, 5, 6, 7, 8] c = Inr (Inr [65, 66, 67])"
  using des_roundtrip [of "[1, 2, 3, 4, 5, 6, 7, 8]" "[65, 66, 67]"] by simp

text \<open>For every key there is a ciphertext of one block, the encryption of zeros, that makes
  \<open>ldesdecode\<close> read before its buffer: the loop over the padding compares with an unsigned bound that is \<open>0\<close>.\<close>

lemma des_padding_underrun:
  assumes "length key = 8"
  shows "ldesdecode key (des_crypt (des_main_ks key) (replicate 8 0)) = Inl Out_of_range"
proof -
  let ?c = "des_crypt (des_main_ks key) (replicate 8 0)"
  have "des_decrypt (reverse_ks (des_main_ks key)) ?c = des_crypt (reverse_ks (des_main_ks key)) ?c"
    by (rule des_decrypt_block) simp
  also have "\<dots> = replicate 8 0" by (rule des_crypt_inverse [OF _ length_des_main_ks]) simp
  finally have d: "des_decrypt (reverse_ks (des_main_ks key)) ?c = replicate 8 0" .
  have "find_padding 8 (replicate 8 0) p = Before_buffer" if "p \<le> 9" "1 \<le> p" for p
    using that
  proof (induction "9 - p" arbitrary: p)
    case 0
    then show ?case by (subst find_padding.simps) simp
  next
    case (Suc x)
    then have "find_padding 8 (replicate 8 0) (Suc p) = Before_buffer" by (intro Suc.hyps(1)) simp_all
    then show ?case using Suc.hyps(2) Suc.prems by (subst find_padding.simps) simp
  qed
  then show ?thesis using assms by (simp add: ldesdecode_def des_key_def d Let_def)
qed

lemma des_padding_underrun_witness:
  "ldesdecode (replicate 8 7) (des_crypt (des_main_ks (replicate 8 7)) (replicate 8 0)) = Inl Out_of_range"
  using des_padding_underrun [of "replicate 8 7"] by simp

end
