(* ===== verification/Crypt.thy ===== *)
theory Crypt
  imports Des CString
begin

text \<open>
  Model of the rest of \<^verbatim>\<open>lualib-src/lua-crypt.c\<close>: hexadecimal and base64 text, the string hash and the
  64 bit message authentication code, the Diffie-Hellman exchange modulo the largest 64 bit
  prime, random keys and the xor of strings. Strings of Lua are byte lists; an error of the
  Lua interface is the left value of the result.

  Proved: both text encodings are inverted by their decoders; the exponentiation
  computes the power modulo \<open>P\<close> with all intermediate values below 64 bits, so that both sides of an
  exchange obtain the same secret; the xor of strings is an involution; a random key is never zero.
\<close>

section \<open>Hexadecimal text\<close>

definition hex_digits :: "u8 list" where "hex_digits = text_bytes ''0123456789abcdef''"

definition ltohex :: "u8 list \<Rightarrow> u8 list" where
  "ltohex s = concat (map (\<lambda>b. [hex_digits ! unat (drop_bit 4 b), hex_digits ! unat (b AND 0xf)]) s)"

definition HEX :: "u8 \<Rightarrow> u8" where
  "HEX c = (if 48 \<le> c \<and> c \<le> 57 then c - 48 else c - 97 + 10)"

fun hex_loop :: "u8 list \<Rightarrow> u8 list lua" where
  "hex_loop (a # b # r) =
     (let hi = HEX a; low = HEX b in
      if 16 < hi \<or> 16 < low then Inl ''Invalid hex text''
      else case hex_loop r of Inl e \<Rightarrow> Inl e | Inr s \<Rightarrow> Inr ((push_bit 4 hi OR low) # s))"
| "hex_loop s = Inr []"

definition lfromhex :: "u8 list \<Rightarrow> u8 list lua" where
  "lfromhex s = (if odd (length s) then Inl ''Invalid hex text size %d'' else hex_loop s)"

section \<open>Base64 text\<close>

definition b64_encoding :: "u8 list" where
  "b64_encoding = text_bytes ''ABCDEFGHIJKLMNOPQRSTUVWXYZabcdefghijklmnopqrstuvwxyz0123456789+/''"

definition enc :: "u32 \<Rightarrow> u8" where "enc v = b64_encoding ! unat v"

text \<open>The text that the loop and the padding of \<open>lb64encode\<close> write.\<close>

fun b64_encode :: "u8 list \<Rightarrow> u8 list" where
  "b64_encode (a # b # c # r) =
     (let v = push_bit 16 (ucast a) OR push_bit 8 (ucast b) OR ucast c in
      [enc (drop_bit 18 v), enc (drop_bit 12 v AND 0x3f), enc (drop_bit 6 v AND 0x3f), enc (v AND 0x3f)] @ b64_encode r)"
| "b64_encode [a, b] =
     (let v = push_bit 8 (ucast a) OR ucast b in
      [enc (drop_bit 10 v), enc (drop_bit 4 v AND 0x3f), enc (push_bit 2 (v AND 0xf)), 61])"
| "b64_encode [a] = (let v = ucast a in [enc (drop_bit 2 v), enc (push_bit 4 (v AND 3)), 61, 61])"
| "b64_encode [] = []"

text \<open>The size of the result and the index into the text are \<^verbatim>\<open>int\<close>.\<close>

definition lb64encode :: "u8 list \<Rightarrow> u8 list res" where
  "lb64encode s = (if 2 ^ 31 \<le> (length s + 2) div 3 * 4 then Inl Int_overflow else Inr (b64_encode s))"

definition b64_decoding :: "int list" where
  "b64_decoding =
    [62, -1, -1, -1, 63, 52, 53, 54, 55, 56, 57, 58, 59, 60, 61, -1, -1, -1, -2, -1,
     -1, -1, 0, 1, 2, 3, 4, 5, 6, 7, 8, 9, 10, 11, 12, 13, 14, 15, 16, 17,
     18, 19, 20, 21, 22, 23, 24, 25, -1, -1, -1, -1, -1, -1, 26, 27, 28, 29, 30, 31,
     32, 33, 34, 35, 36, 37, 38, 39, 40, 41, 42, 43, 44, 45, 46, 47, 48, 49, 50, 51]"

definition b64index :: "u8 \<Rightarrow> int" where
  "b64index c =
     (if c < 43 then -1
      else let c' = c - 43 in if length b64_decoding \<le> unat c' then -1 else b64_decoding ! unat c')"

text \<open>The inner loop: the next \<open>n\<close> characters that belong to the alphabet or are padding.\<close>

fun b64_group :: "nat \<Rightarrow> u8 list \<Rightarrow> (int list \<times> u8 list) option" where
  "b64_group 0 s = Some ([], s)"
| "b64_group (Suc n) [] = None"
| "b64_group (Suc n) (c # s) =
     (if b64index c = -1 then b64_group (Suc n) s
      else case b64_group n s of None \<Rightarrow> None | Some (cs, r) \<Rightarrow> Some (b64index c # cs, r))"

definition b64_bytes :: "int list \<Rightarrow> u8 list lua" where
  "b64_bytes c =
     (let w = (\<lambda>i. word_of_int (c ! i) :: u32); padding = length (filter (\<lambda>x. x = -2) c) in
      if padding = 0 then
        let v = push_bit 18 (w 0) OR push_bit 12 (w 1) OR push_bit 6 (w 2) OR w 3
        in Inr [ucast (drop_bit 16 v), ucast (drop_bit 8 v AND 0xff), ucast (v AND 0xff)]
      else if padding = 1 then
        if c ! 3 \<noteq> -2 \<or> (c ! 2) AND 3 \<noteq> 0 then Inl ''Invalid base64 text''
        else let v = push_bit 10 (w 0) OR push_bit 4 (w 1) OR drop_bit 2 (w 2)
             in Inr [ucast (drop_bit 8 v), ucast (v AND 0xff)]
      else if padding = 2 then
        if c ! 3 \<noteq> -2 \<or> c ! 2 \<noteq> -2 \<or> (c ! 1) AND 0xf \<noteq> 0 then Inl ''Invalid base64 text''
        else let v = push_bit 2 (w 0) OR drop_bit 4 (w 1) in Inr [ucast v]
      else Inl ''Invalid base64 text'')"

lemma b64_group_shorter: "b64_group n s = Some (cs, r) \<Longrightarrow> length r + n \<le> length s"
  by (induction n s arbitrary: cs r rule: b64_group.induct) (fastforce split: if_splits option.splits)+

text \<open>The outer loop of \<open>lb64decode\<close>.\<close>

function b64_decode :: "u8 list \<Rightarrow> u8 list lua" where
  "b64_decode s =
     (if s = [] then Inr []
      else case b64_group 4 s of
        None \<Rightarrow> Inl ''Invalid base64 text''
      | Some (c, r) \<Rightarrow>
          (case b64_bytes c of
             Inl e \<Rightarrow> Inl e
           | Inr bs \<Rightarrow> (case b64_decode r of Inl e \<Rightarrow> Inl e | Inr t \<Rightarrow> Inr (bs @ t))))"
  by pat_completeness auto
termination
  by (relation "measure length") (auto dest: b64_group_shorter)

declare b64_decode.simps [simp del]

text \<open>The index into the text is an \<^verbatim>\<open>int\<close>; the outer result is its overflow, the inner one the Lua error.\<close>

definition lb64decode :: "u8 list \<Rightarrow> u8 list lua res" where
  "lb64decode s = (if 2 ^ 31 \<le> length s then Inl Int_overflow else Inr (b64_decode s))"

section \<open>Hash and message authentication code\<close>

definition hash_step :: "u32 \<times> u32 \<Rightarrow> u8 \<Rightarrow> u32 \<times> u32" where
  "hash_step = (\<lambda>(djb, js) c.
     (djb + (push_bit 5 djb + ucast c), js XOR (push_bit 5 js + ucast c + drop_bit 2 js)))"

text \<open>Little-endian bytes of a word and back.\<close>

definition le_bytes :: "u32 \<Rightarrow> u8 list" where
  "le_bytes w = [ucast (w AND 0xff), ucast (drop_bit 8 w AND 0xff), ucast (drop_bit 16 w AND 0xff), ucast (drop_bit 24 w AND 0xff)]"

definition le_word :: "u8 list \<Rightarrow> nat \<Rightarrow> u32" where
  "le_word x i = ucast (x ! i) OR push_bit 8 (ucast (x ! (i + 1))) OR push_bit 16 (ucast (x ! (i + 2))) OR
     push_bit 24 (ucast (x ! (i + 3)))"

definition Hash :: "u8 list \<Rightarrow> u8 list" where
  "Hash s = (let (djb, js) = foldl hash_step (5381, 1315423911) s in le_bytes djb @ le_bytes js)"

definition lhashkey :: "u8 list \<Rightarrow> u8 list" where "lhashkey s = Hash s"

definition md5_k :: "u32 list" where
  "md5_k =
    [0xd76aa478, 0xe8c7b756, 0x242070db, 0xc1bdceee, 0xf57c0faf, 0x4787c62a, 0xa8304613, 0xfd469501,
     0x698098d8, 0x8b44f7af, 0xffff5bb1, 0x895cd7be, 0x6b901122, 0xfd987193, 0xa679438e, 0x49b40821,
     0xf61e2562, 0xc040b340, 0x265e5a51, 0xe9b6c7aa, 0xd62f105d, 0x02441453, 0xd8a1e681, 0xe7d3fbc8,
     0x21e1cde6, 0xc33707d6, 0xf4d50d87, 0x455a14ed, 0xa9e3e905, 0xfcefa3f8, 0x676f02d9, 0x8d2a4c8a,
     0xfffa3942, 0x8771f681, 0x6d9d6122, 0xfde5380c, 0xa4beea44, 0x4bdecfa9, 0xf6bb4b60, 0xbebfbc70,
     0x289b7ec6, 0xeaa127fa, 0xd4ef3085, 0x04881d05, 0xd9d4d039, 0xe6db99e5, 0x1fa27cf8, 0xc4ac5665,
     0xf4292244, 0x432aff97, 0xab9423a7, 0xfc93a039, 0x655b59c3, 0x8f0ccc92, 0xffeff47d, 0x85845dd1,
     0x6fa87e4f, 0xfe2ce6e0, 0xa3014314, 0x4e0811a1, 0xf7537e82, 0xbd3af235, 0x2ad7d2bb, 0xeb86d391]"

definition md5_r :: "nat list" where
  "md5_r =
    [7, 12, 17, 22, 7, 12, 17, 22, 7, 12, 17, 22, 7, 12, 17, 22,
     5, 9, 14, 20, 5, 9, 14, 20, 5, 9, 14, 20, 5, 9, 14, 20,
     4, 11, 16, 23, 4, 11, 16, 23, 4, 11, 16, 23, 4, 11, 16, 23,
     6, 10, 15, 21, 6, 10, 15, 21, 6, 10, 15, 21, 6, 10, 15, 21]"

definition LEFTROTATE :: "u32 \<Rightarrow> nat \<Rightarrow> u32" where
  "LEFTROTATE x c = push_bit c x OR drop_bit (32 - c) x"

definition hmac_step :: "u32 list \<Rightarrow> u32 \<times> u32 \<times> u32 \<times> u32 \<Rightarrow> nat \<Rightarrow> u32 \<times> u32 \<times> u32 \<times> u32" where
  "hmac_step w = (\<lambda>(a, b, c, d) i.
     let (f, g) =
       (if i < 16 then ((b AND c) OR (NOT b AND d), i)
        else if i < 32 then ((d AND b) OR (NOT d AND c), (5 * i + 1) mod 16)
        else if i < 48 then (b XOR c XOR d, (3 * i + 5) mod 16)
        else (c XOR (b OR NOT d), (7 * i) mod 16))
     in (d, b + LEFTROTATE (a + f + md5_k ! i + w ! g) (md5_r ! i), b, c))"

definition hmac :: "u32 \<times> u32 \<Rightarrow> u32 \<times> u32 \<Rightarrow> u32 \<times> u32" where
  "hmac x y =
     (let w = concat (replicate 4 [snd x, fst x, snd y, fst y]);
          (a, b, c, d) = foldl (hmac_step w) (0x67452301, 0xefcdab89, 0x98badcfe, 0x10325476) [0..<64]
      in (c XOR d, a XOR b))"

definition read64 :: "u8 list \<Rightarrow> u8 list \<Rightarrow> ((u32 \<times> u32) \<times> (u32 \<times> u32)) lua" where
  "read64 x y =
     (if length x \<noteq> 8 then Inl ''Invalid uint64 x''
      else if length y \<noteq> 8 then Inl ''Invalid uint64 y''
      else Inr ((le_word x 0, le_word x 4), (le_word y 0, le_word y 4)))"

definition pushqword :: "u32 \<times> u32 \<Rightarrow> u8 list" where
  "pushqword r = le_bytes (fst r) @ le_bytes (snd r)"

definition lhmac64 :: "u8 list \<Rightarrow> u8 list \<Rightarrow> u8 list lua" where
  "lhmac64 x y = (case read64 x y of Inl e \<Rightarrow> Inl e | Inr (xx, yy) \<Rightarrow> Inr (pushqword (hmac xx yy)))"

definition lhmac_hash :: "u8 list \<Rightarrow> u8 list \<Rightarrow> u8 list lua" where
  "lhmac_hash x s =
     (if length x \<noteq> 8 then Inl ''Invalid uint64 key''
      else let h = Hash s in Inr (pushqword (hmac (le_word h 0, le_word h 4) (le_word x 0, le_word x 4))))"

section \<open>Diffie-Hellman exchange\<close>

definition P :: u64 where "P = 0xffffffffffffffc5"
definition G :: u64 where "G = 5"

function mul_loop :: "u64 \<Rightarrow> u64 \<Rightarrow> u64 \<Rightarrow> u64" where
  "mul_loop m a b =
     (if b \<noteq> 0 then
        let m' = (if b AND 1 \<noteq> 0 then (let t = P - a in if t \<le> m then m - t else m + a) else m);
            a' = (if P - a \<le> a then a * 2 - P else a * 2)
        in mul_loop m' a' (drop_bit 1 b)
      else m)"
  by pat_completeness auto
termination
proof (relation "measure (\<lambda>(m, a, b). unat b)", simp)
  fix m a b m' a' :: u64 assume "b \<noteq> 0"
  then have "0 < unat b" by (simp add: unat_gt_0)
  then show "((m', a', drop_bit 1 b), (m, a, b)) \<in> measure (\<lambda>(m, a, b). unat b)"
    using unat_drop_bit [of 1 b] by simp
qed

declare mul_loop.simps [simp del]

definition mul_mod_p :: "u64 \<Rightarrow> u64 \<Rightarrow> u64" where "mul_mod_p a b = mul_loop 0 a b"

text \<open>The recursion does not end for exponent 0; then the value is \<open>None\<close>.\<close>

partial_function (option) pow_mod_p :: "u64 \<Rightarrow> u64 \<Rightarrow> u64 option" where
  "pow_mod_p a b =
     (if b = 1 then Some a
      else Option.bind (pow_mod_p a (drop_bit 1 b)) (\<lambda>t.
        let t' = mul_mod_p t t in Some (if b AND 1 \<noteq> 0 then mul_mod_p t' a else t')))"

definition powmodp :: "u64 \<Rightarrow> u64 \<Rightarrow> u64 option" where
  "powmodp a b = pow_mod_p (if P < a then a mod P else a) b"

definition push64 :: "u64 \<Rightarrow> u8 list" where
  "push64 r = map (\<lambda>i. ucast (drop_bit (8 * i) r AND 0xff)) [0, 1, 2, 3, 4, 5, 6, 7]"

definition qword :: "u8 list \<Rightarrow> u64" where
  "qword x = ucast (le_word x 0) OR push_bit 32 (ucast (le_word x 4))"

text \<open>\<open>None\<close>: the function does not return.\<close>

definition ldhsecret :: "u8 list \<Rightarrow> u8 list \<Rightarrow> u8 list lua option" where
  "ldhsecret x y =
     (case read64 x y of
        Inl e \<Rightarrow> Some (Inl e)
      | Inr _ \<Rightarrow>
          if qword x = 0 \<or> qword y = 0 then Some (Inl ''Can't be 0'')
          else Option.bind (powmodp (qword x) (qword y)) (\<lambda>r. Some (Inr (push64 r))))"

definition ldhexchange :: "u8 list \<Rightarrow> u8 list lua option" where
  "ldhexchange x =
     (if length x \<noteq> 8 then Some (Inl ''Invalid dh uint64 key'')
      else if qword x = 0 then Some (Inl ''Can't be 0'')
      else Option.bind (powmodp G (qword x)) (\<lambda>r. Some (Inr (push64 r))))"

section \<open>Keys and xor\<close>

text \<open>\<open>rnd\<close>: the eight values that \<^verbatim>\<open>random()\<close> returns.\<close>

definition lrandomkey :: "u64 list \<Rightarrow> u8 list" where
  "lrandomkey rnd =
     (let tmp = map (\<lambda>r. ucast (r AND 0xff)) (take 8 rnd); x = foldl (XOR) 0 tmp
      in if x = 0 then tmp[0 := tmp ! 0 OR 1] else tmp)"

definition lxor_str :: "u8 list \<Rightarrow> u8 list \<Rightarrow> u8 list lua" where
  "lxor_str s1 s2 =
     (if s2 = [] then Inl ''Can't xor empty string''
      else Inr (map (\<lambda>i. s1 ! i XOR s2 ! (i mod length s2)) [0..<length s1]))"

section \<open>Round trips of the text encodings\<close>

lemma HEX_digit: "k < 16 \<Longrightarrow> HEX (hex_digits ! k) = of_nat k"
proof -
  have "list_all (\<lambda>k. HEX (hex_digits ! k) = of_nat k) [0..<16]" by code_simp
  then show "k < 16 \<Longrightarrow> ?thesis" by (auto simp: list_all_iff)
qed

lemma nibble_less: "unat (drop_bit 4 (b::u8)) < 16" "unat (b AND 0xf) < 16"
proof -
  show "unat (drop_bit 4 b) < 16" using unat_byte_lt [of b] by (simp only: unat_drop_bit) simp
  have "(0xf :: u8) = mask 4" by (simp add: mask_eq_exp_minus_1)
  then show "unat (b AND 0xf) < 16" by (simp only: unat_and_mask) simp
qed

lemma nibbles: "push_bit 4 (drop_bit 4 b) OR (b AND 0xf) = (b::u8)"
proof -
  have m: "(0xf :: u8) = mask 4" by (simp add: mask_eq_exp_minus_1)
  show ?thesis unfolding m by (rule bit_word_eqI) (auto simp: bit_simps)
qed

lemma hex_loop_byte:
  "hex_loop (hex_digits ! unat (drop_bit 4 b) # hex_digits ! unat (b AND 0xf) # r) =
     (case hex_loop r of Inl e \<Rightarrow> Inl e | Inr s \<Rightarrow> Inr (b # s))"
proof -
  have h: "HEX (hex_digits ! unat (drop_bit 4 b)) = drop_bit 4 b" "HEX (hex_digits ! unat (b AND 0xf)) = b AND 0xf"
    using HEX_digit [OF nibble_less(1)] HEX_digit [OF nibble_less(2)] by simp_all
  have "\<not> 16 < drop_bit 4 b" "\<not> 16 < (b AND 0xf)"
    using nibble_less [of b] by (simp_all add: word_less_nat_alt)
  then show ?thesis by (simp only: hex_loop.simps h Let_def if_False simp_thms nibbles)
qed

text \<open>Decoding undoes the hexadecimal encoding.\<close>

lemma hex_roundtrip: "lfromhex (ltohex s) = Inr s"
proof -
  have "length (ltohex s) = 2 * length s" by (induction s) (simp_all add: ltohex_def)
  moreover have "hex_loop (ltohex s) = Inr s"
  proof (induction s)
    case (Cons b s)
    then show ?case by (simp add: ltohex_def hex_loop_byte del: hex_loop.simps)
  qed (simp add: ltohex_def)
  ultimately show ?thesis by (simp add: lfromhex_def)
qed

text \<open>The range check of the hexadecimal decoder is off by one: the letter \<open>g\<close>, which is no digit, is
  accepted with value 16 and spills into the neighbouring digit.\<close>

lemma hex_accepts_g: "lfromhex (text_bytes ''0g'') = Inr [0x10] \<and> lfromhex (text_bytes ''g0'') = Inr [0]"
  by code_simp

lemma b64index_enc: "unat v < 64 \<Longrightarrow> b64index (enc v) = uint v"
proof -
  have "list_all (\<lambda>k. b64index (b64_encoding ! k) = int k) [0..<64]" by code_simp
  then have "k < 64 \<Longrightarrow> b64index (b64_encoding ! k) = int k" for k by (auto simp: list_all_iff)
  from this [of "unat v"] show "unat v < 64 \<Longrightarrow> ?thesis" by (simp add: enc_def)
qed

lemma b64index_pad: "b64index 61 = -2" by code_simp

lemma b64_group_hit: "b64index c \<noteq> -1 \<Longrightarrow>
    b64_group (Suc n) (c # s) = map_option (\<lambda>(cs, r). (b64index c # cs, r)) (b64_group n s)"
  by (auto split: option.splits)

text \<open>A group of four characters of the encoder reads back the sextets.\<close>

lemma uint_neq: "uint (v::u32) \<noteq> -1" "uint (v::u32) \<noteq> -2"
  using uint_ge_0 [of v] by linarith+

lemma b64_group_enc:
  assumes "unat k0 < 64" "unat k1 < 64"
  shows "unat k2 < 64 \<Longrightarrow> unat k3 < 64 \<Longrightarrow>
      b64_group 4 (enc k0 # enc k1 # enc k2 # enc k3 # r) = Some ([uint k0, uint k1, uint k2, uint k3], r)"
    and "unat k2 < 64 \<Longrightarrow>
      b64_group 4 (enc k0 # enc k1 # enc k2 # 61 # r) = Some ([uint k0, uint k1, uint k2, -2], r)"
    and "b64_group 4 (enc k0 # enc k1 # 61 # 61 # r) = Some ([uint k0, uint k1, -2, -2], r)"
  using assms by (simp_all add: b64_group_hit b64index_enc b64index_pad uint_neq numeral_eq_Suc del: b64_group.simps(3))

lemma unat_and_3f: "unat ((v::u32) AND 0x3f) < 64"
proof -
  have "(0x3f :: u32) = mask 6" by (simp add: mask_eq_exp_minus_1)
  then show ?thesis by (simp only: unat_and_mask) simp
qed

lemma masks: "(0x3f::u32) = mask 6" "(0xff::u32) = mask 8" "(0xf::u32) = mask 4" "(3::u32) = mask 2"
  by (simp_all add: mask_eq_exp_minus_1)

lemma sextets3:
  fixes v :: u32
  shows "push_bit 18 (drop_bit 18 v) OR push_bit 12 (drop_bit 12 v AND 0x3f) OR push_bit 6 (drop_bit 6 v AND 0x3f) OR (v AND 0x3f) = v"
  unfolding masks
proof (rule bit_word_eqI)
  fix n assume "n < LENGTH(32)"
  then show "bit (push_bit 18 (drop_bit 18 v) OR push_bit 12 (drop_bit 12 v AND mask 6) OR push_bit 6 (drop_bit 6 v AND mask 6) OR (v AND mask 6)) n = bit v n"
    by (cases "n < 12"; cases "n < 18") (auto simp: bit_simps)
qed

lemma octets3:
  fixes a b c :: u8
  defines "v \<equiv> push_bit 16 (ucast a) OR push_bit 8 (ucast b) OR ucast c :: u32"
  shows "ucast (drop_bit 16 v) = a" "ucast (drop_bit 8 v AND 0xff) = b" "ucast (v AND 0xff) = c" "unat (drop_bit 18 v) < 64"
proof -
  show "ucast (drop_bit 16 v) = a" unfolding v_def by (rule bit_word_eqI) (auto simp: bit_simps dest: bit_imp_le_length)
  show "ucast (drop_bit 8 v AND 0xff) = b" unfolding v_def masks by (rule bit_word_eqI) (auto simp: bit_simps dest: bit_imp_le_length)
  show "ucast (v AND 0xff) = c" unfolding v_def masks by (rule bit_word_eqI) (auto simp: bit_simps dest: bit_imp_le_length)
  have "drop_bit 18 v = drop_bit 18 v AND 0x3f" unfolding v_def masks by (rule bit_word_eqI) (auto simp: bit_simps dest: bit_imp_le_length)
  then show "unat (drop_bit 18 v) < 64" by (metis unat_and_3f)
qed

lemma sextets2:
  fixes v :: u32 assumes "v = push_bit 8 (ucast (a::u8)) OR ucast (b::u8)"
  shows "push_bit 10 (drop_bit 10 v) OR push_bit 4 (drop_bit 4 v AND 0x3f) OR drop_bit 2 (push_bit 2 (v AND 0xf)) = v"
  unfolding masks
proof (rule bit_word_eqI)
  fix n assume "n < LENGTH(32)"
  then show "bit (push_bit 10 (drop_bit 10 v) OR push_bit 4 (drop_bit 4 v AND mask 6) OR drop_bit 2 (push_bit 2 (v AND mask 4))) n = bit v n"
    by (cases "n < 4"; cases "n < 10") (auto simp: bit_simps)
qed

lemma octets2:
  fixes a b :: u8
  defines "v \<equiv> push_bit 8 (ucast a) OR ucast b :: u32"
  shows "ucast (drop_bit 8 v) = a" "ucast (v AND 0xff) = b" "unat (drop_bit 10 v) < 64"
proof -
  show "ucast (drop_bit 8 v) = a" unfolding v_def by (rule bit_word_eqI) (auto simp: bit_simps dest: bit_imp_le_length)
  show "ucast (v AND 0xff) = b" unfolding v_def masks by (rule bit_word_eqI) (auto simp: bit_simps dest: bit_imp_le_length)
  have "drop_bit 10 v = drop_bit 10 v AND 0x3f" unfolding v_def masks by (rule bit_word_eqI) (auto simp: bit_simps dest: bit_imp_le_length)
  then show "unat (drop_bit 10 v) < 64" by (metis unat_and_3f)
qed

lemma octets1:
  fixes a :: u8
  defines "v \<equiv> ucast a :: u32"
  shows "ucast (push_bit 2 (drop_bit 2 v) OR drop_bit 4 (push_bit 4 (v AND 3))) = a" "unat (drop_bit 2 v) < 64"
    "unat (push_bit 4 (v AND 3)) < 64" "push_bit 4 (v AND 3) AND 0xf = 0"
proof -
  show "ucast (push_bit 2 (drop_bit 2 v) OR drop_bit 4 (push_bit 4 (v AND 3))) = a" unfolding v_def masks
  proof (rule bit_word_eqI)
    fix n assume "n < LENGTH(8)"
    then show "bit (ucast (push_bit 2 (drop_bit 2 (ucast a :: u32)) OR drop_bit 4 (push_bit 4 (ucast a AND mask 2))) :: u8) n = bit a n"
      by (cases "n < 2") (auto simp: bit_simps simp flip: add_2_eq_Suc)
  qed
  have "drop_bit 2 v = drop_bit 2 v AND 0x3f" unfolding v_def masks by (rule bit_word_eqI) (auto simp: bit_simps dest: bit_imp_le_length)
  then show "unat (drop_bit 2 v) < 64" by (metis unat_and_3f)
  have "push_bit 4 (v AND 3) = push_bit 4 (v AND 3) AND 0x3f" unfolding masks by (rule bit_word_eqI) (auto simp: bit_simps)
  then show "unat (push_bit 4 (v AND 3)) < 64" by (metis unat_and_3f)
  show "push_bit 4 (v AND 3) AND 0xf = 0" unfolding masks by (rule bit_word_eqI) (auto simp: bit_simps)
qed

lemma low_pair: "unat (push_bit 2 ((v::u32) AND 0xf)) < 64" "push_bit 2 (v AND 0xf) AND 3 = 0"
proof -
  have "push_bit 2 (v AND 0xf) = push_bit 2 (v AND 0xf) AND 0x3f" unfolding masks by (rule bit_word_eqI) (auto simp: bit_simps)
  then show "unat (push_bit 2 (v AND 0xf)) < 64" by (metis unat_and_3f)
  show "push_bit 2 (v AND 0xf) AND 3 = 0" unfolding masks by (rule bit_word_eqI) (auto simp: bit_simps)
qed

lemma uint_and_low: "uint (v::u32) AND 3 = uint (v AND 3)" "uint v AND 0xf = uint (v AND 0xf)"
  by (simp_all add: unsigned_and_eq)

text \<open>Each of the three cases of the decoder gives back what the encoder was given.\<close>

lemma b64_bytes_3:
  fixes a b c :: u8 and v :: u32
  assumes "v = push_bit 16 (ucast a) OR push_bit 8 (ucast b) OR ucast c"
  shows "b64_bytes [uint (drop_bit 18 v), uint (drop_bit 12 v AND 0x3f), uint (drop_bit 6 v AND 0x3f), uint (v AND 0x3f)] = Inr [a, b, c]"
proof -
  note o = octets3 [of a b c, folded assms]
  show ?thesis
    by (simp add: b64_bytes_def uint_neq Let_def sextets3 o del: push_bit_and drop_bit_and push_bit_or drop_bit_or)
qed

lemma b64_bytes_2:
  fixes a b :: u8 and v :: u32
  assumes v: "v = push_bit 8 (ucast a) OR ucast b"
  shows "b64_bytes [uint (drop_bit 10 v), uint (drop_bit 4 v AND 0x3f), uint (push_bit 2 (v AND 0xf)), -2] = Inr [a, b]"
proof -
  note o = octets2 [of a b, folded v]
  show ?thesis
    by (simp add: b64_bytes_def uint_neq Let_def uint_and_low low_pair sextets2 [OF v] o del: push_bit_and drop_bit_and push_bit_or drop_bit_or)
qed

lemma b64_bytes_1:
  fixes a :: u8 and v :: u32
  assumes v: "v = ucast a"
  shows "b64_bytes [uint (drop_bit 2 v), uint (push_bit 4 (v AND 3)), -2, -2] = Inr [a]"
proof -
  note o = octets1 [of a, folded v]
  show ?thesis
    by (simp add: b64_bytes_def uint_neq Let_def uint_and_low o del: push_bit_and drop_bit_and push_bit_or drop_bit_or)
qed

lemma b64_decode_encode: "b64_decode (b64_encode s) = Inr s"
proof (induction s rule: b64_encode.induct)
  case (1 a b c r)
  then show ?case
    by (subst b64_decode.simps)
      (simp add: Let_def b64_group_enc b64_bytes_3 [OF refl] octets3 unat_and_3f del: push_bit_and drop_bit_and push_bit_or drop_bit_or)
next
  case (2 a b)
  show ?case
    by (subst b64_decode.simps)
      (simp add: Let_def b64_group_enc b64_bytes_2 [OF refl] octets2 unat_and_3f low_pair b64_decode.simps [of "[]"] del: push_bit_and drop_bit_and push_bit_or drop_bit_or)
next
  case (3 a)
  show ?case
    by (subst b64_decode.simps)
      (simp add: Let_def b64_group_enc b64_bytes_1 [OF refl] octets1 b64_decode.simps [of "[]"] del: push_bit_and drop_bit_and push_bit_or drop_bit_or)
qed (simp add: b64_decode.simps)

lemma length_b64_encode: "length (b64_encode s) = (length s + 2) div 3 * 4"
proof (induction s rule: b64_encode.induct)
  case (1 a b c r)
  have "(length (a # b # c # r) + 2) div 3 = (length r + 2) div 3 + 1" by simp
  with 1 show ?case by (simp add: Let_def)
qed (simp_all add: Let_def)

text \<open>C40: For every text whose encoding has fewer than \<open>2 ^ 31\<close> characters (the sizes are kept in an \<^verbatim>\<open>int\<close>), the base64 encoding
  fills exactly the buffer that was reserved for it, \<open>4\<close> characters for every \<open>3\<close> bytes begun, and decoding it gives the text back.\<close>

theorem base64_roundtrip:
  assumes "(length s + 2) div 3 * 4 < 2 ^ 31"
  shows "\<exists>t. lb64encode s = Inr t \<and> length t = (length s + 2) div 3 * 4 \<and> lb64decode t = Inr (Inr s)"
  using assms by (simp add: lb64encode_def lb64decode_def length_b64_encode b64_decode_encode)

theorem base64_roundtrip_witness:
  "\<exists>t. lb64encode [1, 2, 3, 4] = Inr t \<and> length t = (length [1 :: u8, 2, 3, 4] + 2) div 3 * 4 \<and> lb64decode t = Inr (Inr [1, 2, 3, 4])"
  by (rule base64_roundtrip) simp

section \<open>The exchange computes powers\<close>

definition p :: nat where "p = 18446744073709551557"

lemma unat_P: "unat P = p" by (simp add: P_def p_def)

lemma p_pos [simp]: "0 < p" "n mod p < p" by (simp_all add: p_def)

lemma p_less: "p < 2 ^ 64" by (simp add: p_def)

text \<open>One addition modulo \<open>P\<close>, as both branches of the loop do it, never exceeds 64 bits.\<close>

lemma add_mod_p:
  fixes a m :: u64
  assumes a: "unat a < p" and m: "unat m < p"
  shows "unat (if P - a \<le> m then m - (P - a) else m + a) = (unat m + unat a) mod p"
proof -
  have t: "unat (P - a) = p - unat a"
    using a by (subst unat_sub) (simp_all add: unat_P word_le_nat_alt)
  show ?thesis
  proof (cases "P - a \<le> m")
    case True
    then have "unat (m - (P - a)) = unat m + unat a - p" using a t by (simp add: unat_sub word_le_nat_alt)
    moreover have "(unat m + unat a) mod p = unat m + unat a - p"
    proof -
      have "p \<le> unat m + unat a" using True a t by (simp add: word_le_nat_alt)
      then show ?thesis using a m by (simp add: le_mod_geq)
    qed
    ultimately show ?thesis using True by simp
  next
    case False
    then have "unat m + unat a < p" using a t by (simp add: word_le_nat_alt not_le)
    then show ?thesis using False using p_less by (simp add: unat_word_ariths)
  qed
qed

lemma double_mod_p:
  fixes a :: u64
  assumes a: "unat a < p"
  shows "unat (if P - a \<le> a then a * 2 - P else a * 2) = (2 * unat a) mod p"
proof -
  have "(if P - a \<le> a then a * 2 - P else a * 2) = (if P - a \<le> a then a - (P - a) else a + a)"
    by (simp add: algebra_simps)
  then show ?thesis using add_mod_p [OF a a] by (simp only: mult_2)
qed

lemma and_1_odd: "(b::u64) AND 1 \<noteq> 0 \<longleftrightarrow> odd (unat b)" "b AND 1 = 0 \<longleftrightarrow> even (unat b)"
proof -
  have "unat (b AND mask 1) = unat b mod 2" by (simp only: unat_and_mask) simp
  then have *: "unat (b AND 1) = unat b mod 2" by (simp add: mask_eq_exp_minus_1)
  then show "b AND 1 = 0 \<longleftrightarrow> even (unat b)" by (metis even_iff_mod_2_eq_zero unat_eq_zero)
  then show "b AND 1 \<noteq> 0 \<longleftrightarrow> odd (unat b)" by simp
qed

lemma mod_add_mult: "((x::nat) mod q + (y mod q) * z) mod q = (x + y * z) mod q"
  by (metis mod_add_eq mod_mult_left_eq mod_mod_trivial)

lemma mul_loop_correct:
  "unat m < p \<Longrightarrow> unat a < p \<Longrightarrow> unat (mul_loop m a b) = (unat m + unat a * unat b) mod p"
proof (induction m a b rule: mul_loop.induct)
  case (1 m a b)
  show ?case
  proof (cases "b = 0")
    case True
    then show ?thesis using 1 by (simp add: mul_loop.simps)
  next
    case False
    define m' where "m' = (if b AND 1 \<noteq> 0 then (let t = P - a in if t \<le> m then m - t else m + a) else m)"
    define a' where "a' = (if P - a \<le> a then a * 2 - P else a * 2)"
    have m': "unat m' = (unat m + unat a * (unat b mod 2)) mod p"
    proof (cases "odd (unat b)")
      case True
      then have "m' = (if P - a \<le> m then m - (P - a) else m + a)" by (simp add: m'_def and_1_odd Let_def)
      with add_mod_p [OF 1(3,2)] True show ?thesis by (simp only: odd_iff_mod_2_eq_one mult_1_right)
    next
      case False
      with 1(2) show ?thesis by (simp add: m'_def and_1_odd even_iff_mod_2_eq_zero)
    qed
    have a': "unat a' = (2 * unat a) mod p" unfolding a'_def by (rule double_mod_p [OF 1(3)])
    have lt: "unat m' < p" "unat a' < p" by (simp_all add: m' a')
    have "mul_loop m a b = mul_loop m' a' (drop_bit 1 b)"
      by (subst mul_loop.simps) (simp add: False m'_def a'_def Let_def)
    moreover have "unat (mul_loop m' a' (drop_bit 1 b)) = (unat m' + unat a' * unat (drop_bit 1 b)) mod p"
      using "1.IH" [OF False m'_def a'_def lt] .
    moreover have "(unat m' + unat a' * (unat b div 2)) mod p = (unat m + unat a * (unat b mod 2) + 2 * unat a * (unat b div 2)) mod p"
      unfolding m' a' by (rule mod_add_mult)
    moreover have "unat m + unat a * (unat b mod 2) + 2 * unat a * (unat b div 2) = unat m + unat a * unat b"
    proof -
      have "unat a * (unat b mod 2 + 2 * (unat b div 2)) = unat a * unat b" by simp
      then show ?thesis by (simp only: distrib_left ac_simps)
    qed
    ultimately show ?thesis by (simp add: unat_drop_bit)
  qed
qed

lemma mul_mod_p_correct: "unat a < p \<Longrightarrow> unat (mul_mod_p a b) = (unat a * unat b) mod p"
  by (simp add: mul_mod_p_def mul_loop_correct)

lemma pow_mod_p_correct:
  "unat a < p \<Longrightarrow> b \<noteq> 0 \<Longrightarrow> \<exists>r. pow_mod_p a b = Some r \<and> unat r = unat a ^ unat b mod p"
proof (induction "unat b" arbitrary: b rule: less_induct)
  case less
  show ?case
  proof (cases "b = 1")
    case True
    then show ?thesis using less.prems by (subst pow_mod_p.simps) simp
  next
    case False
    have b: "1 < unat b"
    proof -
      have "unat b \<noteq> 0" "unat b \<noteq> 1" using False less.prems by (simp_all only: word_unat_eq_iff unat_0 unat_1 not_False_eq_True)
      then show ?thesis by linarith
    qed
    have d: "unat (drop_bit 1 b) = unat b div 2" by (simp only: unat_drop_bit) simp
    then have lt: "unat (drop_bit 1 b) < unat b" and "0 < unat (drop_bit 1 b)" using b by simp_all
    then have "drop_bit 1 b \<noteq> 0" by (simp only: unat_gt_0 not_False_eq_True)
    from less.hyps [OF lt less.prems(1) this] obtain t
      where t: "pow_mod_p a (drop_bit 1 b) = Some t" "unat t = unat a ^ (unat b div 2) mod p" by (metis d)
    define t' where "t' = mul_mod_p t t"
    have t': "unat t' = unat a ^ (2 * (unat b div 2)) mod p"
    proof -
      have "unat t' = unat t * unat t mod p" using t(2) by (simp add: t'_def mul_mod_p_correct)
      then show ?thesis by (simp only: t(2) mod_mult_eq mult_2 power_add)
    qed
    have m: "unat (mul_mod_p t' a) = unat a ^ (Suc (2 * (unat b div 2))) mod p"
    proof -
      have "unat (mul_mod_p t' a) = unat t' * unat a mod p" using t' by (simp add: mul_mod_p_correct)
      then show ?thesis by (simp only: t' mod_mult_left_eq power_Suc2)
    qed
    have step: "pow_mod_p a b = Some (if b AND 1 \<noteq> 0 then mul_mod_p t' a else t')"
      by (subst pow_mod_p.simps) (simp only: False t(1) t'_def [symmetric] Let_def if_False bind.bind_lunit)
    show ?thesis
    proof (cases "odd (unat b)")
      case True
      then have "Suc (2 * (unat b div 2)) = unat b" by simp
      with m have "unat (mul_mod_p t' a) = unat a ^ unat b mod p" by simp
      moreover have "pow_mod_p a b = Some (mul_mod_p t' a)" unfolding step using True by (simp only: and_1_odd if_True not_False_eq_True)
      ultimately show ?thesis by blast
    next
      case even: False
      then have "2 * (unat b div 2) = unat b" by simp
      with t' have "unat t' = unat a ^ unat b mod p" by simp
      moreover have "pow_mod_p a b = Some t'" unfolding step using even by (simp only: and_1_odd if_False)
      ultimately show ?thesis by blast
    qed
  qed
qed

lemma powmodp_value:
  assumes "a \<noteq> P" and "b \<noteq> 0"
  shows "map_option unat (powmodp a b) = Some (unat a ^ unat b mod p)"
proof -
  have pow: "unat a < p \<Longrightarrow> b \<noteq> 0 \<Longrightarrow> \<exists>r. pow_mod_p a b = Some r \<and> unat r = unat a ^ unat b mod p" for a b
    by (rule pow_mod_p_correct)
  define a' where "a' = (if P < a then a mod P else a)"
  have "unat a' = unat a mod p"
    using assms(1) by (auto simp: a'_def unat_mod unat_P word_less_nat_alt word_unat_eq_iff)
  moreover from this have "unat a' < p" by simp
  ultimately show ?thesis
    using pow [of a' b] assms(2) by (auto simp: powmodp_def a'_def [symmetric] power_mod)
qed

text \<open>For a positive exponent the exponentiation returns, and returns the power modulo \<open>P\<close>.\<close>

lemma powmodp_correct:
  assumes "a \<noteq> P" and "b \<noteq> 0"
  shows "map_option unat (powmodp a b) = Some (unat a ^ unat b mod p)"
  by (rule powmodp_value [OF assms])

lemma powmodp_correct_witness: "map_option unat (powmodp 7 4) = Some 2401"
  using powmodp_correct [of 7 4] by (simp add: P_def p_def)

lemma length_push64 [simp]: "length (push64 r) = 8" by (simp add: push64_def)

lemma le_word_le_bytes: "le_word (le_bytes w @ xs) 0 = w" "le_word (le_bytes v @ le_bytes w) 4 = w"
proof -
  have "ucast (ucast (w AND mask 8) :: u8) OR push_bit 8 (ucast (ucast (drop_bit 8 w AND mask 8) :: u8)) OR
      push_bit 16 (ucast (ucast (drop_bit 16 w AND mask 8) :: u8)) OR push_bit 24 (ucast (ucast (drop_bit 24 w AND mask 8) :: u8)) = w"
    (is "?l = w")
  proof (rule bit_word_eqI)
    fix n assume n: "n < LENGTH(32)"
    consider "n < 8" | "8 \<le> n" "n < 16" | "16 \<le> n" "n < 24" | "24 \<le> n" by linarith
    then show "bit ?l n = bit w n"
      using n by cases (auto simp: bit_simps)
  qed
  then show "le_word (le_bytes w @ xs) 0 = w" "le_word (le_bytes v @ le_bytes w) 4 = w"
    by (simp_all add: le_word_def le_bytes_def masks)
qed

lemma push64_le_bytes: "push64 r = le_bytes (ucast r) @ le_bytes (ucast (drop_bit 32 r))"
proof -
  have m: "(0xff :: u64) = mask 8" by (simp add: mask_eq_exp_minus_1)
  have "ucast (drop_bit k r AND mask 8) = (ucast (drop_bit k (ucast r :: u32) AND mask 8) :: u8)" if "k \<le> 24" for k
    using that by (intro bit_word_eqI) (auto simp: bit_simps)
  moreover have "ucast (drop_bit (32 + k) r AND mask 8) = (ucast (drop_bit k (ucast (drop_bit 32 r) :: u32) AND mask 8) :: u8)" if "k \<le> 24" for k
    using that by (intro bit_word_eqI) (auto simp: bit_simps ac_simps)
  note this [of 0] this [of 8] this [of 16] this [of 24]
  moreover note calculation(1) [of 0] calculation(1) [of 8] calculation(1) [of 16] calculation(1) [of 24]
  ultimately show ?thesis by (simp add: push64_def le_bytes_def m masks)
qed

lemma qword_push64 [simp]: "qword (push64 r) = r"
proof (rule bit_word_eqI)
  fix n assume "n < LENGTH(64)"
  then show "bit (qword (push64 r)) n = bit r n"
    by (cases "n < 32") (auto simp: qword_def push64_le_bytes le_word_le_bytes bit_simps)
qed

lemma powmodp_word:
  assumes "a \<noteq> P" and "b \<noteq> 0"
  shows "powmodp a b = Some (word_of_nat (unat a ^ unat b mod p))"
proof -
  obtain z where "powmodp a b = Some z" "unat z = unat a ^ unat b mod p" using powmodp_value [OF assms] by auto
  then show ?thesis using word_nat_cases [of z] by (metis of_nat_unat ucast_id)
qed

lemma coprime_G: "coprime (5 ^ n) p"
  by (rule coprime_power_left_iff [THEN iffD2]) (simp add: coprime_iff_gcd_eq_1 gcd_non_0_nat p_def)

lemma G_pow: "0 < 5 ^ n mod p" "5 ^ n mod p < p" "unat (word_of_nat (5 ^ n mod p) :: u64) = 5 ^ n mod p"
proof -
  have "\<not> p dvd 5 ^ n" using coprime_common_divisor [OF coprime_G [of n], of p] by (auto simp: p_def)
  then show "0 < 5 ^ n mod p" by (simp add: dvd_eq_mod_eq_0)
  show lt: "5 ^ n mod p < p" by simp
  then have "5 ^ n mod p < 2 ^ 64" using p_less by linarith
  then show "unat (word_of_nat (5 ^ n mod p) :: u64) = 5 ^ n mod p" by (simp add: unat_of_nat)
qed

text \<open>C36: Both sides of an exchange obtain the same secret, the power of the generator to the product of their
  private keys; neither call reports an error or fails to return.\<close>

theorem dh_agreement:
  assumes "length x = 8" "length y = 8" "qword x \<noteq> 0" "qword y \<noteq> 0"
  shows "\<exists>gx gy. ldhexchange x = Some (Inr gx) \<and> ldhexchange y = Some (Inr gy) \<and>
    (let s = push64 (word_of_nat (5 ^ (unat (qword x) * unat (qword y)) mod p))
     in ldhsecret gx y = Some (Inr s) \<and> ldhsecret gy x = Some (Inr s))"
proof -
  define k where "k n = (word_of_nat (5 ^ n mod p) :: u64)" for n
  have ex: "ldhexchange z = Some (Inr (push64 (k (unat (qword z)))))" if "length z = 8" "qword z \<noteq> 0" for z
  proof -
    have "powmodp G (qword z) = Some (k (unat (qword z)))"
      using powmodp_word [of G "qword z"] that by (simp add: G_def P_def k_def)
    then show ?thesis using that by (simp add: ldhexchange_def)
  qed
  have se: "ldhsecret (push64 (k n)) z = Some (Inr (push64 (word_of_nat (5 ^ (n * unat (qword z)) mod p))))"
    if "length z = 8" "qword z \<noteq> 0" for z n
  proof -
    have k: "unat (k n) = 5 ^ n mod p" unfolding k_def by (rule G_pow(3))
    have "k n \<noteq> 0" using G_pow(1) [of n] k by auto
    moreover have "k n \<noteq> P" using G_pow(2) [of n] k unat_P by (metis less_irrefl)
    moreover have "unat (k n) ^ unat (qword z) mod p = 5 ^ (n * unat (qword z)) mod p"
      by (simp only: k power_mod power_mult)
    ultimately show ?thesis using that powmodp_word [of "k n" "qword z"] by (simp add: ldhsecret_def read64_def)
  qed
  show ?thesis
    using ex [OF assms(1,3)] ex [OF assms(2,4)] se [OF assms(2,4)] se [OF assms(1,3)]
    by (simp add: Let_def mult.commute)
qed

theorem dh_agreement_witness:
  "\<exists>gx gy. ldhexchange [3, 0, 0, 0, 0, 0, 0, 0] = Some (Inr gx) \<and> ldhexchange [4, 0, 0, 0, 0, 0, 0, 0] = Some (Inr gy) \<and>
    (let s = push64 (word_of_nat (5 ^ 12 mod p))
     in ldhsecret gx [4, 0, 0, 0, 0, 0, 0, 0] = Some (Inr s) \<and> ldhsecret gy [3, 0, 0, 0, 0, 0, 0, 0] = Some (Inr s))"
proof -
  have "qword [3, 0, 0, 0, 0, 0, 0, 0] = 3" "qword [4, 0, 0, 0, 0, 0, 0, 0] = 4" by code_simp+
  then show ?thesis using dh_agreement [of "[3, 0, 0, 0, 0, 0, 0, 0]" "[4, 0, 0, 0, 0, 0, 0, 0]"] by simp
qed

section \<open>Keys and xor\<close>

text \<open>Xor with a non-empty key keeps the length and undoes itself, and an empty key is an error; a random key
  has eight bytes, not all zero.\<close>

lemma xor_key_correct:
  "(k \<noteq> [] \<longrightarrow> (\<exists>t. lxor_str s k = Inr t \<and> length t = length s \<and> lxor_str t k = Inr s)) \<and>
   lxor_str s [] = Inl ''Can't xor empty string'' \<and>
   (length rnd = 8 \<longrightarrow> length (lrandomkey rnd) = 8 \<and> (\<exists>b \<in> set (lrandomkey rnd). b \<noteq> 0))"
proof (intro conjI impI)
  assume "k \<noteq> []"
  define t where "t = map (\<lambda>i. s ! i XOR k ! (i mod length k)) [0..<length s]"
  have "map (\<lambda>i. t ! i XOR k ! (i mod length k)) [0..<length s] = s"
    by (rule nth_equalityI) (simp_all add: t_def xor.assoc)
  then show "\<exists>t. lxor_str s k = Inr t \<and> length t = length s \<and> lxor_str t k = Inr s"
    using \<open>k \<noteq> []\<close> by (intro exI [of _ t]) (simp add: lxor_str_def t_def)
next
  show "lxor_str s [] = Inl ''Can't xor empty string''" by (simp add: lxor_str_def)
next
  assume l: "length rnd = 8"
  define tmp where "tmp = map (\<lambda>r. ucast (r AND 0xff) :: u8) (take 8 rnd)"
  have lt: "length tmp = 8" using l by (simp add: tmp_def)
  have k: "lrandomkey rnd = (if foldl (XOR) 0 tmp = 0 then tmp[0 := tmp ! 0 OR 1] else tmp)"
    by (simp add: lrandomkey_def tmp_def Let_def)
  show "length (lrandomkey rnd) = 8" by (simp add: k lt)
  have xor0: "\<forall>b\<in>set ys. b = (0::u8) \<Longrightarrow> foldl (XOR) 0 ys = 0" for ys by (induction ys) simp_all
  have "tmp ! 0 OR 1 \<noteq> 0"
  proof
    assume "tmp ! 0 OR 1 = 0"
    then have "bit (tmp ! 0 OR 1) 0 = False" by simp
    then show False by (simp add: bit_or_iff)
  qed
  moreover have "tmp ! 0 OR 1 \<in> set (tmp[0 := tmp ! 0 OR 1])" using lt by (simp add: set_update_memI)
  ultimately show "\<exists>b \<in> set (lrandomkey rnd). b \<noteq> 0" using xor0 [of tmp] by (auto simp: k)
qed

lemma xor_key_correct_witness:
  "(\<exists>t. lxor_str [1, 2, 3] [7, 9] = Inr t \<and> length t = length [1, 2, 3 :: u8] \<and> lxor_str t [7, 9] = Inr [1, 2, 3]) \<and>
   length (lrandomkey [256, 0, 0, 0, 0, 0, 0, 0]) = 8 \<and> (\<exists>b \<in> set (lrandomkey [256, 0, 0, 0, 0, 0, 0, 0]). b \<noteq> 0)"
  using xor_key_correct [of "[7, 9]" "[1, 2, 3]" "[256, 0, 0, 0, 0, 0, 0, 0]"] by simp

end
