(* ===== verification/Sha1.thy ===== *)
theory Sha1
  imports Prelude
begin

text \<open>
  Model of \<^verbatim>\<open>lualib-src/lsha1.c\<close>: the SHA-1 block transformation with its circular buffer of sixteen words,
  the context with its bit counter and partial block, and the two Lua functions \<open>lsha1\<close> and
  \<open>lhmac_sha1\<close>. The host is little-endian, the case for which the source swaps bytes.

  A context is created on the stack and its buffer is not initialised; the model starts from an
  arbitrary context, and the results are proved not to depend on it.

  Proved: the transformation equals the one of FIPS 180 with its schedule of eighty words; feeding
  a message in pieces hashes their concatenation; the padding loop ends, and the digest is the one of the
  padded message; the authentication code is the nested hash of RFC 2104; the carry of the bit counter is wrong
  for a piece of half a gigabyte or more.
\<close>

section \<open>The block transformation\<close>

record sha1_ctx =
  state :: "u32 list"
  count :: "u32 \<times> u32"
  buffer :: "u8 list"

definition rol :: "u32 \<Rightarrow> nat \<Rightarrow> u32" where
  "rol value bits = push_bit bits value OR drop_bit (32 - bits) value"

text \<open>The union of sixty-four bytes and sixteen words of the host.\<close>

definition block_words :: "u8 list \<Rightarrow> u32 list" where
  "block_words c = map (\<lambda>i. push_bit 24 (ucast (c ! (4 * i + 3))) OR push_bit 16 (ucast (c ! (4 * i + 2))) OR
     push_bit 8 (ucast (c ! (4 * i + 1))) OR ucast (c ! (4 * i))) [0..<16]"

definition blk0 :: "u32 list \<Rightarrow> nat \<Rightarrow> u32 list \<times> u32" where
  "blk0 l i = (let x = (rol (l ! i) 24 AND 0xFF00FF00) OR (rol (l ! i) 8 AND 0x00FF00FF) in (l[i := x], x))"

definition blk :: "u32 list \<Rightarrow> nat \<Rightarrow> u32 list \<times> u32" where
  "blk l i =
     (let x = rol (l ! ((i + 13) mod 16) XOR l ! ((i + 8) mod 16) XOR l ! ((i + 2) mod 16) XOR l ! (i mod 16)) 1
      in (l[i mod 16 := x], x))"

text \<open>A round macro updates \<open>z\<close> and \<open>w\<close>. The calls of the unrolled loop rotate the names of the registers
  by one each, so the result is listed in the order of the next call.\<close>

type_synonym regs = "u32 \<times> u32 \<times> u32 \<times> u32 \<times> u32"

definition R0 :: "regs \<times> u32 list \<Rightarrow> nat \<Rightarrow> regs \<times> u32 list" where
  "R0 = (\<lambda>((v, w, x, y, z), l) i. let (l', b) = blk0 l i in
     ((z + (((w AND (x XOR y)) XOR y) + b + 0x5A827999 + rol v 5), v, rol w 30, x, y), l'))"

definition R1 :: "regs \<times> u32 list \<Rightarrow> nat \<Rightarrow> regs \<times> u32 list" where
  "R1 = (\<lambda>((v, w, x, y, z), l) i. let (l', b) = blk l i in
     ((z + (((w AND (x XOR y)) XOR y) + b + 0x5A827999 + rol v 5), v, rol w 30, x, y), l'))"

definition R2 :: "regs \<times> u32 list \<Rightarrow> nat \<Rightarrow> regs \<times> u32 list" where
  "R2 = (\<lambda>((v, w, x, y, z), l) i. let (l', b) = blk l i in
     ((z + ((w XOR x XOR y) + b + 0x6ED9EBA1 + rol v 5), v, rol w 30, x, y), l'))"

definition R3 :: "regs \<times> u32 list \<Rightarrow> nat \<Rightarrow> regs \<times> u32 list" where
  "R3 = (\<lambda>((v, w, x, y, z), l) i. let (l', b) = blk l i in
     ((z + ((((w OR x) AND y) OR (w AND x)) + b + 0x8F1BBCDC + rol v 5), v, rol w 30, x, y), l'))"

definition R4 :: "regs \<times> u32 list \<Rightarrow> nat \<Rightarrow> regs \<times> u32 list" where
  "R4 = (\<lambda>((v, w, x, y, z), l) i. let (l', b) = blk l i in
     ((z + ((w XOR x XOR y) + b + 0xCA62C1D6 + rol v 5), v, rol w 30, x, y), l'))"

text \<open>The eighty calls in their order; eighty being a multiple of five, the registers end under the
  names they started with.\<close>

definition sha1_round :: "regs \<times> u32 list \<Rightarrow> nat \<Rightarrow> regs \<times> u32 list" where
  "sha1_round s i =
     (if i < 16 then R0 s i else if i < 20 then R1 s i else if i < 40 then R2 s i
      else if i < 60 then R3 s i else R4 s i)"

definition SHA1_Transform :: "u32 list \<Rightarrow> u8 list \<Rightarrow> u32 list" where
  "SHA1_Transform st buf =
     (let ((a, b, c, d, e), l) =
        foldl sha1_round ((st ! 0, st ! 1, st ! 2, st ! 3, st ! 4), block_words buf) [0..<80]
      in [st ! 0 + a, st ! 1 + b, st ! 2 + c, st ! 3 + d, st ! 4 + e])"

section \<open>The context\<close>

definition sat_SHA1_Init :: "sha1_ctx \<Rightarrow> sha1_ctx" where
  "sat_SHA1_Init ctx =
     ctx\<lparr>state := [0x67452301, 0xEFCDAB89, 0x98BADCFE, 0x10325476, 0xC3D2E1F0], count := (0, 0)\<rparr>"

text \<open>The bit counter: \<open>len\<close> is a 64 bit \<^verbatim>\<open>size_t\<close>, the halves of the counter have 32 bits.\<close>

definition add_count :: "u32 \<times> u32 \<Rightarrow> u64 \<Rightarrow> u32 \<times> u32" where
  "add_count c len =
     (let c0 = fst c + ucast (push_bit 3 len);
          c1 = (if ucast c0 < push_bit 3 len then snd c + 1 else snd c)
      in (c0, c1 + ucast (drop_bit 29 len)))"

text \<open>The loop over the full blocks of the data.\<close>

function block_loop :: "u32 list \<Rightarrow> u8 list \<Rightarrow> nat \<Rightarrow> u32 list \<times> nat" where
  "block_loop st data i =
     (if i + 63 < length data then block_loop (SHA1_Transform st (take 64 (drop i data))) data (i + 64) else (st, i))"
  by pat_completeness auto
termination by (relation "measure (\<lambda>(st, data, i). length data - i)") auto

declare block_loop.simps [simp del]

text \<open>\<^verbatim>\<open>memcpy\<close> into the buffer at an offset.\<close>

definition memcpy_at :: "u8 list \<Rightarrow> nat \<Rightarrow> u8 list \<Rightarrow> u8 list" where
  "memcpy_at buf j xs = take j buf @ xs @ drop (j + length xs) buf"

definition sat_SHA1_Update :: "sha1_ctx \<Rightarrow> u8 list \<Rightarrow> sha1_ctx" where
  "sat_SHA1_Update ctx data =
     (let len = length data; j = unat (drop_bit 3 (fst (count ctx)) AND 63);
          ctx = ctx\<lparr>count := add_count (count ctx) (word_of_nat len)\<rparr>
      in if j + len > 63 then
           let i = 64 - j; buf = memcpy_at (buffer ctx) j (take i data);
               (st, i) = block_loop (SHA1_Transform (state ctx) buf) data i
           in ctx\<lparr>state := st, buffer := memcpy_at buf 0 (drop i data)\<rparr>
         else ctx\<lparr>buffer := memcpy_at (buffer ctx) j data\<rparr>)"

lemma fst_add_count: "fst (add_count c len) = fst c + ucast (push_bit 3 len)"
  by (simp add: add_count_def Let_def)

lemma count_update [simp]: "count (sat_SHA1_Update ctx data) = add_count (count ctx) (word_of_nat (length data))"
  by (simp add: sat_SHA1_Update_def Let_def split: prod.split)

text \<open>The position in the current block, as the counter gives it.\<close>

definition fill :: "u32 \<times> u32 \<Rightarrow> nat" where "fill c = unat (drop_bit 3 (fst c) AND 63)"

lemma fill_mod: "fill c = unat (fst c) div 8 mod 64"
proof -
  have "(63 :: u32) = mask 6" by (simp add: mask_eq_exp_minus_1)
  then show ?thesis by (simp only: fill_def unat_and_mask unat_drop_bit) simp
qed

lemma fill_padding: "fst c AND 504 = 448 \<longleftrightarrow> fill c = 56"
proof -
  have m: "(504 :: u32) = push_bit 3 (mask 6)" "(448 :: u32) = push_bit 3 56" by (simp_all add: push_bit_eq_mult mask_eq_exp_minus_1)
  have 1: "fst c AND 504 = push_bit 3 (drop_bit 3 (fst c) AND mask 6)"
    unfolding m by (rule bit_word_eqI) (auto simp: bit_simps)
  have 2: "x = y" if "push_bit 3 x = push_bit 3 (y::u32)" "unat x < 2 ^ 29" "unat y < 2 ^ 29" for x y
  proof -
    have "unat (push_bit 3 x) = 8 * unat x" "unat (push_bit 3 y) = 8 * unat y"
      using that(2,3) by (simp_all add: unsigned_push_bit_eq push_bit_nat_def take_bit_eq_mod)
    then show ?thesis using that(1) by (simp add: word_unat_eq_iff)
  qed
  have "unat (drop_bit 3 (fst c) AND mask 6) < 64" by (simp only: unat_and_mask) simp
  then have lt: "unat (drop_bit 3 (fst c) AND mask 6) < 2 ^ 29" by simp
  have lt': "unat (56 :: u32) < 2 ^ 29" by simp
  have "fst c AND 504 = 448 \<longleftrightarrow> drop_bit 3 (fst c) AND mask 6 = 56"
    unfolding 1 m(2) using 2 [of "drop_bit 3 (fst c) AND mask 6" 56] using lt lt' by metis
  also have "\<dots> \<longleftrightarrow> unat (drop_bit 3 (fst c) AND mask 6) = 56" by (simp add: word_unat_eq_iff)
  finally show ?thesis by (simp add: fill_def mask_eq_exp_minus_1)
qed

lemma fill_add_count: "fill (add_count c (word_of_nat n)) = (fill c + n) mod 64"
proof -
  have "push_bit 3 (word_of_nat n :: u64) = word_of_nat (8 * n)" by (simp add: push_bit_eq_mult)
  moreover have "unat (ucast (word_of_nat (8 * n) :: u64) :: u32) = 8 * n mod 2 ^ 32"
    by (simp only: unsigned_ucast_eq unat_of_nat take_bit_eq_mod) (simp add: mod_mod_cancel)
  ultimately have "unat (ucast (push_bit 3 (word_of_nat n :: u64)) :: u32) = 8 * n mod 2 ^ 32" by simp
  then have "unat (fst (add_count c (word_of_nat n))) = (unat (fst c) + 8 * n) mod (8 * 536870912)"
    by (simp add: fst_add_count unat_word_ariths mod_add_right_eq)
  then have "fill (add_count c (word_of_nat n)) = (unat (fst c) + 8 * n) div 8 mod 536870912 mod 64"
    by (simp only: fill_mod) (simp only: mod_mult2_eq, simp)
  then show ?thesis by (simp add: fill_mod mod_mod_cancel mod_add_right_eq add.commute)
qed


section \<open>Padding and digest\<close>

text \<open>The loop that appends zero bytes; it ends because the position advances round the block.\<close>

lemma fill_less: "fill c < 64" by (simp add: fill_mod)

function pad_loop :: "sha1_ctx \<Rightarrow> sha1_ctx" where
  "pad_loop ctx = (if fst (count ctx) AND 504 \<noteq> 448 then pad_loop (sat_SHA1_Update ctx [0]) else ctx)"
  by pat_completeness auto
termination
proof (relation "measure (\<lambda>ctx. let k = fill (count ctx) in if k \<le> 56 then 56 - k else 120 - k)", simp)
  fix ctx :: sha1_ctx assume "fst (count ctx) AND 504 \<noteq> 448"
  then have f: "fill (count ctx) \<noteq> 56" by (simp add: fill_padding)
  have s: "fill (count (sat_SHA1_Update ctx [0])) = (fill (count ctx) + 1) mod 64"
    using fill_add_count [of "count ctx" 1] by simp
  have "(let j = (k + 1) mod 64 in if j \<le> 56 then 56 - j else 120 - j) < (if k \<le> 56 then 56 - k else 120 - k)"
    if "k \<noteq> 56" "k < 64" for k :: nat
    using that by (cases "k = 63") (auto simp: Let_def)
  from this [OF f fill_less] s
  show "(sat_SHA1_Update ctx [0], ctx) \<in> measure (\<lambda>ctx. let k = fill (count ctx) in if k \<le> 56 then 56 - k else 120 - k)" by (simp only: in_measure Let_def)
qed

declare pad_loop.simps [simp del]

definition sat_SHA1_Final :: "sha1_ctx \<Rightarrow> sha1_ctx \<times> u8 list" where
  "sat_SHA1_Final ctx =
     (let finalcount = map (\<lambda>i. ucast (drop_bit ((3 - (i mod 4)) * 8)
              (if 4 \<le> i then fst (count ctx) else snd (count ctx)) AND 255)) [0..<8];
          ctx = sat_SHA1_Update ctx [0x80];
          ctx = pad_loop ctx;
          ctx = sat_SHA1_Update ctx finalcount;
          digest = map (\<lambda>i. ucast (drop_bit ((3 - (i mod 4)) * 8) (state ctx ! (i div 4)) AND 255)) [0..<20]
      in (\<lparr>state = replicate 5 0, count = (0, 0), buffer = replicate 64 0\<rparr>, digest))"

section \<open>The Lua functions\<close>

text \<open>The argument \<open>c\<close> is the uninitialised context.\<close>

definition lsha1 :: "sha1_ctx \<Rightarrow> u8 list \<Rightarrow> u8 list" where
  "lsha1 c buf =
     (let ctx = sat_SHA1_Init c; ctx = sat_SHA1_Update ctx buf in snd (sat_SHA1_Final ctx))"

definition BLOCKSIZE :: nat where "BLOCKSIZE = 64"

definition xor_key :: "u8 list \<Rightarrow> u32 \<Rightarrow> u8 list" where
  "xor_key key x = map (\<lambda>i. key ! i XOR ucast (drop_bit (8 * (i mod 4)) x)) [0..<BLOCKSIZE]"

definition lhmac_sha1 :: "sha1_ctx \<Rightarrow> sha1_ctx \<Rightarrow> sha1_ctx \<Rightarrow> u8 list \<Rightarrow> u8 list \<Rightarrow> u8 list" where
  "lhmac_sha1 c c1 c2 key txt =
     (let rkey = replicate BLOCKSIZE 0;
          rkey = (if length key > BLOCKSIZE
                  then memcpy_at rkey 0 (snd (sat_SHA1_Final (sat_SHA1_Update (sat_SHA1_Init c) key)))
                  else memcpy_at rkey 0 key);
          rkey = xor_key rkey 0x5c5c5c5c;
          ctx1 = sat_SHA1_Update (sat_SHA1_Init c1) rkey;
          rkey = xor_key rkey (0x5c5c5c5c XOR 0x36363636);
          ctx2 = sat_SHA1_Update (sat_SHA1_Init c2) rkey;
          ctx2 = sat_SHA1_Update ctx2 txt;
          digest2 = snd (sat_SHA1_Final ctx2);
          ctx1 = sat_SHA1_Update ctx1 digest2
      in snd (sat_SHA1_Final ctx1))"

section \<open>Specification: FIPS 180\<close>

definition be_word :: "u8 list \<Rightarrow> nat \<Rightarrow> u32" where
  "be_word c i = push_bit 24 (ucast (c ! (4 * i))) OR push_bit 16 (ucast (c ! (4 * i + 1))) OR
     push_bit 8 (ucast (c ! (4 * i + 2))) OR ucast (c ! (4 * i + 3))"

primrec schedule :: "u8 list \<Rightarrow> nat \<Rightarrow> u32 list" where
  "schedule c 0 = []"
| "schedule c (Suc t) =
     (let W = schedule c t
      in W @ [if t < 16 then be_word c t else rol (W ! (t - 3) XOR W ! (t - 8) XOR W ! (t - 14) XOR W ! (t - 16)) 1])"

definition fips_f :: "nat \<Rightarrow> u32 \<Rightarrow> u32 \<Rightarrow> u32 \<Rightarrow> u32" where
  "fips_f t x y z =
     (if t < 20 then (x AND y) XOR (NOT x AND z) else if t < 40 then x XOR y XOR z
      else if t < 60 then (x AND y) XOR (x AND z) XOR (y AND z) else x XOR y XOR z)"

definition fips_K :: "nat \<Rightarrow> u32" where
  "fips_K t = (if t < 20 then 0x5A827999 else if t < 40 then 0x6ED9EBA1 else if t < 60 then 0x8F1BBCDC else 0xCA62C1D6)"

definition fips_round :: "u32 list \<Rightarrow> regs \<Rightarrow> nat \<Rightarrow> regs" where
  "fips_round W = (\<lambda>(v, w, x, y, z) t. (rol v 5 + fips_f t w x y + z + fips_K t + W ! t, v, rol w 30, x, y))"

definition compress :: "u32 list \<Rightarrow> u8 list \<Rightarrow> u32 list" where
  "compress h blck =
     (let (a, b, c, d, e) = foldl (fips_round (schedule blck 80)) (h ! 0, h ! 1, h ! 2, h ! 3, h ! 4) [0..<80]
      in [h ! 0 + a, h ! 1 + b, h ! 2 + c, h ! 3 + d, h ! 4 + e])"

text \<open>The full blocks of a message, the padding and the digest.\<close>

definition blocks :: "u8 list \<Rightarrow> u8 list list" where
  "blocks m = map (\<lambda>k. take 64 (drop (64 * k) m)) [0..<length m div 64]"

definition H0 :: "u32 list" where "H0 = [0x67452301, 0xEFCDAB89, 0x98BADCFE, 0x10325476, 0xC3D2E1F0]"

definition be64 :: "u64 \<Rightarrow> u8 list" where "be64 w = map (\<lambda>i. ucast (drop_bit (8 * (7 - i)) w)) [0..<8]"

definition fips_pad :: "u8 list \<Rightarrow> u8 list" where
  "fips_pad m = m @ [0x80] @ replicate ((119 - length m mod 64) mod 64) 0 @ be64 (word_of_nat (8 * length m))"

definition sha1 :: "u8 list \<Rightarrow> u8 list" where
  "sha1 m = concat (map (\<lambda>w. [ucast (drop_bit 24 w), ucast (drop_bit 16 w), ucast (drop_bit 8 w), ucast w])
     (foldl compress H0 (blocks (fips_pad m))))"

section \<open>The transformation is the one of FIPS 180\<close>

lemma length_schedule [simp]: "length (schedule c t) = t"
  by (induction t) (simp_all add: Let_def)

lemma schedule_nth: "s < t \<Longrightarrow> schedule c t ! s = schedule c (Suc s) ! s"
  by (induction t) (auto simp: Let_def nth_append less_Suc_eq)

text \<open>The words of the schedule by their recurrence.\<close>

definition W :: "u8 list \<Rightarrow> nat \<Rightarrow> u32" where "W c t = schedule c 80 ! t"

lemma W_first: "t < 16 \<Longrightarrow> W c t = be_word c t"
  using schedule_nth [of t 80 c] by (simp add: W_def Let_def nth_append)

lemma W_next: "16 \<le> t \<Longrightarrow> t < 80 \<Longrightarrow> W c t = rol (W c (t - 3) XOR W c (t - 8) XOR W c (t - 14) XOR W c (t - 16)) 1"
proof -
  assume t: "16 \<le> t" "t < 80"
  have "schedule c t ! s = W c s" if "s < t" for s
    unfolding W_def using schedule_nth [of s t c] schedule_nth [of s 80 c] that t by simp
  then show ?thesis using schedule_nth [of t 80 c] t by (simp add: W_def [of c t] Let_def nth_append)
qed

lemma swap_bytes:
  fixes a b c d :: u8
  defines "x \<equiv> push_bit 24 (ucast d) OR push_bit 16 (ucast c) OR push_bit 8 (ucast b) OR ucast a :: u32"
  shows "(rol x 24 AND 0xFF00FF00) OR (rol x 8 AND 0x00FF00FF) =
    push_bit 24 (ucast a) OR push_bit 16 (ucast b) OR push_bit 8 (ucast c) OR ucast d"
proof -
  have m: "(0xFF00FF00 :: u32) = push_bit 24 (mask 8) OR push_bit 8 (mask 8)" "(0x00FF00FF :: u32) = push_bit 16 (mask 8) OR mask 8"
    by (simp_all add: push_bit_eq_mult mask_eq_exp_minus_1)
  show ?thesis unfolding m x_def rol_def
  proof (rule bit_word_eqI, goal_cases)
    case (1 n)
    consider "n < 8" | "8 \<le> n" "n < 16" | "16 \<le> n" "n < 24" | "24 \<le> n" "n < 32" using 1 by force
    then show ?case by cases (auto simp: bit_simps dest: bit_imp_le_length)
  qed
qed

lemma blk0_block: "i < 16 \<Longrightarrow> l ! i = block_words c ! i \<Longrightarrow> blk0 l i = (l[i := W c i], W c i)"
  by (simp add: blk0_def block_words_def swap_bytes W_first be_word_def Let_def)

text \<open>What the circular buffer holds after \<open>t\<close> rounds.\<close>

definition ring :: "u8 list \<Rightarrow> nat \<Rightarrow> u32 list \<Rightarrow> bool" where
  "ring c t l \<longleftrightarrow> length l = 16 \<and> (\<forall>s. s < t \<longrightarrow> t \<le> s + 16 \<longrightarrow> l ! (s mod 16) = W c s) \<and>
     (\<forall>s. t \<le> s \<longrightarrow> s < 16 \<longrightarrow> l ! s = block_words c ! s)"

lemma ring_blk0: "ring c t l \<Longrightarrow> t < 16 \<Longrightarrow> blk0 l t = (l[t := W c t], W c t) \<and> ring c (Suc t) (l[t := W c t])"
  by (auto simp: ring_def blk0_block nth_list_update)

lemma ring_blk:
  assumes r: "ring c t l" and t: "16 \<le> t" "t < 80"
  shows "blk l t = (l[t mod 16 := W c t], W c t) \<and> ring c (Suc t) (l[t mod 16 := W c t])"
proof -
  have w: "l ! (s mod 16) = W c s" if "s < t" "t \<le> s + 16" for s using r that by (simp add: ring_def)
  have "(t + 13) mod 16 = (t - 3) mod 16" "(t + 8) mod 16 = (t - 8) mod 16" "(t + 2) mod 16 = (t - 14) mod 16" "t mod 16 = (t - 16) mod 16"
    using t(1) mod_add_self2 [of "t - 3" 16] mod_add_self2 [of "t - 8" 16] mod_add_self2 [of "t - 14" 16] mod_add_self2 [of "t - 16" 16]
    by (simp_all add: add.commute)
  then have "blk l t = (l[t mod 16 := W c t], W c t)"
    using w [of "t - 3"] w [of "t - 8"] w [of "t - 14"] w [of "t - 16"] t by (simp add: blk_def Let_def W_next)
  moreover have ne: "s mod 16 \<noteq> t mod 16" if "s < t" "Suc t \<le> s + 16" for s
  proof
    assume "s mod 16 = t mod 16"
    then have "16 dvd t - s" using that by (metis mod_eq_dvd_iff_nat less_imp_le)
    then show False using that by (auto dest: dvd_imp_le)
  qed
  have "l[t mod 16 := W c t] ! (s mod 16) = W c s" if "s < Suc t" "Suc t \<le> s + 16" for s
  proof (cases "s = t")
    case True
    then show ?thesis using r by (simp add: ring_def)
  next
    case False
    then show ?thesis using w [of s] ne [of s] that by simp
  qed
  then have "ring c (Suc t) (l[t mod 16 := W c t])" using r t by (simp add: ring_def)
  ultimately show ?thesis by simp
qed

lemma f_ch: "((w AND (x XOR y)) XOR y) = ((w AND x) XOR (NOT w AND y) :: u32)"
  by (rule bit_word_eqI) (auto simp: bit_simps)

lemma f_maj: "(((w OR x) AND y) OR (w AND x)) = ((w AND x) XOR (w AND y) XOR (x AND y) :: u32)"
  by (rule bit_word_eqI) (auto simp: bit_simps)

lemma sha1_round_fips:
  assumes "ring c t l" and "t < 80"
  shows "\<exists>l'. sha1_round (r, l) t = (fips_round (schedule c 80) r t, l') \<and> ring c (Suc t) l'"
proof -
  obtain v w x y z where r: "r = (v, w, x, y, z)" by (cases r)
  define l' where "l' = l[t mod 16 := W c t]"
  have b0: "t < 16 \<Longrightarrow> blk0 l t = (l', W c t)" and b: "16 \<le> t \<Longrightarrow> blk l t = (l', W c t)" and l': "ring c (Suc t) l'"
    using ring_blk0 [OF assms(1)] ring_blk [OF assms(1) _ assms(2)] by (cases "t < 16"; simp add: l'_def)+
  note defs = sha1_round_def R0_def R1_def R2_def R3_def R4_def fips_round_def r fips_f_def fips_K_def W_def [symmetric] add_ac
  consider "t < 16" | "16 \<le> t" "t < 20" | "20 \<le> t" "t < 40" | "40 \<le> t" "t < 60" | "60 \<le> t" using assms(2) by linarith
  then have "sha1_round (r, l) t = (fips_round (schedule c 80) r t, l')"
  proof cases
    case 4
    then show ?thesis using f_maj [of w x y] b by (simp add: defs)
  qed (use b b0 f_ch [of w x y] in \<open>simp_all add: defs\<close>)
  with l' show ?thesis by blast
qed

lemma sha1_rounds_fips: "t \<le> 80 \<Longrightarrow> \<exists>l'. foldl sha1_round (r, block_words c) [0..<t] =
    (foldl (fips_round (schedule c 80)) r [0..<t], l') \<and> ring c t l'"
proof (induction t)
  case 0
  show ?case by (simp add: ring_def block_words_def)
next
  case (Suc t)
  then show ?case using sha1_round_fips by fastforce
qed

lemma SHA1_Transform_compress: "SHA1_Transform st c = compress st c"
proof -
  obtain l' where l': "foldl sha1_round ((st ! 0, st ! 1, st ! 2, st ! 3, st ! 4), block_words c) [0..<80] =
      (foldl (fips_round (schedule c 80)) (st ! 0, st ! 1, st ! 2, st ! 3, st ! 4) [0..<80], l')"
    using sha1_rounds_fips [of 80] by blast
  show ?thesis unfolding SHA1_Transform_def compress_def l' by (simp add: Let_def split: prod.split)
qed

section \<open>Hashing a message in pieces\<close>

lemma blocks_short: "length m < 64 \<Longrightarrow> blocks m = []"
  by (simp add: blocks_def)

lemma blocks_Cons: "length a = 64 \<Longrightarrow> blocks (a @ b) = a # blocks b"
proof -
  assume a: "length a = 64"
  have "blocks (a @ b) = map (\<lambda>k. take 64 (drop (64 * k) (a @ b))) (0 # map Suc [0..<length b div 64])"
  proof -
    have "length (a @ b) div 64 = Suc (length b div 64)" using a by (simp add: div_add_self1)
    then show ?thesis by (simp only: blocks_def) (simp add: upt_conv_Cons map_Suc_upt del: upt_Suc)
  qed
  also have "\<dots> = a # blocks b"
    using a by (simp add: blocks_def o_def)
  finally show ?thesis .
qed

lemma blocks_append: "length a mod 64 = 0 \<Longrightarrow> blocks (a @ b) = blocks a @ blocks b"
proof (induction "length a" arbitrary: a rule: less_induct)
  case less
  show ?case
  proof (cases "a = []")
    case False
    then have l: "64 \<le> length a" using less.prems by (cases "length a < 64") auto
    define x y where "x = take 64 a" "y = drop 64 a"
    have xy: "a = x @ y" "length x = 64" using l by (simp_all add: x_y_def)
    have "blocks (y @ b) = blocks y @ blocks b"
    proof (rule less.hyps)
      show "length y < length a" using xy by simp
      have "length a = length y + 64" using xy by simp
      then show "length y mod 64 = 0" using less.prems by (simp only: mod_add_self2)
    qed
    then show ?thesis using xy by (simp add: blocks_Cons)
  qed (simp add: blocks_short)
qed

lemma block_loop_spec: "i \<le> length data \<Longrightarrow>
    block_loop st data i = (foldl compress st (blocks (drop i data)), i + 64 * ((length data - i) div 64))"
proof (induction st data i rule: block_loop.induct)
  case (1 st data i)
  show ?case
  proof (cases "i + 63 < length data")
    case True
    then have "drop i data = take 64 (drop i data) @ drop (i + 64) data"
      by (metis append_take_drop_id drop_drop add.commute)
    then have b: "blocks (drop i data) = take 64 (drop i data) # blocks (drop (i + 64) data)"
      using blocks_Cons [of "take 64 (drop i data)" "drop (i + 64) data"] True by simp
    have "length data - i = length data - (i + 64) + 64" using True by simp
    then have d: "(length data - i) div 64 = Suc ((length data - (i + 64)) div 64)"
      by (simp only: div_add_self2)
    have "block_loop st data i = block_loop (SHA1_Transform st (take 64 (drop i data))) data (i + 64)"
      using True by (subst block_loop.simps) simp
    also have "\<dots> = (foldl compress (SHA1_Transform st (take 64 (drop i data))) (blocks (drop (i + 64) data)),
        i + 64 + 64 * ((length data - (i + 64)) div 64))"
      using "1.IH" [OF True] True by simp
    finally show ?thesis by (simp add: b d SHA1_Transform_compress)
  next
    case False
    then show ?thesis by (subst block_loop.simps) (simp add: blocks_short)
  qed
qed

text \<open>The counter of a message of \<open>n\<close> bytes.\<close>

definition bits :: "nat \<Rightarrow> u32 \<times> u32" where
  "bits n = (let w = word_of_nat (8 * n) :: u64 in (ucast w, ucast (drop_bit 32 w)))"

lemma bits_unat: "unat (fst (bits n)) = 8 * n mod 2 ^ 32" "unat (snd (bits n)) = 8 * n div 2 ^ 32 mod 2 ^ 32"
proof -
  show "unat (fst (bits n)) = 8 * n mod 2 ^ 32"
    unfolding bits_def Let_def fst_conv by (simp only: unsigned_ucast_eq unat_of_nat take_bit_eq_mod) (simp add: mod_mod_cancel)
  have "unat (drop_bit 32 (word_of_nat (8 * n) :: u64)) = 8 * n mod 2 ^ 64 div 2 ^ 32"
    by (simp only: unat_drop_bit unat_of_nat) simp
  also have "\<dots> = 8 * n div 2 ^ 32 mod 2 ^ 32"
    using mod_mult2_eq [of "8 * n" "2 ^ 32" "2 ^ 32"] by simp
  finally show "unat (snd (bits n)) = 8 * n div 2 ^ 32 mod 2 ^ 32"
    unfolding bits_def Let_def snd_conv by (simp add: unsigned_ucast_eq take_bit_eq_mod)
qed

lemma carry32: "(a + b) div 2 ^ 32 = a div 2 ^ 32 + (if (a + b) mod 2 ^ 32 < b then 1 else 0)" if "b < 2 ^ 32" for a b :: nat
proof -
  define q r where "q = a div 2 ^ 32" "r = a mod 2 ^ 32"
  have a: "a = q * 2 ^ 32 + r" "r < 2 ^ 32" by (simp_all add: q_r_def)
  show ?thesis
  proof (cases "r + b < 2 ^ 32")
    case True
    moreover have "a + b = (r + b) + q * 2 ^ 32" using a(1) by simp
    ultimately have "(a + b) div 2 ^ 32 = q" "(a + b) mod 2 ^ 32 = r + b" by (simp_all only: div_mult_self1 mod_mult_self1) simp_all
    then show ?thesis by (simp add: q_r_def)
  next
    case False
    then have "a + b = (r + b - 2 ^ 32) + (q + 1) * 2 ^ 32" "r + b - 2 ^ 32 < 2 ^ 32" using a that by simp_all
    moreover have "r + b - 2 ^ 32 < b" using a(2) False that by linarith
    ultimately have "(a + b) div 2 ^ 32 = q + 1" "(a + b) mod 2 ^ 32 < b" by (simp_all only: div_mult_self1 mod_mult_self1) simp_all
    then show ?thesis by (simp add: q_r_def)
  qed
qed

lemma add_count_bits:
  assumes k: "k < 2 ^ 29"
  shows "add_count (bits n) (word_of_nat k) = bits (n + k)"
proof -
  have l: "unat (push_bit 3 (word_of_nat k :: u64)) = 8 * k"
    using k by (simp add: push_bit_eq_mult unat_word_ariths unat_of_nat)
  have z: "drop_bit 29 (word_of_nat k :: u64) = 0"
    using k unat_drop_bit [of 29 "word_of_nat k :: u64"] by (simp add: unat_of_nat word_unat_eq_iff)
  define c0 where "c0 = fst (bits n) + ucast (push_bit 3 (word_of_nat k :: u64))"
  have "unat (ucast (push_bit 3 (word_of_nat k :: u64)) :: u32) = 8 * k"
    using k by (simp only: unsigned_ucast_eq l take_bit_eq_mod) simp
  then have c0: "unat c0 = 8 * (n + k) mod 2 ^ 32"
    unfolding c0_def by (simp add: unat_word_ariths bits_unat mod_add_left_eq)
  have less: "ucast c0 < push_bit 3 (word_of_nat k :: u64) \<longleftrightarrow> (8 * n + 8 * k) mod 2 ^ 32 < 8 * k"
    by (simp add: word_less_nat_alt l unsigned_ucast_eq take_bit_eq_mod c0)
  have "fst (add_count (bits n) (word_of_nat k)) = fst (bits (n + k))"
    using c0 by (simp add: fst_add_count c0_def [symmetric] word_unat_eq_iff bits_unat)
  moreover have "snd (add_count (bits n) (word_of_nat k)) = snd (bits (n + k))"
  proof -
    have "snd (add_count (bits n) (word_of_nat k)) = snd (bits n) + (if (8 * n + 8 * k) mod 2 ^ 32 < 8 * k then 1 else 0)"
      unfolding add_count_def Let_def c0_def [symmetric] less z by simp
    moreover have "8 * (n + k) div 2 ^ 32 = 8 * n div 2 ^ 32 + (if (8 * n + 8 * k) mod 2 ^ 32 < 8 * k then 1 else 0)"
      using carry32 [of "8 * k" "8 * n"] k by (simp add: distrib_left)
    ultimately show ?thesis by (simp add: word_unat_eq_iff bits_unat unat_word_ariths mod_add_left_eq mod_Suc_eq)
  qed
  ultimately show ?thesis by (simp add: prod_eq_iff)
qed

text \<open>A context that has absorbed the message \<open>m\<close>.\<close>

definition absorbed :: "sha1_ctx \<Rightarrow> u8 list \<Rightarrow> bool" where
  "absorbed ctx m \<longleftrightarrow> state ctx = foldl compress H0 (blocks m) \<and> count ctx = bits (length m) \<and>
     length (buffer ctx) = 64 \<and> take (length m mod 64) (buffer ctx) = drop (length m - length m mod 64) m"

lemma absorbed_Init: "length (buffer ctx) = 64 \<Longrightarrow> absorbed (sat_SHA1_Init ctx) []"
  by (simp add: absorbed_def sat_SHA1_Init_def H0_def blocks_short bits_def)

lemma fill_bits: "fill (bits n) = n mod 64"
proof -
  have "8 * n mod 2 ^ 32 div 8 mod 64 = n mod 64"
  proof -
    have "8 * n mod 2 ^ 32 = 8 * (n mod 2 ^ 29)" using mult_mod_right [of 8 n "2 ^ 29"] by simp
    then show ?thesis by (simp add: mod_mod_cancel)
  qed
  then show ?thesis by (simp add: fill_mod bits_unat)
qed

lemma absorbed_Update:
  assumes c: "absorbed ctx m" and len: "length data < 2 ^ 29"
  shows "absorbed (sat_SHA1_Update ctx data) (m @ data)"
proof -
  define j where "j = length m mod 64"
  define a r where "a = take (length m - j) m" and "r = drop (length m - j) m"
  have m: "m = a @ r" by (simp add: a_def r_def)
  have a0: "length a mod 64 = 0" by (simp add: a_def j_def minus_mod_eq_mult_div)
  then obtain k where k: "length a = 64 * k" by auto
  have r: "length r = j" by (simp add: r_def j_def)
  have j: "j < 64" by (simp add: j_def)
  from c have st: "state ctx = foldl compress H0 (blocks a)" and cnt: "count ctx = bits (length m)"
    and lb: "length (buffer ctx) = 64" and buf: "take j (buffer ctx) = r"
    using j r a0 by (simp_all add: absorbed_def j_def [symmetric] r_def [symmetric]) (simp add: m blocks_append blocks_short)
  have fill: "unat (drop_bit 3 (fst (count ctx)) AND 63) = j"
    using fill_bits [of "length m"] by (simp add: cnt fill_def j_def)
  have cnt': "add_count (count ctx) (word_of_nat (length data)) = bits (length (m @ data))"
    using add_count_bits [OF len] by (simp add: cnt)
  show ?thesis
  proof (cases "j + length data > 63")
    case True
    define i where "i = 64 - j"
    define n where "n = i + 64 * ((length data - i) div 64)"
    define b where "b = memcpy_at (buffer ctx) j (take i data)"
    have i: "i \<le> length data" "i \<le> 64" using True by (simp_all add: i_def)
    have b: "b = r @ take i data" using buf lb i j by (simp add: b_def memcpy_at_def i_def)
    have lb': "length b = 64" using b r i j by (simp add: i_def)
    have n: "n \<le> length data" "length data - n = (length data - i) mod 64"
      using i(1) by (simp_all add: n_def minus_mult_div_eq_mod [symmetric])
    have u: "sat_SHA1_Update ctx data = ctx\<lparr>count := bits (length (m @ data)),
        state := foldl compress (compress (state ctx) b) (blocks (drop i data)), buffer := memcpy_at b 0 (drop n data)\<rparr>"
      using True by (simp add: sat_SHA1_Update_def fill cnt' Let_def block_loop_spec [OF i(1)] SHA1_Transform_compress
          b_def [symmetric] n_def [symmetric] flip: i_def)
    have md: "m @ data = a @ b @ drop i data" by (simp add: m b)
    have "blocks (m @ data) = blocks a @ b # blocks (drop i data)"
      unfolding md using blocks_append [OF a0, of "b @ drop i data"] blocks_Cons [OF lb', of "drop i data"] by simp
    moreover have "length (m @ data) mod 64 = length data - n"
    proof -
      have "length (m @ data) = (length data - i) + 64 * (k + 1)" using lb' i(1) k by (simp add: md)
      then show ?thesis by (simp only: n(2) mod_mult_self2)
    qed
    moreover define q where "q = length data - n"
    ultimately have q: "blocks (m @ data) = blocks a @ b # blocks (drop i data)" "length (m @ data) mod 64 = q"
      by (simp_all only:)
    have "q < 64" unfolding q_def n(2) by simp
    moreover have "length data = n + q" unfolding q_def using n(1) by linarith
    ultimately have "q \<le> 64" "length data = n + q" by linarith+
    then have "take q (memcpy_at b 0 (drop n data)) = drop (length (m @ data) - q) (m @ data)" "length (memcpy_at b 0 (drop n data)) = 64"
      using lb' by (simp_all add: memcpy_at_def)
    then show ?thesis unfolding u absorbed_def q by (simp add: st)
  next
    case False
    then have u: "sat_SHA1_Update ctx data = ctx\<lparr>count := bits (length (m @ data)), buffer := memcpy_at (buffer ctx) j data\<rparr>"
      by (simp add: sat_SHA1_Update_def fill cnt' Let_def)
    have md: "m @ data = a @ (r @ data)" by (simp add: m)
    have "length (r @ data) < 64" using r False by simp
    then have "blocks (m @ data) = blocks a" "length (m @ data) mod 64 = j + length data"
      unfolding md using a0 k r by (simp_all add: blocks_append blocks_short)
    then show ?thesis using False lb buf r
      by (simp add: u absorbed_def st memcpy_at_def) (simp add: m)
  qed
qed

lemma zeros_value: "k < 64 \<Longrightarrow> (120 - k) mod 64 = (if k \<le> 56 then 56 - k else 120 - k :: nat)"
proof -
  have "120 - k = 56 - k + 64" if "k \<le> 56" using that by simp
  then show "k < 64 \<Longrightarrow> ?thesis" by (auto simp only: mod_add_self2 split: if_splits) simp_all
qed

lemma zeros_step: "n mod 64 \<noteq> (56::nat) \<Longrightarrow> (120 - n mod 64) mod 64 = Suc ((120 - Suc n mod 64) mod 64)"
proof -
  assume n: "n mod 64 \<noteq> 56"
  have lt: "n mod 64 < 64" "Suc n mod 64 < 64" by simp_all
  show ?thesis unfolding zeros_value [OF lt(1)] zeros_value [OF lt(2)] using n lt by (auto simp: mod_Suc)
qed

lemma absorbed_pad_loop:
  "absorbed ctx m \<Longrightarrow> absorbed (pad_loop ctx) (m @ replicate ((120 - length m mod 64) mod 64) 0)"
proof (induction ctx arbitrary: m rule: pad_loop.induct)
  case (1 ctx)
  have f: "fst (count ctx) AND 504 = 448 \<longleftrightarrow> length m mod 64 = 56"
    using 1(2) by (simp add: fill_padding absorbed_def fill_bits)
  show ?case
  proof (cases "length m mod 64 = 56")
    case True
    then show ?thesis using 1(2) f by (subst pad_loop.simps) simp
  next
    case False
    have "absorbed (sat_SHA1_Update ctx [0]) (m @ [0])" using absorbed_Update [OF 1(2)] by simp
    from "1.IH" [OF _ this] False f zeros_step [OF False] show ?thesis
      by (subst pad_loop.simps) (simp add: replicate_append_same)
  qed
qed

lemma final_count: "map (\<lambda>i. ucast (drop_bit ((3 - (i mod 4)) * 8)
    (if 4 \<le> i then fst (bits n) else snd (bits n)) AND 255) :: u8) [0..<8] = be64 (word_of_nat (8 * n))"
proof -
  have m: "(255 :: u32) = mask 8" by (simp add: mask_eq_exp_minus_1)
  have lo: "ucast (drop_bit k (ucast w :: u32) AND 255) = (ucast (drop_bit k w) :: u8)" if "k \<le> 24" for w :: u64 and k
    unfolding m using that by (intro bit_word_eqI) (auto simp: bit_simps)
  have hi: "ucast (drop_bit k (ucast (drop_bit 32 w) :: u32) AND 255) = (ucast (drop_bit (32 + k) w) :: u8)" if "k \<le> 24" for w :: u64 and k
    unfolding m using that by (intro bit_word_eqI) (auto simp: bit_simps ac_simps)
  have u: "[0..<8] = [0, 1, 2, 3, 4, 5, 6, 7 :: nat]" by (simp add: upt_rec)
  show ?thesis unfolding be64_def bits_def Let_def u
    using lo [of 0] lo [of 8] lo [of 16] lo [of 24] hi [of 0] hi [of 8] hi [of 16] hi [of 24] by simp
qed

lemma digest_bytes:
  assumes "length st = 5"
  shows "map (\<lambda>i. ucast (drop_bit ((3 - (i mod 4)) * 8) (st ! (i div 4)) AND 255) :: u8) [0..<20] =
    concat (map (\<lambda>w::u32. [ucast (drop_bit 24 w), ucast (drop_bit 16 w), ucast (drop_bit 8 w), ucast w]) st)"
proof -
  have m: "(255 :: u32) = mask 8" by (simp add: mask_eq_exp_minus_1)
  have b: "ucast ((w::u32) AND 255) = (ucast w :: u8)" for w
    unfolding m by (rule bit_word_eqI) (auto simp: bit_simps)
  obtain a b c d e where "st = [a, b, c, d, e]" using assms by (auto simp: length_Suc_conv numeral_eq_Suc)
  moreover have "[0..<20] = [0, 1, 2, 3, 4, 5, 6, 7, 8, 9, 10, 11, 12, 13, 14, 15, 16, 17, 18, 19 :: nat]" by (simp add: upt_rec)
  ultimately show ?thesis by (simp add: b)
qed

lemma length_compress: "length st = 5 \<Longrightarrow> length (foldl compress st bs) = 5"
  by (induction bs arbitrary: st) (simp_all add: compress_def Let_def split: prod.split)

lemma Final_sha1: "absorbed ctx m \<Longrightarrow> snd (sat_SHA1_Final ctx) = sha1 m"
proof -
  assume c: "absorbed ctx m"
  define fc :: "u8 list" where "fc = be64 (word_of_nat (8 * length m))"
  have cnt: "count ctx = bits (length m)" using c by (simp add: absorbed_def)
  have 1: "absorbed (sat_SHA1_Update ctx [0x80]) (m @ [0x80])" using absorbed_Update [OF c] by simp
  have z: "(120 - Suc n mod 64) mod 64 = (119 - n mod 64) mod 64" for n :: nat
    by (cases "n mod 64 = 63") (simp_all add: mod_Suc)
  have "absorbed (sat_SHA1_Update (pad_loop (sat_SHA1_Update ctx [0x80])) fc) (fips_pad m)"
    using absorbed_Update [OF absorbed_pad_loop [OF 1], of fc] by (simp add: fips_pad_def z fc_def be64_def)
  then have st: "state (sat_SHA1_Update (pad_loop (sat_SHA1_Update ctx [0x80])) fc) = foldl compress H0 (blocks (fips_pad m))"
    by (simp add: absorbed_def)
  show ?thesis unfolding sat_SHA1_Final_def Let_def cnt final_count fc_def [symmetric] st snd_conv sha1_def
    by (rule digest_bytes) (simp add: length_compress H0_def)
qed

lemma absorbed_pieces:
  "absorbed ctx m \<Longrightarrow> \<forall>p\<in>set ps. length p < 2 ^ 29 \<Longrightarrow> absorbed (foldl sat_SHA1_Update ctx ps) (m @ concat ps)"
proof (induction ps arbitrary: ctx m)
  case (Cons p ps)
  then show ?case using Cons.IH [OF absorbed_Update] by simp
qed simp

text \<open>C37: Whatever an uninitialised context holds, feeding a message in pieces of less than half a gigabyte and
  finishing gives the SHA-1 digest of their concatenation; so does \<open>lsha1\<close>, for one piece.\<close>

theorem sha1_correct:
  assumes "length (buffer c) = 64" and "\<forall>p\<in>set ps. length p < 2 ^ 29"
  shows "snd (sat_SHA1_Final (foldl sat_SHA1_Update (sat_SHA1_Init c) ps)) = sha1 (concat ps) \<and>
    (length m < 2 ^ 29 \<longrightarrow> lsha1 c m = sha1 m)"
  using absorbed_pieces [OF absorbed_Init [OF assms(1)] assms(2)] absorbed_Update [OF absorbed_Init [OF assms(1)], of m]
  by (simp add: Final_sha1 lsha1_def)

theorem sha1_correct_witness:
  "let c = \<lparr>state = [], count = (7, 9), buffer = replicate 64 1\<rparr>
   in snd (sat_SHA1_Final (foldl sat_SHA1_Update (sat_SHA1_Init c) [[1, 2], [3]])) = sha1 [1, 2, 3] \<and>
      lsha1 c [5] = sha1 [5]"
  using sha1_correct [of "\<lparr>state = [], count = (7, 9), buffer = replicate 64 1\<rparr>" "[[1, 2], [3]]" "[5]"] by simp

text \<open>The authentication code of RFC 2104.\<close>

definition hmac_key :: "u8 list \<Rightarrow> u8 list" where
  "hmac_key key = (let k = (if length key > 64 then sha1 key else key) in k @ replicate (64 - length k) 0)"

lemma length_sha1: "length (sha1 m) = 20"
proof -
  have "length (foldl compress H0 (blocks (fips_pad m))) = 5" by (simp add: length_compress H0_def)
  then show ?thesis unfolding sha1_def by (simp add: length_concat o_def sum_list_triv)
qed

lemma length_hmac_key: "length (hmac_key key) = 64"
  by (simp add: hmac_key_def length_sha1 Let_def)

lemma pad_byte:
  "ucast (drop_bit (8 * (i mod 4)) (0x5c5c5c5c :: u32)) = (0x5c :: u8)"
  "ucast (drop_bit (8 * (i mod 4)) (0x5c5c5c5c XOR 0x36363636 :: u32)) = (0x6a :: u8)"
proof -
  have "i mod 4 = 0 \<or> i mod 4 = 1 \<or> i mod 4 = 2 \<or> i mod 4 = 3" by linarith
  then show "ucast (drop_bit (8 * (i mod 4)) (0x5c5c5c5c :: u32)) = (0x5c :: u8)"
    "ucast (drop_bit (8 * (i mod 4)) (0x5c5c5c5c XOR 0x36363636 :: u32)) = (0x6a :: u8)" by (elim disjE; simp)+
qed

lemma xor_key_pad:
  assumes "length k = 64"
  shows "xor_key k 0x5c5c5c5c = map (\<lambda>b. b XOR 0x5c) k"
    and "xor_key (map (\<lambda>b. b XOR 0x5c) k) (0x5c5c5c5c XOR 0x36363636) = map (\<lambda>b. b XOR 0x36) k"
proof -
  show "xor_key k 0x5c5c5c5c = map (\<lambda>b. b XOR 0x5c) k"
    unfolding xor_key_def pad_byte BLOCKSIZE_def by (rule nth_equalityI) (simp_all add: assms)
  have "((x :: u8) XOR 0x5c) XOR 0x6a = x XOR 0x36" for x
    by (simp only: xor.assoc) simp
  then show "xor_key (map (\<lambda>b. b XOR 0x5c) k) (0x5c5c5c5c XOR 0x36363636) = map (\<lambda>b. b XOR 0x36) k"
    unfolding xor_key_def pad_byte BLOCKSIZE_def by (intro nth_equalityI) (simp_all add: assms)
qed

text \<open>C38: for a key and a text of fewer than \<open>2 ^ 29\<close> bytes each (half a gigabyte, from where on the bit counter of the hash goes wrong, see
  \<open>sha1_count_overflow\<close>), \<open>lhmac_sha1\<close> computes the authentication code of RFC 2104: short keys are padded with zeros, keys longer than
  a block are hashed first.\<close>

theorem hmac_sha1_correct:
  assumes "length (buffer c) = 64" "length (buffer c1) = 64" "length (buffer c2) = 64"
    and "length key < 2 ^ 29" "length txt < 2 ^ 29"
  shows "lhmac_sha1 c c1 c2 key txt =
    sha1 (map (\<lambda>b. b XOR 0x5c) (hmac_key key) @ sha1 (map (\<lambda>b. b XOR 0x36) (hmac_key key) @ txt))"
proof -
  have rkey: "(if length key > BLOCKSIZE
      then memcpy_at (replicate BLOCKSIZE 0) 0 (snd (sat_SHA1_Final (sat_SHA1_Update (sat_SHA1_Init c) key)))
      else memcpy_at (replicate BLOCKSIZE 0) 0 key) = hmac_key key"
    using absorbed_Update [OF absorbed_Init [OF assms(1)] assms(4)]
    by (auto simp: Final_sha1 memcpy_at_def hmac_key_def BLOCKSIZE_def length_sha1)
  have two: "snd (sat_SHA1_Final (sat_SHA1_Update (sat_SHA1_Update (sat_SHA1_Init c) x) y)) = sha1 (x @ y)"
    if "length (buffer c) = 64" "length x < 2 ^ 29" "length y < 2 ^ 29" for c x y
    using absorbed_Update [OF absorbed_Update [OF absorbed_Init [OF that(1)] that(2)] that(3)] by (simp add: Final_sha1)
  show ?thesis
    unfolding lhmac_sha1_def Let_def rkey xor_key_pad [OF length_hmac_key]
    using assms by (simp add: two length_hmac_key length_sha1)
qed

theorem hmac_sha1_correct_witness:
  "let c = \<lparr>state = [], count = (7, 9), buffer = replicate 64 1\<rparr>
   in lhmac_sha1 c c c [1] [2, 3] =
    sha1 (map (\<lambda>b. b XOR 0x5c) (hmac_key [1]) @ sha1 (map (\<lambda>b. b XOR 0x36) (hmac_key [1]) @ [2, 3]))"
  using hmac_sha1_correct [of "\<lparr>state = [], count = (7, 9), buffer = replicate 64 1\<rparr>"
      "\<lparr>state = [], count = (7, 9), buffer = replicate 64 1\<rparr>" "\<lparr>state = [], count = (7, 9), buffer = replicate 64 1\<rparr>" "[1]" "[2, 3]"]
  by (simp add: Let_def)

text \<open>For a piece of half a gigabyte or more the carry of the bit counter is wrong: the sum, kept in 32 bits, is
  compared with the 64 bit shifted length, and the high half is one too large whenever the low half does not overflow.\<close>

lemma sha1_count_overflow:
  "add_count (bits 0) (2 ^ 29) = (0, 2) \<and> bits (2 ^ 29) = (0, 1)"
  by (simp add: add_count_def bits_def Let_def)

end
