(* ===== verification/Spec2Isabelle.thy ===== *)
theory Spec2Isabelle
  imports Locks MessageQueue Handle Timer Module HarborStream SocketStream Delivery Gate NetPack Seri Crypt Sha1
begin

text \<open>
  Verification of the skynet engine and its libraries, the C code under \<^verbatim>\<open>src/3rd/skynet\<close> on which the
  game server of this repository runs.

  \<^bold>\<open>The program.\<close> A node runs \<^emph>\<open>services\<close>. A service is an instance of a module (a shared library, found by
  \<^verbatim>\<open>skynet_module.c\<close>); the engine keeps a context for it (\<^verbatim>\<open>skynet_server.c\<close>) with a reference count, a
  callback and a message queue (\<^verbatim>\<open>skynet_mq.c\<close>), registered under a 32 bit handle (\<^verbatim>\<open>skynet_handle.c\<close>) and
  perhaps under names. Services send messages by handle or name; messages to other nodes go to the harbor
  service (\<^verbatim>\<open>skynet_harbor.c\<close>). Queues with messages wait in one global list, from which the worker threads of
  \<^verbatim>\<open>skynet_start.c\<close> take them; the timer thread turns timeouts into messages (\<^verbatim>\<open>skynet_timer.c\<close>), the monitor
  thread looks for callbacks that do not return (\<^verbatim>\<open>skynet_monitor.c\<close>), and the socket thread (\<^verbatim>\<open>socket_server.c\<close>)
  carries out what services ask of their sockets and tells them what arrives. Services act on the engine by text
  commands. On top of the engine there are the gate, which cuts the byte streams of clients into packets
  (\<^verbatim>\<open>service_gate.c\<close> with \<^verbatim>\<open>hashid.h\<close> and \<^verbatim>\<open>databuffer.h\<close>), the harbor service, which carries messages between nodes
  (\<^verbatim>\<open>service_harbor.c\<close>), and the libraries for Lua services: package framing
  (\<^verbatim>\<open>lua-netpack.c\<close>), serialisation (\<^verbatim>\<open>lua-seri.c\<close>) and cryptography (\<^verbatim>\<open>lua-crypt.c\<close>, \<^verbatim>\<open>lsha1.c\<close>).

  \<^bold>\<open>The theories\<close>, in the order of their imports:
  \<^item> Prelude: faults as values (\<open>res\<close>), checked memory access, machine integers, the locales \<open>safety\<close> (an
    inductive invariant holds in all reachable states) and for queues and maps, shared lemmas.
  \<^item> Locks: \<^verbatim>\<open>spinlock.h\<close>, \<^verbatim>\<open>rwlock.h\<close>, one step per atomic instruction; mutual exclusion.
  \<^item> MessageQueue: the ring buffer, the global list and the release protocol; FIFO refinement, no lost
    wake-ups, no faults. The section on views says what each operation changes.
  \<^item> Handle: the open addressed handle table with rehash and the sorted name array.
  \<^item> Timer: the timing wheel with its cascades; refinement to one list per expiration time.
  \<^item> CString, Engine: the part of the C string library that is used, and constants of the interface.
  \<^item> Module: the search path, the module table and the symbols of a module.
  \<^item> Server: contexts, references, sending, routing, the log, environment and monitor (record \<open>server\<close>).
  \<^item> Command: the commands, creation of services, the run of their programs, and dispatch.
  \<^item> ServerInv, ServerSafe: the invariant of the server, and that all calls keep it. The locale
    \<open>service_launcher\<close> states what the commands need of \<open>skynet_context_new\<close> and is interpreted on it.
  \<^item> Node: the start of a node and the steps of its threads (\<open>engine_step\<close>).
  \<^item> Delivery: what a send, the end of a queue, a turn of a worker and the monitor do to messages.
  \<^item> HashId, DataBuffer, Gate: the gate service.
  \<^item> Harbor, HarborSafe, HarborStream: the harbor service (record \<open>harbor\<close>, callback \<open>mainloop\<close>): links to other nodes, global
    names and the queues of messages that wait for them; ownership of the blocks, and the service as a channel.
  \<^item> SocketServer, SocketSafe, SocketStream: the socket server (record \<open>socket_server\<close>, loop \<open>poll_turn\<close>): the table of sockets, the control
    pipe, write buffers of two priorities and events; its invariant under all threads, and the order of the bytes of a socket.
  \<^item> NetPack, Seri, Crypt, Des, Sha1: the libraries.
  \<^item> this theory: the properties of the running node, over all its components.

  \<^bold>\<open>How the code is modelled.\<close> A C function is a function that takes the state it changes and returns the new
  state or a fault (a failed assertion, a null or dangling pointer, an index outside of an array, an
  uninitialised cell, a size too large for the \<^verbatim>\<open>int\<close> it is kept in). Contexts, queues and the blocks of the harbor service are numbers that are
  not used again, so their use after free is \<open>Bad_pointer\<close>. The data blocks of messages in the engine are not tracked in this way:
  \<open>Server.skynet_free\<close> takes the block from the heap and appends it to the list \<open>freed\<close>, and a second free is a second entry, not a
  fault; the theorems of Delivery say which blocks are freed and how often. Faults that a service causes by its arguments have names of
  their own (\<open>Null_parameter\<close>, \<open>Missing_word\<close>). Integers have the width of the source where they can wrap; the indices of the growing
  rings, which are \<^verbatim>\<open>int\<close> in the code, are natural numbers, and the theorems bound them where they can pass \<open>2 ^ 31\<close>. The regions that
  the code protects by a lock are atomic; for the queue protocol and the locks every interleaving of
  these regions is covered. In the theories on the server a turn of a thread (the dispatch of one batch, a launch, a
  timer update, a monitor check) is one step, and the reachable states are those between turns. The lemmas on single calls are universal in
  the references \<open>R\<close> that running code holds, the queues \<open>B\<close> in its hands and the number \<open>V\<close> of reserved contexts. The release and
  signal functions of modules are events of the trace and have no effect on the engine.

  \<^bold>\<open>What is not under src/ or not C\<close> is an argument: the dynamic loader, the functions of modules, the clock,
  opening files, printing of floating point numbers (record \<open>platform\<close> in Command); random numbers (Crypt). The code of
  a service is any tree of calls (\<open>prog\<close>), so the theorems hold for all services that act on the engine
  through its interface.

  \<^bold>\<open>Bounds.\<close> The nesting of launches in init functions has a bound \<open>depth\<close>, as the C stack has; exceeding it is
  \<open>Out_of_fuel\<close>, one of the \<open>soft\<close> faults. The passes of \<open>handle_retireall\<close> and the messages dropped by
  \<open>release_queue\<close> are bounded by the number of slots and by the length of the queue, and the lemmas
  \<open>handle_retireall_ok\<close> and \<open>drop_messages_spec\<close> show that the bounds are enough. Fuel in Gate, Harbor, NetPack, Seri and Sha1 is
  shown to be enough in the same way. A handle is issued again after \<open>2 ^ 24\<close> registrations; if the
  queue of its last owner still exists then, the model stops with \<open>Handle_clash\<close>.

  \<^bold>\<open>What is shown\<close>, besides the properties of the single components: in every state between the turns of the threads of a
  node no dangling context, queue or module is used by the next turn (\<open>engine_safe\<close>), reference counts, queues and the count of
  contexts are right (\<open>engine_consistent\<close>), and the calls of services keep it so (\<open>service_calls_wf\<close>); a message sent arrives once, unchanged, at
  the end of the receiver's queue (\<open>skynet_send_correct\<close>); the senders of messages that a dead service
  leaves behind are told (\<open>dead_queue_replies\<close>); no service can keep a worker for itself by a full queue (\<open>dispatch_bounded\<close>);
  messages between nodes arrive unchanged and in order (\<open>harbor_roundtrip\<close>), also when their receiver's name becomes known
  only later (\<open>harbor_names_kept\<close>); the socket thread fails no assertion, whatever the system answers (\<open>sockets_safe\<close>), and the packages sent
  on a socket leave it whole and in order of their priority (\<open>socket_stream\<close>).

  \<^bold>\<open>What the theorems leave out.\<close> Sizes: a message queue of at most \<open>2 ^ 30\<close> slots, socket ids \<open>i\<close> with \<open>i + cap \<le> 2 ^ 31\<close> in
  \<^verbatim>\<open>hashid.h\<close>, less than \<open>2 ^ 31\<close> buffered bytes in the gate (\<open>admissible\<close>), packages below \<open>2 ^ 31\<close> bytes on sockets, and the sizes that
  \<^verbatim>\<open>lua-seri.c\<close> and \<^verbatim>\<open>lua-crypt.c\<close> keep in an \<^verbatim>\<open>int\<close>, beyond which the model stops with \<open>Int_overflow\<close>. Socket thread: a poll turn and a request
  of a service are one step each, low priority data are plain buffers, and requests name ids whose creation is already in the
  pipe (\<open>net_step\<close>); each of these conditions belongs to a finding. Harbor: data for a socket without a link
  is not legal input (\<open>harbor_legal\<close>), since the code frees its buffer twice (lemma \<open>harbor_double_free\<close>). The limits of the Lua stack
  (\<^verbatim>\<open>luaL_checkstack\<close>) and of the C stack in \<^verbatim>\<open>lua-seri.c\<close> are not modelled.

  \<^bold>\<open>Not modelled.\<close> In the socket layer (\<^verbatim>\<open>socket_server.c\<close>, \<^verbatim>\<open>skynet_socket.c\<close>) the system calls are arguments: resolving addresses, binding and
  listening, reading, writing and the event poll with all their answers. The socket thread is not composed with the node: its messages appear there as
  arbitrary pushes, and as the socket events of Gate, Harbor and NetPack. That the network keeps the order of the bytes
  between two nodes is an assumption. The Lua host, the logger and the bindings for Lua only pass
  calls on. The contents of log files (\<^verbatim>\<open>skynet_log.c\<close>) are
  events of the trace. The creation and joining of threads, the daemon, the configuration file and the
  allocator hook are operating system glue. The failure of \<^verbatim>\<open>vsnprintf\<close> in \<open>skynet_error\<close> is left out.
  Within the turn of a thread the calls of other threads are not interleaved; two windows of the code that this
  hides are recorded as findings: a context is rehashed before its handle is stored, and
  \<open>skynet_context_new\<close> uses a context after it gave up its own reference.
\<close>

section \<open>The threads of a node\<close>

definition node_reachable :: "platform \<Rightarrow> nat \<Rightarrow> u32 \<Rightarrow> string \<Rightarrow> timer \<Rightarrow> engine \<Rightarrow> bool" where
  "node_reachable pf depth hb path T = reachable (engine_start (server_start hb path T)) (engine_step pf depth)"

lemma node_inv: "node_reachable pf depth hb path T e \<Longrightarrow> engine_inv e"
  unfolding node_reachable_def by (rule threads.reachable_inv)

lemma push_returns: "srv_inv R B V s \<Longrightarrow> \<exists>r. skynet_context_push s h m = Inr r"
  by (rule context_push_ok [of R B V s h m]) auto

lemma endless_returns:
  assumes inv: "srv_inv R B V s"
  obtains s' where "skynet_context_endless s h = Inr s'" "srv_inv R B V s'"
proof (cases "skynet_handle_grab (handle_field s) (H s) h")
  case None
  then show ?thesis using that [of s] inv by (cases rule: handle_grab_ok [OF inv, of h]) (auto simp: skynet_context_endless_def)
next
  case (Some c)
  then obtain x where "ctxs s c = Some x" by (cases rule: handle_grab_ok [OF inv, of h]) auto
  with endless_spec [OF inv Some this] show ?thesis
    using that [of "set_ctx c (x\<lparr>endless := True\<rparr>) s"] inv_set_ctx [OF inv, of c x "x\<lparr>endless := True\<rparr>"] by simp
qed

lemma error_returns: "srv_inv R B V s \<Longrightarrow> \<exists>s'. skynet_error s None msg = Inr s'"
  using error_keeps [of R B V s None msg] by auto

lemma monitor_check_returns: "srv_inv R B V s \<Longrightarrow> \<exists>r. skynet_monitor_check s sm = Inr r"
proof -
  assume inv: "srv_inv R B V s"
  obtain t where t: "skynet_context_endless s (mon_destination sm) = Inr t" "srv_inv R B V t"
    by (rule endless_returns [OF inv])
  show ?thesis
  proof (cases "version sm = check_version sm \<and> mon_destination sm \<noteq> 0")
    case True
    then show ?thesis using t(1) error_returns [OF t(2)] unfolding skynet_monitor_check_def
      by (metis andThen_simps(2))
  next
    case False
    then show ?thesis by (auto simp: skynet_monitor_check_def)
  qed
qed

lemma hup_returns: "srv_inv R B V s \<Longrightarrow> \<exists>s'. signal_hup s = Inr s'"
proof -
  assume inv: "srv_inv R B V s"
  obtain h where "skynet_handle_findname (H s) ''logger'' = Inr h" using findname_spec [OF inv_fields(5) [OF inv]] by blast
  moreover obtain r where "skynet_context_push s h
      \<lparr>source = 0, session = 0, data = 0, sz = push_bit MESSAGE_TYPE_SHIFT (word_of_int PTYPE_SYSTEM)\<rparr> = Inr r"
    using push_returns [OF inv] by blast
  ultimately show ?thesis by (simp add: signal_hup_def case_prod_beta)
qed

text \<open>C6: turns of threads that follow one another use no memory that is gone. A state is reachable when it lies between turns: a
  turn of a worker (one batch of messages), the launch of a service, an update of the timer, a check of the monitor each
  run as one step of \<open>engine_step\<close>, with any modules and services. From every such state a turn of a worker and a
  launch end without dereferencing a dangling or missing context, queue or module and without an index outside
  of the engine's tables. The faults that can end them are exactly those listed: a failed assertion; \<^verbatim>\<open>NULL\<close> passed by a
  service for the text of a command that is dereferenced (\<open>Null_parameter\<close>); a \<^verbatim>\<open>NAME\<close> command with a word missing, which makes
  \<open>cmd_name\<close> read an array that was not set (\<open>Missing_word\<close>); the exit of the process; launches
  nested deeper than \<open>depth\<close>; a handle issued again while the queue of its last owner exists. Pushing a message, checking a worker and the
  signal to reopen the log cannot fail in such a state at all. Calls of other threads in the middle of a turn are outside
  of this statement (the windows in \<open>skynet_context_new\<close> are findings).
\<close>

theorem engine_safe:
  assumes "node_reachable pf depth hb path T e"
  shows "(worker_pc e i = Running \<and> worker_turn pf depth i e = Inl f \<longrightarrow>
       f \<in> {Assert_failed, Null_parameter, Missing_word, Exited, Out_of_fuel, Handle_clash}) \<and>
    (skynet_context_new pf depth (srv e) nm param = Inl f \<longrightarrow>
       f \<in> {Assert_failed, Null_parameter, Missing_word, Exited, Out_of_fuel, Handle_clash}) \<and>
    (\<exists>r. skynet_context_push (srv e) h m = Inr r) \<and> (\<exists>r. skynet_monitor_check (srv e) (monitors e i) = Inr r) \<and>
    (\<exists>s. signal_hup (srv e) = Inr s)"
proof -
  have inv: "engine_inv e" by (rule node_inv [OF assms])
  then have s: "srv_inv {#} (busy (worker_queue e)) (reserved e) (srv e)" by (simp add: engine_inv_def)
  have "f \<in> soft" if "worker_pc e i = Running" "worker_turn pf depth i e = Inl f"
    using worker_turn_ok [OF inv that(1), of pf depth] that(2) by simp
  moreover have "f \<in> soft" if "skynet_context_new pf depth (srv e) nm param = Inl f"
    using context_new_ok [OF s, of pf depth nm param] that by simp
  ultimately show ?thesis
    using push_returns [OF s] monitor_check_returns [OF s] hup_returns [OF s] unfolding soft_def [symmetric] by blast
qed

text \<open>C7: between the turns of its threads a node is consistent. A turn of a worker, a launch, an update of the timer and a
  check of the monitor are one step each; the references that a thread takes and gives back within its turn and
  a context that is still being built do not appear in these states. In each of them the reference count of a context is 1 for
  the handle table and 1 for the harbor, as far as they refer to it; a registered context exists, has a queue
  with its handle that is not marked for release, and is counted. A queue with messages, or of a dead
  context, is in the global list, which is acyclic, or in the hands of exactly one worker, and the number of
  sleeping workers that the other threads go by is the true one.
\<close>

theorem engine_consistent:
  assumes "node_reachable pf depth hb path T e"
  shows "(\<forall>c x. ctxs (srv e) c = Some x \<longrightarrow>
       ref x = (if c \<in> live (H (srv e)) then 1 else 0) + (if REMOTE (srv e) = Some c then 1 else 0) \<and> 0 < ref x \<and>
       (\<exists>q. mqs (Q (srv e)) (ctx_queue x) = Some q \<and> MessageQueue.handle q = ctx_handle x \<and> release q = 0)) \<and>
    (\<forall>c \<in> live (H (srv e)). ctxs (srv e) c \<noteq> None) \<and>
    total (srv e) = int (card (dom (ctxs (srv e)))) - reserved e \<and>
    (\<exists>as. gq_rep (Q (srv e)) as \<and>
       (\<forall>a q. mqs (Q (srv e)) a = Some q \<longrightarrow> mq_contents q \<noteq> [] \<or> release q \<noteq> 0 \<longrightarrow>
          a \<in> set as \<and> (\<forall>i. worker_queue e i \<noteq> Some a) \<or> (\<exists>!i. worker_queue e i = Some a))) \<and>
    sleep e = int (card {i. worker_pc e i = Waiting})"
proof -
  have inv: "engine_inv e" by (rule node_inv [OF assms])
  let ?s = "srv e"
  have s: "srv_inv {#} (busy (worker_queue e)) (reserved e) ?s" and oo: "one_owner (worker_queue e)"
    using inv by (simp_all add: engine_inv_def)
  have ctx: "ref x = (if c \<in> live (H ?s) then 1 else 0) + (if REMOTE ?s = Some c then 1 else 0) \<and> 0 < ref x \<and>
      (\<exists>q. mqs (Q ?s) (ctx_queue x) = Some q \<and> MessageQueue.handle q = ctx_handle x \<and> release q = 0)"
    if "ctxs ?s c = Some x" for c x
    using inv_fields(6) [OF s that] by (simp add: context_ok_def refs_def qshape_iff)
  obtain as where as: "sys_rep (Q ?s) (busy (worker_queue e)) as" using inv_rep [OF s] by blast
  have own: "a \<in> set as \<and> (\<forall>i. worker_queue e i \<noteq> Some a) \<or> (\<exists>!i. worker_queue e i = Some a)"
    if "mqs (Q ?s) a = Some q" "mq_contents q \<noteq> [] \<or> release q \<noteq> 0" for a q
  proof -
    have "node_ok (set as \<union> busy (worker_queue e)) a q" by (rule sys_rep_node [OF as that(1)])
    then have "a \<in> set as \<union> busy (worker_queue e)" using that(2) by (auto simp: node_ok_def split: if_splits)
    moreover have "set as \<inter> busy (worker_queue e) = {}" using as by (simp add: sys_rep_def)
    ultimately show ?thesis using oo by (auto simp: busy_def one_owner_def)
  qed
  have gq: "gq_rep (Q ?s) as" using as by (simp add: sys_rep_def)
  have lv: "\<forall>c \<in> live (H ?s). ctxs ?s c \<noteq> None" using inv_live [OF s] by blast
  have sl: "sleep e = int (card {i. worker_pc e i = Waiting})" using inv by (simp add: engine_inv_def sleepers_def)
  show ?thesis by (rule conjI, intro allI impI, erule ctx) (intro conjI exI [of _ as] lv gq sl inv_fields(8) [OF s] allI impI own)
qed

lemma demo_reachable_node: "node_reachable demo_platform 1 1 ''./?.so'' timer_create_timer (engine_start demo_node)"
proof -
  have "engine_step demo_platform 1 (engine_start demo_start) ((engine_start demo_start)\<lparr>srv := demo_node\<rparr>)"
    by (rule engine_step.launch [where r = "Some 0" and nm = "''logger''" and param = None])
      (simp only: engine_start_def engine.simps demo_launch_node [unfolded demo_launch_def])
  then show ?thesis unfolding node_reachable_def demo_start_def
    by (intro reachable.step [OF reachable.start]) (simp add: engine_start_def)
qed

theorem engine_safe_witness:
  "node_reachable demo_platform 1 1 ''./?.so'' timer_create_timer (engine_start demo_node) \<and>
   (\<exists>r. skynet_context_push demo_node 0x1000001 \<lparr>source = 0, session = 0, data = 0, sz = 0\<rparr> = Inr r) \<and>
   (\<exists>s. signal_hup demo_node = Inr s)"
  using engine_safe [OF demo_reachable_node] demo_reachable_node by (simp add: engine_start_def)

theorem engine_consistent_witness:
  "(\<exists>x. ctxs demo_node 0 = Some x \<and> ref x = 1) \<and> total demo_node = int (card (dom (ctxs demo_node)))"
proof -
  obtain x where x: "ctxs demo_node 0 = Some x" using demo_facts(2) by auto
  note c = engine_consistent [OF demo_reachable_node, unfolded engine_start_def engine.simps]
  have "REMOTE demo_node = None" by code_simp
  then have "ref x = 1" using c [THEN conjunct1, rule_format, OF x] by (auto split: if_splits)
  moreover have "total demo_node = int (card (dom (ctxs demo_node)))" using c by simp
  ultimately show ?thesis using x by simp
qed

text \<open>C8: no service can bring the engine out of order: whatever calls of the interface the code of a
  service makes, in its init function or in a callback, with whatever arguments and as long as it is referred to, the
  invariant \<open>srv_inv\<close> of contexts, reference counts, handles, names, queues and modules
  holds after every run, the references and queues that other code holds included. Only the soft faults can end the run.
\<close>

theorem service_calls_wf:
  assumes "srv_inv R B V s" and "c \<in># R"
  shows "ends_in soft (run_prog (skynet_context_new pf depth) pf c prg s) (\<lambda>(s', r). srv_inv R B V s')"
  by (rule ends_in_weaken [OF engine.safe_run [OF assms]]) auto

theorem service_calls_wf_witness:
  "\<exists>s s'. srv_inv {#0#} {} 0 s \<and>
     run_prog (skynet_context_new demo_platform 1) demo_platform 0 (Cmd ''GETENV'' (Some ''x'') (\<lambda>r. Return (r = None))) s = Inr (s', True) \<and>
     srv_inv {#0#} {} 0 s'"
proof -
  obtain x where x: "ctxs demo_node 0 = Some x" using demo_facts(2) by auto
  let ?s = "set_ctx 0 (x\<lparr>ref := ref x + 1\<rparr>) demo_node"
  let ?p = "Cmd ''GETENV'' (Some ''x'') (\<lambda>r. Return (r = None))"
  have inv: "srv_inv {#0#} {} 0 ?s" using inv_grab [OF demo_node_inv x] by simp
  have e: "env ?s ''x'' = None" by (simp add: set_ctx_def) code_simp
  have run: "run_prog (skynet_context_new demo_platform 1) demo_platform 0 ?p ?s = Inr (?s, True)"
    by (simp add: skynet_command_def cmd_funcs_def cmd_getenv_def need_def skynet_getenv_def e)
  have "srv_inv {#0#} {} 0 ?s" using service_calls_wf [OF inv, of 0 demo_platform 1 ?p] unfolding run by simp
  with inv run show ?thesis by blast
qed

end
